(* ===== verification/Prelude.thy ===== *)
theory Prelude
  imports Main "HOL-Library.Word"
begin

text \<open>
  Shared vocabulary of the development.  Addresses, sizes and indices of the C++ code are
  natural numbers; where the code's unsigned arithmetic can wrap, the wrap is written out as
  \<open>mod 2 ^ 64\<close> (\<open>size_t\<close>, \<open>uintptr_t\<close>, \<open>unsigned long\<close>) or \<open>mod 2 ^ 32\<close>
  (\<open>unsigned int\<close>).  The random number generators and the bitmap words live on
  \<open>64 word\<close>.  The null pointer is the address 0.

  The collections \<open>heap_simps\<close> (unfolding of small accessors) and \<open>inv_rules\<close>
  (preservation of invariants) are filled by the component theories.
\<close>

unbundle bit_operations_syntax

named_theorems heap_simps
named_theorems inv_rules

type_synonym addr = nat
type_synonym u64 = "64 word"
type_synonym u32 = "32 word"
type_synonym byte = "8 word"

section \<open>Unsigned arithmetic of C on natural numbers\<close>

text \<open>Subtraction of two \<open>size_t\<close> and of two \<open>unsigned int\<close> values: it wraps.\<close>

definition sub64 :: "nat \<Rightarrow> nat \<Rightarrow> nat" where
  "sub64 a b = (a + 2 ^ 64 - b mod 2 ^ 64) mod 2 ^ 64"

definition sub32 :: "nat \<Rightarrow> nat \<Rightarrow> nat" where
  "sub32 a b = (a + 2 ^ 32 - b mod 2 ^ 32) mod 2 ^ 32"

lemma wrap_sub: "b \<le> a \<Longrightarrow> a < (m::nat) \<Longrightarrow> (a + m - b mod m) mod m = a - b"
proof -
  assume le: "b \<le> a" and lt: "a < m"
  then have "(a + m - b mod m) = (a - b) + m" by simp
  then have "(a + m - b mod m) mod m = (a - b) mod m" by simp
  with lt show ?thesis by simp
qed

lemma sub64_le: "b \<le> a \<Longrightarrow> a < 2 ^ 64 \<Longrightarrow> sub64 a b = a - b"
  unfolding sub64_def by (rule wrap_sub)

lemma sub64_less_bound: "sub64 a b < 2 ^ 64"
  by (simp add: sub64_def)

lemma sub32_le: "b \<le> a \<Longrightarrow> a < 2 ^ 32 \<Longrightarrow> sub32 a b = a - b"
  unfolding sub32_def by (rule wrap_sub)

lemma sub32_zero_one: "sub32 0 1 = 2 ^ 32 - 1"
  by (simp add: sub32_def)

section \<open>Masks and powers of two\<close>

lemma and_pred_pow2: "(n::nat) AND (2 ^ k - 1) = n mod 2 ^ k"
  by (simp only: mask_eq_exp_minus_1 [symmetric] take_bit_eq_mask [symmetric] take_bit_eq_mod)

lemma and_pred_pow2_Suc [simp]: "(n::nat) AND (2 ^ k - Suc 0) = n mod 2 ^ k"
  using and_pred_pow2 [of n k] by simp

lemma drop_bit_nat_div: "drop_bit k (n::nat) = n div 2 ^ k"
  by (simp add: drop_bit_eq_div)

lemma push_bit_nat_mult: "push_bit k (n::nat) = n * 2 ^ k"
  by (simp add: push_bit_eq_mult)

lemma and_odd_pred:
  fixes m :: nat shows "(2 * m + 1) AND (2 * m) = 2 * m"
proof -
  have "(2 * m + 1) AND (2 * m) = of_bool False + 2 * (((2 * m + 1) div 2) AND ((2 * m) div 2))"
    by (subst and_rec) simp
  then show ?thesis by simp
qed

lemma and_even_pred:
  fixes m :: nat assumes "0 < m" shows "(2 * m) AND (2 * m - 1) = 2 * (m AND (m - 1))"
proof -
  have half: "(2 * m - 1) div 2 = m - 1" using assms by linarith
  have "(2 * m) AND (2 * m - 1) = of_bool False + 2 * (((2 * m) div 2) AND ((2 * m - 1) div 2))"
    by (subst and_rec) simp
  with half show ?thesis by simp
qed

section \<open>Words read as natural numbers\<close>

lemma unat_less_64: "unat (w :: u64) < 2 ^ 64"
  using unsigned_less [of w] by simp

lemma unat_less_32: "unat (w :: u32) < 2 ^ 32"
  using unsigned_less [of w] by simp

lemma unat_word_add_less:
  "unat a + unat b < 2 ^ LENGTH('a) \<Longrightarrow> unat (a + b :: 'a::len word) = unat a + unat b"
  by (simp add: unat_word_ariths)

section \<open>Lists updated by index\<close>

lemma nth_list_update_if: "i < length xs \<Longrightarrow> xs[i := x] ! j = (if i = j then x else xs ! j)"
  by simp

lemma foldl_fixed:
  assumes "\<And>x. x \<in> set xs \<Longrightarrow> f s x = s"
  shows "foldl f s xs = s"
  using assms by (induction xs) auto

lemma card_less_filter: "card {i. i < (n::nat) \<and> P i} = length (filter P [0..<n])"
proof -
  have "card (set (filter P [0..<n])) = length (filter P [0..<n])"
    by (rule distinct_card) simp
  moreover have "set (filter P [0..<n]) = {i. i < n \<and> P i}" by auto
  ultimately show ?thesis by simp
qed

lemma finite_less_conj [simp]: "finite {i. i < (n::nat) \<and> P i}"
  by (rule finite_subset [of _ "{..<n}"]) auto

lemma card_less_conj_insert:
  assumes "i < (n::nat)" and "\<not> P i"
  shows "card {j. j < n \<and> (j = i \<or> P j)} = Suc (card {j. j < n \<and> P j})"
proof -
  have "{j. j < n \<and> (j = i \<or> P j)} = insert i {j. j < n \<and> P j}" using assms by auto
  moreover have "i \<notin> {j. j < n \<and> P j}" using assms by simp
  ultimately show ?thesis by simp
qed

lemma card_less_conj_remove:
  assumes "i < (n::nat)" and "P i"
  shows "Suc (card {j. j < n \<and> j \<noteq> i \<and> P j}) = card {j. j < n \<and> P j}"
proof -
  have "{j. j < n \<and> P j} = insert i {j. j < n \<and> j \<noteq> i \<and> P j}" using assms by auto
  then show ?thesis by simp
qed

section \<open>Options\<close>

lemma option_eqI_Some: "(\<And>w. x = Some w \<longleftrightarrow> y = Some w) \<Longrightarrow> x = y"
  by (cases x; cases y) auto

section \<open>Rings of indices\<close>

lemma ring_next: "((b + d) mod n + 1) mod n = (b + Suc d) mod (n::nat)"
  by (simp add: mod_Suc_eq)

lemma ring_inj_le: "d \<le> e \<Longrightarrow> e < (n::nat) \<Longrightarrow> (b + d) mod n = (b + e) mod n \<Longrightarrow> d = e"
proof -
  assume "d \<le> e" and e: "e < n" and eq: "(b + d) mod n = (b + e) mod n"
  then have "n dvd (b + e) - (b + d)" using mod_eq_dvd_iff_nat [of "b + d" "b + e" n] by simp
  then have "n dvd e - d" by simp
  with \<open>d \<le> e\<close> e show "d = e" by (auto dest: dvd_imp_le)
qed

lemma ring_inj:
  assumes "d < n" and "e < (n::nat)"
  shows "(b + d) mod n = (b + e) mod n \<longleftrightarrow> d = e"
  using ring_inj_le [of d e n b] ring_inj_le [of e d n b] assms by (cases "d \<le> e") auto

lemma first_stop:
  assumes "\<exists>d < (n::nat). P d"
  obtains f where "f < n" "P f" "\<And>e. e < f \<Longrightarrow> \<not> P e"
proof -
  have "P (LEAST d. P d)" "(LEAST d. P d) < n"
    using assms by (auto intro: LeastI Least_le [THEN le_less_trans])
  then show thesis using that not_less_Least by metis
qed

end
