(* ===== verification/Bitmap.thy ===== *)
theory Bitmap
  imports Prelude
begin

text \<open>
  \<open>BitMap\<close> of \<open>src/include/util/bitmap.h\<close>: a dynamically sized array of 64-bit words, one bit
  per element, and the sequential reading of \<open>AtomicBitMap\<close>
  (\<open>src/include/util/atomicbitmap.h\<close>), whose interleavings are in theory \<open>AtomicBitmap\<close>.
  The memory \<open>Heap::malloc\<close> returns is an argument of \<open>reserve\<close>: \<open>None\<close> for a null result,
  otherwise the words with their arbitrary contents.  An access outside the array is undefined
  in C++ and unspecified here; every law has the bound as its hypothesis.

  The locale \<open>bit_store\<close> is the interface the clients (the miniheaps, \<open>RandomMmap\<close>) rely on; it is
  interpreted on both implementations.
\<close>

section \<open>The interface\<close>

locale bit_store =
  fixes inv :: "'s \<Rightarrow> bool"
    and cap :: "'s \<Rightarrow> nat"
    and bits :: "'s \<Rightarrow> nat set"
    and try_set :: "nat \<Rightarrow> 's \<Rightarrow> bool \<times> 's"
    and clear_bit :: "nat \<Rightarrow> 's \<Rightarrow> bool \<times> 's"
    and test :: "nat \<Rightarrow> 's \<Rightarrow> bool"
  assumes bits_cap: "inv s \<Longrightarrow> bits s \<subseteq> {..<cap s}"
    and try_set_inv: "inv s \<Longrightarrow> i < cap s \<Longrightarrow> inv (snd (try_set i s))"
    and try_set_cap: "inv s \<Longrightarrow> i < cap s \<Longrightarrow> cap (snd (try_set i s)) = cap s"
    and try_set_won: "inv s \<Longrightarrow> i < cap s \<Longrightarrow> fst (try_set i s) \<longleftrightarrow> i \<notin> bits s"
    and try_set_bits: "inv s \<Longrightarrow> i < cap s \<Longrightarrow> bits (snd (try_set i s)) = insert i (bits s)"
    and clear_bit_inv: "inv s \<Longrightarrow> i < cap s \<Longrightarrow> inv (snd (clear_bit i s))"
    and clear_bit_cap: "inv s \<Longrightarrow> i < cap s \<Longrightarrow> cap (snd (clear_bit i s)) = cap s"
    and clear_bit_won: "inv s \<Longrightarrow> i < cap s \<Longrightarrow> fst (clear_bit i s) \<longleftrightarrow> i \<in> bits s"
    and clear_bit_bits: "inv s \<Longrightarrow> i < cap s \<Longrightarrow> bits (snd (clear_bit i s)) = bits s - {i}"
    and test_bits: "inv s \<Longrightarrow> i < cap s \<Longrightarrow> test i s \<longleftrightarrow> i \<in> bits s"
begin

lemmas store_laws = try_set_inv try_set_cap try_set_won try_set_bits
  clear_bit_inv clear_bit_cap clear_bit_won clear_bit_bits test_bits

lemma set_then_clear:
  assumes "inv s" and "i < cap s" and "fst (try_set i s)"
  shows "fst (clear_bit i (snd (try_set i s)))
    \<and> bits (snd (clear_bit i (snd (try_set i s)))) = bits s"
  using assms by (auto simp: store_laws)

lemma clear_twice:
  assumes "inv s" and "i < cap s"
  shows "\<not> fst (clear_bit i (snd (clear_bit i s)))"
  using assms by (simp add: store_laws)

lemma set_twice:
  assumes "inv s" and "i < cap s"
  shows "\<not> fst (try_set i (snd (try_set i s)))"
  using assms by (simp add: store_laws)

lemma finite_bits: "inv s \<Longrightarrow> finite (bits s)"
  using bits_cap finite_subset by blast

lemma card_bits_le: "inv s \<Longrightarrow> card (bits s) \<le> cap s"
  using card_mono [OF _ bits_cap, of s] by simp

lemma card_try_set:
  assumes "inv s" and "i < cap s"
  shows "card (bits (snd (try_set i s))) = card (bits s) + (if fst (try_set i s) then 1 else 0)"
  using assms finite_bits [of s] by (auto simp: store_laws insert_absorb)

lemma card_clear_bit:
  assumes "inv s" and "i < cap s"
  shows "card (bits (snd (clear_bit i s))) + (if fst (clear_bit i s) then 1 else 0) = card (bits s)"
  using assms finite_bits [of s] card_Suc_Diff1 [of "bits s" i] by (auto simp: store_laws)

end

section \<open>The bit array\<close>

record bitmap =
  bitarray :: "u64 list option"
  elements :: nat

definition BitMap :: bitmap where
  "BitMap = \<lparr>bitarray = None, elements = 0\<rparr>"

definition bm_words :: "bitmap \<Rightarrow> u64 list" where
  "bm_words b = (case bitarray b of None \<Rightarrow> [] | Some ws \<Rightarrow> ws)"

definition bm_clear :: "bitmap \<Rightarrow> bitmap" where
  "bm_clear b =
     (case bitarray b of
        None \<Rightarrow> b
      | Some ws \<Rightarrow>
          b\<lparr>bitarray := Some (replicate (elements b div 64) 0 @ drop (elements b div 64) ws)\<rparr>)"

definition reserve :: "nat \<Rightarrow> u64 list option \<Rightarrow> bitmap \<Rightarrow> bitmap" where
  "reserve nelts buf b =
     bm_clear (b\<lparr>elements := 64 * ((nelts + 63) mod 2 ^ 64 div 64), bitarray := buf\<rparr>)"

definition getMask :: "nat \<Rightarrow> u64" where
  "getMask pos = push_bit pos 1"

definition computeItemPosition :: "nat \<Rightarrow> nat \<times> nat" where
  "computeItemPosition index = (drop_bit 6 index mod 2 ^ 32, index AND 63)"

definition tryToSet :: "nat \<Rightarrow> bitmap \<Rightarrow> bool \<times> bitmap" where
  "tryToSet index b =
     (let (item, position) = computeItemPosition index;
          mask = getMask position;
          oldvalue = bm_words b ! item
      in (\<not> (oldvalue AND mask \<noteq> 0),
          b\<lparr>bitarray := Some ((bm_words b)[item := oldvalue OR mask])\<rparr>))"

definition reset :: "nat \<Rightarrow> bitmap \<Rightarrow> bool \<times> bitmap" where
  "reset index b =
     (let (item, position) = computeItemPosition index;
          oldvalue = bm_words b ! item;
          newvalue = oldvalue AND NOT (getMask position)
      in (oldvalue \<noteq> newvalue, b\<lparr>bitarray := Some ((bm_words b)[item := newvalue])\<rparr>))"

definition isSet :: "nat \<Rightarrow> bitmap \<Rightarrow> bool" where
  "isSet index b =
     (let (item, position) = computeItemPosition index
      in bm_words b ! item AND getMask position \<noteq> 0)"

text \<open>\<open>AtomicBitMap\<close> with no other thread between its load and its compare-and-swap.\<close>

definition atomic_tryToSet :: "nat \<Rightarrow> bitmap \<Rightarrow> bool \<times> bitmap" where
  "atomic_tryToSet index b =
     (let (item, position) = computeItemPosition index;
          mask = getMask position;
          oldvalue = bm_words b ! item
      in if oldvalue AND mask \<noteq> 0 then (False, b)
         else (True, b\<lparr>bitarray := Some ((bm_words b)[item := oldvalue OR mask])\<rparr>))"

definition atomic_reset :: "nat \<Rightarrow> bitmap \<Rightarrow> bool \<times> bitmap" where
  "atomic_reset index b =
     (let (item, position) = computeItemPosition index;
          mask = getMask position;
          oldvalue = bm_words b ! item;
          newvalue = oldvalue AND NOT mask
      in if oldvalue = newvalue then (False, b)
         else (True, b\<lparr>bitarray := Some ((bm_words b)[item := newvalue])\<rparr>))"

definition atomic_isSet :: "nat \<Rightarrow> bitmap \<Rightarrow> bool" where
  "atomic_isSet index b =
     (let (item, position) = computeItemPosition index;
          value = bm_words b ! item
      in (value AND getMask position) \<noteq> 0)"

section \<open>Invariant and abstraction\<close>

definition bm_inv :: "bitmap \<Rightarrow> bool" where
  "bm_inv b \<longleftrightarrow> bitarray b \<noteq> None \<and> elements b = 64 * length (bm_words b) \<and> elements b < 2 ^ 38"

definition bm_bits :: "bitmap \<Rightarrow> nat set" where
  "bm_bits b = {i. i < elements b \<and> bit (bm_words b ! (i div 64)) (i mod 64)}"

lemma computeItemPosition_eq:
  assumes "index < 2 ^ 38"
  shows "computeItemPosition index = (index div 64, index mod 64)"
proof -
  have "index div 64 < 2 ^ 32" using assms by simp
  moreover have "index AND 63 = index mod 64" using and_pred_pow2 [of index 6] by simp
  ultimately show ?thesis by (simp add: computeItemPosition_def drop_bit_nat_div)
qed

lemma and_getMask [simp]: "w AND getMask p = 0 \<longleftrightarrow> \<not> bit w p"
  by (simp add: getMask_def and_exp_eq_0_iff_not_bit push_bit_eq_mult)

lemma bit_or_getMask: "p < 64 \<Longrightarrow> bit (w OR getMask p) q \<longleftrightarrow> bit w q \<or> q = p"
  by (auto simp: getMask_def bit_simps)

lemma bit_and_not_getMask: "bit (w AND NOT (getMask p)) q \<longleftrightarrow> bit w q \<and> q \<noteq> p"
  by (auto simp: getMask_def bit_simps dest: bit_imp_le_length)

lemma and_not_getMask_eq: "w = w AND NOT (getMask p) \<longleftrightarrow> \<not> bit w p"
  by (metis bit_and_not_getMask bit_eqI)

lemma bm_index:
  assumes "bm_inv b" and "i < elements b"
  shows "i < 2 ^ 38" and "i div 64 < length (bm_words b)"
  using assms by (auto simp: bm_inv_def)

lemma div_mod_64_eq: "i div 64 = j div 64 \<and> i mod 64 = j mod 64 \<longleftrightarrow> i = (j::nat)"
  by (metis div_mult_mod_eq)

lemma bm_words_upd [simp]: "bm_words (b\<lparr>bitarray := Some ws\<rparr>) = ws"
  by (simp add: bm_words_def)

lemma bm_bits_upd:
  assumes "bm_inv b" and "i < elements b"
    and "\<And>q. bit w q \<longleftrightarrow> (if q = i mod 64 then v else bit (bm_words b ! (i div 64)) q)"
  shows "bm_bits (b\<lparr>bitarray := Some ((bm_words b)[i div 64 := w])\<rparr>)
    = (if v then insert i (bm_bits b) else bm_bits b - {i})"
proof -
  have "bit ((bm_words b)[i div 64 := w] ! (j div 64)) (j mod 64)
      \<longleftrightarrow> (if j = i then v else bit (bm_words b ! (j div 64)) (j mod 64))"
    if "j < elements b" for j
    using assms bm_index [OF assms(1,2)] div_mod_64_eq [of i j]
    by (cases "i div 64 = j div 64") (auto simp: nth_list_update)
  then show ?thesis using assms(2) by (auto simp: bm_bits_def split: if_splits)
qed

lemma bm_inv_upd [inv_rules]:
  "bm_inv b \<Longrightarrow> bm_inv (b\<lparr>bitarray := Some ((bm_words b)[k := w])\<rparr>)"
  by (simp add: bm_inv_def)

lemma tryToSet_eq:
  assumes "bm_inv b" and "i < elements b"
  shows "tryToSet i b = (i \<notin> bm_bits b,
     b\<lparr>bitarray := Some ((bm_words b)[i div 64 := bm_words b ! (i div 64) OR getMask (i mod 64)])\<rparr>)"
  using assms bm_index [OF assms]
  by (simp add: tryToSet_def computeItemPosition_eq Let_def bm_bits_def)

lemma reset_eq:
  assumes "bm_inv b" and "i < elements b"
  shows "reset i b = (i \<in> bm_bits b,
     b\<lparr>bitarray := Some ((bm_words b)[i div 64 := bm_words b ! (i div 64) AND NOT (getMask (i mod 64))])\<rparr>)"
  using assms bm_index [OF assms]
  by (simp add: reset_def computeItemPosition_eq and_not_getMask_eq Let_def bm_bits_def)

lemma isSet_eq: "bm_inv b \<Longrightarrow> i < elements b \<Longrightarrow> isSet i b \<longleftrightarrow> i \<in> bm_bits b"
  using bm_index [of b i]
  by (simp add: isSet_def computeItemPosition_eq Let_def bm_bits_def)

lemma bm_bits_tryToSet:
  assumes "bm_inv b" and "i < elements b"
  shows "bm_bits (snd (tryToSet i b)) = insert i (bm_bits b)"
  using bm_bits_upd [OF assms, of _ True] assms
  by (simp add: tryToSet_eq bit_or_getMask)

lemma bm_bits_reset:
  assumes "bm_inv b" and "i < elements b"
  shows "bm_bits (snd (reset i b)) = bm_bits b - {i}"
  using bm_bits_upd [OF assms, of _ False] assms
  by (simp add: reset_eq bit_and_not_getMask)

lemma bm_inv_tryToSet [inv_rules]: "bm_inv b \<Longrightarrow> i < elements b \<Longrightarrow> bm_inv (snd (tryToSet i b))"
  by (simp add: tryToSet_eq bm_inv_upd)

lemma bm_inv_reset [inv_rules]: "bm_inv b \<Longrightarrow> i < elements b \<Longrightarrow> bm_inv (snd (reset i b))"
  by (simp add: reset_eq bm_inv_upd)

lemma elements_tryToSet [simp]: "elements (snd (tryToSet i b)) = elements b"
  by (simp add: tryToSet_def Let_def split: prod.splits)

lemma elements_reset [simp]: "elements (snd (reset i b)) = elements b"
  by (simp add: reset_def Let_def split: prod.splits)

lemma fst_tryToSet: "bm_inv b \<Longrightarrow> i < elements b \<Longrightarrow> fst (tryToSet i b) \<longleftrightarrow> i \<notin> bm_bits b"
  by (simp add: tryToSet_eq)

lemma fst_reset: "bm_inv b \<Longrightarrow> i < elements b \<Longrightarrow> fst (reset i b) \<longleftrightarrow> i \<in> bm_bits b"
  by (simp add: reset_eq)

lemma bm_bits_elements: "bm_bits b \<subseteq> {..<elements b}"
  by (auto simp: bm_bits_def)

lemmas bitmap_ops = bm_bits_elements fst_tryToSet fst_reset bm_bits_tryToSet bm_bits_reset isSet_eq
  bm_inv_tryToSet bm_inv_reset

interpretation plain: bit_store bm_inv elements bm_bits tryToSet reset isSet
  by unfold_locales (simp_all add: bitmap_ops)

text \<open>
  The lock-free operations, uncontended, give the same answers and the same bits; a failed
  attempt does not write at all.
\<close>

lemma bm_upd_same:
  assumes "bm_inv b" and "k < length (bm_words b)"
  shows "b\<lparr>bitarray := Some ((bm_words b)[k := bm_words b ! k])\<rparr> = b"
  using assms by (cases b) (auto simp: bm_inv_def bm_words_def)

lemma or_getMask_same: "bit w p \<Longrightarrow> w OR getMask p = w"
  by (rule bit_eqI) (auto simp: getMask_def bit_simps)

lemma atomic_tryToSet_eq:
  assumes "bm_inv b" and "i < elements b"
  shows "atomic_tryToSet i b = tryToSet i b"
  using assms bm_index [OF assms] bm_upd_same [OF assms(1), of "i div 64"]
  by (simp add: atomic_tryToSet_def tryToSet_def computeItemPosition_eq Let_def or_getMask_same)

lemma atomic_reset_eq:
  assumes "bm_inv b" and "i < elements b"
  shows "atomic_reset i b = reset i b"
proof -
  let ?w = "bm_words b ! (i div 64)" and ?p = "i mod 64"
  have "?w AND NOT (getMask ?p) = ?w" if "\<not> bit ?w ?p"
    using that and_not_getMask_eq [of ?w ?p] by simp
  then show ?thesis
    using assms bm_index [OF assms] bm_upd_same [OF assms(1), of "i div 64"]
    by (auto simp: atomic_reset_def reset_def computeItemPosition_eq Let_def and_not_getMask_eq)
qed

lemma atomic_isSet_eq: "atomic_isSet i b = isSet i b"
  by (simp add: atomic_isSet_def isSet_def Let_def)

interpretation atomic: bit_store bm_inv elements bm_bits atomic_tryToSet atomic_reset atomic_isSet
  by unfold_locales
    (simp_all add: bitmap_ops atomic_tryToSet_eq atomic_reset_eq atomic_isSet_eq)

section \<open>Reserving\<close>

text \<open>
  \<open>reserve\<close> rounds up to whole words and clears whatever the memory held, given that
  \<open>Heap::malloc\<close> returned as many words as were asked for.
\<close>

lemma reserve_elements: "elements (reserve n buf b) = 64 * ((n + 63) mod 2 ^ 64 div 64)"
  by (simp add: reserve_def bm_clear_def split: option.splits)

lemma reserve_cap:
  assumes "n < 2 ^ 37"
  shows "n \<le> elements (reserve n buf b) \<and> elements (reserve n buf b) < n + 64"
  using assms by (simp add: reserve_elements) linarith

lemma bm_words_reserve:
  "length ws = (n + 63) mod 2 ^ 64 div 64 \<Longrightarrow>
    bm_words (reserve n (Some ws) b) = replicate ((n + 63) mod 2 ^ 64 div 64) 0"
  by (simp add: reserve_def bm_clear_def bm_words_def)

lemma reserve_inv:
  assumes "n < 2 ^ 37" and "length ws = (n + 63) mod 2 ^ 64 div 64"
  shows "bm_inv (reserve n (Some ws) b)"
  using assms reserve_cap [OF assms(1), of "Some ws" b] bm_words_reserve [OF assms(2), of b]
  by (simp add: bm_inv_def reserve_elements) (simp add: reserve_def bm_clear_def)

lemma reserve_bits:
  assumes "length ws = (n + 63) mod 2 ^ 64 div 64"
  shows "bm_bits (reserve n (Some ws) b) = {}"
  using bm_words_reserve [OF assms, of b] by (auto simp: bm_bits_def reserve_elements)

section \<open>Properties\<close>

text \<open>On an allocated bitmap of fewer than \<open>2 ^ 38\<close> bits, the lock-free operations without contention and
  the plain ones give the same answers and the same contents: \<open>tryToSet\<close> succeeds exactly when the bit was clear
  and sets only that bit, \<open>reset\<close> succeeds exactly when it was set and clears only that bit.\<close>

theorem bitmap_is_a_set:
  assumes "bm_inv b" and "i < elements b"
  shows "atomic_tryToSet i b = tryToSet i b \<and> atomic_reset i b = reset i b \<and> atomic_isSet i b = isSet i b
    \<and> fst (tryToSet i b) = (\<not> isSet i b) \<and> fst (reset i b) = isSet i b
    \<and> bm_bits (snd (tryToSet i b)) = insert i (bm_bits b) \<and> bm_bits (snd (reset i b)) = bm_bits b - {i}
    \<and> bm_inv (snd (tryToSet i b)) \<and> bm_inv (snd (reset i b))"
  using assms by (simp add: bitmap_ops atomic_tryToSet_eq atomic_reset_eq atomic_isSet_eq)

theorem bitmap_is_a_set_witness:
  "let b = reserve 100 (Some [7, 9]) BitMap in
     fst (tryToSet 70 b) = (\<not> isSet 70 b) \<and> bm_bits (snd (tryToSet 70 b)) = insert 70 (bm_bits b)"
  using bitmap_is_a_set [of "reserve 100 (Some [7, 9]) BitMap" 70] reserve_inv [of 100 "[7, 9]" BitMap]
  by (simp add: reserve_elements)

text \<open>After \<open>reserve\<close> the bitmap has room for every index asked for, wastes less than a word, and
  is empty whatever the memory held before.\<close>

theorem reserve_fresh:
  assumes "n < 2 ^ 37" and "length ws = (n + 63) div 64"
  shows "bm_inv (reserve n (Some ws) b) \<and> n \<le> elements (reserve n (Some ws) b)
    \<and> elements (reserve n (Some ws) b) < n + 64 \<and> bm_bits (reserve n (Some ws) b) = {}"
  using assms reserve_inv [OF assms(1), of ws b] reserve_cap [OF assms(1), of "Some ws" b] reserve_bits [of ws n b]
  by simp

theorem reserve_fresh_witness:
  "bm_inv (reserve 65 (Some [1, 2]) BitMap) \<and> 65 \<le> elements (reserve 65 (Some [1, 2]) BitMap)
   \<and> elements (reserve 65 (Some [1, 2]) BitMap) < 65 + 64 \<and> bm_bits (reserve 65 (Some [1, 2]) BitMap) = {}"
  by (rule reserve_fresh) simp_all

end
