(* ===== verification/AtomicBitmap.thy ===== *)
theory AtomicBitmap
  imports Bitmap
begin

text \<open>
  The interleavings of \<open>AtomicBitMap::tryToSet\<close> and \<open>AtomicBitMap::reset\<close>
  (\<open>src/include/util/atomicbitmap.h\<close>): any number of threads, each between operations or in the
  retry loop with the value it loaded last.  One step is one atomic access: the first load, the
  early return when there is nothing to do, a successful compare-and-swap, or a failed one (real
  or spurious, as \<open>compare_exchange_weak\<close> allows), which reloads the value.  Accesses to one
  word are taken in a single order (coherence of one atomic object).

  The refinement theorem: the operations that return \<open>true\<close>, in the order of their successful
  compare-and-swaps, are a sequential run of \<open>BitMap\<close> in which every operation returns true and
  which ends in the shared bitmap.
\<close>

datatype bit_op = TrySet nat | Reset nat

fun op_index :: "bit_op \<Rightarrow> nat" where
  "op_index (TrySet i) = i"
| "op_index (Reset i) = i"

text \<open>The body of the loop: \<open>None\<close> is the early \<open>return false\<close>, otherwise the new word.\<close>

fun op_new :: "bit_op \<Rightarrow> u64 \<Rightarrow> u64 option" where
  "op_new (TrySet i) oldvalue =
     (let mask = getMask (snd (computeItemPosition i))
      in if oldvalue AND mask \<noteq> 0 then None else Some (oldvalue OR mask))"
| "op_new (Reset i) oldvalue =
     (let mask = getMask (snd (computeItemPosition i));
          newvalue = oldvalue AND NOT mask
      in if oldvalue = newvalue then None else Some newvalue)"

datatype bit_pc = Idle | Looping bit_op u64

record bit_sys =
  shared :: bitmap
  pcs :: "nat \<Rightarrow> bit_pc"
  hist :: "(nat \<times> bit_op \<times> bool) list"

abbreviation op_word :: "bit_op \<Rightarrow> bitmap \<Rightarrow> u64" where
  "op_word op b \<equiv> bm_words b ! fst (computeItemPosition (op_index op))"

inductive bit_step :: "bit_sys \<Rightarrow> bit_sys \<Rightarrow> bool" where
  load: "pcs s t = Idle \<Longrightarrow> op_index op < elements (shared s) \<Longrightarrow>
    bit_step s (s\<lparr>pcs := (pcs s)(t := Looping op (op_word op (shared s)))\<rparr>)"
| give_up: "pcs s t = Looping op oldvalue \<Longrightarrow> op_new op oldvalue = None \<Longrightarrow>
    bit_step s (s\<lparr>pcs := (pcs s)(t := Idle), hist := hist s @ [(t, op, False)]\<rparr>)"
| cas_ok: "pcs s t = Looping op oldvalue \<Longrightarrow> op_new op oldvalue = Some newvalue \<Longrightarrow>
    op_word op (shared s) = oldvalue \<Longrightarrow>
    bit_step s (s\<lparr>shared := (shared s)\<lparr>bitarray :=
        Some ((bm_words (shared s))[fst (computeItemPosition (op_index op)) := newvalue])\<rparr>,
      pcs := (pcs s)(t := Idle), hist := hist s @ [(t, op, True)]\<rparr>)"
| cas_retry: "pcs s t = Looping op oldvalue \<Longrightarrow> op_new op oldvalue = Some newvalue \<Longrightarrow>
    bit_step s (s\<lparr>pcs := (pcs s)(t := Looping op (op_word op (shared s)))\<rparr>)"

inductive bit_reach :: "bitmap \<Rightarrow> bit_sys \<Rightarrow> bool" for b0 where
  start: "bit_reach b0 \<lparr>shared = b0, pcs = \<lambda>_. Idle, hist = []\<rparr>"
| step: "bit_reach b0 s \<Longrightarrow> bit_step s s' \<Longrightarrow> bit_reach b0 s'"

section \<open>The sequential run of the winners\<close>

fun run_op :: "bit_op \<Rightarrow> bitmap \<Rightarrow> bool \<times> bitmap" where
  "run_op (TrySet i) b = tryToSet i b"
| "run_op (Reset i) b = reset i b"

fun replay :: "bitmap \<Rightarrow> bit_op list \<Rightarrow> bitmap option" where
  "replay b [] = Some b"
| "replay b (op # ops) =
     (if op_index op < elements b \<and> fst (run_op op b) then replay (snd (run_op op b)) ops else None)"

definition winners :: "(nat \<times> bit_op \<times> bool) list \<Rightarrow> bit_op list" where
  "winners h = map (\<lambda>(t, op, r). op) (filter (\<lambda>(t, op, r). r) h)"

lemma winners_snoc [simp]:
  "winners (h @ [(t, op, True)]) = winners h @ [op]"
  "winners (h @ [(t, op, False)]) = winners h"
  "winners [] = []"
  by (simp_all add: winners_def)

lemma replay_append:
  "replay b (xs @ ys) = (case replay b xs of None \<Rightarrow> None | Some b' \<Rightarrow> replay b' ys)"
  by (induction xs arbitrary: b) auto

lemma op_new_run_op:
  assumes "bm_inv b" and "op_index op < elements b" and "op_new op (op_word op b) = Some w"
  shows "fst (run_op op b)"
    and "snd (run_op op b) =
      b\<lparr>bitarray := Some ((bm_words b)[fst (computeItemPosition (op_index op)) := w])\<rparr>"
  using assms
  by (cases op; auto simp: tryToSet_def reset_def Let_def case_prod_beta split: if_splits)+

definition bit_sys_inv :: "bit_sys \<Rightarrow> bool" where
  "bit_sys_inv s \<longleftrightarrow> bm_inv (shared s) \<and>
     (\<forall>t op w. pcs s t = Looping op w \<longrightarrow> op_index op < elements (shared s))"

lemma bit_step_inv:
  assumes "bit_step s s'" and "bit_sys_inv s"
  shows "bit_sys_inv s'"
  using assms by (cases rule: bit_step.cases) (auto simp: bit_sys_inv_def bm_inv_upd)

lemma bit_step_replay:
  assumes "bit_step s s'" and "bit_sys_inv s" and "replay b0 (winners (hist s)) = Some (shared s)"
  shows "replay b0 (winners (hist s')) = Some (shared s')"
  using assms(1)
proof (cases rule: bit_step.cases)
  case (cas_ok t op oldvalue newvalue)
  have "op_index op < elements (shared s)" "bm_inv (shared s)"
    using assms(2) cas_ok by (auto simp: bit_sys_inv_def)
  with cas_ok op_new_run_op [of "shared s" op newvalue] show ?thesis
    by (simp add: replay_append assms(3))
qed (use assms(3) in auto)

lemma bit_reach_replay:
  assumes "bit_reach b0 s" and "bm_inv b0"
  shows "bit_sys_inv s \<and> replay b0 (winners (hist s)) = Some (shared s)"
  using assms(1)
proof (induction rule: bit_reach.induct)
  case start
  show ?case using assms(2) by (simp add: bit_sys_inv_def)
next
  case (step s s')
  then show ?case using bit_step_inv bit_step_replay by blast
qed

section \<open>One winner between two resets\<close>

lemma bm_inv_run_op [inv_rules]:
  "bm_inv b \<Longrightarrow> op_index op < elements b \<Longrightarrow> bm_inv (snd (run_op op b))"
  by (cases op) (simp_all add: inv_rules)

lemma elements_run_op [simp]: "elements (snd (run_op op b)) = elements b"
  by (cases op) simp_all

lemma run_op_member:
  assumes "bm_inv b" and "op_index op < elements b" and "fst (run_op op b)"
  shows "of_bool (i \<in> bm_bits (snd (run_op op b))) + of_bool (op = Reset i)
    = of_bool (i \<in> bm_bits b) + (of_bool (op = TrySet i) :: nat)"
  using assms by (cases op) (auto simp: bitmap_ops)

lemma replay_count:
  assumes "replay b ops = Some b'" and "bm_inv b"
  shows "of_bool (i \<in> bm_bits b') + count_list ops (Reset i)
    = of_bool (i \<in> bm_bits b) + count_list ops (TrySet i)"
  using assms
proof (induction ops arbitrary: b)
  case (Cons op ops)
  then have ok: "op_index op < elements b" "fst (run_op op b)"
    and rest: "replay (snd (run_op op b)) ops = Some b'" by (auto split: if_splits)
  have "of_bool (i \<in> bm_bits b') + count_list ops (Reset i)
      = of_bool (i \<in> bm_bits (snd (run_op op b))) + count_list ops (TrySet i)"
    using rest Cons.prems(2) ok by (intro Cons.IH) (simp_all add: inv_rules)
  with run_op_member [OF Cons.prems(2) ok, of i] show ?case
    by (cases "op = Reset i"; cases "op = TrySet i") auto
qed simp

lemma at_most_one_ahead:
  assumes "bit_reach b0 s" and "bm_inv b0" and "i \<notin> bm_bits b0"
  shows "count_list (winners (hist s)) (TrySet i) \<le> count_list (winners (hist s)) (Reset i) + 1"
  using bit_reach_replay [OF assms(1,2)] replay_count [of b0 "winners (hist s)" "shared s" i] assms(2,3)
  by (cases "i \<in> bm_bits (shared s)") auto

text \<open>A thread that runs alone leaves its loop after at most one retry.\<close>

lemma solo_finishes:
  assumes "pcs s t = Looping op w"
  shows "\<exists>s' s''. (s' = s \<or> bit_step s s') \<and> bit_step s' s'' \<and> pcs s'' t = Idle"
proof (cases "op_new op w")
  case None
  with assms have "bit_step s (s\<lparr>pcs := (pcs s)(t := Idle), hist := hist s @ [(t, op, False)]\<rparr>)"
    by (rule bit_step.give_up)
  then show ?thesis by force
next
  case (Some w')
  let ?s = "s\<lparr>pcs := (pcs s)(t := Looping op (op_word op (shared s)))\<rparr>"
  have step: "bit_step s ?s" using assms Some by (rule bit_step.cas_retry)
  have "\<exists>s''. bit_step ?s s'' \<and> pcs s'' t = Idle"
  proof (cases "op_new op (op_word op (shared s))")
    case None
    then show ?thesis using bit_step.give_up [of ?s t op] by force
  next
    case (Some w'')
    then show ?thesis using bit_step.cas_ok [of ?s t op _ w''] by force
  qed
  with step show ?thesis by blast
qed

section \<open>Properties\<close>

text \<open>C16: Under every interleaving of any number of threads, the shared lock-free bitmap is what running the
  successful operations one after another, in the order of their compare-and-swaps, on the plain bitmap gives,
  each of them succeeding there too.\<close>

theorem atomic_linearizable:
  assumes "bit_reach b0 s" and "bm_inv b0"
  shows "replay b0 (winners (hist s)) = Some (shared s)"
  using bit_reach_replay [OF assms] by simp

theorem atomic_linearizable_witness:
  "\<exists>s :: bit_sys. hist s = [(1, TrySet 3, True)] \<and> replay (reserve 64 (Some [0]) BitMap) (winners (hist s)) = Some (shared s)"
proof -
  define b where "b = reserve 64 (Some [0]) BitMap"
  define s1 where "s1 = \<lparr>shared = b, pcs = (\<lambda>_. Idle)(1 := Looping (TrySet 3) 0), hist = []\<rparr>"
  define s2 where "s2 = s1\<lparr>shared := b\<lparr>bitarray := Some [8]\<rparr>, pcs := (pcs s1)(1 := Idle),
    hist := [(1, TrySet 3, True)]\<rparr>"
  have b: "bm_words b = [0]" "elements b = 64" "bm_inv b"
    using reserve_inv [of 64 "[0]" BitMap] by (simp_all add: b_def bm_words_reserve reserve_elements)
  have "bit_step \<lparr>shared = b, pcs = \<lambda>_. Idle, hist = []\<rparr> s1"
    using bit_step.load [of "\<lparr>shared = b, pcs = \<lambda>_. Idle, hist = []\<rparr>" 1 "TrySet 3"] b
    by (simp add: s1_def computeItemPosition_def)
  moreover have "bit_step s1 s2"
    using bit_step.cas_ok [of s1 1 "TrySet 3" 0 8] b
    by (simp add: s1_def s2_def computeItemPosition_def getMask_def)
  ultimately have "bit_reach b s2" using bit_reach.intros by blast
  note lin = atomic_linearizable [OF this b(3)]
  show ?thesis by (rule exI [of _ s2]) (use lin in \<open>simp add: s2_def flip: b_def\<close>)
qed

text \<open>Two threads never own the same slot: whatever the interleaving, the successful \<open>tryToSet\<close>s of
  an initially clear bit exceed its successful \<open>reset\<close>s by at most one, and a thread that runs alone leaves its
  retry loop within two steps.\<close>

theorem atomic_one_owner:
  assumes "bit_reach b0 s" and "bm_inv b0" and "i \<notin> bm_bits b0"
  shows "count_list (winners (hist s)) (TrySet i) \<le> count_list (winners (hist s)) (Reset i) + 1
    \<and> (\<forall>t op w. pcs s t = Looping op w \<longrightarrow>
         (\<exists>s' s''. (s' = s \<or> bit_step s s') \<and> bit_step s' s'' \<and> pcs s'' t = Idle))"
  using at_most_one_ahead [OF assms] solo_finishes by blast

theorem atomic_one_owner_witness:
  "\<exists>s. bit_reach (reserve 64 (Some [0]) BitMap) s
     \<and> count_list (winners (hist s)) (TrySet 3) \<le> count_list (winners (hist s)) (Reset 3) + 1"
  using atomic_one_owner [OF bit_reach.start, of "reserve 64 (Some [0]) BitMap" 3] reserve_inv [of 64 "[0]" BitMap]
    reserve_bits [of "[0]" 64 BitMap] bit_reach.start by fastforce

end
