(* ===== verification/MathUtil.thy ===== *)
theory MathUtil
  imports Prelude
begin

text \<open>
  The arithmetic helpers of \<open>src/include/math\<close> and \<open>src/include/static\<close>: the compile-time
  logarithm \<open>staticlog\<close>, the ceiling logarithm \<open>log2\<close> in its four variants, the half-log
  size classes, the power-of-two test and \<open>modulo\<close>.  The lemmas show that \<open>log2\<close> is the
  ceiling of the logarithm, that all variants agree where they return, and that
  \<open>modulo\<close> is the remainder.
\<close>

section \<open>Compile-time logarithm\<close>

function staticlog :: "int \<Rightarrow> nat" where
  "staticlog v =
     (if v = 1 then 0
      else if v = 2 then 1
      else if v > 1 then staticlog (v div 2) + 1
      else 0)"
  by pat_completeness auto
termination by (relation "measure nat") auto

declare staticlog.simps [simp del]

lemma staticlog_pow2 [simp]: "staticlog (2 ^ k) = k"
proof (induction k)
  case 0
  show ?case by (simp add: staticlog.simps)
next
  case (Suc k)
  show ?case
  proof (cases "k = 0")
    case True
    then show ?thesis by (simp add: staticlog.simps)
  next
    case False
    then have big: "(2::int) < 2 ^ Suc k"
      using power_strict_increasing [of 1 "Suc k" "2::int"] by simp
    then have "staticlog (2 ^ Suc k) = staticlog (2 ^ Suc k div 2) + 1"
      by (subst staticlog.simps) simp
    with Suc.IH show ?thesis by simp
  qed
qed

section \<open>Power-of-two test and remainder\<close>

definition IsPowerOfTwo :: "nat \<Rightarrow> bool" where
  "IsPowerOfTwo N = (\<not> (N AND (N - 1)) \<noteq> 0 \<and> N \<noteq> 0)"

lemma pow2_and_pred: "(2 ^ k :: nat) AND (2 ^ k - 1) = 0"
  by (simp only: and_pred_pow2 mod_self)

lemma and_pred_zero_pow2:
  fixes n :: nat
  assumes "n \<noteq> 0" and "n AND (n - 1) = 0"
  shows "\<exists>k. n = 2 ^ k"
  using assms
proof (induction n rule: less_induct)
  case (less n)
  show ?case
  proof (cases "even n")
    case True
    then obtain m where n: "n = 2 * m" by (elim evenE)
    with less.prems have m: "0 < m" by simp
    have "2 * (m AND (m - 1)) = 0"
      using less.prems(2) and_even_pred [OF m] n by simp
    then have "m AND (m - 1) = 0" by simp
    with less.IH [of m] n m obtain k where "m = 2 ^ k" by auto
    with n have "n = 2 ^ Suc k" by simp
    then show ?thesis ..
  next
    case False
    then obtain m where n: "n = 2 * m + 1" by (elim oddE)
    then have "2 * m = 0" using less.prems(2) and_odd_pred [of m] by simp
    with n have "n = 2 ^ 0" by simp
    then show ?thesis ..
  qed
qed

lemma IsPowerOfTwo_iff: "IsPowerOfTwo n \<longleftrightarrow> (\<exists>k. n = 2 ^ k)"
proof
  assume "IsPowerOfTwo n"
  then show "\<exists>k. n = 2 ^ k" using and_pred_zero_pow2 by (simp add: IsPowerOfTwo_def)
next
  assume "\<exists>k. n = 2 ^ k"
  then obtain k where "n = 2 ^ k" ..
  then show "IsPowerOfTwo n" using pow2_and_pred [of k] by (simp add: IsPowerOfTwo_def)
qed

definition modulo :: "nat \<Rightarrow> nat \<Rightarrow> nat" where
  "modulo B v = (if IsPowerOfTwo B then v AND (B - 1) else v mod B)"

lemma modulo_eq_mod [heap_simps]: "modulo B v = v mod B"
proof (cases "IsPowerOfTwo B")
  case True
  then obtain k where "B = 2 ^ k" by (auto simp: IsPowerOfTwo_iff)
  then show ?thesis using True and_pred_pow2 [of v k] by (simp add: modulo_def)
qed (simp add: modulo_def)

section \<open>The ceiling logarithm\<close>

text \<open>\<open>std::bit_width\<close> of the C++ library, and the instructions the older variants use.\<close>

fun bit_width :: "nat \<Rightarrow> nat" where
  "bit_width n = (if n = 0 then 0 else Suc (bit_width (n div 2)))"

declare bit_width.simps [simp del]

definition bsr :: "nat \<Rightarrow> nat" where
  "bsr n = bit_width n - 1"

definition clzl :: "nat \<Rightarrow> nat" where
  "clzl n = 64 - bit_width n"

lemma bit_width_0 [simp]: "bit_width 0 = 0"
  by (simp add: bit_width.simps)

lemma bit_width_bounds: "n \<noteq> 0 \<Longrightarrow> 2 ^ (bit_width n - 1) \<le> n \<and> n < 2 ^ bit_width n"
proof (induction n rule: bit_width.induct)
  case (1 n)
  show ?case
  proof (cases "n div 2 = 0")
    case True
    with 1 have "n = 1" by linarith
    then show ?thesis by (simp add: bit_width.simps)
  next
    case False
    with 1 have IH: "2 ^ (bit_width (n div 2) - 1) \<le> n div 2" "n div 2 < 2 ^ bit_width (n div 2)"
      by auto
    from False have pos: "0 < bit_width (n div 2)" by (subst bit_width.simps) simp
    from 1 have bw: "bit_width n = Suc (bit_width (n div 2))" by (subst bit_width.simps) simp
    have "2 ^ bit_width (n div 2) = 2 * (2::nat) ^ (bit_width (n div 2) - 1)"
      using pos by (simp flip: power_Suc)
    with IH have "2 ^ bit_width (n div 2) \<le> n" by linarith
    moreover have "n < 2 * 2 ^ bit_width (n div 2)" using IH(2) by linarith
    ultimately show ?thesis using bw by simp
  qed
qed

lemma bit_width_unique:
  assumes "2 ^ k \<le> n" and "n < 2 ^ Suc k"
  shows "bit_width n = Suc k"
proof -
  have "n \<noteq> 0" using assms(1) by (metis not_one_le_zero one_le_power one_le_numeral le_trans)
  note b = bit_width_bounds [OF this]
  have "2 ^ k < (2::nat) ^ bit_width n" using b assms(1) by linarith
  then have "k < bit_width n" by simp
  moreover have "2 ^ (bit_width n - 1) < (2::nat) ^ Suc k" using b assms(2) by linarith
  then have "bit_width n - 1 < Suc k" by (rule power_less_imp_less_exp [rotated]) simp
  ultimately show ?thesis by linarith
qed

definition log2 :: "nat \<Rightarrow> nat" where
  "log2 sz = (if sz \<le> 1 then 0 else bit_width (sz - 1))"

definition log2_bsr :: "nat \<Rightarrow> nat" where
  "log2_bsr sz = bsr (sub64 ((sz * 2) mod 2 ^ 64) 1)"

definition log2_clzl :: "nat \<Rightarrow> nat" where
  "log2_clzl sz = 64 - clzl (sub64 ((sz * 2) mod 2 ^ 64) 1) - 1"

partial_function (option) log2_loop_from :: "nat \<Rightarrow> nat \<Rightarrow> nat \<Rightarrow> nat option" where
  "log2_loop_from v val lg =
     (if val < v then log2_loop_from v ((val * 2) mod 2 ^ 32) (lg + 1) else Some lg)"

definition log2_loop :: "nat \<Rightarrow> nat option" where
  "log2_loop v = log2_loop_from v 1 0"

lemma log2_upper: "sz \<le> 2 ^ log2 sz"
proof (cases "sz \<le> 1")
  case True
  then show ?thesis by (simp add: log2_def)
next
  case False
  then have "sz - 1 < 2 ^ bit_width (sz - 1)" using bit_width_bounds [of "sz - 1"] by simp
  with False show ?thesis by (simp add: log2_def)
qed

lemma log2_lower: "1 < sz \<Longrightarrow> 2 ^ (log2 sz - 1) < sz"
  using bit_width_bounds [of "sz - 1"] by (auto simp: log2_def)

lemma log2_pos: "1 < sz \<Longrightarrow> 0 < log2 sz"
  by (simp add: log2_def bit_width.simps)

lemma log2_unique:
  assumes "sz \<le> 2 ^ k" and "0 < k \<Longrightarrow> 2 ^ (k - 1) < sz"
  shows "log2 sz = k"
proof (cases k)
  case 0
  with assms show ?thesis by (simp add: log2_def)
next
  case (Suc j)
  with assms have "2 ^ j \<le> sz - 1" "sz - 1 < 2 ^ Suc j" "\<not> sz \<le> 1"
    using one_le_power [of "2::nat" j] by (auto simp del: one_le_power)
  with Suc show ?thesis by (simp add: log2_def bit_width_unique)
qed

lemma log2_pow2 [simp]: "log2 (2 ^ k) = k"
  by (rule log2_unique) (auto simp: power_strict_increasing)

lemma log2_mono: "a \<le> b \<Longrightarrow> log2 a \<le> log2 b"
proof (rule ccontr)
  assume ab: "a \<le> b" and "\<not> log2 a \<le> log2 b"
  then have lt: "log2 b \<le> log2 a - 1" and "0 < log2 a" by simp_all
  then have "1 < a" by (auto simp: log2_def split: if_splits)
  then have "2 ^ (log2 a - 1) < a" by (rule log2_lower)
  moreover have "b \<le> 2 ^ (log2 a - 1)"
    using log2_upper [of b] power_increasing [OF lt, of "2::nat"] by linarith
  ultimately show False using ab by simp
qed

lemma log2_le_iff: "log2 sz \<le> k \<longleftrightarrow> sz \<le> 2 ^ k"
proof
  assume "log2 sz \<le> k"
  then have "(2::nat) ^ log2 sz \<le> 2 ^ k" by (rule power_increasing) simp
  then show "sz \<le> 2 ^ k" using log2_upper [of sz] by linarith
next
  assume "sz \<le> 2 ^ k"
  then show "log2 sz \<le> k" using log2_mono [of sz "2 ^ k"] by simp
qed


text \<open>The variants that use a bit-scan or a leading-zero count see \<open>2 * sz - 1\<close> in 64 bits.\<close>

lemma doubled_pred:
  assumes "1 \<le> sz" and "sz \<le> 2 ^ 63"
  shows "sub64 ((sz * 2) mod 2 ^ 64) 1 = 2 * sz - 1"
proof (cases "sz = 2 ^ 63")
  case True
  then show ?thesis by (simp add: sub64_def)
next
  case False
  with assms have lt: "sz * 2 < 2 ^ 64" by simp
  then have "(sz * 2) mod 2 ^ 64 = sz * 2" by (rule mod_less)
  with assms(1) lt show ?thesis by (simp add: sub64_le)
qed

lemma bit_width_doubled_pred:
  assumes "1 \<le> sz" shows "bit_width (2 * sz - 1) = Suc (log2 sz)"
proof (rule bit_width_unique)
  show "2 * sz - 1 < 2 ^ Suc (log2 sz)" using log2_upper [of sz] assms by simp
  show "2 ^ log2 sz \<le> 2 * sz - 1"
  proof (cases "sz = 1")
    case True
    then show ?thesis by (simp add: log2_def)
  next
    case False
    with assms have "1 < sz" by simp
    then have "2 ^ (log2 sz - 1) < sz" and "0 < log2 sz" by (rule log2_lower, rule log2_pos)
    moreover from this(2) have "(2::nat) ^ log2 sz = 2 * 2 ^ (log2 sz - 1)"
      by (simp flip: power_Suc)
    ultimately show ?thesis by linarith
  qed
qed

lemma log2_bsr_eq:
  assumes "1 \<le> sz" and "sz \<le> 2 ^ 63" shows "log2_bsr sz = log2 sz"
  unfolding log2_bsr_def bsr_def doubled_pred [OF assms] bit_width_doubled_pred [OF assms(1)]
  by simp

lemma log2_clzl_eq:
  assumes "1 \<le> sz" and "sz \<le> 2 ^ 63" shows "log2_clzl sz = log2 sz"
proof -
  have "log2 sz \<le> 63" using assms(2) by (simp only: log2_le_iff)
  then show ?thesis
    unfolding log2_clzl_def clzl_def doubled_pred [OF assms] bit_width_doubled_pred [OF assms(1)]
    by simp
qed

text \<open>
  The portable fallback doubles an \<open>unsigned int\<close>: it returns the ceiling logarithm up to
  \<open>2 ^ 31\<close> and never returns above, because the 32-bit value wraps to 0.
\<close>

lemma log2_loop_from_enough:
  assumes "v \<le> 2 ^ 31" and "k \<le> log2 v"
  shows "log2_loop_from v (2 ^ k) lg = Some (lg + (log2 v - k))"
  using assms(2)
proof (induction "log2 v - k" arbitrary: k lg)
  case 0
  then have "v \<le> 2 ^ k" using log2_upper [of v] by simp
  with 0 show ?case by (simp add: log2_loop_from.simps)
next
  case (Suc d)
  then have k: "k < log2 v" by simp
  then have less: "2 ^ k < v" using log2_le_iff [of v k] by simp
  have "log2 v \<le> 31" using assms(1) by (simp only: log2_le_iff)
  with k have "(2::nat) ^ Suc k \<le> 2 ^ 31" by (intro power_increasing) auto
  then have "(2 ^ k * 2) mod 2 ^ 32 = (2::nat) ^ Suc k" by simp
  moreover have "d = log2 v - Suc k" using Suc.hyps(2) by simp
  then have "log2_loop_from v (2 ^ Suc k) (lg + 1) = Some (lg + 1 + (log2 v - Suc k))"
    using Suc.hyps(1) [of "Suc k" "lg + 1"] k by simp
  ultimately show ?case using less k by (simp add: log2_loop_from.simps [of v "2 ^ k"])
qed

lemma log2_loop_eq: "v \<le> 2 ^ 31 \<Longrightarrow> log2_loop v = Some (log2 v)"
  using log2_loop_from_enough [of v 0 0] by (simp add: log2_loop_def)

lemma pow2_double_mod32: "k < 32 \<Longrightarrow> (\<exists>j<32. (2 ^ k * 2) mod 2 ^ 32 = (2::nat) ^ j) \<or> (2 ^ k * 2) mod 2 ^ 32 = (0::nat)"
proof (cases "k = 31")
  case True
  then show ?thesis by simp
next
  case False
  assume "k < 32"
  with False have k: "Suc k < 32" by simp
  then have "(2::nat) ^ Suc k < 2 ^ 32" by (intro power_strict_increasing) auto
  then have "(2 ^ k * 2) mod 2 ^ 32 = (2::nat) ^ Suc k" by simp
  with k show ?thesis by blast
qed

lemma log2_loop_diverges:
  assumes big: "2 ^ 31 < v" and val: "(\<exists>k<32. val = 2 ^ k) \<or> val = 0"
  shows "log2_loop_from v val lg = None"
proof (rule ccontr)
  assume "log2_loop_from v val lg \<noteq> None"
  then obtain r where ret: "log2_loop_from v val lg = Some r" by auto
  have "2 ^ 31 < v \<and> ((\<exists>k<32. val = 2 ^ k) \<or> val = 0) \<longrightarrow> False"
  proof (rule log2_loop_from.raw_induct
      [where P = "\<lambda>v val lg r. 2 ^ 31 < v \<and> ((\<exists>k<32. val = 2 ^ k) \<or> val = 0) \<longrightarrow> False", OF _ ret])
    fix f v val lg and r :: nat
    assume IH: "\<And>v val lg r. f v val lg = Some r \<Longrightarrow>
        2 ^ 31 < v \<and> ((\<exists>k<32. val = 2 ^ k) \<or> val = (0::nat)) \<longrightarrow> False"
      and eq: "(if val < v then f v ((val * 2) mod 2 ^ 32) (lg + 1) else Some lg) = Some r"
    show "2 ^ 31 < v \<and> ((\<exists>k<32. val = 2 ^ k) \<or> val = (0::nat)) \<longrightarrow> False"
    proof
      assume *: "2 ^ 31 < v \<and> ((\<exists>k<32. val = 2 ^ k) \<or> val = 0)"
      then have le: "val \<le> 2 ^ 31"
        using power_increasing [of _ 31 "2::nat"] by fastforce
      with * eq have call: "f v ((val * 2) mod 2 ^ 32) (lg + 1) = Some r" by simp
      from * consider k where "k < 32" "val = 2 ^ k" | "val = 0" by blast
      then have step: "(\<exists>k<32. (val * 2) mod 2 ^ 32 = 2 ^ k) \<or> (val * 2) mod 2 ^ 32 = (0::nat)"
      proof cases
        case (1 k)
        then show ?thesis using pow2_double_mod32 [of k] by simp
      qed simp
      from * have "2 ^ 31 < v" by (rule conjunct1)
      with step IH [OF call] show False by (elim impE, intro conjI)
    qed
  qed
  with big val show False by simp
qed

section \<open>Half-log size classes\<close>

definition halflog2 :: "nat \<Rightarrow> int" where
  "halflog2 v =
     (let a = log2 v;
          b = log2 (v - 2 ^ (a - 1))
      in 2 * int a + (if b + 1 = a then 1 else 0) - 1)"

definition halfpow2 :: "nat \<Rightarrow> nat" where
  "halfpow2 v = (let sz1 = 2 ^ (v div 2) in sz1 + ((v AND 1) * (sz1 div 2)))"

definition staticlog2ceiling :: "nat \<Rightarrow> nat" where
  "staticlog2ceiling v =
     (if 2 ^ staticlog (int v) < v then staticlog (int v) + 1 else staticlog (int v))"

definition statichalflog2 :: "nat \<Rightarrow> int" where
  "statichalflog2 v =
     2 * int (staticlog2ceiling v)
     + (if staticlog2ceiling (v - 2 ^ (staticlog2ceiling v - 1)) + 1 = staticlog2ceiling v
        then 1 else 0)
     - 1"

definition statichalfpow2 :: "nat \<Rightarrow> nat" where
  "statichalfpow2 v = 2 ^ (v div 2) + (v AND 1) * (2 ^ (v div 2) div 2)"

lemma halfpow2_even: "halfpow2 (2 * k) = 2 ^ k"
  by (simp add: halfpow2_def and_one_eq)

lemma halfpow2_odd: "halfpow2 (2 * k + 3) = 3 * 2 ^ k"
  by (simp add: halfpow2_def and_one_eq)

text \<open>The least class that holds \<open>v\<close>: the class of \<open>v\<close> fits it and the one below does not.\<close>

lemma halflog2_fits:
  assumes "2 \<le> v"
  shows "v \<le> halfpow2 (nat (halflog2 v)) \<and> halfpow2 (nat (halflog2 v) - 1) < v"
proof -
  define a where "a = log2 v"
  define b where "b = log2 (v - 2 ^ (a - 1))"
  from assms have lo: "2 ^ (a - 1) < v" and hi: "v \<le> 2 ^ a" and pos: "0 < a"
    unfolding a_def using log2_lower [of v] log2_upper [of v] log2_pos [of v] by auto
  then obtain c where c: "a = Suc c" by (cases a) auto
  from c lo hi have rest: "0 < v - 2 ^ c" "v - 2 ^ c \<le> 2 ^ c" by auto
  have "b \<le> c" unfolding b_def c using rest(2) by (simp only: diff_Suc_1 log2_le_iff)
  show ?thesis
  proof (cases "b = c")
    case True
    then have "halflog2 v = int (2 * a)"
      unfolding halflog2_def Let_def a_def [symmetric] b_def [symmetric] by (simp add: c)
    then have hl: "nat (halflog2 v) = 2 * a" by simp
    have lower: "halfpow2 (2 * a - 1) < v"
    proof (cases c)
      case 0
      with lo c show ?thesis by (simp add: halfpow2_def)
    next
      case (Suc d)
      then have "\<not> log2 (v - 2 ^ c) \<le> d" using True b_def c by simp
      then have "2 ^ d < v - 2 ^ c" by (simp only: log2_le_iff not_le)
      moreover have "halfpow2 (2 * a - 1) = 3 * 2 ^ d"
        using halfpow2_odd [of d] Suc c by (simp add: numeral_3_eq_3)
      ultimately show ?thesis using Suc by simp
    qed
    with hl hi show ?thesis by (simp add: halfpow2_even)
  next
    case False
    with \<open>b \<le> c\<close> obtain d where d: "c = Suc d" "b \<le> d" by (cases c) auto
    have "halflog2 v = int (2 * d + 3)"
      unfolding halflog2_def Let_def a_def [symmetric] b_def [symmetric]
      using False by (simp add: c d)
    then have hl: "nat (halflog2 v) = 2 * d + 3" by simp
    have "log2 (v - 2 ^ c) \<le> d" using d(2) b_def c by simp
    then have "v - 2 ^ c \<le> 2 ^ d" by (simp only: log2_le_iff)
    then have "v \<le> 3 * 2 ^ d" using d(1) by simp
    moreover have "2 * d + 3 - 1 = 2 * c" using d by simp
    ultimately show ?thesis using hl lo c halfpow2_odd [of d] halfpow2_even [of c] by simp
  qed
qed

lemma staticlog_floor: "1 \<le> v \<Longrightarrow> 2 ^ staticlog v \<le> v \<and> v < 2 * 2 ^ staticlog v"
proof (induction v rule: staticlog.induct)
  case (1 v)
  consider "v = 1" | "v = 2" | "2 < v" using "1.prems" by linarith
  then show ?case
  proof cases
    case 3
    then have IH: "2 ^ staticlog (v div 2) \<le> v div 2 \<and> v div 2 < 2 * 2 ^ staticlog (v div 2)"
      using "1.IH" by simp
    have "staticlog v = staticlog (v div 2) + 1" using 3 by (subst staticlog.simps) simp
    then have pow: "(2::int) ^ staticlog v = 2 * 2 ^ staticlog (v div 2)" by simp
    from IH have "2 ^ staticlog (v div 2) \<le> v div 2" "v div 2 < 2 * 2 ^ staticlog (v div 2)" by auto
    then show ?thesis unfolding pow by linarith
  qed (simp_all add: staticlog.simps)
qed

lemma staticlog2ceiling_eq: "1 \<le> v \<Longrightarrow> staticlog2ceiling v = log2 v"
proof -
  assume v: "1 \<le> v"
  define s where "s = staticlog (int v)"
  have "int (2 ^ s) \<le> int v" and "int v < int (2 * 2 ^ s)"
    using staticlog_floor [of "int v"] v unfolding s_def by simp_all
  then have lo: "2 ^ s \<le> v" and hi: "v < 2 * 2 ^ s" by (simp_all only: of_nat_le_iff of_nat_less_iff)
  have "log2 v = (if 2 ^ s < v then s + 1 else s)"
  proof (rule log2_unique)
    show "v \<le> 2 ^ (if 2 ^ s < v then s + 1 else s)" using hi by simp
  next
    assume "0 < (if 2 ^ s < v then s + 1 else s)"
    then show "2 ^ ((if 2 ^ s < v then s + 1 else s) - 1) < v"
      using lo by (cases s) (auto split: if_splits)
  qed
  then show ?thesis by (simp add: staticlog2ceiling_def s_def)
qed

lemma statichalflog2_eq:
  assumes "2 \<le> v" shows "statichalflog2 v = halflog2 v"
proof -
  have "2 ^ (log2 v - 1) < v" using assms by (intro log2_lower) simp
  with assms show ?thesis
    by (simp add: statichalflog2_def halflog2_def staticlog2ceiling_eq)
qed

lemma statichalfpow2_eq: "statichalfpow2 v = halfpow2 v"
  by (simp add: statichalfpow2_def halfpow2_def Let_def)

section \<open>Properties\<close>

text \<open>On every platform the size class computation agrees: for sizes from 1 to \<open>2 ^ 63\<close> the bit-scan and
  the leading-zero variants of \<open>log2\<close> return the C++20 value, which is the ceiling of the binary logarithm.\<close>

theorem log2_variants_agree:
  assumes "1 \<le> sz" and "sz \<le> 2 ^ 63"
  shows "log2_bsr sz = log2 sz \<and> log2_clzl sz = log2 sz \<and> sz \<le> 2 ^ log2 sz \<and> (1 < sz \<longrightarrow> 2 ^ (log2 sz - 1) < sz)"
  using assms log2_bsr_eq log2_clzl_eq log2_upper log2_lower by simp

theorem log2_variants_agree_witness:
  "log2_bsr 17 = log2 17 \<and> log2_clzl 17 = log2 17 \<and> (17::nat) \<le> 2 ^ log2 17 \<and> 2 ^ (log2 17 - 1) < (17::nat)"
  using log2_variants_agree [of 17] by simp

text \<open>The portable fallback loop of \<open>log2\<close> returns the same value up to \<open>2 ^ 31\<close>; above it the
  32-bit \<open>value\<close> wraps to zero and the loop never ends.\<close>

theorem log2_fallback: "log2_loop v = (if v \<le> 2 ^ 31 then Some (log2 v) else None)"
proof -
  have "\<exists>k<32. (1::nat) = 2 ^ k" by (rule exI [of _ 0]) simp
  then show ?thesis using log2_loop_eq log2_loop_diverges [of v 1 0] by (auto simp: log2_loop_def)
qed

text \<open>Half-log size classes: \<open>halflog2\<close> picks the smallest half class that holds \<open>v\<close> bytes, and the
  compile-time version computes the same index.\<close>

theorem halflog2_class:
  assumes "2 \<le> v"
  shows "v \<le> halfpow2 (nat (halflog2 v)) \<and> halfpow2 (nat (halflog2 v) - 1) < v \<and> statichalflog2 v = halflog2 v"
  using halflog2_fits [OF assms] statichalflog2_eq [OF assms] by simp

theorem halflog2_class_witness:
  "(40::nat) \<le> halfpow2 (nat (halflog2 40)) \<and> halfpow2 (nat (halflog2 40) - 1) < 40 \<and> statichalflog2 40 = halflog2 40"
  by (rule halflog2_class) simp

end
