(* ===== verification/Rng.thy ===== *)
theory Rng
  imports Prelude
begin

text \<open>
  The random number generators of \<open>src/include/rng\<close>: \<open>Wyrand\<close> (the source of every random
  choice of the allocator, through \<open>RandomNumberGenerator\<close>), \<open>MWC64\<close> (page placement in
  \<open>RandomMmap\<close>), the 32-bit \<open>MWC\<close> and its four-lane version \<open>mwc_sse\<close>.  Seeds come
  from the operating system and are arguments.  The lemmas: the two code paths of \<open>Wyrand\<close>
  agree, its state has period exactly \<open>2 ^ 64\<close>, the multiply-with-carry generators compute the
  recurrence they are named after, and the four lanes are four \<open>MWC\<close> generators.
\<close>

section \<open>Wyrand\<close>

definition wyrand_step_const :: u64 where "wyrand_step_const = 0xa0761d6478bd642f"
definition wyrand_mix_const :: u64 where "wyrand_mix_const = 0xe7037ed1a0b428db"

definition Wyrand :: "u64 \<Rightarrow> u64 \<Rightarrow> u64" where
  "Wyrand seed1 seed2 =
     (let state = seed1 XOR seed2 in if state = 0 then 0x853c49e6748fea9b else state)"

definition wyrand_next :: "u64 \<Rightarrow> u64 \<times> u64" where
  "wyrand_next state =
     (let state = state + wyrand_step_const;
          tmp = (ucast state :: 128 word) * ucast (state XOR wyrand_mix_const)
      in (ucast (drop_bit 64 tmp XOR tmp), state))"

text \<open>The branch for compilers without a 128-bit integer: high and low halves apart.\<close>

definition umulh :: "u64 \<Rightarrow> u64 \<Rightarrow> u64" where
  "umulh a b = word_of_nat (unat a * unat b div 2 ^ 64)"

definition wyrand_next_msvc :: "u64 \<Rightarrow> u64 \<times> u64" where
  "wyrand_next_msvc state =
     (let state = state + wyrand_step_const;
          b = state XOR wyrand_mix_const;
          lo = state * b;
          hi = umulh state b
      in (hi XOR lo, state))"

lemma unat_mult_128: "unat ((ucast (a::u64) :: 128 word) * ucast (b::u64)) = unat a * unat b"
proof -
  have "unat a * unat b < 2 ^ 64 * 2 ^ 64"
    using unat_less_64 by (intro mult_strict_mono) auto
  then have lt: "unat a * unat b < 2 ^ 128" by simp
  have ua: "unat (ucast a :: 128 word) = unat a" for a :: u64
  proof -
    have "unat a < 2 ^ 128" using unat_less_64 [of a] by simp
    then show ?thesis by (simp add: unsigned_ucast_eq take_bit_eq_mod)
  qed
  show ?thesis using lt by (simp add: unat_word_ariths ua)
qed

lemma umulh_eq: "umulh a b = ucast (drop_bit 64 ((ucast a :: 128 word) * ucast b))"
proof -
  have "unat (drop_bit 64 ((ucast a :: 128 word) * ucast b)) = unat a * unat b div 2 ^ 64"
    by (simp only: unat_drop_bit_eq unat_mult_128 drop_bit_nat_div)
  then have "word_of_nat (unat (drop_bit 64 ((ucast a :: 128 word) * ucast b))) = umulh a b"
    by (simp only: umulh_def)
  then show ?thesis by (simp only: of_nat_unat)
qed

lemma mult_low_half: "(a::u64) * b = ucast ((ucast a :: 128 word) * ucast b)"
proof -
  have "(word_of_nat (unat ((ucast a :: 128 word) * ucast b)) :: u64) = word_of_nat (unat a * unat b)"
    by (simp only: unat_mult_128)
  then show ?thesis by (simp only: of_nat_unat) (simp add: of_nat_unat)
qed

lemma wyrand_next_msvc_eq: "wyrand_next_msvc s = wyrand_next s"
  by (simp add: wyrand_next_msvc_def wyrand_next_def Let_def umulh_eq mult_low_half unsigned_xor_eq)

lemma Wyrand_nonzero: "Wyrand a b \<noteq> 0"
  by (simp add: Wyrand_def Let_def)

fun wyrand_run :: "nat \<Rightarrow> u64 \<Rightarrow> u64" where
  "wyrand_run 0 s = s"
| "wyrand_run (Suc n) s = wyrand_run n (snd (wyrand_next s))"

lemma wyrand_run_eq: "wyrand_run n s = s + of_nat n * wyrand_step_const"
  by (induction n arbitrary: s) (simp_all add: wyrand_next_def Let_def algebra_simps)

lemma odd_mult_cancel:
  fixes n :: nat
  assumes "2 ^ k dvd n * c" and "odd c"
  shows "2 ^ k dvd n"
proof -
  have "coprime (2 ^ k) c" using assms(2) by (simp add: coprime_left_2_iff_odd)
  with assms(1) show ?thesis by (simp add: coprime_dvd_mult_left_iff)
qed

lemma wyrand_period: "wyrand_run n s = s \<longleftrightarrow> 2 ^ 64 dvd n"
proof -
  have "wyrand_run n s = s \<longleftrightarrow> of_nat n * wyrand_step_const = 0"
    by (simp add: wyrand_run_eq)
  also have "\<dots> \<longleftrightarrow> (of_nat (n * 0xa0761d6478bd642f) :: u64) = 0"
    by (simp add: wyrand_step_const_def)
  also have "\<dots> \<longleftrightarrow> 2 ^ 64 dvd n * 0xa0761d6478bd642f"
    by (simp only: word_of_nat_eq_0_iff len_num1 len_bit0) simp
  also have "\<dots> \<longleftrightarrow> 2 ^ 64 dvd n"
  proof
    assume "2 ^ 64 dvd n * 0xa0761d6478bd642f"
    then show "2 ^ 64 dvd n" by (rule odd_mult_cancel) simp
  qed (rule dvd_mult2)
  finally show ?thesis .
qed

section \<open>The allocator's generator\<close>

text \<open>\<open>RandomNumberGenerator::next\<close> keeps the low 32 bits; its seeds are two 32-bit values.\<close>

definition RandomNumberGenerator :: "u32 \<Rightarrow> u32 \<Rightarrow> u64" where
  "RandomNumberGenerator v1 v2 = Wyrand (ucast v1) (ucast v2)"

definition rng_next :: "u64 \<Rightarrow> nat \<times> u64" where
  "rng_next s = (let (r, s') = wyrand_next s in (unat (ucast r :: u32), s'))"

lemma rng_next_bound: "fst (rng_next s) < 2 ^ 32"
  using unat_less_32 [of "ucast (fst (wyrand_next s)) :: u32"]
  by (simp add: rng_next_def case_prod_beta)

section \<open>Multiply-with-carry, 64 bits\<close>

record mwc64 =
  mwc_x :: u64
  mwc_c :: u64
  mwc_t :: u64

definition mwc64_init :: "u64 \<Rightarrow> u64 \<Rightarrow> mwc64" where
  "mwc64_init seed1 seed2 =
     \<lparr>mwc_x = push_bit 32 seed1 + seed2, mwc_c = 123456123456123456, mwc_t = 0\<rparr>"

definition mwc64_next :: "mwc64 \<Rightarrow> u64 \<times> mwc64" where
  "mwc64_next g =
     (let t = push_bit 58 (mwc_x g) + mwc_c g;
          c = drop_bit 6 (mwc_x g);
          x = mwc_x g + t;
          c = c + (if x < t then 1 else 0)
      in (x, \<lparr>mwc_x = x, mwc_c = c, mwc_t = t\<rparr>))"

definition mwc64_value :: "mwc64 \<Rightarrow> nat" where
  "mwc64_value g = unat (mwc_c g) * 2 ^ 64 + unat (mwc_x g)"

text \<open>
  The arithmetic of one step on natural numbers: \<open>X < 2 ^ 64\<close> is the state, \<open>C < 2 ^ 58\<close> the
  carry.  The shift by 58 keeps the low six bits of \<open>X\<close>, so adding the carry cannot wrap.
\<close>

lemma unat_push58: "unat (push_bit 58 (x::u64)) = (unat x mod 64) * 2 ^ 58"
proof -
  have "unat (push_bit 58 x) = take_bit 64 (push_bit 58 (unat x))"
    by (simp only: unsigned_push_bit_eq len_num1 len_bit0) simp
  also have "\<dots> = (2 ^ 58 * unat x) mod (2 ^ 58 * 2 ^ 6)"
    by (simp only: take_bit_eq_mod push_bit_eq_mult mult.commute flip: power_add) simp
  also have "\<dots> = 2 ^ 58 * (unat x mod 2 ^ 6)" by (rule mult_mod_right [symmetric])
  finally show ?thesis by simp
qed

lemma unat_drop6: "unat (drop_bit 6 (x::u64)) = unat x div 64"
  by (simp only: unat_drop_bit_eq drop_bit_nat_div) simp

lemma word_add_carry: "unat (a + b :: u64) + (if a + b < b then 2 ^ 64 else 0) = unat a + unat b"
proof (cases "unat a + unat b < 2 ^ 64")
  case True
  then have "unat (a + b) = unat a + unat b" by (simp add: unat_word_ariths)
  then show ?thesis by (simp add: word_less_nat_alt)
next
  case False
  have "unat a < 2 ^ 64" "unat b < 2 ^ 64" using unat_less_64 [of a] unat_less_64 [of b] by simp_all
  with False have "unat (a + b) = unat a + unat b - 2 ^ 64"
    by (simp add: unat_word_ariths mod_if)
  with False \<open>unat a < 2 ^ 64\<close> show ?thesis by (simp add: word_less_nat_alt)
qed

lemma mwc64_step:
  assumes "unat (mwc_c g) < 2 ^ 58"
  shows "mwc64_value (snd (mwc64_next g)) = (2 ^ 58 + 1) * unat (mwc_x g) + unat (mwc_c g)"
proof -
  define x where "x = mwc_x g"
  define t where "t = push_bit 58 x + mwc_c g"
  define k where "k = (if x + t < t then 1 else (0::u64))"
  have m: "unat x mod 64 \<le> 63" by simp
  then have "(unat x mod 64) * 2 ^ 58 \<le> 63 * 2 ^ 58" by (rule mult_le_mono1)
  with assms have nowrap: "(unat x mod 64) * 2 ^ 58 + unat (mwc_c g) < 2 ^ 64" by simp
  then have t: "unat t = (unat x mod 64) * 2 ^ 58 + unat (mwc_c g)"
    unfolding t_def by (simp add: unat_word_ariths unat_push58)
  have k: "unat k = (if x + t < t then 1 else 0)" by (simp add: k_def)
  have div: "unat x div 64 < 2 ^ 58" using unat_less_64 [of x] by simp
  have "unat (drop_bit 6 x + k) = unat x div 64 + unat k"
    using div k by (simp add: unat_word_ariths unat_drop6)
  then have "mwc64_value (snd (mwc64_next g)) = (unat x div 64 + unat k) * 2 ^ 64 + unat (x + t)"
    by (simp add: mwc64_value_def mwc64_next_def Let_def k_def t_def x_def)
  also have "\<dots> = (unat x div 64) * 2 ^ 64 + unat x + unat t"
    using word_add_carry [of x t] k by (simp split: if_splits)
  also have "\<dots> = (unat x div 64 * 64 + unat x mod 64) * 2 ^ 58 + unat x + unat (mwc_c g)"
    by (simp only: t add_mult_distrib) simp
  also have "unat x div 64 * 64 + unat x mod 64 = unat x" by (rule div_mult_mod_eq)
  finally have "mwc64_value (snd (mwc64_next g)) = unat x * 2 ^ 58 + unat x + unat (mwc_c g)" .
  then show ?thesis by (simp add: x_def)
qed

lemma mwc64_carry_bound: "unat (mwc_c (snd (mwc64_next g))) \<le> 2 ^ 58"
proof -
  have "unat (mwc_x g) div 64 < 2 ^ 58" using unat_less_64 [of "mwc_x g"] by simp
  then show ?thesis
    by (simp add: mwc64_next_def Let_def unat_word_ariths unat_drop6)
qed

lemma mwc64_init_carry: "unat (mwc_c (mwc64_init a b)) < 2 ^ 58"
  by (simp add: mwc64_init_def)

text \<open>At the one carry value the bound leaves open, a state with low bits all ones loses a carry.\<close>

lemma mwc64_lost_carry:
  assumes "mwc_c g = 2 ^ 58" and "unat (mwc_x g) mod 64 = 63"
  shows "mwc_x (snd (mwc64_next g)) = mwc_x g"
proof -
  have "unat (push_bit 58 (mwc_x g) + 2 ^ 58) = 0"
    by (simp add: unat_word_ariths unat_push58 assms(2))
  then have "push_bit 58 (mwc_x g) + 2 ^ 58 = 0" by (simp only: unat_eq_0)
  then show ?thesis by (simp add: mwc64_next_def Let_def assms(1))
qed

section \<open>Multiply-with-carry, 32 bits, one and four lanes\<close>

record mwc =
  mwc_z :: u32
  mwc_w :: u32

definition MWC :: "u32 \<Rightarrow> u32 \<Rightarrow> mwc" where
  "MWC seed1 seed2 = \<lparr>mwc_z = seed1, mwc_w = seed2\<rparr>"

definition mwc_next :: "mwc \<Rightarrow> u32 \<times> mwc" where
  "mwc_next g =
     (let znew = 36969 * (mwc_z g AND 65535) + drop_bit 16 (mwc_z g);
          wnew = 18000 * (mwc_w g AND 65535) + drop_bit 16 (mwc_w g);
          x = push_bit 16 znew + wnew
      in (x, \<lparr>mwc_z = znew, mwc_w = wnew\<rparr>))"

lemma mwc_half_step:
  assumes "m \<le> 36969"
  shows "unat (word_of_nat m * (z AND 65535) + drop_bit 16 z :: u32)
           = m * (unat z mod 2 ^ 16) + unat z div 2 ^ 16"
proof -
  have lo: "unat (z AND 65535) = unat z mod 2 ^ 16"
    using and_pred_pow2 [of "unat z" 16] by (simp add: unsigned_and_eq)
  have hi: "unat (drop_bit 16 z) = unat z div 2 ^ 16"
    by (simp only: unat_drop_bit_eq drop_bit_nat_div)
  have m: "unat (word_of_nat m :: u32) = m" using assms by (simp add: unat_of_nat)
  have "unat z mod 2 ^ 16 \<le> 65535" by simp
  with assms have 1: "m * (unat z mod 2 ^ 16) \<le> 36969 * 65535" by (rule mult_le_mono)
  have 2: "unat z div 2 ^ 16 \<le> 65535" using unat_less_32 [of z] by simp
  show ?thesis using 1 2 by (simp add: unat_word_ariths lo hi m)
qed

lemma mwc_next_recurrence:
  "unat (mwc_z (snd (mwc_next g))) = 36969 * (unat (mwc_z g) mod 2 ^ 16) + unat (mwc_z g) div 2 ^ 16"
  "unat (mwc_w (snd (mwc_next g))) = 18000 * (unat (mwc_w g) mod 2 ^ 16) + unat (mwc_w g) div 2 ^ 16"
  using mwc_half_step [of 36969 "mwc_z g"] mwc_half_step [of 18000 "mwc_w g"]
  by (simp_all add: mwc_next_def Let_def)

text \<open>
  The SIMD version keeps four 32-bit lanes in each register; an operation on a register is the
  operation on every lane.  \<open>next\<close> hands out the four values of \<open>_xi\<close> in turn.
\<close>

record mwc_sse =
  sse_zi :: "u32 list"
  sse_wi :: "u32 list"
  sse_xi :: "u32 list"
  sse_index :: nat

definition mwc_sse_MWC :: "mwc_sse \<Rightarrow> mwc_sse" where
  "mwc_sse_MWC g =
     (let zi1 = map (\<lambda>z. z AND 65535) (sse_zi g);
          zi2 = map (drop_bit 16) (sse_zi g);
          zi3 = map (\<lambda>z. 36969 * z) zi1;
          zi = map2 (+) zi3 zi2;
          wi1 = map (\<lambda>w. w AND 65535) (sse_wi g);
          wi2 = map (drop_bit 16) (sse_wi g);
          ri1 = map (\<lambda>w. 18000 * w) wi1;
          wi = map2 (+) ri1 wi2;
          xi = map (push_bit 16) zi;
          xi = map2 (+) xi wi
      in \<lparr>sse_zi = zi, sse_wi = wi, sse_xi = xi, sse_index = 0\<rparr>)"

definition mwc_sse_init :: "u32 \<Rightarrow> u32 \<Rightarrow> mwc_sse" where
  "mwc_sse_init seed1 seed2 =
     mwc_sse_MWC \<lparr>sse_zi = map (\<lambda>i. seed1 + of_nat i) [0..<4],
       sse_wi = map (\<lambda>i. seed2 + of_nat i) [0..<4], sse_xi = replicate 4 0, sse_index = 0\<rparr>"

definition mwc_sse_next :: "mwc_sse \<Rightarrow> u32 \<times> mwc_sse" where
  "mwc_sse_next g =
     (let v = sse_xi g ! sse_index g;
          g = g\<lparr>sse_index := sse_index g + 1\<rparr>
      in (v, if sse_index g = 4 then mwc_sse_MWC g else g))"

definition sse_lanes :: "mwc_sse \<Rightarrow> bool" where
  "sse_lanes g \<longleftrightarrow> length (sse_zi g) = 4 \<and> length (sse_wi g) = 4 \<and> length (sse_xi g) = 4
     \<and> sse_index g < 4"

definition sse_lane :: "mwc_sse \<Rightarrow> nat \<Rightarrow> mwc" where
  "sse_lane g i = \<lparr>mwc_z = sse_zi g ! i, mwc_w = sse_wi g ! i\<rparr>"

lemma sse_lanes_MWC [inv_rules]:
  "length (sse_zi g) = 4 \<Longrightarrow> length (sse_wi g) = 4 \<Longrightarrow> sse_lanes (mwc_sse_MWC g)"
  by (simp add: sse_lanes_def mwc_sse_MWC_def Let_def)

lemma sse_lanes_init: "sse_lanes (mwc_sse_init a b)"
  by (simp add: mwc_sse_init_def sse_lanes_MWC)

lemma sse_lanes_next: "sse_lanes g \<Longrightarrow> sse_lanes (snd (mwc_sse_next g))"
  using sse_lanes_MWC [of "g\<lparr>sse_index := sse_index g + 1\<rparr>"]
  by (auto simp: mwc_sse_next_def Let_def sse_lanes_def)

lemma mwc_sse_MWC_lane:
  assumes "length (sse_zi g) = 4" and "length (sse_wi g) = 4" and "i < 4"
  shows "mwc_next (sse_lane g i) = (sse_xi (mwc_sse_MWC g) ! i, sse_lane (mwc_sse_MWC g) i)"
  using assms by (simp add: mwc_next_def sse_lane_def mwc_sse_MWC_def Let_def)

section \<open>Properties\<close>

text \<open>The Wyrand generator steps through a single cycle: from any state, it comes back to that state
  after exactly the multiples of \<open>2 ^ 64\<close> draws; and its MSVC code path draws the same numbers.\<close>

theorem wyrand_full_period:
  "(wyrand_run n s = s \<longleftrightarrow> 2 ^ 64 dvd n) \<and> wyrand_next_msvc s = wyrand_next s"
  by (simp add: wyrand_period wyrand_next_msvc_eq)

text \<open>While the carry of MWC64 is below \<open>2 ^ 58\<close> one call is one exact step of the multiply-with-carry
  recurrence with multiplier \<open>2 ^ 58 + 1\<close>; the carry never exceeds \<open>2 ^ 58\<close>, but when it reaches that value
  and the low six bits of \<open>_x\<close> are ones, the carry of the 64-bit sum is lost and \<open>next\<close> repeats \<open>_x\<close>.\<close>

theorem mwc64_recurrence:
  "(unat (mwc_c g) < 2 ^ 58 \<longrightarrow>
      mwc64_value (snd (mwc64_next g)) = (2 ^ 58 + 1) * unat (mwc_x g) + unat (mwc_c g))
   \<and> unat (mwc_c (snd (mwc64_next g))) \<le> 2 ^ 58
   \<and> (mwc_c g = 2 ^ 58 \<and> unat (mwc_x g) mod 64 = 63 \<longrightarrow> mwc_x (snd (mwc64_next g)) = mwc_x g)"
  using mwc64_step [of g] mwc64_carry_bound [of g] mwc64_lost_carry [of g] by blast

theorem mwc64_recurrence_witness:
  "mwc64_value (snd (mwc64_next (mwc64_init 1 2))) = (2 ^ 58 + 1) * (2 ^ 32 + 2) + 123456123456123456
   \<and> unat (mwc_c (snd (mwc64_next (mwc64_init 1 2)))) \<le> 2 ^ 58"
  using mwc64_recurrence [of "mwc64_init 1 2"] by (simp add: mwc64_init_def)

text \<open>The SSE generator is four scalar MWC generators side by side: after a SIMD step each lane holds the
  number and the state that the scalar generator of that lane would produce.\<close>

theorem mwc_sse_lanes:
  assumes "length (sse_zi g) = 4" and "length (sse_wi g) = 4" and "i < 4"
  shows "mwc_next (sse_lane g i) = (sse_xi (mwc_sse_MWC g) ! i, sse_lane (mwc_sse_MWC g) i)"
  using assms by (rule mwc_sse_MWC_lane)

theorem mwc_sse_lanes_witness:
  "mwc_next (sse_lane (mwc_sse_init 7 9) 3)
   = (sse_xi (mwc_sse_MWC (mwc_sse_init 7 9)) ! 3, sse_lane (mwc_sse_MWC (mwc_sse_init 7 9)) 3)"
  by (rule mwc_sse_lanes) (simp_all add: mwc_sse_init_def mwc_sse_MWC_def Let_def)

end
