(* ===== verification/Memory.thy ===== *)
theory Memory
  imports Prelude
begin

text \<open>
  Byte-addressed memory and the canary routines of \<open>src/include/diefast.h\<close>: \<open>fill\<close> writes a
  64-bit value over a buffer, \<open>checkNot\<close> looks for a word that differs from it.  Words are
  little endian.  A loop \<open>for (int i = 0; i < (int) n; i++)\<close> runs \<open>loop_bound n\<close> times: the
  conversion to \<open>int\<close> wraps and a negative bound gives no iteration.
\<close>

type_synonym mem = "addr \<Rightarrow> byte"

section \<open>Words in memory\<close>

definition read64 :: "mem \<Rightarrow> addr \<Rightarrow> u64" where
  "read64 m a = word_of_nat (\<Sum>j\<leftarrow>[0..<8]. unat (m (a + j)) * 256 ^ j)"

definition write64 :: "mem \<Rightarrow> addr \<Rightarrow> u64 \<Rightarrow> mem" where
  "write64 m a w = (\<lambda>x. if a \<le> x \<and> x < a + 8 then ucast (drop_bit (8 * (x - a)) w) else m x)"

definition memset :: "mem \<Rightarrow> addr \<Rightarrow> byte \<Rightarrow> nat \<Rightarrow> mem" where
  "memset m a b n = (\<lambda>x. if a \<le> x \<and> x < a + n then b else m x)"

lemma digits_sum: "(\<Sum>j\<leftarrow>[0..<k]. (n div 256 ^ j mod 256) * 256 ^ j) = n mod 256 ^ k" for n :: nat
proof (induction k)
  case (Suc k)
  have "n mod 256 ^ Suc k = n mod (256 ^ k * 256)" by (simp add: mult.commute)
  also have "\<dots> = 256 ^ k * (n div 256 ^ k mod 256) + n mod 256 ^ k" by (rule mod_mult2_eq)
  finally show ?case using Suc by (simp add: mult.commute)
qed simp

lemma unat_byte_of: "unat (ucast (drop_bit (8 * j) (w::u64)) :: byte) = unat w div 256 ^ j mod 256"
proof -
  have "unat (ucast (drop_bit (8 * j) w) :: byte) = unat (drop_bit (8 * j) w) mod 2 ^ 8"
    by (simp add: unsigned_ucast_eq take_bit_eq_mod)
  also have "\<dots> = unat w div (2 ^ 8) ^ j mod 2 ^ 8"
    by (simp only: unat_drop_bit_eq drop_bit_nat_div power_mult)
  finally show ?thesis by simp
qed

lemma read64_write64 [simp]: "read64 (write64 m a w) a = w"
proof -
  have "(\<Sum>j\<leftarrow>[0..<8]. unat (write64 m a w (a + j)) * 256 ^ j)
      = (\<Sum>j\<leftarrow>[0..<8]. (unat w div 256 ^ j mod 256) * 256 ^ j)"
    by (rule arg_cong [where f = sum_list], rule map_cong)
      (simp_all add: write64_def unat_byte_of)
  also have "\<dots> = unat w mod 256 ^ 8" by (rule digits_sum)
  also have "\<dots> = unat w" using unat_less_64 [of w] by simp
  finally show ?thesis by (simp add: read64_def)
qed

lemma read64_cong: "(\<And>x. a \<le> x \<Longrightarrow> x < a + 8 \<Longrightarrow> m x = m' x) \<Longrightarrow> read64 m a = read64 m' a"
  unfolding read64_def by (intro arg_cong [where f = word_of_nat] arg_cong [where f = sum_list] map_cong) auto

lemma write64_frame: "x < a \<or> a + 8 \<le> x \<Longrightarrow> write64 m a w x = m x"
  by (auto simp: write64_def)

lemma read64_write64_disjoint:
  "b + 8 \<le> a \<or> a + 8 \<le> b \<Longrightarrow> read64 (write64 m a w) b = read64 m b"
  by (rule read64_cong) (auto simp: write64_def)

section \<open>DieFast\<close>

definition loop_bound :: "nat \<Rightarrow> nat" where
  "loop_bound n = (if n mod 2 ^ 32 < 2 ^ 31 then n mod 2 ^ 32 else 0)"

lemma loop_bound_le: "loop_bound n \<le> n"
  by (simp add: loop_bound_def)

lemma loop_bound_eq: "n < 2 ^ 31 \<Longrightarrow> loop_bound n = n"
  by (simp add: loop_bound_def)

fun fill_words :: "nat \<Rightarrow> addr \<Rightarrow> u64 \<Rightarrow> mem \<Rightarrow> mem" where
  "fill_words 0 l val m = m"
| "fill_words (Suc n) l val m = fill_words n (l + 8) val (write64 m l val)"

definition fill :: "addr \<Rightarrow> nat \<Rightarrow> u64 \<Rightarrow> mem \<Rightarrow> mem" where
  "fill ptr sz val m = fill_words (loop_bound (sz div 8)) ptr val m"

fun check_words :: "nat \<Rightarrow> addr \<Rightarrow> u64 \<Rightarrow> mem \<Rightarrow> bool" where
  "check_words 0 l val m = False"
| "check_words (Suc n) l val m = (if read64 m l \<noteq> val then True else check_words n (l + 8) val m)"

definition checkNot :: "addr \<Rightarrow> nat \<Rightarrow> u64 \<Rightarrow> mem \<Rightarrow> bool" where
  "checkNot ptr sz val m = check_words (loop_bound (sz div 8)) ptr val m"

lemma fill_words_frame: "x < l \<or> l + 8 * n \<le> x \<Longrightarrow> fill_words n l val m x = m x"
  by (induction n arbitrary: l m) (auto simp: write64_frame)

lemma fill_words_read:
  "i < n \<Longrightarrow> read64 (fill_words n l val m) (l + 8 * i) = val"
proof (induction n arbitrary: l m i)
  case (Suc n)
  show ?case
  proof (cases i)
    case 0
    have "read64 (fill_words n (l + 8) val (write64 m l val)) l = read64 (write64 m l val) l"
      by (rule read64_cong) (simp add: fill_words_frame)
    with 0 show ?thesis by simp
  next
    case (Suc j)
    with Suc.prems Suc.IH [of j "l + 8" "write64 m l val"] show ?thesis by (simp add: add.assoc)
  qed
qed simp

lemma check_words_iff: "check_words n l val m \<longleftrightarrow> (\<exists>i<n. read64 m (l + 8 * i) \<noteq> val)"
proof (induction n arbitrary: l)
  case (Suc n)
  have "(\<exists>i<Suc n. read64 m (l + 8 * i) \<noteq> val)
      \<longleftrightarrow> read64 m l \<noteq> val \<or> (\<exists>i<n. read64 m (l + 8 + 8 * i) \<noteq> val)"
    by (auto simp: less_Suc_eq_0_disj add.assoc)
  with Suc.IH show ?case by simp
qed simp

text \<open>A buffer holds the canary when every whole word of it is the value.\<close>

definition holds_canary :: "addr \<Rightarrow> nat \<Rightarrow> u64 \<Rightarrow> mem \<Rightarrow> bool" where
  "holds_canary ptr sz val m \<longleftrightarrow> (\<forall>i < sz div 8. read64 m (ptr + 8 * i) = val)"

lemma checkNot_iff: "sz < 2 ^ 34 \<Longrightarrow> checkNot ptr sz val m \<longleftrightarrow> \<not> holds_canary ptr sz val m"
proof -
  assume "sz < 2 ^ 34"
  then have "loop_bound (sz div 8) = sz div 8" by (intro loop_bound_eq) simp
  then show ?thesis by (simp add: checkNot_def check_words_iff holds_canary_def)
qed

lemma fill_holds: "sz < 2 ^ 34 \<Longrightarrow> holds_canary ptr sz val (fill ptr sz val m)"
proof -
  assume "sz < 2 ^ 34"
  then have "loop_bound (sz div 8) = sz div 8" by (intro loop_bound_eq) simp
  then show ?thesis by (simp add: fill_def holds_canary_def fill_words_read)
qed

lemma fill_frame: "x < ptr \<or> ptr + sz \<le> x \<Longrightarrow> fill ptr sz val m x = m x"
proof -
  have "8 * loop_bound (sz div 8) \<le> sz" using loop_bound_le [of "sz div 8"] by linarith
  then show "x < ptr \<or> ptr + sz \<le> x \<Longrightarrow> ?thesis"
    unfolding fill_def by (intro fill_words_frame) auto
qed

lemma holds_canary_cong:
  assumes "\<And>x. ptr \<le> x \<Longrightarrow> x < ptr + sz \<Longrightarrow> m x = m' x"
  shows "holds_canary ptr sz val m \<longleftrightarrow> holds_canary ptr sz val m'"
proof -
  have "read64 m (ptr + 8 * i) = read64 m' (ptr + 8 * i)" if "i < sz div 8" for i
    using that by (intro read64_cong assms) auto
  then show ?thesis by (simp add: holds_canary_def)
qed

lemma holds_canary_part:
  assumes "holds_canary ptr sz val m" and "8 dvd d" and "d + n \<le> sz"
  shows "holds_canary (ptr + d) n val m"
proof -
  obtain k where d: "d = 8 * k" using assms(2) by auto
  have "read64 m (ptr + d + 8 * i) = val" if "i < n div 8" for i
  proof -
    have "k + i < sz div 8" using that assms(3) d by linarith
    moreover have "ptr + d + 8 * i = ptr + 8 * (k + i)" by (simp add: d)
    ultimately show ?thesis using assms(1) by (simp only: holds_canary_def)
  qed
  then show ?thesis by (simp add: holds_canary_def)
qed

lemma holds_canary_fill_disjoint:
  assumes "ptr + sz \<le> q \<or> q + n \<le> ptr"
  shows "holds_canary ptr sz val (fill q n v m) \<longleftrightarrow> holds_canary ptr sz val m"
  using assms by (intro holds_canary_cong fill_frame) auto

end
