(* ===== verification/HeapInterface.thy ===== *)
theory HeapInterface
  imports Memory
begin

text \<open>
  The contract of a heap with \<open>malloc\<close>, \<open>free\<close> and \<open>getSize\<close>, the operations every layer of the
  allocator has (\<open>RandomHeapBase\<close> in \<open>src/include/randomheap.h\<close> and the template parameters
  \<open>SuperHeap\<close>, \<open>SmallHeap\<close>, \<open>BigHeap\<close> elsewhere).  A state is a pair of the heap's own state and the
  memory.  \<open>live\<close> holds the starts of the allocated objects, \<open>inside\<close> the addresses in them, \<open>own\<close>
  the addresses the heap can ever hand out, \<open>serves\<close> the sizes it is called with.  \<open>alloc\<close> may not return (\<open>None\<close>) or fail (null).  The
  contract is silent about a \<open>free\<close> of an address inside an object that is not its start.
\<close>

datatype report = Overflow addr nat nat | DoubleFree addr nat

type_synonym 'r heap_malloc = "nat \<Rightarrow> 'r \<times> mem \<Rightarrow> (addr \<times> ('r \<times> mem) \<times> report list) option"
type_synonym 'r heap_free = "addr \<Rightarrow> 'r \<times> mem \<Rightarrow> bool \<times> ('r \<times> mem) \<times> report list"

text \<open>Sequences of calls, and what each of them answered.\<close>

datatype call = Malloc nat | Free addr

datatype outcome = Allocated addr | Freed addr | Ignored addr

fun run_call :: "'r heap_malloc \<Rightarrow> 'r heap_free \<Rightarrow> call \<Rightarrow> 'r \<times> mem \<Rightarrow> (outcome \<times> 'r \<times> mem) option" where
  "run_call alloc release (Malloc sz) s = map_option (\<lambda>(a, s, _). (Allocated a, s)) (alloc sz s)"
| "run_call alloc release (Free a) s =
     (let (ok, s, _) = release a s in Some (if ok then Freed a else Ignored a, s))"

fun run_calls :: "'r heap_malloc \<Rightarrow> 'r heap_free \<Rightarrow> call list \<Rightarrow> 'r \<times> mem \<Rightarrow> (outcome list \<times> 'r \<times> mem) option" where
  "run_calls alloc release [] s = Some ([], s)"
| "run_calls alloc release (c # cs) s =
     (case run_call alloc release c s of
        None \<Rightarrow> None
      | Some (out, s) \<Rightarrow> map_option (\<lambda>(outs, s). (out # outs, s)) (run_calls alloc release cs s))"

text \<open>
  The abstract heap is the set of live objects.  \<open>abs_step\<close> says what an answer means for it and
  which answers are right: a new object is not live, a free that is accepted was of a live object, a
  free that is ignored was of something else.
\<close>

fun abs_step :: "outcome \<Rightarrow> addr set \<Rightarrow> addr set \<Rightarrow> bool" where
  "abs_step (Allocated a) L L' \<longleftrightarrow> (if a = 0 then L' = L else a \<notin> L \<and> L' = insert a L)"
| "abs_step (Freed a) L L' \<longleftrightarrow> a \<in> L \<and> L' = L - {a}"
| "abs_step (Ignored a) L L' \<longleftrightarrow> a \<notin> L \<and> L' = L"

fun abs_run :: "outcome list \<Rightarrow> addr set \<Rightarrow> addr set \<Rightarrow> bool" where
  "abs_run [] L L' \<longleftrightarrow> L' = L"
| "abs_run (out # outs) L L' \<longleftrightarrow> (\<exists>M. abs_step out L M \<and> abs_run outs M L')"

text \<open>No call frees the inside of an object, no call asks for a size the heap does not serve.\<close>

definition fair_call :: "('r \<Rightarrow> addr set) \<Rightarrow> ('r \<Rightarrow> addr set) \<Rightarrow> (nat \<Rightarrow> bool) \<Rightarrow> call \<Rightarrow> 'r \<Rightarrow> bool" where
  "fair_call live inside serves c r \<longleftrightarrow>
     (case c of Malloc sz \<Rightarrow> serves sz | Free a \<Rightarrow> a \<in> live r \<or> a \<notin> inside r)"

fun fair_calls :: "('r \<Rightarrow> addr set) \<Rightarrow> ('r \<Rightarrow> addr set) \<Rightarrow> (nat \<Rightarrow> bool) \<Rightarrow> 'r heap_malloc \<Rightarrow> 'r heap_free
    \<Rightarrow> call list \<Rightarrow> 'r \<times> mem \<Rightarrow> bool" where
  "fair_calls live inside serves alloc release [] s \<longleftrightarrow> True"
| "fair_calls live inside serves alloc release (c # cs) s \<longleftrightarrow> fair_call live inside serves c (fst s)
     \<and> (case run_call alloc release c s of
          None \<Rightarrow> True
        | Some (_, s) \<Rightarrow> fair_calls live inside serves alloc release cs s)"

locale heap_iface =
  fixes inv :: "'r \<Rightarrow> bool"
    and live :: "'r \<Rightarrow> addr set"
    and inside :: "'r \<Rightarrow> addr set"
    and own :: "addr set"
    and serves :: "nat \<Rightarrow> bool"
    and alloc :: "'r heap_malloc"
    and release :: "'r heap_free"
    and size_of :: "addr \<Rightarrow> 'r \<Rightarrow> nat"
  assumes live_inside: "inv r \<Longrightarrow> live r \<subseteq> inside r"
    and inside_own: "inv r \<Longrightarrow> inside r \<subseteq> own"
    and null_foreign: "0 \<notin> own"
    and alloc_result: "inv r \<Longrightarrow> serves sz \<Longrightarrow> alloc sz (r, m) = Some (a, (r', m'), rs) \<Longrightarrow>
      inv r' \<and> ((a = 0 \<and> live r' = live r \<and> inside r' = inside r)
        \<or> (a \<noteq> 0 \<and> a \<notin> inside r \<and> live r' = insert a (live r) \<and> inside r \<subseteq> inside r'))"
    and release_live: "inv r \<Longrightarrow> a \<in> live r \<Longrightarrow> release a (r, m) = (ok, (r', m'), rs) \<Longrightarrow>
      ok \<and> inv r' \<and> live r' = live r - {a} \<and> inside r' \<subseteq> inside r \<and> a \<notin> inside r'"
    and release_outside: "inv r \<Longrightarrow> a \<notin> inside r \<Longrightarrow> release a (r, m) = (ok, (r', m'), rs) \<Longrightarrow>
      \<not> ok \<and> inv r' \<and> live r' = live r \<and> inside r' = inside r"
    and size_live: "inv r \<Longrightarrow> a \<in> live r \<Longrightarrow> size_of a r \<noteq> 0"
    and size_foreign: "inv r \<Longrightarrow> a \<notin> own \<Longrightarrow> size_of a r = 0"
begin

lemma alloc_fresh:
  assumes "inv r" and "serves sz" and "alloc sz (r, m) = Some (a, (r', m'), rs)" and "a \<noteq> 0"
  shows "a \<notin> live r" and "a \<in> live r'" and "a \<in> own"
proof -
  note r = alloc_result [OF assms(1-3)]
  have inv': "inv r'" using r by simp
  show "a \<notin> live r" using r assms(4) live_inside [OF assms(1)] by auto
  show new: "a \<in> live r'" using r assms(4) by auto
  show "a \<in> own" using new live_inside [OF inv'] inside_own [OF inv'] by auto
qed

lemma alloc_release:
  assumes "inv r" and "serves sz" and "alloc sz (r, m) = Some (a, (r1, m1), rs)" and "a \<noteq> 0"
    and "release a (r1, m1') = (ok, (r2, m2), rs2)"
  shows "ok \<and> live r2 = live r"
proof -
  note n = alloc_fresh [OF assms(1-4)]
  have "inv r1" "live r1 = insert a (live r)" using alloc_result [OF assms(1-3)] assms(4) by auto
  from release_live [OF this(1) n(2) assms(5)] this(2) n(1) show ?thesis by auto
qed

lemma release_twice:
  assumes "inv r" and "a \<in> live r" and "release a (r, m) = (ok, (r1, m1), rs)"
    and "release a (r1, m1') = (ok', (r2, m2), rs2)"
  shows "\<not> ok' \<and> live r2 = live r1"
proof -
  have "inv r1" "a \<notin> inside r1" using release_live [OF assms(1-3)] by auto
  from release_outside [OF this assms(4)] show ?thesis by simp
qed

lemma release_foreign:
  assumes "inv r" and "a \<notin> own" and "release a (r, m) = (ok, (r1, m1), rs)"
  shows "\<not> ok \<and> live r1 = live r"
  using release_outside [OF assms(1) _ assms(3)] inside_own [OF assms(1)] assms(2) by blast

lemma release_null: "inv r \<Longrightarrow> release 0 (r, m) = (ok, (r1, m1), rs) \<Longrightarrow> \<not> ok"
  using release_foreign null_foreign by blast

lemma run_call_abs:
  assumes "inv r" and "fair_call live inside serves c r" and "run_call alloc release c (r, m) = Some (out, (r', m'))"
  shows "inv r' \<and> abs_step out (live r) (live r')"
proof (cases c)
  case (Malloc sz)
  then obtain a rs where "alloc sz (r, m) = Some (a, (r', m'), rs)" "out = Allocated a" "serves sz"
    using assms(2,3) by (auto simp: fair_call_def)
  with alloc_result [OF assms(1)] live_inside [OF assms(1)] show ?thesis by fastforce
next
  case (Free a)
  obtain ok s rs where f: "release a (r, m) = (ok, s, rs)" by (metis surj_pair)
  then have o: "release a (r, m) = (ok, (r', m'), rs)" "out = (if ok then Freed a else Ignored a)"
    using assms(3) by (auto simp: Free)
  from assms(2) consider "a \<in> live r" | "a \<notin> inside r" by (auto simp: fair_call_def Free)
  then show ?thesis
  proof cases
    case 1
    with release_live [OF assms(1) 1 o(1)] o(2) show ?thesis by simp
  next
    case 2
    with release_outside [OF assms(1) 2 o(1)] o(2) live_inside [OF assms(1)] show ?thesis by auto
  qed
qed

text \<open>The heap refines the abstract heap.\<close>

lemma run_calls_abs:
  assumes "inv r" and "fair_calls live inside serves alloc release cs (r, m)"
    and "run_calls alloc release cs (r, m) = Some (outs, (r', m'))"
  shows "inv r' \<and> abs_run outs (live r) (live r')"
  using assms
proof (induction cs arbitrary: r m outs)
  case (Cons c cs)
  from Cons.prems(3) obtain out s1 rest where
    one: "run_call alloc release c (r, m) = Some (out, s1)" and
    more: "run_calls alloc release cs s1 = Some (rest, (r', m'))" and outs: "outs = out # rest"
    by (auto split: option.splits)
  obtain r1 m1 where s1: "s1 = (r1, m1)" by (cases s1)
  have "fair_call live inside serves c r" using Cons.prems(2) by simp
  note step = run_call_abs [OF Cons.prems(1) this one [unfolded s1]]
  have "fair_calls live inside serves alloc release cs (r1, m1)" using Cons.prems(2) one s1 by simp
  with Cons.IH [of r1 m1 rest] step more s1 show ?case unfolding outs by auto
qed simp

end

end
