(* ===== verification/MiniHeap.thy ===== *)
theory MiniHeap
  imports MathUtil Rng Bitmap HeapInterface
begin

text \<open>
  A miniheap hands out random slots of one object size from one memory range:
  \<open>RandomMiniHeapCore\<close> (\<open>src/include/randomminiheap-core.h\<close>) and its standard layout
  \<open>RandomMiniHeapDieHard\<close> (\<open>src/include/randomminiheap-diehard.h\<close>).  The template
  parameters are the record \<open>mini_params\<close>, the members of the core class the record
  \<open>mini_core\<close>, which subclasses extend; the virtual methods of the core are the fields of a
  \<open>layout\<close>.  Messages printed through \<open>printf_\<close> are returned as a list of reports.
  Both subclasses instantiate the core with \<open>DieHarderOn = true\<close>.

  \<open>BitMapType\<close> is \<open>BitMap\<close>; theory \<open>Bitmap\<close> shows that \<open>AtomicBitMap\<close> gives the same results.
\<close>

section \<open>Parameters, state, virtual methods\<close>

record mini_params =
  ObjectSize :: nat
  NObjects :: nat
  DieFastOn :: bool
  DieHarderOn :: bool

record mini_core =
  mh_rng :: u64
  freedValue :: u64
  isHeapActivated :: bool
  miniHeapBitmap :: bitmap

record 's layout =
  getObject :: "'s \<Rightarrow> nat \<Rightarrow> addr"
  computeIndex :: "'s \<Rightarrow> addr \<Rightarrow> nat"
  inBounds :: "'s \<Rightarrow> addr \<Rightarrow> bool"

section \<open>RandomMiniHeapCore\<close>

definition RandomMiniHeapCore :: "u32 \<Rightarrow> u32 \<Rightarrow> mini_core" where
  "RandomMiniHeapCore seed1 seed2 =
     (let (r, rng) = rng_next (RandomNumberGenerator seed1 seed2)
      in \<lparr>mh_rng = rng, freedValue = word_of_nat r OR 1, isHeapActivated = False,
          miniHeapBitmap = BitMap\<rparr>)"

definition reportOverflowError :: "mini_params \<Rightarrow> addr \<Rightarrow> nat \<Rightarrow> report list" where
  "reportOverflowError p ptr offset = (if DieFastOn p then [Overflow ptr offset (ObjectSize p)] else [])"

definition reportDoubleFreeError :: "mini_params \<Rightarrow> addr \<Rightarrow> report list" where
  "reportDoubleFreeError p ptr = (if DieFastOn p then [DoubleFree ptr (ObjectSize p)] else [])"

fun first_mismatch :: "nat \<Rightarrow> nat \<Rightarrow> addr \<Rightarrow> u64 \<Rightarrow> mem \<Rightarrow> nat" where
  "first_mismatch 0 i l v m = i"
| "first_mismatch (Suc n) i l v m =
     (if read64 m (l + 8 * i) \<noteq> v then i else first_mismatch n (Suc i) l v m)"

definition overflowIndex :: "mini_params \<Rightarrow> 'a mini_core_scheme \<Rightarrow> addr \<Rightarrow> mem \<Rightarrow> nat" where
  "overflowIndex p s ptr m =
     (first_mismatch (ObjectSize p div 8 mod 2 ^ 32) 0 ptr (freedValue s) m * 8) mod 2 ^ 32"

definition checkNeighbour ::
    "'a mini_core_scheme layout \<Rightarrow> mini_params \<Rightarrow> 'a mini_core_scheme \<Rightarrow> nat \<Rightarrow> mem \<Rightarrow> report list" where
  "checkNeighbour vt p s k m =
     (if \<not> isSet k (miniHeapBitmap s)
      then let ptr = getObject vt s k
           in if checkNot ptr (ObjectSize p) (freedValue s) m
              then reportOverflowError p ptr (overflowIndex p s ptr m) else []
      else [])"

definition checkOverflowError ::
    "'a mini_core_scheme layout \<Rightarrow> mini_params \<Rightarrow> 'a mini_core_scheme \<Rightarrow> nat \<Rightarrow> mem \<Rightarrow> report list" where
  "checkOverflowError vt p s index m =
     (let leftIndex = sub32 index 1 mod NObjects p;
          rightIndex = (index + 1) mod 2 ^ 32 mod NObjects p
      in if DieHarderOn p
         then checkNeighbour vt p s leftIndex m @ checkNeighbour vt p s rightIndex m
         else [])"

definition core_malloc ::
    "'a mini_core_scheme layout \<Rightarrow> mini_params \<Rightarrow> mem \<Rightarrow> 'a mini_core_scheme
      \<Rightarrow> addr \<times> 'a mini_core_scheme \<times> report list" where
  "core_malloc vt p m s =
     (let (r, rng) = rng_next (mh_rng s);
          index = modulo (NObjects p) r;
          (won, bm) = tryToSet index (miniHeapBitmap s);
          s = s\<lparr>mh_rng := rng, miniHeapBitmap := bm\<rparr>
      in if \<not> won then (0, s, [])
         else let ptr = getObject vt s index;
                  reports =
                    (if DieFastOn p
                     then (if checkNot ptr (ObjectSize p) (freedValue s) m
                           then reportOverflowError p ptr (overflowIndex p s ptr m) else [])
                          @ checkOverflowError vt p s index m
                     else [])
              in (ptr, s, reports))"

definition core_free ::
    "'a mini_core_scheme layout \<Rightarrow> mini_params \<Rightarrow> addr \<Rightarrow> mem \<Rightarrow> 'a mini_core_scheme
      \<Rightarrow> bool \<times> 'a mini_core_scheme \<times> report list" where
  "core_free vt p ptr m s =
     (if \<not> inBounds vt s ptr then (False, s, [])
      else let index = computeIndex vt s ptr;
               (didReset, bm) = reset index (miniHeapBitmap s);
               s = s\<lparr>miniHeapBitmap := bm\<rparr>;
               reports = (if didReset then [] else reportDoubleFreeError p ptr)
                 @ (if DieFastOn p then checkOverflowError vt p s index m else [])
           in (didReset, s, reports))"

section \<open>RandomMiniHeapDieHard\<close>

record mini_diehard = mini_core +
  miniHeap :: addr

definition computeOffset :: "mini_diehard \<Rightarrow> addr \<Rightarrow> nat" where
  "computeOffset s ptr = sub64 ptr (miniHeap s)"

definition dh_computeIndex :: "mini_params \<Rightarrow> mini_diehard \<Rightarrow> addr \<Rightarrow> nat" where
  "dh_computeIndex p s ptr =
     (let offset = computeOffset s ptr
      in if IsPowerOfTwo (ObjectSize p)
         then drop_bit (staticlog (int (ObjectSize p))) offset mod 2 ^ 32
         else (offset div ObjectSize p) mod 2 ^ 32)"

definition dh_getObject :: "mini_params \<Rightarrow> mini_diehard \<Rightarrow> nat \<Rightarrow> addr" where
  "dh_getObject p s index =
     (if \<not> isHeapActivated s then 0 else miniHeap s + index * ObjectSize p)"

definition dh_inBounds :: "mini_params \<Rightarrow> mini_diehard \<Rightarrow> addr \<Rightarrow> bool" where
  "dh_inBounds p s ptr =
     (if ptr < miniHeap s \<or> ptr \<ge> miniHeap s + NObjects p * ObjectSize p \<or> miniHeap s = 0
      then False else True)"

definition dh_layout :: "mini_params \<Rightarrow> mini_diehard layout" where
  "dh_layout p = \<lparr>getObject = dh_getObject p, computeIndex = dh_computeIndex p, inBounds = dh_inBounds p\<rparr>"

definition dh_getSize :: "mini_params \<Rightarrow> addr \<Rightarrow> mini_diehard \<Rightarrow> nat" where
  "dh_getSize p ptr s =
     (if \<not> dh_inBounds p s ptr then 0
      else ObjectSize p - modulo (ObjectSize p) (computeOffset s ptr))"

definition dh_malloc ::
    "mini_params \<Rightarrow> mem \<Rightarrow> mini_diehard \<Rightarrow> addr \<times> mini_diehard \<times> report list" where
  "dh_malloc p m s = core_malloc (dh_layout p) p m s"

definition dh_free ::
    "mini_params \<Rightarrow> addr \<Rightarrow> mem \<Rightarrow> mini_diehard \<Rightarrow> bool \<times> mini_diehard \<times> mem \<times> report list" where
  "dh_free p ptr m s =
     (let (didFree, s, reports) = core_free (dh_layout p) p ptr m s
      in (didFree, s,
          if DieFastOn p \<and> didFree then fill ptr (ObjectSize p) (freedValue s) m else m,
          reports))"

text \<open>
  \<open>buf\<close> is what \<open>Allocator::malloc\<close> returns for the objects, \<open>words\<close> what it returns for the
  bitmap.  With a null \<open>buf\<close> the code asserts; without assertions it goes on and marks the heap
  active.
\<close>

definition dh_activate ::
    "mini_params \<Rightarrow> addr \<Rightarrow> u64 list option \<Rightarrow> mem \<Rightarrow> mini_diehard \<Rightarrow> mini_diehard \<times> mem" where
  "dh_activate p buf words m s =
     (if isHeapActivated s then (s, m)
      else let s = s\<lparr>miniHeap := buf\<rparr>;
               (s, m) =
                 (if miniHeap s \<noteq> 0
                  then (s\<lparr>miniHeapBitmap := reserve (NObjects p) words (miniHeapBitmap s)\<rparr>,
                        if DieFastOn p
                        then fill (miniHeap s) (NObjects p * ObjectSize p) (freedValue s) m else m)
                  else (s, m))
           in (s\<lparr>isHeapActivated := True\<rparr>, m))"

section \<open>The contract a miniheap offers\<close>

text \<open>
  \<open>owned\<close> tells the addresses inside the heap's range, \<open>slot\<close> the start of the object an address
  lies in, \<open>live\<close> the starts of the allocated objects.
\<close>

locale mini_store =
  fixes ready :: "'s \<Rightarrow> bool"
    and owned :: "'s \<Rightarrow> addr set"
    and slot :: "'s \<Rightarrow> addr \<Rightarrow> addr"
    and live :: "'s \<Rightarrow> addr set"
    and alloc :: "mem \<Rightarrow> 's \<Rightarrow> addr \<times> 's \<times> report list"
    and release :: "addr \<Rightarrow> mem \<Rightarrow> 's \<Rightarrow> bool \<times> 's \<times> mem \<times> report list"
  assumes alloc_ready: "ready s \<Longrightarrow> alloc m s = (a, s', rs) \<Longrightarrow>
      ready s' \<and> owned s' = owned s \<and> slot s' = slot s"
    and alloc_live: "ready s \<Longrightarrow> alloc m s = (a, s', rs) \<Longrightarrow>
      (a = 0 \<and> live s' = live s) \<or> (a \<noteq> 0 \<and> a \<in> owned s \<and> slot s a = a \<and> a \<notin> live s \<and> live s' = insert a (live s))"
    and release_ready: "ready s \<Longrightarrow> release a m s = (ok, s', m', rs) \<Longrightarrow>
      ready s' \<and> owned s' = owned s \<and> slot s' = slot s"
    and release_live: "ready s \<Longrightarrow> release a m s = (ok, s', m', rs) \<Longrightarrow>
      ok = (a \<in> owned s \<and> slot s a \<in> live s) \<and> live s' = (if ok then live s - {slot s a} else live s)"
    and live_owned: "ready s \<Longrightarrow> x \<in> live s \<Longrightarrow> x \<in> owned s \<and> slot s x = x"
    and live_finite: "ready s \<Longrightarrow> finite (live s)"
begin

lemma alloc_then_release:
  assumes "ready s" and "alloc m s = (a, s1, rs)" and "a \<noteq> 0" and "release a m1 s1 = (ok, s2, m2, rs2)"
  shows "ok \<and> live s2 = live s"
  using alloc_ready [OF assms(1,2)] alloc_live [OF assms(1,2)] release_live [OF _ assms(4)] assms(3)
  by auto

lemma release_twice:
  assumes "ready s" and "release a m s = (ok, s1, m1, rs)" and "release a m1' s1 = (ok', s2, m2, rs2)"
  shows "\<not> ok' \<and> live s2 = live s1"
  using release_ready [OF assms(1,2)] release_live [OF assms(1,2)] release_live [OF _ assms(3)]
  by (auto split: if_splits)

lemma release_foreign:
  assumes "ready s" and "a \<notin> owned s" and "release a m s = (ok, s1, m1, rs)"
  shows "\<not> ok \<and> live s1 = live s"
  using release_live [OF assms(1,3)] assms(2) by auto

lemma alloc_card:
  assumes "ready s" and "alloc m s = (a, s1, rs)"
  shows "card (live s1) = card (live s) + of_bool (a \<noteq> 0)"
  using alloc_live [OF assms] live_finite [OF assms(1)] by auto

lemma release_card:
  assumes "ready s" and "release a m s = (ok, s1, m1, rs)"
  shows "card (live s1) + of_bool ok = card (live s)"
proof (cases ok)
  case True
  then have "slot s a \<in> live s" "live s1 = live s - {slot s a}"
    using release_live [OF assms] by auto
  with True live_finite [OF assms(1)] card_Suc_Diff1 [of "live s" "slot s a"] show ?thesis by simp
next
  case False
  with release_live [OF assms] show ?thesis by simp
qed

end

text \<open>A miniheap that also tells its own addresses by a nonzero size.\<close>

locale sized_mini_store = mini_store +
  fixes size_of :: "addr \<Rightarrow> 'a \<Rightarrow> nat"
  assumes size_of_zero: "ready s \<Longrightarrow> size_of a s = 0 \<longleftrightarrow> a \<notin> owned s"
begin

lemma size_of_live: "ready s \<Longrightarrow> x \<in> live s \<Longrightarrow> size_of x s \<noteq> 0"
  using size_of_zero live_owned by blast

end

section \<open>What a layout promises to the core\<close>

definition draw_index :: "mini_params \<Rightarrow> 'a mini_core_scheme \<Rightarrow> nat" where
  "draw_index p s = modulo (NObjects p) (fst (rng_next (mh_rng s)))"

lemma draw_index_less: "0 < NObjects p \<Longrightarrow> draw_index p s < NObjects p"
  by (simp add: draw_index_def modulo_eq_mod)

definition core_bits :: "'a mini_core_scheme \<Rightarrow> nat set" where
  "core_bits s = bm_bits (miniHeapBitmap s)"

definition core_bitmap_ok :: "mini_params \<Rightarrow> bitmap \<Rightarrow> bool" where
  "core_bitmap_ok p b \<longleftrightarrow> bm_inv b \<and> NObjects p \<le> elements b \<and> bm_bits b \<subseteq> {..<NObjects p}"

definition layout_slot :: "'a mini_core_scheme layout \<Rightarrow> 'a mini_core_scheme \<Rightarrow> addr \<Rightarrow> addr" where
  "layout_slot vt s a = getObject vt s (computeIndex vt s a)"

definition layout_live :: "'a mini_core_scheme layout \<Rightarrow> 'a mini_core_scheme \<Rightarrow> addr set" where
  "layout_live vt s = getObject vt s ` core_bits s"

locale mini_layout =
  fixes p :: mini_params
    and vt :: "'a mini_core_scheme layout"
    and ok :: "'a mini_core_scheme \<Rightarrow> bool"
    and own :: "'a mini_core_scheme \<Rightarrow> addr set"
  assumes objects: "ok s \<Longrightarrow> 0 < NObjects p"
    and bitmap: "ok s \<Longrightarrow> core_bitmap_ok p (miniHeapBitmap s)"
    and ok_upd: "ok s \<Longrightarrow> core_bitmap_ok p b \<Longrightarrow> ok (s\<lparr>mh_rng := r, miniHeapBitmap := b\<rparr>)"
    and frame: "own (s\<lparr>mh_rng := r, miniHeapBitmap := b\<rparr>) = own s"
      "getObject vt (s\<lparr>mh_rng := r, miniHeapBitmap := b\<rparr>) = getObject vt s"
      "computeIndex vt (s\<lparr>mh_rng := r, miniHeapBitmap := b\<rparr>) = computeIndex vt s"
    and in_own: "ok s \<Longrightarrow> inBounds vt s a \<longleftrightarrow> a \<in> own s"
    and index_less: "ok s \<Longrightarrow> a \<in> own s \<Longrightarrow> computeIndex vt s a < NObjects p"
    and object_own: "ok s \<Longrightarrow> i < NObjects p \<Longrightarrow> getObject vt s i \<in> own s"
    and object_index: "ok s \<Longrightarrow> i < NObjects p \<Longrightarrow> computeIndex vt s (getObject vt s i) = i"
    and object_nonnull: "ok s \<Longrightarrow> i < NObjects p \<Longrightarrow> getObject vt s i \<noteq> 0"
begin

lemma core_malloc_cases:
  assumes "ok s" and "core_malloc vt p m s = (a, s', rs)"
  shows "s' = s\<lparr>mh_rng := snd (rng_next (mh_rng s)),
      miniHeapBitmap := snd (tryToSet (draw_index p s) (miniHeapBitmap s))\<rparr>"
    and "a = (if draw_index p s \<in> core_bits s then 0 else getObject vt s (draw_index p s))"
    and "ok s'" and "core_bits s' = insert (draw_index p s) (core_bits s)"
proof -
  define i where "i = draw_index p s"
  define b where "b = snd (tryToSet i (miniHeapBitmap s))"
  have bm: "bm_inv (miniHeapBitmap s)" "NObjects p \<le> elements (miniHeapBitmap s)"
      "bm_bits (miniHeapBitmap s) \<subseteq> {..<NObjects p}"
    using bitmap [OF assms(1)] by (auto simp: core_bitmap_ok_def)
  have i: "i < NObjects p" "i < elements (miniHeapBitmap s)"
    using draw_index_less [OF objects [OF assms(1)], of s] bm(2) by (simp_all add: i_def)
  have won: "fst (tryToSet i (miniHeapBitmap s)) \<longleftrightarrow> i \<notin> core_bits s"
    unfolding core_bits_def using bm(1) i(2) by (rule plain.try_set_won)
  have b: "bm_inv b" "elements b = elements (miniHeapBitmap s)" "bm_bits b = insert i (core_bits s)"
    unfolding b_def core_bits_def using bm(1) i(2) by (simp_all add: plain.store_laws)
  let ?s = "s\<lparr>mh_rng := snd (rng_next (mh_rng s)), miniHeapBitmap := b\<rparr>"
  have "core_bitmap_ok p b" using b bm(2,3) i(1) by (auto simp: core_bitmap_ok_def core_bits_def)
  then have ready: "ok ?s" by (rule ok_upd [OF assms(1)])
  have s': "s' = ?s"
    using assms(2) by (auto simp: core_malloc_def Let_def case_prod_beta b_def i_def draw_index_def
        split: if_splits)
  then show "s' = s\<lparr>mh_rng := snd (rng_next (mh_rng s)),
      miniHeapBitmap := snd (tryToSet (draw_index p s) (miniHeapBitmap s))\<rparr>"
    by (simp add: b_def i_def)
  show "ok s'" using ready s' by simp
  show "core_bits s' = insert (draw_index p s) (core_bits s)"
    using b(3) by (simp add: s' core_bits_def i_def)
  have "a = (if fst (tryToSet i (miniHeapBitmap s)) then getObject vt ?s i else 0)"
    using assms(2) by (auto simp: core_malloc_def Let_def case_prod_beta b_def i_def
        draw_index_def split: if_splits)
  then show "a = (if draw_index p s \<in> core_bits s then 0 else getObject vt s (draw_index p s))"
    using won by (simp add: frame i_def)
qed

lemma core_free_cases:
  assumes "ok s" and "core_free vt p a m s = (freed, s', rs)"
  shows "a \<notin> own s \<Longrightarrow> \<not> freed \<and> s' = s \<and> rs = []"
    and "a \<in> own s \<Longrightarrow> freed = (computeIndex vt s a \<in> core_bits s)
      \<and> s' = s\<lparr>miniHeapBitmap := snd (reset (computeIndex vt s a) (miniHeapBitmap s))\<rparr>"
    and "ok s'"
    and "core_bits s' = (if a \<in> own s then core_bits s - {computeIndex vt s a} else core_bits s)"
proof -
  let ?i = "computeIndex vt s a"
  have bm: "bm_inv (miniHeapBitmap s)" "NObjects p \<le> elements (miniHeapBitmap s)"
      "bm_bits (miniHeapBitmap s) \<subseteq> {..<NObjects p}"
    using bitmap [OF assms(1)] by (auto simp: core_bitmap_ok_def)
  show out: "a \<notin> own s \<Longrightarrow> \<not> freed \<and> s' = s \<and> rs = []"
    using assms(2) in_own [OF assms(1)] by (simp add: core_free_def)
  have i: "?i < elements (miniHeapBitmap s)" if "a \<in> own s"
    using index_less [OF assms(1) that] bm(2) by simp
  show inb: "freed = (?i \<in> core_bits s) \<and> s' = s\<lparr>miniHeapBitmap := snd (reset ?i (miniHeapBitmap s))\<rparr>"
    if "a \<in> own s"
    using assms(2) that plain.clear_bit_won [OF bm(1) i [OF that]]
    by (auto simp: core_free_def in_own [OF assms(1)] core_bits_def Let_def case_prod_beta split: if_splits)
  show bits: "core_bits s' = (if a \<in> own s then core_bits s - {?i} else core_bits s)"
    using inb out bm(1) i by (auto simp: core_bits_def plain.clear_bit_bits)
  show "ok s'"
  proof (cases "a \<in> own s")
    case True
    have "core_bitmap_ok p (miniHeapBitmap s')"
      using inb [OF True] bm i [OF True] by (auto simp: core_bitmap_ok_def plain.store_laws)
    from ok_upd [OF assms(1) this, of "mh_rng s"]
    have "ok (s\<lparr>miniHeapBitmap := miniHeapBitmap s'\<rparr>)" by simp
    moreover have "s\<lparr>miniHeapBitmap := miniHeapBitmap s'\<rparr> = s'" using inb [OF True] by simp
    ultimately show ?thesis by simp
  qed (use out assms(1) in simp)
qed

lemma bits_less: "ok s \<Longrightarrow> core_bits s \<subseteq> {..<NObjects p}"
  using bitmap by (simp add: core_bits_def core_bitmap_ok_def)

lemma object_live: "ok s \<Longrightarrow> i < NObjects p \<Longrightarrow> getObject vt s i \<in> layout_live vt s \<longleftrightarrow> i \<in> core_bits s"
proof -
  assume o: "ok s" and i: "i < NObjects p"
  have "j = i" if "j \<in> core_bits s" "getObject vt s i = getObject vt s j" for j
    using bits_less [OF o] that object_index [OF o i] object_index [OF o, of j] by auto
  then show ?thesis by (auto simp: layout_live_def)
qed

lemma core_malloc_store:
  assumes "ok s" and "core_malloc vt p m s = (a, s', rs)"
  shows "ok s' \<and> own s' = own s \<and> layout_slot vt s' = layout_slot vt s"
    and "(a = 0 \<and> layout_live vt s' = layout_live vt s) \<or>
      (a \<noteq> 0 \<and> a \<in> own s \<and> layout_slot vt s a = a \<and> a \<notin> layout_live vt s
        \<and> layout_live vt s' = insert a (layout_live vt s))"
proof -
  note c = core_malloc_cases [OF assms]
  show "ok s' \<and> own s' = own s \<and> layout_slot vt s' = layout_slot vt s"
    using c(3) by (simp add: c(1) frame layout_slot_def fun_eq_iff)
  have i: "draw_index p s < NObjects p" using objects [OF assms(1)] by (rule draw_index_less)
  have live: "layout_live vt s' = insert (getObject vt s (draw_index p s)) (layout_live vt s)"
    unfolding layout_live_def c(4) by (simp add: c(1) frame)
  show "(a = 0 \<and> layout_live vt s' = layout_live vt s) \<or>
      (a \<noteq> 0 \<and> a \<in> own s \<and> layout_slot vt s a = a \<and> a \<notin> layout_live vt s
        \<and> layout_live vt s' = insert a (layout_live vt s))"
    using live object_live [OF assms(1) i] c(2) object_own [OF assms(1) i] object_index [OF assms(1) i]
      object_nonnull [OF assms(1) i]
    by (auto simp: layout_slot_def insert_absorb)
qed

lemma core_free_store:
  assumes "ok s" and "core_free vt p a m s = (freed, s', rs)"
  shows "ok s' \<and> own s' = own s \<and> layout_slot vt s' = layout_slot vt s"
    and "freed = (a \<in> own s \<and> layout_slot vt s a \<in> layout_live vt s)
      \<and> layout_live vt s' = (if freed then layout_live vt s - {layout_slot vt s a} else layout_live vt s)"
proof -
  note c = core_free_cases [OF assms]
  have s': "s' = s\<lparr>mh_rng := mh_rng s, miniHeapBitmap := miniHeapBitmap s'\<rparr>"
    by (cases "a \<in> own s") (use c(1,2) in auto)
  have fr: "own s' = own s" "getObject vt s' = getObject vt s" "computeIndex vt s' = computeIndex vt s"
    using frame [where s = s and r = "mh_rng s" and b = "miniHeapBitmap s'"] s' by auto
  then show "ok s' \<and> own s' = own s \<and> layout_slot vt s' = layout_slot vt s"
    using c(3) by (simp add: layout_slot_def fun_eq_iff)
  show "freed = (a \<in> own s \<and> layout_slot vt s a \<in> layout_live vt s)
      \<and> layout_live vt s' = (if freed then layout_live vt s - {layout_slot vt s a} else layout_live vt s)"
  proof (cases "a \<in> own s")
    case True
    have i: "computeIndex vt s a < NObjects p" using assms(1) True by (rule index_less)
    have inj: "inj_on (getObject vt s) {..<NObjects p}"
      using object_index [OF assms(1)] by (metis inj_on_inverseI lessThan_iff)
    have "layout_live vt s' = getObject vt s ` (core_bits s - {computeIndex vt s a})"
      using c(4) True by (simp add: layout_live_def fr)
    also have "\<dots> = layout_live vt s - {layout_slot vt s a}"
      using inj_on_image_set_diff [OF inj, of "core_bits s" "{computeIndex vt s a}"] bits_less [OF assms(1)] i
      by (auto simp: layout_live_def layout_slot_def)
    finally show ?thesis
      using c(2) [OF True] object_live [OF assms(1) i] True by (auto simp: layout_slot_def)
  next
    case False
    with c(1,4) show ?thesis by (simp add: layout_live_def)
  qed
qed

lemma live_own: "ok s \<Longrightarrow> x \<in> layout_live vt s \<Longrightarrow> x \<in> own s \<and> layout_slot vt s x = x"
  unfolding layout_live_def layout_slot_def using object_own object_index bits_less by fastforce

lemma live_finite: "ok s \<Longrightarrow> finite (layout_live vt s)"
  unfolding layout_live_def using bits_less finite_subset by blast

end

section \<open>The standard layout meets the contract\<close>

definition mini_ok :: "mini_params \<Rightarrow> bool" where
  "mini_ok p \<longleftrightarrow> 0 < ObjectSize p \<and> 0 < NObjects p \<and> NObjects p < 2 ^ 32
     \<and> NObjects p * ObjectSize p < 2 ^ 34"

definition dh_ready :: "mini_params \<Rightarrow> mini_diehard \<Rightarrow> bool" where
  "dh_ready p s \<longleftrightarrow> mini_ok p \<and> isHeapActivated s \<and> miniHeap s \<noteq> 0
     \<and> miniHeap s + NObjects p * ObjectSize p \<le> 2 ^ 64 \<and> core_bitmap_ok p (miniHeapBitmap s)"

definition dh_owned :: "mini_params \<Rightarrow> mini_diehard \<Rightarrow> addr set" where
  "dh_owned p s = {miniHeap s..<miniHeap s + NObjects p * ObjectSize p}"

definition dh_object :: "mini_params \<Rightarrow> mini_diehard \<Rightarrow> nat \<Rightarrow> addr" where
  "dh_object p s i = miniHeap s + i * ObjectSize p"

abbreviation dh_slot :: "mini_params \<Rightarrow> mini_diehard \<Rightarrow> addr \<Rightarrow> addr" where
  "dh_slot p \<equiv> layout_slot (dh_layout p)"

abbreviation dh_live :: "mini_params \<Rightarrow> mini_diehard \<Rightarrow> addr set" where
  "dh_live p \<equiv> layout_live (dh_layout p)"

lemma dh_readyD:
  assumes "dh_ready p s"
  shows "0 < ObjectSize p" "0 < NObjects p" "NObjects p < 2 ^ 32" "NObjects p * ObjectSize p < 2 ^ 34"
    "isHeapActivated s" "miniHeap s \<noteq> 0" "miniHeap s + NObjects p * ObjectSize p \<le> 2 ^ 64"
    "bm_inv (miniHeapBitmap s)" "NObjects p \<le> elements (miniHeapBitmap s)"
    "core_bits s \<subseteq> {..<NObjects p}"
  using assms by (auto simp: dh_ready_def mini_ok_def core_bitmap_ok_def core_bits_def)

lemma dh_inBounds_iff: "dh_ready p s \<Longrightarrow> dh_inBounds p s a \<longleftrightarrow> a \<in> dh_owned p s"
  by (auto simp: dh_inBounds_def dh_owned_def dest: dh_readyD)

lemma dh_offset_less:
  assumes "a \<in> dh_owned p s" and "dh_ready p s"
  shows "(a - miniHeap s) div ObjectSize p < NObjects p"
  using assms dh_readyD(1) [OF assms(2)]
  by (auto simp: dh_owned_def div_less_iff_less_mult)

lemma computeOffset_eq:
  assumes "dh_ready p s" and "a \<in> dh_owned p s"
  shows "computeOffset s a = a - miniHeap s"
  unfolding computeOffset_def using assms dh_readyD(7) [OF assms(1)]
  by (intro sub64_le) (auto simp: dh_owned_def)

lemma dh_computeIndex_eq:
  assumes "dh_ready p s" and "a \<in> dh_owned p s"
  shows "dh_computeIndex p s a = (a - miniHeap s) div ObjectSize p"
proof -
  have lt: "(a - miniHeap s) div ObjectSize p < 2 ^ 32"
    using dh_offset_less [OF assms(2,1)] dh_readyD(3) [OF assms(1)] by linarith
  show ?thesis
  proof (cases "IsPowerOfTwo (ObjectSize p)")
    case True
    then obtain k where k: "ObjectSize p = 2 ^ k" by (auto simp: IsPowerOfTwo_iff)
    have "staticlog (int (ObjectSize p)) = k" by (simp add: k)
    with True lt show ?thesis
      by (simp add: dh_computeIndex_def computeOffset_eq [OF assms] drop_bit_nat_div k)
  next
    case False
    with lt show ?thesis by (simp add: dh_computeIndex_def computeOffset_eq [OF assms])
  qed
qed

lemma dh_getObject_eq: "dh_ready p s \<Longrightarrow> dh_getObject p s i = dh_object p s i"
  by (simp add: dh_getObject_def dh_object_def dh_readyD)

lemma dh_layout_simps [heap_simps]:
  "getObject (dh_layout p) = dh_getObject p" "computeIndex (dh_layout p) = dh_computeIndex p"
  "inBounds (dh_layout p) = dh_inBounds p"
  by (simp_all add: dh_layout_def)

lemma dh_slot_eq:
  assumes "dh_ready p s" and "a \<in> dh_owned p s"
  shows "dh_slot p s a = dh_object p s ((a - miniHeap s) div ObjectSize p)"
  using assms by (simp add: layout_slot_def heap_simps dh_computeIndex_eq dh_getObject_eq)

lemma dh_object_owned:
  assumes "dh_ready p s" and "i < NObjects p"
  shows "dh_object p s i \<in> dh_owned p s"
  using assms(2) dh_readyD(1) [OF assms(1)] by (simp add: dh_object_def dh_owned_def)

interpretation dhl: mini_layout p "dh_layout p" "dh_ready p" "dh_owned p" for p
proof
  fix s r b assume "dh_ready p s" "core_bitmap_ok p b"
  then show "dh_ready p (s\<lparr>mh_rng := r, miniHeapBitmap := b\<rparr>)" by (simp add: dh_ready_def)
next
  fix s r b
  show "dh_owned p (s\<lparr>mh_rng := r, miniHeapBitmap := b\<rparr>) = dh_owned p s"
    and "getObject (dh_layout p) (s\<lparr>mh_rng := r, miniHeapBitmap := b\<rparr>) = getObject (dh_layout p) s"
    and "computeIndex (dh_layout p) (s\<lparr>mh_rng := r, miniHeapBitmap := b\<rparr>) = computeIndex (dh_layout p) s"
    by (simp_all add: heap_simps fun_eq_iff dh_owned_def dh_getObject_def dh_computeIndex_def computeOffset_def)
next
  fix s i assume r: "dh_ready p s" and i: "i < NObjects p"
  note own = dh_object_owned [OF r i] and obj = dh_getObject_eq [OF r, of i]
  show "getObject (dh_layout p) s i \<in> dh_owned p s" using own by (simp add: heap_simps obj)
  show "computeIndex (dh_layout p) s (getObject (dh_layout p) s i) = i"
    using dh_computeIndex_eq [OF r own] dh_readyD(1) [OF r]
    by (simp add: heap_simps obj) (simp add: dh_object_def)
  show "getObject (dh_layout p) s i \<noteq> 0"
    using dh_readyD(6) [OF r] by (simp add: heap_simps obj) (simp add: dh_object_def)
qed (auto simp: heap_simps dh_inBounds_iff dh_computeIndex_eq dh_offset_less dh_ready_def mini_ok_def)

lemma dh_malloc_cases:
  fixes p :: mini_params and s :: mini_diehard
  assumes "dh_ready p s" and "dh_malloc p m s = (a, s', rs)"
  shows "s' = s\<lparr>mh_rng := snd (rng_next (mh_rng s)),
      miniHeapBitmap := snd (tryToSet (draw_index p s) (miniHeapBitmap s))\<rparr>"
    and "a = (if draw_index p s \<in> core_bits s then 0 else dh_object p s (draw_index p s))"
    and "dh_ready p s'" and "core_bits s' = insert (draw_index p s) (core_bits s)"
  using dhl.core_malloc_cases [OF assms(1) assms(2) [unfolded dh_malloc_def]] dh_getObject_eq [OF assms(1)]
  by (simp_all add: heap_simps)

lemma dh_free_core:
  assumes "dh_free p a m s = (freed, s', m', rs)"
  shows "core_free (dh_layout p) p a m s = (freed, s', rs)"
    and "m' = (if DieFastOn p \<and> freed then fill a (ObjectSize p) (freedValue s') m else m)"
  using assms by (auto simp: dh_free_def Let_def split: prod.splits)

lemma dh_free_cases:
  fixes p :: mini_params and s :: mini_diehard
  defines "i \<equiv> \<lambda>a. (a - miniHeap s) div ObjectSize p"
  assumes "dh_ready p s" and "dh_free p a m s = (freed, s', m', rs)"
  shows "a \<notin> dh_owned p s \<Longrightarrow> \<not> freed \<and> s' = s \<and> m' = m \<and> rs = []"
    and "a \<in> dh_owned p s \<Longrightarrow> freed = (i a \<in> core_bits s)
      \<and> s' = s\<lparr>miniHeapBitmap := snd (reset (i a) (miniHeapBitmap s))\<rparr>
      \<and> m' = (if DieFastOn p \<and> freed then fill a (ObjectSize p) (freedValue s) m else m)"
    and "dh_ready p s'"
    and "core_bits s' = (if a \<in> dh_owned p s then core_bits s - {i a} else core_bits s)"
  using dhl.core_free_cases [OF assms(2) dh_free_core(1) [OF assms(3)]] dh_free_core(2) [OF assms(3)]
    dh_computeIndex_eq [OF assms(2), of a]
  by (auto simp: heap_simps i_def)

lemma dh_getSize_eq:
  assumes "dh_ready p s"
  shows "dh_getSize p a s = (if a \<in> dh_owned p s then ObjectSize p - (a - miniHeap s) mod ObjectSize p else 0)"
  using dh_inBounds_iff [OF assms] computeOffset_eq [OF assms]
  by (simp add: dh_getSize_def modulo_eq_mod)

interpretation dhmini: sized_mini_store "dh_ready p" "dh_owned p" "dh_slot p" "dh_live p"
    "dh_malloc p" "dh_free p" "dh_getSize p" for p
proof
  fix s m a s' rs
  assume r: "dh_ready p s" and c: "dh_malloc p m s = (a, s', rs)"
  note c' = dhl.core_malloc_store [OF r c [unfolded dh_malloc_def]]
  show "dh_ready p s' \<and> dh_owned p s' = dh_owned p s \<and> dh_slot p s' = dh_slot p s" by (rule c')
  show "(a = 0 \<and> dh_live p s' = dh_live p s) \<or>
    (a \<noteq> 0 \<and> a \<in> dh_owned p s \<and> dh_slot p s a = a \<and> a \<notin> dh_live p s \<and> dh_live p s' = insert a (dh_live p s))"
    by (rule c')
next
  fix s a m freed s' m' rs
  assume r: "dh_ready p s" and c: "dh_free p a m s = (freed, s', m', rs)"
  note c' = dhl.core_free_store [OF r dh_free_core(1) [OF c]]
  show "dh_ready p s' \<and> dh_owned p s' = dh_owned p s \<and> dh_slot p s' = dh_slot p s" by (rule c')
  show "freed = (a \<in> dh_owned p s \<and> dh_slot p s a \<in> dh_live p s) \<and>
      dh_live p s' = (if freed then dh_live p s - {dh_slot p s a} else dh_live p s)" by (rule c')
next
  fix s a assume r: "dh_ready p s"
  show "dh_getSize p a s = 0 \<longleftrightarrow> a \<notin> dh_owned p s"
    using mod_less_divisor [OF dh_readyD(1) [OF r], of "a - miniHeap s"]
    by (simp add: dh_getSize_eq [OF r] not_le)
qed (auto simp: dhl.live_own dhl.live_finite)

text \<open>Activation makes the heap ready, with nothing live.\<close>

lemma dh_activate_ready:
  assumes "mini_ok p" and "\<not> isHeapActivated s" and "buf \<noteq> 0"
    and "buf + NObjects p * ObjectSize p \<le> 2 ^ 64"
    and "length ws = (NObjects p + 63) mod 2 ^ 64 div 64"
    and "dh_activate p buf (Some ws) m s = (s', m')"
  shows "dh_ready p s' \<and> dh_live p s' = {} \<and> miniHeap s' = buf"
proof -
  let ?bm = "reserve (NObjects p) (Some ws) (miniHeapBitmap s)"
  have n: "NObjects p < 2 ^ 37" using assms(1) by (simp add: mini_ok_def)
  have s': "s' = s\<lparr>miniHeap := buf, miniHeapBitmap := ?bm, isHeapActivated := True\<rparr>"
    using assms(2,3,6) by (auto simp: dh_activate_def Let_def)
  show ?thesis
    using assms(1,3,4) reserve_inv [OF n assms(5)] reserve_bits [OF assms(5)] reserve_cap [OF n]
    by (simp add: s' dh_ready_def layout_live_def core_bits_def core_bitmap_ok_def)
qed

section \<open>Canaries\<close>

text \<open>With DieFast every free slot holds the freed value.\<close>

definition canary_inv :: "mini_params \<Rightarrow> mini_diehard \<Rightarrow> mem \<Rightarrow> bool" where
  "canary_inv p s m \<longleftrightarrow> (\<forall>i < NObjects p. i \<notin> core_bits s
     \<longrightarrow> holds_canary (dh_object p s i) (ObjectSize p) (freedValue s) m)"

definition neighbours :: "mini_params \<Rightarrow> nat \<Rightarrow> nat set" where
  "neighbours p i = {sub32 i 1 mod NObjects p, (i + 1) mod 2 ^ 32 mod NObjects p}"

lemma neighbours_ring:
  assumes "NObjects p = 2 ^ k" and "k < 32" and "i < NObjects p"
  shows "neighbours p i = {(if i = 0 then NObjects p - 1 else i - 1), (if i = NObjects p - 1 then 0 else i + 1)}"
proof -
  have k: "(2::nat) ^ k dvd 2 ^ 32" using assms(2) by (intro le_imp_power_dvd) simp
  have lt: "(2::nat) ^ k < 2 ^ 32" using assms(2) by (intro power_strict_increasing) auto
  have "sub32 i 1 mod 2 ^ k = (if i = 0 then 2 ^ k - 1 else i - 1)"
  proof (cases "i = 0")
    case True
    obtain c where c: "(2::nat) ^ 32 = 2 ^ k * c" using k by (auto elim: dvdE)
    then have "c \<noteq> 0" by (metis mult_0_right power_not_zero zero_neq_numeral)
    then have "(2::nat) ^ 32 - 1 = (2 ^ k - 1) + 2 ^ k * (c - 1)"
      using c by (cases c) simp_all
    then have "((2::nat) ^ 32 - 1) mod 2 ^ k = (2 ^ k - 1) mod 2 ^ k"
      by (simp only: mod_mult_self2)
    then have "((2::nat) ^ 32 - 1) mod 2 ^ k = 2 ^ k - 1" by simp
    with True show ?thesis using sub32_zero_one by simp
  next
    case False
    with assms lt show ?thesis by (simp add: sub32_le)
  qed
  moreover have "(i + 1) mod 2 ^ 32 mod 2 ^ k = (if i = 2 ^ k - 1 then 0 else i + 1)"
    using assms(1,3) lt by (cases "i = 2 ^ k - 1") simp_all
  ultimately show ?thesis by (simp add: neighbours_def assms(1))
qed

lemma neighbours_less: "0 < NObjects p \<Longrightarrow> j \<in> neighbours p i \<Longrightarrow> j < NObjects p"
  by (auto simp: neighbours_def)

definition intact :: "mini_params \<Rightarrow> mini_diehard \<Rightarrow> mem \<Rightarrow> nat \<Rightarrow> bool" where
  "intact p s m i \<longleftrightarrow> holds_canary (dh_object p s i) (ObjectSize p) (freedValue s) m"

lemma object_size_bound: "dh_ready p s \<Longrightarrow> ObjectSize p < 2 ^ 34"
proof -
  assume "dh_ready p s"
  note r = dh_readyD [OF this]
  have "ObjectSize p \<le> NObjects p * ObjectSize p" using r(2) by simp
  with r(4) show ?thesis by linarith
qed

lemma checkNeighbour_dh:
  assumes "dh_ready p s" and "DieFastOn p" and "i < NObjects p"
  shows "checkNeighbour (dh_layout p) p s i m = [] \<longleftrightarrow>
    i \<in> core_bits s \<or> intact p s m i"
proof -
  note r = dh_readyD [OF assms(1)]
  have "isSet i (miniHeapBitmap s) \<longleftrightarrow> i \<in> core_bits s"
    unfolding core_bits_def using r(8,9) assms(3) by (intro plain.test_bits) auto
  then show ?thesis
    using checkNot_iff [OF object_size_bound [OF assms(1)]] assms(2)
    by (simp add: checkNeighbour_def dh_layout_def dh_getObject_eq [OF assms(1)]
        reportOverflowError_def intact_def Let_def)
qed

lemma checkOverflowError_dh:
  assumes "dh_ready p s" and "DieFastOn p" and "DieHarderOn p"
  shows "checkOverflowError (dh_layout p) p s i m = [] \<longleftrightarrow>
    (\<forall>j \<in> neighbours p i. j \<in> core_bits s \<or> intact p s m j)"
proof -
  have n: "0 < NObjects p" using assms(1) by (rule dh_readyD)
  then have "checkOverflowError (dh_layout p) p s i m = [] \<longleftrightarrow>
      (\<forall>j \<in> neighbours p i. checkNeighbour (dh_layout p) p s j m = [])"
    using assms(3) by (simp add: checkOverflowError_def neighbours_def Let_def)
  also have "\<dots> \<longleftrightarrow> (\<forall>j \<in> neighbours p i. j \<in> core_bits s \<or> intact p s m j)"
    by (intro ball_cong refl checkNeighbour_dh [OF assms(1,2)]) (rule neighbours_less [OF n])
  finally show ?thesis .
qed

text \<open>What \<open>malloc\<close> reports: damage in the slot it hands out or in a free neighbour, nothing else.\<close>

lemma dh_malloc_reports:
  assumes "dh_ready p s" and "DieFastOn p" and "DieHarderOn p"
    and "dh_malloc p m s = (a, s', rs)" and "a \<noteq> 0"
  shows "rs = [] \<longleftrightarrow> intact p s m (draw_index p s) \<and>
    (\<forall>j \<in> neighbours p (draw_index p s).
       j \<in> insert (draw_index p s) (core_bits s) \<or> intact p s m j)"
proof -
  note c = dh_malloc_cases [OF assms(1,4)]
  let ?i = "draw_index p s"
  have i: "?i < NObjects p" using dh_readyD(2) [OF assms(1)] by (rule draw_index_less)
  have frame: "intact p s' m j = intact p s m j" for j
    by (simp add: intact_def c(1) dh_object_def)
  have won: "fst (tryToSet ?i (miniHeapBitmap s))"
    using assms(4,5) by (auto simp: dh_malloc_def core_malloc_def draw_index_def Let_def case_prod_beta
        split: if_splits)
  have rs: "rs = (if checkNot a (ObjectSize p) (freedValue s) m
        then reportOverflowError p a (overflowIndex p s' a m) else [])
      @ checkOverflowError (dh_layout p) p s' ?i m"
    using assms(2,4) won c(1) by (auto simp: dh_malloc_def core_malloc_def draw_index_def Let_def
        case_prod_beta reportOverflowError_def)
  have "a = dh_object p s ?i" using c(2) assms(5) by (simp split: if_splits)
  then have "checkNot a (ObjectSize p) (freedValue s) m \<longleftrightarrow> \<not> intact p s m ?i"
    using checkNot_iff [OF object_size_bound [OF assms(1)]] by (simp add: intact_def)
  then show ?thesis
    using checkOverflowError_dh [OF c(3) assms(2,3), of ?i m] assms(2)
    by (simp add: rs c(4) frame reportOverflowError_def)
qed

lemma dh_malloc_canary:
  assumes "dh_ready p s" and "canary_inv p s m" and "dh_malloc p m s = (a, s', rs)"
  shows "canary_inv p s' m"
proof -
  note c = dh_malloc_cases [OF assms(1,3)]
  have "dh_object p s' = dh_object p s" "freedValue s' = freedValue s"
    by (simp_all add: c(1) dh_object_def fun_eq_iff)
  with assms(2) show ?thesis by (simp add: canary_inv_def c(4))
qed

lemma dh_malloc_quiet:
  assumes "dh_ready p s" and "canary_inv p s m" and "DieFastOn p" and "DieHarderOn p"
    and "dh_malloc p m s = (a, s', rs)"
  shows "rs = []"
proof (cases "a = 0")
  case True
  with assms dh_readyD(6) [OF assms(1)] dh_malloc_cases(3) [OF assms(1,5)] show ?thesis
    by (auto simp: dh_malloc_def core_malloc_def Let_def case_prod_beta dh_layout_def dh_getObject_def
        dest: dh_readyD split: if_splits)
next
  case False
  let ?i = "draw_index p s"
  have n: "0 < NObjects p" using dh_readyD(2) [OF assms(1)] .
  have "?i \<notin> core_bits s"
    using dh_malloc_cases(2) [OF assms(1,5)] False by (simp split: if_splits)
  with assms(2) draw_index_less [OF n, of s] neighbours_less [OF n] show ?thesis
    by (auto simp: dh_malloc_reports [OF assms(1,3,4,5) False] canary_inv_def intact_def)
qed

text \<open>Freeing an object by its start keeps the canaries, and it fills the object.\<close>

lemma objects_disjoint:
  assumes "i \<noteq> j"
  shows "dh_object p s i + ObjectSize p \<le> dh_object p s j \<or> dh_object p s j + ObjectSize p \<le> dh_object p s i"
proof -
  have "i * ObjectSize p + ObjectSize p \<le> j * ObjectSize p" if "i < j" for i j
    using mult_le_mono1 [of "Suc i" j "ObjectSize p"] that by simp
  with assms show ?thesis by (auto simp: dh_object_def neq_iff)
qed

lemma dh_free_canary:
  assumes "dh_ready p s" and "canary_inv p s m" and "DieFastOn p" and "dh_slot p s a = a"
    and "dh_free p a m s = (freed, s', m', rs)"
  shows "canary_inv p s' m'"
proof (cases "a \<in> dh_owned p s")
  case False
  with dh_free_cases(1) [OF assms(1,5)] assms(2) show ?thesis by simp
next
  case own: True
  note c = dh_free_cases [OF assms(1,5)]
  let ?i = "(a - miniHeap s) div ObjectSize p"
  have a: "a = dh_object p s ?i" using assms(4) dh_slot_eq [OF assms(1) own] by simp
  have s': "dh_object p s' = dh_object p s" "freedValue s' = freedValue s"
    using c(2) [OF own] by (simp_all add: dh_object_def fun_eq_iff)
  have okbit: "freed \<longleftrightarrow> ?i \<in> core_bits s" using c(2) [OF own] by simp
  have m': "m' = (if freed then fill a (ObjectSize p) (freedValue s) m else m)"
    using c(2) [OF own] assms(3) by simp
  show ?thesis unfolding canary_inv_def s' c(4)
  proof (intro allI impI)
    fix j assume j: "j < NObjects p" "j \<notin> (if a \<in> dh_owned p s
        then core_bits s - {?i} else core_bits s)"
    show "holds_canary (dh_object p s j) (ObjectSize p) (freedValue s) m'"
    proof (cases "j = ?i \<and> freed")
      case True
      then show ?thesis using fill_holds [OF object_size_bound [OF assms(1)]] a m' by metis
    next
      case False
      then have "j \<notin> core_bits s" using j(2) own okbit by auto
      then have "holds_canary (dh_object p s j) (ObjectSize p) (freedValue s) m"
        using assms(2) j(1) by (simp add: canary_inv_def)
      moreover have "dh_object p s j + ObjectSize p \<le> a \<or> a + ObjectSize p \<le> dh_object p s j" if freed
        using objects_disjoint [of j ?i p s] False that unfolding a [symmetric] by simp
      ultimately show ?thesis by (cases freed) (simp_all add: m' holds_canary_fill_disjoint)
    qed
  qed
qed

lemma fill_read:
  assumes "sz < 2 ^ 34" and "i < sz div 8"
  shows "read64 (fill ptr sz v m) (ptr + 8 * i) = v"
  using fill_holds [OF assms(1)] assms(2) by (simp add: holds_canary_def)

lemma dh_activate_canary:
  assumes "mini_ok p" and "\<not> isHeapActivated s" and "buf \<noteq> 0"
    and "8 dvd ObjectSize p" and "DieFastOn p"
    and "dh_activate p buf words m s = (s', m')"
  shows "canary_inv p s' m'"
proof -
  obtain q where q: "ObjectSize p = 8 * q" using assms(4) by (auto elim: dvdE)
  let ?N = "NObjects p * ObjectSize p"
  have sz: "?N < 2 ^ 34" using assms(1) by (simp add: mini_ok_def)
  have s': "miniHeap s' = buf" "freedValue s' = freedValue s" and m': "m' = fill buf ?N (freedValue s) m"
    using assms(2,3,5,6) by (auto simp: dh_activate_def Let_def)
  have "read64 m' (dh_object p s' i + 8 * j) = freedValue s" if "i < NObjects p" "j < q" for i j
  proof -
    have "(i + 1) * q \<le> NObjects p * q" using that(1) by (intro mult_le_mono1) simp
    then have "i * q + j < ?N div 8" using that(2) by (simp add: q)
    from fill_read [OF sz this, of buf] show ?thesis
      by (simp add: m' s' dh_object_def q algebra_simps)
  qed
  then show ?thesis by (simp add: canary_inv_def holds_canary_def s' q)
qed

text \<open>
  \<open>free\<close> accepts an address inside an object.  It clears the object's bit and fills
  \<open>ObjectSize\<close> bytes from the address, so it runs over the start of the next object.
\<close>

lemma dh_free_interior:
  assumes "dh_ready p s" and "DieFastOn p" and "8 dvd ObjectSize p"
    and "i \<in> core_bits s" and "0 < k" and "8 * k < ObjectSize p"
    and "dh_free p (dh_object p s i + 8 * k) m s = (freed, s', m', rs)"
  shows "freed" and "core_bits s' = core_bits s - {i}"
    and "read64 m' (dh_object p s (Suc i)) = freedValue s"
proof -
  let ?a = "dh_object p s i + 8 * k"
  have i: "i < NObjects p" using dh_readyD(10) [OF assms(1)] assms(4) by auto
  have idx: "(?a - miniHeap s) div ObjectSize p = i" using assms(6) by (simp add: dh_object_def)
  have "(i + 1) * ObjectSize p \<le> NObjects p * ObjectSize p" using i by (intro mult_le_mono1) simp
  then have own: "?a \<in> dh_owned p s" using assms(6) by (simp add: dh_owned_def dh_object_def)
  note c = dh_free_cases [OF assms(1,7)]
  show ok: freed using c(2) [OF own] assms(4) by (simp add: idx)
  show "core_bits s' = core_bits s - {i}" using c(4) own by (simp add: idx)
  obtain q where q: "ObjectSize p = 8 * q" using assms(3) by (auto elim: dvdE)
  have "m' = fill ?a (ObjectSize p) (freedValue s) m" using c(2) [OF own] ok assms(2) by simp
  moreover have "q - k < ObjectSize p div 8" using assms(5,6) q by simp
  moreover have "dh_object p s (Suc i) = ?a + 8 * (q - k)"
    using assms(6) q by (simp add: dh_object_def)
  ultimately show "read64 m' (dh_object p s (Suc i)) = freedValue s"
    using fill_read [OF object_size_bound [OF assms(1)]] by metis
qed

section \<open>Properties\<close>

text \<open>A small heap for the witnesses: four objects of 16 bytes at address 4096.\<close>

definition demo_params :: mini_params where
  "demo_params = \<lparr>ObjectSize = 16, NObjects = 4, DieFastOn = True, DieHarderOn = True\<rparr>"

definition demo_heap :: "u64 list \<Rightarrow> mini_diehard" where
  "demo_heap ws = \<lparr>mh_rng = 0, freedValue = 5, isHeapActivated = True,
     miniHeapBitmap = \<lparr>bitarray = Some ws, elements = 64\<rparr>, miniHeap = 4096\<rparr>"

definition demo_mem :: mem where
  "demo_mem = fill 4096 64 5 (\<lambda>_. 0)"

lemma demo_bits: "core_bits (demo_heap [w]) = {i. bit w i}"
proof -
  have "i < 64 \<and> bit ([w] ! (i div 64)) (i mod 64) \<longleftrightarrow> bit w i" for i
    using bit_imp_le_length [of w i] by (cases "i < 64") auto
  then show ?thesis by (simp add: core_bits_def demo_heap_def bm_bits_def bm_words_def)
qed

lemma demo_ready: "(\<And>i. bit w i \<Longrightarrow> i < 4) \<Longrightarrow> dh_ready demo_params (demo_heap [w])"
  using demo_bits [of w]
  by (auto simp: dh_ready_def core_bitmap_ok_def core_bits_def mini_ok_def demo_params_def demo_heap_def bm_inv_def
      bm_words_def)

lemma demo_bits_instances: "core_bits (demo_heap [0]) = {}" "core_bits (demo_heap [2]) = {1}"
  unfolding demo_bits by (auto simp add: bit_2_iff simp del: bit_numeral_word_iff)

lemma demo_ready_instances: "dh_ready demo_params (demo_heap [0])" "dh_ready demo_params (demo_heap [2])"
  by (rule demo_ready; simp add: bit_2_iff)+

text \<open>A miniheap frees exactly what it holds: a pointer outside the heap is refused and changes nothing,
  a pointer into a slot clears that slot's bit, is reported as freed exactly when the slot was allocated, and
  touches memory only then (DieFast overwrites with the freed value).\<close>

theorem miniheap_free:
  assumes "dh_ready p s" and "dh_free p a m s = (freed, s', m', rs)"
  shows "(a \<notin> dh_owned p s \<longrightarrow> \<not> freed \<and> s' = s \<and> m' = m \<and> rs = [])
    \<and> (a \<in> dh_owned p s \<longrightarrow> freed = ((a - miniHeap s) div ObjectSize p \<in> core_bits s)
         \<and> core_bits s' = core_bits s - {(a - miniHeap s) div ObjectSize p}
         \<and> m' = (if DieFastOn p \<and> freed then fill a (ObjectSize p) (freedValue s) m else m))
    \<and> dh_ready p s'"
  using dh_free_cases [OF assms] by (cases "a \<in> dh_owned p s") (simp_all only: if_True if_False simp_thms)

theorem miniheap_free_witness:
  "case dh_free demo_params 4112 demo_mem (demo_heap [2]) of (freed, s', _) \<Rightarrow> freed \<and> core_bits s' = {}"
proof -
  obtain freed s' m' rs where f: "dh_free demo_params 4112 demo_mem (demo_heap [2]) = (freed, s', m', rs)"
    by (metis surj_pair)
  from miniheap_free [OF demo_ready_instances(2) f] show ?thesis
    by (simp add: f demo_bits_instances dh_owned_def) (simp add: demo_heap_def demo_params_def)
qed

text \<open>C13: \<open>malloc\<close> of a miniheap probes exactly one random slot: if the slot is taken it returns null and
  changes no bit, otherwise it returns that slot's address, marks it, and no other slot's bit changes.\<close>

theorem miniheap_malloc:
  assumes "dh_ready p s" and "dh_malloc p m s = (a, s', rs)"
  shows "a = (if draw_index p s \<in> core_bits s then 0 else dh_object p s (draw_index p s))
    \<and> core_bits s' = insert (draw_index p s) (core_bits s) \<and> mh_rng s' = snd (rng_next (mh_rng s)) \<and> dh_ready p s'"
  using dh_malloc_cases [OF assms] by simp

theorem miniheap_malloc_witness:
  "case dh_malloc demo_params demo_mem (demo_heap [0]) of (a, s', rs) \<Rightarrow>
     a = dh_object demo_params (demo_heap [0]) (draw_index demo_params (demo_heap [0])) \<and> card (core_bits s') = 1"
proof -
  obtain a s' rs where f: "dh_malloc demo_params demo_mem (demo_heap [0]) = (a, s', rs)" by (metis surj_pair)
  from miniheap_malloc [OF demo_ready_instances(1) f] show ?thesis by (simp add: f demo_bits_instances)
qed

lemma demo_geometry: "dh_object demo_params (demo_heap ws) i = 4096 + i * 16"
  by (simp add: dh_object_def demo_params_def demo_heap_def)

lemma demo_intact: "i < 4 \<Longrightarrow> intact demo_params (demo_heap ws) demo_mem i"
proof -
  assume "i < 4"
  moreover have "(8::nat) dvd i * 16" by presburger
  ultimately have "holds_canary (4096 + i * 16) 16 5 demo_mem"
    unfolding demo_mem_def by (intro holds_canary_part [OF fill_holds]) auto
  then show ?thesis by (simp add: intact_def demo_geometry) (simp add: demo_params_def demo_heap_def)
qed

lemma demo_canary: "canary_inv demo_params (demo_heap ws) demo_mem"
  using demo_intact by (auto simp: canary_inv_def intact_def demo_params_def)

text \<open>C14: DieFast detects overflows: with canary checks on, an allocation reports an error exactly when the
  slot it returns, or a free neighbour of it, no longer holds the freed value.\<close>

theorem diefast_detects:
  assumes "dh_ready p s" and "DieFastOn p" and "DieHarderOn p"
    and "dh_malloc p m s = (a, s', rs)" and "a \<noteq> 0"
  shows "rs = [] \<longleftrightarrow> intact p s m (draw_index p s) \<and>
    (\<forall>j \<in> neighbours p (draw_index p s). j \<in> insert (draw_index p s) (core_bits s) \<or> intact p s m j)"
  using assms by (rule dh_malloc_reports)

theorem diefast_detects_witness:
  "case dh_malloc demo_params demo_mem (demo_heap [0]) of (a, s', rs) \<Rightarrow> rs = []"
proof -
  obtain a s' rs where f: "dh_malloc demo_params demo_mem (demo_heap [0]) = (a, s', rs)" by (metis surj_pair)
  note c = dh_malloc_cases [OF demo_ready_instances(1) f]
  have "a \<noteq> 0" using c(2) by (simp add: demo_bits_instances demo_geometry)
  have p: "DieFastOn demo_params" "DieHarderOn demo_params" "NObjects demo_params = 4" by (simp_all add: demo_params_def)
  from diefast_detects [OF demo_ready_instances(1) p(1,2) f \<open>a \<noteq> 0\<close>] show ?thesis
    using demo_intact neighbours_less [of demo_params] draw_index_less [of demo_params "demo_heap [0]"]
    by (simp add: f p)
qed

text \<open>C15: DieFast gives no false alarms: when the free slots hold the freed value, a \<open>malloc\<close> reports
  nothing, and neither it nor a \<open>free\<close> of an object's start breaks that canary discipline.\<close>

theorem diefast_no_false_alarm:
  assumes "dh_ready p s" and "canary_inv p s m" and "DieFastOn p" and "DieHarderOn p"
  shows "(\<forall>a s' rs. dh_malloc p m s = (a, s', rs) \<longrightarrow> rs = [] \<and> canary_inv p s' m)
    \<and> (\<forall>a freed s' m' rs. dh_slot p s a = a \<and> dh_free p a m s = (freed, s', m', rs) \<longrightarrow> canary_inv p s' m')"
  using dh_malloc_quiet [OF assms] dh_malloc_canary [OF assms(1,2)] dh_free_canary [OF assms(1-3)] by blast

theorem diefast_no_false_alarm_witness:
  "case dh_malloc demo_params demo_mem (demo_heap [2]) of (a, s', rs) \<Rightarrow>
     rs = [] \<and> canary_inv demo_params s' demo_mem"
proof -
  obtain a s' rs where f: "dh_malloc demo_params demo_mem (demo_heap [2]) = (a, s', rs)" by (metis surj_pair)
  from diefast_no_false_alarm [OF demo_ready_instances(2) demo_canary] have "rs = [] \<and> canary_inv demo_params s' demo_mem"
    using f by (simp add: demo_params_def)
  with f show ?thesis by simp
qed

text \<open>Freeing a pointer into the inside of an allocated object is accepted: the whole object is freed, and
  DieFast's fill, which starts at the pointer and is a whole object long, overwrites the start of the next one.\<close>

theorem interior_free_corrupts:
  assumes "dh_ready p s" and "DieFastOn p" and "8 dvd ObjectSize p"
    and "i \<in> core_bits s" and "0 < k" and "8 * k < ObjectSize p"
    and "dh_free p (dh_object p s i + 8 * k) m s = (freed, s', m', rs)"
  shows "freed \<and> core_bits s' = core_bits s - {i} \<and> read64 m' (dh_object p s (Suc i)) = freedValue s"
  using dh_free_interior [OF assms] by simp

theorem interior_free_corrupts_witness:
  "case dh_free demo_params 4120 demo_mem (demo_heap [2]) of
     (freed, s', m', rs) \<Rightarrow> freed \<and> read64 m' 4128 = 5"
proof -
  obtain freed s' m' rs where f: "dh_free demo_params 4120 demo_mem (demo_heap [2]) = (freed, s', m', rs)"
    by (metis surj_pair)
  have p: "DieFastOn demo_params" "ObjectSize demo_params = 16" "freedValue (demo_heap [2]) = 5"
    by (simp_all add: demo_params_def demo_heap_def)
  have "dh_object demo_params (demo_heap [2]) 1 + 8 * 1 = 4120" by (simp add: demo_geometry)
  from interior_free_corrupts [OF demo_ready_instances(2) p(1) _ _ _ _ f [folded this]] show ?thesis
    by (simp add: f p demo_bits_instances demo_geometry)
qed

end
