(* ===== verification/HashTable.thy ===== *)
theory HashTable
  imports Prelude "HOL-Library.Multiset"
begin

text \<open>
  \<open>DynamicHashTable\<close> of \<open>src/include/util/dynamichashtable.h\<close>: an open-addressing table with
  linear probing that is never shrunk and never removes.  An entry is \<open>StoredObject\<close>, here an
  option (\<open>_isValid\<close> is \<open>Some\<close>).  \<open>hashCode\<close> of the value type is a parameter.  The probe
  loops get the size of the table as fuel, which the lemmas show to be enough.  \<open>grow\<close> aborts
  when the source heap has no memory (\<open>None\<close>; \<open>mem_ok\<close> is the source heap's answer).

  The locale \<open>keyed_table\<close> is what the clients (\<open>PageTable\<close>, the large heap, \<open>RandomMmap\<close>) rely on.
\<close>

section \<open>The interface\<close>

locale keyed_table =
  fixes inv :: "'t \<Rightarrow> bool"
    and vals :: "'t \<Rightarrow> 'v set"
    and key :: "'v \<Rightarrow> nat"
    and lookup :: "nat \<Rightarrow> 't \<Rightarrow> 'v option"
    and insert_val :: "bool \<Rightarrow> 'v \<Rightarrow> 't \<Rightarrow> 't option"
  assumes lookup_iff: "inv t \<Longrightarrow> lookup k t = Some v \<longleftrightarrow> v \<in> vals t \<and> key v = k"
    and insert_ok: "inv t \<Longrightarrow> \<exists>t'. insert_val True v t = Some t'"
    and insert_vals: "inv t \<Longrightarrow> lookup (key v) t = None \<Longrightarrow> insert_val m v t = Some t'
      \<Longrightarrow> inv t' \<and> vals t' = insert v (vals t)"
begin

lemma lookup_none: "inv t \<Longrightarrow> lookup k t = None \<longleftrightarrow> (\<forall>v \<in> vals t. key v \<noteq> k)"
  using lookup_iff [of t k] by (cases "lookup k t") auto

lemma lookup_insert:
  assumes "inv t" and "lookup (key v) t = None" and "insert_val m v t = Some t'"
  shows "lookup k t' = (if k = key v then Some v else lookup k t)"
proof -
  have t': "inv t'" "vals t' = insert v (vals t)" using insert_vals [OF assms] by auto
  show ?thesis
  proof (cases "k = key v")
    case True
    with t' lookup_iff [of t' k v] show ?thesis by simp
  next
    case False
    then have "lookup k t' = Some w \<longleftrightarrow> lookup k t = Some w" for w
      using t' assms(1) by (auto simp: lookup_iff)
    then have "lookup k t' = lookup k t" by (rule option_eqI_Some)
    with False show ?thesis by simp
  qed
qed

end

section \<open>The table\<close>

record 'v hash_table =
  ht_size :: nat
  ht_mask :: nat
  ht_entries :: "'v option list"
  ht_numElements :: nat

datatype 'v probe = Found 'v | NotFound | Abort

definition allocTable :: "nat \<Rightarrow> 'v option list" where
  "allocTable nElts = replicate nElts None"

definition LOAD_FACTOR_RECIPROCAL :: nat where
  "LOAD_FACTOR_RECIPROCAL = 8"

definition ExpansionFactor :: nat where
  "ExpansionFactor = 2"

definition DynamicHashTable :: "nat \<Rightarrow> nat \<Rightarrow> 'v hash_table" where
  "DynamicHashTable init_size value_size =
     (let size = init_size div value_size
      in \<lparr>ht_size = size, ht_mask = size - 1, ht_entries = allocTable size, ht_numElements = 0\<rparr>)"

fun find_from :: "nat \<Rightarrow> ('v \<Rightarrow> nat) \<Rightarrow> 'v hash_table \<Rightarrow> nat \<Rightarrow> nat \<Rightarrow> nat \<Rightarrow> 'v probe" where
  "find_from 0 hashCode t key lim i = Abort"
| "find_from (Suc fuel) hashCode t key lim i =
     (if i = lim then Abort
      else case ht_entries t ! i of
             Some v \<Rightarrow> if hashCode v = key then Found v
                       else find_from fuel hashCode t key lim ((i + 1) AND ht_mask t)
           | None \<Rightarrow> NotFound)"

definition ht_find :: "('v \<Rightarrow> nat) \<Rightarrow> nat \<Rightarrow> 'v hash_table \<Rightarrow> 'v probe" where
  "ht_find hashCode key t =
     (let start = key AND ht_mask t;
          lim = (start + ht_size t - 1) AND ht_mask t
      in find_from (ht_size t) hashCode t key lim start)"

fun insert_from :: "nat \<Rightarrow> 'v \<Rightarrow> 'v hash_table \<Rightarrow> nat \<Rightarrow> nat \<Rightarrow> 'v hash_table" where
  "insert_from 0 s t lim i = t"
| "insert_from (Suc fuel) s t lim i =
     (if i = lim then t
      else if ht_entries t ! i = None then t\<lparr>ht_entries := (ht_entries t)[i := Some s]\<rparr>
      else insert_from fuel s t lim ((i + 1) AND ht_mask t))"

definition insertOne :: "('v \<Rightarrow> nat) \<Rightarrow> 'v \<Rightarrow> 'v hash_table \<Rightarrow> 'v hash_table" where
  "insertOne hashCode s t =
     (let start = hashCode s AND ht_mask t;
          lim = (start + ht_size t - 1) AND ht_mask t
      in insert_from (ht_size t) s t lim start)"

fun rehash :: "('v \<Rightarrow> nat) \<Rightarrow> 'v option list \<Rightarrow> 'v hash_table \<Rightarrow> 'v hash_table" where
  "rehash hashCode [] t = t"
| "rehash hashCode (None # old) t = rehash hashCode old t"
| "rehash hashCode (Some v # old) t = rehash hashCode old (insertOne hashCode v t)"

definition grow :: "bool \<Rightarrow> ('v \<Rightarrow> nat) \<Rightarrow> 'v hash_table \<Rightarrow> 'v hash_table option" where
  "grow mem_ok hashCode t =
     (let old_entries = ht_entries t;
          size = ht_size t * ExpansionFactor
      in if \<not> mem_ok then None
         else Some (rehash hashCode old_entries
                (t\<lparr>ht_size := size, ht_mask := size - 1, ht_entries := allocTable size\<rparr>)))"

definition ht_insert :: "('v \<Rightarrow> nat) \<Rightarrow> bool \<Rightarrow> 'v \<Rightarrow> 'v hash_table \<Rightarrow> 'v hash_table option" where
  "ht_insert hashCode mem_ok s t =
     (case (if ht_numElements t + 1 > ht_size t div LOAD_FACTOR_RECIPROCAL
            then grow mem_ok hashCode t else Some t) of
        None \<Rightarrow> None
      | Some t \<Rightarrow> let t = insertOne hashCode s t
                  in Some (t\<lparr>ht_numElements := ht_numElements t + 1\<rparr>))"

definition ht_get :: "('v \<Rightarrow> nat) \<Rightarrow> nat \<Rightarrow> 'v hash_table \<Rightarrow> 'v option" where
  "ht_get hashCode k t = (case ht_find hashCode k t of Found v \<Rightarrow> Some v | _ \<Rightarrow> None)"

section \<open>Probe sequences\<close>

definition ht_vals :: "'v hash_table \<Rightarrow> 'v set" where
  "ht_vals t = {v. Some v \<in> set (ht_entries t)}"

definition stored :: "'v option list \<Rightarrow> 'v list" where
  "stored es = map the (filter (\<lambda>e. e \<noteq> None) es)"

definition used :: "'v option list \<Rightarrow> nat" where
  "used es = length (filter (\<lambda>e. e \<noteq> None) es)"

definition ht_shape :: "'v hash_table \<Rightarrow> bool" where
  "ht_shape t \<longleftrightarrow> (\<exists>k. ht_size t = 2 ^ k) \<and> ht_mask t = ht_size t - 1
     \<and> length (ht_entries t) = ht_size t"

definition reachable_entries :: "('v \<Rightarrow> nat) \<Rightarrow> 'v hash_table \<Rightarrow> bool" where
  "reachable_entries h t \<longleftrightarrow> (\<forall>i < ht_size t. \<forall>v. ht_entries t ! i = Some v \<longrightarrow>
     (\<exists>e < ht_size t. i = (h v + e) mod ht_size t
        \<and> (\<forall>d < e. ht_entries t ! ((h v + d) mod ht_size t) \<noteq> None)))"

definition unique_keys :: "('v \<Rightarrow> nat) \<Rightarrow> 'v hash_table \<Rightarrow> bool" where
  "unique_keys h t \<longleftrightarrow> distinct (map h (stored (ht_entries t)))"

text \<open>A table in which an insertion finds room.\<close>

definition ht_wf :: "('v \<Rightarrow> nat) \<Rightarrow> 'v hash_table \<Rightarrow> bool" where
  "ht_wf h t \<longleftrightarrow> ht_shape t \<and> reachable_entries h t \<and> unique_keys h t \<and> used (ht_entries t) + 1 < ht_size t"

definition ht_inv :: "('v \<Rightarrow> nat) \<Rightarrow> 'v hash_table \<Rightarrow> bool" where
  "ht_inv h t \<longleftrightarrow> ht_wf h t \<and> 8 \<le> ht_size t \<and> ht_numElements t = used (ht_entries t)
     \<and> 8 * ht_numElements t \<le> ht_size t"

lemma set_stored: "set (stored es) = {v. Some v \<in> set es}"
  by (force simp: stored_def)

lemma length_stored: "length (stored es) = used es"
  by (simp add: stored_def used_def)

lemma stored_simps [simp]:
  "stored [] = []" "stored (None # es) = stored es" "stored (Some v # es) = v # stored es"
  by (simp_all add: stored_def)

lemma unique_inj: "unique_keys h t \<Longrightarrow> inj_on h (ht_vals t)"
  by (simp add: unique_keys_def ht_vals_def distinct_map set_stored)

lemma shape_and: "ht_shape t \<Longrightarrow> n AND ht_mask t = n mod ht_size t"
  by (metis ht_shape_def and_pred_pow2)

lemma shape_pos: "ht_shape t \<Longrightarrow> 0 < ht_size t"
  by (auto simp: ht_shape_def)

lemma ring_lim: "0 < (n::nat) \<Longrightarrow> (b mod n + n - 1) mod n = (b + (n - 1)) mod n"
proof -
  assume n: "0 < n"
  have "b mod n + n - 1 = b mod n + (n - 1)" using n by simp
  then show ?thesis by (simp add: mod_add_left_eq)
qed

definition slot_at :: "'v hash_table \<Rightarrow> nat \<Rightarrow> nat \<Rightarrow> 'v option" where
  "slot_at t b d = ht_entries t ! ((b + d) mod ht_size t)"

lemma find_from_first:
  assumes "ht_shape t" and "f < ht_size t - 1"
    and "\<And>e. e < f \<Longrightarrow> \<exists>v. slot_at t b e = Some v \<and> h v \<noteq> k"
    and "slot_at t b f = None \<or> (\<exists>v. slot_at t b f = Some v \<and> h v = k)"
    and "d \<le> f" and "f - d < fuel"
  shows "find_from fuel h t k ((b + (ht_size t - 1)) mod ht_size t) ((b + d) mod ht_size t)
    = (case slot_at t b f of None \<Rightarrow> NotFound | Some v \<Rightarrow> Found v)"
  using assms(5,6)
proof (induction fuel arbitrary: d)
  case (Suc fuel)
  have ne: "(b + d) mod ht_size t \<noteq> (b + (ht_size t - 1)) mod ht_size t"
    using assms(2) Suc.prems(1) ring_inj [of d "ht_size t" "ht_size t - 1" b] by linarith
  show ?case
  proof (cases "d = f")
    case True
    with assms(4) ne show ?thesis by (auto simp: slot_at_def)
  next
    case False
    with Suc.prems(1) have "d < f" by simp
    from assms(3) [OF this] obtain v where "slot_at t b d = Some v" "h v \<noteq> k" by auto
    with ne have "find_from (Suc fuel) h t k ((b + (ht_size t - 1)) mod ht_size t) ((b + d) mod ht_size t)
      = find_from fuel h t k ((b + (ht_size t - 1)) mod ht_size t) ((b + Suc d) mod ht_size t)"
      using shape_and [OF assms(1), of "(b + d) mod ht_size t + 1"] ring_next [of b d "ht_size t"]
      by (simp add: slot_at_def)
    also have "\<dots> = (case slot_at t b f of None \<Rightarrow> NotFound | Some v \<Rightarrow> Found v)"
      using False Suc.prems by (intro Suc.IH) auto
    finally show ?thesis .
  qed
qed simp

lemma insert_from_first:
  assumes "ht_shape t" and "f < ht_size t - 1"
    and "\<And>e. e < f \<Longrightarrow> slot_at t b e \<noteq> None" and "slot_at t b f = None"
    and "d \<le> f" and "f - d < fuel"
  shows "insert_from fuel s t ((b + (ht_size t - 1)) mod ht_size t) ((b + d) mod ht_size t)
    = t\<lparr>ht_entries := (ht_entries t)[(b + f) mod ht_size t := Some s]\<rparr>"
  using assms(5,6)
proof (induction fuel arbitrary: d)
  case (Suc fuel)
  have ne: "(b + d) mod ht_size t \<noteq> (b + (ht_size t - 1)) mod ht_size t"
    using assms(2) Suc.prems(1) ring_inj [of d "ht_size t" "ht_size t - 1" b] by linarith
  show ?case
  proof (cases "d = f")
    case True
    with assms(4) ne show ?thesis by (simp add: slot_at_def)
  next
    case False
    with Suc.prems(1) assms(3) obtain v where "slot_at t b d = Some v"
      by (metis le_neq_implies_less not_None_eq)
    with ne have "insert_from (Suc fuel) s t ((b + (ht_size t - 1)) mod ht_size t) ((b + d) mod ht_size t)
      = insert_from fuel s t ((b + (ht_size t - 1)) mod ht_size t) ((b + Suc d) mod ht_size t)"
      using shape_and [OF assms(1), of "(b + d) mod ht_size t + 1"] ring_next [of b d "ht_size t"]
      by (simp add: slot_at_def)
    also have "\<dots> = t\<lparr>ht_entries := (ht_entries t)[(b + f) mod ht_size t := Some s]\<rparr>"
      using False Suc.prems by (intro Suc.IH) auto
    finally show ?thesis .
  qed
qed simp

text \<open>A well-formed table has an empty slot in reach of every probe sequence.\<close>

lemma empty_in_reach:
  assumes "length (ht_entries t) = ht_size t" and "used (ht_entries t) + 1 < ht_size t"
  shows "\<exists>d < ht_size t - 1. slot_at t b d = None"
proof (rule ccontr)
  assume "\<not> ?thesis"
  then have full: "slot_at t b d \<noteq> None" if "d < ht_size t - 1" for d
    using that by metis
  let ?U = "{i. i < ht_size t \<and> ht_entries t ! i \<noteq> None}"
  have "(\<lambda>d. (b + d) mod ht_size t) ` {..<ht_size t - 1} \<subseteq> ?U"
    using full assms(2) by (auto simp: slot_at_def)
  moreover have "inj_on (\<lambda>d. (b + d) mod ht_size t) {..<ht_size t - 1}"
    by (rule inj_onI) (simp add: ring_inj)
  ultimately have "card {..<ht_size t - 1} \<le> card ?U" by (intro card_inj_on_le) auto
  then have "ht_size t - 1 \<le> card ?U" by simp
  also have "card ?U = used (ht_entries t)"
    unfolding used_def length_filter_conv_card assms(1) ..
  finally show False using assms(2) by simp
qed

section \<open>Find\<close>

lemma probe_bounds:
  assumes "ht_shape t"
  shows "k AND ht_mask t = (k + 0) mod ht_size t"
    and "((k AND ht_mask t) + ht_size t - 1) AND ht_mask t = (k + (ht_size t - 1)) mod ht_size t"
  using shape_and [OF assms] ring_lim [OF shape_pos [OF assms]] by simp_all

lemma ht_valsI: "ht_shape t \<Longrightarrow> slot_at t b d = Some v \<Longrightarrow> v \<in> ht_vals t"
  using nth_mem [of "(b + d) mod ht_size t" "ht_entries t"] shape_pos [of t]
  by (simp add: ht_vals_def slot_at_def ht_shape_def)

lemma ht_valsE:
  assumes "ht_wf h t" and "v \<in> ht_vals t"
  obtains e where "e < ht_size t" "slot_at t (h v) e = Some v" "\<And>d. d < e \<Longrightarrow> slot_at t (h v) d \<noteq> None"
proof -
  obtain i where "i < ht_size t" "ht_entries t ! i = Some v"
    using assms by (auto simp: ht_wf_def ht_shape_def ht_vals_def in_set_conv_nth)
  then obtain e where "e < ht_size t" "i = (h v + e) mod ht_size t"
      "\<forall>d < e. ht_entries t ! ((h v + d) mod ht_size t) \<noteq> None"
    using assms(1) by (auto simp: ht_wf_def reachable_entries_def)
  with \<open>ht_entries t ! i = Some v\<close> show thesis by (intro that) (auto simp: slot_at_def)
qed

lemma ht_wfD:
  assumes "ht_wf h t"
  shows "ht_shape t" "length (ht_entries t) = ht_size t" "used (ht_entries t) + 1 < ht_size t"
    "unique_keys h t" "reachable_entries h t"
  using assms by (auto simp: ht_wf_def ht_shape_def)

lemma ht_find_correct:
  assumes "ht_wf h t"
  shows "ht_find h k t = Found v \<longleftrightarrow> v \<in> ht_vals t \<and> h v = k" and "ht_find h k t \<noteq> Abort"
proof -
  note w = ht_wfD [OF assms]
  define P where "P d \<longleftrightarrow> slot_at t k d = None \<or> (\<exists>v. slot_at t k d = Some v \<and> h v = k)" for d
  have "\<exists>d < ht_size t - 1. P d" using empty_in_reach [OF w(2,3), of k] by (auto simp: P_def)
  then obtain f where f': "f < ht_size t - 1" "P f" "\<And>e. e < f \<Longrightarrow> \<not> P e"
    using first_stop [of "ht_size t - 1" P] by blast
  note f = f'(1) f'(2,3) [unfolded P_def]
  have res: "ht_find h k t = (case slot_at t k f of None \<Rightarrow> NotFound | Some v \<Rightarrow> Found v)"
    unfolding ht_find_def Let_def unfolding probe_bounds(2) [OF w(1)] unfolding probe_bounds(1) [OF w(1)]
    using f by (intro find_from_first [OF w(1)]) auto
  then show "ht_find h k t \<noteq> Abort" by (simp split: option.split)
  show "ht_find h k t = Found v \<longleftrightarrow> v \<in> ht_vals t \<and> h v = k"
  proof
    assume "ht_find h k t = Found v"
    then have "slot_at t k f = Some v" using res by (simp split: option.splits)
    with f(2) ht_valsI [OF w(1)] show "v \<in> ht_vals t \<and> h v = k" by auto
  next
    assume v: "v \<in> ht_vals t \<and> h v = k"
    then obtain e where e: "slot_at t k e = Some v" "\<And>d. d < e \<Longrightarrow> slot_at t k d \<noteq> None"
      using ht_valsE [OF assms] by metis
    have "f \<le> e" using f(3) [of e] e(1) v by (auto simp: not_less [symmetric])
    then have "slot_at t k f \<noteq> None" using e by (cases "f = e") auto
    then obtain u where u: "slot_at t k f = Some u" "h u = k" using f(2) by auto
    then have "u = v" using unique_inj [OF w(4)] v ht_valsI [OF w(1) u(1)] by (auto dest: inj_onD)
    with u res show "ht_find h k t = Found v" by simp
  qed
qed

section \<open>Insert\<close>

lemma insertOne_place:
  assumes "ht_wf h t"
  obtains f where "f < ht_size t - 1" "slot_at t (h s) f = None"
    "\<And>e. e < f \<Longrightarrow> slot_at t (h s) e \<noteq> None"
    "insertOne h s t = t\<lparr>ht_entries := (ht_entries t)[(h s + f) mod ht_size t := Some s]\<rparr>"
proof -
  note w = ht_wfD [OF assms]
  obtain f where f: "f < ht_size t - 1" "slot_at t (h s) f = None" "\<And>e. e < f \<Longrightarrow> slot_at t (h s) e \<noteq> None"
    using first_stop [OF empty_in_reach [OF w(2,3), of "h s"]] by blast
  moreover have "insertOne h s t = t\<lparr>ht_entries := (ht_entries t)[(h s + f) mod ht_size t := Some s]\<rparr>"
    unfolding insertOne_def Let_def unfolding probe_bounds(2) [OF w(1)] unfolding probe_bounds(1) [OF w(1)]
    using f by (intro insert_from_first [OF w(1)]) auto
  ultimately show thesis by (rule that)
qed

lemma stored_update:
  assumes "i < length es" and "es ! i = None"
  shows "mset (stored (es[i := Some s])) = add_mset s (mset (stored es))"
  using assms
proof (induction es arbitrary: i)
  case (Cons e es)
  then show ?case by (cases i; cases e) auto
qed simp

lemma vals_update:
  assumes "i < length es" and "es ! i = None"
  shows "{v. Some v \<in> set (es[i := Some s])} = insert s {v. Some v \<in> set es}"
  using mset_eq_setD [of "stored (es[i := Some s])" "s # stored es"] stored_update [OF assms]
  by (simp add: set_stored)

lemma used_update:
  assumes "i < length es" and "es ! i = None"
  shows "used (es[i := Some s]) = Suc (used es)"
  using mset_eq_length [of "stored (es[i := Some s])" "s # stored es"] stored_update [OF assms]
  by (simp add: length_stored)

lemma distinct_update:
  assumes "i < length es" and "es ! i = None" and "distinct (map h (stored es))" and "\<forall>v \<in> set (stored es). h v \<noteq> h s"
  shows "distinct (map h (stored (es[i := Some s])))"
proof -
  have "mset (map h (stored (es[i := Some s]))) = mset (map h (s # stored es))"
    using stored_update [OF assms(1,2)] by simp
  moreover have "distinct (map h (s # stored es))" using assms(3,4) by force
  ultimately show ?thesis by (metis mset_eq_imp_distinct_iff)
qed

lemma insertOne_wf:
  assumes "ht_wf h t" and "\<forall>v \<in> ht_vals t. h v \<noteq> h s" and "used (ht_entries t) + 2 < ht_size t"
  shows "ht_wf h (insertOne h s t)" and "ht_vals (insertOne h s t) = insert s (ht_vals t)"
    and "used (ht_entries (insertOne h s t)) = Suc (used (ht_entries t))"
    and "ht_size (insertOne h s t) = ht_size t" and "ht_numElements (insertOne h s t) = ht_numElements t"
proof -
  note w = ht_wfD [OF assms(1)]
  obtain f where f: "f < ht_size t - 1" "slot_at t (h s) f = None"
      "\<And>e. e < f \<Longrightarrow> slot_at t (h s) e \<noteq> None"
    and t': "insertOne h s t = t\<lparr>ht_entries := (ht_entries t)[(h s + f) mod ht_size t := Some s]\<rparr>"
    by (rule insertOne_place [OF assms(1), of s]) blast
  let ?i = "(h s + f) mod ht_size t"
  have i: "?i < length (ht_entries t)" "ht_entries t ! ?i = None"
    using f(2) shape_pos [OF w(1)] w(2) by (simp_all add: slot_at_def)
  show vals: "ht_vals (insertOne h s t) = insert s (ht_vals t)"
    using vals_update [OF i, of s] by (simp add: t' ht_vals_def)
  show used: "used (ht_entries (insertOne h s t)) = Suc (used (ht_entries t))"
    by (simp add: t' used_update [OF i])
  show size: "ht_size (insertOne h s t) = ht_size t" "ht_numElements (insertOne h s t) = ht_numElements t"
    by (simp_all add: t')
  have shape: "ht_shape (insertOne h s t)" using w(1) by (simp add: t' ht_shape_def)
  have keep: "ht_entries t ! j \<noteq> None \<Longrightarrow> (ht_entries t)[?i := Some s] ! j \<noteq> None" for j
    using i by (cases "j = ?i") auto
  have "reachable_entries h (insertOne h s t)"
    unfolding reachable_entries_def
  proof (intro allI impI)
    fix j v assume j: "j < ht_size (insertOne h s t)" "ht_entries (insertOne h s t) ! j = Some v"
    show "\<exists>e < ht_size (insertOne h s t). j = (h v + e) mod ht_size (insertOne h s t)
      \<and> (\<forall>d < e. ht_entries (insertOne h s t) ! ((h v + d) mod ht_size (insertOne h s t)) \<noteq> None)"
    proof (cases "j = ?i")
      case True
      with j i have "v = s" by (simp add: t')
      with True f keep show ?thesis by (intro exI [of _ f]) (auto simp: t' slot_at_def)
    next
      case False
      with j have "ht_entries t ! j = Some v" "j < ht_size t" by (simp_all add: t')
      then obtain e where "e < ht_size t" "j = (h v + e) mod ht_size t"
          "\<forall>d < e. ht_entries t ! ((h v + d) mod ht_size t) \<noteq> None"
        using w(5) by (auto simp: reachable_entries_def)
      with keep show ?thesis by (intro exI [of _ e]) (simp add: t')
    qed
  qed
  moreover have "unique_keys h (insertOne h s t)"
    using distinct_update [OF i, of h s] w(4) assms(2)
    by (simp add: unique_keys_def t' ht_vals_def set_stored)
  ultimately show "ht_wf h (insertOne h s t)"
    using shape assms(3) by (simp add: ht_wf_def used size)
qed

section \<open>Growing\<close>

lemma rehash_fold: "rehash h es t = fold (insertOne h) (stored es) t"
  by (induction h es t rule: rehash.induct) simp_all

lemma fold_insertOne_wf:
  assumes "ht_wf h t" and "used (ht_entries t) + length vs + 1 < ht_size t"
    and "distinct (map h vs)" and "\<forall>v \<in> ht_vals t. h v \<notin> h ` set vs"
  shows "ht_wf h (fold (insertOne h) vs t) \<and> ht_vals (fold (insertOne h) vs t) = ht_vals t \<union> set vs
    \<and> used (ht_entries (fold (insertOne h) vs t)) = used (ht_entries t) + length vs
    \<and> ht_size (fold (insertOne h) vs t) = ht_size t
    \<and> ht_numElements (fold (insertOne h) vs t) = ht_numElements t"
  using assms
proof (induction vs arbitrary: t)
  case (Cons v vs)
  have fresh: "\<forall>w \<in> ht_vals t. h w \<noteq> h v" and room: "used (ht_entries t) + 2 < ht_size t"
    using Cons.prems by auto
  note n = insertOne_wf [OF Cons.prems(1) fresh room]
  have "\<forall>w \<in> ht_vals (insertOne h v t). h w \<notin> h ` set vs"
    using Cons.prems(3,4) by (auto simp: n(2))
  from Cons.IH [OF n(1) _ _ this] Cons.prems(2,3) show ?case by (simp add: n insert_commute)
qed simp

lemma alloc_vals [simp]: "ht_vals (t\<lparr>ht_size := a, ht_mask := b, ht_entries := allocTable c\<rparr>) = {}"
  and alloc_used [simp]: "used (allocTable c) = 0"
  and alloc_none [simp]: "Some v \<notin> set (allocTable c)"
  by (auto simp: used_def ht_vals_def allocTable_def)

lemma alloc_wf:
  assumes "ht_wf h t"
  shows "ht_wf h (t\<lparr>ht_size := ht_size t * 2, ht_mask := ht_size t * 2 - 1, ht_entries := allocTable (ht_size t * 2)\<rparr>)"
proof -
  obtain k where k: "ht_size t = 2 ^ k" using assms by (auto simp: ht_wf_def ht_shape_def)
  then have "ht_size t * 2 = 2 ^ Suc k" by simp
  with assms show ?thesis
    by (auto simp: ht_wf_def ht_shape_def reachable_entries_def unique_keys_def allocTable_def stored_def
        used_def simp del: power_Suc)
qed

lemma grow_wf:
  assumes "ht_wf h t" and "grow m h t = Some t'"
  shows "ht_wf h t' \<and> ht_vals t' = ht_vals t \<and> used (ht_entries t') = used (ht_entries t)
    \<and> ht_size t' = 2 * ht_size t \<and> ht_numElements t' = ht_numElements t"
proof -
  let ?t = "t\<lparr>ht_size := ht_size t * 2, ht_mask := ht_size t * 2 - 1, ht_entries := allocTable (ht_size t * 2)\<rparr>"
  have t': "t' = fold (insertOne h) (stored (ht_entries t)) ?t"
    using assms(2) by (auto simp: grow_def Let_def ExpansionFactor_def rehash_fold split: if_splits)
  have "ht_wf h t' \<and> ht_vals t' = ht_vals ?t \<union> set (stored (ht_entries t))
      \<and> used (ht_entries t') = used (ht_entries ?t) + length (stored (ht_entries t))
      \<and> ht_size t' = ht_size ?t \<and> ht_numElements t' = ht_numElements ?t"
    unfolding t' using alloc_wf [OF assms(1)] ht_wfD(3,4) [OF assms(1)]
    by (intro fold_insertOne_wf) (simp_all add: length_stored unique_keys_def)
  then show ?thesis by (simp add: length_stored set_stored ht_vals_def)
qed

lemma ht_insert_inv:
  assumes "ht_inv h t" and "\<forall>v \<in> ht_vals t. h v \<noteq> h s" and "ht_insert h m s t = Some t'"
  shows "ht_inv h t' \<and> ht_vals t' = insert s (ht_vals t)"
proof -
  have wf: "ht_wf h t" and sz: "8 \<le> ht_size t" "ht_numElements t = used (ht_entries t)"
      "8 * ht_numElements t \<le> ht_size t"
    using assms(1) by (auto simp: ht_inv_def)
  let ?big = "ht_numElements t + 1 > ht_size t div 8"
  obtain u where u: "(if ?big then grow m h t else Some t) = Some u"
      and t': "t' = (insertOne h s u)\<lparr>ht_numElements := ht_numElements (insertOne h s u) + 1\<rparr>"
    using assms(3) by (auto simp: ht_insert_def LOAD_FACTOR_RECIPROCAL_def Let_def split: option.splits)
  have u': "ht_wf h u" "ht_vals u = ht_vals t" "used (ht_entries u) = used (ht_entries t)"
      "ht_numElements u = ht_numElements t" "8 \<le> ht_size u"
      "8 * (ht_numElements t + 1) \<le> ht_size u"
    using u grow_wf [OF wf, of m u] wf sz by (auto split: if_splits)
  have "used (ht_entries u) + 2 < ht_size u" using u'(3,5,6) sz(2) by simp
  note n = insertOne_wf [OF u'(1) _ this, of s]
  have fresh: "\<forall>v \<in> ht_vals u. h v \<noteq> h s" using assms(2) u'(2) by simp
  show ?thesis
    using n(1,2,3,4,5) [OF fresh] u' sz(2)
    by (simp add: t' ht_inv_def ht_wf_def ht_shape_def reachable_entries_def unique_keys_def ht_vals_def)
qed

lemma ht_insert_total: "\<exists>t'. ht_insert h True s t = Some t'"
  by (simp add: ht_insert_def grow_def Let_def)

interpretation ht: keyed_table "ht_inv h" ht_vals h "ht_get h" "ht_insert h" for h
proof
  fix t k v assume "ht_inv h t"
  then have "ht_wf h t" by (simp add: ht_inv_def)
  from ht_find_correct(1) [OF this, of k v]
  show "ht_get h k t = Some v \<longleftrightarrow> v \<in> ht_vals t \<and> h v = k"
    by (auto simp: ht_get_def split: probe.split)
next
  fix t v
  show "\<exists>t'. ht_insert h True v t = Some t'" by (rule ht_insert_total)
next
  fix t v m t' assume inv: "ht_inv h t" and none: "ht_get h (h v) t = None" and ins: "ht_insert h m v t = Some t'"
  have wf: "ht_wf h t" using inv by (simp add: ht_inv_def)
  have "\<forall>w \<in> ht_vals t. h w \<noteq> h v"
  proof (intro ballI notI)
    fix w assume "w \<in> ht_vals t" "h w = h v"
    then have "ht_find h (h v) t = Found w" using ht_find_correct(1) [OF wf] by blast
    with none show False by (simp add: ht_get_def)
  qed
  with inv ins show "ht_inv h t' \<and> ht_vals t' = insert v (ht_vals t)" by (intro ht_insert_inv)
qed

lemma DynamicHashTable_inv:
  assumes "init_size div value_size = 2 ^ k" and "3 \<le> k"
  shows "ht_inv h (DynamicHashTable init_size value_size)" and "ht_vals (DynamicHashTable init_size value_size) = {}"
proof -
  have "(2::nat) ^ 3 \<le> 2 ^ k" using assms(2) by (intro power_increasing) auto
  then show "ht_inv h (DynamicHashTable init_size value_size)"
    using assms(1) by (auto simp: ht_inv_def ht_wf_def DynamicHashTable_def allocTable_def ht_shape_def
        reachable_entries_def unique_keys_def stored_def used_def Let_def)
  show "ht_vals (DynamicHashTable init_size value_size) = {}"
    by (auto simp: DynamicHashTable_def allocTable_def ht_vals_def Let_def)
qed

text \<open>\<open>get\<close> never reaches the \<open>abort\<close> at the end of the probe loop.\<close>

lemma ht_find_no_abort: "ht_inv h t \<Longrightarrow> ht_find h k t \<noteq> Abort"
  by (simp add: ht_inv_def ht_find_correct(2))

section \<open>Properties\<close>

text \<open>C38: The open-addressing table is a map: inserting a value with a new key keeps the invariant, whether or
  not the table grows; afterwards a lookup finds exactly the stored value with that key, and neither hits the
  \<open>abort\<close> at the end of \<open>find\<close>.\<close>

theorem hash_table_is_a_map:
  assumes "ht_inv h t" and "\<forall>v \<in> ht_vals t. h v \<noteq> h s" and "ht_insert h m s t = Some t'"
  shows "ht_inv h t' \<and> (ht_find h k t' = Found v \<longleftrightarrow> h v = k \<and> (v = s \<or> v \<in> ht_vals t)) \<and> ht_find h k t' \<noteq> Abort"
proof -
  have i: "ht_inv h t'" "ht_vals t' = insert s (ht_vals t)" using ht_insert_inv [OF assms] by simp_all
  then have "ht_wf h t'" by (simp add: ht_inv_def)
  from ht_find_correct [OF this] i show ?thesis by auto
qed

theorem hash_table_is_a_map_witness:
  "\<exists>t'. ht_insert id True 5 (DynamicHashTable 64 8) = Some t' \<and> ht_find id 5 t' = Found (5::nat)
     \<and> ht_find id 13 t' = NotFound"
proof -
  obtain t' where t': "ht_insert id True (5::nat) (DynamicHashTable 64 8) = Some t'" using ht_insert_total [of id 5 "DynamicHashTable 64 8"] by blast
  have i: "ht_inv id (DynamicHashTable 64 8)" "ht_vals (DynamicHashTable 64 8) = ({} :: nat set)"
    using DynamicHashTable_inv [of 64 8 3] by simp_all
  note f = hash_table_is_a_map [OF i(1) _ t']
  have "ht_find id 5 t' = Found 5" using f [of 5 5] i(2) by simp
  moreover have "ht_find id 13 t' \<noteq> Found v" "ht_find id 13 t' \<noteq> Abort" for v using f [of 13 v] i(2) by auto
  then have "ht_find id 13 t' = NotFound" by (cases "ht_find id 13 t'") auto
  ultimately show ?thesis using t' by blast
qed

end
