(* ===== verification/PageTable.thy ===== *)
theory PageTable
  imports MathUtil HashTable
begin

text \<open>
  The page table of DieHarder: \<open>PageTableEntry\<close> (\<open>src/include/pagetableentry.h\<close>) and
  \<open>DieHarder::PageTable\<close> (\<open>src/include/dieharder-pagetable.h\<close>), a \<open>DynamicHashTable\<close> from page
  numbers to heaps and object indices.  Heaps are represented by their addresses (0 is null).
  \<open>pageSize\<close> stands for \<open>CPUInfo::PageSize\<close>.
\<close>

record PageTableEntry =
  pte_pageNumber :: nat
  pte_heap :: addr
  pte_objectIndex :: nat
  pte_align :: nat

definition PageTableEntry :: "nat \<Rightarrow> addr \<Rightarrow> nat \<Rightarrow> PageTableEntry" where
  "PageTableEntry pNum b idx =
     \<lparr>pte_pageNumber = pNum, pte_heap = b, pte_objectIndex = idx, pte_align = 0x1234\<rparr>"

definition pte_isValid :: "PageTableEntry \<Rightarrow> bool" where
  "pte_isValid e \<longleftrightarrow> pte_heap e \<noteq> 0"

definition pte_hashCode :: "PageTableEntry \<Rightarrow> nat" where
  "pte_hashCode e = pte_pageNumber e"

type_synonym page_table = "PageTableEntry hash_table"

definition computePageNumber :: "nat \<Rightarrow> addr \<Rightarrow> nat" where
  "computePageNumber pageSize a = drop_bit (staticlog (int pageSize)) a"

definition pt_getEntry :: "nat \<Rightarrow> page_table \<Rightarrow> PageTableEntry option" where
  "pt_getEntry pageNumber t = ht_get pte_hashCode pageNumber t"

definition pt_getHeap :: "nat \<Rightarrow> addr \<Rightarrow> page_table \<Rightarrow> addr" where
  "pt_getHeap pageSize ptr t =
     (case pt_getEntry (computePageNumber pageSize ptr) t of None \<Rightarrow> 0 | Some e \<Rightarrow> pte_heap e)"

definition pt_getObjectIndex :: "nat \<Rightarrow> addr \<Rightarrow> page_table \<Rightarrow> nat" where
  "pt_getObjectIndex pageSize ptr t =
     (case pt_getEntry (computePageNumber pageSize ptr) t of None \<Rightarrow> 0 | Some e \<Rightarrow> pte_objectIndex e)"

definition pt_insert :: "bool \<Rightarrow> nat \<Rightarrow> addr \<Rightarrow> nat \<Rightarrow> page_table \<Rightarrow> page_table option" where
  "pt_insert mem_ok pageNumber heap index t =
     ht_insert pte_hashCode mem_ok (PageTableEntry pageNumber heap index) t"

definition pt_new :: "nat \<Rightarrow> page_table" where
  "pt_new pageSize = DynamicHashTable pageSize 32"

definition pt_inv :: "page_table \<Rightarrow> bool" where
  "pt_inv t \<longleftrightarrow> ht_inv pte_hashCode t"

lemma pte_hashCode_simp [simp]: "pte_hashCode (PageTableEntry n b i) = n"
  by (simp add: pte_hashCode_def PageTableEntry_def)

lemma pte_simps [simp]:
  "pte_heap (PageTableEntry n b i) = b" "pte_objectIndex (PageTableEntry n b i) = i"
  by (simp_all add: PageTableEntry_def)

lemma computePageNumber_pow2: "computePageNumber (2 ^ k) a = a div 2 ^ k"
  by (simp add: computePageNumber_def drop_bit_nat_div)

text \<open>What the page table says of a page after an insertion.\<close>

lemma pt_insert_lookup:
  assumes "pt_inv t" and "pt_getEntry n t = None" and "pt_insert m n b i t = Some t'"
  shows "pt_inv t'" and "pt_getEntry k t' = (if k = n then Some (PageTableEntry n b i) else pt_getEntry k t)"
proof -
  have a: "ht_inv pte_hashCode t" "ht_get pte_hashCode (pte_hashCode (PageTableEntry n b i)) t = None"
      "ht_insert pte_hashCode m (PageTableEntry n b i) t = Some t'"
    using assms by (simp_all add: pt_inv_def pt_getEntry_def pt_insert_def)
  show "pt_inv t'" using ht.insert_vals [OF a] by (simp add: pt_inv_def)
  show "pt_getEntry k t' = (if k = n then Some (PageTableEntry n b i) else pt_getEntry k t)"
    using ht.lookup_insert [OF a, of k] by (simp add: pt_getEntry_def)
qed

lemma pt_insert_total: "\<exists>t'. pt_insert True n b i t = Some t'"
  unfolding pt_insert_def by (rule ht_insert_total)

lemma pt_new_inv: "k \<ge> 8 \<Longrightarrow> pt_inv (pt_new (2 ^ k)) \<and> pt_getEntry n (pt_new (2 ^ k)) = None"
proof -
  assume k: "8 \<le> k"
  then have "(2::nat) ^ k = 2 ^ (k - 5 + 5)" by simp
  also have "\<dots> = 2 ^ (k - 5) * 2 ^ 5" by (rule power_add)
  finally have d: "2 ^ k div 32 = (2::nat) ^ (k - 5)" by simp
  have "3 \<le> k - 5" using k by simp
  from DynamicHashTable_inv [OF d this] have "pt_inv (pt_new (2 ^ k))" "ht_vals (pt_new (2 ^ k)) = {}"
    by (simp_all add: pt_inv_def pt_new_def)
  then show ?thesis using ht.lookup_none [of pte_hashCode "pt_new (2 ^ k)" n]
    by (simp add: pt_inv_def pt_getEntry_def)
qed

section \<open>Properties\<close>

text \<open>After a page is entered, every address of that page is resolved to the heap and the object index given
  with it, and the answers for all other addresses are unchanged; an empty table resolves nothing.\<close>

theorem page_table_resolves:
  assumes "pt_inv t" and "pt_getEntry n t = None" and "pt_insert m n b i t = Some t'"
  shows "pt_inv t'
    \<and> pt_getHeap ps a t' = (if computePageNumber ps a = n then b else pt_getHeap ps a t)
    \<and> pt_getObjectIndex ps a t' = (if computePageNumber ps a = n then i else pt_getObjectIndex ps a t)"
  using pt_insert_lookup [OF assms] by (simp add: pt_getHeap_def pt_getObjectIndex_def)

theorem page_table_resolves_witness:
  "\<exists>t'. pt_insert True 3 77 5 (pt_new 4096) = Some t' \<and> pt_getHeap 4096 12300 t' = 77 \<and> pt_getObjectIndex 4096 12300 t' = 5
     \<and> pt_getHeap 4096 4096 t' = 0"
proof -
  obtain t' where t': "pt_insert True 3 77 5 (pt_new 4096) = Some t'" using pt_insert_total by blast
  have e: "pt_inv (pt_new 4096)" "\<And>n. pt_getEntry n (pt_new 4096) = None" using pt_new_inv [of 12] by auto
  have pg: "computePageNumber 4096 12300 = 3" "computePageNumber 4096 4096 = 1"
    using computePageNumber_pow2 [of 12] by simp_all
  from page_table_resolves [OF e t', of 4096 12300] page_table_resolves [OF e t', of 4096 4096] t' show ?thesis
    by (simp add: pg) (simp add: pt_getHeap_def e(2))
qed

end
