(* ===== verification/DieHarderMini.thy ===== *)
theory DieHarderMini
  imports MiniHeap PageTable
begin

text \<open>
  The DieHarder layout of a miniheap (\<open>src/include/randomminiheap-dieharder.h\<close>): every page of
  small objects and every large object is mapped on its own, the global page table leads from a
  page back to its heap and object index, and the array \<open>_mapEntryToPage\<close> (\<open>CheckedArray\<close>,
  \<open>src/include/util/checkedarray.h\<close>) from an object index to the page.

  The page table \<open>T\<close> is shared by all miniheaps and is passed in; \<open>this\<close> is the address of the
  miniheap object.  \<open>maps\<close> gives the address \<open>MmapWrapper::map\<close> returns for each object index,
  \<open>mem_ok\<close> whether the page table gets memory to grow.  \<open>pageSize\<close> is \<open>CPUInfo::PageSize\<close>.
\<close>

section \<open>CheckedArray\<close>

record checked_array =
  ca_isActivated :: bool
  ca_item :: "addr list"

definition CheckedArray :: checked_array where
  "CheckedArray = \<lparr>ca_isActivated = False, ca_item = []\<rparr>"

text \<open>\<open>fresh\<close> is the content of the storage \<open>Heap::malloc\<close> returns.\<close>

definition ca_activate :: "addr list \<Rightarrow> checked_array \<Rightarrow> checked_array" where
  "ca_activate fresh c =
     (if \<not> ca_isActivated c then c\<lparr>ca_item := fresh, ca_isActivated := True\<rparr> else c)"

definition ca_get :: "addr list \<Rightarrow> nat \<Rightarrow> checked_array \<Rightarrow> addr" where
  "ca_get fresh index c = ca_item (ca_activate fresh c) ! index"

definition ca_set :: "addr list \<Rightarrow> nat \<Rightarrow> addr \<Rightarrow> checked_array \<Rightarrow> checked_array" where
  "ca_set fresh index v c =
     (let c = ca_activate fresh c in c\<lparr>ca_item := (ca_item c)[index := v]\<rparr>)"

section \<open>Static sizes\<close>

definition NumPages :: "nat \<Rightarrow> mini_params \<Rightarrow> nat" where
  "NumPages pageSize p = (NObjects p * ObjectSize p + pageSize - 1) div pageSize"

definition ObjectsPerPage :: "nat \<Rightarrow> mini_params \<Rightarrow> nat" where
  "ObjectsPerPage pageSize p = (if ObjectSize p \<le> pageSize then pageSize div ObjectSize p else 1)"

definition PagesPerObject :: "nat \<Rightarrow> mini_params \<Rightarrow> nat" where
  "PagesPerObject pageSize p = (if ObjectSize p \<le> pageSize then 1 else ObjectSize p div pageSize)"

definition NumEntries :: "nat \<Rightarrow> mini_params \<Rightarrow> nat" where
  "NumEntries pageSize p = (if ObjectSize p \<le> pageSize then NumPages pageSize p * 1 else NObjects p)"

section \<open>State and operations\<close>

record mini_dieharder = mini_core +
  mapEntryToPage :: checked_array

definition setPageFromIndex :: "nat \<Rightarrow> mini_params \<Rightarrow> addr list \<Rightarrow> nat \<Rightarrow> addr \<Rightarrow> mini_dieharder \<Rightarrow> mini_dieharder" where
  "setPageFromIndex pageSize p fresh index pageAddr s =
     s\<lparr>mapEntryToPage := ca_set fresh (drop_bit (staticlog (int (ObjectsPerPage pageSize p))) index) pageAddr
         (mapEntryToPage s)\<rparr>"

definition getPageFromIndex :: "nat \<Rightarrow> mini_params \<Rightarrow> mini_dieharder \<Rightarrow> nat \<Rightarrow> addr" where
  "getPageFromIndex pageSize p s index =
     (let index = index - modulo (ObjectsPerPage pageSize p) index
      in ca_get [] (drop_bit (staticlog (int (ObjectsPerPage pageSize p))) index) (mapEntryToPage s))"

definition dr_getObject :: "nat \<Rightarrow> mini_params \<Rightarrow> mini_dieharder \<Rightarrow> nat \<Rightarrow> addr" where
  "dr_getObject pageSize p s index =
     (if \<not> isHeapActivated s then 0
      else if ObjectSize p > pageSize then getPageFromIndex pageSize p s index
      else let whichObject = index AND (ObjectsPerPage pageSize p - 1)
           in getPageFromIndex pageSize p s index + whichObject * ObjectSize p)"

definition dr_computeIndex :: "nat \<Rightarrow> mini_params \<Rightarrow> page_table \<Rightarrow> addr \<Rightarrow> nat" where
  "dr_computeIndex pageSize p T ptr =
     (let pageIdx = pt_getObjectIndex pageSize ptr T
      in if ObjectsPerPage pageSize p = 1 then pageIdx
         else let offset = ptr AND (pageSize - 1)
              in (pageIdx + drop_bit (staticlog (int (ObjectSize p))) offset) mod 2 ^ 32)"

definition dr_inBounds :: "nat \<Rightarrow> addr \<Rightarrow> page_table \<Rightarrow> mini_dieharder \<Rightarrow> addr \<Rightarrow> bool" where
  "dr_inBounds pageSize this T s ptr =
     (if \<not> isHeapActivated s then False else pt_getHeap pageSize ptr T = this)"

definition dr_layout :: "nat \<Rightarrow> addr \<Rightarrow> mini_params \<Rightarrow> page_table \<Rightarrow> mini_dieharder layout" where
  "dr_layout pageSize this p T =
     \<lparr>getObject = dr_getObject pageSize p, computeIndex = (\<lambda>s. dr_computeIndex pageSize p T),
      inBounds = dr_inBounds pageSize this T\<rparr>"

definition dr_malloc :: "nat \<Rightarrow> addr \<Rightarrow> mini_params \<Rightarrow> page_table \<Rightarrow> mem \<Rightarrow> mini_dieharder
    \<Rightarrow> addr \<times> mini_dieharder \<times> report list" where
  "dr_malloc pageSize this p T m s = core_malloc (dr_layout pageSize this p T) p m s"

definition dr_free :: "nat \<Rightarrow> addr \<Rightarrow> mini_params \<Rightarrow> page_table \<Rightarrow> addr \<Rightarrow> mem \<Rightarrow> mini_dieharder
    \<Rightarrow> bool \<times> mini_dieharder \<times> mem \<times> report list" where
  "dr_free pageSize this p T ptr m s =
     (let (didFree, s, reports) = core_free (dr_layout pageSize this p T) p ptr m s
      in (didFree, s, if didFree then memset m ptr 0 (ObjectSize p) else m, reports))"

fun insert_pages :: "bool \<Rightarrow> nat \<Rightarrow> addr \<Rightarrow> addr \<Rightarrow> nat \<Rightarrow> nat \<Rightarrow> page_table \<Rightarrow> page_table option" where
  "insert_pages mem_ok pageSize this pagesAddr objectIndex 0 T = Some T"
| "insert_pages mem_ok pageSize this pagesAddr objectIndex (Suc q) T =
     (case insert_pages mem_ok pageSize this pagesAddr objectIndex q T of
        None \<Rightarrow> None
      | Some T \<Rightarrow> pt_insert mem_ok (computePageNumber pageSize (pagesAddr + q * pageSize)) this objectIndex T)"

fun map_objects :: "bool \<Rightarrow> nat \<Rightarrow> addr \<Rightarrow> mini_params \<Rightarrow> addr list \<Rightarrow> (nat \<Rightarrow> addr) \<Rightarrow> nat
    \<Rightarrow> mini_dieharder \<times> page_table \<Rightarrow> (mini_dieharder \<times> page_table) option" where
  "map_objects mem_ok pageSize this p fresh maps 0 st = Some st"
| "map_objects mem_ok pageSize this p fresh maps (Suc j) st =
     (case map_objects mem_ok pageSize this p fresh maps j st of
        None \<Rightarrow> None
      | Some (s, T) \<Rightarrow>
          let objectIndex = j * ObjectsPerPage pageSize p;
              pagesAddr = maps objectIndex;
              s = setPageFromIndex pageSize p fresh objectIndex pagesAddr s
          in case insert_pages mem_ok pageSize this pagesAddr objectIndex (PagesPerObject pageSize p) T of
               None \<Rightarrow> None
             | Some T \<Rightarrow> Some (s, T))"

text \<open>The loop \<open>for (objectIndex = 0; objectIndex < NObjects; objectIndex += ObjectsPerPage)\<close>.\<close>

definition map_rounds :: "nat \<Rightarrow> mini_params \<Rightarrow> nat" where
  "map_rounds pageSize p =
     (NObjects p + ObjectsPerPage pageSize p - 1) div ObjectsPerPage pageSize p"

definition internalActivate :: "bool \<Rightarrow> nat \<Rightarrow> addr \<Rightarrow> mini_params \<Rightarrow> u64 list option \<Rightarrow> addr list \<Rightarrow> (nat \<Rightarrow> addr)
    \<Rightarrow> mini_dieharder \<times> page_table \<Rightarrow> (mini_dieharder \<times> page_table) option" where
  "internalActivate mem_ok pageSize this p words fresh maps st =
     (let (s, T) = st;
          s = s\<lparr>miniHeapBitmap := reserve (NObjects p) words (miniHeapBitmap s)\<rparr>
      in case map_objects mem_ok pageSize this p fresh maps (map_rounds pageSize p) (s, T) of
           None \<Rightarrow> None
         | Some (s, T) \<Rightarrow> Some (s\<lparr>isHeapActivated := True\<rparr>, T))"

definition dr_activate :: "bool \<Rightarrow> nat \<Rightarrow> addr \<Rightarrow> mini_params \<Rightarrow> u64 list option \<Rightarrow> addr list \<Rightarrow> (nat \<Rightarrow> addr)
    \<Rightarrow> mini_dieharder \<times> page_table \<Rightarrow> (mini_dieharder \<times> page_table) option" where
  "dr_activate mem_ok pageSize this p words fresh maps st =
     (if \<not> isHeapActivated (fst st) then internalActivate mem_ok pageSize this p words fresh maps st
      else Some st)"

text \<open>\<open>getSize\<close>: the class for small objects does not look whether the pointer is in bounds.\<close>

definition dr_getSize_small :: "mini_params \<Rightarrow> addr \<Rightarrow> nat" where
  "dr_getSize_small p ptr = ObjectSize p - modulo (ObjectSize p) ptr"

definition dr_getSize_large :: "nat \<Rightarrow> mini_params \<Rightarrow> page_table \<Rightarrow> addr \<Rightarrow> mini_dieharder \<Rightarrow> nat" where
  "dr_getSize_large pageSize p T ptr s =
     (let index = dr_computeIndex pageSize p T ptr;
          start = dr_getObject pageSize p s index
      in sub64 (ObjectSize p) (sub64 ptr start))"

definition dr_getSize :: "nat \<Rightarrow> mini_params \<Rightarrow> page_table \<Rightarrow> addr \<Rightarrow> mini_dieharder \<Rightarrow> nat" where
  "dr_getSize pageSize p T ptr s =
     (if ObjectSize p \<ge> pageSize then dr_getSize_large pageSize p T ptr s else dr_getSize_small p ptr)"

section \<open>Geometry\<close>

definition dr_geometry :: "nat \<Rightarrow> mini_params \<Rightarrow> bool" where
  "dr_geometry pageSize p \<longleftrightarrow> mini_ok p \<and> (\<exists>w. pageSize = 2 ^ w)
     \<and> (if ObjectSize p \<le> pageSize then \<exists>k. ObjectSize p = 2 ^ k else pageSize dvd ObjectSize p)
     \<and> ObjectsPerPage pageSize p dvd NObjects p"

definition dr_rounds :: "nat \<Rightarrow> mini_params \<Rightarrow> nat" where
  "dr_rounds pageSize p = NObjects p div ObjectsPerPage pageSize p"

definition dr_base :: "mini_dieharder \<Rightarrow> nat \<Rightarrow> addr" where
  "dr_base s j = ca_item (mapEntryToPage s) ! j"

lemma dr_geometryD:
  assumes "dr_geometry ps p"
  obtains w where "ps = 2 ^ w" and "0 < ObjectSize p" and "0 < NObjects p" and "NObjects p < 2 ^ 32"
    and "ObjectsPerPage ps p dvd NObjects p"
  using assms by (auto simp: dr_geometry_def mini_ok_def)

text \<open>Both kinds of objects: \<open>2 ^ b\<close> small objects of \<open>2 ^ k\<close> bytes per page, or large objects.\<close>

lemma dr_geometry_cases:
  assumes "dr_geometry ps p"
  obtains (small) b k where "ObjectSize p = 2 ^ k" "ps = 2 ^ b * 2 ^ k" "ObjectsPerPage ps p = 2 ^ b"
      "PagesPerObject ps p = 1" "ObjectSize p \<le> ps"
  | (large) c where "ObjectsPerPage ps p = 1" "ps < ObjectSize p" "ObjectSize p = ps * c" "PagesPerObject ps p = c"
proof (cases "ObjectSize p \<le> ps")
  case True
  then obtain w k where wk: "ps = 2 ^ w" "ObjectSize p = 2 ^ k"
    using assms by (auto simp: dr_geometry_def)
  with True have "k \<le> w" by simp
  then have "(2::nat) ^ w = 2 ^ (w - k) * 2 ^ k" by (simp flip: power_add)
  with wk True show thesis
    by (intro small [of k "w - k"]) (simp_all add: ObjectsPerPage_def PagesPerObject_def)
next
  case False
  moreover have "0 < ps" using assms by (auto simp: dr_geometry_def)
  ultimately show thesis
    using assms by (intro large [of "ObjectSize p div ps"])
      (auto simp: dr_geometry_def ObjectsPerPage_def PagesPerObject_def)
qed

lemma dr_rounds_eq:
  assumes "dr_geometry ps p"
  shows "map_rounds ps p = dr_rounds ps p" and "NObjects p = dr_rounds ps p * ObjectsPerPage ps p"
    and "0 < ObjectsPerPage ps p"
proof -
  have "ObjectsPerPage ps p dvd NObjects p" using assms by (simp add: dr_geometry_def)
  then obtain c where c: "NObjects p = ObjectsPerPage ps p * c" by (auto elim: dvdE)
  show o: "0 < ObjectsPerPage ps p" by (rule dr_geometry_cases [OF assms]) auto
  have "(ObjectsPerPage ps p * c + ObjectsPerPage ps p - 1) div ObjectsPerPage ps p
      = (ObjectsPerPage ps p - 1 + c * ObjectsPerPage ps p) div ObjectsPerPage ps p"
    using o by (simp add: algebra_simps)
  also have "\<dots> = c" using o by (subst div_mult_self1) auto
  finally show "map_rounds ps p = dr_rounds ps p" using o by (simp add: map_rounds_def dr_rounds_def c)
  show "NObjects p = dr_rounds ps p * ObjectsPerPage ps p" using o by (simp add: dr_rounds_def c)
qed

lemma computePageNumber_ps:
  assumes "dr_geometry ps p"
  shows "computePageNumber ps a = a div ps"
  by (rule dr_geometryD [OF assms]) (simp add: computePageNumber_pow2)

section \<open>The invariant\<close>

definition dr_ready :: "nat \<Rightarrow> addr \<Rightarrow> mini_params \<Rightarrow> page_table \<Rightarrow> mini_dieharder \<Rightarrow> bool" where
  "dr_ready ps this p T s \<longleftrightarrow> dr_geometry ps p \<and> isHeapActivated s \<and> this \<noteq> 0
     \<and> core_bitmap_ok p (miniHeapBitmap s) \<and> ca_isActivated (mapEntryToPage s)
     \<and> (\<forall>j < dr_rounds ps p. ps dvd dr_base s j \<and> dr_base s j \<noteq> 0
          \<and> (\<forall>q < PagesPerObject ps p. \<exists>n. pt_getEntry (dr_base s j div ps + q) T
                = Some (PageTableEntry n this (j * ObjectsPerPage ps p))))
     \<and> (\<forall>n e. pt_getEntry n T = Some e \<and> pte_heap e = this
          \<longrightarrow> (\<exists>j < dr_rounds ps p. \<exists>q < PagesPerObject ps p. n = dr_base s j div ps + q))"

definition dr_owned :: "nat \<Rightarrow> addr \<Rightarrow> page_table \<Rightarrow> mini_dieharder \<Rightarrow> addr set" where
  "dr_owned ps this T s = {a. pt_getHeap ps a T = this}"

lemma dr_readyD:
  assumes "dr_ready ps this p T s"
  shows "dr_geometry ps p" "isHeapActivated s" "this \<noteq> 0" "core_bitmap_ok p (miniHeapBitmap s)"
    "ca_isActivated (mapEntryToPage s)"
    "j < dr_rounds ps p \<Longrightarrow> ps dvd dr_base s j \<and> dr_base s j \<noteq> 0"
  using assms by (auto simp: dr_ready_def)

lemma dr_entry:
  assumes "dr_ready ps this p T s" and "j < dr_rounds ps p" and "q < PagesPerObject ps p"
  obtains n where "pt_getEntry (dr_base s j div ps + q) T = Some (PageTableEntry n this (j * ObjectsPerPage ps p))"
  using assms unfolding dr_ready_def by blast

lemma dr_entry_page:
  assumes "dr_ready ps this p T s" and "pt_getEntry n T = Some e" and "pte_heap e = this"
  obtains j q where "j < dr_rounds ps p" "q < PagesPerObject ps p" "n = dr_base s j div ps + q"
  using assms unfolding dr_ready_def by blast

lemma dr_ownedE:
  assumes "dr_ready ps this p T s" and "a \<in> dr_owned ps this T s"
  obtains j q where "j < dr_rounds ps p" "q < PagesPerObject ps p" "a div ps = dr_base s j div ps + q"
    "pt_getObjectIndex ps a T = j * ObjectsPerPage ps p"
proof -
  have g: "dr_geometry ps p" and t: "this \<noteq> 0" using dr_readyD [OF assms(1)] by auto
  from assms(2) t obtain e where e: "pt_getEntry (a div ps) T = Some e" "pte_heap e = this"
    by (auto simp: dr_owned_def pt_getHeap_def computePageNumber_ps [OF g] split: option.splits)
  from dr_entry_page [OF assms(1) this] obtain j q
    where jq: "j < dr_rounds ps p" "q < PagesPerObject ps p" "a div ps = dr_base s j div ps + q" .
  obtain n where "pt_getEntry (a div ps) T = Some (PageTableEntry n this (j * ObjectsPerPage ps p))"
    using dr_entry [OF assms(1) jq(1,2)] jq(3) by metis
  with jq show thesis by (intro that [of j q]) (simp_all add: pt_getObjectIndex_def computePageNumber_ps [OF g])
qed

lemma dr_ownedI:
  assumes "dr_ready ps this p T s" and "j < dr_rounds ps p" and "q < PagesPerObject ps p"
    and "a div ps = dr_base s j div ps + q"
  shows "a \<in> dr_owned ps this T s" and "pt_getObjectIndex ps a T = j * ObjectsPerPage ps p"
proof -
  have g: "dr_geometry ps p" using assms(1) by (simp add: dr_ready_def)
  obtain n where "pt_getEntry (a div ps) T = Some (PageTableEntry n this (j * ObjectsPerPage ps p))"
    using dr_entry [OF assms(1,2,3)] assms(4) by metis
  then show "a \<in> dr_owned ps this T s" "pt_getObjectIndex ps a T = j * ObjectsPerPage ps p"
    by (simp_all add: dr_owned_def pt_getHeap_def pt_getObjectIndex_def computePageNumber_ps [OF g])
qed

lemma dr_index_less:
  assumes "dr_ready ps this p T s" and "a \<in> dr_owned ps this T s"
  shows "dr_computeIndex ps p T a < NObjects p"
proof -
  have g: "dr_geometry ps p" using assms(1) by (simp add: dr_ready_def)
  obtain j q where j: "j < dr_rounds ps p" and i: "pt_getObjectIndex ps a T = j * ObjectsPerPage ps p"
    using dr_ownedE [OF assms] by metis
  have n: "NObjects p = dr_rounds ps p * ObjectsPerPage ps p" by (rule dr_rounds_eq [OF g])
  show ?thesis
  proof (cases "ObjectsPerPage ps p = 1")
    case True
    with i j n show ?thesis by (simp add: dr_computeIndex_def)
  next
    case False
    with g obtain b k where bk: "ObjectSize p = 2 ^ k" "ps = 2 ^ b * 2 ^ k" "ObjectsPerPage ps p = 2 ^ b"
      by (auto elim: dr_geometry_cases)
    have "a mod ps div 2 ^ k < 2 ^ b" using bk(2) by (simp add: div_less_iff_less_mult)
    then have "j * 2 ^ b + a mod ps div 2 ^ k < (j + 1) * 2 ^ b" by simp
    also have "\<dots> \<le> NObjects p" unfolding n bk(3) using j by (intro mult_le_mono1) simp
    finally have "(j * 2 ^ b + a mod ps div 2 ^ k) mod 2 ^ 32 < NObjects p"
      using mod_less_eq_dividend le_less_trans by blast
    then show ?thesis
      using False i bk and_pred_pow2 [of a "b + k"]
      by (simp add: dr_computeIndex_def Let_def drop_bit_nat_div power_add)
  qed
qed

lemma dr_page:
  assumes "dr_ready ps this p T s" and "i < NObjects p"
  shows "dr_getObject ps p s i = dr_base s (i div ObjectsPerPage ps p) + i mod ObjectsPerPage ps p * ObjectSize p"
    and "i div ObjectsPerPage ps p < dr_rounds ps p"
proof -
  note r = dr_readyD [OF assms(1)]
  note d = dr_rounds_eq [OF r(1)]
  show "i div ObjectsPerPage ps p < dr_rounds ps p"
    using assms(2) d(2,3) by (simp add: div_less_iff_less_mult)
  show "dr_getObject ps p s i = dr_base s (i div ObjectsPerPage ps p) + i mod ObjectsPerPage ps p * ObjectSize p"
    using r(1)
  proof (cases rule: dr_geometry_cases)
    case (small b k)
    have "(i - i mod 2 ^ b) div 2 ^ b = i div 2 ^ b" by (simp add: minus_mod_eq_mult_div)
    with small r(2,5) and_pred_pow2 [of i b] show ?thesis
      by (simp add: dr_getObject_def getPageFromIndex_def modulo_eq_mod ca_get_def ca_activate_def dr_base_def
          drop_bit_nat_div Let_def)
  next
    case (large c)
    with r(2,5) show ?thesis
      by (simp add: dr_getObject_def getPageFromIndex_def modulo_eq_mod ca_get_def ca_activate_def dr_base_def
          Let_def staticlog_pow2 [of 0, simplified])
  qed
qed

lemma dr_object:
  assumes "dr_ready ps this p T s" and "i < NObjects p"
  shows "dr_getObject ps p s i \<in> dr_owned ps this T s" and "dr_computeIndex ps p T (dr_getObject ps p s i) = i"
    and "dr_getObject ps p s i \<noteq> 0"
proof -
  note r = dr_readyD [OF assms(1)] and pg = dr_page [OF assms]
  let ?j = "i div ObjectsPerPage ps p"
  have base: "ps dvd dr_base s ?j" "dr_base s ?j \<noteq> 0" using r(6) [OF pg(2)] by auto
  show "dr_getObject ps p s i \<noteq> 0" using pg(1) base by simp
  obtain w where w: "ps = 2 ^ w" and n: "NObjects p < 2 ^ 32" using r(1) by (rule dr_geometryD) blast
  have both: "dr_getObject ps p s i \<in> dr_owned ps this T s
      \<and> dr_computeIndex ps p T (dr_getObject ps p s i) = i"
    using r(1)
  proof (cases rule: dr_geometry_cases)
    case (small b k)
    let ?x = "i mod 2 ^ b * 2 ^ k"
    have "i mod 2 ^ b < 2 ^ b" by simp
    then have x: "?x < ps" using small(2) by simp
    have a: "dr_getObject ps p s i = dr_base s ?j + ?x" using pg(1) small by simp
    have page: "dr_getObject ps p s i div ps = dr_base s ?j div ps + 0"
      using a base(1) x by (auto elim!: dvdE)
    have off: "dr_getObject ps p s i mod ps = ?x" using a base(1) x by (auto elim!: dvdE)
    have own: "dr_getObject ps p s i \<in> dr_owned ps this T s"
        "pt_getObjectIndex ps (dr_getObject ps p s i) T = ?j * 2 ^ b"
      using dr_ownedI [OF assms(1) pg(2) _ page] small by auto
    have "?j * 2 ^ b + i mod 2 ^ b = i" using div_mult_mod_eq [of i "2 ^ b"] small(3) by simp
    moreover have "dr_getObject ps p s i AND (ps - 1) = ?x" using off w by (simp add: and_pred_pow2)
    moreover have "i mod 2 ^ 0 = 0" by simp
    ultimately show ?thesis
      using own n assms(2) small by (auto simp: dr_computeIndex_def Let_def drop_bit_nat_div)
  next
    case (large c)
    have a: "dr_getObject ps p s i div ps = dr_base s ?j div ps + 0" using pg(1) large by simp
    have "0 < PagesPerObject ps p" using large by (cases c) auto
    from dr_ownedI [OF assms(1) pg(2) this a] large show ?thesis by (simp add: dr_computeIndex_def)
  qed
  from both show "dr_getObject ps p s i \<in> dr_owned ps this T s"
    "dr_computeIndex ps p T (dr_getObject ps p s i) = i" by auto
qed

section \<open>DieHarder meets the contract of a miniheap\<close>

lemma dr_layout_simps [heap_simps]:
  "getObject (dr_layout ps this p T) = dr_getObject ps p"
  "computeIndex (dr_layout ps this p T) s = dr_computeIndex ps p T"
  "inBounds (dr_layout ps this p T) = dr_inBounds ps this T"
  by (simp_all add: dr_layout_def)

abbreviation dr_slot :: "nat \<Rightarrow> addr \<Rightarrow> mini_params \<Rightarrow> page_table \<Rightarrow> mini_dieharder \<Rightarrow> addr \<Rightarrow> addr" where
  "dr_slot ps this p T \<equiv> layout_slot (dr_layout ps this p T)"

abbreviation dr_live :: "nat \<Rightarrow> addr \<Rightarrow> mini_params \<Rightarrow> page_table \<Rightarrow> mini_dieharder \<Rightarrow> addr set" where
  "dr_live ps this p T \<equiv> layout_live (dr_layout ps this p T)"

lemma dr_frame:
  "dr_ready ps this p T s \<Longrightarrow> core_bitmap_ok p b
    \<Longrightarrow> dr_ready ps this p T (s\<lparr>mh_rng := r, miniHeapBitmap := b\<rparr>)"
  "dr_owned ps this T (s\<lparr>mh_rng := r, miniHeapBitmap := b\<rparr>) = dr_owned ps this T s"
  "dr_getObject ps p (s\<lparr>mh_rng := r, miniHeapBitmap := b\<rparr>) = dr_getObject ps p s"
  by (auto simp: dr_ready_def dr_base_def dr_owned_def dr_getObject_def getPageFromIndex_def fun_eq_iff)

interpretation drl: mini_layout p "dr_layout ps this p T" "dr_ready ps this p T" "dr_owned ps this T"
  for p ps this T
proof
  fix s assume r: "dr_ready ps this p T s"
  show "0 < NObjects p" by (rule dr_geometryD [OF dr_readyD(1) [OF r]]) simp
  show "core_bitmap_ok p (miniHeapBitmap s)" by (rule dr_readyD [OF r])
  show "inBounds (dr_layout ps this p T) s a \<longleftrightarrow> a \<in> dr_owned ps this T s" for a
    using dr_readyD(2) [OF r] by (simp add: heap_simps dr_inBounds_def dr_owned_def)
qed (simp_all add: heap_simps dr_frame dr_index_less dr_object)

interpretation drmini: mini_store "dr_ready ps this p T" "dr_owned ps this T" "dr_slot ps this p T"
    "dr_live ps this p T" "dr_malloc ps this p T" "dr_free ps this p T" for ps this p T
proof
  fix s m a s' rs
  assume r: "dr_ready ps this p T s" and c: "dr_malloc ps this p T m s = (a, s', rs)"
  note c' = drl.core_malloc_store [OF r c [unfolded dr_malloc_def]]
  show "dr_ready ps this p T s' \<and> dr_owned ps this T s' = dr_owned ps this T s
      \<and> dr_slot ps this p T s' = dr_slot ps this p T s" by (rule c')
  show "(a = 0 \<and> dr_live ps this p T s' = dr_live ps this p T s) \<or>
      (a \<noteq> 0 \<and> a \<in> dr_owned ps this T s \<and> dr_slot ps this p T s a = a \<and> a \<notin> dr_live ps this p T s
        \<and> dr_live ps this p T s' = insert a (dr_live ps this p T s))" by (rule c')
next
  fix s a m freed s' m' rs
  assume r: "dr_ready ps this p T s" and c: "dr_free ps this p T a m s = (freed, s', m', rs)"
  then have "core_free (dr_layout ps this p T) p a m s = (freed, s', rs)"
    by (auto simp: dr_free_def Let_def split: prod.splits)
  note c' = drl.core_free_store [OF r this]
  show "dr_ready ps this p T s' \<and> dr_owned ps this T s' = dr_owned ps this T s
      \<and> dr_slot ps this p T s' = dr_slot ps this p T s" by (rule c')
  show "freed = (a \<in> dr_owned ps this T s \<and> dr_slot ps this p T s a \<in> dr_live ps this p T s) \<and>
      dr_live ps this p T s' =
      (if freed then dr_live ps this p T s - {dr_slot ps this p T s a} else dr_live ps this p T s)" by (rule c')
qed (auto simp: drl.live_own drl.live_finite)

text \<open>What \<open>free\<close> writes: the object, and with an interior pointer bytes of the next one.\<close>

lemma dr_free_mem:
  assumes "dr_free ps this p T a m s = (freed, s', m', rs)"
  shows "m' x = (if freed \<and> a \<le> x \<and> x < a + ObjectSize p then 0 else m x)"
  using assms by (auto simp: dr_free_def Let_def memset_def split: prod.splits)

section \<open>Activation\<close>

text \<open>The addresses \<open>map\<close> returns are page aligned, disjoint and not in the page table.\<close>

definition fresh_maps :: "nat \<Rightarrow> addr \<Rightarrow> mini_params \<Rightarrow> (nat \<Rightarrow> addr) \<Rightarrow> page_table \<Rightarrow> bool" where
  "fresh_maps ps this p maps T \<longleftrightarrow>
     (\<forall>j < dr_rounds ps p. ps dvd maps (j * ObjectsPerPage ps p) \<and> maps (j * ObjectsPerPage ps p) \<noteq> 0
        \<and> (\<forall>q < PagesPerObject ps p. pt_getEntry (maps (j * ObjectsPerPage ps p) div ps + q) T = None))
     \<and> (\<forall>i < dr_rounds ps p. \<forall>j < dr_rounds ps p. \<forall>q < PagesPerObject ps p. \<forall>r < PagesPerObject ps p.
          maps (i * ObjectsPerPage ps p) div ps + q = maps (j * ObjectsPerPage ps p) div ps + r \<longrightarrow> i = j)
     \<and> (\<forall>n e. pt_getEntry n T = Some e \<longrightarrow> pte_heap e \<noteq> this)"

lemma insert_pages_lookup:
  assumes "dr_geometry ps p" and "pt_inv T" and "\<forall>r < q. pt_getEntry (a div ps + r) T = None"
    and "insert_pages mem_ok ps this a idx q T = Some T'" and "ps dvd a"
  shows "pt_inv T' \<and> (\<forall>n. pt_getEntry n T' =
    (if \<exists>r < q. n = a div ps + r then Some (PageTableEntry n this idx) else pt_getEntry n T))"
  using assms(3,4)
proof (induction q arbitrary: T')
  case 0
  with assms(2) show ?case by simp
next
  case (Suc q)
  obtain w where w: "ps = 2 ^ w" using assms(1) by (rule dr_geometryD) blast
  from Suc.prems obtain U where U: "insert_pages mem_ok ps this a idx q T = Some U"
    and ins: "pt_insert mem_ok (computePageNumber ps (a + q * ps)) this idx U = Some T'"
    by (auto split: option.splits)
  have IH: "pt_inv U" "\<And>n. pt_getEntry n U =
      (if \<exists>r < q. n = a div ps + r then Some (PageTableEntry n this idx) else pt_getEntry n T)"
    using Suc.IH [OF _ U] Suc.prems(1) by auto
  have page: "computePageNumber ps (a + q * ps) = a div ps + q"
    using computePageNumber_ps [OF assms(1)] w by simp
  have none: "pt_getEntry (a div ps + q) U = None" using IH(2) Suc.prems(1) by simp
  note n = pt_insert_lookup [OF IH(1) none ins [unfolded page]]
  show ?case using n IH(2) by (auto simp: less_Suc_eq)
qed

abbreviation map_base :: "nat \<Rightarrow> mini_params \<Rightarrow> (nat \<Rightarrow> addr) \<Rightarrow> nat \<Rightarrow> addr" where
  "map_base ps p maps j \<equiv> maps (j * ObjectsPerPage ps p)"

definition mapped :: "nat \<Rightarrow> addr \<Rightarrow> mini_params \<Rightarrow> (nat \<Rightarrow> addr) \<Rightarrow> nat \<Rightarrow> page_table \<Rightarrow> page_table \<Rightarrow> bool" where
  "mapped ps this p maps j T0 T \<longleftrightarrow> pt_inv T
     \<and> (\<forall>i < j. \<forall>q < PagesPerObject ps p. pt_getEntry (map_base ps p maps i div ps + q) T =
          Some (PageTableEntry (map_base ps p maps i div ps + q) this (i * ObjectsPerPage ps p)))
     \<and> (\<forall>n. (\<forall>i < j. \<forall>q < PagesPerObject ps p. n \<noteq> map_base ps p maps i div ps + q)
          \<longrightarrow> pt_getEntry n T = pt_getEntry n T0)"

lemma mapped_step:
  assumes g: "dr_geometry ps p" and fresh: "fresh_maps ps this p maps T0" and j: "j < dr_rounds ps p"
    and m: "mapped ps this p maps j T0 T"
    and ins: "insert_pages ok ps this (map_base ps p maps j) (j * ObjectsPerPage ps p) (PagesPerObject ps p) T = Some T'"
  shows "mapped ps this p maps (Suc j) T0 T'"
proof -
  have al: "ps dvd map_base ps p maps j" and none0: "\<forall>q < PagesPerObject ps p. pt_getEntry (map_base ps p maps j div ps + q) T0 = None"
    using fresh j unfolding fresh_maps_def by blast+
  have apart: "map_base ps p maps i div ps + q \<noteq> map_base ps p maps j div ps + r"
    if "i < j" "q < PagesPerObject ps p" "r < PagesPerObject ps p" for i q r
  proof
    have "i < dr_rounds ps p" using that(1) j by simp
    moreover assume "map_base ps p maps i div ps + q = map_base ps p maps j div ps + r"
    ultimately have "i = j" using fresh j that(2,3) unfolding fresh_maps_def by blast
    with that(1) show False by simp
  qed
  have none: "\<forall>q < PagesPerObject ps p. pt_getEntry (map_base ps p maps j div ps + q) T = None"
    using m none0 apart unfolding mapped_def by metis
  have inv: "pt_inv T" using m by (simp add: mapped_def)
  note n = insert_pages_lookup [OF g inv none ins al]
  show ?thesis unfolding mapped_def
  proof (intro conjI allI impI)
    show "pt_inv T'" using n by simp
  next
    fix i q assume i: "i < Suc j" and q: "q < PagesPerObject ps p"
    show "pt_getEntry (map_base ps p maps i div ps + q) T' =
        Some (PageTableEntry (map_base ps p maps i div ps + q) this (i * ObjectsPerPage ps p))"
    proof (cases "i = j")
      case True
      with n q show ?thesis by auto
    next
      case False
      with i have "i < j" by simp
      with n apart q m show ?thesis by (auto simp: mapped_def)
    qed
  next
    fix n' assume "\<forall>i < Suc j. \<forall>q < PagesPerObject ps p. n' \<noteq> map_base ps p maps i div ps + q"
    then show "pt_getEntry n' T' = pt_getEntry n' T0" using n m by (auto simp: mapped_def)
  qed
qed

lemma opp_pow2: "dr_geometry ps p \<Longrightarrow> \<exists>b. ObjectsPerPage ps p = 2 ^ b"
  by (erule dr_geometry_cases) (auto intro: exI [of _ 0])

lemma setPage_base:
  assumes "dr_geometry ps p"
  shows "setPageFromIndex ps p fresh (j * ObjectsPerPage ps p) a s
    = s\<lparr>mapEntryToPage := ca_set fresh j a (mapEntryToPage s)\<rparr>"
proof -
  obtain b where "ObjectsPerPage ps p = 2 ^ b" using opp_pow2 [OF assms] by auto
  then show ?thesis by (simp add: setPageFromIndex_def drop_bit_nat_div)
qed

lemma map_objects_mapped:
  assumes "dr_geometry ps p" and "fresh_maps ps this p maps T0" and "pt_inv T0"
    and "length fresh = NumEntries ps p" and "\<not> ca_isActivated (mapEntryToPage s0)"
    and "dr_rounds ps p \<le> NumEntries ps p"
    and "j \<le> dr_rounds ps p" and "map_objects ok ps this p fresh maps j (s0, T0) = Some (s, T)"
  shows "mapped ps this p maps j T0 T \<and> s = s0\<lparr>mapEntryToPage := mapEntryToPage s\<rparr>
    \<and> ca_isActivated (mapEntryToPage s) = (0 < j)
    \<and> (0 < j \<longrightarrow> length (ca_item (mapEntryToPage s)) = NumEntries ps p)
    \<and> (\<forall>i < j. dr_base s i = map_base ps p maps i)"
  using assms(7,8)
proof (induction j arbitrary: s T)
  case 0
  with assms(3,5) show ?case by (auto simp: mapped_def)
next
  case (Suc j)
  from Suc.prems(2) obtain s1 T1 where one: "map_objects ok ps this p fresh maps j (s0, T0) = Some (s1, T1)"
    and ins: "insert_pages ok ps this (map_base ps p maps j) (j * ObjectsPerPage ps p) (PagesPerObject ps p) T1 = Some T"
    and s: "s = setPageFromIndex ps p fresh (j * ObjectsPerPage ps p) (map_base ps p maps j) s1"
    by (auto simp: Let_def split: option.splits prod.splits)
  have j: "j < dr_rounds ps p" using Suc.prems(1) by simp
  note IH = Suc.IH [OF less_imp_le [OF j] one]
  have s': "s = s1\<lparr>mapEntryToPage := ca_set fresh j (map_base ps p maps j) (mapEntryToPage s1)\<rparr>"
    using s by (simp add: setPage_base [OF assms(1)])
  let ?c = "ca_activate fresh (mapEntryToPage s1)"
  have len: "length (ca_item ?c) = NumEntries ps p" and act: "ca_isActivated ?c"
    using IH assms(4) by (auto simp: ca_activate_def)
  have old: "ca_item ?c ! i = map_base ps p maps i" if "i < j" for i
    using IH that by (auto simp: ca_activate_def dr_base_def)
  have "dr_base s i = map_base ps p maps i" if "i < Suc j" for i
    using that len old [of i] j assms(6) by (cases "i = j") (auto simp: s' ca_set_def Let_def dr_base_def)
  moreover have "s = s0\<lparr>mapEntryToPage := mapEntryToPage s\<rparr>"
  proof -
    have "s1 = s0\<lparr>mapEntryToPage := mapEntryToPage s1\<rparr>" using IH by blast
    then have "s1\<lparr>mapEntryToPage := c\<rparr> = s0\<lparr>mapEntryToPage := c\<rparr>" for c by (metis mini_dieharder.fold_congs mini_dieharder.update_convs(1) mini_dieharder.surjective)
    then show ?thesis by (simp add: s')
  qed
  ultimately show ?case
    using mapped_step [OF assms(1,2) j _ ins] IH len act by (simp add: s' ca_set_def Let_def)
qed

lemma rounds_entries:
  assumes "dr_geometry ps p"
  shows "NumEntries ps p = dr_rounds ps p"
  using assms
proof (cases rule: dr_geometry_cases)
  case (small b k)
  have "NObjects p = dr_rounds ps p * 2 ^ b" using dr_rounds_eq(2) [OF assms] small(3) by simp
  then have "NObjects p * ObjectSize p = dr_rounds ps p * ps" using small by simp
  moreover have ps: "0 < ps" using small(2) by simp
  ultimately have "NumPages ps p = (ps - 1 + dr_rounds ps p * ps) div ps"
    by (simp add: NumPages_def algebra_simps)
  also have "\<dots> = dr_rounds ps p" using ps by (subst div_mult_self1) auto
  finally show ?thesis using small(5) by (simp add: NumEntries_def)
next
  case (large c)
  then show ?thesis using dr_rounds_eq(2) [OF assms] by (simp add: NumEntries_def)
qed

lemma dr_activate_ready:
  assumes "dr_geometry ps p" and "\<not> isHeapActivated s" and "\<not> ca_isActivated (mapEntryToPage s)"
    and "fresh_maps ps this p maps T" and "pt_inv T" and "this \<noteq> 0"
    and "length fresh = NumEntries ps p" and "length ws = (NObjects p + 63) mod 2 ^ 64 div 64"
    and "dr_activate ok ps this p (Some ws) fresh maps (s, T) = Some (s', T')"
  shows "dr_ready ps this p T' s'" and "dr_live ps this p T' s' = {}" and "pt_inv T'"
    and "\<forall>n e. pt_getEntry n T = Some e \<longrightarrow> pt_getEntry n T' = Some e"
proof -
  let ?bm = "reserve (NObjects p) (Some ws) (miniHeapBitmap s)"
  let ?s = "s\<lparr>miniHeapBitmap := ?bm\<rparr>"
  note rounds = dr_rounds_eq [OF assms(1)] rounds_entries [OF assms(1)]
  have "mini_ok p" using assms(1) by (simp add: dr_geometry_def)
  then have n: "NObjects p < 2 ^ 37" by (simp add: mini_ok_def)
  obtain u where u: "map_objects ok ps this p fresh maps (dr_rounds ps p) (?s, T) = Some (u, T')"
    and s': "s' = u\<lparr>isHeapActivated := True\<rparr>"
    using assms(2,9) rounds(1) by (auto simp: dr_activate_def internalActivate_def Let_def split: option.splits)
  have "mapped ps this p maps (dr_rounds ps p) T T' \<and> u = ?s\<lparr>mapEntryToPage := mapEntryToPage u\<rparr>
      \<and> ca_isActivated (mapEntryToPage u) = (0 < dr_rounds ps p)
      \<and> (0 < dr_rounds ps p \<longrightarrow> length (ca_item (mapEntryToPage u)) = NumEntries ps p)
      \<and> (\<forall>i < dr_rounds ps p. dr_base u i = map_base ps p maps i)"
    using assms(3) rounds(4)
    by (intro map_objects_mapped [OF assms(1,4,5,7) _ _ _ u]) auto
  then have m: "mapped ps this p maps (dr_rounds ps p) T T'" and up: "u = ?s\<lparr>mapEntryToPage := mapEntryToPage u\<rparr>"
    and act: "ca_isActivated (mapEntryToPage u) = (0 < dr_rounds ps p)"
    and base: "\<And>i. i < dr_rounds ps p \<Longrightarrow> dr_base s' i = map_base ps p maps i"
    by (auto simp: s' dr_base_def)
  have pos: "0 < dr_rounds ps p" using rounds(2) \<open>mini_ok p\<close> by (cases "dr_rounds ps p") (auto simp: mini_ok_def)
  have "miniHeapBitmap u = ?bm" using up by (metis mini_core.select_convs(4) mini_core.surjective mini_core.update_convs(4) mini_dieharder.surjective mini_dieharder.update_convs(1) mini_dieharder.ext_inject mini_core.ext_inject)
  then have bm: "miniHeapBitmap s' = ?bm" by (simp add: s')
  show "pt_inv T'" using m by (simp add: mapped_def)
  show keep: "\<forall>n e. pt_getEntry n T = Some e \<longrightarrow> pt_getEntry n T' = Some e"
  proof (intro allI impI)
    fix n e assume e: "pt_getEntry n T = Some e"
    have "n \<noteq> map_base ps p maps i div ps + q" if "i < dr_rounds ps p" "q < PagesPerObject ps p" for i q
      using assms(4) that e unfolding fresh_maps_def by (metis option.distinct(1))
    then show "pt_getEntry n T' = Some e" using m e unfolding mapped_def by metis
  qed
  have page: "\<exists>j < dr_rounds ps p. \<exists>q < PagesPerObject ps p. n = dr_base s' j div ps + q"
    if "pt_getEntry n T' = Some e" "pte_heap e = this" for n e
  proof (rule ccontr)
    assume no: "\<not> ?thesis"
    have "pt_getEntry n T' = pt_getEntry n T" using m no base unfolding mapped_def by metis
    with that assms(4) show False by (auto simp: fresh_maps_def)
  qed
  have entries: "\<forall>j < dr_rounds ps p. ps dvd dr_base s' j \<and> dr_base s' j \<noteq> 0
      \<and> (\<forall>q < PagesPerObject ps p. \<exists>n. pt_getEntry (dr_base s' j div ps + q) T'
            = Some (PageTableEntry n this (j * ObjectsPerPage ps p)))"
    using m assms(4) base unfolding mapped_def fresh_maps_def by metis
  have "core_bitmap_ok p (miniHeapBitmap s')"
    using reserve_inv [OF n assms(8)] reserve_bits [OF assms(8)] reserve_cap [OF n]
    by (simp add: bm core_bitmap_ok_def)
  then show "dr_ready ps this p T' s'"
    using assms(1,6) act pos entries page by (auto simp: dr_ready_def s')
  show "dr_live ps this p T' s' = {}"
    using reserve_bits [OF assms(8)] by (simp add: layout_live_def core_bits_def bm)
qed

section \<open>getSize\<close>

lemma dr_slot_bounds:
  assumes "dr_ready ps this p T s" and "a \<in> dr_owned ps this T s"
  shows "dr_slot ps this p T s a \<le> a" and "a < dr_slot ps this p T s a + ObjectSize p"
    and "ObjectSize p \<le> ps \<Longrightarrow> ObjectSize p dvd dr_slot ps this p T s a"
proof -
  note r = dr_readyD [OF assms(1)]
  obtain j q where jq: "j < dr_rounds ps p" "q < PagesPerObject ps p" "a div ps = dr_base s j div ps + q"
    "pt_getObjectIndex ps a T = j * ObjectsPerPage ps p"
    using dr_ownedE [OF assms] .
  have base: "ps dvd dr_base s j" using r(6) [OF jq(1)] by simp
  have ps: "0 < ps" using r(1) by (rule dr_geometryD) simp
  have idx: "dr_computeIndex ps p T a < NObjects p" using assms by (rule dr_index_less)
  have slot: "dr_slot ps this p T s a = dr_base s (dr_computeIndex ps p T a div ObjectsPerPage ps p)
      + dr_computeIndex ps p T a mod ObjectsPerPage ps p * ObjectSize p"
    using dr_page(1) [OF assms(1) idx] by (simp add: layout_slot_def heap_simps)
  have "dr_slot ps this p T s a \<le> a \<and> a < dr_slot ps this p T s a + ObjectSize p
      \<and> (ObjectSize p \<le> ps \<longrightarrow> ObjectSize p dvd dr_slot ps this p T s a)"
    using r(1)
  proof (cases rule: dr_geometry_cases)
    case (small b k)
    let ?x = "a mod ps"
    have a: "a = dr_base s j + ?x"
      using jq(2,3) base small(4) div_mult_mod_eq [of a ps] by (auto elim!: dvdE simp: mult.commute)
    have lt: "?x div 2 ^ k < 2 ^ b" using small(2) by (simp add: div_less_iff_less_mult)
    have "dr_computeIndex ps p T a = (j * 2 ^ b + ?x div 2 ^ k) mod 2 ^ 32"
    proof (cases "b = 0")
      case True
      then have "j < 2 ^ 32"
        using jq(1) dr_rounds_eq(2) [OF r(1)] small(3) r(1) by (auto elim: dr_geometryD)
      then show ?thesis using True jq(4) small lt by (simp add: dr_computeIndex_def)
    next
      case False
      then have "ObjectsPerPage ps p \<noteq> 1" using small(3) by simp
      moreover have "a AND (ps - 1) = ?x"
        using and_pred_pow2 [of a "b + k"] small(2) by (simp add: power_add)
      ultimately show ?thesis
        using jq(4) small(1,3) by (simp add: dr_computeIndex_def Let_def drop_bit_nat_div)
    qed
    moreover have "j * 2 ^ b + ?x div 2 ^ k < 2 ^ 32"
    proof -
      have "j * 2 ^ b + ?x div 2 ^ k < (j + 1) * 2 ^ b" using lt by simp
      also have "\<dots> \<le> NObjects p" unfolding dr_rounds_eq(2) [OF r(1)] small(3)
        using jq(1) by (intro mult_le_mono1) simp
      also have "NObjects p < 2 ^ 32" using r(1) by (rule dr_geometryD) simp
      finally show ?thesis .
    qed
    ultimately have i: "dr_computeIndex ps p T a = j * 2 ^ b + ?x div 2 ^ k" by simp
    then have s: "dr_slot ps this p T s a = dr_base s j + ?x div 2 ^ k * 2 ^ k"
      using slot lt small(1,3) by simp
    have dvd: "2 ^ k dvd dr_base s j" using base small(2) by (auto elim!: dvdE)
    have "?x div 2 ^ k * 2 ^ k + ?x mod 2 ^ k = ?x" "?x mod 2 ^ k < 2 ^ k"
      by (simp_all only: div_mult_mod_eq) simp
    then have "?x div 2 ^ k * 2 ^ k \<le> ?x" "?x < ?x div 2 ^ k * 2 ^ k + 2 ^ k" by linarith+
    with a have "dr_base s j + ?x div 2 ^ k * 2 ^ k \<le> a" "a < dr_base s j + ?x div 2 ^ k * 2 ^ k + 2 ^ k"
      by linarith+
    with dvd show ?thesis unfolding s small(1) by simp
  next
    case (large c)
    then have "dr_computeIndex ps p T a = j" using jq(4) by (simp add: dr_computeIndex_def)
    then have s: "dr_slot ps this p T s a = dr_base s j" using slot large(1) by simp
    obtain d where d: "dr_base s j = ps * d" using base by (auto elim: dvdE)
    have "a div ps = d + q" using jq(3) d ps by simp
    then have a: "a = ps * (d + q) + a mod ps" by (metis mult_div_mod_eq)
    have "a mod ps < ps" using ps by simp
    moreover have "ps * q + ps \<le> ps * c"
      using mult_le_mono2 [of "Suc q" c ps] jq(2) large(4) by simp
    ultimately show ?thesis unfolding s d using a large(2,3) by (simp add: add_mult_distrib2)
  qed
  then show "dr_slot ps this p T s a \<le> a" "a < dr_slot ps this p T s a + ObjectSize p"
    "ObjectSize p \<le> ps \<Longrightarrow> ObjectSize p dvd dr_slot ps this p T s a" by auto
qed

lemma dr_getSize_owned:
  assumes "dr_ready ps this p T s" and "a \<in> dr_owned ps this T s" and "a < 2 ^ 64"
  shows "dr_getSize ps p T a s = ObjectSize p - (a - dr_slot ps this p T s a)"
proof -
  note b = dr_slot_bounds [OF assms(1,2)]
  have mini: "mini_ok p" using dr_readyD(1) [OF assms(1)] by (simp add: dr_geometry_def)
  show ?thesis
  proof (cases "ObjectSize p \<ge> ps")
    case True
    have "ObjectSize p \<le> NObjects p * ObjectSize p" using mini by (simp add: mini_ok_def)
    moreover have "NObjects p * ObjectSize p < 2 ^ 34" using mini by (simp add: mini_ok_def)
    ultimately have "ObjectSize p < 2 ^ 34" by (rule le_less_trans)
    then have o: "ObjectSize p < 2 ^ 64" by simp
    have "dr_getObject ps p s (dr_computeIndex ps p T a) = dr_slot ps this p T s a"
      by (simp add: layout_slot_def heap_simps)
    then show ?thesis
      using True b(1,2) o assms(3) by (simp add: dr_getSize_def dr_getSize_large_def Let_def sub64_le)
  next
    case False
    then obtain d where d: "dr_slot ps this p T s a = ObjectSize p * d" using b(3) by (auto elim: dvdE)
    define y where "y = a - dr_slot ps this p T s a"
    have "a = y + ObjectSize p * d" "y < ObjectSize p" using b(1,2) d by (simp_all add: y_def)
    then have "a mod ObjectSize p = y" by (metis mod_less mod_mult_self2)
    then have "a mod ObjectSize p = a - dr_slot ps this p T s a" unfolding y_def .
    then show ?thesis using False by (simp add: dr_getSize_def dr_getSize_small_def modulo_eq_mod)
  qed
qed

text \<open>The class for small objects gives any pointer a nonzero size, managed or not.\<close>

lemma dr_getSize_small_foreign: "0 < ObjectSize p \<Longrightarrow> 0 < dr_getSize_small p a"
  by (simp add: dr_getSize_small_def modulo_eq_mod)

section \<open>Properties\<close>

lemma insert_pages_total: "\<exists>T'. insert_pages True ps this a i q T = Some T'"
proof (induction q)
  case (Suc q)
  then obtain U where "insert_pages True ps this a i q T = Some U" by blast
  with pt_insert_total show ?case by simp
qed simp

lemma map_objects_total: "\<exists>r. map_objects True ps this p fresh maps j st = Some r"
proof (induction j)
  case (Suc j)
  then obtain s T where "map_objects True ps this p fresh maps j st = Some (s, T)" by auto
  moreover obtain U where "insert_pages True ps this (maps (j * ObjectsPerPage ps p)) (j * ObjectsPerPage ps p)
      (PagesPerObject ps p) T = Some U" using insert_pages_total by blast
  ultimately show ?case by (simp add: Let_def)
qed simp

text \<open>When no memory request fails, activating a DieHarder miniheap maps all its pages and enters them: the
  heap is then well formed and empty, every page of it leads back to it, and no earlier entry of the page table is
  disturbed.\<close>

theorem dieharder_activation:
  assumes "dr_geometry ps p" and "\<not> isHeapActivated s" and "\<not> ca_isActivated (mapEntryToPage s)"
    and "fresh_maps ps this p maps T" and "pt_inv T" and "this \<noteq> 0"
    and "length fresh = NumEntries ps p" and "length ws = (NObjects p + 63) mod 2 ^ 64 div 64"
  shows "\<exists>s' T'. dr_activate True ps this p (Some ws) fresh maps (s, T) = Some (s', T')
    \<and> dr_ready ps this p T' s' \<and> dr_live ps this p T' s' = {} \<and> pt_inv T'
    \<and> (\<forall>n e. pt_getEntry n T = Some e \<longrightarrow> pt_getEntry n T' = Some e)"
proof -
  have "\<exists>r. dr_activate True ps this p (Some ws) fresh maps (s, T) = Some r"
    using map_objects_total assms(2) by (simp add: dr_activate_def internalActivate_def Let_def split: option.splits)
  then obtain s' T' where "dr_activate True ps this p (Some ws) fresh maps (s, T) = Some (s', T')" by auto
  with dr_activate_ready [OF assms this] show ?thesis by blast
qed

definition demo_dr :: mini_params where
  "demo_dr = \<lparr>ObjectSize = 1024, NObjects = 8, DieFastOn = False, DieHarderOn = True\<rparr>"

definition demo_dr_heap :: mini_dieharder where
  "demo_dr_heap = \<lparr>mh_rng = 0, freedValue = 5, isHeapActivated = False, miniHeapBitmap = BitMap,
     mapEntryToPage = CheckedArray\<rparr>"

lemma demo_dr_ok:
  "dr_geometry 4096 demo_dr" "fresh_maps 4096 7 demo_dr (\<lambda>i. 8192 + i * 1024) (pt_new 4096)" "pt_inv (pt_new 4096)"
proof -
  have o: "ObjectsPerPage 4096 demo_dr = 4" "PagesPerObject 4096 demo_dr = 1" "dr_rounds 4096 demo_dr = 2"
    by (simp_all add: ObjectsPerPage_def PagesPerObject_def dr_rounds_def demo_dr_def)
  have "\<exists>w. (4096::nat) = 2 ^ w" by (rule exI [of _ 12]) simp
  moreover have "\<exists>k. (1024::nat) = 2 ^ k" by (rule exI [of _ 10]) simp
  ultimately show "dr_geometry 4096 demo_dr"
    unfolding dr_geometry_def o(1) by (simp add: demo_dr_def mini_ok_def)
  show "pt_inv (pt_new 4096)" using pt_new_inv [of 12] by simp
  have none: "pt_getEntry n (pt_new 4096) = None" for n using pt_new_inv [of 12] by simp
  have "j = 0 \<or> j = 1" if "j < 2" for j :: nat using that by linarith
  then show "fresh_maps 4096 7 demo_dr (\<lambda>i. 8192 + i * 1024) (pt_new 4096)"
    by (auto simp: fresh_maps_def o none)
qed

lemma demo_dr_start:
  "\<not> isHeapActivated demo_dr_heap" "\<not> ca_isActivated (mapEntryToPage demo_dr_heap)"
  "length [0, 0 :: addr] = NumEntries 4096 demo_dr" "length [0 :: u64] = (NObjects demo_dr + 63) mod 2 ^ 64 div 64"
  "ObjectSize demo_dr < 4096"
  by (simp_all add: demo_dr_heap_def CheckedArray_def demo_dr_def NumEntries_def NumPages_def)

theorem dieharder_activation_witness:
  "\<exists>s' T'. dr_activate True 4096 7 demo_dr (Some [0]) [0, 0] (\<lambda>i. 8192 + i * 1024) (demo_dr_heap, pt_new 4096)
      = Some (s', T') \<and> dr_ready 4096 7 demo_dr T' s'"
proof -
  have "(7::addr) \<noteq> 0" by simp
  from dieharder_activation [OF demo_dr_ok(1) demo_dr_start(1,2) demo_dr_ok(2,3) this demo_dr_start(3,4)]
  show ?thesis by blast
qed

text \<open>For a pointer into an active DieHarder miniheap, \<open>getSize\<close> is the number of bytes left in its
  object; but for objects below the page size it looks at the pointer only, and is nonzero for every pointer of the
  program, unlike the miniheap of DieHard.\<close>

theorem dieharder_getSize:
  assumes "dr_ready ps this p T s" and "a < 2 ^ 64"
  shows "(a \<in> dr_owned ps this T s \<longrightarrow> dr_getSize ps p T a s = ObjectSize p - (a - dr_slot ps this p T s a))
    \<and> (ObjectSize p < ps \<longrightarrow> 0 < dr_getSize ps p T a s)"
proof -
  have "0 < ObjectSize p" using dr_readyD(1) [OF assms(1)] by (rule dr_geometryD)
  then show ?thesis
    using dr_getSize_owned [OF assms(1) _ assms(2)] dr_getSize_small_foreign [of p a] by (auto simp: dr_getSize_def)
qed

theorem dieharder_getSize_witness: "\<exists>s T. dr_ready 4096 7 demo_dr T s \<and> 0 < dr_getSize 4096 demo_dr T 5 s"
proof -
  obtain r where "map_objects True 4096 7 demo_dr [0, 0] (\<lambda>i. 8192 + i * 1024) (map_rounds 4096 demo_dr)
      (demo_dr_heap\<lparr>miniHeapBitmap := reserve (NObjects demo_dr) (Some [0]) (miniHeapBitmap demo_dr_heap)\<rparr>, pt_new 4096)
      = Some r"
    using map_objects_total by blast
  then obtain s T where
    a: "dr_activate True 4096 7 demo_dr (Some [0]) [0, 0] (\<lambda>i. 8192 + i * 1024) (demo_dr_heap, pt_new 4096) = Some (s, T)"
    by (cases r) (simp add: dr_activate_def internalActivate_def demo_dr_start)
  have "(7::addr) \<noteq> 0" by simp
  from dr_activate_ready(1) [OF demo_dr_ok(1) demo_dr_start(1,2) demo_dr_ok(2,3) this demo_dr_start(3,4) a]
  have r: "dr_ready 4096 7 demo_dr T s" .
  then have "0 < dr_getSize 4096 demo_dr T 5 s" using dieharder_getSize [OF r, of 5] demo_dr_start(5) by simp
  with r show ?thesis by blast
qed

end
