(* ===== verification/FreeQueue.thy ===== *)
theory FreeQueue
  imports HeapInterface
begin

text \<open>
  Queues of objects freed by other threads (\<open>src/include/globalfreepool.h\<close>), run by one thread at
  a time; \<open>FreeQueueSteps\<close> interleaves them.  The indices \<open>_head\<close> and \<open>_tail\<close> are \<open>size_t\<close>, their
  differences are taken modulo \<open>2 ^ 64\<close>.  A callback is a function on a caller's state.
\<close>

definition INVALID_THREAD_ID :: nat where "INVALID_THREAD_ID = 2 ^ 64 - 1"
definition MAX_THREADS :: nat where "MAX_THREADS = 64"
definition FREE_BATCH_SIZE :: nat where "FREE_BATCH_SIZE = 32"
definition FREE_QUEUE_CAPACITY :: nat where "FREE_QUEUE_CAPACITY = 1024"

section \<open>PerThreadFreeQueue\<close>

record free_queue =
  q_head :: nat
  q_tail :: nat
  q_slots :: "addr list"

definition PerThreadFreeQueue :: free_queue where
  "PerThreadFreeQueue = \<lparr>q_head = 0, q_tail = 0, q_slots = replicate FREE_QUEUE_CAPACITY 0\<rparr>"

definition q_slot :: "nat \<Rightarrow> nat" where
  "q_slot index = index AND (FREE_QUEUE_CAPACITY - 1)"

definition push :: "addr \<Rightarrow> free_queue \<Rightarrow> bool \<times> free_queue" where
  "push ptr q =
     (let currentHead = q_head q; currentTail = q_tail q
      in if sub64 currentHead currentTail \<ge> FREE_QUEUE_CAPACITY then (False, q)
         else (True, q\<lparr>q_head := (currentHead + 1) mod 2 ^ 64,
                       q_slots := (q_slots q)[q_slot currentHead := ptr]\<rparr>))"

text \<open>The loop of \<open>drain\<close>; the number of elements processed is counted in the first component.\<close>

function drain_loop :: "(addr \<Rightarrow> 's \<Rightarrow> 's) \<Rightarrow> nat \<Rightarrow> nat \<Rightarrow> nat \<Rightarrow> addr list \<Rightarrow> 's \<Rightarrow> nat \<times> nat \<times> addr list \<times> 's" where
  "drain_loop callback processed currentTail currentHead slots s =
     (if currentTail < currentHead
      then let ptr = slots ! q_slot currentTail
           in if ptr = 0 then (processed, currentTail, slots, s)
              else drain_loop callback (processed + 1) (currentTail + 1) currentHead
                     (slots[q_slot currentTail := 0]) (callback ptr s)
      else (processed, currentTail, slots, s))"
  by auto
termination by (relation "measure (\<lambda>(_, _, t, h, _, _). h - t)") auto

declare drain_loop.simps [simp del]

definition drain :: "(addr \<Rightarrow> 's \<Rightarrow> 's) \<Rightarrow> free_queue \<Rightarrow> 's \<Rightarrow> nat \<times> free_queue \<times> 's" where
  "drain callback q s =
     (let (processed, currentTail, slots, s) = drain_loop callback 0 (q_tail q) (q_head q) (q_slots q) s
      in (processed, q\<lparr>q_tail := currentTail, q_slots := slots\<rparr>, s))"

definition shouldDrain :: "free_queue \<Rightarrow> bool" where
  "shouldDrain q \<longleftrightarrow> sub64 (q_head q) (q_tail q) \<ge> FREE_BATCH_SIZE"

definition approximateCount :: "free_queue \<Rightarrow> nat" where
  "approximateCount q = sub64 (q_head q) (q_tail q)"

definition isFull :: "free_queue \<Rightarrow> bool" where
  "isFull q \<longleftrightarrow> sub64 (q_head q) (q_tail q) \<ge> FREE_QUEUE_CAPACITY"

section \<open>GlobalFreePool\<close>

type_synonym free_pool = "free_queue list"

definition GlobalFreePool :: free_pool where
  "GlobalFreePool = replicate MAX_THREADS PerThreadFreeQueue"

definition crossThreadFree :: "addr \<Rightarrow> nat \<Rightarrow> free_pool \<Rightarrow> bool \<times> free_pool" where
  "crossThreadFree ptr ownerThreadId pool =
     (if ownerThreadId < MAX_THREADS
      then let (ok, q) = push ptr (pool ! ownerThreadId) in (ok, pool[ownerThreadId := q])
      else (False, pool))"

definition drainForThread :: "nat \<Rightarrow> (addr \<Rightarrow> 's \<Rightarrow> 's) \<Rightarrow> free_pool \<Rightarrow> 's \<Rightarrow> nat \<times> free_pool \<times> 's" where
  "drainForThread threadId callback pool s =
     (if threadId < MAX_THREADS
      then let (n, q, s) = drain callback (pool ! threadId) s in (n, pool[threadId := q], s)
      else (0, pool, s))"

definition pool_shouldDrain :: "nat \<Rightarrow> free_pool \<Rightarrow> bool" where
  "pool_shouldDrain threadId pool = (if threadId < MAX_THREADS then shouldDrain (pool ! threadId) else False)"

definition isQueueFull :: "nat \<Rightarrow> free_pool \<Rightarrow> bool" where
  "isQueueFull threadId pool = (if threadId < MAX_THREADS then isFull (pool ! threadId) else True)"

section \<open>ThreadIdManager\<close>

text \<open>The state is the static counter \<open>nextId\<close>.\<close>

definition allocateThreadId :: "nat \<Rightarrow> nat \<times> nat" where
  "allocateThreadId nextId = (let i = nextId in (i mod MAX_THREADS, (nextId + 1) mod 2 ^ 64))"

definition getThreadId :: "nat \<Rightarrow> nat \<times> nat" where
  "getThreadId nextId = allocateThreadId nextId"

section \<open>CrossThreadFreeWrapper\<close>

text \<open>
  The wrapped heap is given by its \<open>free\<close> and \<open>malloc\<close>, the state of the program outside the pool is
  \<open>'s\<close>.
\<close>

definition CrossThreadFreeWrapper :: "nat \<Rightarrow> nat \<times> nat" where
  "CrossThreadFreeWrapper nextId = getThreadId nextId"

definition maybeDrainPending :: "(addr \<Rightarrow> 's \<Rightarrow> bool \<times> 's) \<Rightarrow> nat \<Rightarrow> free_pool \<Rightarrow> 's \<Rightarrow> free_pool \<times> 's" where
  "maybeDrainPending super_free threadId pool s =
     (if pool_shouldDrain threadId pool
      then let (n, pool, s) = drainForThread threadId (\<lambda>ptr s. snd (super_free ptr s)) pool s in (pool, s)
      else (pool, s))"

definition ctw_malloc :: "(nat \<Rightarrow> 's \<Rightarrow> addr \<times> 's) \<Rightarrow> (addr \<Rightarrow> 's \<Rightarrow> bool \<times> 's) \<Rightarrow> nat \<Rightarrow> nat \<Rightarrow> free_pool \<Rightarrow> 's
    \<Rightarrow> addr \<times> free_pool \<times> 's" where
  "ctw_malloc super_malloc super_free threadId sz pool s =
     (let (pool, s) = maybeDrainPending super_free threadId pool s; (ptr, s) = super_malloc sz s
      in (ptr, pool, s))"

definition ctw_free :: "(addr \<Rightarrow> 's \<Rightarrow> bool \<times> 's) \<Rightarrow> addr \<Rightarrow> 's \<Rightarrow> bool \<times> 's" where
  "ctw_free super_free ptr s = super_free ptr s"

definition ctw_getSize :: "(addr \<Rightarrow> 's \<Rightarrow> nat) \<Rightarrow> addr \<Rightarrow> 's \<Rightarrow> nat" where
  "ctw_getSize super_getSize ptr s = super_getSize ptr s"

section \<open>A queue is a bounded FIFO\<close>

lemma q_slot_mod: "q_slot i = i mod 1024"
  using and_pred_pow2 [of i 10] by (simp add: q_slot_def FREE_QUEUE_CAPACITY_def)

text \<open>
  The occupied slots are those of the indices from \<open>_tail\<close> to \<open>_head\<close>, all others are null.  The
  indices stay below \<open>2 ^ 64\<close> as long as fewer than \<open>2 ^ 64\<close> objects have gone through the queue.
\<close>

definition q_inv :: "free_queue \<Rightarrow> bool" where
  "q_inv q \<longleftrightarrow> length (q_slots q) = 1024 \<and> q_tail q \<le> q_head q \<and> q_head q < q_tail q + 1025
     \<and> q_head q < 2 ^ 64
     \<and> (\<forall>i. q_tail q \<le> i \<and> i < q_head q \<longrightarrow> q_slots q ! (i mod 1024) \<noteq> 0)
     \<and> (\<forall>i. q_head q \<le> i \<and> i < q_tail q + 1024 \<longrightarrow> q_slots q ! (i mod 1024) = 0)"

definition q_pending :: "free_queue \<Rightarrow> addr list" where
  "q_pending q = map (\<lambda>i. q_slots q ! (i mod 1024)) [q_tail q..<q_head q]"

lemma q_length: "q_inv q \<Longrightarrow> length (q_pending q) = sub64 (q_head q) (q_tail q)"
  by (simp add: q_pending_def q_inv_def sub64_le)

lemma q_start: "q_inv PerThreadFreeQueue \<and> q_pending PerThreadFreeQueue = []"
  by (simp add: q_inv_def q_pending_def PerThreadFreeQueue_def FREE_QUEUE_CAPACITY_def)

lemma mod_near: "(i::nat) \<le> j \<Longrightarrow> i mod 1024 = j mod 1024 \<Longrightarrow> j < i + 1024 \<Longrightarrow> i = j"
proof -
  assume a: "i \<le> j" "i mod 1024 = j mod 1024" "j < i + 1024"
  then have "1024 dvd j - i" by (metis mod_eq_dvd_iff_nat)
  with a show "i = j" by (auto dest: dvd_imp_le)
qed

lemma mod_window: "(i::nat) mod 1024 = j mod 1024 \<Longrightarrow> t \<le> i \<Longrightarrow> i < t + 1024 \<Longrightarrow> t \<le> j \<Longrightarrow> j < t + 1024 \<Longrightarrow> i = j"
  using mod_near [of i j] mod_near [of j i] by (cases "i \<le> j") auto

lemma push_spec:
  assumes "q_inv q" and "ptr \<noteq> 0" and "q_head q + 1 < 2 ^ 64"
  shows "if length (q_pending q) < 1024 then fst (push ptr q) \<and> q_inv (snd (push ptr q))
      \<and> q_pending (snd (push ptr q)) = q_pending q @ [ptr]
    else push ptr q = (False, q)"
proof (cases "length (q_pending q) < 1024")
  case True
  let ?h = "q_head q" and ?t = "q_tail q"
  have q: "length (q_slots q) = 1024" "?t \<le> ?h"
    "\<And>i. ?t \<le> i \<Longrightarrow> i < ?h \<Longrightarrow> q_slots q ! (i mod 1024) \<noteq> 0"
    "\<And>i. ?h \<le> i \<Longrightarrow> i < ?t + 1024 \<Longrightarrow> q_slots q ! (i mod 1024) = 0"
    using assms(1) by (auto simp: q_inv_def)
  have room: "?h < ?t + 1024" using True q(2) by (simp add: q_pending_def)
  have p: "push ptr q = (True, q\<lparr>q_head := ?h + 1, q_slots := (q_slots q)[?h mod 1024 := ptr]\<rparr>)"
    using True assms(3) q_length [OF assms(1)] by (simp add: push_def Let_def FREE_QUEUE_CAPACITY_def q_slot_mod)
  have same: "(q_slots q)[?h mod 1024 := ptr] ! (i mod 1024) = (if i = ?h then ptr else q_slots q ! (i mod 1024))"
    if "?t \<le> i" "i < ?t + 1024" for i
    using mod_window [of i ?h ?t] that q(1,2) room by (auto simp: nth_list_update)
  have "q_inv (snd (push ptr q))"
    using same q assms(2,3) room by (auto simp: p q_inv_def)
  moreover have "q_pending (snd (push ptr q)) = q_pending q @ [ptr]"
    using same q(2) room by (auto simp: p q_pending_def)
  ultimately show ?thesis using True by (simp add: p)
next
  case False
  with q_length [OF assms(1)] show ?thesis by (simp add: push_def Let_def FREE_QUEUE_CAPACITY_def)
qed

lemma drain_loop_all:
  assumes "length slots = 1024" and "t \<le> h" and "h < t + 1025"
    and "\<forall>i. t \<le> i \<and> i < h \<longrightarrow> slots ! (i mod 1024) \<noteq> 0" and "\<forall>i. h \<le> i \<and> i < t + 1024 \<longrightarrow> slots ! (i mod 1024) = 0"
  shows "\<exists>slots'. drain_loop cb n t h slots s =
      (n + (h - t), h, slots', fold cb (map (\<lambda>i. slots ! (i mod 1024)) [t..<h]) s)
    \<and> length slots' = 1024 \<and> (\<forall>i. slots' ! (i mod 1024) = 0)"
  using assms
proof (induction "h - t" arbitrary: n t slots s)
  case 0
  then have "h = t" by simp
  have "slots ! (i mod 1024) = 0" for i
  proof -
    define j where "j = h + (i + 1024 - h mod 1024) mod 1024"
    have "h = 1024 * d + m \<Longrightarrow> m \<le> 1024 \<Longrightarrow> h + (i + 1024 - m) = i + (1 + d) * 1024" for d m by simp
    from this [of "h div 1024" "h mod 1024"] have "h + (i + 1024 - h mod 1024) = i + (1 + h div 1024) * 1024" by simp
    then have "j mod 1024 = i mod 1024" unfolding j_def by (metis mod_add_right_eq mod_mult_self1)
    moreover have "h \<le> j" "j < t + 1024" using \<open>h = t\<close> by (simp_all add: j_def)
    ultimately show ?thesis using "0.prems"(5) by metis
  qed
  then show ?case using "0.prems"(1) \<open>h = t\<close> by (subst drain_loop.simps) simp
next
  case (Suc k)
  then have lt: "t < h" by simp
  let ?slots = "slots[t mod 1024 := 0]"
  have nz: "slots ! (t mod 1024) \<noteq> 0" using Suc.prems lt by simp
  have upd: "?slots ! (i mod 1024) = (if i mod 1024 = t mod 1024 then 0 else slots ! (i mod 1024))" for i
    using Suc.prems(1) by (simp add: nth_list_update)
  have keep: "?slots ! (i mod 1024) = slots ! (i mod 1024)" if "Suc t \<le> i" "i < h" for i
  proof -
    have "i mod 1024 \<noteq> t mod 1024" using mod_window [of i t t] that Suc.prems(3) by auto
    then show ?thesis by (simp add: upd)
  qed
  have clear: "?slots ! (i mod 1024) = 0" if "h \<le> i" "i < Suc t + 1024" for i
  proof (cases "i = t + 1024")
    case True
    then show ?thesis by (simp add: upd)
  next
    case False
    then have "slots ! (i mod 1024) = 0" using that Suc.prems(5) by simp
    then show ?thesis by (simp add: upd)
  qed
  have k: "k = h - Suc t" using Suc.hyps(2) by simp
  have nz': "\<forall>i. Suc t \<le> i \<and> i < h \<longrightarrow> ?slots ! (i mod 1024) \<noteq> 0" using keep Suc.prems(4) by auto
  have z': "\<forall>i. h \<le> i \<and> i < Suc t + 1024 \<longrightarrow> ?slots ! (i mod 1024) = 0" using clear by blast
  obtain slots' where IH: "drain_loop cb (n + 1) (Suc t) h ?slots (cb (slots ! (t mod 1024)) s) =
      (n + 1 + (h - Suc t), h, slots', fold cb (map (\<lambda>i. ?slots ! (i mod 1024)) [Suc t..<h]) (cb (slots ! (t mod 1024)) s))"
    and l: "length slots' = 1024" "\<forall>i. slots' ! (i mod 1024) = 0"
    using Suc.hyps(1) [OF k _ _ _ nz' z', of "n + 1" "cb (slots ! (t mod 1024)) s"] Suc.prems(1,3) lt by auto
  have "drain_loop cb n t h slots s = drain_loop cb (n + 1) (Suc t) h ?slots (cb (slots ! (t mod 1024)) s)"
    using lt nz by (subst drain_loop.simps) (simp add: q_slot_mod Let_def)
  moreover have "map (\<lambda>i. ?slots ! (i mod 1024)) [Suc t..<h] = map (\<lambda>i. slots ! (i mod 1024)) [Suc t..<h]"
    using keep by auto
  ultimately have "drain_loop cb n t h slots s = (n + 1 + (h - Suc t), h, slots',
      fold cb (map (\<lambda>i. slots ! (i mod 1024)) [Suc t..<h]) (cb (slots ! (t mod 1024)) s))"
    using IH by (simp only:)
  moreover have "n + 1 + (h - Suc t) = n + (h - t)" using lt by simp
  moreover have "[t..<h] = t # [Suc t..<h]" using lt by (rule upt_conv_Cons)
  ultimately show ?case using l by (simp only: list.map fold_Cons o_apply) blast
qed

lemma drain_spec:
  assumes "q_inv q" and "drain cb q s = (n, q', s')"
  shows "n = length (q_pending q) \<and> q_inv q' \<and> q_pending q' = [] \<and> s' = fold cb (q_pending q) s \<and> q_head q' = q_head q"
proof -
  obtain slots' where "drain_loop cb 0 (q_tail q) (q_head q) (q_slots q) s =
      (q_head q - q_tail q, q_head q, slots', fold cb (q_pending q) s)"
    and l: "length slots' = 1024" "\<forall>i. slots' ! (i mod 1024) = 0"
    using drain_loop_all [of "q_slots q" "q_tail q" "q_head q" cb 0 s] assms(1)
    by (auto simp: q_inv_def q_pending_def)
  with assms show ?thesis by (auto simp: drain_def q_inv_def q_pending_def)
qed

end
