(* ===== verification/FreeQueueSteps.thy ===== *)
theory FreeQueueSteps
  imports FreeQueue "HOL-Library.Multiset"
begin

text \<open>
  The queue of \<open>src/include/globalfreepool.h\<close> with any number of producers and one consumer, as
  interleavings of single loads, stores and compare-and-swaps (sequentially consistent).  A producer
  runs \<open>push\<close>, the owner runs \<open>drain\<close>.  \<open>claims\<close>, \<open>drained\<close> and \<open>answers\<close> only record history:
  the pointers in the order of the successful compare-and-swaps, the pointers given to the callback,
  and what each finished \<open>push\<close> returned.
\<close>

datatype producer = PIdle | PLoop addr nat | PCas addr nat | PClaimed addr nat

datatype consumer = CIdle | CTail nat | CLoop nat nat | CGot nat nat addr | CPublish nat

record queue_sys =
  qs_head :: nat
  qs_tail :: nat
  qs_slots :: "addr list"
  producers :: "nat \<Rightarrow> producer"
  owner :: consumer
  claims :: "addr list"
  drained :: "addr list"
  answers :: "(addr \<times> bool) list"

definition queue_start :: queue_sys where
  "queue_start = \<lparr>qs_head = 0, qs_tail = 0, qs_slots = replicate FREE_QUEUE_CAPACITY 0, producers = (\<lambda>_. PIdle),
     owner = CIdle, claims = [], drained = [], answers = []\<rparr>"

inductive push_step :: "queue_sys \<Rightarrow> queue_sys \<Rightarrow> bool" where
  load_head: "producers s t = PIdle \<Longrightarrow> ptr \<noteq> 0 \<Longrightarrow>
    push_step s (s\<lparr>producers := (producers s)(t := PLoop ptr (qs_head s))\<rparr>)"
| full: "producers s t = PLoop ptr currentHead \<Longrightarrow> sub64 currentHead (qs_tail s) \<ge> FREE_QUEUE_CAPACITY \<Longrightarrow>
    push_step s (s\<lparr>producers := (producers s)(t := PIdle), answers := answers s @ [(ptr, False)]\<rparr>)"
| room: "producers s t = PLoop ptr currentHead \<Longrightarrow> \<not> sub64 currentHead (qs_tail s) \<ge> FREE_QUEUE_CAPACITY \<Longrightarrow>
    push_step s (s\<lparr>producers := (producers s)(t := PCas ptr currentHead)\<rparr>)"
| cas_ok: "producers s t = PCas ptr currentHead \<Longrightarrow> qs_head s = currentHead \<Longrightarrow>
    push_step s (s\<lparr>qs_head := (currentHead + 1) mod 2 ^ 64, producers := (producers s)(t := PClaimed ptr currentHead),
      claims := claims s @ [ptr]\<rparr>)"
| cas_retry: "producers s t = PCas ptr currentHead \<Longrightarrow>
    push_step s (s\<lparr>producers := (producers s)(t := PLoop ptr (qs_head s))\<rparr>)"
| store: "producers s t = PClaimed ptr currentHead \<Longrightarrow>
    push_step s (s\<lparr>qs_slots := (qs_slots s)[q_slot currentHead := ptr], producers := (producers s)(t := PIdle),
      answers := answers s @ [(ptr, True)]\<rparr>)"

inductive drain_step :: "queue_sys \<Rightarrow> queue_sys \<Rightarrow> bool" where
  load_tail: "owner s = CIdle \<Longrightarrow> drain_step s (s\<lparr>owner := CTail (qs_tail s)\<rparr>)"
| load_head: "owner s = CTail currentTail \<Longrightarrow> drain_step s (s\<lparr>owner := CLoop currentTail (qs_head s)\<rparr>)"
| read: "owner s = CLoop currentTail currentHead \<Longrightarrow> currentTail < currentHead \<Longrightarrow>
    qs_slots s ! q_slot currentTail = ptr \<Longrightarrow> ptr \<noteq> 0 \<Longrightarrow>
    drain_step s (s\<lparr>owner := CGot currentTail currentHead ptr\<rparr>)"
| unwritten: "owner s = CLoop currentTail currentHead \<Longrightarrow> currentTail < currentHead \<Longrightarrow>
    qs_slots s ! q_slot currentTail = 0 \<Longrightarrow> drain_step s (s\<lparr>owner := CPublish currentTail\<rparr>)"
| clear: "owner s = CGot currentTail currentHead ptr \<Longrightarrow>
    drain_step s (s\<lparr>qs_slots := (qs_slots s)[q_slot currentTail := 0], drained := drained s @ [ptr],
      owner := CLoop (currentTail + 1) currentHead\<rparr>)"
| finished: "owner s = CLoop currentTail currentHead \<Longrightarrow> \<not> currentTail < currentHead \<Longrightarrow>
    drain_step s (s\<lparr>owner := CPublish currentTail\<rparr>)"
| publish: "owner s = CPublish currentTail \<Longrightarrow> drain_step s (s\<lparr>qs_tail := currentTail, owner := CIdle\<rparr>)"

inductive queue_reach :: "queue_sys \<Rightarrow> bool" where
  start: "queue_reach queue_start"
| producer: "queue_reach s \<Longrightarrow> push_step s s' \<Longrightarrow> queue_reach s'"
| consumer: "queue_reach s \<Longrightarrow> drain_step s s' \<Longrightarrow> queue_reach s'"

section \<open>Invariant\<close>

text \<open>The index the owner has got to, and the claimed indices whose slot is not written yet.\<close>

fun owner_at :: "nat \<Rightarrow> consumer \<Rightarrow> nat" where
  "owner_at tt CIdle = tt"
| "owner_at tt (CTail t) = t"
| "owner_at tt (CLoop t h) = t"
| "owner_at tt (CGot t h ptr) = t"
| "owner_at tt (CPublish t) = t"

definition unwritten_claims :: "(nat \<Rightarrow> producer) \<Rightarrow> nat set" where
  "unwritten_claims f = {i. \<exists>t ptr. f t = PClaimed ptr i}"

text \<open>The slots, for head \<open>hh\<close>, progress \<open>p\<close>, claimed pointers \<open>cs\<close> and unwritten claims \<open>W\<close>.\<close>

definition slots_ok :: "nat \<Rightarrow> nat \<Rightarrow> addr list \<Rightarrow> addr list \<Rightarrow> nat set \<Rightarrow> bool" where
  "slots_ok hh p cs slots W \<longleftrightarrow> length slots = 1024
     \<and> (\<forall>i. p \<le> i \<and> i < hh \<longrightarrow> cs ! i \<noteq> 0 \<and> slots ! (i mod 1024) = (if i \<in> W then 0 else cs ! i))
     \<and> (\<forall>i. hh \<le> i \<and> i < p + 1024 \<longrightarrow> slots ! (i mod 1024) = 0)"

fun producer_ok :: "nat \<Rightarrow> nat \<Rightarrow> nat \<Rightarrow> addr list \<Rightarrow> producer \<Rightarrow> bool" where
  "producer_ok hh tt p cs PIdle \<longleftrightarrow> True"
| "producer_ok hh tt p cs (PLoop ptr h) \<longleftrightarrow> ptr \<noteq> 0 \<and> h \<le> hh"
| "producer_ok hh tt p cs (PCas ptr h) \<longleftrightarrow> ptr \<noteq> 0 \<and> h \<le> hh \<and> h < tt + 1024"
| "producer_ok hh tt p cs (PClaimed ptr h) \<longleftrightarrow> ptr \<noteq> 0 \<and> p \<le> h \<and> h < hh \<and> cs ! h = ptr"

fun owner_ok :: "nat \<Rightarrow> nat \<Rightarrow> addr list \<Rightarrow> nat set \<Rightarrow> consumer \<Rightarrow> bool" where
  "owner_ok hh tt cs W CIdle \<longleftrightarrow> True"
| "owner_ok hh tt cs W (CTail t) \<longleftrightarrow> t = tt"
| "owner_ok hh tt cs W (CLoop t h) \<longleftrightarrow> t \<le> h \<and> h \<le> hh"
| "owner_ok hh tt cs W (CGot t h ptr) \<longleftrightarrow> t < h \<and> h \<le> hh \<and> ptr = cs ! t \<and> t \<notin> W"
| "owner_ok hh tt cs W (CPublish t) \<longleftrightarrow> True"

definition queue_ok :: "nat \<Rightarrow> nat \<Rightarrow> addr list \<Rightarrow> (nat \<Rightarrow> producer) \<Rightarrow> consumer \<Rightarrow> addr list \<Rightarrow> addr list \<Rightarrow> bool" where
  "queue_ok hh tt slots f c cs dr \<longleftrightarrow> hh = length cs \<and> tt \<le> owner_at tt c \<and> owner_at tt c \<le> hh \<and> hh < tt + 1025
     \<and> dr = take (owner_at tt c) cs \<and> slots_ok hh (owner_at tt c) cs slots (unwritten_claims f)
     \<and> owner_ok hh tt cs (unwritten_claims f) c \<and> (\<forall>t. producer_ok hh tt (owner_at tt c) cs (f t))
     \<and> (\<forall>t u a b h. f t = PClaimed a h \<longrightarrow> f u = PClaimed b h \<longrightarrow> t = u)"

definition queue_inv :: "queue_sys \<Rightarrow> bool" where
  "queue_inv s \<longleftrightarrow>
     queue_ok (qs_head s) (qs_tail s) (qs_slots s) (producers s) (owner s) (claims s) (drained s)"

lemma queue_inv_start: "queue_inv queue_start"
  by (simp add: queue_inv_def queue_ok_def queue_start_def slots_ok_def unwritten_claims_def FREE_QUEUE_CAPACITY_def)

lemma queue_okD:
  assumes "queue_ok hh tt slots f c cs dr"
  shows "hh = length cs" "tt \<le> owner_at tt c" "owner_at tt c \<le> hh" "hh < tt + 1025" "dr = take (owner_at tt c) cs"
    "slots_ok hh (owner_at tt c) cs slots (unwritten_claims f)" "owner_ok hh tt cs (unwritten_claims f) c"
    "producer_ok hh tt (owner_at tt c) cs (f t)" "f u = PClaimed a h \<Longrightarrow> f v = PClaimed b h \<Longrightarrow> u = v"
  using assms unfolding queue_ok_def by blast+

lemma queue_okI:
  assumes "hh = length cs" and "tt \<le> owner_at tt c" and "owner_at tt c \<le> hh" and "hh < tt + 1025"
    and "dr = take (owner_at tt c) cs" and "slots_ok hh (owner_at tt c) cs slots (unwritten_claims f)"
    and "owner_ok hh tt cs (unwritten_claims f) c" and "\<And>t. producer_ok hh tt (owner_at tt c) cs (f t)"
    and "\<And>t u a b h. f t = PClaimed a h \<Longrightarrow> f u = PClaimed b h \<Longrightarrow> t = u"
  shows "queue_ok hh tt slots f c cs dr"
  unfolding queue_ok_def using assms(1-8) by (intro conjI allI impI) (auto intro: assms(9))

text \<open>Producers.\<close>

lemma unwritten_same:
  assumes "\<And>p h. f t \<noteq> PClaimed p h" and "\<And>p h. c \<noteq> PClaimed p h"
  shows "unwritten_claims (f(t := c)) = unwritten_claims f"
proof -
  have "(f(t := c)) u = PClaimed p h \<longleftrightarrow> f u = PClaimed p h" for u p h using assms by (cases "u = t") auto
  then show ?thesis by (simp add: unwritten_claims_def)
qed

lemma unwritten_insert:
  assumes "\<And>p h. f t \<noteq> PClaimed p h"
  shows "unwritten_claims (f(t := PClaimed a i)) = insert i (unwritten_claims f)"
  using assms unfolding unwritten_claims_def by (auto split: if_splits) metis

lemma unwritten_delete:
  assumes "f t = PClaimed a i" and "\<And>u b. f u = PClaimed b i \<Longrightarrow> u = t"
  shows "unwritten_claims (f(t := PIdle)) = unwritten_claims f - {i}"
proof (rule set_eqI)
  fix j
  have "(\<exists>u b. (f(t := PIdle)) u = PClaimed b j) \<longleftrightarrow> (\<exists>u b. f u = PClaimed b j) \<and> j \<noteq> i"
  proof
    assume "\<exists>u b. (f(t := PIdle)) u = PClaimed b j"
    then obtain u b where u: "u \<noteq> t" "f u = PClaimed b j" by (auto split: if_splits)
    with assms(2) [of u b] have "j \<noteq> i" by blast
    with u show "(\<exists>u b. f u = PClaimed b j) \<and> j \<noteq> i" by blast
  next
    assume "(\<exists>u b. f u = PClaimed b j) \<and> j \<noteq> i"
    then obtain u b where u: "f u = PClaimed b j" "j \<noteq> i" by blast
    with assms(1) have "u \<noteq> t" by auto
    with u have "(f(t := PIdle)) u = PClaimed b j" by simp
    then show "\<exists>u b. (f(t := PIdle)) u = PClaimed b j" by blast
  qed
  then show "j \<in> unwritten_claims (f(t := PIdle)) \<longleftrightarrow> j \<in> unwritten_claims f - {i}"
    by (simp add: unwritten_claims_def)
qed

lemma producer_local:
  assumes "queue_ok hh tt slots f c cs dr" and "\<And>p h. f t \<noteq> PClaimed p h" and "\<And>p h. x \<noteq> PClaimed p h"
    and "producer_ok hh tt (owner_at tt c) cs x"
  shows "queue_ok hh tt slots (f(t := x)) c cs dr"
proof -
  note W = unwritten_same [of f t x, OF assms(2,3)]
  note i = queue_okD [OF assms(1)]
  show ?thesis
  proof (rule queue_okI [OF i(1-5)], goal_cases)
    case (3 u)
    then show ?case using assms(4) i(8) [of u] by simp
  next
    case (4 u v a b h)
    then have "f u = PClaimed a h" "f v = PClaimed b h" using assms(3) by (auto simp del: fun_upd_apply simp: fun_upd_def split: if_splits)
    then show ?case by (rule i(9))
  qed (simp_all only: W i(6,7))
qed

lemma cas_ok_inv:
  assumes "queue_ok hh tt slots f c cs dr" and "f t = PCas ptr hh"
  shows "queue_ok (hh + 1) tt slots (f(t := PClaimed ptr hh)) c (cs @ [ptr]) dr"
proof -
  let ?p = "owner_at tt c" and ?W = "unwritten_claims f"
  note i = queue_okD [OF assms(1)]
  have x: "ptr \<noteq> 0" "hh < tt + 1024" using i(8) [of t] assms(2) by simp_all
  have W: "unwritten_claims (f(t := PClaimed ptr hh)) = insert hh ?W"
    by (rule unwritten_insert) (simp add: assms(2))
  have fresh: "f u \<noteq> PClaimed a hh" for u a using i(8) [of u] by auto
  show ?thesis
  proof (rule queue_okI)
    show "hh + 1 = length (cs @ [ptr])" "dr = take ?p (cs @ [ptr])" "?p \<le> hh + 1" "hh + 1 < tt + 1025"
      using i(1,3,5) x by simp_all
    show "slots_ok (hh + 1) ?p (cs @ [ptr]) slots (unwritten_claims (f(t := PClaimed ptr hh)))"
      using i(1,2,6) x unfolding W by (auto simp: slots_ok_def nth_append less_Suc_eq)
    show "owner_ok (hh + 1) tt (cs @ [ptr]) (unwritten_claims (f(t := PClaimed ptr hh))) c"
      using i(1,7) unfolding W by (cases c) (auto simp: nth_append)
    show "producer_ok (hh + 1) tt ?p (cs @ [ptr]) ((f(t := PClaimed ptr hh)) u)" for u
    proof (cases "u = t")
      case True
      then show ?thesis using x i(1,3) by simp
    next
      case False
      then show ?thesis using i(1) i(8) [of u] by (cases "f u") (auto simp: nth_append)
    qed
    show "u = v" if "(f(t := PClaimed ptr hh)) u = PClaimed a h" "(f(t := PClaimed ptr hh)) v = PClaimed b h" for u v a b h
      using that fresh i(9) by (auto split: if_splits)
  qed (rule i(2))
qed

lemma store_inv:
  assumes "queue_ok hh tt slots f c cs dr" and "f t = PClaimed ptr h"
  shows "queue_ok hh tt (slots[q_slot h := ptr]) (f(t := PIdle)) c cs dr"
proof -
  let ?p = "owner_at tt c" and ?W = "unwritten_claims f"
  note i = queue_okD [OF assms(1)]
  have x: "ptr \<noteq> 0" "?p \<le> h" "h < hh" "cs ! h = ptr" using i(8) [of t] assms(2) by simp_all
  have W: "unwritten_claims (f(t := PIdle)) = ?W - {h}"
    by (rule unwritten_delete [of f t ptr h]) (use i(9) assms(2) in blast)+
  have len: "length slots = 1024" using i(6) by (simp add: slots_ok_def)
  have upd: "slots[h mod 1024 := ptr] ! (j mod 1024) = (if j = h then ptr else slots ! (j mod 1024))"
    if "?p \<le> j" "j < ?p + 1024" for j
    using mod_window [of j h ?p] that x i(2,4) len by (auto simp: nth_list_update)
  have "slots_ok hh ?p cs (slots[h mod 1024 := ptr]) (?W - {h})"
    using i(2,4,6) x upd by (auto simp: slots_ok_def)
  moreover have "owner_ok hh tt cs (?W - {h}) c"
    using i(7) by (cases c) auto
  moreover have "\<forall>u. producer_ok hh tt ?p cs ((f(t := PIdle)) u)" using i(8) by simp
  moreover have "\<forall>u v a b k. (f(t := PIdle)) u = PClaimed a k \<longrightarrow> (f(t := PIdle)) v = PClaimed b k \<longrightarrow> u = v"
    using i(9) by (auto split: if_splits)
  ultimately show ?thesis
    using i(1-5) unfolding queue_ok_def W q_slot_mod by blast
qed

lemma push_step_inv:
  assumes "push_step s s'" and "queue_inv s" and "length (claims s') < 2 ^ 64"
  shows "queue_inv s'"
proof -
  note q = assms(2) [unfolded queue_inv_def]
  note d = queue_okD [OF q]
  from assms(1) show ?thesis
  proof (cases rule: push_step.cases)
    case (load_head t ptr)
    then show ?thesis using producer_local [OF q, of t "PLoop ptr (qs_head s)"] by (simp add: queue_inv_def)
  next
    case (full t ptr currentHead)
    then show ?thesis using producer_local [OF q, of t PIdle] by (simp add: queue_inv_def)
  next
    case (room t ptr h)
    have h: "ptr \<noteq> 0" "h \<le> qs_head s" using d(8) [of t] room(2) by simp_all
    have "sub64 h (qs_tail s) < 1024" using room(3) by (simp add: FREE_QUEUE_CAPACITY_def)
    moreover have "qs_head s < 2 ^ 64" using d(1) assms(3) room(1) by simp
    ultimately have "h < qs_tail s + 1024" using h(2) sub64_le [of "qs_tail s" h] by (cases "qs_tail s \<le> h") auto
    with h room show ?thesis using producer_local [OF q, of t "PCas ptr h"] by (simp add: queue_inv_def)
  next
    case (cas_ok t ptr currentHead)
    have "qs_head s + 1 < 2 ^ 64" using d(1) assms(3) cas_ok(1) by simp
    with cas_ok cas_ok_inv [OF q, of t ptr] show ?thesis by (simp add: queue_inv_def)
  next
    case (cas_retry t ptr currentHead)
    have "ptr \<noteq> 0" using d(8) [of t] cas_retry(2) by simp
    with cas_retry show ?thesis using producer_local [OF q, of t "PLoop ptr (qs_head s)"] by (simp add: queue_inv_def)
  next
    case (store t ptr currentHead)
    with store_inv [OF q] show ?thesis by (simp add: queue_inv_def)
  qed
qed

text \<open>The owner.\<close>

lemma clear_inv:
  assumes "queue_ok hh tt slots f (CGot t h ptr) cs dr"
  shows "queue_ok hh tt (slots[q_slot t := 0]) f (CLoop (t + 1) h) cs (dr @ [ptr])"
proof -
  let ?W = "unwritten_claims f"
  note i = queue_okD [OF assms(1), simplified]
  have near: "j mod 1024 = t mod 1024 \<longleftrightarrow> j = t" if "t \<le> j" "j < t + 1024" for j
    using mod_window [of j t t] that by auto
  have later: "slots[t mod 1024 := 0] ! (j mod 1024) = slots ! (j mod 1024)" if "t < j" "j < t + 1024" for j
    using near [of j] that by simp
  have zero: "slots[t mod 1024 := 0] ! (j mod 1024) = 0" if "hh \<le> j" "j < Suc t + 1024" for j
  proof (cases "j = t + 1024")
    case True
    then show ?thesis using i(6) by (simp add: slots_ok_def)
  next
    case False
    then have "slots ! (j mod 1024) = 0" using that i(6) by (simp add: slots_ok_def)
    with later [of j] that False i(7) show ?thesis by simp
  qed
  have "slots_ok hh (Suc t) cs (slots[t mod 1024 := 0]) ?W"
    using i(2,4,6) later zero by (auto simp: slots_ok_def)
  moreover have "producer_ok hh tt (Suc t) cs (f u)" for u
  proof (cases "f u")
    case (PClaimed a k)
    then have "k \<in> ?W" by (auto simp: unwritten_claims_def)
    with i(7) have "k \<noteq> t" by auto
    with i(8) [of u] PClaimed show ?thesis by simp
  qed (use i(8) [of u] in simp_all)
  moreover have "dr @ [ptr] = take (Suc t) cs" using i(1,5,7) by (simp add: take_Suc_conv_app_nth)
  ultimately show ?thesis
    using i(1-4,7,9) unfolding queue_ok_def q_slot_mod by auto
qed

lemma drain_step_inv:
  assumes "drain_step s s'" and "queue_inv s"
  shows "queue_inv s'"
proof -
  note q = assms(2) [unfolded queue_inv_def]
  note d = queue_okD [OF q]
  from assms(1) show ?thesis
  proof (cases rule: drain_step.cases)
    case (read currentTail currentHead ptr)
    have "slots_ok (qs_head s) currentTail (claims s) (qs_slots s) (unwritten_claims (producers s))"
      "currentHead \<le> qs_head s" using d(6,7) read(2) by simp_all
    then have "currentTail \<notin> unwritten_claims (producers s) \<and> claims s ! currentTail = ptr"
      using read(3-5) by (auto simp: slots_ok_def q_slot_mod split: if_splits)
    with q read show ?thesis unfolding queue_inv_def queue_ok_def by auto
  next
    case (clear currentTail currentHead ptr)
    with clear_inv q show ?thesis by (simp add: queue_inv_def)
  next
    case (publish currentTail)
    have "producer_ok (qs_head s) currentTail currentTail (claims s) (producers s t)" for t
      using d(8) [of t] d(2) publish(2) by (cases "producers s t") auto
    with q publish show ?thesis by (auto simp: queue_inv_def queue_ok_def)
  qed (use q in \<open>auto simp: queue_inv_def queue_ok_def\<close>)
qed

lemma claims_grow: "push_step s s' \<Longrightarrow> length (claims s) \<le> length (claims s')"
  by (cases rule: push_step.cases) auto

lemma drain_claims: "drain_step s s' \<Longrightarrow> claims s' = claims s"
  by (cases rule: drain_step.cases) auto

lemma queue_reach_inv: "queue_reach s \<Longrightarrow> length (claims s) < 2 ^ 64 \<Longrightarrow> queue_inv s"
proof (induction rule: queue_reach.induct)
  case start
  show ?case by (rule queue_inv_start)
next
  case (producer s s')
  then show ?case using push_step_inv claims_grow by (meson le_less_trans)
next
  case (consumer s s')
  then show ?case using drain_step_inv drain_claims by metis
qed

text \<open>
  What the finished calls of \<open>push\<close> answered: the pointers answered with true are the claimed ones
  whose slot is written.
\<close>

definition answers_inv :: "queue_sys \<Rightarrow> bool" where
  "answers_inv s \<longleftrightarrow> mset (map fst (filter snd (answers s))) =
     image_mset ((!) (claims s)) (mset_set ({..<length (claims s)} - unwritten_claims (producers s)))"

lemma claimed_below: "queue_inv s \<Longrightarrow> unwritten_claims (producers s) \<subseteq> {..<length (claims s)}"
proof
  fix i assume q: "queue_inv s" and "i \<in> unwritten_claims (producers s)"
  then obtain t ptr where "producers s t = PClaimed ptr i" by (auto simp: unwritten_claims_def)
  with queue_okD(1) [OF q [unfolded queue_inv_def]] queue_okD(8) [OF q [unfolded queue_inv_def], of t]
  show "i \<in> {..<length (claims s)}" by simp
qed

lemma answers_append:
  assumes "finite A"
  shows "A \<subseteq> {..<length cs} \<Longrightarrow> image_mset ((!) (cs @ [a])) (mset_set A) = image_mset ((!) cs) (mset_set A)"
  using assms by (auto intro!: image_mset_cong simp: nth_append)

lemma push_answers:
  assumes "push_step s s'" and "queue_inv s" and "answers_inv s" and "length (claims s') < 2 ^ 64"
  shows "answers_inv s'"
proof -
  note q = assms(2) [unfolded queue_inv_def]
  note d = queue_okD [OF q]
  from assms(1) show ?thesis
  proof (cases rule: push_step.cases)
    case (load_head t ptr)
    with assms(3) unwritten_same [of "producers s" t "PLoop ptr (qs_head s)"] show ?thesis by (simp add: answers_inv_def)
  next
    case (full t ptr h)
    with assms(3) unwritten_same [of "producers s" t PIdle] show ?thesis by (simp add: answers_inv_def)
  next
    case (room t ptr h)
    with assms(3) unwritten_same [of "producers s" t "PCas ptr h"] show ?thesis by (simp add: answers_inv_def)
  next
    case (cas_ok t ptr h)
    let ?W = "unwritten_claims (producers s)" and ?n = "length (claims s)"
    have "unwritten_claims (producers s') = insert ?n ?W"
      using cas_ok d(1) unwritten_insert [of "producers s" t ptr h] by simp
    moreover have "{..<Suc ?n} - insert ?n ?W = {..<?n} - ?W" by auto
    ultimately show ?thesis using assms(3) cas_ok(1) answers_append [of "{..<?n} - ?W" "claims s" ptr]
      by (simp add: answers_inv_def Diff_subset)
  next
    case (cas_retry t ptr h)
    with assms(3) unwritten_same [of "producers s" t "PLoop ptr (qs_head s)"] show ?thesis by (simp add: answers_inv_def)
  next
    case (store t ptr h)
    let ?W = "unwritten_claims (producers s)" and ?n = "length (claims s)"
    have h: "h < ?n" "claims s ! h = ptr" using d(8) [of t] d(1) store(2) by simp_all
    have "producers s' = (producers s)(t := PIdle)" using store(1) by simp
    then have W: "unwritten_claims (producers s') = ?W - {h}"
      using unwritten_delete [of "producers s" t, OF store(2) d(9) [OF _ store(2)]] by (simp only:)
    have "h \<in> ?W" using store(2) by (auto simp: unwritten_claims_def)
    then have "{..<?n} - (?W - {h}) = insert h ({..<?n} - ?W)" "h \<notin> {..<?n} - ?W" using h(1) by auto
    with assms(3) store(1) h(2) W show ?thesis by (simp add: answers_inv_def)
  qed
qed

lemma drain_answers: "drain_step s s' \<Longrightarrow> answers_inv s \<Longrightarrow> answers_inv s'"
  by (cases rule: drain_step.cases) (auto simp: answers_inv_def)

lemma queue_reach_answers: "queue_reach s \<Longrightarrow> length (claims s) < 2 ^ 64 \<Longrightarrow> answers_inv s"
proof (induction rule: queue_reach.induct)
  case start
  show ?case by (simp add: answers_inv_def queue_start_def)
next
  case (producer s s')
  then have "length (claims s) < 2 ^ 64" using claims_grow by (meson le_less_trans)
  with producer show ?case using push_answers queue_reach_inv by blast
next
  case (consumer s s')
  then show ?case using drain_answers [of s s'] drain_claims [of s s'] by simp
qed

text \<open>The owner alone: its steps are determined, and they finish.\<close>

definition drain_next :: "queue_sys \<Rightarrow> queue_sys" where
  "drain_next s = (case owner s of
     CIdle \<Rightarrow> s\<lparr>owner := CTail (qs_tail s)\<rparr>
   | CTail t \<Rightarrow> s\<lparr>owner := CLoop t (qs_head s)\<rparr>
   | CLoop t h \<Rightarrow>
       (if t < h \<and> qs_slots s ! q_slot t \<noteq> 0 then s\<lparr>owner := CGot t h (qs_slots s ! q_slot t)\<rparr>
        else s\<lparr>owner := CPublish t\<rparr>)
   | CGot t h ptr \<Rightarrow> s\<lparr>qs_slots := (qs_slots s)[q_slot t := 0], drained := drained s @ [ptr], owner := CLoop (t + 1) h\<rparr>
   | CPublish t \<Rightarrow> s\<lparr>qs_tail := t, owner := CIdle\<rparr>)"

lemma drain_step_next: "drain_step s s' \<Longrightarrow> s' = drain_next s"
  by (cases rule: drain_step.cases, assumption) (simp_all add: drain_next_def)

lemma drain_step_det: "drain_step s a \<Longrightarrow> drain_step s b \<Longrightarrow> a = b"
  using drain_step_next [of s a] drain_step_next [of s b] by simp

lemma drain_steps_det: "(drain_step ^^ n) s a \<Longrightarrow> (drain_step ^^ n) s b \<Longrightarrow> a = b"
proof (induction n arbitrary: a b)
  case (Suc n)
  then show ?case using drain_step_det by (metis relpowp_Suc_E)
qed simp

lemma drain_steps_inv: "(drain_step ^^ n) s s' \<Longrightarrow> queue_inv s \<Longrightarrow> queue_inv s'"
proof (induction n arbitrary: s')
  case (Suc n)
  then show ?case using drain_step_inv by (metis relpowp_Suc_E)
qed simp

lemma drain_steps_same: "(drain_step ^^ n) s s' \<Longrightarrow> claims s' = claims s \<and> producers s' = producers s \<and> qs_head s' = qs_head s
    \<and> answers s' = answers s"
proof (induction n arbitrary: s')
  case (Suc n)
  then obtain u where "(drain_step ^^ n) s u" "drain_step u s'" by (metis relpowp_Suc_E)
  then show ?case using Suc.IH by (fastforce elim: drain_step.cases)
qed simp

lemma drain_loop_runs:
  assumes "queue_inv s" and "owner s = CLoop t h" and "unwritten_claims (producers s) = {}" and "h = qs_head s"
  shows "\<exists>n s'. (drain_step ^^ n) s s' \<and> owner s' = CLoop h h"
  using assms
proof (induction "h - t" arbitrary: s t)
  case 0
  then have "t = h" using queue_okD(7) [OF "0.prems"(1) [unfolded queue_inv_def]] by simp
  with "0.prems"(2) have "(drain_step ^^ 0) s s \<and> owner s = CLoop h h" by simp
  then show ?case by blast
next
  case (Suc k)
  then have lt: "t < h" by simp
  note d = queue_okD [OF Suc.prems(1) [unfolded queue_inv_def]]
  have nz: "qs_slots s ! q_slot t \<noteq> 0"
    using d(6) lt Suc.prems(2,3,4) by (simp add: slots_ok_def q_slot_mod)
  define a where "a = s\<lparr>owner := CGot t h (qs_slots s ! q_slot t)\<rparr>"
  define b where "b = a\<lparr>qs_slots := (qs_slots a)[q_slot t := 0], drained := drained a @ [qs_slots s ! q_slot t],
    owner := CLoop (t + 1) h\<rparr>"
  have sa: "drain_step s a" unfolding a_def by (rule drain_step.read [OF Suc.prems(2) lt refl nz])
  have ab: "drain_step a b" unfolding b_def by (rule drain_step.clear) (simp add: a_def)
  have "queue_inv b" using Suc.prems(1) sa ab drain_step_inv by blast
  moreover have "owner b = CLoop (t + 1) h" "producers b = producers s" "qs_head b = qs_head s" "k = h - (t + 1)"
    using Suc.hyps(2) by (simp_all add: a_def b_def)
  ultimately obtain n s' where "(drain_step ^^ n) b s'" "owner s' = CLoop h h"
    using Suc.hyps(1) Suc.prems(3,4) by metis
  then have "(drain_step ^^ Suc (Suc n)) s s' \<and> owner s' = CLoop h h"
    using sa ab by (meson relpowp_Suc_I2)
  then show ?case by blast
qed

lemma drain_all:
  assumes "queue_reach s" and "length (claims s) < 2 ^ 64" and "owner s = CIdle" and "unwritten_claims (producers s) = {}"
  shows "\<exists>n s'. (drain_step ^^ n) s s' \<and> owner s' = CIdle \<and> drained s' = claims s \<and> qs_tail s' = qs_head s"
proof -
  note q = queue_reach_inv [OF assms(1,2)]
  define a where "a = s\<lparr>owner := CTail (qs_tail s)\<rparr>"
  define b where "b = a\<lparr>owner := CLoop (qs_tail s) (qs_head s)\<rparr>"
  have sa: "drain_step s a" unfolding a_def by (rule drain_step.load_tail [OF assms(3)])
  have ab: "drain_step a b" using drain_step.load_head [of a "qs_tail s"] by (simp add: a_def b_def)
  have "queue_inv b" using q sa ab drain_step_inv by blast
  moreover have b: "owner b = CLoop (qs_tail s) (qs_head s)" "producers b = producers s" "qs_head b = qs_head s"
    by (simp_all add: a_def b_def)
  ultimately obtain n c where c: "(drain_step ^^ n) b c" "owner c = CLoop (qs_head s) (qs_head s)"
    using drain_loop_runs assms(4) by metis
  define d where "d = c\<lparr>owner := CPublish (qs_head s)\<rparr>"
  define e where "e = d\<lparr>qs_tail := qs_head s, owner := CIdle\<rparr>"
  have cd: "drain_step c d" unfolding d_def by (rule drain_step.finished [OF c(2)]) simp
  have de: "drain_step d e" unfolding e_def by (rule drain_step.publish) (simp add: d_def)
  have sb: "(drain_step ^^ 2) s b" using sa ab by (auto simp: numeral_2_eq_2)
  have run: "(drain_step ^^ Suc (Suc (2 + n))) s e"
    using relpowp_trans [OF sb c(1)] cd de by auto
  then have "queue_inv e" "claims e = claims s" "qs_head e = qs_head s"
    using q drain_steps_inv drain_steps_same by blast+
  then have "drained e = claims s"
    using queue_okD(1,5) [of "qs_head e" "qs_tail e" "qs_slots e" "producers e" "owner e"]
    by (fastforce simp: queue_inv_def e_def)
  with run show ?thesis by (intro exI [of _ "Suc (Suc (2 + n))"] exI [of _ e]) (simp add: e_def)
qed

lemma drain_steps_reach: "(drain_step ^^ n) s s' \<Longrightarrow> queue_reach s \<Longrightarrow> queue_reach s'"
proof (induction n arbitrary: s')
  case (Suc n)
  then show ?case using queue_reach.consumer by (metis relpowp_Suc_E)
qed simp

text \<open>A \<open>push\<close> that runs alone.\<close>

lemma push_alone:
  assumes "queue_reach s" and "producers s t = PIdle" and "ptr \<noteq> 0" and "sub64 (qs_head s) (qs_tail s) < 1024"
  shows "queue_reach (s\<lparr>qs_head := (qs_head s + 1) mod 2 ^ 64, claims := claims s @ [ptr],
    qs_slots := (qs_slots s)[q_slot (qs_head s) := ptr], answers := answers s @ [(ptr, True)]\<rparr>)"
proof -
  let ?h = "qs_head s"
  define a where "a = s\<lparr>producers := (producers s)(t := PLoop ptr ?h)\<rparr>"
  define b where "b = a\<lparr>producers := (producers a)(t := PCas ptr ?h)\<rparr>"
  define c where "c = b\<lparr>qs_head := (?h + 1) mod 2 ^ 64, producers := (producers b)(t := PClaimed ptr ?h), claims := claims b @ [ptr]\<rparr>"
  have "push_step s a" unfolding a_def by (rule push_step.load_head [of s t ptr, OF assms(2,3)])
  moreover have "push_step a b" unfolding b_def
    by (rule push_step.room) (use assms(4) in \<open>simp_all add: a_def FREE_QUEUE_CAPACITY_def\<close>)
  moreover have "push_step b c" unfolding c_def by (rule push_step.cas_ok) (simp_all add: a_def b_def)
  ultimately have "queue_reach c" using assms(1) queue_reach.producer by blast
  moreover have "push_step c (c\<lparr>qs_slots := (qs_slots c)[q_slot ?h := ptr], producers := (producers c)(t := PIdle),
      answers := answers c @ [(ptr, True)]\<rparr>)" by (rule push_step.store) (simp add: c_def)
  ultimately have "queue_reach (c\<lparr>qs_slots := (qs_slots c)[q_slot ?h := ptr], producers := (producers c)(t := PIdle),
      answers := answers c @ [(ptr, True)]\<rparr>)" by (rule queue_reach.producer)
  moreover have "(producers s)(t := PIdle) = producers s" using assms(2) by auto
  ultimately show ?thesis
    by (simp add: a_def b_def c_def)
qed

definition one_pushed :: queue_sys where
  "one_pushed = queue_start\<lparr>qs_head := 1, qs_slots := (qs_slots queue_start)[0 := 16], claims := [16], answers := [(16, True)]\<rparr>"

lemma one_pushed: "queue_reach one_pushed" "unwritten_claims (producers one_pushed) = {}"
  using push_alone [OF queue_reach.start, of 1 16]
  by (simp_all add: one_pushed_def queue_start_def unwritten_claims_def q_slot_mod sub64_def)

section \<open>Properties\<close>

text \<open>C8: whatever the interleaving of any number of pushing threads with the draining owner, as long as fewer
  than \<open>2 ^ 64\<close> objects have been pushed: the owner gets the pointers in the order in which the pushing
  threads claimed their slots, each once; at most 1024 are under way; and when no thread is between its claim
  and its store, the pointers whose \<open>push\<close> answered true are the ones delivered and the ones still in the queue,
  with multiplicity.\<close>

theorem queue_fifo:
  assumes "queue_reach s" and "length (claims s) < 2 ^ 64"
  shows "claims s = drained s @ drop (length (drained s)) (claims s)
    \<and> length (claims s) < length (drained s) + 1025
    \<and> (unwritten_claims (producers s) = {} \<longrightarrow> mset (map fst (filter snd (answers s))) =
        mset (drained s) + mset (drop (length (drained s)) (claims s)))"
proof (intro conjI impI)
  note d = queue_okD [OF queue_reach_inv [OF assms, unfolded queue_inv_def]]
  have len: "length (drained s) = owner_at (qs_tail s) (owner s)" using d(1,3,5) by simp
  show eq: "claims s = drained s @ drop (length (drained s)) (claims s)" using len d(5) by simp
  show "length (claims s) < length (drained s) + 1025" using len d(1,2,4) by linarith
  assume "unwritten_claims (producers s) = {}"
  moreover have "image_mset ((!) (claims s)) (mset_set {..<length (claims s)}) = mset (claims s)"
    by (metis atLeast0LessThan map_nth mset_map mset_upt)
  ultimately have "mset (map fst (filter snd (answers s))) = mset (claims s)"
    using queue_reach_answers [OF assms] by (simp add: answers_inv_def)
  then show "mset (map fst (filter snd (answers s))) =
      mset (drained s) + mset (drop (length (drained s)) (claims s))"
    by (metis eq mset_append)
qed

theorem queue_fifo_witness:
  "\<exists>s. queue_reach s \<and> answers s = [(16, True)] \<and> drained s = []
     \<and> mset (map fst (filter snd (answers s))) = mset (drained s) + mset (drop (length (drained s)) (claims s))"
proof -
  note w = queue_fifo [OF one_pushed(1)]
  have "length (claims one_pushed) < 2 ^ 64" by (simp add: one_pushed_def)
  from w [OF this] one_pushed(2) have "mset (map fst (filter snd (answers one_pushed))) =
      mset (drained one_pushed) + mset (drop (length (drained one_pushed)) (claims one_pushed))" by blast
  with one_pushed(1) show ?thesis by (intro exI [of _ one_pushed]) (simp add: one_pushed_def queue_start_def)
qed

text \<open>C17: A drain always ends and empties the queue: from every reachable state in which the owner is about to
  call \<open>drain\<close> and no thread is between its claim and its store, the owner's own steps lead, after a number
  of them, to the end of the call, with every claimed pointer delivered and the tail at the head; and they can
  lead nowhere else.\<close>

theorem queue_drained:
  assumes "queue_reach s" and "length (claims s) < 2 ^ 64" and "owner s = CIdle" and "unwritten_claims (producers s) = {}"
  shows "\<exists>n. (\<exists>s'. (drain_step ^^ n) s s') \<and> (\<forall>s'. (drain_step ^^ n) s s' \<longrightarrow>
    owner s' = CIdle \<and> drained s' = claims s \<and> qs_tail s' = qs_head s)"
  using drain_all [OF assms] drain_steps_det by metis

theorem queue_drained_witness:
  "\<exists>n s s'. queue_reach s \<and> claims s = [16] \<and> drained s = [] \<and> (drain_step ^^ n) s s' \<and> drained s' = [16]"
proof -
  have s: "length (claims one_pushed) < 2 ^ 64" "owner one_pushed = CIdle" "claims one_pushed = [16]" "drained one_pushed = []"
    by (simp_all add: one_pushed_def queue_start_def)
  obtain n s' where "(drain_step ^^ n) one_pushed s'" "drained s' = claims one_pushed"
    using queue_drained [OF one_pushed(1) s(1,2) one_pushed(2)] by blast
  then show ?thesis using one_pushed(1) s(3,4) by metis
qed

text \<open>\<open>push\<close> can answer that the queue is full although it is empty: it compares a head it loaded earlier
  with a newer tail, and when the tail has passed that head the unsigned difference wraps around.  Here a
  thread loads the head, another pushes 16, the owner drains it, and then the first thread is told that
  there is no room for 8.\<close>

theorem queue_spurious_full:
  "\<exists>s. queue_reach s \<and> answers s = [(16, True), (8, False)] \<and> claims s = [16] \<and> drained s = [16]
     \<and> qs_tail s = qs_head s \<and> owner s = CIdle \<and> producers s = (\<lambda>_. PIdle)"
proof -
  define a where "a = queue_start\<lparr>producers := (\<lambda>_. PIdle)(0 := PLoop 8 0)\<rparr>"
  have "push_step queue_start a"
    using push_step.load_head [of queue_start 0 8] by (simp add: a_def queue_start_def)
  then have "queue_reach a" using queue_reach.start queue_reach.producer by blast
  define b where "b = a\<lparr>qs_head := 1, qs_slots := (qs_slots a)[0 := 16], claims := [16], answers := [(16, True)]\<rparr>"
  have b: "queue_reach b"
    using push_alone [OF \<open>queue_reach a\<close>, of 1 16] by (simp add: a_def b_def queue_start_def q_slot_mod sub64_def)
  have f: "producers b = (\<lambda>_. PIdle)(0 := PLoop 8 0)" "owner b = CIdle" "qs_head b = 1" "claims b = [16]" "answers b = [(16, True)]"
    by (simp_all add: a_def b_def queue_start_def)
  have W: "unwritten_claims (producers b) = {}" by (auto simp: f unwritten_claims_def split: if_splits)
  obtain n c where c: "(drain_step ^^ n) b c" "owner c = CIdle" "drained c = [16]" "qs_tail c = 1"
    using drain_all [OF b _ f(2) W] f by auto
  note c' = drain_steps_same [OF c(1), unfolded f] drain_steps_reach [OF c(1) b]
  define d where "d = c\<lparr>producers := (producers c)(0 := PIdle), answers := answers c @ [(8, False)]\<rparr>"
  have "push_step c d" unfolding d_def
    by (rule push_step.full [of c 0 8 0]) (use c c' in \<open>simp_all add: sub64_def FREE_QUEUE_CAPACITY_def\<close>)
  then have "queue_reach d" using c' queue_reach.producer by blast
  moreover have "(\<lambda>_. PIdle)(0 := PLoop 8 0, 0 := PIdle) = (\<lambda>_. PIdle)" by auto
  ultimately show ?thesis using c c' by (intro exI [of _ d]) (simp add: d_def)
qed

end
