(* ===== verification/HeapRegistry.thy ===== *)
theory HeapRegistry
  imports FreeQueue
begin

text \<open>
  The registry of per-thread heaps (\<open>src/include/heapregistry.h\<close>), run by one thread at a time.  A
  \<open>GetSizeFunc\<close> is an address (0 is null); \<open>call f heap ptr\<close> is what the function at \<open>f\<close> returns in
  the present state of the program.
\<close>

record registry_entry =
  e_heap :: addr
  e_getSizeFunc :: addr
  e_registered :: bool

record heap_registry =
  r_entries :: "registry_entry list"
  r_maxThreadId :: nat

definition HeapRegistry :: heap_registry where
  "HeapRegistry = \<lparr>r_entries = replicate MAX_THREADS \<lparr>e_heap = 0, e_getSizeFunc = 0, e_registered = False\<rparr>,
     r_maxThreadId = 0\<rparr>"

text \<open>
  The loop that raises \<open>_maxThreadId\<close>: a compare-and-swap that succeeds leaves \<open>oldMax\<close> alone, one
  that fails loads it anew; the loop ends when the loaded value is large enough.
\<close>

function raise_max :: "nat \<Rightarrow> nat \<Rightarrow> nat \<Rightarrow> nat" where
  "raise_max target oldMax current =
     (if oldMax < target
      then if current = oldMax then raise_max target oldMax target else raise_max target current current
      else current)"
  by auto
termination
  by (relation "measure (\<lambda>(target, old, cur). if target \<le> old then 0 else if cur = old then 2 else
    if target \<le> cur then 1 else (3::nat))") auto

declare raise_max.simps [simp del]

definition registerHeap :: "addr \<Rightarrow> nat \<Rightarrow> addr \<Rightarrow> heap_registry \<Rightarrow> heap_registry" where
  "registerHeap heap threadId getSizeFunc r =
     (if threadId \<ge> MAX_THREADS then r
      else let e = \<lparr>e_heap = heap, e_getSizeFunc = getSizeFunc, e_registered = True\<rparr>;
               oldMax = r_maxThreadId r
           in r\<lparr>r_entries := (r_entries r)[threadId := e],
                r_maxThreadId := raise_max (threadId + 1) oldMax (r_maxThreadId r)\<rparr>)"

fun findOwner_from :: "(addr \<Rightarrow> addr \<Rightarrow> addr \<Rightarrow> nat) \<Rightarrow> addr \<Rightarrow> nat \<Rightarrow> registry_entry list \<Rightarrow> nat list \<Rightarrow> nat" where
  "findOwner_from call ptr excludeThreadId entries [] = INVALID_THREAD_ID"
| "findOwner_from call ptr excludeThreadId entries (i # is) =
     (if i = excludeThreadId then findOwner_from call ptr excludeThreadId entries is
      else let entry = entries ! i
           in if \<not> e_registered entry then findOwner_from call ptr excludeThreadId entries is
              else if e_getSizeFunc entry = 0 \<or> e_heap entry = 0
                   then findOwner_from call ptr excludeThreadId entries is
                   else if call (e_getSizeFunc entry) (e_heap entry) ptr > 0 then i
                        else findOwner_from call ptr excludeThreadId entries is)"

definition findOwner :: "(addr \<Rightarrow> addr \<Rightarrow> addr \<Rightarrow> nat) \<Rightarrow> addr \<Rightarrow> nat \<Rightarrow> heap_registry \<Rightarrow> nat" where
  "findOwner call ptr excludeThreadId r =
     findOwner_from call ptr excludeThreadId (r_entries r) [0..<r_maxThreadId r]"

definition isOwnedBy :: "(addr \<Rightarrow> addr \<Rightarrow> addr \<Rightarrow> nat) \<Rightarrow> addr \<Rightarrow> nat \<Rightarrow> heap_registry \<Rightarrow> bool" where
  "isOwnedBy call ptr threadId r =
     (if threadId \<ge> MAX_THREADS then False
      else let entry = r_entries r ! threadId
           in if \<not> e_registered entry then False
              else call (e_getSizeFunc entry) (e_heap entry) ptr > 0)"

fun anySize_from :: "(addr \<Rightarrow> addr \<Rightarrow> addr \<Rightarrow> nat) \<Rightarrow> addr \<Rightarrow> nat \<Rightarrow> registry_entry list \<Rightarrow> nat list \<Rightarrow> nat" where
  "anySize_from call ptr excludeThreadId entries [] = 0"
| "anySize_from call ptr excludeThreadId entries (i # is) =
     (if i = excludeThreadId then anySize_from call ptr excludeThreadId entries is
      else let entry = entries ! i
           in if \<not> e_registered entry then anySize_from call ptr excludeThreadId entries is
              else let sz = call (e_getSizeFunc entry) (e_heap entry) ptr
                   in if sz > 0 then sz else anySize_from call ptr excludeThreadId entries is)"

definition getSizeFromAnyHeap :: "(addr \<Rightarrow> addr \<Rightarrow> addr \<Rightarrow> nat) \<Rightarrow> addr \<Rightarrow> nat \<Rightarrow> heap_registry \<Rightarrow> nat" where
  "getSizeFromAnyHeap call ptr excludeThreadId r =
     anySize_from call ptr excludeThreadId (r_entries r) [0..<r_maxThreadId r]"

section \<open>What the registry holds\<close>

text \<open>The registered heaps, and their functions, by thread id.\<close>

definition registered_at :: "heap_registry \<Rightarrow> nat \<Rightarrow> (addr \<times> addr) option" where
  "registered_at r i = (if i < r_maxThreadId r \<and> e_registered (r_entries r ! i)
     then Some (e_heap (r_entries r ! i), e_getSizeFunc (r_entries r ! i)) else None)"

definition registry_inv :: "heap_registry \<Rightarrow> bool" where
  "registry_inv r \<longleftrightarrow> length (r_entries r) = MAX_THREADS \<and> r_maxThreadId r \<le> MAX_THREADS
     \<and> (\<forall>i < MAX_THREADS. e_registered (r_entries r ! i) \<longrightarrow>
          i < r_maxThreadId r \<and> e_heap (r_entries r ! i) \<noteq> 0 \<and> e_getSizeFunc (r_entries r ! i) \<noteq> 0)"

lemma raise_max_eq: "raise_max target old old = max target old"
  by (subst raise_max.simps, subst raise_max.simps, subst raise_max.simps, simp add: raise_max.simps)

lemma HeapRegistry_inv: "registry_inv HeapRegistry \<and> registered_at HeapRegistry = (\<lambda>_. None)"
  by (auto simp: registry_inv_def HeapRegistry_def registered_at_def)

lemma registerHeap_spec:
  assumes "registry_inv r" and "heap \<noteq> 0" and "f \<noteq> 0"
  shows "registry_inv (registerHeap heap i f r)
    \<and> registered_at (registerHeap heap i f r) = (if i < MAX_THREADS then (registered_at r)(i \<mapsto> (heap, f)) else registered_at r)"
proof (cases "i < MAX_THREADS")
  case True
  define r' where "r' = registerHeap heap i f r"
  have r': "r' = r\<lparr>r_entries := (r_entries r)[i := \<lparr>e_heap = heap, e_getSizeFunc = f, e_registered = True\<rparr>],
      r_maxThreadId := max (i + 1) (r_maxThreadId r)\<rparr>"
    using True by (simp add: r'_def registerHeap_def raise_max_eq Let_def)
  have "registered_at r' j = ((registered_at r)(i \<mapsto> (heap, f))) j" for j
    using True assms(1) by (cases "j < MAX_THREADS") (auto simp: registered_at_def r' registry_inv_def nth_list_update)
  moreover have "registry_inv r'"
    using True assms by (auto simp: r' registry_inv_def nth_list_update)
  ultimately show ?thesis using True by (auto simp: r'_def)
qed (use assms in \<open>simp add: registerHeap_def\<close>)

lemma findOwner_from_miss:
  "\<forall>j \<in> set is. j = ex \<or> \<not> e_registered (es ! j) \<or> call (e_getSizeFunc (es ! j)) (e_heap (es ! j)) ptr = 0
   \<Longrightarrow> findOwner_from call ptr ex es is = INVALID_THREAD_ID"
  by (induction "is") (auto simp: Let_def)

lemma findOwner_from_hit:
  assumes "\<forall>j \<in> set is. j \<noteq> i \<longrightarrow> j = ex \<or> \<not> e_registered (es ! j) \<or> call (e_getSizeFunc (es ! j)) (e_heap (es ! j)) ptr = 0"
    and "i \<in> set is" and "i \<noteq> ex" and "e_registered (es ! i)" and "e_getSizeFunc (es ! i) \<noteq> 0" and "e_heap (es ! i) \<noteq> 0"
    and "call (e_getSizeFunc (es ! i)) (e_heap (es ! i)) ptr > 0"
  shows "findOwner_from call ptr ex es is = i"
  using assms by (induction "is") (auto simp: Let_def)

text \<open>
  \<open>findOwner\<close> answers the thread whose registered heap alone claims the pointer, and
  \<open>INVALID_THREAD_ID\<close> when none does.
\<close>

lemma findOwner_spec:
  assumes "registry_inv r"
  shows "(\<forall>j. j \<noteq> ex \<longrightarrow> (case registered_at r j of None \<Rightarrow> True | Some (h, f) \<Rightarrow> call f h ptr = 0)) \<Longrightarrow>
      findOwner call ptr ex r = INVALID_THREAD_ID"
    and "registered_at r i = Some (heap, f) \<Longrightarrow> i \<noteq> ex \<Longrightarrow> call f heap ptr > 0 \<Longrightarrow>
      (\<forall>j. j \<noteq> ex \<and> j \<noteq> i \<longrightarrow> (case registered_at r j of None \<Rightarrow> True | Some (h, f) \<Rightarrow> call f h ptr = 0)) \<Longrightarrow>
      findOwner call ptr ex r = i"
proof -
  show "findOwner call ptr ex r = INVALID_THREAD_ID"
    if "\<forall>j. j \<noteq> ex \<longrightarrow> (case registered_at r j of None \<Rightarrow> True | Some (h, f) \<Rightarrow> call f h ptr = 0)"
    unfolding findOwner_def
    by (rule findOwner_from_miss) (use that in \<open>auto simp: registered_at_def split: if_splits\<close>)
  show "findOwner call ptr ex r = i"
    if "registered_at r i = Some (heap, f)" "i \<noteq> ex" "call f heap ptr > 0"
      "\<forall>j. j \<noteq> ex \<and> j \<noteq> i \<longrightarrow> (case registered_at r j of None \<Rightarrow> True | Some (h, f) \<Rightarrow> call f h ptr = 0)"
    unfolding findOwner_def
  proof (rule findOwner_from_hit)
    have i: "i < r_maxThreadId r" "e_registered (r_entries r ! i)" "e_heap (r_entries r ! i) = heap"
      "e_getSizeFunc (r_entries r ! i) = f"
      using that(1) by (auto simp: registered_at_def split: if_splits)
    then show "i \<in> set [0..<r_maxThreadId r]" "e_registered (r_entries r ! i)"
      "call (e_getSizeFunc (r_entries r ! i)) (e_heap (r_entries r ! i)) ptr > 0" using that(3) by simp_all
    show "e_getSizeFunc (r_entries r ! i) \<noteq> 0" "e_heap (r_entries r ! i) \<noteq> 0"
      using assms i(1,2) by (auto simp: registry_inv_def)
    show "\<forall>j \<in> set [0..<r_maxThreadId r]. j \<noteq> i \<longrightarrow> j = ex \<or> \<not> e_registered (r_entries r ! j)
        \<or> call (e_getSizeFunc (r_entries r ! j)) (e_heap (r_entries r ! j)) ptr = 0"
      using that(4) by (auto simp: registered_at_def split: if_splits)
  qed (use that in simp)
qed

lemma anySize_from_miss:
  "\<forall>j \<in> set is. j = ex \<or> \<not> e_registered (es ! j) \<or> call (e_getSizeFunc (es ! j)) (e_heap (es ! j)) ptr = 0
   \<Longrightarrow> anySize_from call ptr ex es is = 0"
  by (induction "is") (auto simp: Let_def)

lemma anySize_from_hit:
  assumes "\<forall>j \<in> set is. j \<noteq> i \<longrightarrow> j = ex \<or> \<not> e_registered (es ! j) \<or> call (e_getSizeFunc (es ! j)) (e_heap (es ! j)) ptr = 0"
    and "i \<in> set is" and "i \<noteq> ex" and "e_registered (es ! i)"
    and "call (e_getSizeFunc (es ! i)) (e_heap (es ! i)) ptr = sz"
  shows "anySize_from call ptr ex es is = sz"
  using assms
proof (induction "is")
  case (Cons j js)
  show ?case
  proof (cases "i \<in> set js")
    case True
    then show ?thesis using Cons by (auto simp: Let_def)
  next
    case False
    then have "j = i" "\<forall>k \<in> set js. k = ex \<or> \<not> e_registered (es ! k)
        \<or> call (e_getSizeFunc (es ! k)) (e_heap (es ! k)) ptr = 0" using Cons.prems by auto
    then show ?thesis using Cons.prems(3-5) anySize_from_miss [of js ex es call ptr] by (simp add: Let_def)
  qed
qed simp

lemma getSizeFromAnyHeap_hit:
  assumes "registered_at r i = Some (heap, f)" and "i \<noteq> ex"
    and "\<forall>j. j \<noteq> ex \<and> j \<noteq> i \<longrightarrow> (case registered_at r j of None \<Rightarrow> True | Some (h, f) \<Rightarrow> call f h ptr = 0)"
  shows "getSizeFromAnyHeap call ptr ex r = call f heap ptr"
  unfolding getSizeFromAnyHeap_def
proof (rule anySize_from_hit)
  have i: "i < r_maxThreadId r" "e_registered (r_entries r ! i)" "e_heap (r_entries r ! i) = heap"
    "e_getSizeFunc (r_entries r ! i) = f"
    using assms(1) by (auto simp: registered_at_def split: if_splits)
  then show "i \<in> set [0..<r_maxThreadId r]" "e_registered (r_entries r ! i)"
    "call (e_getSizeFunc (r_entries r ! i)) (e_heap (r_entries r ! i)) ptr = call f heap ptr" by simp_all
  show "\<forall>j \<in> set [0..<r_maxThreadId r]. j \<noteq> i \<longrightarrow> j = ex \<or> \<not> e_registered (r_entries r ! j)
      \<or> call (e_getSizeFunc (r_entries r ! j)) (e_heap (r_entries r ! j)) ptr = 0"
    using assms(3) by (auto simp: registered_at_def split: if_splits)
qed (use assms in simp)

end
