(* ===== verification/RandomHeap.thy ===== *)
theory RandomHeap
  imports MiniHeap
begin

text \<open>
  \<open>RandomHeap\<close> (\<open>src/include/randomheap.h\<close>) manages the miniheaps of one object size.  The miniheaps
  are reached through virtual calls only, which are the fields of \<open>mini_ops\<close>, one per index.
  \<open>mini_activate\<close> of index \<open>i\<close> includes the answers of the operating system to the activation.

  This is the code run by one thread; theory \<open>GrowLock\<close> has the interleavings of
  \<open>getAnotherMiniHeap\<close>.  The two loops whose exit depends on the random numbers or on the growth of
  the heap are partial functions: \<open>None\<close> is a loop that runs for ever.
\<close>

section \<open>Parameters and state\<close>

record rh_params =
  Numerator :: nat
  Denominator :: nat
  rh_ObjectSize :: nat
  AllocationGrain :: nat

record 'h mini_ops =
  mini_malloc :: "mem \<Rightarrow> 'h \<Rightarrow> addr \<times> 'h \<times> report list"
  mini_free :: "addr \<Rightarrow> mem \<Rightarrow> 'h \<Rightarrow> bool \<times> 'h \<times> mem \<times> report list"
  mini_getSize :: "addr \<Rightarrow> 'h \<Rightarrow> nat"
  mini_activate :: "mem \<Rightarrow> 'h \<Rightarrow> 'h \<times> mem"

record 'h random_heap =
  rh_random :: u64
  rh_available :: nat
  rh_inUse :: nat
  rh_miniHeapsInUse :: nat
  rh_chunksInUse :: nat
  rh_cachedMiniHeap :: int
  rh_buf :: "'h list"

definition MAX_MINIHEAPS :: "rh_params \<Rightarrow> nat" where
  "MAX_MINIHEAPS P = nat (31 - int (staticlog (int (AllocationGrain P))))"

definition MIN_SIZE :: "rh_params \<Rightarrow> nat" where
  "MIN_SIZE P =
     (if AllocationGrain P > (Numerator P * rh_ObjectSize P) div Denominator P
      then AllocationGrain P else (Numerator P * rh_ObjectSize P) div Denominator P)"

definition MIN_OBJECTS :: "rh_params \<Rightarrow> nat" where
  "MIN_OBJECTS P = MIN_SIZE P div rh_ObjectSize P"

text \<open>The number of objects of the miniheap the constructor puts at an index (\<open>Initializer\<close>).\<close>

definition mini_NObjects :: "rh_params \<Rightarrow> nat \<Rightarrow> nat" where
  "mini_NObjects P index = (if index = 0 then MIN_OBJECTS P else MIN_OBJECTS P * push_bit (index - 1) 1)"

definition RandomHeap :: "rh_params \<Rightarrow> u64 \<Rightarrow> (nat \<Rightarrow> 'h) \<Rightarrow> 'h random_heap" where
  "RandomHeap P rng mini =
     \<lparr>rh_random = rng, rh_available = 0, rh_inUse = 0, rh_miniHeapsInUse = 0, rh_chunksInUse = 0,
      rh_cachedMiniHeap = - 1, rh_buf = map mini [0..<MAX_MINIHEAPS P]\<rparr>"

section \<open>Growing\<close>

definition over_threshold :: "rh_params \<Rightarrow> 'h random_heap \<Rightarrow> bool" where
  "over_threshold P h \<longleftrightarrow>
     Numerator P * rh_inUse h mod 2 ^ 64 \<ge> rh_available h * Denominator P mod 2 ^ 64"

definition getAnotherMiniHeap :: "rh_params \<Rightarrow> (nat \<Rightarrow> 'h mini_ops) \<Rightarrow> 'h random_heap \<times> mem \<Rightarrow> 'h random_heap \<times> mem" where
  "getAnotherMiniHeap P ops hm =
     (let (h, m) = hm; currentHeaps = rh_miniHeapsInUse h
      in if \<not> over_threshold P h then (h, m)
         else if currentHeaps < MAX_MINIHEAPS P
         then let newAvailable =
                    (if currentHeaps = 0 then rh_available h + MIN_OBJECTS P
                     else rh_available h + push_bit (currentHeaps - 1) 1 * MIN_OBJECTS P);
                  (mini, m) = mini_activate (ops currentHeaps) m (rh_buf h ! currentHeaps);
                  newChunks = push_bit currentHeaps 1 - 1
              in (h\<lparr>rh_buf := (rh_buf h)[currentHeaps := mini], rh_available := newAvailable,
                    rh_chunksInUse := newChunks, rh_miniHeapsInUse := currentHeaps + 1\<rparr>, m)
         else (h, m))"

partial_function (option) growHeapIfNeeded ::
    "rh_params \<Rightarrow> (nat \<Rightarrow> 'h mini_ops) \<Rightarrow> 'h random_heap \<times> mem \<Rightarrow> ('h random_heap \<times> mem) option" where
  "growHeapIfNeeded par ops hm =
     (if over_threshold par (fst hm) then growHeapIfNeeded par ops (getAnotherMiniHeap par ops hm) else Some hm)"

section \<open>Operations\<close>

definition rh_getObject :: "(nat \<Rightarrow> 'h mini_ops) \<Rightarrow> mem \<Rightarrow> 'h random_heap \<Rightarrow> addr \<times> 'h random_heap \<times> report list" where
  "rh_getObject ops m h =
     (let (rnd, rng) = rng_next (rh_random h);
          v = rnd AND rh_chunksInUse h;
          index = log2 (v + 1);
          (ptr, mini, reports) = mini_malloc (ops index) m (rh_buf h ! index)
      in (ptr, h\<lparr>rh_random := rng, rh_buf := (rh_buf h)[index := mini]\<rparr>, reports))"

partial_function (option) getObject_retry ::
    "(nat \<Rightarrow> 'h mini_ops) \<Rightarrow> mem \<Rightarrow> 'h random_heap \<Rightarrow> report list \<Rightarrow> (addr \<times> 'h random_heap \<times> report list) option" where
  "getObject_retry ops m h reports =
     (let (ptr, h, rs) = rh_getObject ops m h
      in if ptr = 0 then getObject_retry ops m h (reports @ rs) else Some (ptr, h, reports @ rs))"

definition rh_malloc :: "rh_params \<Rightarrow> (nat \<Rightarrow> 'h mini_ops) \<Rightarrow> 'h random_heap \<times> mem
    \<Rightarrow> (addr \<times> ('h random_heap \<times> mem) \<times> report list) option" where
  "rh_malloc P ops hm =
     (case (if over_threshold P (fst hm) then growHeapIfNeeded P ops hm else Some hm) of
        None \<Rightarrow> None
      | Some (h, m) \<Rightarrow>
          (case getObject_retry ops m h [] of
             None \<Rightarrow> None
           | Some (ptr, h, reports) \<Rightarrow>
               Some (ptr, (h\<lparr>rh_inUse := (rh_inUse h + 1) mod 2 ^ 64\<rparr>, m), reports)))"

definition rh_free_at :: "(nat \<Rightarrow> 'h mini_ops) \<Rightarrow> nat \<Rightarrow> addr \<Rightarrow> 'h random_heap \<times> mem
    \<Rightarrow> bool \<times> ('h random_heap \<times> mem) \<times> report list" where
  "rh_free_at ops i ptr hm =
     (let (h, m) = hm; (ok, mini, m, reports) = mini_free (ops i) ptr m (rh_buf h ! i)
      in (ok, (h\<lparr>rh_buf := (rh_buf h)[i := mini]\<rparr>, m), reports))"

text \<open>The loop \<open>for (int i = numHeaps - 1; i >= 0; i--)\<close>: the first argument is \<open>i + 1\<close>.\<close>

fun rh_free_search :: "nat \<Rightarrow> (nat \<Rightarrow> 'h mini_ops) \<Rightarrow> int \<Rightarrow> addr \<Rightarrow> 'h random_heap \<times> mem \<Rightarrow> report list
    \<Rightarrow> bool \<times> ('h random_heap \<times> mem) \<times> report list" where
  "rh_free_search 0 ops cached ptr hm reports = (False, hm, reports)"
| "rh_free_search (Suc i) ops cached ptr hm reports =
     (if int i = cached then rh_free_search i ops cached ptr hm reports
      else let (ok, (h, m), rs) = rh_free_at ops i ptr hm
           in if ok then (True, (h\<lparr>rh_cachedMiniHeap := int i, rh_inUse := sub64 (rh_inUse h) 1\<rparr>, m), reports @ rs)
              else rh_free_search i ops cached ptr (h, m) (reports @ rs))"

definition rh_free :: "(nat \<Rightarrow> 'h mini_ops) \<Rightarrow> addr \<Rightarrow> 'h random_heap \<times> mem
    \<Rightarrow> bool \<times> ('h random_heap \<times> mem) \<times> report list" where
  "rh_free ops ptr hm =
     (let cached = rh_cachedMiniHeap (fst hm);
          numHeaps = rh_miniHeapsInUse (fst hm)
      in if 0 \<le> cached \<and> cached < int numHeaps
         then let (ok, (h, m), rs) = rh_free_at ops (nat cached) ptr hm
              in if ok then (True, (h\<lparr>rh_inUse := sub64 (rh_inUse h) 1\<rparr>, m), rs)
                 else rh_free_search numHeaps ops cached ptr (h, m) rs
         else rh_free_search numHeaps ops cached ptr hm [])"

fun rh_size_search :: "nat \<Rightarrow> (nat \<Rightarrow> 'h mini_ops) \<Rightarrow> addr \<Rightarrow> 'h random_heap \<Rightarrow> nat" where
  "rh_size_search 0 ops ptr h = 0"
| "rh_size_search (Suc i) ops ptr h =
     (let sz = mini_getSize (ops i) ptr (rh_buf h ! i)
      in if sz \<noteq> 0 then sz else rh_size_search i ops ptr h)"

definition rh_getSize :: "(nat \<Rightarrow> 'h mini_ops) \<Rightarrow> addr \<Rightarrow> 'h random_heap \<Rightarrow> nat" where
  "rh_getSize ops ptr h = rh_size_search (rh_miniHeapsInUse h) ops ptr h"

text \<open>The \<open>k\<close>-th call of \<open>getObject\<close> by one \<open>malloc\<close>, if all calls before it found a taken slot.\<close>

fun rh_attempt :: "(nat \<Rightarrow> 'h mini_ops) \<Rightarrow> mem \<Rightarrow> 'h random_heap \<Rightarrow> nat \<Rightarrow> addr \<times> 'h random_heap \<times> report list" where
  "rh_attempt ops m h 0 = rh_getObject ops m h"
| "rh_attempt ops m h (Suc k) = rh_getObject ops m (fst (snd (rh_attempt ops m h k)))"

lemma rh_attempt_shift: "rh_attempt ops m h (Suc k) = rh_attempt ops m (fst (snd (rh_getObject ops m h))) k"
  by (induction k) simp_all

lemma retry_returns:
  "fst (rh_attempt ops m h k) \<noteq> 0 \<Longrightarrow> \<exists>r. getObject_retry ops m h acc = Some r"
proof (induction k arbitrary: h acc)
  case 0
  then show ?case by (subst getObject_retry.simps) (auto simp: Let_def split: prod.splits)
next
  case (Suc k)
  obtain a h1 rs where g: "rh_getObject ops m h = (a, h1, rs)" by (metis surj_pair)
  then have "fst (rh_attempt ops m h1 k) \<noteq> 0" using Suc.prems unfolding rh_attempt_shift by simp
  from Suc.IH [OF this] g show ?case
    by (subst getObject_retry.simps) (auto simp: Let_def)
qed

lemma retry_attempt:
  assumes "getObject_retry ops m h acc = Some r"
  shows "\<exists>k. fst (rh_attempt ops m h k) \<noteq> 0"
proof (rule getObject_retry.raw_induct
    [where P = "\<lambda>ops m h acc r. \<exists>k. fst (rh_attempt ops m h k) \<noteq> 0", OF _ assms])
  fix f ops m h acc and r :: "addr \<times> 'h random_heap \<times> report list"
  assume IH: "\<And>ops m h acc r. f ops m h acc = Some r \<Longrightarrow> \<exists>k. fst (rh_attempt ops m h k) \<noteq> 0"
    and eq: "(let (ptr, h, rs) = rh_getObject ops m h
        in if ptr = 0 then f ops m h (acc @ rs) else Some (ptr, h, acc @ rs)) = Some r"
  obtain a h1 rs where g: "rh_getObject ops m h = (a, h1, rs)" by (metis surj_pair)
  show "\<exists>k. fst (rh_attempt ops m h k) \<noteq> 0"
  proof (cases "a = 0")
    case True
    with eq g IH obtain k where "fst (rh_attempt ops m h1 k) \<noteq> 0" by fastforce
    then have "fst (rh_attempt ops m h (Suc k)) \<noteq> 0" unfolding rh_attempt_shift g by simp
    then show ?thesis by blast
  next
    case False
    then have "fst (rh_attempt ops m h 0) \<noteq> 0" by (simp add: g)
    then show ?thesis by blast
  qed
qed

lemma retry_iff: "(\<exists>r. getObject_retry ops m h acc = Some r) \<longleftrightarrow> (\<exists>k. fst (rh_attempt ops m h k) \<noteq> 0)"
  using retry_returns retry_attempt by metis

section \<open>The choice of the miniheap\<close>

text \<open>
  With \<open>n\<close> miniheaps in use \<open>rnd & chunks\<close> is below \<open>2 ^ (n - 1)\<close>; index 0 has one of these values,
  index \<open>i > 0\<close> has \<open>2 ^ (i - 1)\<close> of them, as many as its share of the objects.
\<close>

definition rh_index :: "nat \<Rightarrow> nat \<Rightarrow> nat" where
  "rh_index chunks rnd = log2 ((rnd AND chunks) + 1)"

lemma rh_index_less:
  assumes "0 < n" shows "rh_index (2 ^ (n - 1) - 1) rnd < n"
proof -
  have "rnd AND (2 ^ (n - 1) - 1) < 2 ^ (n - 1)" by (simp add: and_pred_pow2)
  then have "log2 ((rnd AND (2 ^ (n - 1) - 1)) + 1) \<le> n - 1" by (simp add: log2_le_iff Suc_le_eq)
  with assms show ?thesis by (simp add: rh_index_def)
qed

lemma log2_eq_iff: "0 < i \<Longrightarrow> log2 (v + 1) = i \<longleftrightarrow> 2 ^ (i - 1) \<le> v \<and> v < 2 ^ i"
  using log2_le_iff [of "v + 1" i] log2_le_iff [of "v + 1" "i - 1"] by auto

lemma index_values:
  assumes "i < n"
  shows "card {v. v < 2 ^ (n - 1) \<and> log2 (v + 1) = i} = (if i = 0 then 1 else 2 ^ (i - 1))"
proof (cases "i = 0")
  case True
  have z: "log2 (v + 1) = 0 \<longleftrightarrow> v = 0" for v using log2_le_iff [of "v + 1" 0] by simp
  have "{v. v < 2 ^ (n - 1) \<and> log2 (v + 1) = i} = {0::nat}"
    unfolding True z by (rule set_eqI) (auto simp del: One_nat_def)
  with True show ?thesis by simp
next
  case False
  then have pos: "0 < i" by simp
  have "(2::nat) ^ i \<le> 2 ^ (n - 1)" using assms by (intro power_increasing) auto
  then have "{v. v < 2 ^ (n - 1) \<and> log2 (v + 1) = i} = {2 ^ (i - 1)..<2 ^ i}"
    unfolding log2_eq_iff [OF pos] atLeastLessThan_def lessThan_def atLeast_def
    by (blast intro: order_less_le_trans)
  moreover have "(2::nat) ^ i = 2 * 2 ^ (i - 1)" using False by (simp flip: power_Suc)
  ultimately show ?thesis using False by simp
qed

text \<open>Every object of the heap is picked by the same number of random choices.\<close>

definition pick_weight :: "rh_params \<Rightarrow> nat \<Rightarrow> nat \<Rightarrow> nat" where
  "pick_weight P n i = card {v. v < 2 ^ (n - 1) \<and> rh_index (2 ^ (n - 1) - 1) v = i}"

lemma pick_weight_objects:
  assumes "i < n"
  shows "pick_weight P n i * MIN_OBJECTS P = mini_NObjects P i"
proof -
  have "{v. v < 2 ^ (n - 1) \<and> rh_index (2 ^ (n - 1) - 1) v = i} = {v. v < 2 ^ (n - 1) \<and> log2 (v + 1) = i}"
    by (auto simp: rh_index_def)
  then have "pick_weight P n i = (if i = 0 then 1 else 2 ^ (i - 1))"
    unfolding pick_weight_def using index_values [OF assms] by simp
  then show ?thesis by (simp add: mini_NObjects_def push_bit_nat_mult)
qed

section \<open>What the heap relies on and promises\<close>

text \<open>
  The client's side: \<open>ready i\<close> and \<open>fresh i\<close> tell an activated and an untouched miniheap of index
  \<open>i\<close>, \<open>region i\<close> the addresses the operating system gives to it.
\<close>

definition heap_count :: "(nat \<Rightarrow> 'h \<Rightarrow> addr set) \<Rightarrow> 'h random_heap \<Rightarrow> nat" where
  "heap_count live h = (\<Sum>i < rh_miniHeapsInUse h. card (live i (rh_buf h ! i)))"

definition heap_live :: "(nat \<Rightarrow> 'h \<Rightarrow> addr set) \<Rightarrow> 'h random_heap \<Rightarrow> addr set" where
  "heap_live live h = (\<Union>i < rh_miniHeapsInUse h. live i (rh_buf h ! i))"

definition heap_owned :: "(nat \<Rightarrow> addr set) \<Rightarrow> 'h random_heap \<Rightarrow> addr set" where
  "heap_owned region h = (\<Union>i < rh_miniHeapsInUse h. region i)"

definition heap_shape :: "rh_params \<Rightarrow> (nat \<Rightarrow> 'h \<Rightarrow> bool) \<Rightarrow> (nat \<Rightarrow> 'h \<Rightarrow> bool) \<Rightarrow> 'h random_heap \<Rightarrow> bool" where
  "heap_shape P fresh ready h \<longleftrightarrow> rh_miniHeapsInUse h \<le> MAX_MINIHEAPS P \<and> length (rh_buf h) = MAX_MINIHEAPS P
     \<and> rh_available h = (if rh_miniHeapsInUse h = 0 then 0 else MIN_OBJECTS P * 2 ^ (rh_miniHeapsInUse h - 1))
     \<and> rh_chunksInUse h = 2 ^ (rh_miniHeapsInUse h - 1) - 1
     \<and> (\<forall>i < rh_miniHeapsInUse h. ready i (rh_buf h ! i))
     \<and> (\<forall>i < MAX_MINIHEAPS P. rh_miniHeapsInUse h \<le> i \<longrightarrow> fresh i (rh_buf h ! i))"

definition heap_inv :: "rh_params \<Rightarrow> (nat \<Rightarrow> 'h \<Rightarrow> bool) \<Rightarrow> (nat \<Rightarrow> 'h \<Rightarrow> bool) \<Rightarrow> (nat \<Rightarrow> 'h \<Rightarrow> addr set)
    \<Rightarrow> 'h random_heap \<Rightarrow> bool" where
  "heap_inv P fresh ready live h \<longleftrightarrow> heap_shape P fresh ready h \<and> rh_inUse h = heap_count live h"

text \<open>\<open>a\<close> lies in a live object of the miniheap of index \<open>i\<close>.\<close>

definition heap_hit :: "(nat \<Rightarrow> addr set) \<Rightarrow> (nat \<Rightarrow> 'h \<Rightarrow> addr \<Rightarrow> addr) \<Rightarrow> (nat \<Rightarrow> 'h \<Rightarrow> addr set)
    \<Rightarrow> 'h random_heap \<Rightarrow> nat \<Rightarrow> addr \<Rightarrow> bool" where
  "heap_hit region slot live h i a \<longleftrightarrow>
     i < rh_miniHeapsInUse h \<and> a \<in> region i \<and> slot i (rh_buf h ! i) a \<in> live i (rh_buf h ! i)"

definition heap_inside :: "(nat \<Rightarrow> addr set) \<Rightarrow> (nat \<Rightarrow> 'h \<Rightarrow> addr \<Rightarrow> addr) \<Rightarrow> (nat \<Rightarrow> 'h \<Rightarrow> addr set)
    \<Rightarrow> 'h random_heap \<Rightarrow> addr set" where
  "heap_inside region slot live h = {a. \<exists>i. heap_hit region slot live h i a}"

text \<open>The objects in use leave the heap with all its miniheaps below the threshold.\<close>

definition heap_room :: "rh_params \<Rightarrow> 'h random_heap \<Rightarrow> bool" where
  "heap_room P h \<longleftrightarrow>
     Numerator P * rh_inUse h < MIN_OBJECTS P * 2 ^ (MAX_MINIHEAPS P - 1) * Denominator P"

definition rh_ok :: "rh_params \<Rightarrow> bool" where
  "rh_ok P \<longleftrightarrow> 0 < MIN_OBJECTS P \<and> 0 < Denominator P \<and> Denominator P \<le> Numerator P \<and> Numerator P < 2 ^ 20
     \<and> 0 < MAX_MINIHEAPS P \<and> MIN_OBJECTS P * 2 ^ MAX_MINIHEAPS P \<le> 2 ^ 40"

locale random_heap =
  fixes P :: rh_params
    and ops :: "nat \<Rightarrow> 'h mini_ops"
    and fresh :: "nat \<Rightarrow> 'h \<Rightarrow> bool"
    and ready :: "nat \<Rightarrow> 'h \<Rightarrow> bool"
    and region :: "nat \<Rightarrow> addr set"
    and slot :: "nat \<Rightarrow> 'h \<Rightarrow> addr \<Rightarrow> addr"
    and live :: "nat \<Rightarrow> 'h \<Rightarrow> addr set"
  assumes minis: "i < MAX_MINIHEAPS P \<Longrightarrow> sized_mini_store (ready i) (\<lambda>h. region i) (slot i) (live i)
      (mini_malloc (ops i)) (mini_free (ops i)) (mini_getSize (ops i))"
    and activates: "i < MAX_MINIHEAPS P \<Longrightarrow> fresh i h \<Longrightarrow> mini_activate (ops i) m h = (h', m')
      \<Longrightarrow> ready i h' \<and> live i h' = {}"
    and apart: "i < MAX_MINIHEAPS P \<Longrightarrow> j < MAX_MINIHEAPS P \<Longrightarrow> i \<noteq> j \<Longrightarrow> region i \<inter> region j = {}"
    and live_bound: "i < MAX_MINIHEAPS P \<Longrightarrow> ready i h \<Longrightarrow> card (live i h) \<le> mini_NObjects P i"
    and null_region: "0 \<notin> region i"
    and ok: "rh_ok P"
begin

lemma params: "0 < MIN_OBJECTS P" "0 < Denominator P" "Denominator P \<le> Numerator P" "Numerator P < 2 ^ 20"
    "0 < MAX_MINIHEAPS P" "MIN_OBJECTS P * 2 ^ MAX_MINIHEAPS P \<le> 2 ^ 40"
  using ok by (simp_all add: rh_ok_def)

abbreviation rh_count :: "'h random_heap \<Rightarrow> nat" where
  "rh_count \<equiv> heap_count live"

abbreviation rh_live :: "'h random_heap \<Rightarrow> addr set" where
  "rh_live \<equiv> heap_live live"

abbreviation rh_owned :: "'h random_heap \<Rightarrow> addr set" where
  "rh_owned \<equiv> heap_owned region"

abbreviation rh_shape :: "'h random_heap \<Rightarrow> bool" where
  "rh_shape \<equiv> heap_shape P fresh ready"

abbreviation rh_inv :: "'h random_heap \<Rightarrow> bool" where
  "rh_inv \<equiv> heap_inv P fresh ready live"

abbreviation hit :: "'h random_heap \<Rightarrow> nat \<Rightarrow> addr \<Rightarrow> bool" where
  "hit \<equiv> heap_hit region slot live"

abbreviation has_room :: "'h random_heap \<Rightarrow> bool" where
  "has_room \<equiv> heap_room P"

lemmas rh_count_def = heap_count_def
  and rh_live_def = heap_live_def
  and rh_owned_def = heap_owned_def
  and rh_shape_def = heap_shape_def
  and rh_inv_def = heap_inv_def
  and hit_def = heap_hit_def
  and has_room_def = heap_room_def

lemma mini: "i < MAX_MINIHEAPS P \<Longrightarrow> mini_store (ready i) (\<lambda>h. region i) (slot i) (live i)
      (mini_malloc (ops i)) (mini_free (ops i))"
  by (rule sized_mini_store.axioms(1) [OF minis])

lemma mini_alloc:
  assumes "i < MAX_MINIHEAPS P" and "ready i x" and "mini_malloc (ops i) m x = (a, x', rs)"
  shows "ready i x' \<and> slot i x' = slot i x"
    and "(a = 0 \<and> live i x' = live i x) \<or>
      (a \<noteq> 0 \<and> a \<in> region i \<and> slot i x a = a \<and> a \<notin> live i x \<and> live i x' = insert a (live i x))"
  using mini_store.alloc_ready [OF mini [OF assms(1)] assms(2,3)]
    mini_store.alloc_live [OF mini [OF assms(1)] assms(2,3)] by auto

lemma mini_release:
  assumes "i < MAX_MINIHEAPS P" and "ready i x" and "mini_free (ops i) a m x = (ok, x', m', rs)"
  shows "ready i x' \<and> slot i x' = slot i x"
    and "ok = (a \<in> region i \<and> slot i x a \<in> live i x)"
    and "live i x' = (if ok then live i x - {slot i x a} else live i x)"
    and "card (live i x') + of_bool ok = card (live i x)"
  using mini_store.release_ready [OF mini [OF assms(1)] assms(2,3)]
    mini_store.release_live [OF mini [OF assms(1)] assms(2,3)]
    mini_store.release_card [OF mini [OF assms(1)] assms(2,3)] by auto

lemma live_region: "i < MAX_MINIHEAPS P \<Longrightarrow> ready i x \<Longrightarrow> live i x \<subseteq> region i"
  using mini_store.live_owned [OF mini] by blast

lemma rh_shapeD:
  assumes "rh_shape h"
  shows "rh_miniHeapsInUse h \<le> MAX_MINIHEAPS P" "length (rh_buf h) = MAX_MINIHEAPS P"
    "i < rh_miniHeapsInUse h \<Longrightarrow> i < MAX_MINIHEAPS P"
    "i < rh_miniHeapsInUse h \<Longrightarrow> ready i (rh_buf h ! i)"
    "i < rh_miniHeapsInUse h \<Longrightarrow> live i (rh_buf h ! i) \<subseteq> region i"
  using assms live_region by (auto simp: rh_shape_def)

text \<open>Replacing one miniheap.\<close>

lemma rh_update:
  assumes "rh_shape h" and "i < rh_miniHeapsInUse h" and "ready i x"
  shows "rh_shape (h\<lparr>rh_buf := (rh_buf h)[i := x]\<rparr>)"
    and "rh_live (h\<lparr>rh_buf := (rh_buf h)[i := x]\<rparr>) = (rh_live h - live i (rh_buf h ! i)) \<union> live i x"
    and "rh_count (h\<lparr>rh_buf := (rh_buf h)[i := x]\<rparr>) + card (live i (rh_buf h ! i)) = rh_count h + card (live i x)"
proof -
  note d = rh_shapeD [OF assms(1)]
  have i: "i < length (rh_buf h)" using d(2,3) assms(2) by simp
  have other: "(rh_buf h)[i := x] ! j = rh_buf h ! j" if "j \<noteq> i" for j using that by simp
  show "rh_shape (h\<lparr>rh_buf := (rh_buf h)[i := x]\<rparr>)"
    using assms i by (auto simp: rh_shape_def nth_list_update)
  have dis: "live i (rh_buf h ! i) \<inter> live j (rh_buf h ! j) = {}" if "j < rh_miniHeapsInUse h" "j \<noteq> i" for j
    using apart [of i j] d(3,5) assms(2) that by blast
  have split: "(\<Union>j < rh_miniHeapsInUse h. F j) = F i \<union> (\<Union>j \<in> {..<rh_miniHeapsInUse h} - {i}. F j)"
    for F :: "nat \<Rightarrow> addr set" using assms(2) by blast
  have "(\<Union>j \<in> {..<rh_miniHeapsInUse h} - {i}. live j ((rh_buf h)[i := x] ! j))
      = (\<Union>j \<in> {..<rh_miniHeapsInUse h} - {i}. live j (rh_buf h ! j))"
    by (intro SUP_cong) (simp_all add: other)
  then have "rh_live (h\<lparr>rh_buf := (rh_buf h)[i := x]\<rparr>)
      = live i x \<union> (\<Union>j \<in> {..<rh_miniHeapsInUse h} - {i}. live j (rh_buf h ! j))"
    using i by (simp add: rh_live_def split [of "\<lambda>j. live j ((rh_buf h)[i := x] ! j)"])
  moreover have "rh_live h = live i (rh_buf h ! i) \<union> (\<Union>j \<in> {..<rh_miniHeapsInUse h} - {i}. live j (rh_buf h ! j))"
    unfolding rh_live_def using assms(2) by blast
  moreover have "live i (rh_buf h ! i) \<inter> (\<Union>j \<in> {..<rh_miniHeapsInUse h} - {i}. live j (rh_buf h ! j)) = {}"
    using dis by (auto simp: Int_UN_distrib)
  ultimately show "rh_live (h\<lparr>rh_buf := (rh_buf h)[i := x]\<rparr>) = (rh_live h - live i (rh_buf h ! i)) \<union> live i x"
    by auto
  have "rh_count (h\<lparr>rh_buf := (rh_buf h)[i := x]\<rparr>)
      = card (live i x) + (\<Sum>j \<in> {..<rh_miniHeapsInUse h} - {i}. card (live j (rh_buf h ! j)))"
    unfolding rh_count_def using assms(2) i by (simp add: sum.remove [of _ i])
  moreover have "rh_count h = card (live i (rh_buf h ! i))
      + (\<Sum>j \<in> {..<rh_miniHeapsInUse h} - {i}. card (live j (rh_buf h ! j)))"
    unfolding rh_count_def using assms(2) by (simp add: sum.remove [of _ i])
  ultimately show "rh_count (h\<lparr>rh_buf := (rh_buf h)[i := x]\<rparr>) + card (live i (rh_buf h ! i))
      = rh_count h + card (live i x)" by simp
qed

text \<open>Two heaps with the same objects.\<close>

definition rh_same :: "'h random_heap \<Rightarrow> 'h random_heap \<Rightarrow> bool" where
  "rh_same h h' \<longleftrightarrow> rh_shape h' \<and> rh_miniHeapsInUse h' = rh_miniHeapsInUse h \<and> rh_inUse h' = rh_inUse h
     \<and> (\<forall>j < rh_miniHeapsInUse h. slot j (rh_buf h' ! j) = slot j (rh_buf h ! j)
          \<and> live j (rh_buf h' ! j) = live j (rh_buf h ! j))"

lemma rh_same_live: "rh_same h h' \<Longrightarrow> rh_live h' = rh_live h \<and> rh_count h' = rh_count h"
  by (simp add: rh_same_def rh_live_def rh_count_def)

lemma rh_same_refl: "rh_shape h \<Longrightarrow> rh_same h h"
  by (simp add: rh_same_def)

lemma hit_unique: "rh_shape h \<Longrightarrow> hit h i a \<Longrightarrow> hit h j a \<Longrightarrow> i = j"
  using apart rh_shapeD(3) unfolding hit_def by blast

lemma same_hit: "rh_same h h' \<Longrightarrow> hit h' i a \<longleftrightarrow> hit h i a"
  by (auto simp: hit_def rh_same_def)

definition freed_from :: "'h random_heap \<Rightarrow> addr \<Rightarrow> 'h random_heap \<Rightarrow> bool" where
  "freed_from h a h' \<longleftrightarrow> rh_shape h' \<and> rh_miniHeapsInUse h' = rh_miniHeapsInUse h
     \<and> rh_count h' + 1 = rh_count h
     \<and> (\<exists>i. hit h i a \<and> rh_live h' = rh_live h - {slot i (rh_buf h ! i) a}
          \<and> (\<forall>j b. hit h' j b \<longleftrightarrow> hit h j b \<and> \<not> (j = i \<and> slot i (rh_buf h ! i) b = slot i (rh_buf h ! i) a)))"

lemma rh_free_at_spec:
  assumes "rh_shape h" and "i < rh_miniHeapsInUse h" and "rh_free_at ops i a (h, m) = (ok, (h', m'), rs)"
  shows "ok = hit h i a" and "\<not> ok \<Longrightarrow> rh_same h h'" and "ok \<Longrightarrow> freed_from h a h' \<and> rh_inUse h' = rh_inUse h"
proof -
  note d = rh_shapeD [OF assms(1)]
  obtain x where f: "mini_free (ops i) a m (rh_buf h ! i) = (ok, x, m', rs)"
    and h': "h' = h\<lparr>rh_buf := (rh_buf h)[i := x]\<rparr>"
    using assms(3) by (auto simp: rh_free_at_def Let_def split: prod.splits)
  note r = mini_release [OF d(3) [OF assms(2)] d(4) [OF assms(2)] f]
  have ready: "ready i x" using r(1) by simp
  note u = rh_update [OF assms(1,2) ready]
  have i: "i < length (rh_buf h)" using d(2,3) assms(2) by simp
  show ok: "ok = hit h i a" using r(2) assms(2) by (simp add: hit_def)
  show "\<not> ok \<Longrightarrow> rh_same h h'"
    using u(1) r(1,3) i by (auto simp: rh_same_def h' nth_list_update)
  show "ok \<Longrightarrow> freed_from h a h' \<and> rh_inUse h' = rh_inUse h"
  proof -
    assume k: ok
    have old: "rh_live h = (rh_live h - live i (rh_buf h ! i)) \<union> live i (rh_buf h ! i)"
      using assms(2) by (auto simp: rh_live_def)
    have "slot i (rh_buf h ! i) a \<in> live i (rh_buf h ! i)" using k r(2) by simp
    then have "rh_live h' = rh_live h - {slot i (rh_buf h ! i) a}"
      using u(2) r(3) k old by (auto simp: h')
    moreover have "rh_count h' + 1 = rh_count h" using u(3) r(4) k by (simp add: h')
    moreover have "hit h' j b \<longleftrightarrow> hit h j b \<and> \<not> (j = i \<and> slot i (rh_buf h ! i) b = slot i (rh_buf h ! i) a)" for j b
      using r(1,3) k i by (cases "j = i") (auto simp: hit_def h')
    ultimately show ?thesis using ok k u(1) by (auto simp: freed_from_def h')
  qed
qed

lemma rh_same_trans: "rh_same h h1 \<Longrightarrow> rh_same h1 h2 \<Longrightarrow> rh_same h h2"
  by (simp add: rh_same_def)

lemma freed_from_same: "rh_same h h1 \<Longrightarrow> freed_from h1 a h2 \<Longrightarrow> freed_from h a h2"
  using rh_same_live [of h h1] same_hit [of h h1]
  by (auto simp: freed_from_def rh_same_def) (auto simp: hit_def)

lemma freed_from_upd:
  "freed_from h a (h'\<lparr>rh_cachedMiniHeap := c, rh_inUse := n\<rparr>) = freed_from h a h'"
  "freed_from h a (h'\<lparr>rh_inUse := n\<rparr>) = freed_from h a h'"
  "freed_from h a (h'\<lparr>rh_cachedMiniHeap := c\<rparr>) = freed_from h a h'"
  by (simp_all add: freed_from_def rh_shape_def rh_count_def rh_live_def hit_def)

lemma rh_free_search_spec:
  assumes "rh_shape h" and "i \<le> rh_miniHeapsInUse h"
    and "rh_free_search i ops cached a (h, m) acc = (ok, (h', m'), rs)"
  shows "ok = (\<exists>j < i. int j \<noteq> cached \<and> hit h j a) \<and> (\<not> ok \<longrightarrow> rh_same h h')
      \<and> (ok \<longrightarrow> freed_from h a h' \<and> rh_inUse h' = sub64 (rh_inUse h) 1)"
  using assms
proof (induction i arbitrary: h m acc)
  case 0
  then show ?case by (auto simp: rh_same_refl)
next
  case (Suc i)
  show ?case
  proof (cases "int i = cached")
    case True
    with Suc.prems have run: "rh_free_search i ops cached a (h, m) acc = (ok, (h', m'), rs)" by simp
    show ?thesis using Suc.IH [OF Suc.prems(1) _ run] Suc.prems(2) True by (auto simp: less_Suc_eq)
  next
    case False
    obtain k h1 m1 rs1 where at: "rh_free_at ops i a (h, m) = (k, (h1, m1), rs1)" by (metis surj_pair)
    have i: "i < rh_miniHeapsInUse h" using Suc.prems(2) by simp
    note f = rh_free_at_spec [OF Suc.prems(1) i at]
    show ?thesis
    proof (cases k)
      case True
      with Suc.prems(3) at False have "ok"
          "h' = h1\<lparr>rh_cachedMiniHeap := int i, rh_inUse := sub64 (rh_inUse h1) 1\<rparr>"
        by auto
      then show ?thesis using f True False by (auto simp: freed_from_upd)
    next
      case k: False
      with Suc.prems(3) at False have run: "rh_free_search i ops cached a (h1, m1) (acc @ rs1) = (ok, (h', m'), rs)"
        by simp
      have same: "rh_same h h1" using f(2) k by simp
      then have sh: "rh_shape h1" "i \<le> rh_miniHeapsInUse h1" "rh_inUse h1 = rh_inUse h"
        using i by (auto simp: rh_same_def)
      show ?thesis using Suc.IH [OF sh(1,2) run] f(1) k same same_hit [OF same] sh(3)
        by (auto simp: less_Suc_eq intro: rh_same_trans freed_from_same)
    qed
  qed
qed

lemma finite_live: "rh_shape h \<Longrightarrow> i < rh_miniHeapsInUse h \<Longrightarrow> finite (live i (rh_buf h ! i))"
  using mini_store.live_finite [OF mini] rh_shapeD(3,4) by blast

lemma total_objects: "(\<Sum>i < n. mini_NObjects P i) = (if n = 0 then 0 else MIN_OBJECTS P * 2 ^ (n - 1))"
proof (induction n)
  case (Suc n)
  then show ?case
    by (cases n) (auto simp: mini_NObjects_def push_bit_nat_mult)
qed simp

lemma count_available: "rh_shape h \<Longrightarrow> rh_count h \<le> rh_available h"
proof -
  assume s: "rh_shape h"
  have "rh_count h \<le> (\<Sum>i < rh_miniHeapsInUse h. mini_NObjects P i)"
    unfolding rh_count_def using live_bound rh_shapeD(3,4) [OF s] by (intro sum_mono) auto
  with s show ?thesis by (simp add: total_objects rh_shape_def split: if_splits)
qed

lemma available_bound: "rh_shape h \<Longrightarrow> rh_available h \<le> 2 ^ 40"
proof -
  assume s: "rh_shape h"
  have "(2::nat) ^ (rh_miniHeapsInUse h - 1) \<le> 2 ^ MAX_MINIHEAPS P"
    using rh_shapeD(1) [OF s] by (intro power_increasing) auto
  then have "MIN_OBJECTS P * 2 ^ (rh_miniHeapsInUse h - 1) \<le> MIN_OBJECTS P * 2 ^ MAX_MINIHEAPS P" by simp
  also note params(6)
  finally have "MIN_OBJECTS P * 2 ^ (rh_miniHeapsInUse h - 1) \<le> 2 ^ 40" .
  with s show ?thesis by (simp add: rh_shape_def)
qed

lemma rh_free_spec:
  assumes "rh_inv h" and "rh_free ops a (h, m) = (ok, (h', m'), rs)"
  shows "ok = (\<exists>i. hit h i a)" and "rh_inv h'" and "\<not> ok \<Longrightarrow> rh_live h' = rh_live h"
    and "ok \<Longrightarrow> freed_from h a h'" and "\<not> ok \<Longrightarrow> hit h' i b \<longleftrightarrow> hit h i b"
proof -
  have shape: "rh_shape h" and use: "rh_inUse h = rh_count h" using assms(1) by (auto simp: rh_inv_def)
  have bound: "rh_inUse h < 2 ^ 64" using count_available [OF shape] available_bound [OF shape] use by simp
  let ?n = "rh_miniHeapsInUse h" and ?c = "rh_cachedMiniHeap h"
  have main: "ok = (\<exists>i. hit h i a) \<and> (\<not> ok \<longrightarrow> rh_same h h')
      \<and> (ok \<longrightarrow> freed_from h a h' \<and> rh_inUse h' = sub64 (rh_inUse h) 1)"
  proof (cases "0 \<le> ?c \<and> ?c < int ?n")
    case True
    obtain k h1 m1 rs1 where at: "rh_free_at ops (nat ?c) a (h, m) = (k, (h1, m1), rs1)" by (metis surj_pair)
    have c: "nat ?c < ?n" using True by linarith
    note f = rh_free_at_spec [OF shape c at]
    show ?thesis
    proof (cases k)
      case k: True
      with assms(2) at True have "ok" "h' = h1\<lparr>rh_inUse := sub64 (rh_inUse h1) 1\<rparr>"
        by (auto simp: rh_free_def Let_def)
      with f k show ?thesis by (auto simp: freed_from_upd)
    next
      case k: False
      with assms(2) at True have run: "rh_free_search ?n ops ?c a (h1, m1) rs1 = (ok, (h', m'), rs)"
        by (simp add: rh_free_def Let_def)
      have same: "rh_same h h1" using f(2) k by simp
      then have sh: "rh_shape h1" "?n \<le> rh_miniHeapsInUse h1" "rh_inUse h1 = rh_inUse h" by (auto simp: rh_same_def)
      note s = rh_free_search_spec [OF sh(1,2) run]
      have "hit h i a \<Longrightarrow> i < ?n \<and> int i \<noteq> ?c" for i
        using f(1) k by (cases "i = nat ?c") (auto simp: hit_def)
      then have "(\<exists>j < ?n. int j \<noteq> ?c \<and> hit h1 j a) \<longleftrightarrow> (\<exists>i. hit h i a)"
        unfolding same_hit [OF same] by blast
      with s same sh(3) show ?thesis by (auto intro: rh_same_trans freed_from_same)
    qed
  next
    case False
    with assms(2) have run: "rh_free_search ?n ops ?c a (h, m) [] = (ok, (h', m'), rs)"
      by (auto simp: rh_free_def Let_def)
    note s = rh_free_search_spec [OF shape order_refl run]
    have "(\<exists>j < ?n. int j \<noteq> ?c \<and> hit h j a) \<longleftrightarrow> (\<exists>i. hit h i a)" using False by (auto simp: hit_def)
    with s show ?thesis by auto
  qed
  then show "ok = (\<exists>i. hit h i a)" "ok \<Longrightarrow> freed_from h a h'" by auto
  show "\<not> ok \<Longrightarrow> rh_live h' = rh_live h" using main rh_same_live by blast
  show "\<not> ok \<Longrightarrow> hit h' i b \<longleftrightarrow> hit h i b" using main same_hit by blast
  show "rh_inv h'"
  proof (cases ok)
    case True
    with main have fr: "freed_from h a h'" "rh_inUse h' = sub64 (rh_inUse h) 1" by auto
    then have "rh_count h' + 1 = rh_inUse h" "rh_shape h'" using use by (auto simp: freed_from_def)
    moreover have "sub64 (rh_inUse h) 1 = rh_inUse h - 1"
      using bound calculation(1) by (intro sub64_le) auto
    ultimately show ?thesis using fr(2) by (simp add: rh_inv_def)
  next
    case False
    with main have same: "rh_same h h'" by blast
    with rh_same_live [OF same] use show ?thesis by (simp add: rh_inv_def rh_same_def)
  qed
qed

text \<open>getSize is nonzero exactly on the addresses of the miniheaps in use.\<close>

lemma rh_size_search_zero:
  assumes "rh_shape h" and "i \<le> rh_miniHeapsInUse h"
  shows "rh_size_search i ops a h = 0 \<longleftrightarrow> (\<forall>j < i. a \<notin> region j)"
  using assms(2)
proof (induction i)
  case (Suc i)
  then have "i < rh_miniHeapsInUse h" by simp
  then have "mini_getSize (ops i) a (rh_buf h ! i) = 0 \<longleftrightarrow> a \<notin> region i"
    using sized_mini_store.size_of_zero [OF minis] rh_shapeD(3,4) [OF assms(1)] by blast
  with Suc show ?case by (auto simp: Let_def less_Suc_eq)
qed simp

lemma rh_size_search_hit:
  assumes "rh_shape h" and "i \<le> rh_miniHeapsInUse h" and "j < i" and "a \<in> region j"
  shows "rh_size_search i ops a h = mini_getSize (ops j) a (rh_buf h ! j)"
  using assms(2,3)
proof (induction i)
  case (Suc i)
  note d = rh_shapeD [OF assms(1)]
  have zero: "mini_getSize (ops k) a (rh_buf h ! k) = 0 \<longleftrightarrow> a \<notin> region k" if "k < rh_miniHeapsInUse h" for k
    using sized_mini_store.size_of_zero [OF minis] d(3,4) that by blast
  show ?case
  proof (cases "j = i")
    case True
    with Suc.prems zero [of i] assms(4) show ?thesis by (simp add: Let_def)
  next
    case False
    then have "a \<notin> region i" using apart [of i j] d(3) Suc.prems assms(4) by fastforce
    with Suc False zero [of i] show ?thesis by (simp add: Let_def)
  qed
qed simp

lemma rh_getSize_zero: "rh_inv h \<Longrightarrow> rh_getSize ops a h = 0 \<longleftrightarrow> a \<notin> rh_owned h"
  using rh_size_search_zero [of h "rh_miniHeapsInUse h" a] by (auto simp: rh_inv_def rh_getSize_def rh_owned_def)

text \<open>Growing.\<close>

definition grown :: "'h random_heap \<Rightarrow> 'h random_heap \<Rightarrow> bool" where
  "grown h h' \<longleftrightarrow> rh_inv h' \<and> rh_live h' = rh_live h \<and> rh_inUse h' = rh_inUse h
     \<and> rh_miniHeapsInUse h \<le> rh_miniHeapsInUse h'
     \<and> (\<forall>i < rh_miniHeapsInUse h. rh_buf h' ! i = rh_buf h ! i)
     \<and> (\<forall>i b. hit h' i b \<longleftrightarrow> hit h i b)"

lemma grown_refl: "rh_inv h \<Longrightarrow> grown h h"
  by (simp add: grown_def)

lemma grown_trans: "grown h h1 \<Longrightarrow> grown h1 h2 \<Longrightarrow> grown h h2"
  by (auto simp: grown_def)

lemma threshold_iff:
  assumes "rh_inv h"
  shows "over_threshold P h \<longleftrightarrow> Numerator P * rh_inUse h \<ge> rh_available h * Denominator P"
proof -
  have s: "rh_shape h" and c: "rh_inUse h = rh_count h" using assms by (auto simp: rh_inv_def)
  have a: "rh_available h \<le> 2 ^ 40" "rh_inUse h \<le> 2 ^ 40"
    using available_bound [OF s] count_available [OF s] c by auto
  have "Numerator P * rh_inUse h \<le> 2 ^ 20 * 2 ^ 40" using a(2) params(4) by (intro mult_le_mono) auto
  moreover have "rh_available h * Denominator P \<le> 2 ^ 40 * 2 ^ 20"
    using a(1) params(3,4) by (intro mult_le_mono) auto
  ultimately show ?thesis by (simp add: over_threshold_def)
qed

lemma getAnother_full:
  assumes "rh_miniHeapsInUse h = MAX_MINIHEAPS P"
  shows "getAnotherMiniHeap P ops (h, m) = (h, m)"
  using assms by (simp add: getAnotherMiniHeap_def Let_def)

lemma getAnother_grows:
  assumes "rh_inv h" and "over_threshold P h" and "rh_miniHeapsInUse h < MAX_MINIHEAPS P"
    and "getAnotherMiniHeap P ops (h, m) = (h', m')"
  shows "grown h h'" and "rh_miniHeapsInUse h' = Suc (rh_miniHeapsInUse h)"
proof -
  let ?n = "rh_miniHeapsInUse h"
  have s: "rh_shape h" using assms(1) by (simp add: rh_inv_def)
  obtain x m1 where act: "mini_activate (ops ?n) m (rh_buf h ! ?n) = (x, m1)" by (metis surj_pair)
  have x: "ready ?n x" "live ?n x = {}"
    using activates [OF assms(3) _ act] s assms(3) by (auto simp: rh_shape_def)
  have h': "h' = h\<lparr>rh_buf := (rh_buf h)[?n := x],
      rh_available := (if ?n = 0 then rh_available h + MIN_OBJECTS P
         else rh_available h + 2 ^ (?n - 1) * MIN_OBJECTS P),
      rh_chunksInUse := 2 ^ ?n - 1, rh_miniHeapsInUse := ?n + 1\<rparr>"
    using assms(2,3,4) act by (auto simp: getAnotherMiniHeap_def Let_def push_bit_nat_mult)
  show "rh_miniHeapsInUse h' = Suc ?n" by (simp add: h')
  have len: "?n < length (rh_buf h)" using assms(3) rh_shapeD(2) [OF s] by simp
  have "rh_shape h'"
    unfolding rh_shape_def
  proof (intro conjI)
    show "rh_available h' = (if rh_miniHeapsInUse h' = 0 then 0
        else MIN_OBJECTS P * 2 ^ (rh_miniHeapsInUse h' - 1))"
      using s by (cases ?n) (auto simp: h' rh_shape_def)
  qed (use s assms(3) x len in \<open>auto simp: h' rh_shape_def nth_list_update less_Suc_eq\<close>)
  moreover have "rh_live h' = rh_live h"
    using len x(2) by (auto simp: rh_live_def h' nth_list_update less_Suc_eq split: if_splits)
  moreover have "rh_count h' = rh_count h"
  proof -
    have "(\<Sum>i < ?n. card (live i ((rh_buf h)[?n := x] ! i))) = (\<Sum>i < ?n. card (live i (rh_buf h ! i)))"
      by (intro sum.cong) auto
    then show ?thesis using len x(2) by (simp add: rh_count_def h')
  qed
  moreover have "hit h' i b \<longleftrightarrow> hit h i b" for i b
    using len x(2) by (cases "i = ?n") (auto simp: hit_def h')
  ultimately show "grown h h'" using assms(1) by (simp add: grown_def rh_inv_def) (simp add: h')
qed

text \<open>
  Growing ends exactly when the largest heap has room: with all miniheaps in use and the
  occupancy at the threshold the loop runs for ever.
\<close>

lemma grow_terminates:
  assumes "rh_inv h" and "has_room h"
  shows "\<exists>h' m'. growHeapIfNeeded P ops (h, m) = Some (h', m') \<and> grown h h' \<and> \<not> over_threshold P h'"
  using assms
proof (induction "MAX_MINIHEAPS P - rh_miniHeapsInUse h" arbitrary: h m rule: less_induct)
  case less
  show ?case
  proof (cases "over_threshold P h")
    case False
    with less.prems(1) show ?thesis by (simp add: growHeapIfNeeded.simps [of P ops "(h, m)"] grown_refl)
  next
    case True
    have s: "rh_shape h" using less.prems(1) by (simp add: rh_inv_def)
    have "rh_miniHeapsInUse h \<noteq> MAX_MINIHEAPS P"
    proof
      assume full: "rh_miniHeapsInUse h = MAX_MINIHEAPS P"
      then have "rh_available h = MIN_OBJECTS P * 2 ^ (MAX_MINIHEAPS P - 1)"
        using s params(5) by (simp add: rh_shape_def)
      with True less.prems show False by (simp add: threshold_iff has_room_def)
    qed
    with rh_shapeD(1) [OF s] have n: "rh_miniHeapsInUse h < MAX_MINIHEAPS P" by simp
    obtain h1 m1 where g: "getAnotherMiniHeap P ops (h, m) = (h1, m1)" by (metis surj_pair)
    note gr = getAnother_grows [OF less.prems(1) True n g]
    have h1: "rh_inv h1" "has_room h1" using gr(1) less.prems(2) by (auto simp: grown_def has_room_def)
    have "MAX_MINIHEAPS P - rh_miniHeapsInUse h1 < MAX_MINIHEAPS P - rh_miniHeapsInUse h" using gr(2) n by simp
    from less.hyps [OF this h1] obtain h2 m2 where
      "growHeapIfNeeded P ops (h1, m1) = Some (h2, m2)" "grown h1 h2" "\<not> over_threshold P h2" by blast
    with True g grown_trans [OF gr(1)] show ?thesis
      by (simp add: growHeapIfNeeded.simps [of P ops "(h, m)"])
  qed
qed

lemma full_over_threshold:
  assumes "rh_inv h" and "\<not> has_room h"
  shows "over_threshold P h"
proof -
  have s: "rh_shape h" using assms(1) by (simp add: rh_inv_def)
  have "(2::nat) ^ (rh_miniHeapsInUse h - 1) \<le> 2 ^ (MAX_MINIHEAPS P - 1)"
    using rh_shapeD(1) [OF s] by (intro power_increasing) auto
  then have "rh_available h \<le> MIN_OBJECTS P * 2 ^ (MAX_MINIHEAPS P - 1)"
    using s by (auto simp: rh_shape_def)
  then have "rh_available h * Denominator P \<le> MIN_OBJECTS P * 2 ^ (MAX_MINIHEAPS P - 1) * Denominator P" by simp
  with assms(2) show ?thesis unfolding threshold_iff [OF assms(1)] has_room_def by linarith
qed

lemma getAnother_keeps:
  assumes "rh_inv h" and "getAnotherMiniHeap P ops (h, m) = (h', m')"
  shows "grown h h'"
proof (cases "over_threshold P h \<and> rh_miniHeapsInUse h < MAX_MINIHEAPS P")
  case True
  with assms getAnother_grows(1) show ?thesis by blast
next
  case False
  then have "getAnotherMiniHeap P ops (h, m) = (h, m)"
    by (auto simp: getAnotherMiniHeap_def Let_def)
  then have "h' = h" using assms(2) by simp
  with assms(1) show ?thesis by (simp add: grown_refl)
qed

lemma grow_diverges:
  assumes "rh_inv h" and "\<not> has_room h"
  shows "growHeapIfNeeded P ops (h, m) = None"
proof (rule ccontr)
  assume "growHeapIfNeeded P ops (h, m) \<noteq> None"
  then obtain r where ret: "growHeapIfNeeded P ops (h, m) = Some r" by auto
  have "P = P \<and> ops = ops \<and> rh_inv (fst (h, m)) \<and> \<not> has_room (fst (h, m)) \<longrightarrow> False"
  proof (rule growHeapIfNeeded.raw_induct
      [where P = "\<lambda>P' ops' hm r. P' = P \<and> ops' = ops \<and> rh_inv (fst hm) \<and> \<not> has_room (fst hm) \<longrightarrow> False", OF _ ret])
    fix f P' ops' hm and r :: "'h random_heap \<times> mem"
    assume IH: "\<And>P' ops' hm r. f P' ops' hm = Some r \<Longrightarrow>
        P' = P \<and> ops' = ops \<and> rh_inv (fst hm) \<and> \<not> has_room (fst hm) \<longrightarrow> False"
      and eq: "(if over_threshold P' (fst hm) then f P' ops' (getAnotherMiniHeap P' ops' hm) else Some hm) = Some r"
    show "P' = P \<and> ops' = ops \<and> rh_inv (fst hm) \<and> \<not> has_room (fst hm) \<longrightarrow> False"
    proof (intro impI, elim conjE)
      assume eqs: "P' = P" "ops' = ops" and inv: "rh_inv (fst hm)" "\<not> has_room (fst hm)"
      have call: "f P ops (getAnotherMiniHeap P ops hm) = Some r"
        using eq eqs full_over_threshold [OF inv] by simp
      obtain h m h1 m1 where hm: "hm = (h, m)" and g: "getAnotherMiniHeap P ops (h, m) = (h1, m1)"
        by (metis surj_pair)
      have "grown h h1" using getAnother_keeps [OF _ g] inv hm by simp
      then have "rh_inv h1" "\<not> has_room h1" using inv hm by (auto simp: grown_def has_room_def)
      with IH [OF call] show False by (simp add: hm g)
    qed
  qed
  with assms show False by simp
qed

lemma grow_result:
  assumes "rh_inv h" and "growHeapIfNeeded P ops (h, m) = Some (h', m')"
  shows "grown h h'" and "\<not> over_threshold P h'"
proof -
  have "has_room h" using grow_diverges [OF assms(1), of m] assms(2) by auto
  from grow_terminates [OF assms(1) this, of m] assms(2) show "grown h h'" "\<not> over_threshold P h'" by auto
qed

text \<open>Allocating.\<close>

definition allocated :: "'h random_heap \<Rightarrow> addr \<Rightarrow> 'h random_heap \<Rightarrow> bool" where
  "allocated h a h' \<longleftrightarrow> a \<noteq> 0 \<and> rh_shape h' \<and> rh_miniHeapsInUse h' = rh_miniHeapsInUse h
     \<and> rh_inUse h' = rh_inUse h \<and> a \<in> rh_owned h \<and> a \<notin> rh_live h
     \<and> rh_live h' = insert a (rh_live h) \<and> rh_count h' = rh_count h + 1
     \<and> (\<forall>i. \<not> hit h i a) \<and> (\<forall>i b. hit h i b \<longrightarrow> hit h' i b)"

lemma rh_getObject_spec:
  assumes "rh_shape h" and "0 < rh_miniHeapsInUse h" and "rh_getObject ops m h = (a, h', rs)"
  shows "(a = 0 \<and> rh_same h h') \<or> allocated h a h'"
proof -
  note d = rh_shapeD [OF assms(1)]
  let ?n = "rh_miniHeapsInUse h"
  define i where "i = rh_index (rh_chunksInUse h) (fst (rng_next (rh_random h)))"
  have "rh_chunksInUse h = 2 ^ (?n - 1) - 1" using assms(1) by (simp add: rh_shape_def)
  then have i: "i < ?n" using rh_index_less [OF assms(2)] by (simp add: i_def)
  obtain x where x: "mini_malloc (ops i) m (rh_buf h ! i) = (a, x, rs)"
    and h': "h' = h\<lparr>rh_random := snd (rng_next (rh_random h)), rh_buf := (rh_buf h)[i := x]\<rparr>"
    using assms(3) by (auto simp: rh_getObject_def i_def rh_index_def Let_def split: prod.splits)
  note al = mini_alloc [OF d(3) [OF i] d(4) [OF i] x]
  have "ready i x" using al(1) by simp
  note u = rh_update [OF assms(1) i this]
  have upd: "rh_shape h' = rh_shape (h\<lparr>rh_buf := (rh_buf h)[i := x]\<rparr>)"
      "rh_live h' = rh_live (h\<lparr>rh_buf := (rh_buf h)[i := x]\<rparr>)"
      "rh_count h' = rh_count (h\<lparr>rh_buf := (rh_buf h)[i := x]\<rparr>)"
    by (simp_all add: h' rh_shape_def rh_live_def rh_count_def)
  have len: "i < length (rh_buf h)" using d(2,3) i by simp
  from al(2) show ?thesis
  proof (elim disjE conjE)
    assume "a = 0" "live i x = live i (rh_buf h ! i)"
    moreover have "rh_same h h'"
      using u(1) upd(1) al(1) calculation(2) len by (auto simp: rh_same_def h' nth_list_update)
    ultimately show ?thesis by simp
  next
    assume a: "a \<noteq> 0" "a \<in> region i" "a \<notin> live i (rh_buf h ! i)" "live i x = insert a (live i (rh_buf h ! i))"
      and slot: "slot i (rh_buf h ! i) a = a"
    have own: "a \<in> rh_owned h" using a(2) i by (auto simp: rh_owned_def)
    have "a \<notin> live j (rh_buf h ! j)" if "j < ?n" for j
      using apart [of i j] d(3,5) that i a(2,3) by (cases "j = i") blast+
    then have new: "a \<notin> rh_live h" by (auto simp: rh_live_def)
    have sub: "live i (rh_buf h ! i) \<subseteq> rh_live h" using i by (auto simp: rh_live_def)
    then have "rh_live h' = insert a (rh_live h)" using u(2) upd(2) a(4) by auto
    moreover have "rh_count h' = rh_count h + 1"
      using u(3) upd(3) a(3,4) finite_live [OF assms(1) i] by simp
    moreover have "\<not> hit h j a" for j
      using apart [of i j] d(3) i a(2,3) slot by (cases "j = i") (auto simp: hit_def)
    moreover have "hit h j b \<longrightarrow> hit h' j b" for j b
      using al(1) a(4) len by (cases "j = i") (auto simp: hit_def h')
    ultimately show ?thesis using a(1) own new u(1) upd(1) by (simp add: allocated_def) (simp add: h')
  qed
qed

lemma allocated_same: "rh_same h h1 \<Longrightarrow> allocated h1 a h2 \<Longrightarrow> allocated h a h2"
  using rh_same_live [of h h1] same_hit [of h h1] by (simp add: allocated_def rh_same_def rh_owned_def)

lemma retry_spec:
  assumes "rh_shape h" and "0 < rh_miniHeapsInUse h" and "getObject_retry ops m h acc = Some (a, h', rs)"
  shows "allocated h a h'"
proof -
  have "ops = ops \<and> rh_shape h \<and> 0 < rh_miniHeapsInUse h \<longrightarrow> allocated h (fst (a, h', rs)) (fst (snd (a, h', rs)))"
  proof (rule getObject_retry.raw_induct [where P = "\<lambda>ops' m h acc r. ops' = ops \<and> rh_shape h
      \<and> 0 < rh_miniHeapsInUse h \<longrightarrow> allocated h (fst r) (fst (snd r))", OF _ assms(3)])
    fix f ops' m h acc and r :: "addr \<times> 'h random_heap \<times> report list"
    assume IH: "\<And>ops' m h acc r. f ops' m h acc = Some r \<Longrightarrow> ops' = ops \<and> rh_shape h
        \<and> 0 < rh_miniHeapsInUse h \<longrightarrow> allocated h (fst r) (fst (snd r))"
      and eq: "(let (ptr, h, rs) = rh_getObject ops' m h
        in if ptr = 0 then f ops' m h (acc @ rs) else Some (ptr, h, acc @ rs)) = Some r"
    show "ops' = ops \<and> rh_shape h \<and> 0 < rh_miniHeapsInUse h \<longrightarrow> allocated h (fst r) (fst (snd r))"
    proof (intro impI, elim conjE)
      assume *: "ops' = ops" "rh_shape h" "0 < rh_miniHeapsInUse h"
      obtain b h1 rs1 where g: "rh_getObject ops m h = (b, h1, rs1)" by (metis surj_pair)
      note s = rh_getObject_spec [OF *(2,3) g]
      show "allocated h (fst r) (fst (snd r))"
      proof (cases "b = 0")
        case True
        with eq g *(1) have call: "f ops m h1 (acc @ rs1) = Some r" by simp
        have same: "rh_same h h1" using s True by (auto simp: allocated_def)
        then have "rh_shape h1" "0 < rh_miniHeapsInUse h1" using *(3) by (auto simp: rh_same_def)
        with IH [OF call] have "allocated h1 (fst r) (fst (snd r))" by simp
        with same show ?thesis by (rule allocated_same)
      next
        case False
        with eq g *(1) s show ?thesis by auto
      qed
    qed
  qed
  with assms(1,2) show ?thesis by simp
qed

lemma not_over_pos:
  assumes "rh_inv h" and "\<not> over_threshold P h"
  shows "0 < rh_miniHeapsInUse h" and "rh_count h * Numerator P < rh_available h * Denominator P"
  using assms threshold_iff [OF assms(1)]
  by (auto simp: rh_inv_def rh_shape_def mult.commute intro: ccontr)

text \<open>A \<open>malloc\<close> that returns gives a slot that was free, in a heap that was below its threshold.\<close>

lemma rh_malloc_spec:
  assumes "rh_inv h" and "rh_malloc P ops (h, m) = Some (a, (h', m'), rs)"
  shows "rh_inv h'" and "a \<noteq> 0" and "a \<notin> rh_live h" and "a \<in> rh_owned h'" and "rh_live h' = insert a (rh_live h)"
    and "(rh_count h' - 1) * Numerator P < rh_available h' * Denominator P" and "rh_available h \<le> rh_available h'"
    and "has_room h" and "\<not> hit h i a" and "hit h i b \<Longrightarrow> hit h' i b"
proof -
  obtain h1 m1 where g: "(if over_threshold P h then growHeapIfNeeded P ops (h, m) else Some (h, m)) = Some (h1, m1)"
    and "(case getObject_retry ops m1 h1 [] of None \<Rightarrow> None | Some (ptr, h, reports) \<Rightarrow>
        Some (ptr, (h\<lparr>rh_inUse := (rh_inUse h + 1) mod 2 ^ 64\<rparr>, m1), reports)) = Some (a, (h', m'), rs)"
    using assms(2) by (auto simp: rh_malloc_def split: option.splits)
  then obtain h2 rs2 where t: "getObject_retry ops m1 h1 [] = Some (a, h2, rs2)"
    and h': "h' = h2\<lparr>rh_inUse := (rh_inUse h2 + 1) mod 2 ^ 64\<rparr>"
    by (auto split: option.splits)
  have gr: "grown h h1" "\<not> over_threshold P h1"
    using g grow_result [OF assms(1)] assms(1) by (auto simp: grown_refl split: if_splits)
  have inv1: "rh_inv h1" using gr(1) by (simp add: grown_def)
  note pos = not_over_pos [OF inv1 gr(2)]
  have al: "allocated h1 a h2" using inv1 pos(1) by (intro retry_spec [OF _ _ t]) (simp_all add: rh_inv_def)
  have shape': "rh_shape h'" "rh_live h' = rh_live h2" "rh_count h' = rh_count h2" "rh_owned h' = rh_owned h1"
      "rh_available h' = rh_available h1" "rh_miniHeapsInUse h' = rh_miniHeapsInUse h1"
    using al inv1 by (auto simp: h' allocated_def rh_shape_def rh_live_def rh_count_def rh_owned_def rh_inv_def)
  have "rh_count h2 \<le> 2 ^ 40" using count_available available_bound al by (meson allocated_def order_trans)
  moreover have "rh_inUse h2 + 1 = rh_count h2" using al inv1 by (simp add: allocated_def rh_inv_def)
  ultimately have "rh_inUse h' = rh_count h2" unfolding h' by simp
  then have "rh_inUse h' = rh_count h'" using shape'(3) by simp
  then show "rh_inv h'" using shape'(1) by (simp add: rh_inv_def)
  show "a \<noteq> 0" "a \<notin> rh_live h" "a \<in> rh_owned h'" "rh_live h' = insert a (rh_live h)"
    using al gr(1) shape' by (auto simp: allocated_def grown_def)
  show "\<not> hit h i a" using al gr(1) by (simp add: allocated_def grown_def)
  show "hit h i b \<Longrightarrow> hit h' i b" using al gr(1) by (auto simp: allocated_def grown_def hit_def h')
  show "(rh_count h' - 1) * Numerator P < rh_available h' * Denominator P"
    using pos(2) al shape' by (simp add: allocated_def)
  show "rh_available h \<le> rh_available h'"
    using gr(1) shape'(5) assms(1) by (auto simp: grown_def rh_inv_def rh_shape_def diff_le_mono)
  show "has_room h"
  proof (rule ccontr)
    assume "\<not> has_room h"
    with full_over_threshold [OF assms(1)] grow_diverges [OF assms(1)] g show False by simp
  qed
qed

lemma rh_malloc_returns:
  assumes "rh_inv h" and "has_room h"
    and "\<And>h1 m1. grown h h1 \<Longrightarrow> \<not> over_threshold P h1 \<Longrightarrow> \<exists>k. fst (rh_attempt ops m1 h1 k) \<noteq> 0"
  shows "\<exists>r. rh_malloc P ops (h, m) = Some r"
proof -
  obtain h1 m1 where g: "(if over_threshold P h then growHeapIfNeeded P ops (h, m) else Some (h, m)) = Some (h1, m1)"
    and gr: "grown h h1" "\<not> over_threshold P h1"
    using grow_terminates [OF assms(1,2), of m] grown_refl [OF assms(1)] by (cases "over_threshold P h") auto
  obtain r where "getObject_retry ops m1 h1 [] = Some r"
    using assms(3) [OF gr, of m1] retry_iff by metis
  with g show ?thesis by (cases r) (auto simp: rh_malloc_def)
qed

lemma live_self: "rh_shape h \<Longrightarrow> i < rh_miniHeapsInUse h \<Longrightarrow> a \<in> live i (rh_buf h ! i)
    \<Longrightarrow> hit h i a \<and> slot i (rh_buf h ! i) a = a"
  using mini_store.live_owned [OF mini [OF rh_shapeD(3)] rh_shapeD(4)] by (simp add: hit_def)

end

section \<open>A random heap is a heap\<close>

sublocale random_heap \<subseteq> rh: heap_iface rh_inv rh_live "heap_inside region slot live"
    "\<Union>i < MAX_MINIHEAPS P. region i" "\<lambda>sz. True" "\<lambda>sz. rh_malloc P ops" "rh_free ops" "rh_getSize ops"
proof
  fix r assume inv: "rh_inv r"
  then have s: "rh_shape r" by (simp add: rh_inv_def)
  show "rh_live r \<subseteq> heap_inside region slot live r"
    using live_self [OF s] by (auto simp: rh_live_def heap_inside_def)
  show "heap_inside region slot live r \<subseteq> (\<Union>i < MAX_MINIHEAPS P. region i)"
    using rh_shapeD(3) [OF s] by (auto simp: heap_inside_def hit_def)
  fix a
  show "rh_getSize ops a r \<noteq> 0" if "a \<in> rh_live r"
  proof -
    have "a \<in> rh_owned r" using that live_self [OF s] by (auto simp: rh_live_def rh_owned_def hit_def)
    then show ?thesis using rh_getSize_zero [OF inv] by simp
  qed
  show "rh_getSize ops a r = 0" if "a \<notin> (\<Union>i < MAX_MINIHEAPS P. region i)"
    using that rh_getSize_zero [OF inv] rh_shapeD(3) [OF s] by (auto simp: rh_owned_def)
next
  show "0 \<notin> (\<Union>i < MAX_MINIHEAPS P. region i)" using null_region by simp
next
  fix r m a r' m' rs assume inv: "rh_inv r" and c: "rh_malloc P ops (r, m) = Some (a, (r', m'), rs)"
  note s = rh_malloc_spec [OF inv c]
  show "rh_inv r' \<and> ((a = 0 \<and> rh_live r' = rh_live r \<and> heap_inside region slot live r' = heap_inside region slot live r)
        \<or> (a \<noteq> 0 \<and> a \<notin> heap_inside region slot live r \<and> rh_live r' = insert a (rh_live r)
          \<and> heap_inside region slot live r \<subseteq> heap_inside region slot live r'))"
    using s(1,2,5,9) s(10) by (simp add: heap_inside_def) blast
next
  fix r m a r' m' rs ok assume inv: "rh_inv r" and c: "rh_free ops a (r, m) = (ok, (r', m'), rs)"
  have s: "rh_shape r" using inv by (simp add: rh_inv_def)
  note f = rh_free_spec [OF inv c]
  {
    assume "a \<in> rh_live r"
    then obtain i where i: "hit r i a" "slot i (rh_buf r ! i) a = a"
      using live_self [OF s] by (auto simp: rh_live_def)
    then have k: ok using f(1) by blast
    from f(4) [OF k] obtain j where j: "hit r j a" "rh_live r' = rh_live r - {slot j (rh_buf r ! j) a}"
      "\<And>l b. hit r' l b \<longleftrightarrow> hit r l b \<and> \<not> (l = j \<and> slot j (rh_buf r ! j) b = slot j (rh_buf r ! j) a)"
      by (auto simp: freed_from_def)
    have "j = i" using hit_unique [OF s j(1) i(1)] .
    moreover have "\<not> hit r' l a" for l using j(3) hit_unique [OF s _ i(1)] calculation by auto
    ultimately show "ok \<and> rh_inv r' \<and> rh_live r' = rh_live r - {a}
        \<and> heap_inside region slot live r' \<subseteq> heap_inside region slot live r \<and> a \<notin> heap_inside region slot live r'"
      using k f(2) j(2,3) i(2) by (auto simp: heap_inside_def)
  }
  {
    assume "a \<notin> heap_inside region slot live r"
    then have k: "\<not> ok" using f(1) by (auto simp: heap_inside_def)
    show "\<not> ok \<and> rh_inv r' \<and> rh_live r' = rh_live r \<and> heap_inside region slot live r' = heap_inside region slot live r"
      using k f(2,3,5) by (auto simp: heap_inside_def)
  }
qed

context random_heap begin

lemma rh_release_start:
  "rh_inv h \<Longrightarrow> a \<in> rh_live h \<Longrightarrow> rh_free ops a (h, m) = (ok, (h', m'), rs) \<Longrightarrow> ok \<and> rh_live h' = rh_live h - {a}"
  using rh.release_live [of h a m ok h' m' rs] by blast

end

section \<open>Properties\<close>



end
