(* ===== verification/DieHardClass.thy ===== *)
theory DieHardClass
  imports RandomHeap
begin

text \<open>
  The random heap of one size class as \<open>libdieharder.cpp\<close> builds it: \<open>RandomHeap\<close> over
  \<open>RandomMiniHeapDieHard\<close> miniheaps whose sizes double (\<open>Initializer\<close> in
  \<open>src/include/randomheap.h\<close>).  \<open>heap_env\<close> holds the answers of \<open>TheAllocator::malloc\<close> for the
  objects and for the bitmap of each miniheap.
\<close>

record heap_env =
  env_buf :: "nat \<Rightarrow> addr"
  env_words :: "nat \<Rightarrow> u64 list"

definition dh_params :: "rh_params \<Rightarrow> bool \<Rightarrow> nat \<Rightarrow> mini_params" where
  "dh_params P df i = \<lparr>ObjectSize = rh_ObjectSize P, NObjects = mini_NObjects P i,
     DieFastOn = df, DieHarderOn = True\<rparr>"

definition dh_ops :: "rh_params \<Rightarrow> bool \<Rightarrow> heap_env \<Rightarrow> nat \<Rightarrow> mini_diehard mini_ops" where
  "dh_ops P df E i =
     \<lparr>mini_malloc = dh_malloc (dh_params P df i), mini_free = dh_free (dh_params P df i),
      mini_getSize = dh_getSize (dh_params P df i),
      mini_activate = dh_activate (dh_params P df i) (env_buf E i) (Some (env_words E i))\<rparr>"

text \<open>\<open>RoundUpHeap\<close>: the size a request to the operating system is rounded to.\<close>

definition round_up :: "nat \<Rightarrow> nat \<Rightarrow> nat" where
  "round_up Value sz = (sz + Value - 1) div Value * Value"

definition mini_fresh :: "nat \<Rightarrow> mini_diehard \<Rightarrow> bool" where
  "mini_fresh i s \<longleftrightarrow> \<not> isHeapActivated s"

definition class_region :: "rh_params \<Rightarrow> heap_env \<Rightarrow> nat \<Rightarrow> addr set" where
  "class_region P E i = {env_buf E i..<env_buf E i + mini_NObjects P i * rh_ObjectSize P}"

definition env_ok :: "rh_params \<Rightarrow> heap_env \<Rightarrow> bool" where
  "env_ok P E \<longleftrightarrow> rh_ok P
     \<and> (\<forall>i. env_buf E i \<noteq> 0)
     \<and> (\<forall>i < MAX_MINIHEAPS P. mini_ok (dh_params P False i)
          \<and> env_buf E i + mini_NObjects P i * rh_ObjectSize P \<le> 2 ^ 64
          \<and> length (env_words E i) = (mini_NObjects P i + 63) mod 2 ^ 64 div 64)
     \<and> (\<forall>i < MAX_MINIHEAPS P. \<forall>j < MAX_MINIHEAPS P. i \<noteq> j \<longrightarrow> class_region P E i \<inter> class_region P E j = {})"

definition class_ready :: "rh_params \<Rightarrow> bool \<Rightarrow> heap_env \<Rightarrow> nat \<Rightarrow> mini_diehard \<Rightarrow> bool" where
  "class_ready P df E i s \<longleftrightarrow> dh_ready (dh_params P df i) s \<and> miniHeap s = env_buf E i"

definition class_slot :: "rh_params \<Rightarrow> bool \<Rightarrow> nat \<Rightarrow> mini_diehard \<Rightarrow> addr \<Rightarrow> addr" where
  "class_slot P df i = dh_slot (dh_params P df i)"

definition class_live :: "rh_params \<Rightarrow> bool \<Rightarrow> nat \<Rightarrow> mini_diehard \<Rightarrow> addr set" where
  "class_live P df i = dh_live (dh_params P df i)"

lemma dh_ops_simps [heap_simps]:
  "mini_malloc (dh_ops P df E i) = dh_malloc (dh_params P df i)"
  "mini_free (dh_ops P df E i) = dh_free (dh_params P df i)"
  "mini_getSize (dh_ops P df E i) = dh_getSize (dh_params P df i)"
  "mini_activate (dh_ops P df E i) = dh_activate (dh_params P df i) (env_buf E i) (Some (env_words E i))"
  by (simp_all add: dh_ops_def)

lemma dh_params_simps [heap_simps]:
  "ObjectSize (dh_params P df i) = rh_ObjectSize P" "NObjects (dh_params P df i) = mini_NObjects P i"
  "DieFastOn (dh_params P df i) = df" "DieHarderOn (dh_params P df i)"
  by (simp_all add: dh_params_def)

lemma class_owned: "class_ready P df E i s \<Longrightarrow> dh_owned (dh_params P df i) s = class_region P E i"
  by (simp add: class_ready_def dh_owned_def class_region_def heap_simps)

lemma dh_malloc_base:
  assumes "dh_ready p s" and "dh_malloc p m s = (a, s', rs)"
  shows "miniHeap s' = miniHeap s"
  using dh_malloc_cases(1) [OF assms] by simp

lemma dh_free_base:
  assumes "dh_ready p s" and "dh_free p a m s = (freed, s', m', rs)"
  shows "miniHeap s' = miniHeap s"
  using dh_free_cases(1,2) [OF assms] by (cases "a \<in> dh_owned p s") auto

lemma class_mini_store:
  assumes "env_ok P E" and "i < MAX_MINIHEAPS P"
  shows "sized_mini_store (class_ready P df E i) (\<lambda>h. class_region P E i) (class_slot P df i) (class_live P df i)
    (mini_malloc (dh_ops P df E i)) (mini_free (dh_ops P df E i)) (mini_getSize (dh_ops P df E i))"
  unfolding heap_simps
proof unfold_locales
  fix s m a s' rs assume r: "class_ready P df E i s" and c: "dh_malloc (dh_params P df i) m s = (a, s', rs)"
  then have dh: "dh_ready (dh_params P df i) s" by (simp add: class_ready_def)
  show "class_ready P df E i s' \<and> class_region P E i = class_region P E i \<and> class_slot P df i s' = class_slot P df i s"
    using dhmini.alloc_ready [OF dh c] dh_malloc_base [OF dh c] r by (simp add: class_ready_def class_slot_def)
  show "(a = 0 \<and> class_live P df i s' = class_live P df i s) \<or>
    (a \<noteq> 0 \<and> a \<in> class_region P E i \<and> class_slot P df i s a = a \<and> a \<notin> class_live P df i s
      \<and> class_live P df i s' = insert a (class_live P df i s))"
    using dhmini.alloc_live [OF dh c] class_owned [OF r] by (simp add: class_live_def class_slot_def)
next
  fix s a m ok s' m' rs
  assume r: "class_ready P df E i s" and c: "dh_free (dh_params P df i) a m s = (ok, s', m', rs)"
  then have dh: "dh_ready (dh_params P df i) s" by (simp add: class_ready_def)
  show "class_ready P df E i s' \<and> class_region P E i = class_region P E i \<and> class_slot P df i s' = class_slot P df i s"
    using dhmini.release_ready [OF dh c] dh_free_base [OF dh c] r by (simp add: class_ready_def class_slot_def)
  show "ok = (a \<in> class_region P E i \<and> class_slot P df i s a \<in> class_live P df i s) \<and>
    class_live P df i s' = (if ok then class_live P df i s - {class_slot P df i s a} else class_live P df i s)"
    using dhmini.release_live [OF dh c] class_owned [OF r] by (simp add: class_live_def class_slot_def)
next
  fix s x assume r: "class_ready P df E i s" and x: "x \<in> class_live P df i s"
  then show "x \<in> class_region P E i \<and> class_slot P df i s x = x"
    using dhmini.live_owned [of "dh_params P df i" s x] class_owned [OF r]
    by (simp add: class_ready_def class_live_def class_slot_def)
next
  fix s assume "class_ready P df E i s"
  then show "finite (class_live P df i s)"
    using dhmini.live_finite by (simp add: class_ready_def class_live_def)
next
  fix s a assume r: "class_ready P df E i s"
  then show "dh_getSize (dh_params P df i) a s = 0 \<longleftrightarrow> a \<notin> class_region P E i"
    using dhmini.size_of_zero class_owned [OF r] by (simp add: class_ready_def)
qed

lemma class_random_heap:
  assumes "env_ok P E"
  shows "random_heap P (dh_ops P df E) mini_fresh (class_ready P df E) (class_region P E)
    (class_slot P df) (class_live P df)"
proof (rule random_heap.intro)
  fix i assume i: "i < MAX_MINIHEAPS P"
  show "sized_mini_store (class_ready P df E i) (\<lambda>h. class_region P E i) (class_slot P df i) (class_live P df i)
    (mini_malloc (dh_ops P df E i)) (mini_free (dh_ops P df E i)) (mini_getSize (dh_ops P df E i))"
    by (rule class_mini_store [OF assms i])
  fix h m h' m' assume fr: "mini_fresh i h" and c: "mini_activate (dh_ops P df E i) m h = (h', m')"
  have e: "mini_ok (dh_params P df i)" "env_buf E i \<noteq> 0"
      "env_buf E i + mini_NObjects P i * rh_ObjectSize P \<le> 2 ^ 64"
      "length (env_words E i) = (mini_NObjects P i + 63) mod 2 ^ 64 div 64"
    using assms i by (auto simp: env_ok_def mini_ok_def heap_simps)
  show "class_ready P df E i h' \<and> class_live P df i h' = {}"
    using dh_activate_ready [OF e(1) _ e(2) _ _ c [unfolded heap_simps]] fr e(3,4)
    by (simp add: class_ready_def class_live_def mini_fresh_def heap_simps)
next
  fix i h assume "i < MAX_MINIHEAPS P" and r: "class_ready P df E i h"
  then have "core_bits h \<subseteq> {..<mini_NObjects P i}"
    using dh_readyD(10) [of "dh_params P df i" h] by (simp add: class_ready_def heap_simps)
  then have "card (core_bits h) \<le> mini_NObjects P i" using card_mono [of "{..<mini_NObjects P i}"] by simp
  moreover have "card (class_live P df i h) \<le> card (core_bits h)"
    unfolding class_live_def layout_live_def
    by (rule card_image_le) (use \<open>core_bits h \<subseteq> _\<close> finite_subset in blast)
  ultimately show "card (class_live P df i h) \<le> mini_NObjects P i" by simp
next
  show "0 \<notin> class_region P E i" for i using assms by (simp add: class_region_def env_ok_def)
qed (use assms in \<open>auto simp: env_ok_def\<close>)

text \<open>The constructor establishes the invariant, with nothing live.\<close>

lemma RandomHeap_inv:
  assumes "\<And>i. fresh i (mini i)"
  shows "heap_inv P fresh ready live (RandomHeap P rng mini)" and "heap_live live (RandomHeap P rng mini) = {}"
  using assms by (simp_all add: heap_inv_def heap_shape_def heap_count_def heap_live_def RandomHeap_def)

section \<open>The size classes of libdieharder\<close>

text \<open>
  \<open>Numerator = 8\<close>, \<open>Denominator = 7\<close> and \<open>MaxSize = 1048576\<close> (\<open>src/source/libdieharder.cpp\<close>) give
  eleven miniheaps per class and \<open>2 ^ (16 - c)\<close> objects in the smallest miniheap of class \<open>c\<close>.
\<close>

definition program_class :: "nat \<Rightarrow> rh_params" where
  "program_class c = \<lparr>Numerator = 8, Denominator = 7, rh_ObjectSize = push_bit c 1 * 16, AllocationGrain = 1048576\<rparr>"

text \<open>An address layout: \<open>2 ^ 32\<close> bytes of address space for each miniheap.\<close>

definition program_env :: "nat \<Rightarrow> heap_env" where
  "program_env c = \<lparr>env_buf = (\<lambda>i. 2 ^ 44 + c * 2 ^ 36 + i * 2 ^ 32),
     env_words = (\<lambda>i. replicate ((mini_NObjects (program_class c) i + 63) mod 2 ^ 64 div 64) 0)\<rparr>"

lemma program_MAX: "MAX_MINIHEAPS (program_class c) = 11"
proof -
  have "staticlog 1048576 = 20" using staticlog_pow2 [of 20] by simp
  then show ?thesis by (simp add: MAX_MINIHEAPS_def program_class_def)
qed

lemma program_MIN: "c < 17 \<Longrightarrow> MIN_OBJECTS (program_class c) = 2 ^ (16 - c)"
proof -
  assume "c < 17"
  then have "c \<in> set [0..<17]" by simp
  then show ?thesis by (auto simp: upt_rec MIN_OBJECTS_def MIN_SIZE_def program_class_def push_bit_nat_mult)
qed

lemma program_bytes:
  assumes "c < 17"
  shows "mini_NObjects (program_class c) i * rh_ObjectSize (program_class c) = 2 ^ (20 + (i - 1))"
proof -
  have "(2::nat) ^ (16 - c) * 2 ^ c = 2 ^ 16" using assms by (simp flip: power_add)
  then have "(2::nat) ^ (16 - c) * 2 ^ c * 16 = 2 ^ 20" by simp
  then have "(2::nat) ^ (16 - c) * (2 ^ c * 16) = 2 ^ 20" by (simp only: mult.assoc)
  moreover have "rh_ObjectSize (program_class c) = 2 ^ c * 16" by (simp add: program_class_def push_bit_nat_mult)
  ultimately show ?thesis
    using program_MIN [OF assms] by (simp add: mini_NObjects_def push_bit_nat_mult power_add mult.commute)
qed

lemma program_env_ok: "c < 17 \<Longrightarrow> env_ok (program_class c) (program_env c)"
proof -
  assume c: "c < 17"
  have p: "(2::nat) ^ (16 - c) \<le> 2 ^ 16" by (intro power_increasing) auto
  then have "MIN_OBJECTS (program_class c) * 2 ^ 11 \<le> 2 ^ 16 * 2 ^ 11"
    unfolding program_MIN [OF c] by (intro mult_le_mono1)
  then have ok: "rh_ok (program_class c)"
    using program_MIN [OF c] by (simp add: rh_ok_def program_MAX) (simp add: program_class_def)
  have bytes: "mini_NObjects (program_class c) i * rh_ObjectSize (program_class c) \<le> 2 ^ 29" if "i < 11" for i
    unfolding program_bytes [OF c] using that by (intro power_increasing) auto
  have objs: "0 < mini_NObjects (program_class c) i" for i
    using program_MIN [OF c] by (simp add: mini_NObjects_def push_bit_nat_mult)
  have size: "0 < rh_ObjectSize (program_class c)" by (simp add: program_class_def push_bit_nat_mult)
  have n32: "mini_NObjects (program_class c) i < 2 ^ 32" if "i < 11" for i
  proof -
    have "mini_NObjects (program_class c) i \<le> mini_NObjects (program_class c) i * rh_ObjectSize (program_class c)"
      using size by simp
    also note bytes [OF that]
    finally show ?thesis by simp
  qed
  have "mini_ok (dh_params (program_class c) False i)" if "i < 11" for i
    using bytes [OF that] n32 [OF that] objs size by (simp add: mini_ok_def heap_simps)
  moreover have "env_buf (program_env c) i + mini_NObjects (program_class c) i * rh_ObjectSize (program_class c) \<le> 2 ^ 64"
    if "i < 11" for i
    using bytes [OF that] that c by (simp add: program_env_def)
  moreover have "class_region (program_class c) (program_env c) i \<inter> class_region (program_class c) (program_env c) j = {}"
    if "i < 11" "j < 11" "i \<noteq> j" for i j
    using bytes [OF that(1)] bytes [OF that(2)] that by (auto simp: class_region_def program_env_def neq_iff)
  moreover have "env_buf (program_env c) i \<noteq> 0" for i by (simp add: program_env_def)
  moreover have "length (env_words (program_env c) i) = (mini_NObjects (program_class c) i + 63) mod 2 ^ 64 div 64" for i
    by (simp add: program_env_def)
  ultimately show ?thesis using ok by (simp add: env_ok_def program_MAX)
qed

interpretation program: random_heap "program_class (c mod 17)"
    "dh_ops (program_class (c mod 17)) df (program_env (c mod 17))" mini_fresh
    "class_ready (program_class (c mod 17)) df (program_env (c mod 17))"
    "class_region (program_class (c mod 17)) (program_env (c mod 17))"
    "class_slot (program_class (c mod 17)) df" "class_live (program_class (c mod 17)) df" for c df
  by (rule class_random_heap) (simp add: program_env_ok)

section \<open>The objects of a class do not overlap\<close>

lemma class_slot_inside:
  assumes "class_ready P df E i s" and "a \<in> class_live P df i s"
  shows "\<exists>j < mini_NObjects P i. a = env_buf E i + j * rh_ObjectSize P"
proof -
  let ?p = "dh_params P df i"
  have r: "dh_ready ?p s" "miniHeap s = env_buf E i" using assms(1) by (auto simp: class_ready_def)
  obtain j where j: "j \<in> core_bits s" "a = getObject (dh_layout ?p) s j"
    using assms(2) by (auto simp: class_live_def layout_live_def)
  have "j < mini_NObjects P i" using j(1) dh_readyD(10) [OF r(1)] by (auto simp: heap_simps)
  moreover have "a = env_buf E i + j * rh_ObjectSize P"
    using j(2) dh_getObject_eq [OF r(1)] r(2) by (simp add: dh_layout_def dh_object_def heap_simps)
  ultimately show ?thesis by blast
qed

lemma grid_apart:
  fixes b :: nat
  assumes "b + i * n \<noteq> b + j * n"
  shows "b + i * n + n \<le> b + j * n \<or> b + j * n + n \<le> b + i * n"
proof (cases "i < j")
  case True
  then have "Suc i * n \<le> j * n" by (intro mult_le_mono1) simp
  then show ?thesis by simp
next
  case False
  with assms have "Suc j * n \<le> i * n" by (intro mult_le_mono1) (cases "i = j", auto)
  then show ?thesis by simp
qed

lemma class_live_region:
  assumes "class_ready P df E i s" and "a \<in> class_live P df i s"
  shows "{a..<a + rh_ObjectSize P} \<subseteq> class_region P E i"
proof -
  obtain j where j: "j < mini_NObjects P i" "a = env_buf E i + j * rh_ObjectSize P"
    using class_slot_inside [OF assms] by blast
  have "Suc j * rh_ObjectSize P \<le> mini_NObjects P i * rh_ObjectSize P" using j(1) by (intro mult_le_mono1) simp
  then show ?thesis by (auto simp: j(2) class_region_def)
qed

lemma class_objects_apart:
  assumes "env_ok P E" and "heap_inv P mini_fresh (class_ready P df E) (class_live P df) h"
    and "a \<in> heap_live (class_live P df) h" and "b \<in> heap_live (class_live P df) h" and "a \<noteq> b"
  shows "{a..<a + rh_ObjectSize P} \<inter> {b..<b + rh_ObjectSize P} = {}"
proof -
  let ?n = "rh_miniHeapsInUse h"
  have s: "?n \<le> MAX_MINIHEAPS P" "\<And>i. i < ?n \<Longrightarrow> class_ready P df E i (rh_buf h ! i)"
    using assms(2) by (auto simp: heap_inv_def heap_shape_def)
  obtain i j where i: "i < ?n" "a \<in> class_live P df i (rh_buf h ! i)"
    and j: "j < ?n" "b \<in> class_live P df j (rh_buf h ! j)"
    using assms(3,4) by (auto simp: heap_live_def)
  show ?thesis
  proof (cases "i = j")
    case True
    obtain k l where "a = env_buf E i + k * rh_ObjectSize P" "b = env_buf E i + l * rh_ObjectSize P"
      using class_slot_inside [OF s(2) [OF i(1)] i(2)] class_slot_inside [OF s(2) [OF j(1)] j(2)] True by blast
    with grid_apart [of "env_buf E i" k "rh_ObjectSize P" l] assms(5) show ?thesis by auto
  next
    case False
    then have "class_region P E i \<inter> class_region P E j = {}"
      using assms(1) i(1) j(1) s(1) by (simp add: env_ok_def)
    with class_live_region [OF s(2) [OF i(1)] i(2)] class_live_region [OF s(2) [OF j(1)] j(2)] show ?thesis by blast
  qed
qed

section \<open>Properties\<close>

abbreviation class_heap_inv :: "rh_params \<Rightarrow> bool \<Rightarrow> heap_env \<Rightarrow> mini_diehard random_heap \<Rightarrow> bool" where
  "class_heap_inv P df E \<equiv> heap_inv P mini_fresh (class_ready P df E) (class_live P df)"

text \<open>The class of one-megabyte objects before its first allocation, for the witnesses.\<close>

definition demo_class :: "mini_diehard random_heap" where
  "demo_class = RandomHeap (program_class 16) 0 (\<lambda>i. \<lparr>mh_rng = 0, freedValue = 5, isHeapActivated = False,
     miniHeapBitmap = BitMap, miniHeap = 0\<rparr>)"

abbreviation demo_ops :: "nat \<Rightarrow> mini_diehard mini_ops" where
  "demo_ops \<equiv> dh_ops (program_class 16) False (program_env 16)"

lemma program_class_16: "Numerator (program_class 16) = 8" "Denominator (program_class 16) = 7"
    "rh_ObjectSize (program_class 16) = 1048576"
  by (simp_all add: program_class_def push_bit_nat_mult)

definition demo_grown :: "addr \<Rightarrow> mini_diehard random_heap" where
  "demo_grown b = demo_class\<lparr>rh_buf := (rh_buf demo_class)[0 := \<lparr>mh_rng = 0, freedValue = 5, isHeapActivated = True,
      miniHeapBitmap = \<lparr>bitarray = Some [0], elements = 64\<rparr>, miniHeap = b\<rparr>],
     rh_available := 1, rh_miniHeapsInUse := 1\<rparr>"

lemma demo_another:
  assumes "env_buf E 0 = b" and "env_words E 0 = [0]" and "0 < b"
  shows "getAnotherMiniHeap (program_class 16) (dh_ops (program_class 16) False E) (demo_class, m) = (demo_grown b, m)"
proof -
  have n: "mini_NObjects (program_class 16) 0 = 1" "MIN_OBJECTS (program_class 16) = 1"
    by (simp_all add: mini_NObjects_def program_MIN)
  have b: "rh_buf demo_class ! 0 = \<lparr>mh_rng = 0, freedValue = 5, isHeapActivated = False,
     miniHeapBitmap = BitMap, miniHeap = 0\<rparr>"
    by (simp add: demo_class_def RandomHeap_def program_MAX)
  have act: "mini_activate (dh_ops (program_class 16) False E 0) m (rh_buf demo_class ! 0) = (\<lparr>mh_rng = 0, freedValue = 5, isHeapActivated = True,
      miniHeapBitmap = \<lparr>bitarray = Some [0], elements = 64\<rparr>, miniHeap = b\<rparr>, m)"
    by (simp add: b heap_simps dh_activate_def n assms reserve_def bm_clear_def BitMap_def)
  have "rh_miniHeapsInUse demo_class = 0" "rh_available demo_class = 0" "rh_inUse demo_class = 0" "rh_chunksInUse demo_class = 0"
    by (simp_all add: demo_class_def RandomHeap_def)
  then show ?thesis
    using act by (simp add: getAnotherMiniHeap_def over_threshold_def program_MAX n demo_grown_def) 
qed

lemma demo_malloc_at:
  assumes "env_buf E 0 = b" and "env_words E 0 = [0]" and "0 < b" and "b < 2 ^ 63"
  shows "\<exists>h' rs. rh_malloc (program_class 16) (dh_ops (program_class 16) False E) (demo_class, m) = Some (b, (h', m), rs)"
proof -
  let ?ops = "dh_ops (program_class 16) False E"
  have over: "over_threshold (program_class 16) demo_class" "\<not> over_threshold (program_class 16) (demo_grown b)"
    by (simp_all add: over_threshold_def demo_class_def demo_grown_def RandomHeap_def program_class_16)
  have "growHeapIfNeeded (program_class 16) ?ops (demo_class, m) = Some (demo_grown b, m)"
    by (subst growHeapIfNeeded.simps, subst growHeapIfNeeded.simps) (simp add: over demo_another [OF assms(1-3)])
  moreover have "\<exists>h' rs. rh_getObject ?ops m (demo_grown b) = (b, h', rs)"
  proof -
    let ?p = "dh_params (program_class 16) False 0" and ?s = "rh_buf (demo_grown b) ! 0"
    have len: "length (rh_buf demo_class) = 11" by (simp add: demo_class_def RandomHeap_def program_MAX)
    have s: "?s = \<lparr>mh_rng = 0, freedValue = 5, isHeapActivated = True,
        miniHeapBitmap = \<lparr>bitarray = Some [0], elements = 64\<rparr>, miniHeap = b\<rparr>"
      by (simp add: demo_grown_def len)
    have n: "NObjects ?p = 1" "ObjectSize ?p = 1048576"
      by (simp_all add: heap_simps mini_NObjects_def program_MIN program_class_16)
    have bits: "core_bits ?s = {}" by (auto simp: s core_bits_def bm_bits_def bm_words_def)
    have ready: "dh_ready ?p ?s"
      using bits by (simp add: dh_ready_def mini_ok_def core_bitmap_ok_def core_bits_def n) (use assms(3,4) in \<open>simp add: s bm_inv_def bm_words_def\<close>)
    obtain a s' rs where c: "dh_malloc ?p m ?s = (a, s', rs)" by (metis surj_pair)
    have "draw_index ?p ?s = 0" using draw_index_less [of ?p ?s] n by simp
    with dh_malloc_cases(2) [OF ready c] bits have "a = b" by (simp add: dh_object_def) (simp add: s)
    moreover have "rh_chunksInUse (demo_grown b) = 0" by (simp add: demo_grown_def demo_class_def RandomHeap_def)
    ultimately show ?thesis using c by (simp add: rh_getObject_def heap_simps Let_def log2_def split: prod.splits)
  qed
  then have "\<exists>h' rs. getObject_retry ?ops m (demo_grown b) [] = Some (b, h', rs)"
    using assms(3) by (subst getObject_retry.simps) (auto simp: Let_def)
  ultimately show ?thesis using over(1) by (auto simp: rh_malloc_def)
qed

lemma demo_malloc: "\<exists>h' rs. rh_malloc (program_class 16) demo_ops (demo_class, m) = Some (2 ^ 44 + 2 ^ 40, (h', m), rs)"
  by (rule demo_malloc_at) (simp_all add: program_env_def mini_NObjects_def program_MIN)

lemma demo_class_inv: "class_heap_inv (program_class 16) False (program_env 16) demo_class"
  unfolding demo_class_def by (rule RandomHeap_inv) (simp add: mini_fresh_def)

lemma demo_env: "env_ok (program_class 16) (program_env 16)"
  by (rule program_env_ok) simp

text \<open>C9: An allocation from a size class that returns gives an address that was not live, registers it
  and nothing else, never overlaps a live object, and leaves the class at most one object above the fraction
  \<open>Denominator / Numerator\<close> of its capacity.\<close>

theorem class_malloc:
  assumes "env_ok P E" and "class_heap_inv P df E h"
    and "rh_malloc P (dh_ops P df E) (h, m) = Some (a, (h', m'), rs)"
  shows "class_heap_inv P df E h' \<and> a \<noteq> 0 \<and> a \<notin> heap_live (class_live P df) h
    \<and> heap_live (class_live P df) h' = insert a (heap_live (class_live P df) h)
    \<and> (rh_inUse h' - 1) * Numerator P < rh_available h' * Denominator P
    \<and> (\<forall>b \<in> heap_live (class_live P df) h. {a..<a + rh_ObjectSize P} \<inter> {b..<b + rh_ObjectSize P} = {})"
proof -
  note s = random_heap.rh_malloc_spec [OF class_random_heap [OF assms(1)] assms(2,3)]
  have "rh_inUse h' = heap_count (class_live P df) h'" using s(1) by (simp add: heap_inv_def)
  moreover have "{a..<a + rh_ObjectSize P} \<inter> {b..<b + rh_ObjectSize P} = {}"
    if "b \<in> heap_live (class_live P df) h" for b
    using class_objects_apart [OF assms(1) s(1), of a b] s(3,5) that by blast
  ultimately show ?thesis using s(1-6) by simp
qed

theorem class_malloc_witness:
  "\<exists>h' rs. rh_malloc (program_class 16) demo_ops (demo_class, \<lambda>_. 0) = Some (2 ^ 44 + 2 ^ 40, (h', \<lambda>_. 0), rs)
     \<and> heap_live (class_live (program_class 16) False) h' = {2 ^ 44 + 2 ^ 40}"
proof -
  obtain h' rs where c: "rh_malloc (program_class 16) demo_ops (demo_class, \<lambda>_. 0) = Some (2 ^ 44 + 2 ^ 40, (h', \<lambda>_. 0), rs)"
    using demo_malloc by blast
  have "heap_live (class_live (program_class 16) False) demo_class = {}"
    by (simp add: heap_live_def demo_class_def RandomHeap_def)
  with class_malloc [OF demo_env demo_class_inv c] c show ?thesis by auto
qed





end
