(* ===== verification/SizeHeap.thy ===== *)
theory SizeHeap
  imports DieHardClass PageTable
begin

text \<open>
  \<open>DieHardHeap\<close> (\<open>src/include/diehardheap.h\<close>): one random heap per power-of-two size class, reached
  through the virtual functions of \<open>RandomHeapBase\<close>, here the record \<open>heap_ops\<close>.
  \<open>staticlog\<close>, \<open>log2\<close>: theory \<open>MathUtil\<close>.
\<close>

section \<open>Size classes\<close>

definition Alignment :: nat where
  "Alignment = 16"

definition MAX_INDEX :: "nat \<Rightarrow> nat" where
  "MAX_INDEX MaxSize = staticlog (int MaxSize) - staticlog (int Alignment) + 1"

definition getClassSize :: "nat \<Rightarrow> nat" where
  "getClassSize index = push_bit index 1 * Alignment"

definition getIndex :: "nat \<Rightarrow> nat" where
  "getIndex sz = log2 sz - staticlog (int Alignment)"

lemma staticlog_Alignment [simp]: "staticlog (int Alignment) = 4"
  using staticlog_pow2 [of 4] by (simp add: Alignment_def)

lemma MAX_INDEX_pow2: "MAX_INDEX (2 ^ k) = k - 4 + 1"
  by (simp add: MAX_INDEX_def)

lemma getClassSize_pow2: "getClassSize i = 2 ^ (i + 4)"
  by (simp add: getClassSize_def Alignment_def push_bit_nat_mult power_add)

text \<open>The class of a size is the smallest one that holds it.\<close>

lemma getIndex_fits:
  assumes "Alignment \<le> sz"
  shows "sz \<le> getClassSize (getIndex sz)" and "getIndex sz = 0 \<or> getClassSize (getIndex sz - 1) < sz"
    and "sz \<le> 2 ^ k \<Longrightarrow> 4 \<le> k \<Longrightarrow> getIndex sz < MAX_INDEX (2 ^ k)"
proof -
  have "\<not> log2 sz < 4"
  proof
    assume "log2 sz < 4"
    then have "sz \<le> 2 ^ 3" using log2_le_iff [of sz 3] by simp
    with assms show False by (simp add: Alignment_def)
  qed
  then have l: "log2 sz = getIndex sz + 4" by (simp add: getIndex_def)
  show "sz \<le> getClassSize (getIndex sz)" using log2_upper [of sz] l by (simp add: getClassSize_pow2)
  show "getIndex sz = 0 \<or> getClassSize (getIndex sz - 1) < sz"
    using log2_lower [of sz] l assms by (cases "getIndex sz") (auto simp: getClassSize_pow2 Alignment_def add.commute)
  assume "sz \<le> 2 ^ k" "4 \<le> k"
  with l log2_le_iff [of sz k] show "getIndex sz < MAX_INDEX (2 ^ k)" by (simp add: MAX_INDEX_pow2)
qed

section \<open>State and operations\<close>

record 'r heap_ops =
  h_malloc :: "'r heap_malloc"
  h_free :: "'r heap_free"
  h_getSize :: "addr \<Rightarrow> 'r \<Rightarrow> nat"

record sh_params =
  sh_MaxSize :: nat
  sh_DieFastOn :: bool

record 'r size_heap =
  localRandomValue :: u64
  cachedSizeClass :: int
  sh_buf :: "'r list"

definition DieHardHeap :: "sh_params \<Rightarrow> u64 \<Rightarrow> (nat \<Rightarrow> 'r) \<Rightarrow> 'r size_heap" where
  "DieHardHeap Q v heap =
     \<lparr>localRandomValue = v, cachedSizeClass = - 1, sh_buf = map heap [0..<MAX_INDEX (sh_MaxSize Q)]\<rparr>"

definition sh_malloc :: "sh_params \<Rightarrow> (nat \<Rightarrow> 'r heap_ops) \<Rightarrow> 'r size_heap heap_malloc" where
  "sh_malloc Q ops sz hm =
     (let (h, m) = hm
      in if sz > sh_MaxSize Q then Some (0, (h, m), [])
         else let sz = (if sz < Alignment then Alignment else sz);
                  index = getIndex sz;
                  actualSize = getClassSize index
              in case h_malloc (ops index) actualSize (sh_buf h ! index, m) of
                   None \<Rightarrow> None
                 | Some (ptr, (r, m), reports) \<Rightarrow>
                     Some (ptr, (h\<lparr>sh_buf := (sh_buf h)[index := r]\<rparr>,
                       if sh_DieFastOn Q then fill ptr actualSize (localRandomValue h) m else m), reports))"

definition sh_free_at :: "(nat \<Rightarrow> 'r heap_ops) \<Rightarrow> nat \<Rightarrow> 'r size_heap heap_free" where
  "sh_free_at ops i ptr hm =
     (let (h, m) = hm; (ok, (r, m), reports) = h_free (ops i) ptr (sh_buf h ! i, m)
      in (ok, (h\<lparr>sh_buf := (sh_buf h)[i := r]\<rparr>, m), reports))"

fun sh_free_search :: "nat list \<Rightarrow> (nat \<Rightarrow> 'r heap_ops) \<Rightarrow> int \<Rightarrow> addr \<Rightarrow> 'r size_heap \<times> mem \<Rightarrow> report list
    \<Rightarrow> bool \<times> ('r size_heap \<times> mem) \<times> report list" where
  "sh_free_search [] ops cached ptr hm reports = (False, hm, reports)"
| "sh_free_search (i # is) ops cached ptr hm reports =
     (if int i = cached then sh_free_search is ops cached ptr hm reports
      else let (ok, (h, m), rs) = sh_free_at ops i ptr hm
           in if ok then (True, (h\<lparr>cachedSizeClass := int i\<rparr>, m), reports @ rs)
              else sh_free_search is ops cached ptr (h, m) (reports @ rs))"

definition sh_free :: "sh_params \<Rightarrow> (nat \<Rightarrow> 'r heap_ops) \<Rightarrow> 'r size_heap heap_free" where
  "sh_free Q ops ptr hm =
     (let cached = cachedSizeClass (fst hm); n = MAX_INDEX (sh_MaxSize Q)
      in if 0 \<le> cached \<and> cached < int n
         then let (ok, hm, rs) = sh_free_at ops (nat cached) ptr hm
              in if ok then (True, hm, rs) else sh_free_search [0..<n] ops cached ptr hm rs
         else sh_free_search [0..<n] ops cached ptr hm [])"

fun sh_size_search :: "nat list \<Rightarrow> (nat \<Rightarrow> 'r heap_ops) \<Rightarrow> int \<Rightarrow> addr \<Rightarrow> 'r size_heap \<Rightarrow> nat \<times> 'r size_heap" where
  "sh_size_search [] ops cached ptr h = (0, h)"
| "sh_size_search (i # is) ops cached ptr h =
     (if int i = cached then sh_size_search is ops cached ptr h
      else let sz = h_getSize (ops i) ptr (sh_buf h ! i)
           in if sz \<noteq> 0 then (sz, h\<lparr>cachedSizeClass := int i\<rparr>)
              else sh_size_search is ops cached ptr h)"

text \<open>\<open>getSize\<close> without DieHarder; it moves the cached class.\<close>

definition sh_getSize :: "sh_params \<Rightarrow> (nat \<Rightarrow> 'r heap_ops) \<Rightarrow> addr \<Rightarrow> 'r size_heap \<Rightarrow> nat \<times> 'r size_heap" where
  "sh_getSize Q ops ptr h =
     (let cached = cachedSizeClass h; n = MAX_INDEX (sh_MaxSize Q)
      in if 0 \<le> cached \<and> cached < int n
         then let sz = h_getSize (ops (nat cached)) ptr (sh_buf h ! nat cached)
              in if sz \<noteq> 0 then (sz, h) else sh_size_search [0..<n] ops cached ptr h
         else sh_size_search [0..<n] ops cached ptr h)"

text \<open>With DieHarder the page table names the miniheap, and its virtual \<open>getSize\<close> answers.\<close>

definition sh_getSize_dieharder :: "nat \<Rightarrow> page_table \<Rightarrow> (addr \<Rightarrow> addr \<Rightarrow> nat) \<Rightarrow> addr \<Rightarrow> nat" where
  "sh_getSize_dieharder pageSize T mini_size ptr =
     (let heap = pt_getHeap pageSize ptr T in if heap = 0 then 0 else mini_size heap ptr)"

section \<open>The heap of all classes\<close>

definition classes_inv :: "nat \<Rightarrow> (nat \<Rightarrow> 'r \<Rightarrow> bool) \<Rightarrow> 'r size_heap \<Rightarrow> bool" where
  "classes_inv n good h \<longleftrightarrow> length (sh_buf h) = n \<and> (\<forall>i < n. good i (sh_buf h ! i))"

definition classes_union :: "nat \<Rightarrow> (nat \<Rightarrow> 'r \<Rightarrow> addr set) \<Rightarrow> 'r size_heap \<Rightarrow> addr set" where
  "classes_union n X h = (\<Union>i < n. X i (sh_buf h ! i))"

locale size_classes =
  fixes Q :: sh_params
    and ops :: "nat \<Rightarrow> 'r heap_ops"
    and inv :: "nat \<Rightarrow> 'r \<Rightarrow> bool"
    and live :: "nat \<Rightarrow> 'r \<Rightarrow> addr set"
    and inside :: "nat \<Rightarrow> 'r \<Rightarrow> addr set"
    and own :: "nat \<Rightarrow> addr set"
  assumes classes: "i < MAX_INDEX (sh_MaxSize Q) \<Longrightarrow>
      heap_iface (inv i) (live i) (inside i) (own i) (\<lambda>sz. True) (h_malloc (ops i)) (h_free (ops i)) (h_getSize (ops i))"
    and own_apart: "i < MAX_INDEX (sh_MaxSize Q) \<Longrightarrow> j < MAX_INDEX (sh_MaxSize Q) \<Longrightarrow> i \<noteq> j
      \<Longrightarrow> own i \<inter> own j = {}"
    and MaxSize: "\<exists>k \<ge> 4. sh_MaxSize Q = 2 ^ k"
begin

abbreviation n_classes :: nat where
  "n_classes \<equiv> MAX_INDEX (sh_MaxSize Q)"

abbreviation sh_inv :: "'r size_heap \<Rightarrow> bool" where
  "sh_inv \<equiv> classes_inv n_classes inv"

abbreviation sh_live :: "'r size_heap \<Rightarrow> addr set" where
  "sh_live \<equiv> classes_union n_classes live"

abbreviation sh_inside :: "'r size_heap \<Rightarrow> addr set" where
  "sh_inside \<equiv> classes_union n_classes inside"

lemma inside_apart:
  assumes "sh_inv h" and "i < n_classes" and "j < n_classes" and "a \<in> inside i (sh_buf h ! i)" and "a \<in> inside j (sh_buf h ! j)"
  shows "i = j"
  using heap_iface.inside_own [OF classes [OF assms(2)]] heap_iface.inside_own [OF classes [OF assms(3)]]
    own_apart [OF assms(2,3)] assms unfolding classes_inv_def by blast

text \<open>Replacing the heap of one class.\<close>

lemma classes_update:
  assumes "length (sh_buf h) = n_classes" and "i < n_classes"
  shows "classes_union n_classes X (h\<lparr>sh_buf := (sh_buf h)[i := r]\<rparr>)
    = X i r \<union> (\<Union>j \<in> {..<n_classes} - {i}. X j (sh_buf h ! j))"
    and "classes_union n_classes X h = X i (sh_buf h ! i) \<union> (\<Union>j \<in> {..<n_classes} - {i}. X j (sh_buf h ! j))"
proof -
  have split: "(\<Union>j < n_classes. F j) = F i \<union> (\<Union>j \<in> {..<n_classes} - {i}. F j)"
    for F :: "nat \<Rightarrow> addr set" using assms(2) by blast
  have "(\<Union>j \<in> {..<n_classes} - {i}. X j ((sh_buf h)[i := r] ! j)) = (\<Union>j \<in> {..<n_classes} - {i}. X j (sh_buf h ! j))"
    by (intro SUP_cong) simp_all
  then show "classes_union n_classes X (h\<lparr>sh_buf := (sh_buf h)[i := r]\<rparr>)
      = X i r \<union> (\<Union>j \<in> {..<n_classes} - {i}. X j (sh_buf h ! j))"
    using assms by (simp add: classes_union_def split [of "\<lambda>j. X j ((sh_buf h)[i := r] ! j)"])
  show "classes_union n_classes X h = X i (sh_buf h ! i) \<union> (\<Union>j \<in> {..<n_classes} - {i}. X j (sh_buf h ! j))"
    unfolding classes_union_def by (rule split)
qed

lemma inv_update: "sh_inv h \<Longrightarrow> i < n_classes \<Longrightarrow> inv i r \<Longrightarrow> sh_inv (h\<lparr>sh_buf := (sh_buf h)[i := r]\<rparr>)"
  by (auto simp: classes_inv_def nth_list_update)

definition sh_same :: "'r size_heap \<Rightarrow> 'r size_heap \<Rightarrow> bool" where
  "sh_same h h' \<longleftrightarrow> sh_inv h' \<and> (\<forall>i < n_classes. live i (sh_buf h' ! i) = live i (sh_buf h ! i)
     \<and> inside i (sh_buf h' ! i) = inside i (sh_buf h ! i))"

definition sh_freed :: "'r size_heap \<Rightarrow> addr \<Rightarrow> 'r size_heap \<Rightarrow> bool" where
  "sh_freed h a h' \<longleftrightarrow> sh_inv h' \<and> sh_live h' = sh_live h - {a} \<and> sh_inside h' \<subseteq> sh_inside h \<and> a \<notin> sh_inside h'"

lemma same_unions: "sh_same h h' \<Longrightarrow> sh_live h' = sh_live h \<and> sh_inside h' = sh_inside h"
  by (simp add: sh_same_def classes_union_def)

lemma same_trans: "sh_same h h1 \<Longrightarrow> sh_same h1 h2 \<Longrightarrow> sh_same h h2"
  by (simp add: sh_same_def)

lemma freed_same: "sh_same h h1 \<Longrightarrow> sh_freed h1 a h2 \<Longrightarrow> sh_freed h a h2"
  using same_unions [of h h1] by (simp add: sh_freed_def)

text \<open>\<open>j\<close> is the only class the address can lie in.\<close>

definition sole_class :: "'r size_heap \<Rightarrow> addr \<Rightarrow> nat \<Rightarrow> bool" where
  "sole_class h a j \<longleftrightarrow> (\<forall>i < n_classes. i \<noteq> j \<longrightarrow> a \<notin> inside i (sh_buf h ! i))
     \<and> (j < n_classes \<longrightarrow> a \<in> live j (sh_buf h ! j) \<or> a \<notin> inside j (sh_buf h ! j))"

lemma sole_same: "sh_same h h' \<Longrightarrow> sole_class h' a j \<longleftrightarrow> sole_class h a j"
  by (simp add: sh_same_def sole_class_def)

lemma sh_free_at_spec:
  assumes "sh_inv h" and "i < n_classes" and "sole_class h a j" and "sh_free_at ops i a (h, m) = (ok, (h', m'), rs)"
  shows "if i = j \<and> a \<in> live j (sh_buf h ! j) then ok \<and> sh_freed h a h' else \<not> ok \<and> sh_same h h'"
proof -
  have len: "length (sh_buf h) = n_classes" and inv: "inv i (sh_buf h ! i)"
    using assms(1,2) by (auto simp: classes_inv_def)
  obtain r where f: "h_free (ops i) a (sh_buf h ! i, m) = (ok, (r, m'), rs)"
    and h': "h' = h\<lparr>sh_buf := (sh_buf h)[i := r]\<rparr>"
    using assms(4) by (auto simp: sh_free_at_def Let_def split: prod.splits)
  note H = classes [OF assms(2)]
  show ?thesis
  proof (cases "i = j \<and> a \<in> live j (sh_buf h ! j)")
    case True
    then have "a \<in> live i (sh_buf h ! i)" by simp
    note rel = heap_iface.release_live [OF H inv this f]
    have other: "a \<notin> inside k (sh_buf h ! k)" if "k < n_classes" "k \<noteq> i" for k
      using assms(3) that True by (simp add: sole_class_def)
    have "live k (sh_buf h ! k) \<subseteq> inside k (sh_buf h ! k)" if "k < n_classes" for k
      using heap_iface.live_inside [OF classes [OF that]] assms(1) that by (simp add: classes_inv_def)
    with other have other_live: "a \<notin> live k (sh_buf h ! k)" if "k < n_classes" "k \<noteq> i" for k
      using that by blast
    have "sh_freed h a h'"
      unfolding sh_freed_def h' classes_update(1) [OF len assms(2)] classes_update(2) [OF len assms(2)]
      using rel other other_live by (auto simp: inv_update [OF assms(1,2)])
    with rel True show ?thesis by simp
  next
    case False
    then have "a \<notin> inside i (sh_buf h ! i)" using assms(2,3) by (auto simp: sole_class_def)
    note rel = heap_iface.release_outside [OF H inv this f]
    then have "sh_same h h'"
      using inv_update [OF assms(1,2), of r] len assms(2) by (auto simp: sh_same_def h' nth_list_update)
    with rel False show ?thesis by auto
  qed
qed

lemma sh_free_search_spec:
  assumes "sh_inv h" and "set is \<subseteq> {..<n_classes}" and "sole_class h a j"
    and "sh_free_search is ops cached a (h, m) acc = (ok, (h', m'), rs)"
  shows "if j \<in> set is \<and> int j \<noteq> cached \<and> a \<in> live j (sh_buf h ! j) then ok \<and> sh_freed h a h'
    else \<not> ok \<and> sh_same h h'"
  using assms
proof (induction "is" arbitrary: h m acc)
  case Nil
  then show ?case by (auto simp: sh_same_def)
next
  case (Cons i "is")
  show ?case
  proof (cases "int i = cached")
    case True
    with Cons.prems(4) have run: "sh_free_search is ops cached a (h, m) acc = (ok, (h', m'), rs)" by simp
    have sub: "set is \<subseteq> {..<n_classes}" using Cons.prems(2) by simp
    show ?thesis using Cons.IH [OF Cons.prems(1) sub Cons.prems(3) run] True by (auto split: if_splits)
  next
    case False
    obtain k h1 m1 rs1 where at: "sh_free_at ops i a (h, m) = (k, (h1, m1), rs1)" by (metis surj_pair)
    have i: "i < n_classes" using Cons.prems(2) by simp
    note f = sh_free_at_spec [OF Cons.prems(1) i Cons.prems(3) at]
    show ?thesis
    proof (cases k)
      case True
      with Cons.prems(4) at False have "ok" "h' = h1\<lparr>cachedSizeClass := int i\<rparr>" by auto
      moreover have "i = j" "a \<in> live j (sh_buf h ! j)" "sh_freed h a h1" using f True by (auto split: if_splits)
      ultimately show ?thesis using False by (auto simp: sh_freed_def classes_inv_def classes_union_def)
    next
      case k: False
      with Cons.prems(4) at False have run: "sh_free_search is ops cached a (h1, m1) (acc @ rs1) = (ok, (h', m'), rs)"
        by simp
      have same: "sh_same h h1" and no: "\<not> (i = j \<and> a \<in> live j (sh_buf h ! j))" using f k by (auto split: if_splits)
      have h1: "sh_inv h1" "sole_class h1 a j" using same Cons.prems(3) sole_same by (auto simp: sh_same_def)
      have lj: "live j (sh_buf h1 ! j) = live j (sh_buf h ! j)" if "j < n_classes"
        using same that by (simp add: sh_same_def)
      have sub: "set is \<subseteq> {..<n_classes}" using Cons.prems(2) by simp
      show ?thesis
        using Cons.IH [OF h1(1) sub h1(2) run] no sub lj same freed_same [OF same] same_trans [OF same] Cons.prems(2)
        by (auto split: if_splits)
    qed
  qed
qed

lemma sh_free_spec:
  assumes "sh_inv h" and "sole_class h a j" and "sh_free Q ops a (h, m) = (ok, (h', m'), rs)"
  shows "if j < n_classes \<and> a \<in> live j (sh_buf h ! j) then ok \<and> sh_freed h a h' else \<not> ok \<and> sh_same h h'"
proof (cases "0 \<le> cachedSizeClass h \<and> cachedSizeClass h < int n_classes")
  case True
  let ?c = "nat (cachedSizeClass h)"
  obtain k h1 m1 rs1 where at: "sh_free_at ops ?c a (h, m) = (k, (h1, m1), rs1)" by (metis surj_pair)
  have c: "?c < n_classes" using True by linarith
  note f = sh_free_at_spec [OF assms(1) c assms(2) at]
  show ?thesis
  proof (cases k)
    case k: True
    with assms(3) at True have "ok" "h' = h1" by (auto simp: sh_free_def Let_def)
    with f k c show ?thesis by (auto split: if_splits)
  next
    case k: False
    with assms(3) at True have run: "sh_free_search [0..<n_classes] ops (cachedSizeClass h) a (h1, m1) rs1 = (ok, (h', m'), rs)"
      by (simp add: sh_free_def Let_def)
    have same: "sh_same h h1" and no: "\<not> (?c = j \<and> a \<in> live j (sh_buf h ! j))" using f k by (auto split: if_splits)
    have h1: "sh_inv h1" "sole_class h1 a j" using same assms(2) sole_same by (auto simp: sh_same_def)
    have lj: "live j (sh_buf h1 ! j) = live j (sh_buf h ! j)" if "j < n_classes"
      using same that by (simp add: sh_same_def)
    have cj: "int j \<noteq> cachedSizeClass h" if "j \<noteq> ?c" using that True by linarith
    have sub: "set [0..<n_classes] \<subseteq> {..<n_classes}" by auto
    show ?thesis
      using sh_free_search_spec [OF h1(1) sub h1(2) run] no lj cj same freed_same [OF same] same_trans [OF same]
      by (auto split: if_splits)
  qed
next
  case False
  with assms(3) have run: "sh_free_search [0..<n_classes] ops (cachedSizeClass h) a (h, m) [] = (ok, (h', m'), rs)"
    by (auto simp: sh_free_def Let_def)
  have "set [0..<n_classes] \<subseteq> {..<n_classes}" by auto
  from sh_free_search_spec [OF assms(1) this assms(2) run] False show ?thesis by (auto split: if_splits)
qed

text \<open>\<open>malloc\<close> takes from the class of the size; a size beyond \<open>MaxSize\<close> gives null.\<close>

lemma index_less: "sz \<le> sh_MaxSize Q \<Longrightarrow> Alignment \<le> sz \<Longrightarrow> getIndex sz < n_classes"
  using MaxSize getIndex_fits(3) by auto

lemma clamped_index: "sz \<le> sh_MaxSize Q \<Longrightarrow> getIndex (if sz < Alignment then Alignment else sz) < n_classes"
proof -
  obtain k where "4 \<le> k" "sh_MaxSize Q = 2 ^ k" using MaxSize by auto
  moreover have "(2::nat) ^ 4 \<le> 2 ^ k" using calculation(1) by (intro power_increasing) auto
  ultimately have "Alignment \<le> sh_MaxSize Q" by (simp add: Alignment_def)
  then show "sz \<le> sh_MaxSize Q \<Longrightarrow> ?thesis" using index_less by simp
qed

lemma sh_malloc_spec:
  assumes "sh_inv h" and "sh_malloc Q ops sz (h, m) = Some (a, (h', m'), rs)"
  shows "sh_inv h' \<and> ((a = 0 \<and> sh_live h' = sh_live h \<and> sh_inside h' = sh_inside h)
    \<or> (a \<noteq> 0 \<and> a \<notin> sh_inside h \<and> sh_live h' = insert a (sh_live h) \<and> sh_inside h \<subseteq> sh_inside h'))"
    and "a \<noteq> 0 \<Longrightarrow> a \<in> own (getIndex (if sz < Alignment then Alignment else sz)) \<and> sz \<le> sh_MaxSize Q"
proof -
  let ?i = "getIndex (if sz < Alignment then Alignment else sz)"
  have both: "sh_inv h' \<and> ((a = 0 \<and> sh_live h' = sh_live h \<and> sh_inside h' = sh_inside h)
    \<or> (a \<noteq> 0 \<and> a \<notin> sh_inside h \<and> sh_live h' = insert a (sh_live h) \<and> sh_inside h \<subseteq> sh_inside h'))
    \<and> (a \<noteq> 0 \<longrightarrow> a \<in> own ?i \<and> sz \<le> sh_MaxSize Q)"
  proof (cases "sz > sh_MaxSize Q")
    case True
    with assms show ?thesis by (auto simp: sh_malloc_def)
  next
    case False
    have i: "?i < n_classes" using clamped_index False by simp
    have len: "length (sh_buf h) = n_classes" and inv: "inv ?i (sh_buf h ! ?i)"
      using assms(1) i by (auto simp: classes_inv_def)
    obtain r m1 where al: "h_malloc (ops ?i) (getClassSize ?i) (sh_buf h ! ?i, m) = Some (a, (r, m1), rs)"
      and h': "h' = h\<lparr>sh_buf := (sh_buf h)[?i := r]\<rparr>"
      using assms(2) False by (auto simp: sh_malloc_def Let_def split: option.splits prod.splits)
    note H = classes [OF i]
    note res = heap_iface.alloc_result [OF H inv TrueI al]
    have inv': "inv ?i r" using res by simp
    show ?thesis
    proof (cases "a = 0")
      case True
      with res show ?thesis
        unfolding h' classes_update(1) [OF len i] classes_update(2) [OF len i]
        by (simp add: inv_update [OF assms(1) i])
    next
      case a: False
      then have own: "a \<in> own ?i" by (rule heap_iface.alloc_fresh(3) [OF H inv TrueI al])
      have "a \<notin> inside k (sh_buf h ! k)" if "k < n_classes" "k \<noteq> ?i" for k
        using heap_iface.inside_own [OF classes [OF that(1)]] own_apart [OF that(1) i that(2)] own assms(1) that
        by (auto simp: classes_inv_def)
      with res a own False show ?thesis
        unfolding h' classes_update(1) [OF len i] classes_update(2) [OF len i]
        by (auto simp: inv_update [OF assms(1) i])
    qed
  qed
  then show "sh_inv h' \<and> ((a = 0 \<and> sh_live h' = sh_live h \<and> sh_inside h' = sh_inside h)
    \<or> (a \<noteq> 0 \<and> a \<notin> sh_inside h \<and> sh_live h' = insert a (sh_live h) \<and> sh_inside h \<subseteq> sh_inside h'))"
    "a \<noteq> 0 \<Longrightarrow> a \<in> own ?i \<and> sz \<le> sh_MaxSize Q" by blast+
qed

text \<open>The size does not depend on the cached class when the owners give nonzero sizes only.\<close>

lemma size_search_foreign:
  assumes "sh_inv h" and "set is \<subseteq> {..<n_classes}" and "\<forall>i < n_classes. a \<notin> own i"
  shows "fst (sh_size_search is ops cached a h) = 0"
  using assms(2)
proof (induction "is")
  case (Cons i "is")
  then have "h_getSize (ops i) a (sh_buf h ! i) = 0"
    using heap_iface.size_foreign [OF classes] assms(1,3) by (simp add: classes_inv_def)
  with Cons show ?case by simp
qed simp

lemma size_search_live:
  assumes "sh_inv h" and "j < n_classes" and "a \<in> live j (sh_buf h ! j)" and "j \<in> set is"
    and "set is \<subseteq> {..<n_classes}" and "int j \<noteq> cached"
  shows "fst (sh_size_search is ops cached a h) = h_getSize (ops j) a (sh_buf h ! j)"
  using assms(4,5)
proof (induction "is")
  case (Cons i "is")
  have inv: "inv k (sh_buf h ! k)" if "k < n_classes" for k using assms(1) that by (simp add: classes_inv_def)
  have nz: "h_getSize (ops j) a (sh_buf h ! j) \<noteq> 0"
    using heap_iface.size_live [OF classes [OF assms(2)] inv [OF assms(2)] assms(3)] .
  have own: "a \<in> own j"
    using heap_iface.live_inside [OF classes [OF assms(2)] inv [OF assms(2)]]
      heap_iface.inside_own [OF classes [OF assms(2)] inv [OF assms(2)]] assms(3) by blast
  show ?case
  proof (cases "i = j")
    case True
    with nz assms(6) show ?thesis by (simp add: Let_def)
  next
    case False
    have i: "i < n_classes" using Cons.prems(2) by simp
    have "a \<notin> own i" using own own_apart [OF i assms(2) False] by blast
    then have "h_getSize (ops i) a (sh_buf h ! i) = 0"
      by (rule heap_iface.size_foreign [OF classes [OF i] inv [OF i]])
    with False Cons show ?thesis by simp
  qed
qed simp

lemma sh_getSize_live:
  assumes "sh_inv h" and "j < n_classes" and "a \<in> live j (sh_buf h ! j)"
  shows "fst (sh_getSize Q ops a h) = h_getSize (ops j) a (sh_buf h ! j)"
proof (cases "0 \<le> cachedSizeClass h \<and> cachedSizeClass h < int n_classes")
  case True
  let ?c = "nat (cachedSizeClass h)"
  have c: "?c < n_classes" using True by linarith
  have inv: "inv k (sh_buf h ! k)" if "k < n_classes" for k using assms(1) that by (simp add: classes_inv_def)
  have own: "a \<in> own j"
    using heap_iface.live_inside [OF classes [OF assms(2)] inv [OF assms(2)]]
      heap_iface.inside_own [OF classes [OF assms(2)] inv [OF assms(2)]] assms(3) by blast
  show ?thesis
  proof (cases "?c = j")
    case cj: True
    with True heap_iface.size_live [OF classes [OF assms(2)] inv [OF assms(2)] assms(3)] show ?thesis
      by (simp add: sh_getSize_def Let_def)
  next
    case False
    have "a \<notin> own ?c" using own own_apart [OF c assms(2) False] by blast
    then have "h_getSize (ops ?c) a (sh_buf h ! ?c) = 0"
      by (rule heap_iface.size_foreign [OF classes [OF c] inv [OF c]])
    moreover have "int j \<noteq> cachedSizeClass h" using False by auto
    ultimately show ?thesis
      using size_search_live [OF assms, of "[0..<n_classes]" "cachedSizeClass h"] assms(2) True
      by (auto simp: sh_getSize_def Let_def atLeast0LessThan)
  qed
next
  case False
  have "int j \<noteq> cachedSizeClass h" using False assms(2) by auto
  with size_search_live [OF assms, of "[0..<n_classes]" "cachedSizeClass h"] assms(2) False show ?thesis
    by (auto simp: sh_getSize_def Let_def atLeast0LessThan)
qed

lemma sole_class_exists:
  assumes "sh_inv h" and "a \<in> sh_live h \<or> a \<notin> sh_inside h"
  obtains j where "sole_class h a j" and "a \<in> sh_live h \<Longrightarrow> j < n_classes \<and> a \<in> live j (sh_buf h ! j)"
    and "a \<notin> sh_inside h \<Longrightarrow> \<not> (j < n_classes \<and> a \<in> live j (sh_buf h ! j))"
proof (cases "a \<in> sh_live h")
  case True
  then obtain j where j: "j < n_classes" "a \<in> live j (sh_buf h ! j)" by (auto simp: classes_union_def)
  have sub: "live j (sh_buf h ! j) \<subseteq> inside j (sh_buf h ! j)"
    using heap_iface.live_inside [OF classes [OF j(1)]] assms(1) j(1) by (simp add: classes_inv_def)
  then have "sole_class h a j"
    using inside_apart [OF assms(1)] j by (auto simp: sole_class_def)
  moreover have "a \<in> sh_inside h" using j sub by (auto simp: classes_union_def)
  ultimately show thesis using that j by blast
next
  case False
  then have out: "a \<notin> sh_inside h" using assms(2) by blast
  then have "sole_class h a n_classes" by (auto simp: sole_class_def classes_union_def)
  with that False show thesis by blast
qed

end

section \<open>DieHardHeap is a heap\<close>

sublocale size_classes \<subseteq> sh: heap_iface sh_inv sh_live sh_inside "\<Union>i < n_classes. own i" "\<lambda>sz. True"
    "sh_malloc Q ops" "sh_free Q ops" "\<lambda>a h. fst (sh_getSize Q ops a h)"
proof
  fix h assume inv: "sh_inv h"
  note one = classes [THEN heap_iface.live_inside] classes [THEN heap_iface.inside_own]
  show "sh_live h \<subseteq> sh_inside h"
    using one(1) inv unfolding classes_union_def classes_inv_def by blast
  show "sh_inside h \<subseteq> (\<Union>i < n_classes. own i)"
    using one(2) inv unfolding classes_union_def classes_inv_def by blast
  fix a
  show "fst (sh_getSize Q ops a h) \<noteq> 0" if live: "a \<in> sh_live h"
  proof -
    obtain j where j: "j < n_classes" "a \<in> live j (sh_buf h ! j)" using live by (auto simp: classes_union_def)
    have "inv j (sh_buf h ! j)" using inv j by (simp add: classes_inv_def)
    from heap_iface.size_live [OF classes [OF j(1)] this j(2)] sh_getSize_live [OF inv j] show ?thesis by simp
  qed
  show "fst (sh_getSize Q ops a h) = 0" if out: "a \<notin> (\<Union>i < n_classes. own i)"
  proof -
    have "h_getSize (ops i) a (sh_buf h ! i) = 0" if "i < n_classes" for i
      using heap_iface.size_foreign [OF classes [OF that]] inv out that by (simp add: classes_inv_def)
    moreover have "fst (sh_size_search [0..<n_classes] ops c a h) = 0" for c
      by (rule size_search_foreign [OF inv]) (use out in auto)
    ultimately show ?thesis by (auto simp: sh_getSize_def Let_def)
  qed
next
  show "0 \<notin> (\<Union>i < n_classes. own i)" using heap_iface.null_foreign [OF classes] by blast
next
  fix sz h m a h' m' rs
  assume "sh_inv h" and "sh_malloc Q ops sz (h, m) = Some (a, (h', m'), rs)"
  then show "sh_inv h' \<and> ((a = 0 \<and> sh_live h' = sh_live h \<and> sh_inside h' = sh_inside h)
    \<or> (a \<noteq> 0 \<and> a \<notin> sh_inside h \<and> sh_live h' = insert a (sh_live h) \<and> sh_inside h \<subseteq> sh_inside h'))"
    by (rule sh_malloc_spec(1))
next
  fix h a m ok h' m' rs
  assume inv: "sh_inv h" and run: "sh_free Q ops a (h, m) = (ok, (h', m'), rs)"
  {
    assume live: "a \<in> sh_live h"
    then obtain j where j: "sole_class h a j" "j < n_classes \<and> a \<in> live j (sh_buf h ! j)"
      using sole_class_exists [OF inv] by metis
    with sh_free_spec [OF inv j(1) run] show "ok \<and> sh_inv h' \<and> sh_live h' = sh_live h - {a}
        \<and> sh_inside h' \<subseteq> sh_inside h \<and> a \<notin> sh_inside h'" by (auto simp: sh_freed_def)
  }
  {
    assume out: "a \<notin> sh_inside h"
    then obtain j where j: "sole_class h a j" "\<not> (j < n_classes \<and> a \<in> live j (sh_buf h ! j))"
      using sole_class_exists [OF inv] by metis
    with sh_free_spec [OF inv j(1) run] have "\<not> ok" "sh_same h h'" by (auto split: if_splits)
    with same_unions [of h h'] show "\<not> ok \<and> sh_inv h' \<and> sh_live h' = sh_live h \<and> sh_inside h' = sh_inside h"
      by (simp add: sh_same_def)
  }
qed

section \<open>The classes of libdieharder\<close>

definition class_ops :: "rh_params \<Rightarrow> bool \<Rightarrow> heap_env \<Rightarrow> mini_diehard random_heap heap_ops" where
  "class_ops P df E = \<lparr>h_malloc = (\<lambda>sz. rh_malloc P (dh_ops P df E)), h_free = rh_free (dh_ops P df E),
     h_getSize = rh_getSize (dh_ops P df E)\<rparr>"

definition program_sh :: "bool \<Rightarrow> sh_params" where
  "program_sh df = \<lparr>sh_MaxSize = 1048576, sh_DieFastOn = df\<rparr>"

definition class_inv :: "bool \<Rightarrow> nat \<Rightarrow> mini_diehard random_heap \<Rightarrow> bool" where
  "class_inv df c = heap_inv (program_class c) mini_fresh (class_ready (program_class c) df (program_env c))
     (class_live (program_class c) df)"

definition class_objects :: "bool \<Rightarrow> nat \<Rightarrow> mini_diehard random_heap \<Rightarrow> addr set" where
  "class_objects df c = heap_live (class_live (program_class c) df)"

definition class_inside :: "bool \<Rightarrow> nat \<Rightarrow> mini_diehard random_heap \<Rightarrow> addr set" where
  "class_inside df c = heap_inside (class_region (program_class c) (program_env c))
     (class_slot (program_class c) df) (class_live (program_class c) df)"

definition class_own :: "nat \<Rightarrow> addr set" where
  "class_own c = (\<Union>i < 11. class_region (program_class c) (program_env c) i)"

definition program_ops :: "bool \<Rightarrow> nat \<Rightarrow> mini_diehard random_heap heap_ops" where
  "program_ops df c = class_ops (program_class c) df (program_env c)"

lemma program_classes [simp]: "MAX_INDEX (sh_MaxSize (program_sh df)) = 17"
  using MAX_INDEX_pow2 [of 20] by (simp add: program_sh_def)

lemma class_own_range:
  assumes "c < 17"
  shows "class_own c \<subseteq> {2 ^ 44 + c * 2 ^ 36..<2 ^ 44 + Suc c * 2 ^ 36}"
proof -
  have "class_region (program_class c) (program_env c) i \<subseteq> {2 ^ 44 + c * 2 ^ 36..<2 ^ 44 + Suc c * 2 ^ 36}"
    if "i < 11" for i
  proof -
    have "(2::nat) ^ (20 + (i - 1)) \<le> 2 ^ 29" using that by (intro power_increasing) auto
    then show ?thesis using that
      by (auto simp: class_region_def program_bytes [OF assms] program_env_def)
  qed
  then show ?thesis by (auto simp: class_own_def)
qed

interpretation program_heap: size_classes "program_sh df" "program_ops df" "class_inv df" "class_objects df"
    "class_inside df" class_own for df
proof (rule size_classes.intro)
  fix i assume "i < MAX_INDEX (sh_MaxSize (program_sh df))"
  then have i: "i mod 17 = i" by simp
  show "heap_iface (class_inv df i) (class_objects df i) (class_inside df i) (class_own i) (\<lambda>sz. True)
      (h_malloc (program_ops df i)) (h_free (program_ops df i)) (h_getSize (program_ops df i))"
    using program.rh.heap_iface_axioms [of i df] unfolding i
    by (simp add: class_inv_def class_objects_def class_inside_def class_own_def program_ops_def class_ops_def
        program_MAX)
next
  fix i j assume "i < MAX_INDEX (sh_MaxSize (program_sh df))" "j < MAX_INDEX (sh_MaxSize (program_sh df))" "i \<noteq> j"
  then show "class_own i \<inter> class_own j = {}"
    using class_own_range [of i] class_own_range [of j] by (fastforce simp: neq_iff)
next
  show "\<exists>k \<ge> 4. sh_MaxSize (program_sh df) = 2 ^ k" by (rule exI [of _ 20]) (simp add: program_sh_def)
qed

section \<open>Properties\<close>

text \<open>Size classes: for a request of at least \<open>Alignment\<close> bytes, \<open>getIndex\<close> picks the smallest class
  whose objects are large enough, and every request up to a power-of-two \<open>MaxSize\<close> gets one of the
  \<open>MAX_INDEX\<close> classes.\<close>

theorem size_class_fits:
  assumes "Alignment \<le> sz"
  shows "sz \<le> getClassSize (getIndex sz) \<and> (getIndex sz = 0 \<or> getClassSize (getIndex sz - 1) < sz)
    \<and> (\<forall>k. sz \<le> 2 ^ k \<and> 4 \<le> k \<longrightarrow> getIndex sz < MAX_INDEX (2 ^ k))"
  using getIndex_fits [OF assms] by blast

theorem size_class_fits_witness: "(100::nat) \<le> getClassSize (getIndex 100) \<and> getClassSize (getIndex 100 - 1) < 100"
proof -
  have "\<not> log2 100 \<le> 4" by (simp add: log2_le_iff)
  then have "getIndex 100 \<noteq> 0" using staticlog_pow2 [of 4] by (simp add: getIndex_def Alignment_def)
  with size_class_fits [of 100] show ?thesis by (simp add: Alignment_def)
qed

end
