(* ===== verification/LargeHeap.thy ===== *)
theory LargeHeap
  imports HeapInterface
begin

text \<open>
  \<open>LargeHeap\<close> (\<open>src/include/largeheap.h\<close>) serves large requests by \<open>Mapper::map\<close> and keeps, in a
  hash map from addresses, the number of bytes left in the object for the start of every page of it.
  The map is a partial function; \<open>lh_unmapped\<close> logs the calls of \<open>Mapper::unmap\<close>.  The answer of
  \<open>Mapper::map\<close> is a function \<open>mapper\<close> of the state and the size (0 is failure), \<open>ps\<close> is
  \<open>CPUInfo::PageSize\<close>.  \<open>int iterations\<close> is read modulo \<open>2 ^ 32\<close>.
\<close>

record large_heap =
  objectSize :: "addr \<Rightarrow> nat option"
  lh_unmapped :: "(addr \<times> nat) list"

definition LargeHeap :: large_heap where
  "LargeHeap = \<lparr>objectSize = (\<lambda>_. None), lh_unmapped = []\<rparr>"

definition lh_get :: "addr \<Rightarrow> large_heap \<Rightarrow> nat" where
  "lh_get ptr h = (case objectSize h ptr of None \<Rightarrow> 0 | Some s \<Rightarrow> s)"

definition lh_iterations :: "nat \<Rightarrow> nat \<Rightarrow> nat" where
  "lh_iterations ps sz = loop_bound ((sz + ps - 1) mod 2 ^ 64 div ps)"

fun set_pages :: "nat \<Rightarrow> nat \<Rightarrow> addr \<Rightarrow> nat \<Rightarrow> nat \<Rightarrow> (addr \<Rightarrow> nat option) \<Rightarrow> addr \<Rightarrow> nat option" where
  "set_pages 0 ps ptr i currSize f = f"
| "set_pages (Suc n) ps ptr i currSize f =
     set_pages n ps ptr (i + 1) (sub64 currSize ps) (f(ptr + i * ps \<mapsto> currSize))"

definition lh_set :: "nat \<Rightarrow> addr \<Rightarrow> nat \<Rightarrow> large_heap \<Rightarrow> large_heap" where
  "lh_set ps ptr sz h =
     h\<lparr>objectSize := set_pages (lh_iterations ps sz) ps ptr 0 sz (objectSize h)\<rparr>"

fun erase_pages :: "nat \<Rightarrow> nat \<Rightarrow> addr \<Rightarrow> nat \<Rightarrow> (addr \<Rightarrow> nat option) \<Rightarrow> addr \<Rightarrow> nat option" where
  "erase_pages 0 ps ptr i f = f"
| "erase_pages (Suc n) ps ptr i f = erase_pages n ps ptr (i + 1) (f(ptr + i * ps := None))"

definition lh_clear :: "nat \<Rightarrow> addr \<Rightarrow> large_heap \<Rightarrow> large_heap" where
  "lh_clear ps ptr h =
     (let sz = lh_get ptr h
      in h\<lparr>objectSize := erase_pages (lh_iterations ps sz) ps ptr 0 (objectSize h)\<rparr>)"

definition lh_malloc :: "nat \<Rightarrow> (large_heap \<Rightarrow> nat \<Rightarrow> addr) \<Rightarrow> large_heap heap_malloc" where
  "lh_malloc ps mapper sz hm =
     (let (h, m) = hm; ptr = mapper h sz
      in Some (ptr, (lh_set ps ptr sz h, m), []))"

definition lh_free :: "nat \<Rightarrow> large_heap heap_free" where
  "lh_free ps ptr hm =
     (let (h, m) = hm; sz = lh_get ptr h
      in if sz > 0
         then (True, (lh_clear ps ptr (h\<lparr>lh_unmapped := lh_unmapped h @ [(ptr, sz)]\<rparr>), m), [])
         else (False, (h, m), []))"

definition lh_getSize :: "addr \<Rightarrow> large_heap \<Rightarrow> nat" where
  "lh_getSize ptr h = (let s = lh_get ptr h in s)"

section \<open>The loops\<close>

lemma set_pages_eq:
  assumes "0 < ps" and "\<And>j. j < n \<Longrightarrow> j * ps < c" and "c < 2 ^ 64"
  shows "set_pages n ps ptr i c f x =
    (if \<exists>j < n. x = ptr + (i + j) * ps then Some (c - (x - (ptr + i * ps))) else f x)"
  using assms(2,3)
proof (induction n arbitrary: i c f)
  case (Suc n)
  have step: "j * ps < sub64 c ps" if "j < n" for j
  proof -
    have "Suc j * ps < c" using Suc.prems(1) [of "Suc j"] that by simp
    then show ?thesis using Suc.prems(2) by (subst sub64_le) auto
  qed
  show ?case
  proof (cases "n = 0")
    case True
    then show ?thesis using assms(1) by auto
  next
    case False
    have "1 * ps < c" using Suc.prems(1) [of 1] False by simp
    then have s: "sub64 c ps = c - ps" using Suc.prems(2) by (intro sub64_le) auto
    let ?B = "\<exists>j < n. x = ptr + (i + 1 + j) * ps"
    have IH: "set_pages (Suc n) ps ptr i c f x =
        (if ?B then Some (c - ps - (x - (ptr + (i + 1) * ps))) else (f(ptr + i * ps \<mapsto> c)) x)"
      using Suc.IH [OF step, of "i + 1" "f(ptr + i * ps \<mapsto> c)"] Suc.prems(2) unfolding s
      by (simp only: set_pages.simps s)
    have either: "(\<exists>j < Suc n. x = ptr + (i + j) * ps) \<longleftrightarrow> x = ptr + i * ps \<or> ?B"
      by (auto simp: less_Suc_eq_0_disj)
    show ?thesis
    proof (cases ?B)
      case True
      then obtain j where j: "j < n" "x = ptr + (i + 1 + j) * ps" by blast
      then have "c - ps - (x - (ptr + (i + 1) * ps)) = c - (x - (ptr + i * ps))" by (simp add: algebra_simps)
      with IH True either show ?thesis by simp
    next
      case no: False
      with IH either show ?thesis by auto
    qed
  qed
qed simp

lemma erase_pages_eq:
  "erase_pages n ps ptr i f x = (if \<exists>j < n. x = ptr + (i + j) * ps then None else f x)"
proof (induction n arbitrary: i f)
  case (Suc n)
  have "(\<exists>j < Suc n. x = ptr + (i + j) * ps) \<longleftrightarrow> x = ptr + i * ps \<or> (\<exists>j < n. x = ptr + (i + 1 + j) * ps)"
    by (auto simp: less_Suc_eq_0_disj)
  then show ?case using Suc.IH [of "i + 1"] by auto
qed simp

text \<open>Sizes for which none of the conversions wraps.\<close>

definition lh_serves :: "nat \<Rightarrow> nat \<Rightarrow> bool" where
  "lh_serves ps sz \<longleftrightarrow> 0 < sz \<and> sz + ps \<le> 2 ^ 63 \<and> (sz + ps - 1) div ps < 2 ^ 31"

lemma lh_iterations_eq: "lh_serves ps sz \<Longrightarrow> lh_iterations ps sz = (sz + ps - 1) div ps"
proof -
  assume s: "lh_serves ps sz"
  then have "sz + ps - 1 < 2 ^ 64" by (auto simp: lh_serves_def)
  then have "(sz + ps - 1) mod 2 ^ 64 = sz + ps - 1" by (rule mod_less)
  then show ?thesis using s loop_bound_eq by (simp add: lh_iterations_def lh_serves_def)
qed

lemma page_count: "0 < ps \<Longrightarrow> j < (sz + ps - 1) div ps \<longleftrightarrow> j * ps < (sz::nat)"
proof -
  assume ps: "0 < ps"
  have "j < (sz + ps - 1) div ps \<longleftrightarrow> Suc j \<le> (sz + ps - 1) div ps" by (rule less_eq_Suc_le)
  also have "\<dots> \<longleftrightarrow> Suc j * ps \<le> sz + ps - 1" using ps by (simp add: less_eq_div_iff_mult_less_eq)
  finally show ?thesis using ps by auto
qed

lemma lh_set_eq:
  assumes "0 < ps" and "lh_serves ps sz"
  shows "objectSize (lh_set ps ptr sz h) x =
    (if \<exists>j. j * ps < sz \<and> x = ptr + j * ps then Some (sz - (x - ptr)) else objectSize h x)"
proof -
  have "sz < 2 ^ 64" using assms(2) by (simp add: lh_serves_def)
  note eq = set_pages_eq [OF assms(1) page_count [OF assms(1), THEN iffD1] this, where ptr = ptr and i = 0
      and f = "objectSize h" and x = x]
  have "objectSize (lh_set ps ptr sz h) x = set_pages ((sz + ps - 1) div ps) ps ptr 0 sz (objectSize h) x"
    by (simp only: lh_set_def lh_iterations_eq [OF assms(2)]) simp
  then show ?thesis using eq [unfolded mult_0 add_0_right] page_count [OF assms(1)] by simp
qed

lemma lh_clear_eq:
  assumes "0 < ps" and "objectSize h ptr = Some sz" and "lh_serves ps sz"
  shows "objectSize (lh_clear ps ptr h) x =
    (if \<exists>j. j * ps < sz \<and> x = ptr + j * ps then None else objectSize h x)"
proof -
  have "objectSize (lh_clear ps ptr h) x = erase_pages ((sz + ps - 1) div ps) ps ptr 0 (objectSize h) x"
    using assms(2) by (simp add: lh_clear_def lh_get_def Let_def lh_iterations_eq [OF assms(3)])
  then show ?thesis using page_count [OF assms(1)] by (simp add: erase_pages_eq)
qed

section \<open>Objects\<close>

text \<open>
  The map represents a set of objects \<open>B\<close> (start and size).  The start of an object is an entry
  that does not continue the entry of the page before it.
\<close>

definition lh_rep :: "nat \<Rightarrow> addr set \<Rightarrow> (addr \<Rightarrow> nat option) \<Rightarrow> (addr \<Rightarrow> nat option) \<Rightarrow> bool" where
  "lh_rep ps own B f \<longleftrightarrow> finite (dom B)
     \<and> (\<forall>b s. B b = Some s \<longrightarrow> lh_serves ps s \<and> ps dvd b \<and> {b..<b + s} \<subseteq> own)
     \<and> (\<forall>b s c t. B b = Some s \<and> B c = Some t \<and> b \<noteq> c \<longrightarrow> {b..<b + s} \<inter> {c..<c + t} = {})
     \<and> (\<forall>k v. f k = Some v \<longleftrightarrow> (\<exists>b s j. B b = Some s \<and> j * ps < s \<and> k = b + j * ps \<and> v = s - j * ps))"

definition lh_inv :: "nat \<Rightarrow> addr set \<Rightarrow> large_heap \<Rightarrow> bool" where
  "lh_inv ps own h \<longleftrightarrow> (\<exists>B. lh_rep ps own B (objectSize h))"

definition lh_live :: "nat \<Rightarrow> large_heap \<Rightarrow> addr set" where
  "lh_live ps h = {k. \<exists>v. objectSize h k = Some v \<and> 0 < v \<and> (k < ps \<or> objectSize h (k - ps) \<noteq> Some (v + ps))}"

definition lh_inside :: "large_heap \<Rightarrow> addr set" where
  "lh_inside h = {a. \<exists>k v. objectSize h k = Some v \<and> k \<le> a \<and> a < k + v}"

lemma lh_repD:
  assumes "lh_rep ps own B f"
  shows "finite (dom B)" "B b = Some s \<Longrightarrow> lh_serves ps s \<and> ps dvd b \<and> {b..<b + s} \<subseteq> own"
    "B b = Some s \<Longrightarrow> B c = Some t \<Longrightarrow> b \<noteq> c \<Longrightarrow> {b..<b + s} \<inter> {c..<c + t} = {}"
    "f k = Some v \<longleftrightarrow> (\<exists>b s j. B b = Some s \<and> j * ps < s \<and> k = b + j * ps \<and> v = s - j * ps)"
  using assms unfolding lh_rep_def by blast+

lemma rep_inside:
  assumes "lh_rep ps own B (objectSize h)" and "0 < ps"
  shows "a \<in> lh_inside h \<longleftrightarrow> (\<exists>b s. B b = Some s \<and> b \<le> a \<and> a < b + s)"
proof
  assume "a \<in> lh_inside h"
  then obtain k v where "objectSize h k = Some v" "k \<le> a" "a < k + v" by (auto simp: lh_inside_def)
  then show "\<exists>b s. B b = Some s \<and> b \<le> a \<and> a < b + s"
    unfolding lh_repD(4) [OF assms(1)] by fastforce
next
  assume "\<exists>b s. B b = Some s \<and> b \<le> a \<and> a < b + s"
  then obtain b s where b: "B b = Some s" "b \<le> a" "a < b + s" by blast
  then have "0 * ps < s" by simp
  then have "objectSize h b = Some s" unfolding lh_repD(4) [OF assms(1)] using b(1) by force
  with b show "a \<in> lh_inside h" by (auto simp: lh_inside_def)
qed

lemma rep_entry: "lh_rep ps own B f \<Longrightarrow> B b = Some s \<Longrightarrow> f b = Some s"
proof -
  assume r: "lh_rep ps own B f" and b: "B b = Some s"
  have "0 * ps < s" using lh_repD(2) [OF r b] by (simp add: lh_serves_def)
  then show "f b = Some s" unfolding lh_repD(4) [OF r] using b by force
qed

lemma rep_live:
  assumes "lh_rep ps own B (objectSize h)" and "0 < ps"
  shows "lh_live ps h = dom B"
proof (intro set_eqI iffI)
  fix k assume "k \<in> lh_live ps h"
  then obtain v where v: "objectSize h k = Some v" "k < ps \<or> objectSize h (k - ps) \<noteq> Some (v + ps)"
    by (auto simp: lh_live_def)
  then obtain b s j where j: "B b = Some s" "j * ps < s" "k = b + j * ps" "v = s - j * ps"
    unfolding lh_repD(4) [OF assms(1)] by blast
  have "j = 0"
  proof (cases j)
    case (Suc i)
    then have "k - ps = b + i * ps" "v + ps = s - i * ps" "i * ps < s" "\<not> k < ps" using j by auto
    with j(1) have "objectSize h (k - ps) = Some (v + ps)" unfolding lh_repD(4) [OF assms(1)] by blast
    with v(2) \<open>\<not> k < ps\<close> show ?thesis by simp
  qed
  with j show "k \<in> dom B" by auto
next
  fix b assume "b \<in> dom B"
  then obtain s where b: "B b = Some s" by blast
  have s: "0 < s" using lh_repD(2) [OF assms(1) b] by (simp add: lh_serves_def)
  have "objectSize h (b - ps) \<noteq> Some (s + ps)" if "ps \<le> b"
  proof
    assume "objectSize h (b - ps) = Some (s + ps)"
    then obtain c t j where c: "B c = Some t" "j * ps < t" "b - ps = c + j * ps" "s + ps = t - j * ps"
      unfolding lh_repD(4) [OF assms(1)] by blast
    then have "c < b" "b < c + t" using that assms(2) s by auto
    moreover have "{b..<b + s} \<inter> {c..<c + t} = {}" using lh_repD(3) [OF assms(1) b c(1)] calculation(1) by blast
    ultimately show False using s by (auto simp: disjoint_iff)
  qed
  then show "b \<in> lh_live ps h" using rep_entry [OF assms(1) b] s by (auto simp: lh_live_def not_less)
qed

section \<open>The large heap is a heap\<close>

text \<open>
  What the large heap relies on: a mapping of a size it serves is page aligned, lies in the region
  \<open>own\<close> and misses every mapping still in use.
\<close>

locale mapping =
  fixes ps :: nat
    and own :: "addr set"
    and mapper :: "large_heap \<Rightarrow> nat \<Rightarrow> addr"
  assumes page: "0 < ps"
    and null_own: "0 \<notin> own"
    and maps: "lh_inv ps own h \<Longrightarrow> lh_serves ps sz \<Longrightarrow>
      ps dvd mapper h sz \<and> {mapper h sz..<mapper h sz + sz} \<subseteq> own
      \<and> {mapper h sz..<mapper h sz + sz} \<inter> lh_inside h = {}"
begin

lemma lh_malloc_rep:
  assumes "lh_rep ps own B (objectSize h)" and "lh_serves ps sz"
  shows "lh_rep ps own (B(mapper h sz \<mapsto> sz)) (objectSize (lh_set ps (mapper h sz) sz h))"
    and "mapper h sz \<notin> lh_inside h" and "mapper h sz \<noteq> 0" and "mapper h sz \<notin> dom B"
proof -
  let ?a = "mapper h sz"
  have "lh_inv ps own h" using assms(1) by (auto simp: lh_inv_def)
  note m = maps [OF this assms(2)]
  have sz: "0 < sz" using assms(2) by (simp add: lh_serves_def)
  show out: "?a \<notin> lh_inside h" using m sz by (auto simp: disjoint_iff)
  show "?a \<noteq> 0" using m sz null_own by (metis atLeastLessThan_iff le_refl less_add_same_cancel1 subsetD)
  have apart: "{?a..<?a + sz} \<inter> {b..<b + s} = {}" if "B b = Some s" for b s
  proof (rule equals0I)
    fix x assume x: "x \<in> {?a..<?a + sz} \<inter> {b..<b + s}"
    then have "x \<in> lh_inside h" unfolding rep_inside [OF assms(1) page] using that by auto
    with m x show False by blast
  qed
  show new: "?a \<notin> dom B"
  proof
    assume "?a \<in> dom B"
    then obtain s where "B ?a = Some s" by blast
    with apart [OF this] lh_repD(2) [OF assms(1) this] sz show False
      by (auto simp: lh_serves_def disjoint_iff)
  qed
  have entries: "objectSize (lh_set ps ?a sz h) k = Some v \<longleftrightarrow>
      (\<exists>b s j. (B(?a \<mapsto> sz)) b = Some s \<and> j * ps < s \<and> k = b + j * ps \<and> v = s - j * ps)" for k v
  proof (cases "\<exists>j. j * ps < sz \<and> k = ?a + j * ps")
    case True
    then obtain j where j: "j * ps < sz" "k = ?a + j * ps" by blast
    have old: "\<not> (B b = Some s \<and> i * ps < s \<and> k = b + i * ps)" for b s i
      using apart [of b s] j by (auto simp: disjoint_iff)
    have "(B(?a \<mapsto> sz)) b = Some s \<and> i * ps < s \<and> k = b + i * ps \<and> v = s - i * ps
        \<longleftrightarrow> b = ?a \<and> s = sz \<and> i = j \<and> v = sz - j * ps" for b s i
      using old [of b s i] j page by auto
    moreover have "objectSize (lh_set ps ?a sz h) k = Some (sz - j * ps)"
      using lh_set_eq [OF page assms(2)] True j by simp
    ultimately show ?thesis by auto
  next
    case False
    have same: "objectSize (lh_set ps ?a sz h) k = objectSize h k"
      unfolding lh_set_eq [OF page assms(2)] using False by (rule if_not_P)
    have "(B(?a \<mapsto> sz)) b = Some t \<and> j * ps < t \<and> k = b + j * ps \<and> v = t - j * ps
        \<longleftrightarrow> B b = Some t \<and> j * ps < t \<and> k = b + j * ps \<and> v = t - j * ps" for b t j
      using False new by (cases "b = ?a") auto
    then show ?thesis unfolding same lh_repD(4) [OF assms(1)] by blast
  qed
  have dom: "finite (dom (B(?a \<mapsto> sz)))" using lh_repD(1) [OF assms(1)] by simp
  have each: "\<forall>b s. (B(?a \<mapsto> sz)) b = Some s \<longrightarrow> lh_serves ps s \<and> ps dvd b \<and> {b..<b + s} \<subseteq> own"
    using lh_repD(2) [OF assms(1)] m assms(2) by (simp add: fun_upd_def)
  have two: "{b..<b + s} \<inter> {c..<c + t} = {}"
    if "(B(?a \<mapsto> sz)) b = Some s" "(B(?a \<mapsto> sz)) c = Some t" "b \<noteq> c" for b s c t
  proof (cases "b = ?a")
    case True
    with that apart [of c t] show ?thesis by simp
  next
    case False
    then have b: "B b = Some s" using that(1) by simp
    show ?thesis
    proof (cases "c = ?a")
      case True
      with apart [OF b] that(2) show ?thesis by (simp add: Int_commute)
    next
      case False
      with lh_repD(3) [OF assms(1) b _ that(3)] that(2) show ?thesis by simp
    qed
  qed
  show "lh_rep ps own (B(?a \<mapsto> sz)) (objectSize (lh_set ps ?a sz h))"
    unfolding lh_rep_def using dom each two entries by blast
qed

lemma lh_free_rep:
  assumes "lh_rep ps own B (objectSize h)" and "B a = Some s"
  shows "lh_rep ps own (B(a := None)) (objectSize (lh_clear ps a h))"
proof -
  have serves: "lh_serves ps s" using lh_repD(2) [OF assms] by simp
  have apart: "{a..<a + s} \<inter> {c..<c + t} = {}" if "B c = Some t" "c \<noteq> a" for c t
    using lh_repD(3) [OF assms(1,2) that(1)] that(2) by blast
  have entries: "objectSize (lh_clear ps a h) k = Some v \<longleftrightarrow>
      (\<exists>b s j. (B(a := None)) b = Some s \<and> j * ps < s \<and> k = b + j * ps \<and> v = s - j * ps)" for k v
  proof (cases "\<exists>j. j * ps < s \<and> k = a + j * ps")
    case True
    have "\<not> (B c = Some t \<and> c \<noteq> a \<and> i * ps < t \<and> k = c + i * ps)" for c t i
      using True apart [of c t] by (auto simp: disjoint_iff)
    moreover have "objectSize (lh_clear ps a h) k = None"
      using lh_clear_eq [OF page rep_entry [OF assms] serves] True by simp
    ultimately show ?thesis by (auto split: if_splits)
  next
    case False
    have same: "objectSize (lh_clear ps a h) k = objectSize h k"
      using lh_clear_eq [OF page rep_entry [OF assms] serves, of k] False by simp
    have "(B(a := None)) b = Some t \<and> j * ps < t \<and> k = b + j * ps \<and> v = t - j * ps
        \<longleftrightarrow> B b = Some t \<and> j * ps < t \<and> k = b + j * ps \<and> v = t - j * ps" for b t j
      using False assms(2) by auto
    then show ?thesis unfolding same lh_repD(4) [OF assms(1)] by blast
  qed
  have old: "(B(a := None)) b = Some t \<Longrightarrow> B b = Some t" for b t by (simp split: if_splits)
  have "finite (dom (B(a := None)))" using lh_repD(1) [OF assms(1)] by simp
  moreover have "\<forall>b s. (B(a := None)) b = Some s \<longrightarrow> lh_serves ps s \<and> ps dvd b \<and> {b..<b + s} \<subseteq> own"
    using lh_repD(2) [OF assms(1)] old by blast
  moreover have "\<forall>b s c t. (B(a := None)) b = Some s \<and> (B(a := None)) c = Some t \<and> b \<noteq> c
      \<longrightarrow> {b..<b + s} \<inter> {c..<c + t} = {}"
    using lh_repD(3) [OF assms(1)] old by blast
  ultimately show ?thesis unfolding lh_rep_def using entries by blast
qed

lemma lh_get_live: "lh_rep ps own B (objectSize h) \<Longrightarrow> B a = Some s \<Longrightarrow> lh_get a h = s"
  using rep_entry [of ps own B "objectSize h" a s] by (simp add: lh_get_def)

lemma lh_get_outside:
  assumes "lh_inv ps own h" and "a \<notin> lh_inside h"
  shows "lh_get a h = 0"
proof (rule ccontr)
  assume "lh_get a h \<noteq> 0"
  then obtain v where "objectSize h a = Some v" "0 < v" by (auto simp: lh_get_def split: option.splits)
  with assms(2) show False by (auto simp: lh_inside_def)
qed

end

sublocale mapping \<subseteq> lh: heap_iface "lh_inv ps own" "lh_live ps" lh_inside own "lh_serves ps"
    "lh_malloc ps mapper" "lh_free ps" lh_getSize
proof
  fix h assume inv: "lh_inv ps own h"
  then obtain B where B: "lh_rep ps own B (objectSize h)" by (auto simp: lh_inv_def)
  note live = rep_live [OF B page] and inside = rep_inside [OF B page] and d = lh_repD [OF B]
  show "lh_live ps h \<subseteq> lh_inside h"
    unfolding live using inside d(2) by (fastforce simp: lh_serves_def)
  show "lh_inside h \<subseteq> own" using inside d(2) by fastforce
  fix a
  show "lh_getSize a h \<noteq> 0" if "a \<in> lh_live ps h"
    using that lh_get_live [OF B] d(2) unfolding live by (auto simp: lh_getSize_def lh_serves_def)
  show "lh_getSize a h = 0" if "a \<notin> own"
    using that lh_get_outside [OF inv] \<open>lh_inside h \<subseteq> own\<close> by (auto simp: lh_getSize_def)
next
  show "0 \<notin> own" by (rule null_own)
next
  fix h sz m a h' m' rs
  assume inv: "lh_inv ps own h" and sz: "lh_serves ps sz" and run: "lh_malloc ps mapper sz (h, m) = Some (a, (h', m'), rs)"
  obtain B where B: "lh_rep ps own B (objectSize h)" using inv by (auto simp: lh_inv_def)
  have a: "a = mapper h sz" "h' = lh_set ps (mapper h sz) sz h" using run by (auto simp: lh_malloc_def Let_def)
  note new = lh_malloc_rep [OF B sz]
  have "lh_inside h \<subseteq> lh_inside h'"
  proof
    fix x assume "x \<in> lh_inside h"
    then obtain b s where b: "B b = Some s" "b \<le> x" "x < b + s" unfolding rep_inside [OF B page] by blast
    then have "(B(mapper h sz \<mapsto> sz)) b = Some s" using new(4) by auto
    with b show "x \<in> lh_inside h'" unfolding a(2) rep_inside [OF new(1) page] by blast
  qed
  with new show "lh_inv ps own h' \<and> (a = 0 \<and> lh_live ps h' = lh_live ps h \<and> lh_inside h' = lh_inside h
      \<or> a \<noteq> 0 \<and> a \<notin> lh_inside h \<and> lh_live ps h' = insert a (lh_live ps h) \<and> lh_inside h \<subseteq> lh_inside h')"
    unfolding a by (auto simp: lh_inv_def rep_live [OF B page] rep_live [OF new(1) page])
next
  fix h a m ok h' m' rs
  assume inv: "lh_inv ps own h" and run: "lh_free ps a (h, m) = (ok, (h', m'), rs)"
  obtain B where B: "lh_rep ps own B (objectSize h)" using inv by (auto simp: lh_inv_def)
  {
    assume "a \<in> lh_live ps h"
    then obtain s where s: "B a = Some s" unfolding rep_live [OF B page] by blast
    have pos: "0 < s" using lh_repD(2) [OF B s] by (simp add: lh_serves_def)
    have r: "ok" "objectSize h' = objectSize (lh_clear ps a h)"
      using run lh_get_live [OF B s] pos by (auto simp: lh_free_def Let_def lh_clear_def lh_get_def)
    have B': "lh_rep ps own (B(a := None)) (objectSize h')" using lh_free_rep [OF B s] r(2) by simp
    have "a \<notin> lh_inside h'"
    proof
      assume "a \<in> lh_inside h'"
      then obtain b t where b: "b \<noteq> a" "B b = Some t" "b \<le> a" "a < b + t"
        unfolding rep_inside [OF B' page] by (auto split: if_splits)
      then have "a \<in> {b..<b + t} \<inter> {a..<a + s}" using pos by auto
      with lh_repD(3) [OF B b(2) s b(1)] show False by blast
    qed
    moreover have "lh_inside h' \<subseteq> lh_inside h"
      using rep_inside [OF B page] rep_inside [OF B' page] by (fastforce split: if_splits)
    ultimately show "ok \<and> lh_inv ps own h' \<and> lh_live ps h' = lh_live ps h - {a} \<and> lh_inside h' \<subseteq> lh_inside h
        \<and> a \<notin> lh_inside h'"
      using r(1) B' by (auto simp: lh_inv_def rep_live [OF B page] rep_live [OF B' page])
  }
  {
    assume "a \<notin> lh_inside h"
    then have "lh_get a h = 0" by (rule lh_get_outside [OF inv])
    with run inv show "\<not> ok \<and> lh_inv ps own h' \<and> lh_live ps h' = lh_live ps h \<and> lh_inside h' = lh_inside h"
      by (auto simp: lh_free_def Let_def)
  }
qed

text \<open>The empty large heap.\<close>

lemma LargeHeap_inv: "lh_inv ps own LargeHeap" and LargeHeap_live: "lh_live ps LargeHeap = {}"
proof -
  have "lh_rep ps own (\<lambda>_. None) (objectSize LargeHeap)" by (simp add: lh_rep_def LargeHeap_def)
  then show "lh_inv ps own LargeHeap" by (auto simp: lh_inv_def)
  show "lh_live ps LargeHeap = {}" by (simp add: lh_live_def LargeHeap_def)
qed

section \<open>Outside the contract\<close>

text \<open>
  Freeing the start of a later page of an object is accepted.  It unmaps and forgets the tail only:
  the start keeps the full size, so that freeing the object unmaps the tail a second time.
\<close>

lemma lh_serves_less: "lh_serves ps s \<Longrightarrow> 0 < t \<Longrightarrow> t \<le> s \<Longrightarrow> lh_serves ps t"
proof -
  assume a: "lh_serves ps s" "0 < t" "t \<le> s"
  then have "(t + ps - 1) div ps \<le> (s + ps - 1) div ps" by (intro div_le_mono) simp
  with a show "lh_serves ps t" by (auto simp: lh_serves_def)
qed

lemma lh_free_interior_page:
  assumes "0 < ps" and "lh_rep ps own B (objectSize h)" and "B b = Some s" and "0 < j" and "j * ps < s"
    and "lh_free ps (b + j * ps) (h, m) = (ok, (h', m'), rs)"
  shows "ok" and "lh_unmapped h' = lh_unmapped h @ [(b + j * ps, s - j * ps)]" and "lh_getSize b h' = s"
proof -
  have entry: "objectSize h (b + j * ps) = Some (s - j * ps)"
    unfolding lh_repD(4) [OF assms(2)] using assms(3,5) by blast
  have get: "lh_get (b + j * ps) h = s - j * ps" by (simp add: lh_get_def entry)
  show ok: ok and log: "lh_unmapped h' = lh_unmapped h @ [(b + j * ps, s - j * ps)]"
    using assms(5,6) get by (auto simp: lh_free_def Let_def lh_clear_def)
  have serves: "lh_serves ps (s - j * ps)"
    using lh_repD(2) [OF assms(2,3)] assms(5) by (auto intro: lh_serves_less)
  have "objectSize h' = objectSize (lh_clear ps (b + j * ps) h)"
    using assms(5,6) get by (auto simp: lh_free_def Let_def lh_clear_def lh_get_def)
  then have "objectSize h' b = objectSize h b"
    using lh_clear_eq [OF assms(1) entry serves, of b] assms(1,4) by auto
  with rep_entry [OF assms(2,3)] show "lh_getSize b h' = s" by (simp add: lh_getSize_def lh_get_def)
qed

text \<open>A failed mapping is recorded as an object at null.\<close>

lemma lh_malloc_failure:
  assumes "0 < ps" and "lh_serves ps sz" and "mapper h sz = 0"
    and "lh_malloc ps mapper sz (h, m) = Some (a, (h', m'), rs)"
  shows "a = 0" and "lh_getSize 0 h' = sz"
proof -
  have h': "a = 0" "h' = lh_set ps 0 sz h" using assms(3,4) by (auto simp: lh_malloc_def Let_def)
  then show "a = 0" by simp
  have "0 < sz" using assms(2) by (simp add: lh_serves_def)
  then have "\<exists>j. j * ps < sz \<and> 0 = 0 + j * ps" by (intro exI [of _ 0]) simp
  then have "objectSize (lh_set ps 0 sz h) 0 = Some (sz - (0 - 0))"
    unfolding lh_set_eq [OF assms(1,2)] by (rule if_P)
  then show "lh_getSize 0 h' = sz" by (simp add: h' lh_getSize_def lh_get_def)
qed

section \<open>A mapper\<close>

text \<open>First fit in the addresses from \<open>2 ^ 46\<close>, pages of 4096 bytes.\<close>

definition first_fit :: "large_heap \<Rightarrow> nat \<Rightarrow> addr" where
  "first_fit h sz = (LEAST r. 4096 dvd r \<and> 2 ^ 46 \<le> r \<and> {r..<r + sz} \<inter> lh_inside h = {})"

lemma lh_inside_bounded:
  assumes "lh_inv ps own h" and "0 < ps"
  shows "\<exists>N. \<forall>a \<in> lh_inside h. a < N"
proof -
  obtain B where B: "lh_rep ps own B (objectSize h)" using assms(1) by (auto simp: lh_inv_def)
  have "lh_inside h \<subseteq> (\<Union>b \<in> dom B. {b..<b + the (B b)})"
    using rep_inside [OF B assms(2)] by force
  moreover have "finite \<dots>" using lh_repD(1) [OF B] by simp
  ultimately have "finite (lh_inside h)" by (rule finite_subset)
  then show ?thesis using finite_nat_set_iff_bounded by blast
qed

lemma first_fit_spec:
  assumes "lh_inv 4096 own h"
  shows "4096 dvd first_fit h sz" and "2 ^ 46 \<le> first_fit h sz"
    and "{first_fit h sz..<first_fit h sz + sz} \<inter> lh_inside h = {}"
proof -
  obtain N where N: "\<forall>a \<in> lh_inside h. a < N" using lh_inside_bounded [OF assms] by auto
  have "4096 dvd 4096 * (2 ^ 46 + N)" by simp
  moreover have "2 ^ 46 \<le> 4096 * (2 ^ 46 + N)" by simp
  moreover have "{4096 * (2 ^ 46 + N)..<4096 * (2 ^ 46 + N) + sz} \<inter> lh_inside h = {}"
    using N by (fastforce simp: disjoint_iff)
  ultimately have "\<exists>r. 4096 dvd r \<and> 2 ^ 46 \<le> r \<and> {r..<r + sz} \<inter> lh_inside h = {}" by blast
  from LeastI_ex [OF this] show "4096 dvd first_fit h sz" "2 ^ 46 \<le> first_fit h sz"
    "{first_fit h sz..<first_fit h sz + sz} \<inter> lh_inside h = {}"
    unfolding first_fit_def by blast+
qed

interpretation program_large: mapping 4096 "{2 ^ 46..}" first_fit
proof
  fix h sz assume "lh_inv 4096 {2 ^ 46..} h"
  note f = first_fit_spec [OF this, of sz]
  then show "4096 dvd first_fit h sz \<and> {first_fit h sz..<first_fit h sz + sz} \<subseteq> {2 ^ 46..}
      \<and> {first_fit h sz..<first_fit h sz + sz} \<inter> lh_inside h = {}"
    by (auto intro: order_trans)
qed simp_all

section \<open>Properties\<close>

lemma lh_page_entry:
  assumes "0 < ps" and "lh_serves ps sz" and "j * ps < sz"
  shows "objectSize (lh_set ps a sz h) (a + j * ps) = Some (sz - j * ps)"
proof -
  have "\<exists>k. k * ps < sz \<and> a + j * ps = a + k * ps" using assms(3) by blast
  then show ?thesis unfolding lh_set_eq [OF assms(1,2)] by simp
qed

text \<open>A large object answers \<open>getSize\<close> at the start of each of its pages with the bytes left from
  there; freeing it unmaps exactly what was mapped and restores the table of sizes.\<close>

theorem large_round_trip:
  assumes "0 < ps" and "lh_serves ps sz" and "\<forall>j. j * ps < sz \<longrightarrow> objectSize h (mapper h sz + j * ps) = None"
    and "lh_malloc ps mapper sz (h, m) = Some (a, (h1, m1), rs)" and "lh_free ps a (h1, m1) = (ok, (h2, m2), rs2)"
  shows "(\<forall>j. j * ps < sz \<longrightarrow> lh_getSize (a + j * ps) h1 = sz - j * ps)
    \<and> ok \<and> objectSize h2 = objectSize h \<and> lh_unmapped h2 = lh_unmapped h @ [(a, sz)]"
proof -
  have a: "a = mapper h sz" "h1 = lh_set ps a sz h" using assms(4) by (auto simp: lh_malloc_def Let_def)
  have pos: "0 < sz" using assms(2) by (simp add: lh_serves_def)
  have sizes: "lh_getSize (a + j * ps) h1 = sz - j * ps" if "j * ps < sz" for j
    using lh_page_entry [OF assms(1,2) that] by (simp add: a(2) lh_getSize_def lh_get_def)
  have entry: "objectSize h1 a = Some sz" using lh_page_entry [OF assms(1,2), of 0 a h] pos by (simp add: a(2))
  then have f: ok "objectSize h2 = objectSize (lh_clear ps a h1)" "lh_unmapped h2 = lh_unmapped h1 @ [(a, sz)]"
    using assms(5) pos by (auto simp: lh_free_def lh_get_def Let_def lh_clear_def)
  have "objectSize h2 x = objectSize h x" for x
    unfolding f(2) lh_clear_eq [OF assms(1) entry assms(2)]
    using lh_set_eq [OF assms(1,2), of a h x] assms(3) by (auto simp: a)
  with f sizes show ?thesis by (auto simp: a(2) lh_set_def)
qed

lemma program_serves_example: "lh_serves 4096 10000"
  by (simp add: lh_serves_def)

theorem large_round_trip_witness:
  "case lh_malloc 4096 (\<lambda>h sz. 8192) 10000 (LargeHeap, \<lambda>_. 0) of Some (a, (h1, m1), rs) \<Rightarrow>
     lh_getSize (8192 + 4096) h1 = 10000 - 4096"
proof -
  obtain a h1 m1 rs where m: "lh_malloc 4096 (\<lambda>h sz. 8192) 10000 (LargeHeap, \<lambda>_. 0) = Some (a, (h1, m1), rs)"
    by (auto simp: lh_malloc_def)
  obtain ok h2 m2 rs2 where f: "lh_free 4096 a (h1, m1) = (ok, (h2, m2), rs2)" by (metis surj_pair)
  have "a = 8192" using m by (auto simp: lh_malloc_def)
  moreover have "lh_getSize (a + 1 * 4096) h1 = 10000 - 1 * 4096"
    by (rule large_round_trip [OF _ program_serves_example _ m f, THEN conjunct1, rule_format])
      (simp_all add: LargeHeap_def)
  ultimately show ?thesis using m by simp
qed

text \<open>Freeing the start of a later page of a large object is accepted and unmaps its tail; the object's
  start keeps its full size, so that freeing the object afterwards is accepted and unmaps the tail again.\<close>

theorem large_interior_free:
  assumes "0 < ps" and "lh_serves ps sz" and "0 < j" and "j * ps < sz"
    and "lh_malloc ps mapper sz (h, m) = Some (a, (h1, m1), rs)"
    and "lh_free ps (a + j * ps) (h1, m1) = (ok, (h2, m2), rs2)" and "lh_free ps a (h2, m2) = (ok', (h3, m3), rs3)"
  shows "ok \<and> ok' \<and> lh_unmapped h3 = lh_unmapped h @ [(a + j * ps, sz - j * ps), (a, sz)]"
proof -
  have h1: "h1 = lh_set ps a sz h" using assms(5) by (auto simp: lh_malloc_def Let_def)
  have pos: "0 < sz" using assms(2) by (simp add: lh_serves_def)
  have entry: "objectSize h1 (a + j * ps) = Some (sz - j * ps)" "objectSize h1 a = Some sz"
    using lh_page_entry [OF assms(1,2,4)] lh_page_entry [OF assms(1,2), of 0 a h] pos by (simp_all add: h1)
  have f: ok "objectSize h2 = objectSize (lh_clear ps (a + j * ps) h1)"
      "lh_unmapped h2 = lh_unmapped h @ [(a + j * ps, sz - j * ps)]"
    using assms(4,6) entry by (auto simp: lh_free_def lh_get_def Let_def lh_clear_def h1 lh_set_def)
  have "lh_serves ps (sz - j * ps)" using assms(2,4) by (auto intro: lh_serves_less)
  then have "objectSize h2 a = Some sz"
    using lh_clear_eq [OF assms(1) entry(1), of a] assms(1,3) entry(2) by (auto simp: f(2))
  with f assms(7) pos show ?thesis by (auto simp: lh_free_def lh_get_def Let_def lh_clear_def)
qed

theorem large_interior_free_witness:
  "case lh_malloc 4096 (\<lambda>h sz. 8192) 10000 (LargeHeap, \<lambda>_. 0) of Some (a, s1, rs) \<Rightarrow>
     (case lh_free 4096 (8192 + 4096) s1 of (ok, s2, rs2) \<Rightarrow>
       (case lh_free 4096 8192 s2 of (ok', (h3, m3), rs3) \<Rightarrow>
         ok \<and> ok' \<and> lh_unmapped h3 = [(12288, 5904), (8192, 10000)]))"
proof -
  obtain a h1 m1 rs where m: "lh_malloc 4096 (\<lambda>h sz. 8192) 10000 (LargeHeap, \<lambda>_. 0) = Some (a, (h1, m1), rs)"
    by (auto simp: lh_malloc_def)
  then have a: "a = 8192" by (auto simp: lh_malloc_def)
  obtain ok h2 m2 rs2 where f: "lh_free 4096 (a + 1 * 4096) (h1, m1) = (ok, (h2, m2), rs2)" by (metis surj_pair)
  obtain ok' h3 m3 rs3 where g: "lh_free 4096 a (h2, m2) = (ok', (h3, m3), rs3)" by (metis surj_pair)
  from large_interior_free [OF _ program_serves_example _ _ m f g] m f g show ?thesis
    by (simp add: a) (simp add: LargeHeap_def)
qed

text \<open>When the mapping fails, the large heap answers null but records the request as an object at null,
  which a later \<open>free(NULL)\<close> accepts and hands to \<open>unmap\<close>.\<close>

theorem large_failure_recorded:
  assumes "0 < ps" and "lh_serves ps sz" and "mapper h sz = 0"
    and "lh_malloc ps mapper sz (h, m) = Some (a, (h1, m1), rs)" and "lh_free ps 0 (h1, m1) = (ok, (h2, m2), rs2)"
  shows "a = 0 \<and> lh_getSize 0 h1 = sz \<and> ok \<and> lh_unmapped h2 = lh_unmapped h @ [(0, sz)]"
proof -
  have f: "a = 0" "lh_getSize 0 h1 = sz" using lh_malloc_failure [OF assms(1-4)] by simp_all
  have "0 < sz" using assms(2) by (simp add: lh_serves_def)
  moreover have "lh_unmapped h1 = lh_unmapped h" using assms(4) by (auto simp: lh_malloc_def lh_set_def Let_def)
  ultimately show ?thesis
    using f assms(5) by (auto simp: lh_free_def lh_getSize_def Let_def lh_clear_def)
qed

theorem large_failure_recorded_witness:
  "case lh_malloc 4096 (\<lambda>h sz. 0) 10000 (LargeHeap, \<lambda>_. 0) of Some (a, s1, rs) \<Rightarrow>
     fst (lh_free 4096 0 s1)"
proof -
  obtain a h1 m1 rs where m: "lh_malloc 4096 (\<lambda>h sz. 0) 10000 (LargeHeap, \<lambda>_. 0) = Some (a, (h1, m1), rs)"
    by (auto simp: lh_malloc_def)
  obtain ok h2 m2 rs2 where f: "lh_free 4096 0 (h1, m1) = (ok, (h2, m2), rs2)" by (metis surj_pair)
  from large_failure_recorded [OF _ program_serves_example _ m f] m f show ?thesis by simp
qed

end
