(* ===== verification/CombineHeap.thy ===== *)
theory CombineHeap
  imports SizeHeap LargeHeap
begin

text \<open>
  \<open>CombineHeap\<close> (\<open>src/include/layers/combineheap.h\<close>): small requests go to one heap, the others to
  a second one; \<open>free\<close> and \<open>getSize\<close> ask the small heap first.  Any two heaps with the contract
  \<open>heap_iface\<close> and disjoint addresses make a heap.  The last section puts \<open>DieHardHeap\<close> and
  \<open>LargeHeap\<close> together as \<open>src/source/libdieharder.cpp\<close> does.
\<close>

section \<open>Operations\<close>

definition ch_malloc :: "nat \<Rightarrow> 's heap_malloc \<Rightarrow> 'b heap_malloc \<Rightarrow> ('s \<times> 'b) heap_malloc" where
  "ch_malloc max_size small big sz hm =
     (let ((s, b), m) = hm
      in if sz \<le> max_size
         then map_option (\<lambda>(ptr, (s, m), rs). (ptr, ((s, b), m), rs)) (small sz (s, m))
         else map_option (\<lambda>(ptr, (b, m), rs). (ptr, ((s, b), m), rs)) (big sz (b, m)))"

definition ch_free :: "'s heap_free \<Rightarrow> 'b heap_free \<Rightarrow> ('s \<times> 'b) heap_free" where
  "ch_free small big ptr hm =
     (let ((s, b), m) = hm; (ok, (s, m), rs) = small ptr (s, m)
      in if ok then (True, ((s, b), m), rs)
         else let (ok, (b, m), rs') = big ptr (b, m) in (ok, ((s, b), m), rs @ rs'))"

definition ch_getSize :: "(addr \<Rightarrow> 's \<Rightarrow> nat) \<Rightarrow> (addr \<Rightarrow> 'b \<Rightarrow> nat) \<Rightarrow> addr \<Rightarrow> 's \<times> 'b \<Rightarrow> nat" where
  "ch_getSize small big ptr h =
     (let sz = small ptr (fst h) in if sz = 0 then big ptr (snd h) else sz)"

section \<open>Two heaps make a heap\<close>

locale two_heaps =
  s: heap_iface s_inv s_live s_inside s_own s_serves s_alloc s_release s_size +
  b: heap_iface b_inv b_live b_inside b_own b_serves b_alloc b_release b_size
  for s_inv :: "'s \<Rightarrow> bool" and s_live s_inside s_own s_serves s_alloc s_release s_size
    and b_inv :: "'b \<Rightarrow> bool" and b_live b_inside b_own b_serves b_alloc b_release b_size +
  fixes max_size :: nat
  assumes own_apart: "s_own \<inter> b_own = {}"
    and small_serves: "sz \<le> max_size \<Longrightarrow> s_serves sz"
begin

lemma sides:
  assumes "s_inv s" and "b_inv b"
  shows "s_inside s \<inter> b_inside b = {}" and "s_live s \<inter> b_inside b = {}" and "b_live b \<inter> s_inside s = {}"
  using own_apart s.inside_own [OF assms(1)] b.inside_own [OF assms(2)] s.live_inside [OF assms(1)]
    b.live_inside [OF assms(2)] by blast+

end

sublocale two_heaps \<subseteq> both: heap_iface "\<lambda>(s, b). s_inv s \<and> b_inv b" "\<lambda>(s, b). s_live s \<union> b_live b"
    "\<lambda>(s, b). s_inside s \<union> b_inside b" "s_own \<union> b_own" "\<lambda>sz. sz \<le> max_size \<or> b_serves sz"
    "ch_malloc max_size s_alloc b_alloc" "ch_free s_release b_release" "ch_getSize s_size b_size"
proof
  fix r :: "'s \<times> 'b" assume inv: "case r of (s, b) \<Rightarrow> s_inv s \<and> b_inv b"
  obtain s b where r: "r = (s, b)" by (cases r)
  with inv have i: "s_inv s" "b_inv b" by simp_all
  show "(case r of (s, b) \<Rightarrow> s_live s \<union> b_live b) \<subseteq> (case r of (s, b) \<Rightarrow> s_inside s \<union> b_inside b)"
    using s.live_inside [OF i(1)] b.live_inside [OF i(2)] by (auto simp: r)
  show "(case r of (s, b) \<Rightarrow> s_inside s \<union> b_inside b) \<subseteq> s_own \<union> b_own"
    using s.inside_own [OF i(1)] b.inside_own [OF i(2)] by (auto simp: r)
  fix a
  show "ch_getSize s_size b_size a r \<noteq> 0" if "a \<in> (case r of (s, b) \<Rightarrow> s_live s \<union> b_live b)"
    using that s.size_live [OF i(1)] b.size_live [OF i(2)] by (fastforce simp: r ch_getSize_def Let_def)
  show "ch_getSize s_size b_size a r = 0" if "a \<notin> s_own \<union> b_own"
    using that s.size_foreign [OF i(1)] b.size_foreign [OF i(2)] by (simp add: r ch_getSize_def)
next
  show "0 \<notin> s_own \<union> b_own" using s.null_foreign b.null_foreign by simp
next
  fix sz and r :: "'s \<times> 'b" and m a r' m' rs
  assume inv: "case r of (s, b) \<Rightarrow> s_inv s \<and> b_inv b" and sz: "sz \<le> max_size \<or> b_serves sz"
    and run: "ch_malloc max_size s_alloc b_alloc sz (r, m) = Some (a, (r', m'), rs)"
  obtain s b where r: "r = (s, b)" by (cases r)
  with inv have i: "s_inv s" "b_inv b" by simp_all
  note sd = sides [OF i]
  show "(case r' of (s, b) \<Rightarrow> s_inv s \<and> b_inv b)
    \<and> (a = 0 \<and> (case r' of (s, b) \<Rightarrow> s_live s \<union> b_live b) = (case r of (s, b) \<Rightarrow> s_live s \<union> b_live b)
        \<and> (case r' of (s, b) \<Rightarrow> s_inside s \<union> b_inside b) = (case r of (s, b) \<Rightarrow> s_inside s \<union> b_inside b)
      \<or> a \<noteq> 0 \<and> a \<notin> (case r of (s, b) \<Rightarrow> s_inside s \<union> b_inside b)
        \<and> (case r' of (s, b) \<Rightarrow> s_live s \<union> b_live b) = insert a (case r of (s, b) \<Rightarrow> s_live s \<union> b_live b)
        \<and> (case r of (s, b) \<Rightarrow> s_inside s \<union> b_inside b) \<subseteq> (case r' of (s, b) \<Rightarrow> s_inside s \<union> b_inside b))"
  proof (cases "sz \<le> max_size")
    case True
    with run obtain s' where al: "s_alloc sz (s, m) = Some (a, (s', m'), rs)" and r': "r' = (s', b)"
      by (auto simp: ch_malloc_def r)
    note res = s.alloc_result [OF i(1) small_serves [OF True] al]
    have "a \<noteq> 0 \<Longrightarrow> a \<notin> b_inside b"
      using s.alloc_fresh(3) [OF i(1) small_serves [OF True] al] own_apart b.inside_own [OF i(2)] by blast
    with res i show ?thesis by (auto simp: r r')
  next
    case False
    with run obtain b' where al: "b_alloc sz (b, m) = Some (a, (b', m'), rs)" and r': "r' = (s, b')"
      by (auto simp: ch_malloc_def r)
    have bs: "b_serves sz" using sz False by simp
    note res = b.alloc_result [OF i(2) bs al]
    have "a \<noteq> 0 \<Longrightarrow> a \<notin> s_inside s"
      using b.alloc_fresh(3) [OF i(2) bs al] own_apart s.inside_own [OF i(1)] by blast
    with res i show ?thesis by (auto simp: r r')
  qed
next
  fix r :: "'s \<times> 'b" and a m ok r' m' rs
  assume inv: "case r of (s, b) \<Rightarrow> s_inv s \<and> b_inv b"
    and run: "ch_free s_release b_release a (r, m) = (ok, (r', m'), rs)"
  obtain s b where r: "r = (s, b)" by (cases r)
  with inv have i: "s_inv s" "b_inv b" by simp_all
  note sd = sides [OF i]
  obtain k s1 m1 rs1 where one: "s_release a (s, m) = (k, (s1, m1), rs1)" by (metis surj_pair)
  obtain k2 b2 m2 rs2 where two: "b_release a (b, m1) = (k2, (b2, m2), rs2)" by (metis surj_pair)
  have res: "ok = (k \<or> k2) \<and> r' = (if k then (s1, b) else (s1, b2))"
    using run one two by (auto simp: ch_free_def r split: if_splits)
  {
    assume "a \<in> (case r of (s, b) \<Rightarrow> s_live s \<union> b_live b)"
    then consider "a \<in> s_live s" | "a \<in> b_live b" by (auto simp: r)
    then show "ok \<and> (case r' of (s, b) \<Rightarrow> s_inv s \<and> b_inv b)
      \<and> (case r' of (s, b) \<Rightarrow> s_live s \<union> b_live b) = (case r of (s, b) \<Rightarrow> s_live s \<union> b_live b) - {a}
      \<and> (case r' of (s, b) \<Rightarrow> s_inside s \<union> b_inside b) \<subseteq> (case r of (s, b) \<Rightarrow> s_inside s \<union> b_inside b)
      \<and> a \<notin> (case r' of (s, b) \<Rightarrow> s_inside s \<union> b_inside b)"
    proof cases
      case 1
      note f = s.release_live [OF i(1) 1 one]
      have "a \<notin> b_inside b" "a \<notin> b_live b" using 1 sd b.live_inside [OF i(2)] by blast+
      with f res i show ?thesis by (auto simp: r)
    next
      case 2
      have out: "a \<notin> s_inside s" "a \<notin> s_live s" using 2 sd s.live_inside [OF i(1)] by blast+
      note f = s.release_outside [OF i(1) out(1) one] and g = b.release_live [OF i(2) 2 two]
      with out res show ?thesis by (auto simp: r)
    qed
  }
  {
    assume "a \<notin> (case r of (s, b) \<Rightarrow> s_inside s \<union> b_inside b)"
    then have out: "a \<notin> s_inside s" "a \<notin> b_inside b" by (auto simp: r)
    note f = s.release_outside [OF i(1) out(1) one] and g = b.release_outside [OF i(2) out(2) two]
    with res show "\<not> ok \<and> (case r' of (s, b) \<Rightarrow> s_inv s \<and> b_inv b)
      \<and> (case r' of (s, b) \<Rightarrow> s_live s \<union> b_live b) = (case r of (s, b) \<Rightarrow> s_live s \<union> b_live b)
      \<and> (case r' of (s, b) \<Rightarrow> s_inside s \<union> b_inside b) = (case r of (s, b) \<Rightarrow> s_inside s \<union> b_inside b)"
      by (auto simp: r)
  }
qed

section \<open>The heap of libdieharder\<close>

type_synonym program_state = "mini_diehard random_heap size_heap \<times> large_heap"

definition program_malloc :: "bool \<Rightarrow> program_state heap_malloc" where
  "program_malloc df = ch_malloc 1048576 (sh_malloc (program_sh df) (program_ops df)) (lh_malloc 4096 first_fit)"

definition program_free :: "bool \<Rightarrow> program_state heap_free" where
  "program_free df = ch_free (sh_free (program_sh df) (program_ops df)) (lh_free 4096)"

definition program_getSize :: "bool \<Rightarrow> addr \<Rightarrow> program_state \<Rightarrow> nat" where
  "program_getSize df = ch_getSize (\<lambda>a h. fst (sh_getSize (program_sh df) (program_ops df) a h)) lh_getSize"

definition program_inv :: "bool \<Rightarrow> program_state \<Rightarrow> bool" where
  "program_inv df = (\<lambda>(s, b). classes_inv 17 (class_inv df) s \<and> lh_inv 4096 {2 ^ 46..} b)"

definition program_live :: "bool \<Rightarrow> program_state \<Rightarrow> addr set" where
  "program_live df = (\<lambda>(s, b). classes_union 17 (class_objects df) s \<union> lh_live 4096 b)"

definition program_inside :: "bool \<Rightarrow> program_state \<Rightarrow> addr set" where
  "program_inside df = (\<lambda>(s, b). classes_union 17 (class_inside df) s \<union> lh_inside b)"

definition program_serves :: "nat \<Rightarrow> bool" where
  "program_serves sz \<longleftrightarrow> sz \<le> 1048576 \<or> lh_serves 4096 sz"

interpretation program_two: two_heaps "classes_inv 17 (class_inv df)" "classes_union 17 (class_objects df)"
    "classes_union 17 (class_inside df)" "\<Union>i < 17. class_own i" "\<lambda>sz. True"
    "sh_malloc (program_sh df) (program_ops df)" "sh_free (program_sh df) (program_ops df)"
    "\<lambda>a h. fst (sh_getSize (program_sh df) (program_ops df) a h)"
    "lh_inv 4096 {2 ^ 46..}" "lh_live 4096" lh_inside "{2 ^ 46..}" "lh_serves 4096" "lh_malloc 4096 first_fit"
    "lh_free 4096" lh_getSize 1048576 for df
proof (rule two_heaps.intro)
  show "heap_iface (classes_inv 17 (class_inv df)) (classes_union 17 (class_objects df))
      (classes_union 17 (class_inside df)) (\<Union>i < 17. class_own i) (\<lambda>sz. True)
      (sh_malloc (program_sh df) (program_ops df)) (sh_free (program_sh df) (program_ops df))
      (\<lambda>a h. fst (sh_getSize (program_sh df) (program_ops df) a h))"
    using program_heap.sh.heap_iface_axioms [of df] by simp
  show "heap_iface (lh_inv 4096 {2 ^ 46..}) (lh_live 4096) lh_inside {2 ^ 46..} (lh_serves 4096)
      (lh_malloc 4096 first_fit) (lh_free 4096) lh_getSize"
    by (rule program_large.lh.heap_iface_axioms)
  have "class_own i \<inter> {2 ^ 46..} = {}" if "i < 17" for i
    using class_own_range [OF that] that by fastforce
  then show "two_heaps_axioms (\<Union>i < 17. class_own i) (\<lambda>sz. True) {2 ^ 46..} 1048576"
    by unfold_locales auto
qed

interpretation whole: heap_iface "program_inv df" "program_live df" "program_inside df"
    "(\<Union>i < 17. class_own i) \<union> {2 ^ 46..}" program_serves "program_malloc df" "program_free df" "program_getSize df"
  for df
  unfolding program_inv_def program_live_def program_inside_def program_serves_def program_malloc_def
    program_free_def program_getSize_def
  by (rule program_two.both.heap_iface_axioms)

end
