(* ===== verification/Ownership.thy ===== *)
theory Ownership
  imports HeapRegistry CombineHeap
begin

text \<open>
  \<open>OwnershipTrackingHeap\<close> (\<open>src/include/objectownership.h\<close>), the layer that sends the objects other
  threads free back to the thread that allocated them.  The state is that of the whole program: the
  counter of \<open>ThreadIdManager\<close>, the registry, the pool, the instances by their address, and what
  the instances share (in \<open>src/source/libdieharder.cpp\<close> the large heap is one for all threads).
  The wrapped heap of the instance at \<open>this\<close> is \<open>ops this\<close>; \<open>gs\<close> is the address of
  \<open>getSizeStatic\<close>.
\<close>

section \<open>Operations\<close>

definition DRAIN_CHECK_INTERVAL :: nat where "DRAIN_CHECK_INTERVAL = 16"

record ('h, 'g) super_heap =
  super_malloc :: "('h \<times> 'g) heap_malloc"
  super_free :: "('h \<times> 'g) heap_free"
  super_getSize :: "addr \<Rightarrow> 'h \<times> 'g \<Rightarrow> nat"

record 'h owner_heap =
  oh_threadId :: nat
  oh_registered :: bool
  oh_allocCount :: nat
  oh_super :: 'h

record ('h, 'g) threads =
  nextId :: nat
  registry :: heap_registry
  pool :: free_pool
  heaps :: "addr \<Rightarrow> 'h owner_heap option"
  shared_heap :: 'g

definition heap_at :: "addr \<Rightarrow> ('h, 'g) threads \<Rightarrow> 'h owner_heap" where
  "heap_at this T = the (heaps T this)"

definition at_free :: "(addr \<Rightarrow> ('h, 'g) super_heap) \<Rightarrow> addr \<Rightarrow> ('h, 'g) threads heap_free" where
  "at_free ops this ptr Tm =
     (let (T, m) = Tm; oh = heap_at this T;
          (ok, ((h, g), m), rs) = super_free (ops this) ptr ((oh_super oh, shared_heap T), m)
      in (ok, (T\<lparr>heaps := (heaps T)(this \<mapsto> oh\<lparr>oh_super := h\<rparr>), shared_heap := g\<rparr>, m), rs))"

definition at_malloc :: "(addr \<Rightarrow> ('h, 'g) super_heap) \<Rightarrow> addr \<Rightarrow> ('h, 'g) threads heap_malloc" where
  "at_malloc ops this sz Tm =
     (let (T, m) = Tm; oh = heap_at this T
      in map_option (\<lambda>(ptr, ((h, g), m), rs).
             (ptr, (T\<lparr>heaps := (heaps T)(this \<mapsto> oh\<lparr>oh_super := h\<rparr>), shared_heap := g\<rparr>, m), rs))
           (super_malloc (ops this) sz ((oh_super oh, shared_heap T), m)))"

definition getSizeStatic :: "(addr \<Rightarrow> ('h, 'g) super_heap) \<Rightarrow> addr \<Rightarrow> addr \<Rightarrow> ('h, 'g) threads \<Rightarrow> nat" where
  "getSizeStatic ops heap ptr T = super_getSize (ops heap) ptr (oh_super (heap_at heap T), shared_heap T)"

definition OwnershipTrackingHeap :: "addr \<Rightarrow> 'h \<Rightarrow> ('h, 'g) threads \<Rightarrow> ('h, 'g) threads" where
  "OwnershipTrackingHeap this super T =
     (let (i, n) = getThreadId (nextId T)
      in T\<lparr>nextId := n, heaps := (heaps T)(this \<mapsto>
            \<lparr>oh_threadId = i, oh_registered = False, oh_allocCount = 0, oh_super = super\<rparr>)\<rparr>)"

definition doRegister :: "addr \<Rightarrow> addr \<Rightarrow> ('h, 'g) threads \<Rightarrow> ('h, 'g) threads" where
  "doRegister gs this T =
     (let oh = heap_at this T
      in T\<lparr>registry := registerHeap this (oh_threadId oh) gs (registry T),
           heaps := (heaps T)(this \<mapsto> oh\<lparr>oh_registered := True\<rparr>)\<rparr>)"

definition maybeDrainPendingFrees :: "(addr \<Rightarrow> ('h, 'g) super_heap) \<Rightarrow> addr \<Rightarrow> ('h, 'g) threads \<times> mem
    \<Rightarrow> (('h, 'g) threads \<times> mem) \<times> report list" where
  "maybeDrainPendingFrees ops this Tm =
     (let (T, m) = Tm; i = oh_threadId (heap_at this T)
      in if pool_shouldDrain i (pool T)
         then let (n, p, ((T, m), rs)) = drainForThread i
                    (\<lambda>ptr (Tm, rs). let (ok, Tm, rs') = at_free ops this ptr Tm in (Tm, rs @ rs')) (pool T) ((T, m), [])
              in ((T\<lparr>pool := p\<rparr>, m), rs)
         else ((T, m), []))"

definition oh_malloc :: "(addr \<Rightarrow> ('h, 'g) super_heap) \<Rightarrow> addr \<Rightarrow> addr \<Rightarrow> ('h, 'g) threads heap_malloc" where
  "oh_malloc ops gs this sz Tm =
     (let (T, m) = Tm;
          T = (if \<not> oh_registered (heap_at this T) then doRegister gs this T else T);
          oh = heap_at this T; allocCount = (oh_allocCount oh + 1) mod 2 ^ 32;
          T = T\<lparr>heaps := (heaps T)(this \<mapsto> oh\<lparr>oh_allocCount := allocCount\<rparr>)\<rparr>;
          (Tm, rs) = (if allocCount AND (DRAIN_CHECK_INTERVAL - 1) = 0 then maybeDrainPendingFrees ops this (T, m)
                      else ((T, m), []))
      in map_option (\<lambda>(ptr, Tm, rs'). (ptr, Tm, rs @ rs')) (at_malloc ops this sz Tm))"

definition freeSlow :: "(addr \<Rightarrow> ('h, 'g) super_heap) \<Rightarrow> addr \<Rightarrow> addr \<Rightarrow> ('h, 'g) threads heap_free" where
  "freeSlow ops gs this ptr Tm =
     (let (T, m) = Tm;
          T = (if \<not> oh_registered (heap_at this T) then doRegister gs this T else T);
          ownerId = findOwner (\<lambda>f heap ptr. getSizeStatic ops heap ptr T) ptr (oh_threadId (heap_at this T)) (registry T)
      in if ownerId = INVALID_THREAD_ID then at_free ops this ptr (T, m)
         else let (ok, p) = crossThreadFree ptr ownerId (pool T) in (True, (T\<lparr>pool := p\<rparr>, m), []))"

definition oh_free :: "(addr \<Rightarrow> ('h, 'g) super_heap) \<Rightarrow> addr \<Rightarrow> addr \<Rightarrow> ('h, 'g) threads heap_free" where
  "oh_free ops gs this ptr Tm =
     (if ptr = 0 then (False, Tm, [])
      else let (ok, Tm, rs) = at_free ops this ptr Tm
           in if ok then (True, Tm, rs)
              else let (ok, Tm, rs') = freeSlow ops gs this ptr Tm in (ok, Tm, rs @ rs'))"

definition oh_getSize :: "(addr \<Rightarrow> ('h, 'g) super_heap) \<Rightarrow> addr \<Rightarrow> addr \<Rightarrow> ('h, 'g) threads \<Rightarrow> nat" where
  "oh_getSize ops this ptr T = super_getSize (ops this) ptr (oh_super (heap_at this T), shared_heap T)"

section \<open>The heaps of all threads\<close>

text \<open>
  Each instance is a heap (\<open>heap_iface\<close>) whose state is its own part and the shared part, and the
  instances have no addresses in common.
\<close>

locale thread_heaps =
  fixes inst :: "addr set"
    and ops :: "addr \<Rightarrow> ('h, 'g) super_heap"
    and gs :: addr
    and s_inv :: "addr \<Rightarrow> 'h \<Rightarrow> bool"
    and s_live :: "addr \<Rightarrow> 'h \<Rightarrow> addr set"
    and s_inside :: "addr \<Rightarrow> 'h \<Rightarrow> addr set"
    and s_own :: "addr \<Rightarrow> addr set"
    and g_inv :: "'g \<Rightarrow> bool"
    and g_live :: "'g \<Rightarrow> addr set"
    and g_inside :: "'g \<Rightarrow> addr set"
    and g_own :: "addr set"
    and serves :: "nat \<Rightarrow> bool"
  assumes each: "this \<in> inst \<Longrightarrow> heap_iface (\<lambda>(h, g). s_inv this h \<and> g_inv g) (\<lambda>(h, g). s_live this h \<union> g_live g)
      (\<lambda>(h, g). s_inside this h \<union> g_inside g) (s_own this \<union> g_own) serves
      (super_malloc (ops this)) (super_free (ops this)) (super_getSize (ops this))"
    and small: "this \<in> inst \<Longrightarrow> s_inv this h \<Longrightarrow> s_live this h \<subseteq> s_inside this h \<and> s_inside this h \<subseteq> s_own this"
    and big: "g_inv g \<Longrightarrow> g_live g \<subseteq> g_inside g \<and> g_inside g \<subseteq> g_own"
    and apart: "this \<in> inst \<Longrightarrow> that \<in> inst \<Longrightarrow> this \<noteq> that \<Longrightarrow> s_own this \<inter> s_own that = {}"
    and big_apart: "this \<in> inst \<Longrightarrow> s_own this \<inter> g_own = {}"
    and code: "gs \<noteq> 0" "0 \<notin> inst"
begin

definition inst_ok :: "(nat \<Rightarrow> (addr \<times> addr) option) \<Rightarrow> addr \<Rightarrow> 'h owner_heap \<Rightarrow> bool" where
  "inst_ok R this oh \<longleftrightarrow> this \<in> inst \<and> s_inv this (oh_super oh) \<and> oh_threadId oh < MAX_THREADS
     \<and> (if oh_registered oh then R (oh_threadId oh) = Some (this, gs) else s_live this (oh_super oh) = {})"

definition heaps_ok :: "(nat \<Rightarrow> (addr \<times> addr) option) \<Rightarrow> (addr \<Rightarrow> 'h owner_heap option) \<Rightarrow> bool" where
  "heaps_ok R H \<longleftrightarrow> (\<forall>this oh. H this = Some oh \<longrightarrow> inst_ok R this oh)
     \<and> (\<forall>i h f. R i = Some (h, f) \<longrightarrow> f = gs \<and> (\<exists>oh. H h = Some oh \<and> oh_registered oh \<and> oh_threadId oh = i))
     \<and> (\<forall>a b x y. H a = Some x \<longrightarrow> H b = Some y \<longrightarrow> oh_threadId x = oh_threadId y \<longrightarrow> a = b)"

definition threads_inv :: "('h, 'g) threads \<Rightarrow> bool" where
  "threads_inv T \<longleftrightarrow> registry_inv (registry T) \<and> length (pool T) = MAX_THREADS \<and> (\<forall>q \<in> set (pool T). q_inv q)
     \<and> g_inv (shared_heap T) \<and> heaps_ok (registered_at (registry T)) (heaps T)"

definition live_at :: "addr \<Rightarrow> ('h, 'g) threads \<Rightarrow> addr set" where
  "live_at this T = (case heaps T this of None \<Rightarrow> {} | Some oh \<Rightarrow> s_live this (oh_super oh))"

definition inside_at :: "addr \<Rightarrow> ('h, 'g) threads \<Rightarrow> addr set" where
  "inside_at this T = (case heaps T this of None \<Rightarrow> {} | Some oh \<Rightarrow> s_inside this (oh_super oh))"

lemma heaps_okD:
  assumes "heaps_ok R H"
  shows "H this = Some oh \<Longrightarrow> inst_ok R this oh"
    "R i = Some (h, f) \<Longrightarrow> f = gs"
    "R i = Some (h, f) \<Longrightarrow> \<exists>oh. H h = Some oh \<and> oh_registered oh \<and> oh_threadId oh = i"
    "H a = Some x \<Longrightarrow> H b = Some y \<Longrightarrow> oh_threadId x = oh_threadId y \<Longrightarrow> a = b"
  using assms unfolding heaps_ok_def by blast+

lemma heaps_okI:
  assumes "\<And>this oh. H this = Some oh \<Longrightarrow> inst_ok R this oh" and "\<And>i h f. R i = Some (h, f) \<Longrightarrow> f = gs"
    and "\<And>i h f. R i = Some (h, f) \<Longrightarrow> \<exists>oh. H h = Some oh \<and> oh_registered oh \<and> oh_threadId oh = i"
    and "\<And>a b x y. H a = Some x \<Longrightarrow> H b = Some y \<Longrightarrow> oh_threadId x = oh_threadId y \<Longrightarrow> a = b"
  shows "heaps_ok R H"
  unfolding heaps_ok_def using assms by blast

lemma heaps_ok_update:
  assumes "heaps_ok R H" and "H this = Some oh" and "oh_threadId x = oh_threadId oh"
    and "oh_registered x = oh_registered oh" and "inst_ok R this x"
  shows "heaps_ok R (H(this \<mapsto> x))"
proof (rule heaps_okI)
  show "inst_ok R a y" if "(H(this \<mapsto> x)) a = Some y" for a y
    using that assms(5) heaps_okD(1) [OF assms(1)] by (auto split: if_splits)
  show "f = gs" if "R i = Some (h, f)" for i h f using heaps_okD(2) [OF assms(1) that] .
  show "\<exists>oh. (H(this \<mapsto> x)) h = Some oh \<and> oh_registered oh \<and> oh_threadId oh = i" if "R i = Some (h, f)" for i h f
    using heaps_okD(3) [OF assms(1) that] assms(2-4) by (cases "h = this") auto
  have ids: "\<exists>z. H a = Some z \<and> oh_threadId z = oh_threadId y" if "(H(this \<mapsto> x)) a = Some y" for a y
    using that assms(2,3) by (auto split: if_splits)
  show "a = b" if "(H(this \<mapsto> x)) a = Some y" "(H(this \<mapsto> x)) b = Some z" "oh_threadId y = oh_threadId z" for a b y z
    using ids [OF that(1)] ids [OF that(2)] that(3) heaps_okD(4) [OF assms(1)] by metis
qed

lemma threads_invD:
  assumes "threads_inv T" and "heaps T this = Some oh"
  shows "this \<in> inst" "s_inv this (oh_super oh)" "oh_threadId oh < MAX_THREADS" "g_inv (shared_heap T)"
    "oh_registered oh \<Longrightarrow> registered_at (registry T) (oh_threadId oh) = Some (this, gs)"
    "\<not> oh_registered oh \<Longrightarrow> s_live this (oh_super oh) = {}"
  using assms by (simp_all add: threads_inv_def inst_ok_def heaps_ok_def)

lemma set_super:
  assumes "threads_inv T" and "heaps T this = Some oh" and "s_inv this h" and "g_inv g"
    and "oh_registered oh \<or> s_live this h = {}"
  shows "threads_inv (T\<lparr>heaps := (heaps T)(this \<mapsto> oh\<lparr>oh_super := h\<rparr>), shared_heap := g\<rparr>)"
proof -
  have "inst_ok (registered_at (registry T)) this (oh\<lparr>oh_super := h\<rparr>)"
    using threads_invD [OF assms(1,2)] assms(3,5) by (auto simp: inst_ok_def)
  with heaps_ok_update [of _ "heaps T" this oh] assms(1,2,4) show ?thesis by (simp add: threads_inv_def)
qed

text \<open>Parts of two unions over disjoint sets of addresses.\<close>

lemma parts_of_union:
  assumes "A \<union> B = C \<union> D" and "A \<subseteq> X" and "C \<subseteq> X" and "B \<subseteq> Y" and "D \<subseteq> Y" and "X \<inter> Y = {}"
  shows "A = C" and "B = D"
  using assms by blast+

lemma part_below:
  assumes "A \<union> B \<subseteq> C \<union> D" and "A \<subseteq> X" and "C \<subseteq> X" and "B \<subseteq> Y" and "D \<subseteq> Y" and "X \<inter> Y = {}"
  shows "A \<subseteq> C" and "B \<subseteq> D"
  using assms by blast+

text \<open>A \<open>free\<close> by an instance: of an object of its own, of a shared one, of another one.\<close>

lemma at_free_spec:
  assumes T: "threads_inv T" "heaps T this = Some oh" and run: "at_free ops this a (T, m) = (ok, (T', m'), rs)"
    and fair: "a \<in> live_at this T \<union> g_live (shared_heap T) \<or> a \<notin> inside_at this T \<union> g_inside (shared_heap T)"
  shows "threads_inv T' \<and> (ok \<longleftrightarrow> a \<in> live_at this T \<union> g_live (shared_heap T))
    \<and> live_at this T' = live_at this T - {a} \<and> g_live (shared_heap T') = g_live (shared_heap T) - {a}
    \<and> inside_at this T' \<subseteq> inside_at this T \<and> g_inside (shared_heap T') \<subseteq> g_inside (shared_heap T)
    \<and> (ok \<or> inside_at this T' = inside_at this T \<and> g_inside (shared_heap T') = g_inside (shared_heap T))
    \<and> (\<exists>h g. T' = T\<lparr>heaps := (heaps T)(this \<mapsto> oh\<lparr>oh_super := h\<rparr>), shared_heap := g\<rparr>)"
proof -
  note d = threads_invD [OF T]
  let ?h = "oh_super oh" and ?g = "shared_heap T"
  obtain h g where r: "super_free (ops this) a ((?h, ?g), m) = (ok, ((h, g), m'), rs)"
    and T': "T' = T\<lparr>heaps := (heaps T)(this \<mapsto> oh\<lparr>oh_super := h\<rparr>), shared_heap := g\<rparr>"
    using run T(2) by (auto simp: at_free_def heap_at_def Let_def split: prod.splits)
  note I = each [OF d(1)]
  have at: "live_at this T = s_live this ?h" "inside_at this T = s_inside this ?h"
    "live_at this T' = s_live this h" "inside_at this T' = s_inside this h" "shared_heap T' = g"
    using T(2) by (simp_all add: live_at_def inside_at_def T')
  have i0: "case (?h, ?g) of (h, g) \<Rightarrow> s_inv this h \<and> g_inv g" using d by simp
  have fair': "a \<in> s_live this ?h \<union> g_live ?g \<or> a \<notin> s_inside this ?h \<union> g_inside ?g" using fair at by simp
  note sub = small [OF d(1,2)] big [OF d(4)] big_apart [OF d(1)]
  have res: "s_inv this h \<and> g_inv g \<and> (ok \<longleftrightarrow> a \<in> s_live this ?h \<union> g_live ?g)
    \<and> s_live this h \<union> g_live g = (s_live this ?h - {a}) \<union> (g_live ?g - {a})
    \<and> s_inside this h \<union> g_inside g \<subseteq> s_inside this ?h \<union> g_inside ?g
    \<and> (ok \<or> s_inside this h \<union> g_inside g = s_inside this ?h \<union> g_inside ?g)"
  proof (cases "a \<in> s_live this ?h \<union> g_live ?g")
    case True
    with heap_iface.release_live [OF I i0 _ r] show ?thesis by auto
  next
    case False
    with fair' have "a \<notin> (case (?h, ?g) of (h, g) \<Rightarrow> s_inside this h \<union> g_inside g)" by simp
    from heap_iface.release_outside [OF I i0 this r] False show ?thesis by auto
  qed
  then have i: "s_inv this h" "g_inv g" and ok: "ok \<longleftrightarrow> a \<in> s_live this ?h \<union> g_live ?g"
    and live: "s_live this h \<union> g_live g = (s_live this ?h - {a}) \<union> (g_live ?g - {a})"
    and ins: "s_inside this h \<union> g_inside g \<subseteq> s_inside this ?h \<union> g_inside ?g"
    and keep: "\<not> ok \<Longrightarrow> s_inside this h \<union> g_inside g = s_inside this ?h \<union> g_inside ?g" by blast+
  from small [OF d(1,2)] small [OF d(1) i(1)] big [OF d(4)] big [OF i(2)]
  have sub: "s_live this ?h \<subseteq> s_own this" "s_live this h \<subseteq> s_own this" "s_inside this ?h \<subseteq> s_own this"
    "s_inside this h \<subseteq> s_own this" "g_live ?g \<subseteq> g_own" "g_live g \<subseteq> g_own" "g_inside ?g \<subseteq> g_own" "g_inside g \<subseteq> g_own"
    by blast+
  have sub1: "s_live this ?h - {a} \<subseteq> s_own this" "g_live ?g - {a} \<subseteq> g_own" using sub by blast+
  note ap = big_apart [OF d(1)]
  note l = parts_of_union [OF live sub(2) sub1(1) sub(6) sub1(2) ap]
  have "threads_inv T'" unfolding T'
    by (rule set_super [OF T i]) (use d(6) l(1) in auto)
  moreover note part_below [OF ins sub(4,3,8,7) ap]
  moreover have "ok \<or> s_inside this h = s_inside this ?h \<and> g_inside g = g_inside ?g"
    using parts_of_union [OF keep sub(4,3,8,7) ap] by blast
  ultimately show ?thesis using ok l T' unfolding at by blast
qed

lemma other_live:
  assumes "\<And>that. that \<noteq> this \<Longrightarrow> heaps T' that = heaps T that"
  shows "that \<noteq> this \<Longrightarrow> live_at that T' = live_at that T \<and> inside_at that T' = inside_at that T"
  using assms by (simp add: live_at_def inside_at_def)

text \<open>An instance that is not registered yet registers itself.\<close>

lemma doRegister_spec:
  assumes T: "threads_inv T" "heaps T this = Some oh" and new: "\<not> oh_registered oh"
  shows "threads_inv (doRegister gs this T) \<and> heaps (doRegister gs this T) = (heaps T)(this \<mapsto> oh\<lparr>oh_registered := True\<rparr>)
    \<and> pool (doRegister gs this T) = pool T \<and> shared_heap (doRegister gs this T) = shared_heap T
    \<and> (\<forall>k. live_at k (doRegister gs this T) = live_at k T \<and> inside_at k (doRegister gs this T) = inside_at k T)"
proof -
  note d = threads_invD [OF T]
  let ?i = "oh_threadId oh" and ?R = "registered_at (registry T)" and ?x = "oh\<lparr>oh_registered := True\<rparr>"
  let ?reg = "registerHeap this ?i gs (registry T)"
  have D: "doRegister gs this T = T\<lparr>registry := ?reg, heaps := (heaps T)(this \<mapsto> ?x)\<rparr>"
    using T(2) by (simp add: doRegister_def heap_at_def Let_def)
  have "registry_inv (registry T)" using T(1) by (simp add: threads_inv_def)
  moreover have "this \<noteq> 0" using d(1) code(2) by metis
  ultimately have reg: "registry_inv ?reg" "registered_at ?reg = ?R(?i \<mapsto> (this, gs))"
    using registerHeap_spec [of "registry T" this gs ?i] code d(3) by auto
  have ok: "heaps_ok ?R (heaps T)" using T(1) by (simp add: threads_inv_def)
  have only: "oh_threadId y = ?i \<Longrightarrow> heaps T a = Some y \<Longrightarrow> a = this" for a y
    using heaps_okD(4) [OF ok, of a y this oh] T(2) by simp
  have free: "?R ?i = None"
  proof (rule ccontr)
    assume "?R ?i \<noteq> None"
    then obtain h f where r: "?R ?i = Some (h, f)" by auto
    from heaps_okD(3) [OF ok r] obtain y where "heaps T h = Some y" "oh_registered y" "oh_threadId y = ?i" by blast
    with only T(2) new show False by auto
  qed
  have "heaps_ok (?R(?i \<mapsto> (this, gs))) ((heaps T)(this \<mapsto> ?x))"
  proof (rule heaps_okI)
    show "inst_ok (?R(?i \<mapsto> (this, gs))) a y" if "((heaps T)(this \<mapsto> ?x)) a = Some y" for a y
    proof (cases "a = this")
      case True
      with that d(1-3) show ?thesis by (auto simp: inst_ok_def)
    next
      case False
      then have y: "heaps T a = Some y" using that by simp
      then have "oh_threadId y \<noteq> ?i" using only False by blast
      with heaps_okD(1) [OF ok y] show ?thesis by (simp add: inst_ok_def)
    qed
    show "f = gs" if "(?R(?i \<mapsto> (this, gs))) i = Some (h, f)" for i h f
      using that heaps_okD(2) [OF ok] by (auto split: if_splits)
    show "\<exists>z. ((heaps T)(this \<mapsto> ?x)) h = Some z \<and> oh_registered z \<and> oh_threadId z = i"
      if "(?R(?i \<mapsto> (this, gs))) i = Some (h, f)" for i h f
      using that heaps_okD(3) [OF ok, of i h f] T(2) by (cases "i = ?i"; cases "h = this") auto
    have ids: "\<exists>z. heaps T a = Some z \<and> oh_threadId z = oh_threadId y" if "((heaps T)(this \<mapsto> ?x)) a = Some y" for a y
      using that T(2) by (auto split: if_splits)
    show "a = b" if "((heaps T)(this \<mapsto> ?x)) a = Some y" "((heaps T)(this \<mapsto> ?x)) b = Some z" "oh_threadId y = oh_threadId z"
      for a b y z using ids [OF that(1)] ids [OF that(2)] that(3) heaps_okD(4) [OF ok] by metis
  qed
  with T reg have "threads_inv (doRegister gs this T)" by (simp add: D threads_inv_def)
  moreover have "live_at k (doRegister gs this T) = live_at k T \<and> inside_at k (doRegister gs this T) = inside_at k T" for k
    using T(2) by (simp add: D live_at_def inside_at_def)
  ultimately show ?thesis by (simp add: D)
qed

text \<open>Who owns a pointer.\<close>

lemma heap_of_registered:
  assumes "threads_inv T" and "registered_at (registry T) i = Some (h, f)"
  obtains oh where "heaps T h = Some oh" "oh_threadId oh = i" "f = gs" "h \<in> inst" "s_inv h (oh_super oh)" "g_inv (shared_heap T)"
proof -
  have ok: "heaps_ok (registered_at (registry T)) (heaps T)" using assms(1) by (simp add: threads_inv_def)
  obtain oh where oh: "heaps T h = Some oh" "oh_threadId oh = i" using heaps_okD(3) [OF ok assms(2)] by blast
  with threads_invD [OF assms(1) oh(1)] heaps_okD(2) [OF ok assms(2)] that show thesis by blast
qed

lemma size_elsewhere:
  assumes "threads_inv T" and "heaps T h = Some oh" and "a \<notin> s_own h \<union> g_own"
  shows "getSizeStatic ops h a T = 0"
  using heap_iface.size_foreign [OF each [OF threads_invD(1) [OF assms(1,2)]]] threads_invD [OF assms(1,2)] assms(2,3)
  by (simp add: getSizeStatic_def heap_at_def)

lemma findOwner_foreign:
  assumes "threads_inv T" and "a \<notin> g_own" and "\<And>h. h \<in> inst \<Longrightarrow> a \<notin> s_own h"
  shows "findOwner (\<lambda>f heap ptr. getSizeStatic ops heap ptr T) a ex (registry T) = INVALID_THREAD_ID"
proof (rule findOwner_spec(1))
  show "registry_inv (registry T)" using assms(1) by (simp add: threads_inv_def)
  have "getSizeStatic ops h a T = 0" if "registered_at (registry T) j = Some (h, f)" for j h f
    using heap_of_registered [OF assms(1) that] size_elsewhere [OF assms(1)] assms(2,3) by (metis UnE)
  then show "\<forall>j. j \<noteq> ex \<longrightarrow> (case registered_at (registry T) j of None \<Rightarrow> True | Some (h, f) \<Rightarrow> getSizeStatic ops h a T = 0)"
    by (auto split: option.splits)
qed

lemma live_own:
  assumes "threads_inv T" and "a \<in> live_at that T"
  obtains oh where "heaps T that = Some oh" "oh_registered oh" "a \<in> s_own that" "a \<notin> g_own" "that \<in> inst" "a \<noteq> 0"
    "\<And>h. h \<in> inst \<Longrightarrow> h \<noteq> that \<Longrightarrow> a \<notin> s_own h" "getSizeStatic ops that a T > 0"
proof -
  obtain oh where oh: "heaps T that = Some oh" "a \<in> s_live that (oh_super oh)"
    using assms(2) by (auto simp: live_at_def split: option.splits)
  note d = threads_invD [OF assms(1) oh(1)]
  have own: "a \<in> s_own that" using oh(2) small [OF d(1,2)] by blast
  have "super_getSize (ops that) a (oh_super oh, shared_heap T) \<noteq> 0"
    by (rule heap_iface.size_live [OF each [OF d(1)]]) (use d oh in auto)
  then have "getSizeStatic ops that a T > 0" using oh(1) by (simp add: getSizeStatic_def heap_at_def)
  moreover have "a \<noteq> 0" using heap_iface.null_foreign [OF each [OF d(1)]] own by (metis UnI1)
  moreover have "a \<notin> g_own" using own big_apart [OF d(1)] by blast
  moreover have "a \<notin> s_own h" if "h \<in> inst" "h \<noteq> that" for h using own apart [OF that(1) d(1) that(2)] by blast
  ultimately show thesis using that oh own d by blast
qed

lemma findOwner_owner:
  assumes T: "threads_inv T" and a: "a \<in> live_at that T" and that: "heaps T that = Some oh" and ex: "oh_threadId oh \<noteq> ex"
  shows "findOwner (\<lambda>f heap ptr. getSizeStatic ops heap ptr T) a ex (registry T) = oh_threadId oh"
proof (rule live_own [OF T a])
  fix oh'
  assume o: "heaps T that = Some oh'" "oh_registered oh'" "a \<in> s_own that" "a \<notin> g_own" "that \<in> inst"
    "\<And>h. h \<in> inst \<Longrightarrow> h \<noteq> that \<Longrightarrow> a \<notin> s_own h" "getSizeStatic ops that a T > 0"
  have reg: "registered_at (registry T) (oh_threadId oh) = Some (that, gs)"
    using threads_invD(5) [OF T that] o(1,2) assms(3) by simp
  have zero: "getSizeStatic ops h a T = 0" if r: "registered_at (registry T) j = Some (h, f)" and j: "j \<noteq> oh_threadId oh" for j h f
  proof (rule heap_of_registered [OF T r])
    fix y assume y: "heaps T h = Some y" "oh_threadId y = j" "h \<in> inst"
    then have "h \<noteq> that" using j assms(3) by auto
    with o(4,6) y(3) have "a \<notin> s_own h \<union> g_own" by blast
    with size_elsewhere [OF T y(1)] show ?thesis by blast
  qed
  show ?thesis
    by (rule findOwner_spec(2) [OF _ reg ex]) (use T o(7) zero in \<open>auto simp: threads_inv_def split: option.splits\<close>)
qed

section \<open>Frees\<close>

lemma pool_queue:
  assumes "threads_inv T" and "i < MAX_THREADS"
  shows "q_inv (pool T ! i)" and "i < length (pool T)"
  using assms by (simp_all add: threads_inv_def)

lemma set_pool:
  assumes "threads_inv T" and "i < MAX_THREADS" and "q_inv q"
  shows "threads_inv (T\<lparr>pool := (pool T)[i := q]\<rparr>)"
  using assms set_update_subset_insert [of "pool T" i q] by (auto simp: threads_inv_def)

lemma ensure_registered:
  assumes "threads_inv T" and "heaps T this = Some oh"
  defines "T1 \<equiv> if \<not> oh_registered (heap_at this T) then doRegister gs this T else T"
  shows "threads_inv T1 \<and> (\<exists>x. heaps T1 this = Some x \<and> oh_threadId x = oh_threadId oh \<and> oh_registered x
      \<and> oh_super x = oh_super oh \<and> oh_allocCount x = oh_allocCount oh)
    \<and> (\<forall>that. that \<noteq> this \<longrightarrow> heaps T1 that = heaps T that) \<and> pool T1 = pool T \<and> shared_heap T1 = shared_heap T
    \<and> (\<forall>k. live_at k T1 = live_at k T \<and> inside_at k T1 = inside_at k T)"
  using doRegister_spec [OF assms(1,2)] assms(1,2) by (cases "oh_registered oh") (simp_all add: T1_def heap_at_def)

lemma freeSlow_cross:
  assumes T: "threads_inv T" "heaps T this = Some oh" and that: "heaps T that = Some oh'" "that \<noteq> this" "a \<in> live_at that T"
    and short: "q_head (pool T ! oh_threadId oh') + 1 < 2 ^ 64" and run: "freeSlow ops gs this a (T, m) = (ok, (T', m'), rs)"
  shows "ok \<and> threads_inv T' \<and> shared_heap T' = shared_heap T \<and> (\<forall>k. live_at k T' = live_at k T)
    \<and> (\<exists>q. pool T' = (pool T)[oh_threadId oh' := q] \<and> q_pending q = (if length (q_pending (pool T ! oh_threadId oh')) < 1024
        then q_pending (pool T ! oh_threadId oh') @ [a] else q_pending (pool T ! oh_threadId oh')))"
proof -
  let ?i = "oh_threadId oh'"
  define T1 where "T1 = (if \<not> oh_registered (heap_at this T) then doRegister gs this T else T)"
  note e = ensure_registered [OF T, folded T1_def]
  then obtain x where x: "heaps T1 this = Some x" "oh_threadId x = oh_threadId oh" by blast
  have t1: "threads_inv T1" "heaps T1 that = Some oh'" "a \<in> live_at that T1" "pool T1 = pool T" "shared_heap T1 = shared_heap T"
    "\<And>k. live_at k T1 = live_at k T" using e that by auto
  have i: "?i < MAX_THREADS" using threads_invD(3) [OF T(1) that(1)] .
  have ok: "heaps_ok (registered_at (registry T)) (heaps T)" using T(1) by (simp add: threads_inv_def)
  have "?i \<noteq> oh_threadId oh" using heaps_okD(4) [OF ok that(1) T(2)] that(2) by blast
  then have "findOwner (\<lambda>f heap ptr. getSizeStatic ops heap ptr T1) a (oh_threadId (heap_at this T1)) (registry T1) = ?i"
    using findOwner_owner [OF t1(1,3,2)] x by (simp add: heap_at_def)
  moreover have "?i \<noteq> INVALID_THREAD_ID" using i by (simp add: MAX_THREADS_def INVALID_THREAD_ID_def)
  ultimately have T': "ok" "T' = T1\<lparr>pool := snd (crossThreadFree a ?i (pool T1))\<rparr>"
    using run by (auto simp: freeSlow_def T1_def [symmetric] Let_def split: prod.splits)
  have "a \<noteq> 0" using live_own [OF t1(1,3)] by blast
  note p = push_spec [OF pool_queue(1) [OF T(1) i] this short]
  define q where "q = snd (push a (pool T ! ?i))"
  have q: "q_inv q \<and> q_pending q = (if length (q_pending (pool T ! ?i)) < 1024
      then q_pending (pool T ! ?i) @ [a] else q_pending (pool T ! ?i))"
    using p pool_queue(1) [OF T(1) i] by (auto simp: q_def split: if_splits)
  have "T' = T1\<lparr>pool := (pool T1)[?i := q]\<rparr>"
    using T'(2) i t1(4) by (simp add: crossThreadFree_def q_def split: prod.splits)
  with set_pool [OF t1(1) i, of q] q t1 T'(1) show ?thesis by (auto simp: live_at_def)
qed

text \<open>
  A \<open>free\<close> by the instance \<open>this\<close> of an object that is its own or shared, of an object of another
  instance, and of something no instance owns.
\<close>

lemma oh_free_own:
  assumes T: "threads_inv T" "heaps T this = Some oh" and a: "a \<in> live_at this T \<union> g_live (shared_heap T)"
    and run: "oh_free ops gs this a (T, m) = (ok, (T', m'), rs)"
  shows "ok \<and> threads_inv T' \<and> live_at this T' = live_at this T - {a}
    \<and> g_live (shared_heap T') = g_live (shared_heap T) - {a} \<and> pool T' = pool T
    \<and> (\<forall>k. k \<noteq> this \<longrightarrow> live_at k T' = live_at k T)"
proof -
  obtain k T1 m1 rs1 where one: "at_free ops this a (T, m) = (k, (T1, m1), rs1)" by (metis surj_pair)
  note f = at_free_spec [OF T one]
  have "a \<in> s_own this \<union> g_own"
    using a small [OF threads_invD(1,2) [OF T]] big [OF threads_invD(4) [OF T]] T(2) by (auto simp: live_at_def)
  then have "a \<noteq> 0" using heap_iface.null_foreign [OF each [OF threads_invD(1) [OF T]]] by metis
  then have "ok" "T' = T1" using run one f a by (auto simp: oh_free_def split: if_splits)
  with f a show ?thesis by (auto simp: live_at_def)
qed

lemma oh_free_cross:
  assumes T: "threads_inv T" "heaps T this = Some oh" and that: "heaps T that = Some oh'" "that \<noteq> this" "a \<in> live_at that T"
    and short: "q_head (pool T ! oh_threadId oh') + 1 < 2 ^ 64" and run: "oh_free ops gs this a (T, m) = (ok, (T', m'), rs)"
  shows "ok \<and> threads_inv T' \<and> g_live (shared_heap T') = g_live (shared_heap T) \<and> (\<forall>k. live_at k T' = live_at k T)
    \<and> (\<exists>q. pool T' = (pool T)[oh_threadId oh' := q] \<and> q_pending q = (if length (q_pending (pool T ! oh_threadId oh')) < 1024
        then q_pending (pool T ! oh_threadId oh') @ [a] else q_pending (pool T ! oh_threadId oh')))"
proof (rule live_own [OF T(1) that(3)])
  assume own: "a \<in> s_own that" "a \<notin> g_own" "a \<noteq> 0" "that \<in> inst" "\<And>h. h \<in> inst \<Longrightarrow> h \<noteq> that \<Longrightarrow> a \<notin> s_own h"
  note d = threads_invD [OF T]
  have out: "a \<notin> inside_at this T \<union> g_inside (shared_heap T)" "a \<notin> live_at this T \<union> g_live (shared_heap T)"
    using own(2) own(5) [OF d(1)] that(2) small [OF d(1,2)] big [OF d(4)] T(2) by (auto simp: inside_at_def live_at_def)
  obtain k T1 m1 rs1 where one: "at_free ops this a (T, m) = (k, (T1, m1), rs1)" by (metis surj_pair)
  note f = at_free_spec [OF T one]
  have k: "\<not> k" "threads_inv T1" "live_at this T1 = live_at this T" "g_live (shared_heap T1) = g_live (shared_heap T)"
    using f out by auto
  obtain h g where T1: "T1 = T\<lparr>heaps := (heaps T)(this \<mapsto> oh\<lparr>oh_super := h\<rparr>), shared_heap := g\<rparr>" using f out by blast
  have t1: "heaps T1 this = Some (oh\<lparr>oh_super := h\<rparr>)" "heaps T1 that = Some oh'" "pool T1 = pool T"
    using that by (simp_all add: T1)
  have live: "live_at j T1 = live_at j T" for j using k(3) by (cases "j = this") (simp_all add: T1 live_at_def)
  obtain rs2 where two: "freeSlow ops gs this a (T1, m1) = (ok, (T', m'), rs2)"
    using run one k(1) own(3) by (auto simp: oh_free_def split: prod.splits)
  have "a \<in> live_at that T1" using that(3) live by simp
  from freeSlow_cross [OF k(2) t1(1,2) that(2) this _ two] short t1(3) live k(4) show ?thesis by auto
qed

lemma oh_free_foreign:
  assumes T: "threads_inv T" "heaps T this = Some oh" and a: "a \<notin> g_own" "\<And>h. h \<in> inst \<Longrightarrow> a \<notin> s_own h"
    and run: "oh_free ops gs this a (T, m) = (ok, (T', m'), rs)"
  shows "\<not> ok \<and> threads_inv T' \<and> g_live (shared_heap T') = g_live (shared_heap T) \<and> (\<forall>k. live_at k T' = live_at k T)
    \<and> pool T' = pool T"
proof (cases "a = 0")
  case False
  have out: "a \<notin> inside_at this U \<union> g_inside (shared_heap U)" "a \<notin> live_at this U \<union> g_live (shared_heap U)"
    if U: "threads_inv U" "heaps U this = Some x" for U x
    using threads_invD [OF U] a small [OF threads_invD(1,2) [OF U]] big [OF threads_invD(4) [OF U]] U(2)
    by (auto simp: inside_at_def live_at_def)
  have step: "\<not> k \<and> threads_inv V \<and> g_live (shared_heap V) = g_live (shared_heap U) \<and> (\<forall>j. live_at j V = live_at j U)
      \<and> pool V = pool U \<and> (\<exists>y. heaps V this = Some y)"
    if U: "threads_inv U" "heaps U this = Some x" and run: "at_free ops this a (U, m) = (k, (V, n), rs)" for U V x k m n rs
  proof -
    note f = at_free_spec [OF U run] and o = out [OF U]
    obtain h g where V: "V = U\<lparr>heaps := (heaps U)(this \<mapsto> x\<lparr>oh_super := h\<rparr>), shared_heap := g\<rparr>" using f o by blast
    have l: "live_at this V = live_at this U" "g_live (shared_heap V) = g_live (shared_heap U)" "\<not> k" "threads_inv V"
      using f o by auto
    have "live_at j V = live_at j U" for j using l(1) by (cases "j = this") (simp_all add: V live_at_def)
    with l show ?thesis by (simp add: V)
  qed
  obtain k T1 m1 rs1 where one: "at_free ops this a (T, m) = (k, (T1, m1), rs1)" by (metis surj_pair)
  note s1 = step [OF T one]
  then obtain y where y: "heaps T1 this = Some y" by blast
  have t1: "threads_inv T1" using s1 by blast
  define T2 where "T2 = (if \<not> oh_registered (heap_at this T1) then doRegister gs this T1 else T1)"
  note e = ensure_registered [OF t1 y, folded T2_def]
  then obtain x where x: "threads_inv T2" "heaps T2 this = Some x" by blast
  obtain rs2 where two: "freeSlow ops gs this a (T1, m1) = (ok, (T', m'), rs2)"
    using run one s1 False by (auto simp: oh_free_def split: prod.splits)
  have "at_free ops this a (T2, m1) = (ok, (T', m'), rs2)"
    using two findOwner_foreign [OF x(1) a] by (simp add: freeSlow_def T2_def [symmetric] Let_def)
  from step [OF x this] s1 e show ?thesis by auto
qed (use run T in \<open>simp add: oh_free_def\<close>)

section \<open>Drains and allocations\<close>

lemma set_super_same:
  "heaps T this = Some oh \<Longrightarrow> T\<lparr>heaps := (heaps T)(this \<mapsto> oh\<lparr>oh_super := oh_super oh\<rparr>), shared_heap := shared_heap T\<rparr> = T"
  by (cases T, cases oh) (simp add: map_upd_triv)

text \<open>The callback of the drain, over the objects of \<open>this\<close> in a list.\<close>

lemma fold_free:
  assumes "threads_inv T" and "heaps T this = Some oh" and "distinct xs" and "set xs \<subseteq> live_at this T"
    and "fold (\<lambda>ptr (Tm, rs). let (ok, Tm, rs') = at_free ops this ptr Tm in (Tm, rs @ rs')) xs ((T, m), rs) = ((T', m'), rs')"
  shows "threads_inv T' \<and> live_at this T' = live_at this T - set xs \<and> g_live (shared_heap T') = g_live (shared_heap T)
    \<and> (\<exists>h g. T' = T\<lparr>heaps := (heaps T)(this \<mapsto> oh\<lparr>oh_super := h\<rparr>), shared_heap := g\<rparr>)"
  using assms
proof (induction xs arbitrary: T oh m rs)
  case Nil
  then have "T' = T\<lparr>heaps := (heaps T)(this \<mapsto> oh\<lparr>oh_super := oh_super oh\<rparr>), shared_heap := shared_heap T\<rparr>"
    using set_super_same [of T this oh] by simp
  with Nil show ?case by (metis Diff_empty empty_set fold_simps(1) prod.inject)
next
  case (Cons a xs)
  obtain ok U n us where one: "at_free ops this a (T, m) = (ok, (U, n), us)" by (metis surj_pair)
  have a: "a \<in> live_at this T" using Cons.prems(4) by simp
  note f = at_free_spec [OF Cons.prems(1,2) one]
  obtain h g where U: "U = T\<lparr>heaps := (heaps T)(this \<mapsto> oh\<lparr>oh_super := h\<rparr>), shared_heap := g\<rparr>" using f a by blast
  have "a \<notin> g_live (shared_heap T)"
    using live_own [OF Cons.prems(1) a] big [OF threads_invD(4) [OF Cons.prems(1,2)]] by blast
  then have u: "threads_inv U" "live_at this U = live_at this T - {a}" "g_live (shared_heap U) = g_live (shared_heap T)"
    using f a by auto
  have "heaps U this = Some (oh\<lparr>oh_super := h\<rparr>)" "distinct xs" "set xs \<subseteq> live_at this U"
    using Cons.prems(3,4) u(2) by (auto simp: U)
  moreover have "fold (\<lambda>ptr (Tm, rs). let (ok, Tm, rs') = at_free ops this ptr Tm in (Tm, rs @ rs')) xs ((U, n), rs @ us)
      = ((T', m'), rs')" using Cons.prems(5) one by simp
  ultimately have r: "threads_inv T' \<and> live_at this T' = live_at this U - set xs \<and> g_live (shared_heap T') = g_live (shared_heap U)
    \<and> (\<exists>h' g. T' = U\<lparr>heaps := (heaps U)(this \<mapsto> (oh\<lparr>oh_super := h\<rparr>)\<lparr>oh_super := h'\<rparr>), shared_heap := g\<rparr>)"
    using Cons.IH [OF u(1)] by blast
  then obtain h' g' where "T' = U\<lparr>heaps := (heaps U)(this \<mapsto> (oh\<lparr>oh_super := h\<rparr>)\<lparr>oh_super := h'\<rparr>), shared_heap := g'\<rparr>" by blast
  then have "T' = T\<lparr>heaps := (heaps T)(this \<mapsto> oh\<lparr>oh_super := h'\<rparr>), shared_heap := g'\<rparr>" by (simp add: U)
  moreover have "live_at this U - set xs = live_at this T - set (a # xs)" using u(2) by auto
  ultimately show ?case using r u(3) by metis
qed

lemma drained:
  assumes T: "threads_inv T" "heaps T this = Some oh"
    and pending: "distinct (q_pending (pool T ! oh_threadId oh))" "set (q_pending (pool T ! oh_threadId oh)) \<subseteq> live_at this T"
    and run: "maybeDrainPendingFrees ops this (T, m) = ((T', m'), rs)"
  shows "threads_inv T' \<and> (\<forall>k. k \<noteq> this \<longrightarrow> heaps T' k = heaps T k) \<and> (\<exists>h. heaps T' this = Some (oh\<lparr>oh_super := h\<rparr>))
    \<and> g_live (shared_heap T') = g_live (shared_heap T) \<and> registry T' = registry T
    \<and> (if 32 \<le> length (q_pending (pool T ! oh_threadId oh))
       then live_at this T' = live_at this T - set (q_pending (pool T ! oh_threadId oh))
         \<and> (\<exists>q. pool T' = (pool T)[oh_threadId oh := q] \<and> q_pending q = [])
       else T' = T)"
proof -
  let ?i = "oh_threadId oh" and ?q = "pool T ! oh_threadId oh"
  have i: "?i < MAX_THREADS" using threads_invD(3) [OF T] .
  note q = pool_queue [OF T(1) i]
  have due: "pool_shouldDrain ?i (pool T) \<longleftrightarrow> 32 \<le> length (q_pending ?q)"
    using i q_length [OF q(1)] by (simp add: pool_shouldDrain_def shouldDrain_def FREE_BATCH_SIZE_def)
  show ?thesis
  proof (cases "32 \<le> length (q_pending ?q)")
    case True
    let ?cb = "\<lambda>ptr (Tm, rs). let (ok, Tm, rs') = at_free ops this ptr Tm in (Tm, rs @ rs')"
    obtain n q' U u us where d: "drain ?cb ?q ((T, m), []) = (n, q', ((U, u), us))" by (metis surj_pair)
    note s = drain_spec [OF q(1) d]
    have U: "threads_inv U \<and> live_at this U = live_at this T - set (q_pending ?q) \<and> g_live (shared_heap U) = g_live (shared_heap T)
      \<and> (\<exists>h g. U = T\<lparr>heaps := (heaps T)(this \<mapsto> oh\<lparr>oh_super := h\<rparr>), shared_heap := g\<rparr>)"
      by (rule fold_free [OF T pending]) (rule s [THEN conjunct2, THEN conjunct2, THEN conjunct2, THEN conjunct1, symmetric])
    then obtain h g where h: "U = T\<lparr>heaps := (heaps T)(this \<mapsto> oh\<lparr>oh_super := h\<rparr>), shared_heap := g\<rparr>" by blast
    have T': "T' = U\<lparr>pool := (pool U)[?i := q']\<rparr>"
      using run True due i d T(2) h by (auto simp: maybeDrainPendingFrees_def heap_at_def drainForThread_def Let_def)
    have "threads_inv T'" using set_pool [of U ?i q'] U i s T' by simp
    moreover have "live_at this T' = live_at this U" by (simp add: T' live_at_def)
    moreover have "pool T' = (pool T)[?i := q']" by (simp add: T' h)
    ultimately show ?thesis using U s True by (auto simp: T' h)
  next
    case False
    then have "T' = T" using run due T(2) by (simp add: maybeDrainPendingFrees_def heap_at_def Let_def)
    with T False show ?thesis by (auto intro: exI [of _ "oh_super oh"])
  qed
qed

lemma at_malloc_spec:
  assumes T: "threads_inv T" "heaps T this = Some oh" "oh_registered oh" and sz: "serves sz"
    and run: "at_malloc ops this sz (T, m) = Some (a, (T', m'), rs)"
  shows "threads_inv T' \<and> (\<forall>k. k \<noteq> this \<longrightarrow> heaps T' k = heaps T k) \<and> pool T' = pool T
    \<and> live_at this T' \<union> g_live (shared_heap T') = live_at this T \<union> g_live (shared_heap T) \<union> ({a} - {0})
    \<and> (a \<noteq> 0 \<longrightarrow> a \<notin> live_at this T \<union> g_live (shared_heap T) \<and> a \<in> s_own this \<union> g_own)"
proof -
  note d = threads_invD [OF T(1,2)]
  let ?h = "oh_super oh" and ?g = "shared_heap T"
  obtain h g where r: "super_malloc (ops this) sz ((?h, ?g), m) = Some (a, ((h, g), m'), rs)"
    and T': "T' = T\<lparr>heaps := (heaps T)(this \<mapsto> oh\<lparr>oh_super := h\<rparr>), shared_heap := g\<rparr>"
    using run T(2) by (auto simp: at_malloc_def heap_at_def Let_def)
  note I = each [OF d(1)]
  have i0: "case (?h, ?g) of (h, g) \<Rightarrow> s_inv this h \<and> g_inv g" using d by simp
  note al = heap_iface.alloc_result [OF I i0 sz r] and fresh = heap_iface.alloc_fresh [OF I i0 sz r]
  have i: "s_inv this h" "g_inv g" using al by auto
  have "threads_inv T'" unfolding T' by (rule set_super [OF T(1,2) i]) (use T(3) in simp)
  moreover have "s_live this h \<union> g_live g = s_live this ?h \<union> g_live ?g \<union> ({a} - {0})" using al by (cases "a = 0") auto
  moreover have "a \<noteq> 0 \<longrightarrow> a \<notin> s_live this ?h \<union> g_live ?g \<and> a \<in> s_own this \<union> g_own" using fresh by auto
  ultimately show ?thesis using T(2) by (simp add: live_at_def T')
qed

lemma set_count:
  assumes T: "threads_inv T" "heaps T this = Some oh"
  shows "threads_inv (T\<lparr>heaps := (heaps T)(this \<mapsto> oh\<lparr>oh_allocCount := n\<rparr>)\<rparr>)"
proof -
  have "inst_ok (registered_at (registry T)) this (oh\<lparr>oh_allocCount := n\<rparr>)"
    using threads_invD [OF T] by (simp add: inst_ok_def)
  with heaps_ok_update [of _ "heaps T" this oh] T show ?thesis by (simp add: threads_inv_def)
qed

text \<open>The objects freed by other threads that an allocation by \<open>this\<close> takes back.\<close>

definition taken_back :: "addr \<Rightarrow> ('h, 'g) threads \<Rightarrow> addr set" where
  "taken_back this T = (let oh = heap_at this T; q = q_pending (pool T ! oh_threadId oh)
     in if 16 dvd (oh_allocCount oh + 1) mod 2 ^ 32 \<and> 32 \<le> length q then set q else {})"

lemma oh_malloc_spec:
  assumes T: "threads_inv T" "heaps T this = Some oh" and sz: "serves sz"
    and pending: "distinct (q_pending (pool T ! oh_threadId oh))" "set (q_pending (pool T ! oh_threadId oh)) \<subseteq> live_at this T"
    and run: "oh_malloc ops gs this sz (T, m) = Some (a, (T', m'), rs)"
  shows "threads_inv T' \<and> (\<forall>k. k \<noteq> this \<longrightarrow> live_at k T' = live_at k T)
    \<and> live_at this T' \<union> g_live (shared_heap T') = live_at this T \<union> g_live (shared_heap T) - taken_back this T \<union> ({a} - {0})
    \<and> (a \<noteq> 0 \<longrightarrow> a \<notin> live_at this T \<union> g_live (shared_heap T) - taken_back this T \<and> (\<forall>k. k \<noteq> this \<longrightarrow> a \<notin> live_at k T))"
proof -
  define T1 where "T1 = (if \<not> oh_registered (heap_at this T) then doRegister gs this T else T)"
  note e = ensure_registered [OF T, folded T1_def]
  then obtain x where x: "heaps T1 this = Some x" "oh_threadId x = oh_threadId oh" "oh_registered x"
    "oh_allocCount x = oh_allocCount oh" by blast
  let ?n = "(oh_allocCount oh + 1) mod 2 ^ 32"
  define T2 where "T2 = T1\<lparr>heaps := (heaps T1)(this \<mapsto> x\<lparr>oh_allocCount := ?n\<rparr>)\<rparr>"
  have t2: "threads_inv T2" "heaps T2 this = Some (x\<lparr>oh_allocCount := ?n\<rparr>)" "pool T2 = pool T" "shared_heap T2 = shared_heap T"
    using set_count [of T1 this x ?n] e x by (simp_all add: T2_def)
  have "live_at k T2 = live_at k T1" for k using x by (simp add: T2_def live_at_def)
  then have live2: "live_at k T2 = live_at k T" for k using e by simp
  obtain T3 m3 rs3 where d: "(if ?n AND (DRAIN_CHECK_INTERVAL - 1) = 0 then maybeDrainPendingFrees ops this (T2, m)
      else ((T2, m), [])) = ((T3, m3), rs3)" by (metis surj_pair)
  have every: "?n AND (DRAIN_CHECK_INTERVAL - 1) = 0 \<longleftrightarrow> 16 dvd ?n"
    using and_pred_pow2 [of ?n 4] by (simp add: DRAIN_CHECK_INTERVAL_def dvd_eq_mod_eq_0)
  have "distinct (q_pending (pool T2 ! oh_threadId (x\<lparr>oh_allocCount := ?n\<rparr>)))"
    "set (q_pending (pool T2 ! oh_threadId (x\<lparr>oh_allocCount := ?n\<rparr>))) \<subseteq> live_at this T2"
    using pending live2 t2 x by simp_all
  note dr = drained [OF t2(1,2) this, of m T3 m3 rs3]
  have t3: "threads_inv T3" "\<And>k. k \<noteq> this \<Longrightarrow> live_at k T3 = live_at k T" "g_live (shared_heap T3) = g_live (shared_heap T)"
    "\<exists>y. heaps T3 this = Some y \<and> oh_registered y" "live_at this T3 = live_at this T - taken_back this T"
  proof -
    have t: "taken_back this T = (if 16 dvd ?n \<and> 32 \<le> length (q_pending (pool T ! oh_threadId oh))
        then set (q_pending (pool T ! oh_threadId oh)) else {})"
      using T(2) by (simp add: taken_back_def heap_at_def Let_def)
    show "threads_inv T3" "g_live (shared_heap T3) = g_live (shared_heap T)" "\<exists>y. heaps T3 this = Some y \<and> oh_registered y"
      using dr d t2 x(3) every by (auto split: if_splits)
    show "live_at k T3 = live_at k T" if "k \<noteq> this" for k
      using dr d live2 that every by (auto simp: live_at_def split: if_splits)
    show "live_at this T3 = live_at this T - taken_back this T"
      using dr d live2 every x(2) t2(3) unfolding t by (auto split: if_splits)
  qed
  obtain y where y: "heaps T3 this = Some y" "oh_registered y" using t3(4) by blast
  have h: "heap_at this T1 = x" using x(1) by (simp add: heap_at_def)
  have "oh_malloc ops gs this sz (T, m) = (case (if ?n AND (DRAIN_CHECK_INTERVAL - 1) = 0
      then maybeDrainPendingFrees ops this (T2, m) else ((T2, m), [])) of (Tm, rs) \<Rightarrow>
        map_option (\<lambda>(ptr, Tm, rs'). (ptr, Tm, rs @ rs')) (at_malloc ops this sz Tm))"
    unfolding oh_malloc_def Let_def prod.case T1_def [symmetric] h x(4) T2_def [symmetric] by (rule refl)
  then have "map_option (\<lambda>(ptr, Tm, rs'). (ptr, Tm, rs3 @ rs')) (at_malloc ops this sz (T3, m3)) = Some (a, (T', m'), rs)"
    unfolding run d prod.case by (rule sym)
  then obtain rs4 where al: "at_malloc ops this sz (T3, m3) = Some (a, (T', m'), rs4)" by auto
  note r = at_malloc_spec [OF t3(1) y sz al]
  have others: "live_at k T' = live_at k T" if "k \<noteq> this" for k using r t3(2) that by (auto simp: live_at_def)
  have "a \<notin> live_at k T" if "k \<noteq> this" "a \<noteq> 0" for k
  proof
    assume k: "a \<in> live_at k T"
    have "this \<in> inst" using threads_invD(1) [OF T] .
    with r that live_own [OF T(1) k] show False by blast
  qed
  moreover have "taken_back this T \<inter> g_live (shared_heap T) = {}"
  proof -
    have "taken_back this T \<subseteq> live_at this T" using pending(2) T(2) by (auto simp: taken_back_def heap_at_def Let_def)
    moreover have "live_at this T \<inter> g_live (shared_heap T) = {}"
      using live_own [OF T(1)] big [OF threads_invD(4) [OF T]] by blast
    ultimately show ?thesis by blast
  qed
  then have "live_at this T3 \<union> g_live (shared_heap T3) = live_at this T \<union> g_live (shared_heap T) - taken_back this T"
    unfolding t3(3,5) by blast
  ultimately show ?thesis using r others by auto
qed

section \<open>Sizes and new instances\<close>

text \<open>\<open>getSize\<close> knows nothing of the objects of other threads.\<close>

lemma oh_getSize_other:
  assumes "threads_inv T" and "heaps T this = Some oh" and "a \<in> live_at that T" and "that \<noteq> this"
  shows "oh_getSize ops this a T = 0"
proof -
  have "a \<notin> s_own this \<union> g_own" using live_own [OF assms(1,3)] assms(4) threads_invD(1) [OF assms(1,2)] by blast
  from size_elsewhere [OF assms(1,2) this] show ?thesis by (simp add: getSizeStatic_def oh_getSize_def)
qed

lemma any_heap_size:
  assumes T: "threads_inv T" "heaps T this = Some oh" and a: "a \<in> live_at that T" "that \<noteq> this"
  shows "oh_getSize ops this a T = 0 \<and> 0 < getSizeStatic ops that a T
    \<and> getSizeFromAnyHeap (\<lambda>f heap ptr. getSizeStatic ops heap ptr T) a (oh_threadId oh) (registry T) = getSizeStatic ops that a T"
proof (rule live_own [OF T(1) a(1)])
  fix oh'
  assume o: "heaps T that = Some oh'" "oh_registered oh'" "a \<in> s_own that" "a \<notin> g_own" "that \<in> inst"
    "\<And>h. h \<in> inst \<Longrightarrow> h \<noteq> that \<Longrightarrow> a \<notin> s_own h" "getSizeStatic ops that a T > 0"
  have reg: "registered_at (registry T) (oh_threadId oh') = Some (that, gs)" using threads_invD(5) [OF T(1) o(1,2)] .
  have ok: "heaps_ok (registered_at (registry T)) (heaps T)" using T(1) by (simp add: threads_inv_def)
  have ne: "oh_threadId oh' \<noteq> oh_threadId oh" using heaps_okD(4) [OF ok o(1) T(2)] a(2) by blast
  have zero: "getSizeStatic ops h a T = 0" if r: "registered_at (registry T) j = Some (h, f)" and j: "j \<noteq> oh_threadId oh'" for j h f
  proof (rule heap_of_registered [OF T(1) r])
    fix y assume y: "heaps T h = Some y" "oh_threadId y = j" "h \<in> inst"
    then have "h \<noteq> that" using j o(1) by auto
    with o(4,6) y(3) have "a \<notin> s_own h \<union> g_own" by blast
    with size_elsewhere [OF T(1) y(1)] show ?thesis by blast
  qed
  have "getSizeFromAnyHeap (\<lambda>f heap ptr. getSizeStatic ops heap ptr T) a (oh_threadId oh) (registry T) = getSizeStatic ops that a T"
    by (rule getSizeFromAnyHeap_hit [OF reg ne]) (use zero in \<open>auto split: option.splits\<close>)
  with o(7) oh_getSize_other [OF T a] show ?thesis by simp
qed

lemma new_instance:
  assumes "threads_inv T" and "heaps T this = None" and "this \<in> inst" and "s_inv this super" and "s_live this super = {}"
    and "\<And>that oh. heaps T that = Some oh \<Longrightarrow> oh_threadId oh \<noteq> nextId T mod 64"
  shows "threads_inv (OwnershipTrackingHeap this super T)" and "heaps (OwnershipTrackingHeap this super T) =
    (heaps T)(this \<mapsto> \<lparr>oh_threadId = nextId T mod 64, oh_registered = False, oh_allocCount = 0, oh_super = super\<rparr>)"
proof -
  let ?x = "\<lparr>oh_threadId = nextId T mod 64, oh_registered = False, oh_allocCount = 0, oh_super = super\<rparr>"
  have C: "OwnershipTrackingHeap this super T = T\<lparr>nextId := (nextId T + 1) mod 2 ^ 64, heaps := (heaps T)(this \<mapsto> ?x)\<rparr>"
    by (simp add: OwnershipTrackingHeap_def getThreadId_def allocateThreadId_def MAX_THREADS_def Let_def)
  then show "heaps (OwnershipTrackingHeap this super T) = (heaps T)(this \<mapsto> ?x)" by simp
  have ok: "heaps_ok (registered_at (registry T)) (heaps T)" using assms(1) by (simp add: threads_inv_def)
  have "heaps_ok (registered_at (registry T)) ((heaps T)(this \<mapsto> ?x))"
  proof (rule heaps_okI)
    show "inst_ok (registered_at (registry T)) a y" if "((heaps T)(this \<mapsto> ?x)) a = Some y" for a y
      using that heaps_okD(1) [OF ok] assms(3-5) by (auto simp: inst_ok_def MAX_THREADS_def split: if_splits)
    show "f = gs" if "registered_at (registry T) i = Some (h, f)" for i h f using heaps_okD(2) [OF ok that] .
    show "\<exists>z. ((heaps T)(this \<mapsto> ?x)) h = Some z \<and> oh_registered z \<and> oh_threadId z = i"
      if "registered_at (registry T) i = Some (h, f)" for i h f
      using heaps_okD(3) [OF ok that] assms(2) by (cases "h = this") auto
    show "a = b" if "((heaps T)(this \<mapsto> ?x)) a = Some y" "((heaps T)(this \<mapsto> ?x)) b = Some z" "oh_threadId y = oh_threadId z"
      for a b y z using that heaps_okD(4) [OF ok, of a y b z] assms(6) [of b z] assms(6) [of a y] by (auto split: if_splits)
  qed
  with assms(1) show "threads_inv (OwnershipTrackingHeap this super T)" by (simp add: C threads_inv_def)
qed

definition threads_start :: "'g \<Rightarrow> ('h, 'g) threads" where
  "threads_start g = \<lparr>nextId = 0, registry = HeapRegistry, pool = GlobalFreePool, heaps = (\<lambda>_. None), shared_heap = g\<rparr>"

lemma threads_start_inv: "g_inv g \<Longrightarrow> threads_inv (threads_start g)"
  using HeapRegistry_inv q_start
  by (auto simp: threads_inv_def threads_start_def heaps_ok_def GlobalFreePool_def)


end

end
