(* ===== verification/LibDieHarder.thy ===== *)
theory LibDieHarder
  imports CombineHeap
begin

text \<open>
  The heap of \<open>src/source/libdieharder.cpp\<close> as a whole (the design with one locked heap): what
  \<open>getSize\<close> answers for its live objects, that no two of them overlap, and the exported
  \<open>xxmemalign\<close>.  \<open>ANSIWrapper\<close> and \<open>LockedHeap\<close> belong to Heap-Layers, which is not part of the
  sources: the exported functions take the wrapped \<open>malloc\<close> as an argument.
\<close>

section \<open>Exported functions\<close>

definition xxmalloc :: "'r heap_malloc \<Rightarrow> 'r heap_malloc" where
  "xxmalloc heap_malloc sz s = heap_malloc sz s"

definition xxmemalign :: "'r heap_malloc \<Rightarrow> nat \<Rightarrow> 'r heap_malloc" where
  "xxmemalign heap_malloc alignment sz s = xxmalloc heap_malloc (if sz < alignment then alignment else sz) s"

section \<open>Sizes of live objects\<close>

lemma class_getSize:
  assumes "env_ok P E" and "class_heap_inv P df E h" and "a \<in> heap_live (class_live P df) h"
  shows "rh_getSize (dh_ops P df E) a h = rh_ObjectSize P"
proof -
  note H = class_random_heap [OF assms(1), of df]
  have s: "heap_shape P mini_fresh (class_ready P df E) h" using assms(2) by (simp add: heap_inv_def)
  obtain i where i: "i < rh_miniHeapsInUse h" "a \<in> class_live P df i (rh_buf h ! i)"
    using assms(3) by (auto simp: heap_live_def)
  have r: "class_ready P df E i (rh_buf h ! i)" using s i(1) by (auto simp: heap_shape_def)
  obtain j where j: "j < mini_NObjects P i" "a = env_buf E i + j * rh_ObjectSize P"
    using class_slot_inside [OF r i(2)] by blast
  have "0 < rh_ObjectSize P"
    using r by (simp add: class_ready_def dh_ready_def mini_ok_def heap_simps)
  then have reg: "a \<in> class_region P E i" using class_live_region [OF r i(2)] by auto
  have "rh_getSize (dh_ops P df E) a h = mini_getSize (dh_ops P df E i) a (rh_buf h ! i)"
    unfolding rh_getSize_def by (rule random_heap.rh_size_search_hit [OF H s order_refl i(1) reg])
  also have "\<dots> = rh_ObjectSize P"
    using dh_getSize_eq [of "dh_params P df i" "rh_buf h ! i" a] r reg class_owned [OF r] j(2)
    by (simp add: heap_simps class_ready_def)
  finally show ?thesis .
qed

lemma program_class_size: "rh_ObjectSize (program_class c) = 16 * 2 ^ c"
  by (simp add: program_class_def push_bit_nat_mult)

lemma program_small_size:
  assumes "program_inv df (s, b)" and "c < 17" and "a \<in> class_objects df c (sh_buf s ! c)"
  shows "program_getSize df a (s, b) = 16 * 2 ^ c"
proof -
  have inv: "classes_inv 17 (class_inv df) s" "class_inv df c (sh_buf s ! c)"
    using assms(1,2) by (auto simp: program_inv_def classes_inv_def)
  have "fst (sh_getSize (program_sh df) (program_ops df) a s) = h_getSize (program_ops df c) a (sh_buf s ! c)"
    using program_heap.sh_getSize_live [of df s c a] inv(1) assms(2,3) by simp
  also have "\<dots> = 16 * 2 ^ c"
    using class_getSize [OF program_env_ok [OF assms(2)], of df "sh_buf s ! c" a] inv(2) assms(3)
    by (simp add: program_ops_def class_ops_def class_inv_def class_objects_def program_class_size)
  finally show ?thesis by (simp add: program_getSize_def ch_getSize_def Let_def)
qed

lemma program_large_size:
  assumes "program_inv df (s, b)" and "lh_rep 4096 {2 ^ 46..} B (objectSize b)" and "B a = Some n"
  shows "program_getSize df a (s, b) = n"
proof -
  have inv: "classes_inv 17 (class_inv df) s" using assms(1) by (simp add: program_inv_def)
  have pos: "0 < n" "2 ^ 46 \<le> a"
    using lh_repD(2) [OF assms(2,3)] by (auto simp: lh_serves_def subset_eq)
  have "a \<notin> class_own c" if "c < 17" for c using class_own_range [OF that] pos(2) that by fastforce
  then have "fst (sh_getSize (program_sh df) (program_ops df) a s) = 0"
    using program_heap.sh.size_foreign [of df s a] inv by auto
  then show ?thesis
    using rep_entry [OF assms(2,3)]
    by (simp add: program_getSize_def ch_getSize_def lh_getSize_def lh_get_def Let_def)
qed

section \<open>Live objects do not overlap\<close>

lemma program_live_cases:
  assumes "program_inv df (s, b)" and "a \<in> program_live df (s, b)"
  obtains (small) c where "c < 17" "a \<in> class_objects df c (sh_buf s ! c)" "program_getSize df a (s, b) = 16 * 2 ^ c"
      "{a..<a + 16 * 2 ^ c} \<subseteq> class_own c"
  | (large) "a \<in> lh_live 4096 b" "2 ^ 46 \<le> a"
proof -
  have inv: "classes_inv 17 (class_inv df) s" "lh_inv 4096 {2 ^ 46..} b" using assms(1) by (auto simp: program_inv_def)
  consider "a \<in> classes_union 17 (class_objects df) s" | "a \<in> lh_live 4096 b"
    using assms(2) by (auto simp: program_live_def)
  then show thesis
  proof cases
    case 1
    then obtain c where c: "c < 17" "a \<in> class_objects df c (sh_buf s ! c)" by (auto simp: classes_union_def)
    have ci: "class_inv df c (sh_buf s ! c)" using inv(1) c(1) by (simp add: classes_inv_def)
    then have sh: "heap_shape (program_class c) mini_fresh (class_ready (program_class c) df (program_env c)) (sh_buf s ! c)"
      by (simp add: class_inv_def heap_inv_def)
    from c(2) obtain i where i: "i < rh_miniHeapsInUse (sh_buf s ! c)"
      "a \<in> class_live (program_class c) df i (rh_buf (sh_buf s ! c) ! i)"
      by (auto simp: class_objects_def heap_live_def)
    have "i < 11" using i(1) sh by (simp add: heap_shape_def program_MAX)
    moreover have "class_ready (program_class c) df (program_env c) i (rh_buf (sh_buf s ! c) ! i)"
      using sh i(1) by (simp add: heap_shape_def)
    ultimately have "{a..<a + 16 * 2 ^ c} \<subseteq> class_own c"
      using class_live_region [OF _ i(2)] unfolding class_own_def program_class_size by blast
    with c program_small_size [OF assms(1) c] show thesis by (rule small)
  next
    case 2
    obtain B where B: "lh_rep 4096 {2 ^ 46..} B (objectSize b)" using inv(2) by (auto simp: lh_inv_def)
    then obtain n where n: "B a = Some n" using 2 rep_live [OF B] by auto
    have "2 ^ 46 \<le> a" using lh_repD(2) [OF B n] by (auto simp: lh_serves_def subset_eq)
    then show thesis by (rule large [OF 2])
  qed
qed

lemma program_objects_apart:
  assumes "program_inv df r" and "a \<in> program_live df r" and "b \<in> program_live df r" and "a \<noteq> b"
  shows "{a..<a + program_getSize df a r} \<inter> {b..<b + program_getSize df b r} = {}"
proof -
  obtain s l where r: "r = (s, l)" by (cases r)
  have own: "class_own c \<subseteq> {..<2 ^ 46}" if "c < 17" for c using class_own_range [OF that] that by fastforce
  note A = program_live_cases [OF assms(1) [unfolded r] assms(2) [unfolded r]]
    and B = program_live_cases [OF assms(1) [unfolded r] assms(3) [unfolded r]]
  show ?thesis
  proof (rule A; rule B)
    fix c d
    assume c: "c < 17" "a \<in> class_objects df c (sh_buf s ! c)" "program_getSize df a (s, l) = 16 * 2 ^ c"
        "{a..<a + 16 * 2 ^ c} \<subseteq> class_own c"
      and d: "d < 17" "b \<in> class_objects df d (sh_buf s ! d)" "program_getSize df b (s, l) = 16 * 2 ^ d"
        "{b..<b + 16 * 2 ^ d} \<subseteq> class_own d"
    show ?thesis
    proof (cases "c = d")
      case True
      have "class_inv df c (sh_buf s ! c)" using assms(1) c(1) by (auto simp: r program_inv_def classes_inv_def)
      with class_objects_apart [OF program_env_ok [OF c(1)], of df "sh_buf s ! c" a b] c d True assms(4)
      show ?thesis by (simp add: r class_inv_def class_objects_def program_class_size)
    next
      case False
      then have "class_own c \<inter> class_own d = {}" using program_heap.own_apart [of c df d] c(1) d(1) by simp
      with c(4) d(4) show ?thesis unfolding r c(3) d(3) by blast
    qed
  next
    assume ab: "a \<in> lh_live 4096 l" "b \<in> lh_live 4096 l"
    obtain B where B: "lh_rep 4096 {2 ^ 46..} B (objectSize l)"
      using assms(1) by (auto simp: r program_inv_def lh_inv_def)
    then obtain m n where "B a = Some m" "B b = Some n" using ab rep_live [OF B] by auto
    with lh_repD(3) [OF B this assms(4)] program_large_size [OF assms(1) [unfolded r] B] show ?thesis by (simp add: r)
  next
    fix c assume "c < 17" "program_getSize df a (s, l) = 16 * 2 ^ c" "{a..<a + 16 * 2 ^ c} \<subseteq> class_own c" "2 ^ 46 \<le> b"
    with own [of c] show ?thesis by (fastforce simp: r)
  next
    fix c assume "c < 17" "program_getSize df b (s, l) = 16 * 2 ^ c" "{b..<b + 16 * 2 ^ c} \<subseteq> class_own c" "2 ^ 46 \<le> a"
    with own [of c] show ?thesis by (fastforce simp: r)
  qed
qed

section \<open>What an allocation returns\<close>

lemma program_malloc_cases:
  assumes "program_malloc df sz ((s, b), m) = Some (a, ((s', b'), m'), rs)"
  shows "(sz \<le> 1048576 \<and> b' = b \<and> sh_malloc (program_sh df) (program_ops df) sz (s, m) = Some (a, (s', m'), rs))
    \<or> (1048576 < sz \<and> s' = s \<and> lh_malloc 4096 first_fit sz (b, m) = Some (a, (b', m'), rs))"
  using assms by (auto simp: program_malloc_def ch_malloc_def split: if_splits)

lemma program_large_new:
  assumes "lh_serves 4096 sz" and "lh_malloc 4096 first_fit sz (b, m) = Some (a, (b', m'), rs)"
  shows "lh_getSize a b' = sz"
proof -
  have "b' = lh_set 4096 a sz b" using assms(2) by (auto simp: lh_malloc_def Let_def)
  moreover have "objectSize (lh_set 4096 a sz b) (a + 0 * 4096) = Some (sz - 0 * 4096)"
    using assms(1) by (intro lh_page_entry) (simp_all add: lh_serves_def)
  ultimately show ?thesis by (simp add: lh_getSize_def lh_get_def)
qed

lemma small_index:
  assumes "sz \<le> 1048576"
  shows "getIndex (if sz < Alignment then Alignment else sz) < 17
    \<and> sz \<le> 16 * 2 ^ getIndex (if sz < Alignment then Alignment else sz)"
proof -
  let ?n = "if sz < Alignment then Alignment else sz"
  have "Alignment \<le> ?n" by simp
  note f = getIndex_fits [OF this]
  have "?n \<le> 2 ^ 20" using assms by (simp add: Alignment_def)
  with f(3) [of 20] have "getIndex ?n < 17" using MAX_INDEX_pow2 [of 20] by simp
  moreover have "sz \<le> ?n" by simp
  then have "sz \<le> 16 * 2 ^ getIndex ?n"
    using f(1) unfolding getClassSize_def push_bit_nat_mult by (simp add: Alignment_def mult.commute)
  ultimately show ?thesis by simp
qed

lemma program_malloc_small:
  assumes "program_inv df r" and "sz \<le> 1048576" and "program_malloc df sz (r, m) = Some (a, (r', m'), rs)" and "a \<noteq> 0"
  shows "program_getSize df a r' = 16 * 2 ^ getIndex (if sz < Alignment then Alignment else sz)"
proof -
  obtain s b s' b' where r: "r = (s, b)" "r' = (s', b')" by (metis surj_pair)
  have serves: "program_serves sz" using assms(2) by (simp add: program_serves_def)
  have inv': "program_inv df (s', b')" using whole.alloc_result [OF assms(1) serves assms(3)] r by simp
  have live: "a \<in> program_live df (s', b')" using whole.alloc_fresh [OF assms(1) serves assms(3,4)] r by simp
  let ?i = "getIndex (if sz < Alignment then Alignment else sz)"
  have run: "sh_malloc (program_sh df) (program_ops df) sz (s, m) = Some (a, (s', m'), rs)"
    using program_malloc_cases [OF assms(3) [unfolded r]] assms(2) by auto
  have "classes_inv 17 (class_inv df) s" using assms(1) by (simp add: r program_inv_def)
  then have own: "a \<in> class_own ?i" using program_heap.sh_malloc_spec(2) [of df s sz m a s' m' rs] run assms(4) by simp
  note i = small_index [OF assms(2)]
  show ?thesis
  proof (rule program_live_cases [OF inv' live])
    fix c assume c: "c < 17" "program_getSize df a (s', b') = 16 * 2 ^ c" "{a..<a + 16 * 2 ^ c} \<subseteq> class_own c"
    then have "a \<in> class_own c" by auto
    then have "c = ?i" using own program_heap.own_apart [of c df ?i] c(1) i by fastforce
    with c(2) show ?thesis by (simp add: r)
  next
    assume "2 ^ 46 \<le> a"
    with class_own_range [of ?i] own i show ?thesis by fastforce
  qed
qed

text \<open>An object of the smallest classes is less than twice the request, or sixteen bytes.\<close>

lemma program_malloc_tight:
  assumes "program_inv df r" and "sz \<le> 1048576" and "program_malloc df sz (r, m) = Some (a, (r', m'), rs)" and "a \<noteq> 0"
  shows "program_getSize df a r' = 16 \<or> program_getSize df a r' < 2 * sz"
proof (cases "sz < Alignment")
  case True
  then have "getIndex (if sz < Alignment then Alignment else sz) = 0"
    using log2_le_iff [of 16 4] staticlog_pow2 [of 4] by (simp add: getIndex_def Alignment_def)
  with program_malloc_small [OF assms] show ?thesis by simp
next
  case False
  then have f: "getIndex sz = 0 \<or> getClassSize (getIndex sz - 1) < sz" using getIndex_fits(2) [of sz] by simp
  have "program_getSize df a r' = 16 * 2 ^ getIndex sz" using program_malloc_small [OF assms] False by simp
  then show ?thesis using f by (cases "getIndex sz") (simp_all add: getClassSize_pow2 power_add)
qed

lemma program_malloc_size:
  assumes "program_inv df r" and "program_serves sz" and "program_malloc df sz (r, m) = Some (a, (r', m'), rs)" and "a \<noteq> 0"
  shows "sz \<le> program_getSize df a r'"
proof -
  obtain s b s' b' where r: "r = (s, b)" "r' = (s', b')" by (metis surj_pair)
  have inv': "program_inv df (s', b')" using whole.alloc_result [OF assms(1-3)] r by simp
  have live: "a \<in> program_live df (s', b')" using whole.alloc_fresh [OF assms] r by simp
  from program_malloc_cases [OF assms(3) [unfolded r]] show ?thesis
  proof (elim disjE conjE)
    assume "sz \<le> 1048576"
    with program_malloc_small [OF assms(1) _ assms(3,4)] small_index show ?thesis by simp
  next
    assume large: "1048576 < sz" and run: "lh_malloc 4096 first_fit sz (b, m) = Some (a, (b', m'), rs)"
    then have serves: "lh_serves 4096 sz" using assms(2) by (simp add: program_serves_def)
    have B: "lh_inv 4096 {2 ^ 46..} b" using assms(1) by (simp add: r program_inv_def)
    from program_large.lh.alloc_fresh(3) [OF B serves run assms(4)] have a: "2 ^ 46 \<le> a" by simp
    have "program_getSize df a (s', b') = sz"
    proof (rule program_live_cases [OF inv' live])
      fix c assume "c < 17" "{a..<a + 16 * 2 ^ c} \<subseteq> class_own c"
      with class_own_range [of c] a show ?thesis by fastforce
    next
      assume l: "a \<in> lh_live 4096 b'"
      obtain B where B: "lh_rep 4096 {2 ^ 46..} B (objectSize b')" using inv' by (auto simp: program_inv_def lh_inv_def)
      then obtain n where n: "B a = Some n" using l rep_live [OF B] by auto
      have "n = sz" using rep_entry [OF B n] program_large_new [OF serves run] by (simp add: lh_getSize_def lh_get_def)
      with program_large_size [OF inv' B n] show ?thesis by simp
    qed
    then show ?thesis by (simp add: r)
  qed
qed

section \<open>The heap at the start\<close>

definition program_start :: "bool \<Rightarrow> program_state" where
  "program_start df = (DieHardHeap (program_sh df) 5 (\<lambda>c. RandomHeap (program_class c) 0
     (\<lambda>i. \<lparr>mh_rng = 0, freedValue = 5, isHeapActivated = False, miniHeapBitmap = BitMap, miniHeap = 0\<rparr>)), LargeHeap)"

lemma program_start_inv: "program_inv df (program_start df)" "program_live df (program_start df) = {}"
proof -
  let ?mini = "\<lambda>i. \<lparr>mh_rng = 0, freedValue = 5, isHeapActivated = False, miniHeapBitmap = BitMap, miniHeap = 0\<rparr> :: mini_diehard"
  have c: "class_inv df c (RandomHeap (program_class c) 0 ?mini)" "class_objects df c (RandomHeap (program_class c) 0 ?mini) = {}"
    for c
    using RandomHeap_inv [of mini_fresh ?mini]
    by (simp_all add: class_inv_def class_objects_def mini_fresh_def)
  then show "program_inv df (program_start df)"
    by (simp add: program_inv_def program_start_def DieHardHeap_def classes_inv_def LargeHeap_inv)
  show "program_live df (program_start df) = {}"
    using c by (simp add: program_live_def program_start_def DieHardHeap_def classes_union_def LargeHeap_live)
qed

text \<open>The first large object, for the witnesses.\<close>

lemma first_fit_start: "first_fit LargeHeap sz = 2 ^ 46"
proof -
  have "(LEAST r. 4096 dvd r \<and> (2::nat) ^ 46 \<le> r \<and> {r..<r + sz} \<inter> lh_inside LargeHeap = {}) = 2 ^ 46"
    by (rule Least_equality) (simp_all add: lh_inside_def LargeHeap_def)
  then show ?thesis by (simp add: first_fit_def)
qed

lemma start_malloc: "\<exists>r. program_malloc df 2000000 (program_start df, m) = Some (2 ^ 46, (r, m), [])"
  by (simp add: program_malloc_def ch_malloc_def program_start_def lh_malloc_def first_fit_start)

lemma start_malloc_large: "\<exists>l. program_malloc df 4000000 (program_start df, m) = Some (2 ^ 46, ((fst (program_start df), l), m), [])"
  by (simp add: program_malloc_def ch_malloc_def program_start_def lh_malloc_def first_fit_start)

lemma start_malloc_small:
  "\<exists>s rs. program_malloc False 600001 ((fst (program_start False), l), m) = Some (2 ^ 44 + 2 ^ 40, ((s, l), m), rs)"
proof -
  have "\<not> log2 600001 \<le> 19" "log2 600001 \<le> 20" by (simp_all add: log2_le_iff)
  then have i: "getIndex 600001 = 16" using staticlog_pow2 [of 4] by (simp add: getIndex_def Alignment_def)
  have "sh_buf (fst (program_start False)) ! 16 = demo_class"
    by (simp add: program_start_def DieHardHeap_def demo_class_def)
  then have "\<exists>h rs. h_malloc (program_ops False 16) n (sh_buf (fst (program_start False)) ! 16, m) = Some (2 ^ 44 + 2 ^ 40, (h, m), rs)" for n
    using demo_malloc [of m] by (simp add: program_ops_def class_ops_def)
  then obtain h rs where "h_malloc (program_ops False 16) (getClassSize 16) (sh_buf (fst (program_start False)) ! 16, m) = Some (2 ^ 44 + 2 ^ 40, (h, m), rs)"
    by blast
  then have "\<exists>s rs. sh_malloc (program_sh False) (program_ops False) 600001 (fst (program_start False), m) = Some (2 ^ 44 + 2 ^ 40, (s, m), rs)"
    by (simp add: sh_malloc_def program_sh_def Alignment_def i)
  then show ?thesis by (auto simp: program_malloc_def ch_malloc_def)
qed

lemma serves_two_million: "program_serves 2000000"
  by (simp add: program_serves_def lh_serves_def)

end
