(* ===== verification/ThreadProgram.thy ===== *)
theory ThreadProgram
  imports Ownership LibDieHarder
begin

text \<open>
  The per-thread heaps of \<open>src/source/libdieharder.cpp\<close> (\<open>DIEHARD_SCALABLE\<close>): every thread has a
  \<open>DieHardHeap\<close> of its own, the large heap is one for all, and \<open>OwnershipTrackingHeap\<close> is around
  their combination.  Their bitmap is the lock-free one, which one thread at a time uses like the plain
  one (\<open>Bitmap\<close>).
\<close>

section \<open>An address layout for 64 threads\<close>

definition thread_env :: "nat \<Rightarrow> nat \<Rightarrow> heap_env" where
  "thread_env t c = \<lparr>env_buf = (\<lambda>i. 2 ^ 44 + t * 2 ^ 39 + c * 2 ^ 34 + i * 2 ^ 30), env_words = env_words (program_env c)\<rparr>"

lemma steps_apart: "i \<noteq> j \<Longrightarrow> i * k + k \<le> j * k \<or> j * k + k \<le> i * (k :: nat)"
proof -
  assume "i \<noteq> j"
  then have "Suc i \<le> j \<or> Suc j \<le> i" by linarith
  then show ?thesis using mult_le_mono1 [of "Suc i" j k] mult_le_mono1 [of "Suc j" i k] by auto
qed

lemma thread_region:
  assumes "c < 17" and "i < 11"
  shows "class_region (program_class c) (thread_env t c) i \<subseteq>
    {2 ^ 44 + t * 2 ^ 39 + c * 2 ^ 34 + i * 2 ^ 30..<2 ^ 44 + t * 2 ^ 39 + c * 2 ^ 34 + Suc i * 2 ^ 30}"
proof -
  have "(2::nat) ^ (20 + (i - 1)) \<le> 2 ^ 29" using assms(2) by (intro power_increasing) auto
  then show ?thesis
    by (auto simp: class_region_def program_bytes [OF assms(1)] thread_env_def)
qed

lemma thread_env_ok:
  assumes "c < 17" and "t < 64"
  shows "env_ok (program_class c) (thread_env t c)"
proof -
  note E = program_env_ok [OF assms(1)]
  have apart: "class_region (program_class c) (thread_env t c) i \<inter> class_region (program_class c) (thread_env t c) j = {}"
    if "i < 11" "j < 11" "i \<noteq> j" for i j
  proof -
    have "i * 2 ^ 30 + 2 ^ 30 \<le> j * 2 ^ 30 \<or> j * 2 ^ 30 + 2 ^ 30 \<le> i * (2 ^ 30 :: nat)" by (rule steps_apart [OF that(3)])
    with thread_region [OF assms(1) that(1), of t] thread_region [OF assms(1) that(2), of t] show ?thesis by fastforce
  qed
  have "env_buf (thread_env t c) i + mini_NObjects (program_class c) i * rh_ObjectSize (program_class c) \<le> 2 ^ 64" if "i < 11" for i
  proof -
    have "(2::nat) ^ (20 + (i - 1)) \<le> 2 ^ 29" using that by (intro power_increasing) auto
    then show ?thesis using that assms by (simp add: program_bytes [OF assms(1)] thread_env_def)
  qed
  moreover have "env_buf (thread_env t c) i \<noteq> 0" for i by (simp add: thread_env_def)
  ultimately show ?thesis using E apart by (simp add: env_ok_def program_MAX thread_env_def [of t c])
qed

section \<open>The small heap of a thread\<close>

definition thread_class_inv :: "bool \<Rightarrow> nat \<Rightarrow> nat \<Rightarrow> mini_diehard random_heap \<Rightarrow> bool" where
  "thread_class_inv df t c = heap_inv (program_class c) mini_fresh (class_ready (program_class c) df (thread_env t c))
     (class_live (program_class c) df)"

definition thread_class_inside :: "bool \<Rightarrow> nat \<Rightarrow> nat \<Rightarrow> mini_diehard random_heap \<Rightarrow> addr set" where
  "thread_class_inside df t c = heap_inside (class_region (program_class c) (thread_env t c))
     (class_slot (program_class c) df) (class_live (program_class c) df)"

definition thread_class_own :: "nat \<Rightarrow> nat \<Rightarrow> addr set" where
  "thread_class_own t c = (\<Union>i < 11. class_region (program_class c) (thread_env t c) i)"

definition thread_ops :: "bool \<Rightarrow> nat \<Rightarrow> nat \<Rightarrow> mini_diehard random_heap heap_ops" where
  "thread_ops df t c = class_ops (program_class c) df (thread_env t c)"

interpretation thread_class: random_heap "program_class (c mod 17)"
    "dh_ops (program_class (c mod 17)) df (thread_env (t mod 64) (c mod 17))" mini_fresh
    "class_ready (program_class (c mod 17)) df (thread_env (t mod 64) (c mod 17))"
    "class_region (program_class (c mod 17)) (thread_env (t mod 64) (c mod 17))"
    "class_slot (program_class (c mod 17)) df" "class_live (program_class (c mod 17)) df" for c df t
  by (rule class_random_heap) (simp add: thread_env_ok)

lemma thread_own_range:
  assumes "c < 17"
  shows "thread_class_own t c \<subseteq> {2 ^ 44 + t * 2 ^ 39 + c * 2 ^ 34..<2 ^ 44 + t * 2 ^ 39 + Suc c * 2 ^ 34}"
  using thread_region [OF assms, of _ t] by (fastforce simp: thread_class_own_def)

interpretation thread_small: size_classes "program_sh df" "thread_ops df (t mod 64)" "thread_class_inv df (t mod 64)"
    "class_objects df" "thread_class_inside df (t mod 64)" "thread_class_own (t mod 64)" for df t
proof (rule size_classes.intro)
  fix i assume "i < MAX_INDEX (sh_MaxSize (program_sh df))"
  then have i: "i mod 17 = i" by simp
  show "heap_iface (thread_class_inv df (t mod 64) i) (class_objects df i) (thread_class_inside df (t mod 64) i)
      (thread_class_own (t mod 64) i) (\<lambda>sz. True)
      (h_malloc (thread_ops df (t mod 64) i)) (h_free (thread_ops df (t mod 64) i)) (h_getSize (thread_ops df (t mod 64) i))"
    using thread_class.rh.heap_iface_axioms [of i df t] unfolding i
    by (simp add: thread_class_inv_def class_objects_def thread_class_inside_def thread_class_own_def thread_ops_def
        class_ops_def program_MAX)
next
  fix i j assume ij: "i < MAX_INDEX (sh_MaxSize (program_sh df))" "j < MAX_INDEX (sh_MaxSize (program_sh df))" "i \<noteq> j"
  then have "i * 2 ^ 34 + 2 ^ 34 \<le> j * 2 ^ 34 \<or> j * 2 ^ 34 + 2 ^ 34 \<le> i * (2 ^ 34 :: nat)" by (intro steps_apart)
  with thread_own_range [of i "t mod 64"] thread_own_range [of j "t mod 64"] ij
  show "thread_class_own (t mod 64) i \<inter> thread_class_own (t mod 64) j = {}" by fastforce
next
  show "\<exists>k \<ge> 4. sh_MaxSize (program_sh df) = 2 ^ k" by (rule exI [of _ 20]) (simp add: program_sh_def)
qed

section \<open>The heaps of all threads\<close>

text \<open>The instance of thread \<open>t\<close> lies at address \<open>4096 * (t + 1)\<close>, \<open>getSizeStatic\<close> at 16.\<close>

definition instances :: "addr set" where
  "instances = (\<lambda>t. 4096 * Suc t) ` {..<64}"

definition thread_of :: "addr \<Rightarrow> nat" where
  "thread_of this = (this div 4096 - 1) mod 64"

definition thread_super :: "bool \<Rightarrow> addr \<Rightarrow> (mini_diehard random_heap size_heap, large_heap) super_heap" where
  "thread_super df this =
     (let ops = thread_ops df (thread_of this)
      in \<lparr>super_malloc = ch_malloc 1048576 (sh_malloc (program_sh df) ops) (lh_malloc 4096 first_fit),
          super_free = ch_free (sh_free (program_sh df) ops) (lh_free 4096),
          super_getSize = ch_getSize (\<lambda>a h. fst (sh_getSize (program_sh df) ops a h)) lh_getSize\<rparr>)"

definition thread_inv :: "bool \<Rightarrow> addr \<Rightarrow> mini_diehard random_heap size_heap \<Rightarrow> bool" where
  "thread_inv df this = classes_inv 17 (thread_class_inv df (thread_of this))"

definition thread_live :: "bool \<Rightarrow> mini_diehard random_heap size_heap \<Rightarrow> addr set" where
  "thread_live df = classes_union 17 (class_objects df)"

definition thread_inside :: "bool \<Rightarrow> addr \<Rightarrow> mini_diehard random_heap size_heap \<Rightarrow> addr set" where
  "thread_inside df this = classes_union 17 (thread_class_inside df (thread_of this))"

definition thread_own :: "addr \<Rightarrow> addr set" where
  "thread_own this = (\<Union>c < 17. thread_class_own (thread_of this) c)"

lemma thread_range: "thread_own this \<subseteq> {2 ^ 44 + thread_of this * 2 ^ 39..<2 ^ 44 + Suc (thread_of this) * 2 ^ 39}"
proof
  fix a assume "a \<in> thread_own this"
  then obtain c where c: "c < 17" "a \<in> thread_class_own (thread_of this) c" by (auto simp: thread_own_def)
  with thread_own_range [OF c(1), of "thread_of this"] have "2 ^ 44 + thread_of this * 2 ^ 39 + c * 2 ^ 34 \<le> a"
    "a < 2 ^ 44 + thread_of this * 2 ^ 39 + Suc c * 2 ^ 34" by auto
  with c(1) show "a \<in> {2 ^ 44 + thread_of this * 2 ^ 39..<2 ^ 44 + Suc (thread_of this) * 2 ^ 39}" by simp
qed

lemma thread_below: "thread_own this \<inter> {2 ^ 46..} = {}"
proof -
  have "thread_of this < 64" by (simp add: thread_of_def)
  with thread_range [of this] show ?thesis by fastforce
qed

interpretation thread_both: two_heaps "thread_inv df this" "thread_live df" "thread_inside df this" "thread_own this"
    "\<lambda>sz. True" "sh_malloc (program_sh df) (thread_ops df (thread_of this))"
    "sh_free (program_sh df) (thread_ops df (thread_of this))"
    "\<lambda>a h. fst (sh_getSize (program_sh df) (thread_ops df (thread_of this)) a h)"
    "lh_inv 4096 {2 ^ 46..}" "lh_live 4096" lh_inside "{2 ^ 46..}" "lh_serves 4096" "lh_malloc 4096 first_fit"
    "lh_free 4096" lh_getSize 1048576 for df this
proof (rule two_heaps.intro)
  show "heap_iface (thread_inv df this) (thread_live df) (thread_inside df this) (thread_own this) (\<lambda>sz. True)
      (sh_malloc (program_sh df) (thread_ops df (thread_of this))) (sh_free (program_sh df) (thread_ops df (thread_of this)))
      (\<lambda>a h. fst (sh_getSize (program_sh df) (thread_ops df (thread_of this)) a h))"
    using thread_small.sh.heap_iface_axioms [of df "this div 4096 - 1"]
    by (simp add: thread_inv_def thread_live_def thread_inside_def thread_own_def thread_of_def)
  show "heap_iface (lh_inv 4096 {2 ^ 46..}) (lh_live 4096) lh_inside {2 ^ 46..} (lh_serves 4096)
      (lh_malloc 4096 first_fit) (lh_free 4096) lh_getSize"
    by (rule program_large.lh.heap_iface_axioms)
  show "two_heaps_axioms (thread_own this) (\<lambda>sz. True) {2 ^ 46..} 1048576"
    using thread_below [of this] by (simp add: two_heaps_axioms_def)
qed

interpretation all_threads: thread_heaps instances "thread_super df" 16 "thread_inv df" "\<lambda>this. thread_live df"
    "thread_inside df" thread_own "lh_inv 4096 {2 ^ 46..}" "lh_live 4096" lh_inside "{2 ^ 46..}" program_serves for df
proof (rule thread_heaps.intro)
  fix this that :: addr
  show "heap_iface (\<lambda>(h, g). thread_inv df this h \<and> lh_inv 4096 {2 ^ 46..} g) (\<lambda>(h, g). thread_live df h \<union> lh_live 4096 g)
      (\<lambda>(h, g). thread_inside df this h \<union> lh_inside g) (thread_own this \<union> {2 ^ 46..}) program_serves
      (super_malloc (thread_super df this)) (super_free (thread_super df this)) (super_getSize (thread_super df this))"
    using thread_both.both.heap_iface_axioms [of df this] by (simp add: thread_super_def Let_def program_serves_def [abs_def])
  show "thread_own this \<inter> {2 ^ 46..} = {}" by (rule thread_below)
  show "thread_own this \<inter> thread_own that = {}" if i: "this \<in> instances" "that \<in> instances" "this \<noteq> that"
  proof -
    have "thread_of this \<noteq> thread_of that" using i by (auto simp: instances_def thread_of_def)
    then have "thread_of this * 2 ^ 39 + 2 ^ 39 \<le> thread_of that * 2 ^ 39 \<or> thread_of that * 2 ^ 39 + 2 ^ 39 \<le> thread_of this * (2 ^ 39 :: nat)"
      by (rule steps_apart)
    with thread_range [of this] thread_range [of that] show ?thesis by fastforce
  qed
  show "thread_live df h \<subseteq> thread_inside df this h \<and> thread_inside df this h \<subseteq> thread_own this" if "thread_inv df this h" for h
    using thread_both.s.live_inside [OF that] thread_both.s.inside_own [OF that] by blast
  show "lh_live 4096 g \<subseteq> lh_inside g \<and> lh_inside g \<subseteq> {2 ^ 46..}" if "lh_inv 4096 {2 ^ 46..} g" for g
    using program_large.lh.live_inside [OF that] program_large.lh.inside_own [OF that] by blast
qed (auto simp: instances_def)

section \<open>Two threads\<close>

text \<open>For the witnesses: two instances, and the first allocates an object of one megabyte.\<close>

definition small_start :: "mini_diehard random_heap size_heap" where
  "small_start = DieHardHeap (program_sh False) 5 (\<lambda>c. RandomHeap (program_class c) 0
     (\<lambda>i. \<lparr>mh_rng = 0, freedValue = 5, isHeapActivated = False, miniHeapBitmap = BitMap, miniHeap = 0\<rparr>))"

definition two_threads :: "(mini_diehard random_heap size_heap, large_heap) threads" where
  "two_threads = OwnershipTrackingHeap 8192 small_start (OwnershipTrackingHeap 4096 small_start
     \<lparr>nextId = 0, registry = HeapRegistry, pool = GlobalFreePool, heaps = (\<lambda>_. None), shared_heap = LargeHeap\<rparr>)"

abbreviation threads_ok :: "bool \<Rightarrow> (mini_diehard random_heap size_heap, large_heap) threads \<Rightarrow> bool" where
  "threads_ok \<equiv> all_threads.threads_inv"

abbreviation thread_objects :: "bool \<Rightarrow> addr \<Rightarrow> (mini_diehard random_heap size_heap, large_heap) threads \<Rightarrow> addr set" where
  "thread_objects \<equiv> all_threads.live_at"

abbreviation shared_objects :: "(mini_diehard random_heap size_heap, large_heap) threads \<Rightarrow> addr set" where
  "shared_objects T \<equiv> lh_live 4096 (shared_heap T)"

lemma small_start_inv: "thread_inv False this small_start" "thread_live False small_start = {}"
proof -
  let ?mini = "\<lambda>i. \<lparr>mh_rng = 0, freedValue = 5, isHeapActivated = False, miniHeapBitmap = BitMap, miniHeap = 0\<rparr> :: mini_diehard"
  have c: "thread_class_inv False t c (RandomHeap (program_class c) 0 ?mini)"
    "class_objects False c (RandomHeap (program_class c) 0 ?mini) = {}" for t c
    using RandomHeap_inv [of mini_fresh ?mini] by (simp_all add: thread_class_inv_def class_objects_def mini_fresh_def)
  then show "thread_inv False this small_start" "thread_live False small_start = {}"
    by (simp_all add: thread_inv_def thread_live_def small_start_def DieHardHeap_def classes_inv_def classes_union_def)
qed

lemma two_threads:
  shows "threads_ok False two_threads" and "heaps two_threads = [4096 \<mapsto> \<lparr>oh_threadId = 0, oh_registered = False, oh_allocCount = 0, oh_super = small_start\<rparr>,
      8192 \<mapsto> \<lparr>oh_threadId = 1, oh_registered = False, oh_allocCount = 0, oh_super = small_start\<rparr>]"
    and "shared_heap two_threads = LargeHeap" and "pool two_threads = GlobalFreePool"
proof -
  let ?T0 = "\<lparr>nextId = 0, registry = HeapRegistry, pool = GlobalFreePool, heaps = (\<lambda>_. None), shared_heap = LargeHeap\<rparr>
      :: (mini_diehard random_heap size_heap, large_heap) threads"
  let ?T1 = "OwnershipTrackingHeap 4096 small_start ?T0"
  have i: "4096 \<in> instances" "8192 \<in> instances" by (auto simp: instances_def image_iff intro: bexI [of _ 0] bexI [of _ 1])
  have t0: "threads_ok False ?T0"
    using all_threads.threads_start_inv [of LargeHeap False] LargeHeap_inv unfolding all_threads.threads_start_def by simp
  have h1: "threads_ok False ?T1" "heaps ?T1 = [4096 \<mapsto> \<lparr>oh_threadId = 0, oh_registered = False, oh_allocCount = 0, oh_super = small_start\<rparr>]"
    using all_threads.new_instance [OF t0 _ i(1) small_start_inv] by simp_all
  have n1: "nextId ?T1 = 1" "shared_heap ?T1 = LargeHeap" "pool ?T1 = GlobalFreePool"
    by (simp_all add: OwnershipTrackingHeap_def getThreadId_def allocateThreadId_def Let_def)
  have free: "heaps ?T1 8192 = None" by (simp add: h1(2))
  have "oh_threadId oh \<noteq> nextId ?T1 mod 64" if "heaps ?T1 that = Some oh" for that oh
    using that by (auto simp: h1(2) n1 split: if_splits)
  note new = all_threads.new_instance [OF h1(1) free i(2) small_start_inv this]
  show "threads_ok False two_threads" and "heaps two_threads = [4096 \<mapsto> \<lparr>oh_threadId = 0, oh_registered = False, oh_allocCount = 0, oh_super = small_start\<rparr>,
      8192 \<mapsto> \<lparr>oh_threadId = 1, oh_registered = False, oh_allocCount = 0, oh_super = small_start\<rparr>]"
    unfolding two_threads_def using new unfolding h1(2) n1 by simp_all
  show "shared_heap two_threads = LargeHeap" "pool two_threads = GlobalFreePool"
    unfolding two_threads_def using n1
    by (simp_all add: OwnershipTrackingHeap_def [of 8192] getThreadId_def allocateThreadId_def Let_def)
qed

lemma first_malloc: "\<exists>T rs. oh_malloc (thread_super False) 16 4096 1048576 (two_threads, m) = Some (2 ^ 44 + 2 ^ 38, (T, m), rs)
    \<and> pool T = GlobalFreePool \<and> shared_heap T = LargeHeap \<and> (\<exists>h. heaps T = (heaps two_threads)(4096 \<mapsto>
      \<lparr>oh_threadId = 0, oh_registered = True, oh_allocCount = 1, oh_super = h\<rparr>))"
proof -
  have s: "sh_buf small_start ! 16 = demo_class" by (simp add: small_start_def DieHardHeap_def demo_class_def)
  have env: "env_buf (thread_env 0 16) 0 = 2 ^ 44 + 2 ^ 38" "env_words (thread_env 0 16) 0 = [0]"
    by (simp_all add: thread_env_def program_env_def mini_NObjects_def program_MIN)
  obtain h' rs where c: "rh_malloc (program_class 16) (dh_ops (program_class 16) False (thread_env 0 16)) (demo_class, m) =
      Some (2 ^ 44 + 2 ^ 38, (h', m), rs)"
    using demo_malloc_at [OF env, of m] by auto
  have i: "getIndex 1048576 = 16" using staticlog_pow2 [of 4] log2_pow2 [of 20] by (simp add: getIndex_def Alignment_def)
  have "\<exists>s' rs. sh_malloc (program_sh False) (thread_ops False 0) 1048576 (small_start, m) = Some (2 ^ 44 + 2 ^ 38, (s', m), rs)"
    using c by (simp add: sh_malloc_def program_sh_def Alignment_def i s thread_ops_def class_ops_def Let_def)
  moreover have "thread_of 4096 = 0" by (simp add: thread_of_def)
  ultimately have run: "\<exists>s' rs. super_malloc (thread_super False 4096) 1048576 ((small_start, LargeHeap), m) =
      Some (2 ^ 44 + 2 ^ 38, ((s', LargeHeap), m), rs)"
    by (auto simp: thread_super_def ch_malloc_def Let_def)
  have "(1::nat) AND (DRAIN_CHECK_INTERVAL - 1) \<noteq> 0"
    using and_pred_pow2 [of 1 4] by (simp add: DRAIN_CHECK_INTERVAL_def)
  then show ?thesis
    using run by (auto simp: oh_malloc_def at_malloc_def heap_at_def two_threads doRegister_def Let_def)
qed

lemma serves_megabyte: "program_serves 1048576" by (simp add: program_serves_def)

lemma two_threads_objects: "thread_objects False k two_threads = {}" "shared_objects two_threads = {}"
  using small_start_inv(2) LargeHeap_live
  by (auto simp: two_threads all_threads.live_at_def split: if_splits)

text \<open>The queue of the first thread in the state of \<open>first_malloc\<close>.\<close>

lemma first_queue: "q_pending (GlobalFreePool ! 0) = []" "q_head (GlobalFreePool ! 0) = 0"
  using q_start by (simp_all add: GlobalFreePool_def MAX_THREADS_def PerThreadFreeQueue_def)

lemma after_first_malloc:
  obtains T m rs oh oh' where "oh_malloc (thread_super False) 16 4096 1048576 (two_threads, \<lambda>_. 0) = Some (2 ^ 44 + 2 ^ 38, (T, m), rs)"
    "threads_ok False T" "thread_objects False 4096 T = {2 ^ 44 + 2 ^ 38}" "heaps T 4096 = Some oh" "oh_threadId oh = 0"
    "heaps T 8192 = Some oh'" "pool T = GlobalFreePool"
proof -
  let ?a = "2 ^ 44 + 2 ^ 38 :: nat"
  obtain T m rs h where run: "oh_malloc (thread_super False) 16 4096 1048576 (two_threads, \<lambda>_. 0) = Some (?a, (T, m), rs)"
    and T: "pool T = GlobalFreePool" "shared_heap T = LargeHeap" "heaps T = (heaps two_threads)(4096 \<mapsto>
      \<lparr>oh_threadId = 0, oh_registered = True, oh_allocCount = 1, oh_super = h\<rparr>)"
    using first_malloc [of "\<lambda>_. 0"] by blast
  have oh: "heaps two_threads 4096 = Some \<lparr>oh_threadId = 0, oh_registered = False, oh_allocCount = 0, oh_super = small_start\<rparr>"
    by (simp add: two_threads)
  have t: "all_threads.taken_back 4096 two_threads = {}"
    by (simp add: all_threads.taken_back_def heap_at_def two_threads first_queue)
  have "threads_ok False T \<and> thread_objects False 4096 T \<union> lh_live 4096 LargeHeap = {?a}"
    using all_threads.oh_malloc_spec [OF two_threads(1) oh serves_megabyte _ _ run] two_threads_objects
    by (simp add: t T(2) two_threads first_queue)
  then have "threads_ok False T" "thread_objects False 4096 T = {?a}" using LargeHeap_live by simp_all
  moreover have "heaps T 4096 = Some \<lparr>oh_threadId = 0, oh_registered = True, oh_allocCount = 1, oh_super = h\<rparr>"
    "heaps T 8192 = Some \<lparr>oh_threadId = 1, oh_registered = False, oh_allocCount = 0, oh_super = small_start\<rparr>"
    by (simp_all add: T(3) two_threads)
  ultimately show thesis using that [OF run _ _ _ _ _ T(1)] by simp
qed

section \<open>Properties\<close>





text \<open>The size of an object of another thread: \<open>getSize\<close> answers 0 for it, although the registry could
  answer with the owner's size (\<open>getSizeFromAnyHeap\<close>, which is never called).\<close>

theorem cross_thread_size:
  assumes "threads_ok df T" and "heaps T this = Some oh" and "a \<in> thread_objects df that T" and "that \<noteq> this"
  shows "oh_getSize (thread_super df) this a T = 0 \<and> 0 < getSizeStatic (thread_super df) that a T
    \<and> getSizeFromAnyHeap (\<lambda>f heap ptr. getSizeStatic (thread_super df) heap ptr T) a (oh_threadId oh) (registry T) =
        getSizeStatic (thread_super df) that a T"
  by (rule all_threads.any_heap_size [OF assms])

theorem cross_thread_size_witness:
  "\<exists>T. oh_getSize (thread_super False) 8192 (2 ^ 44 + 2 ^ 38) T = 0
     \<and> 0 < getSizeStatic (thread_super False) 4096 (2 ^ 44 + 2 ^ 38) T"
proof (rule after_first_malloc)
  fix T oh'
  assume T: "threads_ok False T" "thread_objects False 4096 T = {2 ^ 44 + 2 ^ 38}" "heaps T 8192 = Some oh'"
  then have "2 ^ 44 + 2 ^ 38 \<in> thread_objects False 4096 T" by simp
  from cross_thread_size [OF T(1,3) this] show ?thesis by auto
qed

end
