(* ===== verification/ScalableHeap.thy ===== *)
theory ScalableHeap
  imports HeapInterface
begin

text \<open>
  \<open>ScalableHeap\<close> (\<open>src/include/scalableheap.h\<close>): a heap for each thread, found through thread-local
  storage, and a fallback heap until that storage can be used.  The state of all per-thread heaps is
  \<open>'p\<close>, that of the fallback heap \<open>'f\<close>; their operations are arguments (\<open>PerThreadHeap\<close> and
  \<open>FallbackHeap\<close> are template parameters).  What the operating system does is an argument too: the
  result of \<open>pthread_key_create\<close>, the address \<open>mmap\<close> returns, and what another thread's
  initialization shows to one that spins.
\<close>

record ('p, 'f) scalable =
  sc_initialized :: bool
  sc_initializing :: bool
  sc_tls :: "nat \<Rightarrow> addr"
  per_thread :: 'p
  fallback :: 'f

record os_answers =
  os_seen :: "nat \<Rightarrow> bool"
  os_key_create :: nat
  os_map :: addr

record ('p, 'f) scalable_ops =
  p_new :: "addr \<Rightarrow> 'p \<Rightarrow> 'p"
  p_malloc :: "addr \<Rightarrow> 'p heap_malloc"
  p_free :: "addr \<Rightarrow> 'p heap_free"
  p_getSize :: "addr \<Rightarrow> addr \<Rightarrow> 'p \<Rightarrow> nat"
  p_memalign :: "addr \<Rightarrow> nat \<Rightarrow> 'p heap_malloc"
  f_malloc :: "'f heap_malloc"
  f_free :: "'f heap_free"
  f_getSize :: "addr \<Rightarrow> 'f \<Rightarrow> nat"
  f_memalign :: "nat \<Rightarrow> 'f heap_malloc"

definition MAP_FAILED :: addr where "MAP_FAILED = 2 ^ 64 - 1"

definition ScalableHeap :: "'p \<Rightarrow> 'f \<Rightarrow> ('p, 'f) scalable" where
  "ScalableHeap p f = \<lparr>sc_initialized = False, sc_initializing = False, sc_tls = (\<lambda>_. 0), per_thread = p, fallback = f\<rparr>"

section \<open>Finding the heap of a thread\<close>

text \<open>
  The spin of a thread that finds another one initializing: at most \<open>n\<close> more loads.  When one of
  them shows that the other thread is done, the shared state is as that thread left it.
\<close>

fun spin :: "nat \<Rightarrow> nat \<Rightarrow> (nat \<Rightarrow> bool) \<Rightarrow> bool" where
  "spin 0 i seen = False"
| "spin (Suc n) i seen = (if seen i then True else spin n (i + 1) seen)"

definition tryInitialize :: "os_answers \<Rightarrow> ('p, 'f) scalable \<Rightarrow> bool \<times> ('p, 'f) scalable" where
  "tryInitialize os s =
     (if sc_initializing s
      then if spin 1000 0 (os_seen os) then (True, s\<lparr>sc_initialized := True\<rparr>) else (False, s)
      else let s = s\<lparr>sc_initializing := True\<rparr>
           in if sc_initialized s then (True, s\<lparr>sc_initializing := False\<rparr>)
              else let result = os_key_create os
                   in if result \<noteq> 0 then (False, s\<lparr>sc_initializing := False\<rparr>)
                      else (True, s\<lparr>sc_initialized := True, sc_initializing := False\<rparr>))"

definition getTlsValue :: "nat \<Rightarrow> ('p, 'f) scalable \<Rightarrow> addr" where
  "getTlsValue t s = sc_tls s t"

definition setTlsValue :: "nat \<Rightarrow> addr \<Rightarrow> ('p, 'f) scalable \<Rightarrow> ('p, 'f) scalable" where
  "setTlsValue t value s = s\<lparr>sc_tls := (sc_tls s)(t := value)\<rparr>"

definition createHeapForThread :: "('p, 'f) scalable_ops \<Rightarrow> os_answers \<Rightarrow> nat \<Rightarrow> ('p, 'f) scalable \<Rightarrow> addr \<times> ('p, 'f) scalable" where
  "createHeapForThread ops os t s =
     (let buf = os_map os
      in if buf = 0 \<or> buf = MAP_FAILED then (0, s)
         else let s = s\<lparr>per_thread := p_new ops buf (per_thread s)\<rparr>
              in (buf, setTlsValue t ((buf + 1) mod 2 ^ 64) s))"

definition getHeapSlow :: "('p, 'f) scalable_ops \<Rightarrow> os_answers \<Rightarrow> nat \<Rightarrow> ('p, 'f) scalable \<Rightarrow> addr \<times> ('p, 'f) scalable" where
  "getHeapSlow ops os t s =
     (let (ready, s) = tryInitialize os s
      in if \<not> ready then (0, s)
         else let tlsValue = getTlsValue t s
              in if tlsValue = 0 then createHeapForThread ops os t s else (sub64 tlsValue 1, s))"

definition getHeapSafe :: "('p, 'f) scalable_ops \<Rightarrow> os_answers \<Rightarrow> nat \<Rightarrow> ('p, 'f) scalable \<Rightarrow> addr \<times> ('p, 'f) scalable" where
  "getHeapSafe ops os t s =
     (if sc_initialized s
      then let tlsValue = getTlsValue t s
           in if tlsValue \<noteq> 0 then (sub64 tlsValue 1, s) else createHeapForThread ops os t s
      else getHeapSlow ops os t s)"

section \<open>Operations\<close>

definition on_heap :: "('p \<times> mem \<Rightarrow> (addr \<times> ('p \<times> mem) \<times> report list) option) \<Rightarrow> ('p, 'f) scalable \<Rightarrow> mem
    \<Rightarrow> (addr \<times> (('p, 'f) scalable \<times> mem) \<times> report list) option" where
  "on_heap f s m = map_option (\<lambda>(ptr, (p, m), rs). (ptr, (s\<lparr>per_thread := p\<rparr>, m), rs)) (f (per_thread s, m))"

definition on_fallback :: "('f \<times> mem \<Rightarrow> (addr \<times> ('f \<times> mem) \<times> report list) option) \<Rightarrow> ('p, 'f) scalable \<Rightarrow> mem
    \<Rightarrow> (addr \<times> (('p, 'f) scalable \<times> mem) \<times> report list) option" where
  "on_fallback f s m = map_option (\<lambda>(ptr, (g, m), rs). (ptr, (s\<lparr>fallback := g\<rparr>, m), rs)) (f (fallback s, m))"

definition sc_malloc :: "('p, 'f) scalable_ops \<Rightarrow> os_answers \<Rightarrow> nat \<Rightarrow> ('p, 'f) scalable heap_malloc" where
  "sc_malloc ops os t sz sm =
     (let (s, m) = sm; (heap, s) = getHeapSafe ops os t s
      in if heap \<noteq> 0 then on_heap (p_malloc ops heap sz) s m else on_fallback (f_malloc ops sz) s m)"

definition sc_free :: "('p, 'f) scalable_ops \<Rightarrow> os_answers \<Rightarrow> nat \<Rightarrow> addr \<Rightarrow> ('p, 'f) scalable \<times> mem
    \<Rightarrow> (('p, 'f) scalable \<times> mem) \<times> report list" where
  "sc_free ops os t ptr sm =
     (if ptr = 0 then (sm, [])
      else let (s, m) = sm; (heap, s) = getHeapSafe ops os t s
           in if heap \<noteq> 0
              then let (ok, (p, m), rs) = p_free ops heap ptr (per_thread s, m) in ((s\<lparr>per_thread := p\<rparr>, m), rs)
              else let (ok, (g, m), rs) = f_free ops ptr (fallback s, m) in ((s\<lparr>fallback := g\<rparr>, m), rs))"

definition sc_getSize :: "('p, 'f) scalable_ops \<Rightarrow> os_answers \<Rightarrow> nat \<Rightarrow> addr \<Rightarrow> ('p, 'f) scalable \<Rightarrow> nat \<times> ('p, 'f) scalable" where
  "sc_getSize ops os t ptr s =
     (if ptr = 0 then (0, s)
      else let (heap, s) = getHeapSafe ops os t s
           in if heap \<noteq> 0
              then let sz = p_getSize ops heap ptr (per_thread s)
                   in if sz > 0 then (sz, s) else (f_getSize ops ptr (fallback s), s)
              else (f_getSize ops ptr (fallback s), s))"

definition sc_memalign :: "('p, 'f) scalable_ops \<Rightarrow> os_answers \<Rightarrow> nat \<Rightarrow> nat \<Rightarrow> ('p, 'f) scalable heap_malloc" where
  "sc_memalign ops os t alignment sz sm =
     (let (s, m) = sm; (heap, s) = getHeapSafe ops os t s
      in if heap \<noteq> 0 then on_heap (p_memalign ops heap alignment sz) s m
         else on_fallback (f_memalign ops alignment sz) s m)"

section \<open>One heap per thread\<close>

text \<open>
  A thread-local value is an address plus one; \<open>bufs\<close> are the addresses the heaps were made at, all
  different from null and from \<open>MAP_FAILED\<close>.
\<close>

definition sc_inv :: "(nat \<Rightarrow> addr option) \<Rightarrow> ('p, 'f) scalable \<Rightarrow> bool" where
  "sc_inv bufs s \<longleftrightarrow> (\<forall>t. case bufs t of None \<Rightarrow> sc_tls s t = 0
       | Some b \<Rightarrow> sc_initialized s \<and> 0 < b \<and> b < MAP_FAILED \<and> sc_tls s t = b + 1)"

lemma sc_invD:
  assumes "sc_inv bufs s"
  shows "bufs t = None \<Longrightarrow> sc_tls s t = 0" and "bufs t = Some b \<Longrightarrow> sc_initialized s \<and> 0 < b \<and> b < MAP_FAILED \<and> sc_tls s t = b + 1"
  using assms [unfolded sc_inv_def, THEN spec, of t] by simp_all

lemma sc_invI:
  assumes "\<And>t. bufs t = None \<Longrightarrow> sc_tls s t = 0"
    and "\<And>t b. bufs t = Some b \<Longrightarrow> sc_initialized s \<and> 0 < b \<and> b < MAP_FAILED \<and> sc_tls s t = b + 1"
  shows "sc_inv bufs s"
  unfolding sc_inv_def
proof
  fix t
  show "case bufs t of None \<Rightarrow> sc_tls s t = 0
      | Some b \<Rightarrow> sc_initialized s \<and> 0 < b \<and> b < MAP_FAILED \<and> sc_tls s t = b + 1"
    using assms [of t] by (cases "bufs t") simp_all
qed

lemma getHeapSafe_old:
  assumes "sc_inv bufs s" and "bufs t = Some b"
  shows "getHeapSafe ops os t s = (b, s)"
  using sc_invD(2) [OF assms] by (simp add: getHeapSafe_def getTlsValue_def MAP_FAILED_def sub64_le)

lemma create_spec:
  assumes "sc_inv bufs s" and "sc_initialized s" and "os_map os \<le> MAP_FAILED"
    and "createHeapForThread ops os t s = (b, s')"
  shows "fallback s' = fallback s \<and> (if b = 0 then s' = s
    else b = os_map os \<and> per_thread s' = p_new ops b (per_thread s) \<and> sc_inv (bufs(t \<mapsto> b)) s')"
proof (cases "os_map os = 0 \<or> os_map os = MAP_FAILED")
  case True
  then show ?thesis using assms(4) by (auto simp: createHeapForThread_def)
next
  case False
  let ?b = "os_map os"
  have b: "b = ?b" "0 < ?b" "?b < MAP_FAILED"
    and s': "s' = s\<lparr>per_thread := p_new ops ?b (per_thread s), sc_tls := (sc_tls s)(t := ?b + 1)\<rparr>"
    using assms(3,4) False by (auto simp: createHeapForThread_def setTlsValue_def MAP_FAILED_def Let_def)
  have "sc_inv (bufs(t \<mapsto> b)) s'"
    by (rule sc_invI) (use sc_invD [OF assms(1)] assms(2) b in \<open>auto simp: s' split: if_splits\<close>)
  then show ?thesis using b by (simp add: s')
qed

lemma tryInitialize_spec:
  assumes "sc_inv bufs s" and "tryInitialize os s = (ready, s')"
  shows "sc_inv bufs s' \<and> fallback s' = fallback s \<and> per_thread s' = per_thread s \<and> sc_tls s' = sc_tls s
    \<and> (ready \<longrightarrow> sc_initialized s')"
proof -
  have s': "fallback s' = fallback s" "per_thread s' = per_thread s" "sc_tls s' = sc_tls s"
    "ready \<Longrightarrow> sc_initialized s'" "sc_initialized s \<Longrightarrow> sc_initialized s'"
    using assms(2) by (auto simp: tryInitialize_def Let_def split: if_splits)
  moreover have "sc_inv bufs s'"
    by (rule sc_invI) (use sc_invD [OF assms(1)] s' in auto)
  ultimately show ?thesis by blast
qed

lemma getHeapSafe_new:
  assumes "sc_inv bufs s" and "bufs t = None" and "os_map os \<le> MAP_FAILED" and "getHeapSafe ops os t s = (b, s')"
  shows "fallback s' = fallback s \<and> (if b = 0 then sc_inv bufs s' \<and> per_thread s' = per_thread s
    else b = os_map os \<and> per_thread s' = p_new ops b (per_thread s) \<and> sc_inv (bufs(t \<mapsto> b)) s')"
proof -
  have tls: "sc_tls s t = 0" using sc_invD(1) [OF assms(1,2)] .
  show ?thesis
  proof (cases "sc_initialized s")
    case True
    then have "createHeapForThread ops os t s = (b, s')" using assms(4) tls by (simp add: getHeapSafe_def getTlsValue_def)
    from create_spec [OF assms(1) True assms(3) this] assms(1) show ?thesis by auto
  next
    case False
    obtain ready u where i: "tryInitialize os s = (ready, u)" by (metis surj_pair)
    note r = tryInitialize_spec [OF assms(1) i]
    have run: "(if ready then createHeapForThread ops os t u else (0, u)) = (b, s')"
      using assms(4) False i r tls by (simp add: getHeapSafe_def getHeapSlow_def getTlsValue_def split: if_splits)
    show ?thesis
    proof (cases ready)
      case True
      then have "createHeapForThread ops os t u = (b, s')" using run by simp
      from create_spec [OF _ _ assms(3) this, of bufs] r True show ?thesis by auto
    next
      case False
      then show ?thesis using run r by simp
    qed
  qed
qed

section \<open>Properties\<close>


text \<open>For the witness: per-thread heaps and a fallback heap that hand out one object each.\<close>

definition demo_scalable :: "(nat, nat) scalable_ops" where
  "demo_scalable = \<lparr>p_new = (\<lambda>b p. p), p_malloc = (\<lambda>b sz (p, m). Some (b + 64, (p + 1, m), [])),
     p_free = (\<lambda>b ptr (p, m). (ptr = b + 64, (p - 1, m), [])), p_getSize = (\<lambda>b ptr p. if ptr = b + 64 then 16 else 0),
     p_memalign = (\<lambda>b al sz (p, m). Some (b + 64, (p + 1, m), [])),
     f_malloc = (\<lambda>sz (f, m). Some (256, (f + 1, m), [])), f_free = (\<lambda>ptr (f, m). (ptr = 256, (f - 1, m), [])),
     f_getSize = (\<lambda>ptr f. if ptr = 256 then 16 else 0), f_memalign = (\<lambda>al sz (f, m). Some (256, (f + 1, m), []))\<rparr>"


end
