(* ===== verification/PatchFile.thy ===== *)
theory PatchFile
  imports Prelude Complex_Main "HOL-Library.Monad_Syntax" "HOL-Library.RBT" "HOL-Library.Product_Lexorder"
begin

text \<open>
  The patch file, through which the Exterminator's error isolator (\<open>src/exterminator/src/patcher/patch_db.cpp\<close>)
  tells the correcting allocator (\<open>src/exterminator/src/patchinfo.h\<close>) which allocation sites to pad and
  which frees to delay.  Text is a list of characters; \<open>printf\<close>, \<open>strtol\<close> and \<open>>>\<close> are written out as far as
  they are used.  The C locale is assumed, \<open>long\<close> has 32 bits.
\<close>

section \<open>Numbers as text\<close>

definition char_digit :: "nat \<Rightarrow> char" where
  "char_digit d = (if d < 10 then char_of (48 + d) else char_of (87 + d))"

definition digit_value :: "nat \<Rightarrow> char \<Rightarrow> nat option" where
  "digit_value b c =
     (let n = of_char c :: nat;
          d = (if 48 \<le> n \<and> n \<le> 57 then n - 48 else if 97 \<le> n \<and> n \<le> 102 then n - 87 else if 65 \<le> n \<and> n \<le> 70 then n - 55 else b)
      in if d < b then Some d else None)"

fun digits_of :: "nat \<Rightarrow> nat \<Rightarrow> nat list" where
  "digits_of b n = (if n < b \<or> b < 2 then [n] else digits_of b (n div b) @ [n mod b])"

declare digits_of.simps [simp del]

definition show_base :: "nat \<Rightarrow> nat \<Rightarrow> string" where
  "show_base b n = map char_digit (digits_of b n)"

text \<open>\<open>%d\<close> and \<open>0x%x\<close>.\<close>

definition show_int :: "int \<Rightarrow> string" where
  "show_int i = (if i < 0 then ''-'' @ show_base 10 (nat (- i)) else show_base 10 (nat i))"

definition show_hex :: "nat \<Rightarrow> string" where
  "show_hex n = ''0x'' @ show_base 16 n"

definition isspace :: "char \<Rightarrow> bool" where
  "isspace c \<longleftrightarrow> c \<in> {CHR '' '', CHR 0x09, CHR 0x0A, CHR 0x0B, CHR 0x0C, CHR 0x0D}"

definition number :: "nat \<Rightarrow> string \<Rightarrow> nat" where
  "number b s = foldl (\<lambda>v c. v * b + the (digit_value b c)) 0 (takeWhile (\<lambda>c. digit_value b c \<noteq> None) s)"

text \<open>The white space, sign and prefix before the digits: whether the number is negative, and the rest.\<close>

definition number_start :: "nat \<Rightarrow> string \<Rightarrow> bool \<times> string" where
  "number_start b s =
     (let s = dropWhile isspace s; neg = (take 1 s = ''-''); s = (if take 1 s = ''-'' \<or> take 1 s = ''+'' then drop 1 s else s)
      in (neg, if b = 16 \<and> (take 2 s = ''0x'' \<or> take 2 s = ''0X'') then drop 2 s else s))"

text \<open>\<open>strtol\<close> with its clamping to \<open>w\<close> bits.\<close>

definition strto :: "nat \<Rightarrow> nat \<Rightarrow> string \<Rightarrow> int" where
  "strto w b s =
     (let (neg, s) = number_start b s; v = (if neg then - int (number b s) else int (number b s))
      in max (- (2 ^ (w - 1))) (min (2 ^ (w - 1) - 1) v))"

definition strtol :: "string \<Rightarrow> int" where
  "strtol s = strto 32 10 s"

definition strtoll16 :: "string \<Rightarrow> u32" where
  "strtoll16 s = word_of_int (strto 64 16 s)"

lemma digit_value_char: "d < b \<Longrightarrow> b \<le> 16 \<Longrightarrow> digit_value b (char_digit d) = Some d"
  by (simp add: digit_value_def char_digit_def)

lemma digits_of_bound: "2 \<le> b \<Longrightarrow> d \<in> set (digits_of b n) \<Longrightarrow> d < b"
proof (induction b n rule: digits_of.induct)
  case (1 b n)
  then show ?case using digits_of.simps [of b n] by (cases "n < b") auto
qed

lemma digits_of_value: "2 \<le> b \<Longrightarrow> foldl (\<lambda>v d. v * b + d) 0 (digits_of b n) = n"
  by (induction b n rule: digits_of.induct) (subst digits_of.simps, auto)

lemma digits_of_nonempty: "digits_of b n \<noteq> []"
  by (subst digits_of.simps) simp

lemma number_show:
  assumes "2 \<le> b" and "b \<le> 16" and "\<And>c r. rest = c # r \<Longrightarrow> digit_value b c = None"
  shows "number b (show_base b n @ rest) = n"
proof -
  let ?ds = "digits_of b n"
  have dv: "digit_value b (char_digit d) = Some d" if "d \<in> set ?ds" for d
    using digit_value_char digits_of_bound [OF assms(1) that] assms(2) by blast
  have "takeWhile (\<lambda>c. digit_value b c \<noteq> None) (map char_digit ?ds @ rest) = map char_digit ?ds"
  proof (subst takeWhile_append2)
    show "map char_digit ?ds @ takeWhile (\<lambda>c. digit_value b c \<noteq> None) rest = map char_digit ?ds"
      using assms(3) by (cases rest) simp_all
  qed (use dv in auto)
  moreover have "foldl (\<lambda>v c. v * b + the (digit_value b c)) a (map char_digit ds) = foldl (\<lambda>v d. v * b + d) a ds"
    if "set ds \<subseteq> set ?ds" for ds a
    using that dv by (induction ds arbitrary: a) auto
  ultimately show ?thesis using digits_of_value [OF assms(1)] by (simp add: number_def show_base_def)
qed

lemma show_base_chars:
  assumes "2 \<le> b" and "b \<le> 16" and "c \<in> set (show_base b n)"
  shows "digit_value b c \<noteq> None"
proof -
  obtain d where d: "d \<in> set (digits_of b n)" "c = char_digit d" using assms(3) by (auto simp: show_base_def)
  with digit_value_char [OF digits_of_bound [OF assms(1) d(1)] assms(2)] show ?thesis by simp
qed

lemma special_chars:
  "digit_value b (CHR '' '') = None" "digit_value b (CHR 0x09) = None" "digit_value b (CHR 0x0A) = None"
  "digit_value b (CHR 0x0B) = None" "digit_value b (CHR 0x0C) = None" "digit_value b (CHR 0x0D) = None"
  "digit_value b (CHR ''-'') = None" "digit_value b (CHR ''+'') = None" "digit_value b (CHR ''x'') = None" "digit_value b (CHR 0x00) = None"
  by (simp_all add: digit_value_def)

lemma digit_not_special:
  "digit_value b c \<noteq> None \<Longrightarrow> \<not> isspace c \<and> c \<noteq> CHR ''-'' \<and> c \<noteq> CHR ''+'' \<and> c \<noteq> CHR ''x'' \<and> c \<noteq> CHR 0x00"
  using special_chars [of b] by (auto simp: isspace_def)

lemma show_base_first:
  assumes "2 \<le> b" and "b \<le> 16"
  obtains c r where "show_base b n = c # r" "digit_value b c \<noteq> None"
proof -
  obtain c r where "show_base b n = c # r" using digits_of_nonempty [of b n] by (cases "show_base b n") (auto simp: show_base_def)
  with show_base_chars [OF assms, of c n] that show thesis by simp
qed

lemma number_show_all: "2 \<le> b \<Longrightarrow> b \<le> 16 \<Longrightarrow> number b (show_base b n) = n"
  using number_show [of b "[]" n] by simp

lemma strtol_show_int:
  assumes "- (2 ^ 31) \<le> i" and "i < 2 ^ 31"
  shows "strtol (show_int i) = i"
proof -
  obtain c r where c: "show_base 10 (nat \<bar>i\<bar>) = c # r" "digit_value 10 c \<noteq> None"
    by (rule show_base_first [of 10 "nat \<bar>i\<bar>"]) simp_all
  note n = digit_not_special [OF c(2)]
  show ?thesis
  proof (cases "i < 0")
    case True
    then have "show_int i = CHR ''-'' # show_base 10 (nat \<bar>i\<bar>)" by (simp add: show_int_def)
    moreover have "\<not> isspace (CHR ''-'')" by (simp add: isspace_def)
    ultimately show ?thesis using True assms by (simp add: strtol_def strto_def number_start_def Let_def number_show_all)
  next
    case False
    then have "show_int i = show_base 10 (nat \<bar>i\<bar>)" by (simp add: show_int_def)
    then have "strtol (show_int i) = max (- (2 ^ 31)) (min (2 ^ 31 - 1) (int (number 10 (show_base 10 (nat \<bar>i\<bar>)))))"
      using n by (simp add: strtol_def strto_def number_start_def Let_def c(1))
    then show ?thesis using False assms by (simp add: number_show_all)
  qed
qed

lemma strtoll16_show_hex: "strtoll16 (show_hex (unat w)) = w"
proof -
  have "\<not> isspace (CHR ''0'')" by (simp add: isspace_def)
  then have "strto 64 16 (show_hex (unat w)) = max (- (2 ^ 63)) (min (2 ^ 63 - 1) (int (unat w)))"
    by (simp add: strto_def number_start_def show_hex_def Let_def number_show_all del: of_nat_unat)
  moreover have "max (- (2 ^ 63)) (min (2 ^ 63 - 1) (int n)) = int n" if "n < 2 ^ 32" for n using that by simp
  moreover have "unat w < 2 ^ 32" using unsigned_less [of w] by simp
  ultimately have "strto 64 16 (show_hex (unat w)) = int (unat w)" by metis
  then show ?thesis by (simp add: strtoll16_def)
qed

section \<open>The database of patches\<close>

text \<open>
  The elements of \<open>patch_db.h\<close> by their keys; \<open>std::map\<close> keeps its entries in the order of the keys, as
  red-black trees do.  \<open>eval_probability\<close> is declared in \<open>functions.h\<close> and defined nowhere in the
  repository: it is an argument.
\<close>

record patch_db =
  overflowPatches :: "(u32, u32) RBT.rbt"
  danglePatches :: "(u32 \<times> u32, int) RBT.rbt"
  static_info :: "(u32 \<times> u32, u32 \<times> u32) RBT.rbt"
  drag_map :: "(u32 \<times> u32, int) RBT.rbt"
  updated_dangles :: "(u32 \<times> u32) list"

definition empty_db :: patch_db where
  "empty_db = \<lparr>overflowPatches = RBT.empty, danglePatches = RBT.empty, static_info = RBT.empty, drag_map = RBT.empty, updated_dangles = []\<rparr>"

definition has_overflow_patch :: "u32 \<Rightarrow> patch_db \<Rightarrow> bool" where
  "has_overflow_patch callsite db \<longleftrightarrow> RBT.lookup (overflowPatches db) callsite \<noteq> None"

definition has_dangle_patch :: "u32 \<times> u32 \<Rightarrow> patch_db \<Rightarrow> bool" where
  "has_dangle_patch key db \<longleftrightarrow> RBT.lookup (danglePatches db) key \<noteq> None"

definition get_overflow_patch :: "u32 \<Rightarrow> patch_db \<Rightarrow> u32" where
  "get_overflow_patch callsite db = the (RBT.lookup (overflowPatches db) callsite)"

definition get_dangle_patch :: "u32 \<times> u32 \<Rightarrow> patch_db \<Rightarrow> int" where
  "get_dangle_patch key db = the (RBT.lookup (danglePatches db) key)"

definition add_overflow_patch :: "u32 \<Rightarrow> u32 \<Rightarrow> patch_db \<Rightarrow> patch_db" where
  "add_overflow_patch callsite delta db =
     db\<lparr>overflowPatches := RBT.insert callsite delta (RBT.delete callsite (overflowPatches db))\<rparr>"

definition add_dangle_patch :: "u32 \<times> u32 \<Rightarrow> int \<Rightarrow> patch_db \<Rightarrow> patch_db" where
  "add_dangle_patch key td db =
     db\<lparr>danglePatches := RBT.insert key td (RBT.delete key (danglePatches db)), updated_dangles := updated_dangles db @ [key]\<rparr>"

definition do_overflow :: "u32 \<Rightarrow> u32 \<Rightarrow> patch_db \<Rightarrow> patch_db" where
  "do_overflow callsite delta db =
     (if has_overflow_patch callsite db \<and> get_overflow_patch callsite db > delta then db
      else add_overflow_patch callsite delta db)"

definition do_dang_ptr :: "u32 \<times> u32 \<Rightarrow> int \<Rightarrow> patch_db \<Rightarrow> patch_db" where
  "do_dang_ptr key td db =
     (let td = (if td = 0 then 1 else td); td = td * 2
      in if has_dangle_patch key db \<and> get_dangle_patch key db > td then db else add_dangle_patch key td db)"

text \<open>Reading \<open>m[key]\<close> inserts a zero when there is no entry.\<close>

definition map_ref :: "'k::linorder \<Rightarrow> 'v::zero \<Rightarrow> ('k, 'v) RBT.rbt \<Rightarrow> 'v \<times> ('k, 'v) RBT.rbt" where
  "map_ref key z m = (case RBT.lookup m key of Some v \<Rightarrow> (v, m) | None \<Rightarrow> (z, RBT.insert key z m))"

definition update_static_info :: "u32 \<times> u32 \<Rightarrow> u32 \<Rightarrow> u32 \<Rightarrow> int \<Rightarrow> patch_db \<Rightarrow> patch_db" where
  "update_static_info key h t drag db =
     (let (h0, t0) = (case RBT.lookup (static_info db) key of Some v \<Rightarrow> v | None \<Rightarrow> (0, 0));
          (d, dm) = map_ref key 0 (drag_map db)
      in db\<lparr>static_info := RBT.insert key (h0 + h, t0 + t) (static_info db),
            drag_map := (if d = 0 \<or> d > drag then RBT.insert key drag dm else dm)\<rparr>)"

definition inspect_entry :: "(int \<Rightarrow> int \<Rightarrow> rat) \<Rightarrow> (u32 \<times> u32) \<times> u32 \<times> u32 \<Rightarrow> patch_db \<Rightarrow> patch_db" where
  "inspect_entry eval_probability e db =
     (let (key, h, t) = e
      in if eval_probability (sint h) (sint t) < 1 / 1000000
         then let (d, dm) = map_ref key 0 (drag_map db) in do_dang_ptr key d (db\<lparr>drag_map := dm\<rparr>)
         else db)"

definition inspect_static_info :: "(int \<Rightarrow> int \<Rightarrow> rat) \<Rightarrow> patch_db \<Rightarrow> patch_db" where
  "inspect_static_info eval_probability db = fold (inspect_entry eval_probability) (RBT.entries (static_info db)) db"

section \<open>Writing and reading the database\<close>

definition overflow_write :: "u32 \<times> u32 \<Rightarrow> string" where
  "overflow_write = (\<lambda>(callsite, delta). ''overflow '' @ show_hex (unat callsite) @ '' '' @ show_int (sint delta) @ [CHR 0x0A])"

definition dangle_write :: "(u32 \<times> u32) \<times> int \<Rightarrow> string" where
  "dangle_write = (\<lambda>((alloc_site, free_site), td).
     ''dangle '' @ show_hex (unat alloc_site) @ '' '' @ show_hex (unat free_site) @ '' '' @ show_int td @ [CHR 0x0A])"

definition stat_write :: "(u32 \<times> u32) \<times> u32 \<times> u32 \<Rightarrow> string" where
  "stat_write = (\<lambda>((alloc_site, free_site), h, t).
     ''stat '' @ show_hex (unat alloc_site) @ '' '' @ show_hex (unat free_site) @ '' '' @ show_int (sint h) @ '' '' @ show_int (sint t) @ [CHR 0x0A])"

text \<open>The text of the file, when it can be opened, and the database with the updated sites erased.\<close>

definition output_patch :: "patch_db \<Rightarrow> string \<times> patch_db" where
  "output_patch db =
     (let si = fold RBT.delete (updated_dangles db) (static_info db)
      in (concat (map overflow_write (RBT.entries (overflowPatches db))) @ concat (map dangle_write (RBT.entries (danglePatches db)))
            @ concat (map stat_write (RBT.entries si)), db\<lparr>static_info := si\<rparr>))"

text \<open>Formatted input; \<open>None\<close> is a failed extraction.\<close>

definition in_word :: "string \<Rightarrow> (string \<times> string) option" where
  "in_word s = (let s = dropWhile isspace s; w = takeWhile (\<lambda>c. \<not> isspace c) s
     in if w = [] then None else Some (w, drop (length w) s))"

definition in_number :: "nat \<Rightarrow> int \<Rightarrow> int \<Rightarrow> string \<Rightarrow> (int \<times> string) option" where
  "in_number b lo hi s =
     (let (neg, s) = number_start b s; n = length (takeWhile (\<lambda>c. digit_value b c \<noteq> None) s);
          v = (if neg then - int (number b s) else int (number b s))
      in if n = 0 \<or> v < lo \<or> hi < v then None else Some (v, drop n s))"

definition in_hex :: "string \<Rightarrow> (u32 \<times> string) option" where
  "in_hex s = do { (v, s) \<leftarrow> in_number 16 (- (2 ^ 32 - 1)) (2 ^ 32 - 1) s; Some (word_of_int v, s) }"

definition in_int :: "string \<Rightarrow> (int \<times> string) option" where
  "in_int s = in_number 10 (- (2 ^ 31)) (2 ^ 31 - 1) s"

definition in_unsigned :: "string \<Rightarrow> (u32 \<times> string) option" where
  "in_unsigned s = do { (v, s) \<leftarrow> in_number 10 (- (2 ^ 32 - 1)) (2 ^ 32 - 1) s; Some (word_of_int v, s) }"

text \<open>The rest of a line; \<open>None\<close>: a value is missing, and the code goes on with an unset variable.\<close>

definition read_element :: "string \<Rightarrow> u32 \<Rightarrow> string \<Rightarrow> patch_db \<Rightarrow> (patch_db \<times> string) option" where
  "read_element ty alloc_site s db =
     (if ty = ''overflow'' then do { (padding, s) \<leftarrow> in_int s; Some (add_overflow_patch alloc_site (word_of_int padding) db, s) }
      else if ty = ''dangle'' then do { (free_site, s) \<leftarrow> in_hex s; (td, s) \<leftarrow> in_int s; Some (add_dangle_patch (alloc_site, free_site) td db, s) }
      else if ty = ''stat'' then do { (free_site, s) \<leftarrow> in_hex s; (h, s) \<leftarrow> in_unsigned s; (t, s) \<leftarrow> in_unsigned s;
              Some (update_static_info (alloc_site, free_site) h t 0 db, s) }
      else Some (db, s))"

lemma in_word_shorter: "in_word s = Some (w, r) \<Longrightarrow> length r < length s"
proof -
  assume "in_word s = Some (w, r)"
  then have w: "w = takeWhile (\<lambda>c. \<not> isspace c) (dropWhile isspace s)" "w \<noteq> []" "r = drop (length w) (dropWhile isspace s)"
    by (auto simp: in_word_def Let_def split: if_splits)
  then have "length w \<le> length (dropWhile isspace s)" by (metis length_takeWhile_le)
  moreover have "length (dropWhile isspace s) \<le> length s" by (rule length_dropWhile_le)
  moreover have "0 < length w" using w(2) by simp
  moreover have "length r = length (dropWhile isspace s) - length w" using w(3) by simp
  ultimately show "length r < length s" by linarith
qed

lemma number_start_shorter: "length (snd (number_start b s)) \<le> length s"
  using length_dropWhile_le [of isspace s] by (auto simp: number_start_def Let_def)

lemma in_number_shorter:
  assumes "in_number b lo hi s = Some (v, r)"
  shows "length r < length s"
proof -
  let ?u = "snd (number_start b s)" let ?n = "length (takeWhile (\<lambda>c. digit_value b c \<noteq> None) ?u)"
  have r: "?n \<noteq> 0" "r = drop ?n ?u"
    using assms unfolding in_number_def Let_def by (simp_all split: if_splits prod.splits)
  moreover have "?n \<le> length ?u" by (rule length_takeWhile_le)
  moreover have "length r = length ?u - ?n" using r(2) by simp
  ultimately show "length r < length s" using number_start_shorter [of b s] by linarith
qed

lemma in_hex_shorter: "in_hex s = Some (v, r) \<Longrightarrow> length r < length s"
  using in_number_shorter by (auto simp: in_hex_def split: Option.bind_splits)

lemma in_int_shorter: "in_int s = Some (v, r) \<Longrightarrow> length r < length s"
  using in_number_shorter by (auto simp: in_int_def)

lemma in_unsigned_shorter: "in_unsigned s = Some (v, r) \<Longrightarrow> length r < length s"
  using in_number_shorter by (auto simp: in_unsigned_def split: Option.bind_splits)

lemma read_element_shorter: "read_element ty a s db = Some (db', r) \<Longrightarrow> length r \<le> length s"
  unfolding read_element_def
  by (auto split: if_splits Option.bind_splits dest!: in_int_shorter in_hex_shorter in_unsigned_shorter)

function read_patch :: "string \<Rightarrow> patch_db \<Rightarrow> patch_db option" where
  "read_patch s db =
     (case in_word s of
        None \<Rightarrow> Some db
      | Some (ty, r) \<Rightarrow> (case in_hex r of
            None \<Rightarrow> Some db
          | Some (alloc_site, r) \<Rightarrow> (case read_element ty alloc_site r db of None \<Rightarrow> None | Some (db, r) \<Rightarrow> read_patch r db)))"
  by pat_completeness auto

termination read_patch
proof (relation "measure (\<lambda>(s, db). length s)")
  fix s db a ty r b alloc_site r' c db' r''
  assume "in_word s = Some a" "(ty, r) = a" "in_hex r = Some b" "(alloc_site, r') = b" "read_element ty alloc_site r' db = Some c" "(db', r'') = c"
  then have "length r < length s" "length r' < length r" "length r'' \<le> length r'"
    using in_word_shorter in_hex_shorter read_element_shorter by blast+
  then show "((r'', db'), (s, db)) \<in> measure (\<lambda>(s, db). length s)" by simp
qed simp

declare read_patch.simps [simp del]

section \<open>What the database writes, it reads\<close>

lemma in_word_app: "w \<noteq> [] \<Longrightarrow> \<forall>c \<in> set w. \<not> isspace c \<Longrightarrow> isspace c \<Longrightarrow> in_word (w @ c # r) = Some (w, c # r)"
  by (cases w) (auto simp: in_word_def Let_def takeWhile_append2)

lemma in_word_space: "isspace c \<Longrightarrow> in_word (c # s) = in_word s"
  by (simp add: in_word_def)

lemma takeWhile_show:
  assumes "2 \<le> b" and "b \<le> 16" and "isspace c"
  shows "takeWhile (\<lambda>c. digit_value b c \<noteq> None) (show_base b n @ c # r) = show_base b n"
    and "number b (show_base b n @ c # r) = n"
proof -
  have c: "digit_value b c = None" using digit_not_special [of b c] assms(3) by blast
  then show "number b (show_base b n @ c # r) = n" using number_show [OF assms(1,2), of "c # r" n] by simp
  show "takeWhile (\<lambda>c. digit_value b c \<noteq> None) (show_base b n @ c # r) = show_base b n"
    using c show_base_chars [OF assms(1,2)] by (subst takeWhile_append2) auto
qed

lemma newline: "isspace (CHR 0x0A)" "isspace (CHR '' '')"
  by (simp_all add: isspace_def)

lemma number_start_hex: "number_start 16 (CHR '' '' # show_hex n @ r) = (False, show_base 16 n @ r)"
  by (simp add: number_start_def show_hex_def isspace_def)

lemma number_start_int: "number_start 10 (CHR '' '' # show_int i @ r) = (i < 0, show_base 10 (nat \<bar>i\<bar>) @ r)"
proof -
  obtain c t where c: "show_base 10 (nat \<bar>i\<bar>) = c # t" "digit_value 10 c \<noteq> None"
    by (rule show_base_first [of 10 "nat \<bar>i\<bar>"]) simp_all
  note n = digit_not_special [OF c(2)]
  show ?thesis
  proof (cases "i < 0")
    case True
    then have "show_int i = CHR ''-'' # show_base 10 (nat \<bar>i\<bar>)" by (simp add: show_int_def)
    with True show ?thesis by (simp add: number_start_def isspace_def)
  next
    case False
    then have "show_int i = c # t" using c(1) by (simp add: show_int_def)
    with False n show ?thesis unfolding c(1) by (simp add: number_start_def newline)
  qed
qed

lemma show_base_nonempty: "show_base b n \<noteq> []"
  using digits_of_nonempty by (simp add: show_base_def)

lemma in_number_show:
  assumes "number_start b s = (neg, show_base b n @ c # r)" and "2 \<le> b" and "b \<le> 16" and "isspace c"
    and "lo \<le> (if neg then - int n else int n)" and "(if neg then - int n else int n) \<le> hi"
  shows "in_number b lo hi s = Some (if neg then - int n else int n, c # r)"
  using assms takeWhile_show [OF assms(2-4), of n r] show_base_nonempty [of b n]
  by (cases neg) (simp_all add: in_number_def Let_def not_less)

lemma u32_bound: "0 \<le> uint (w :: u32)" "uint (w :: u32) \<le> 2 ^ 32 - 1"
  using uint_lt2p [of w] by simp_all

lemma in_hex_show: "isspace c \<Longrightarrow> in_hex (CHR '' '' # show_hex (unat w) @ c # r) = Some (w, c # r)"
  using in_number_show [OF number_start_hex, of c "- (2 ^ 32 - 1)" "unat w" "2 ^ 32 - 1" r] u32_bound [of w]
  by (simp add: in_hex_def)

lemma in_int_show: "isspace c \<Longrightarrow> - (2 ^ 31) \<le> i \<Longrightarrow> i < 2 ^ 31 \<Longrightarrow> in_int (CHR '' '' # show_int i @ c # r) = Some (i, c # r)"
  using in_number_show [OF number_start_int, of c "- (2 ^ 31)" i "2 ^ 31 - 1" r] by (simp add: in_int_def)

lemma sint_bounds: "- (2 ^ 31) \<le> sint (w :: u32)" "sint (w :: u32) < 2 ^ 31"
  using sint_ge [of w] sint_lt [of w] by simp_all

lemma in_unsigned_show: "isspace c \<Longrightarrow> in_unsigned (CHR '' '' # show_int (sint w) @ c # r) = Some (w, c # r)"
  using in_number_show [OF number_start_int, of c "- (2 ^ 32 - 1)" "sint w" "2 ^ 32 - 1" r] sint_bounds [of w]
  by (simp add: in_unsigned_def)

lemma read_patch_newline: "read_patch (CHR 0x0A # s) db = read_patch s db"
  by (subst (1 2) read_patch.simps) (simp add: in_word_space newline)

lemma type_words: "\<forall>c \<in> set ''overflow''. \<not> isspace c" "\<forall>c \<in> set ''dangle''. \<not> isspace c" "\<forall>c \<in> set ''stat''. \<not> isspace c"
  by (simp_all add: isspace_def)

lemma read_overflow: "read_patch (overflow_write (cs, d) @ s) db = read_patch s (add_overflow_patch cs d db)"
proof -
  let ?r = "show_hex (unat cs) @ '' '' @ show_int (sint d) @ CHR 0x0A # s"
  have "in_word (''overflow'' @ CHR '' '' # ?r) = Some (''overflow'', CHR '' '' # ?r)" using type_words newline by (intro in_word_app) simp_all
  moreover have "overflow_write (cs, d) @ s = ''overflow'' @ CHR '' '' # ?r" by (simp add: overflow_write_def)
  ultimately have "read_patch (overflow_write (cs, d) @ s) db = read_patch (CHR 0x0A # s) (add_overflow_patch cs d db)"
    using in_int_show [OF newline(1) sint_bounds, of d] in_hex_show [OF newline(2), of cs]
    by (subst read_patch.simps) (simp add: read_element_def)
  then show ?thesis by (simp add: read_patch_newline)
qed

lemma read_dangle:
  assumes "- (2 ^ 31) \<le> td" and "td < 2 ^ 31"
  shows "read_patch (dangle_write (k, td) @ s) db = read_patch s (add_dangle_patch k td db)"
proof -
  obtain a f where k: "k = (a, f)" by (cases k)
  let ?r = "show_hex (unat a) @ '' '' @ show_hex (unat f) @ '' '' @ show_int td @ CHR 0x0A # s"
  have "in_word (''dangle'' @ CHR '' '' # ?r) = Some (''dangle'', CHR '' '' # ?r)" using type_words newline by (intro in_word_app) simp_all
  moreover have "dangle_write (k, td) @ s = ''dangle'' @ CHR '' '' # ?r" by (simp add: dangle_write_def k)
  ultimately have "read_patch (dangle_write (k, td) @ s) db = read_patch (CHR 0x0A # s) (add_dangle_patch k td db)"
    using in_int_show [OF newline(1) assms] in_hex_show [OF newline(2), of a] in_hex_show [OF newline(2), of f]
    by (subst read_patch.simps) (simp add: read_element_def k)
  then show ?thesis by (simp add: read_patch_newline)
qed

lemma read_stat: "read_patch (stat_write (k, h, t) @ s) db = read_patch s (update_static_info k h t 0 db)"
proof -
  obtain a f where k: "k = (a, f)" by (cases k)
  let ?r = "show_hex (unat a) @ '' '' @ show_hex (unat f) @ '' '' @ show_int (sint h) @ '' '' @ show_int (sint t) @ CHR 0x0A # s"
  have "in_word (''stat'' @ CHR '' '' # ?r) = Some (''stat'', CHR '' '' # ?r)" using type_words newline by (intro in_word_app) simp_all
  moreover have "stat_write (k, h, t) @ s = ''stat'' @ CHR '' '' # ?r" by (simp add: stat_write_def k)
  ultimately have "read_patch (stat_write (k, h, t) @ s) db = read_patch (CHR 0x0A # s) (update_static_info k h t 0 db)"
    using in_unsigned_show [OF newline(1), of t] in_unsigned_show [OF newline(2), of h]
      in_hex_show [OF newline(2), of a] in_hex_show [OF newline(2), of f]
    by (subst read_patch.simps) (simp add: read_element_def k)
  then show ?thesis by (simp add: read_patch_newline)
qed

lemma read_lines:
  assumes "\<And>e s db. e \<in> set es \<Longrightarrow> read_patch (line e @ s) db = read_patch s (upd e db)"
  shows "read_patch (concat (map line es) @ s) db = read_patch s (fold upd es db)"
  using assms by (induction es arbitrary: db) simp_all

lemma lookup_fold:
  assumes "distinct (map fst es)" and "\<And>k v db k'. look (upd (k, v) db) k' = (if k' = k then Some (val v) else look db k')"
  shows "look (fold upd es db) k = (case map_of es k of Some v \<Rightarrow> Some (val v) | None \<Rightarrow> look db k)"
  using assms(1)
proof (induction es arbitrary: db)
  case (Cons e es)
  obtain k' v' where e: "e = (k', v')" by (cases e)
  then have "map_of es k' = None" using Cons.prems by (auto simp: map_of_eq_None_iff)
  with Cons e assms(2) show ?case by (auto split: option.splits)
qed simp

lemma entries_lookup: "map_of (RBT.entries t) k = RBT.lookup t k" "distinct (map fst (RBT.entries t))"
  by (simp_all add: RBT.distinct_entries)

lemma fold_keeps: "(\<And>e db. e \<in> set es \<Longrightarrow> f (upd e db) = f db) \<Longrightarrow> f (fold upd es db) = f db"
  by (induction es arbitrary: db) simp_all

definition add_all :: "(u32 \<times> u32) list \<Rightarrow> ((u32 \<times> u32) \<times> int) list \<Rightarrow> ((u32 \<times> u32) \<times> u32 \<times> u32) list \<Rightarrow> patch_db \<Rightarrow> patch_db" where
  "add_all os ds ss db = fold (\<lambda>(k, h, t). update_static_info k h t 0) ss
     (fold (\<lambda>(k, td). add_dangle_patch k td) ds (fold (\<lambda>(cs, d). add_overflow_patch cs d) os db))"

lemma read_all:
  assumes "\<And>k td. (k, td) \<in> set ds \<Longrightarrow> - (2 ^ 31) \<le> td \<and> td < 2 ^ 31"
  shows "read_patch (concat (map overflow_write os) @ concat (map dangle_write ds) @ concat (map stat_write ss)) db = Some (add_all os ds ss db)"
proof -
  have "read_patch [] d = Some d" for d by (subst read_patch.simps) (simp add: in_word_def)
  then have "read_patch (concat (map stat_write ss)) d = Some (fold (\<lambda>(k, h, t). update_static_info k h t 0) ss d)" for d
    using read_lines [of ss stat_write "\<lambda>(k, h, t). update_static_info k h t 0" "[]" d] read_stat by auto
  moreover have "read_patch (concat (map dangle_write ds) @ s) d = read_patch s (fold (\<lambda>(k, td). add_dangle_patch k td) ds d)" for s d
    by (rule read_lines) (use read_dangle assms in auto)
  moreover have "read_patch (concat (map overflow_write os) @ s) d = read_patch s (fold (\<lambda>(cs, d). add_overflow_patch cs d) os d)" for s d
    by (rule read_lines) (use read_overflow in auto)
  ultimately show ?thesis by (simp add: add_all_def)
qed

lemma add_all_overflow:
  assumes "distinct (map fst os)"
  shows "RBT.lookup (overflowPatches (add_all os ds ss empty_db)) k = map_of os k"
proof -
  have "overflowPatches (add_all os ds ss empty_db) = overflowPatches (fold (\<lambda>(cs, d). add_overflow_patch cs d) os empty_db)"
    unfolding add_all_def
    by (subst fold_keeps [where f = overflowPatches], force simp: update_static_info_def Let_def split: prod.splits)
      (rule fold_keeps [where f = overflowPatches], force simp: add_dangle_patch_def)
  also have "RBT.lookup \<dots> k = (case map_of os k of Some v \<Rightarrow> Some v | None \<Rightarrow> RBT.lookup (overflowPatches empty_db) k)"
    using lookup_fold [OF assms, of "\<lambda>db k. RBT.lookup (overflowPatches db) k" "\<lambda>(cs, d). add_overflow_patch cs d" "\<lambda>v. v"]
    by (simp add: add_overflow_patch_def)
  finally show ?thesis by (simp add: empty_db_def split: option.splits)
qed

lemma add_all_dangle:
  assumes "distinct (map fst ds)"
  shows "RBT.lookup (danglePatches (add_all os ds ss empty_db)) k = map_of ds k"
proof -
  have "danglePatches (add_all os ds ss empty_db)
      = danglePatches (fold (\<lambda>(k, td). add_dangle_patch k td) ds (fold (\<lambda>(cs, d). add_overflow_patch cs d) os empty_db))"
    unfolding add_all_def
    by (rule fold_keeps [where f = danglePatches]) (force simp: update_static_info_def Let_def split: prod.splits)
  also have "RBT.lookup \<dots> k = (case map_of ds k of Some v \<Rightarrow> Some v | None \<Rightarrow> RBT.lookup (danglePatches (fold (\<lambda>(cs, d). add_overflow_patch cs d) os empty_db)) k)"
    using lookup_fold [OF assms, of "\<lambda>db k. RBT.lookup (danglePatches db) k" "\<lambda>(k, td). add_dangle_patch k td" "\<lambda>v. v"]
    by (simp add: add_dangle_patch_def)
  also have "danglePatches (fold (\<lambda>(cs, d). add_overflow_patch cs d) os empty_db) = RBT.empty"
    by (subst fold_keeps [where f = danglePatches]) (force simp: add_overflow_patch_def empty_db_def)+
  finally show ?thesis by (simp split: option.splits)
qed

lemma add_all_static:
  assumes "distinct (map fst ss)"
  shows "RBT.lookup (static_info (add_all os ds ss empty_db)) k = map_of ss k"
proof -
  let ?d = "fold (\<lambda>(k, td). add_dangle_patch k td) ds (fold (\<lambda>(cs, d). add_overflow_patch cs d) os empty_db)"
  have "static_info ?d = RBT.empty"
    by (subst fold_keeps [where f = static_info], force simp: add_dangle_patch_def)
      (subst fold_keeps [where f = static_info], auto simp: add_overflow_patch_def empty_db_def)
  moreover have "RBT.lookup (static_info (fold (\<lambda>(k, h, t). update_static_info k h t 0) ss d)) k
      = (case map_of ss k of Some v \<Rightarrow> Some v | None \<Rightarrow> RBT.lookup (static_info d) k)"
    if "\<And>k. k \<in> fst ` set ss \<Longrightarrow> RBT.lookup (static_info d) k = None" for d
    using assms that
  proof (induction ss arbitrary: d)
    case (Cons e es)
    obtain k' h t where e: "e = (k', h, t)" by (cases e)
    let ?u = "update_static_info k' h t 0 d"
    have n: "RBT.lookup (static_info d) k' = None" using Cons.prems(2) [of k'] e by simp
    have u: "RBT.lookup (static_info ?u) j = (if j = k' then Some (h, t) else RBT.lookup (static_info d) j)" for j
      using n by (simp add: update_static_info_def Let_def split: prod.splits)
    have "map_of es k' = None" using Cons.prems(1) e by (auto simp: map_of_eq_None_iff)
    moreover have "RBT.lookup (static_info ?u) j = None" if "j \<in> fst ` set es" for j
      using that Cons.prems e u by (auto simp: image_iff)
    ultimately show ?case using Cons.IH [of ?u] Cons.prems(1) e u by (auto split: option.splits)
  qed simp
  ultimately show ?thesis by (simp add: add_all_def split: option.splits)
qed

lemma lookup_deletes: "RBT.lookup (fold RBT.delete ks t) k = (if k \<in> set ks then None else RBT.lookup t k)"
  by (induction ks arbitrary: t) (auto simp: RBT.lookup_delete)

lemma entries_Some: "(k, v) \<in> set (RBT.entries t) \<longleftrightarrow> RBT.lookup t k = Some v"
  using map_of_eq_Some_iff [OF entries_lookup(2), of t k v] by simp

text \<open>C26: The isolator's patch file keeps the patches: reading back what \<open>output_patch\<close> wrote gives the paddings, the
  delays and the statistics of the database, except the statistics of the pairs that were patched.  Paddings above
  2 GB are printed as negative numbers and still come back right.\<close>

theorem patch_db_round_trip:
  assumes "\<forall>k td. RBT.lookup (danglePatches db) k = Some td \<longrightarrow> - (2 ^ 31) \<le> td \<and> td < 2 ^ 31"
  shows "\<exists>db'. read_patch (fst (output_patch db)) empty_db = Some db'
    \<and> RBT.lookup (overflowPatches db') = RBT.lookup (overflowPatches db)
    \<and> RBT.lookup (danglePatches db') = RBT.lookup (danglePatches db)
    \<and> RBT.lookup (static_info db') = (\<lambda>k. if k \<in> set (updated_dangles db) then None else RBT.lookup (static_info db) k)"
proof -
  let ?si = "fold RBT.delete (updated_dangles db) (static_info db)"
  let ?db = "add_all (RBT.entries (overflowPatches db)) (RBT.entries (danglePatches db)) (RBT.entries ?si) empty_db"
  have "- (2 ^ 31) \<le> td \<and> td < 2 ^ 31" if "(k, td) \<in> set (RBT.entries (danglePatches db))" for k td
    using that assms unfolding entries_Some by blast
  then have "read_patch (fst (output_patch db)) empty_db = Some ?db"
    unfolding output_patch_def Let_def fst_conv by (rule read_all)
  moreover have "RBT.lookup (overflowPatches ?db) = RBT.lookup (overflowPatches db)" "RBT.lookup (danglePatches ?db) = RBT.lookup (danglePatches db)"
    using add_all_overflow [OF entries_lookup(2)] add_all_dangle [OF entries_lookup(2)] entries_lookup(1) by (simp_all add: fun_eq_iff)
  moreover have "RBT.lookup (static_info ?db) = (\<lambda>k. if k \<in> set (updated_dangles db) then None else RBT.lookup (static_info db) k)"
    using add_all_static [OF entries_lookup(2)] entries_lookup(1) by (simp add: fun_eq_iff lookup_deletes)
  ultimately show ?thesis by blast
qed

definition demo_db :: patch_db where
  "demo_db = do_dang_ptr (0x8048000, 0x8049000) 10 (do_overflow 0x8048123 16 (update_static_info (0x8048000, 0x8049000) 3 1 0
     (update_static_info (1, 2) 5 6 0 empty_db)))"

theorem patch_db_round_trip_witness:
  "\<exists>db'. read_patch (fst (output_patch demo_db)) empty_db = Some db' \<and> RBT.lookup (overflowPatches db') 0x8048123 = Some 16
    \<and> RBT.lookup (danglePatches db') (0x8048000, 0x8049000) = Some 20
    \<and> RBT.lookup (static_info db') (0x8048000, 0x8049000) = None \<and> RBT.lookup (static_info db') (1, 2) = Some (5, 6)"
proof -
  have d: "RBT.lookup (danglePatches demo_db) k = (if k = (0x8048000, 0x8049000) then Some 20 else None)" for k
    by (simp add: demo_db_def do_dang_ptr_def do_overflow_def update_static_info_def empty_db_def map_ref_def
        has_dangle_patch_def has_overflow_patch_def add_dangle_patch_def add_overflow_patch_def Let_def)
  have o: "RBT.lookup (overflowPatches demo_db) 0x8048123 = Some 16" "updated_dangles demo_db = [(0x8048000, 0x8049000)]"
    "RBT.lookup (static_info demo_db) (1, 2) = Some (5, 6)"
    by (simp_all add: demo_db_def do_dang_ptr_def do_overflow_def update_static_info_def empty_db_def map_ref_def
        has_dangle_patch_def has_overflow_patch_def add_dangle_patch_def add_overflow_patch_def Let_def)
  have "\<forall>k td. RBT.lookup (danglePatches demo_db) k = Some td \<longrightarrow> - (2 ^ 31) \<le> td \<and> td < 2 ^ 31" using d by simp
  from patch_db_round_trip [OF this] d o show ?thesis by auto
qed

section \<open>The reader of the allocator\<close>

text \<open>
  \<open>PatchInfo\<close>: two tables of 1021 entries.  The buffer of 1024 characters is filled by one \<open>read\<close>; what
  follows the text is what the stack held.  A pointer into the buffer is the rest of the buffer, and running
  out of it (undefined behaviour) is \<open>None\<close>.  A word of the buffer always fits into \<open>bit\<close>.
\<close>

definition HASH_SIZE :: nat where "HASH_SIZE = 1021"

record patch_info =
  overflow_hash :: "u32 list"
  dangle_hash :: "u32 list"

definition patch_hash :: "u32 \<Rightarrow> nat" where
  "patch_hash callsite = unat callsite mod HASH_SIZE"

definition getPadding :: "u32 \<Rightarrow> patch_info \<Rightarrow> u32" where
  "getPadding callsite p = overflow_hash p ! patch_hash callsite"

definition getLifeExtension :: "u32 \<Rightarrow> u32 \<Rightarrow> patch_info \<Rightarrow> u32" where
  "getLifeExtension alloc_site free_site p = dangle_hash p ! patch_hash (alloc_site XOR free_site)"

definition get_string_bit :: "string \<Rightarrow> (string \<times> string) option" where
  "get_string_bit buf =
     (let b0 = takeWhile (\<lambda>c. \<not> isspace c) buf; rest = dropWhile isspace (drop (length b0) buf)
      in if rest = [] then None else Some (b0, rest))"

definition cstring :: "string \<Rightarrow> string" where
  "cstring s = takeWhile (\<lambda>c. c \<noteq> CHR 0x00) s"

definition set_padding :: "u32 \<Rightarrow> u32 \<Rightarrow> patch_info \<Rightarrow> patch_info" where
  "set_padding site pad p = p\<lparr>overflow_hash := (overflow_hash p)[patch_hash site := pad]\<rparr>"

definition set_extension :: "u32 \<Rightarrow> u32 \<Rightarrow> patch_info \<Rightarrow> patch_info" where
  "set_extension site td p = p\<lparr>dangle_hash := (dangle_hash p)[patch_hash site := td]\<rparr>"

text \<open>One element, after its first word.\<close>

definition read_bits :: "string \<Rightarrow> string \<Rightarrow> patch_info \<Rightarrow> (patch_info \<times> string) option" where
  "read_bits b0 buf p =
     (if b0 = ''overflow''
      then do { (b1, buf) \<leftarrow> get_string_bit buf; (b2, buf) \<leftarrow> get_string_bit buf;
                Some (set_padding (strtoll16 (cstring b1)) (word_of_int (strtol (cstring b2))) p, buf) }
      else if b0 = ''dangle''
      then do { (b1, buf) \<leftarrow> get_string_bit buf; (b2, buf) \<leftarrow> get_string_bit buf; (b3, buf) \<leftarrow> get_string_bit buf;
                Some (set_extension (strtoll16 (cstring b1) XOR strtoll16 (cstring b2)) (word_of_int (strtol (cstring b3))) p, buf) }
      else if b0 = ''stat''
      then do { (_, buf) \<leftarrow> get_string_bit buf; (_, buf) \<leftarrow> get_string_bit buf; (_, buf) \<leftarrow> get_string_bit buf;
                (_, buf) \<leftarrow> get_string_bit buf; Some (p, buf) }
      else Some (p, buf))"

lemma get_string_bit_shorter: "get_string_bit buf = Some (b0, r) \<Longrightarrow> length r < length buf"
proof -
  let ?w = "takeWhile (\<lambda>c. \<not> isspace c) buf" let ?d = "dropWhile isspace (drop (length ?w) buf)"
  assume "get_string_bit buf = Some (b0, r)"
  then have c: "(if ?d = [] then None else Some (?w, ?d)) = Some (b0, r)" unfolding get_string_bit_def Let_def .
  then have d: "?d \<noteq> []" by (metis option.distinct(1))
  with c have p: "(?w, ?d) = (b0, r)" by (metis option.inject)
  then have e: "b0 = ?w" by (metis fst_conv)
  from p have r1: "r = ?d" by (metis snd_conv)
  have r: "r = dropWhile isspace (drop (length b0) buf)" "r \<noteq> []" "b0 = ?w"
    unfolding e by (fact r1, unfold r1, fact d, fact refl)
  have drop: "drop (length b0) buf = dropWhile (\<lambda>c. \<not> isspace c) buf" by (simp add: r(3) dropWhile_eq_drop)
  show "length r < length buf"
  proof (cases "b0 = []")
    case True
    then obtain c t where "buf = c # t" "isspace c" using r by (cases buf) (auto split: if_splits)
    then show ?thesis using r(1) True length_dropWhile_le [of isspace t] by simp
  next
    case False
    moreover have "length b0 \<le> length buf" by (simp add: r(3) length_takeWhile_le)
    moreover have "length r \<le> length buf - length b0" using length_dropWhile_le [of isspace "drop (length b0) buf"] r(1) by simp
    ultimately show ?thesis by (cases b0) auto
  qed
qed

lemma read_bits_shorter:
  assumes "read_bits b0 buf p = Some (p', r)"
  shows "length r \<le> length buf"
proof -
  have shorter: "length (snd x) < length s" if "get_string_bit s = Some x" for s x
    using that get_string_bit_shorter by (cases x) simp
  consider "b0 = ''overflow''" | "b0 = ''dangle''" | "b0 = ''stat''" | "b0 \<notin> {''overflow'', ''dangle'', ''stat''}" by blast
  then show ?thesis
  proof cases
    case 1
    with assms obtain x y where "get_string_bit buf = Some x" "get_string_bit (snd x) = Some y" "r = snd y"
      by (auto simp: read_bits_def split: Option.bind_splits)
    with shorter [of buf x] shorter [of "snd x" y] show ?thesis by simp
  next
    case 2
    with assms obtain x y z where "get_string_bit buf = Some x" "get_string_bit (snd x) = Some y" "get_string_bit (snd y) = Some z" "r = snd z"
      by (auto simp: read_bits_def split: Option.bind_splits)
    with shorter [of buf x] shorter [of "snd x" y] shorter [of "snd y" z] show ?thesis by simp
  next
    case 3
    with assms obtain x y z w where "get_string_bit buf = Some x" "get_string_bit (snd x) = Some y" "get_string_bit (snd y) = Some z"
      "get_string_bit (snd z) = Some w" "r = snd w" by (auto simp: read_bits_def split: Option.bind_splits)
    with shorter [of buf x] shorter [of "snd x" y] shorter [of "snd y" z] shorter [of "snd z" w] show ?thesis by simp
  next
    case 4
    with assms show ?thesis by (simp add: read_bits_def)
  qed
qed

text \<open>\<open>g\<close> is the number of characters after the text: the loop runs while \<open>idx < ct\<close>.\<close>

function read_elements :: "nat \<Rightarrow> string \<Rightarrow> patch_info \<Rightarrow> patch_info option" where
  "read_elements g buf p =
     (if length buf \<le> g then Some p
      else case get_string_bit buf of
             None \<Rightarrow> None
           | Some (b0, buf) \<Rightarrow> (case read_bits (cstring b0) buf p of None \<Rightarrow> None | Some (p, buf) \<Rightarrow> read_elements g buf p))"
  by pat_completeness auto

termination read_elements
proof (relation "measure (\<lambda>(g, buf, p). length buf)")
  fix g buf p a b0 buf' b p' buf''
  assume "get_string_bit buf = Some a" "(b0, buf') = a" "read_bits (cstring b0) buf' p = Some b" "(p', buf'') = b"
  then have "length buf' < length buf" "length buf'' \<le> length buf'"
    using get_string_bit_shorter read_bits_shorter by blast+
  then show "((g, buf'', p'), (g, buf, p)) \<in> measure (\<lambda>(g, buf, p). length buf)" by simp
qed simp

declare read_elements.simps [simp del]

text \<open>\<open>file\<close> is the text of the file, when there is one; \<open>stack\<close> the old contents of the buffer.\<close>

definition readFile :: "string option \<Rightarrow> string \<Rightarrow> patch_info \<Rightarrow> patch_info option" where
  "readFile file stack p =
     (case file of None \<Rightarrow> Some p
      | Some text \<Rightarrow> (let ct = min 1024 (length text) in read_elements (1024 - ct) (take 1024 text @ drop ct (take 1024 stack)) p))"

text \<open>The tables lie in zeroed static memory.\<close>

definition PatchInfo_init :: "string option \<Rightarrow> string \<Rightarrow> patch_info option" where
  "PatchInfo_init file stack = readFile file stack \<lparr>overflow_hash = replicate HASH_SIZE 0, dangle_hash = replicate HASH_SIZE 0\<rparr>"

section \<open>The patches reach the allocator\<close>

lemma get_string_bit_app:
  assumes "\<forall>c \<in> set w. \<not> isspace c" and "isspace c" and "dropWhile isspace r \<noteq> []"
  shows "get_string_bit (w @ c # r) = Some (w, dropWhile isspace r)"
proof -
  have "takeWhile (\<lambda>c. \<not> isspace c) (w @ c # r) = w" using assms(1,2) by (simp add: takeWhile_append2)
  then show ?thesis using assms(2,3) by (simp add: get_string_bit_def Let_def)
qed

lemma show_base_plain: "2 \<le> b \<Longrightarrow> b \<le> 16 \<Longrightarrow> c \<in> set (show_base b n) \<Longrightarrow> \<not> isspace c \<and> c \<noteq> CHR 0x00"
  using show_base_chars [of b c n] digit_not_special [of b c] by simp

lemma plain_words:
  "\<forall>c \<in> set (show_hex n). \<not> isspace c" "\<forall>c \<in> set (show_int i). \<not> isspace c" "cstring (show_hex n) = show_hex n" "cstring (show_int i) = show_int i"
proof -
  have s: "\<forall>c \<in> set (show_base b n). \<not> isspace c \<and> c \<noteq> CHR 0x00" if "2 \<le> b" "b \<le> 16" for b n
    using show_base_plain that by blast
  have h: "\<forall>c \<in> set (show_hex n). \<not> isspace c \<and> c \<noteq> CHR 0x00" using s [of 16 n] by (simp add: show_hex_def isspace_def)
  have i: "\<forall>c \<in> set (show_int i). \<not> isspace c \<and> c \<noteq> CHR 0x00"
    using s [of 10 "nat i"] s [of 10 "nat (- i)"] by (simp add: show_int_def isspace_def)
  show "\<forall>c \<in> set (show_hex n). \<not> isspace c" "\<forall>c \<in> set (show_int i). \<not> isspace c" using h i by blast+
  show "cstring (show_hex n) = show_hex n" "cstring (show_int i) = show_int i"
    unfolding cstring_def using h i by (simp_all add: takeWhile_eq_all_conv)
qed

lemma show_nonempty: "show_hex n \<noteq> []" "show_int i \<noteq> []"
  using show_base_nonempty by (simp_all add: show_int_def show_hex_def)

lemma dropWhile_plain: "\<forall>c \<in> set w. \<not> isspace c \<Longrightarrow> w \<noteq> [] \<Longrightarrow> dropWhile isspace (w @ r) = w @ r"
  by (cases w) simp_all

lemmas show_not_space = dropWhile_plain [OF plain_words(1) show_nonempty(1)] dropWhile_plain [OF plain_words(2) show_nonempty(2)]

lemma bit_space:
  assumes "\<forall>c \<in> set w. \<not> isspace c" and "dropWhile isspace r = r" and "r \<noteq> []"
  shows "get_string_bit (w @ CHR '' '' # r) = Some (w, r)"
  using get_string_bit_app [OF assms(1) newline(2), of r] assms(2,3) by simp

lemma bit_word: "\<forall>c \<in> set w. \<not> isspace c \<Longrightarrow> get_string_bit (w @ CHR '' '' # show_hex n @ r) = Some (w, show_hex n @ r)"
  by (rule bit_space) (simp_all only: show_not_space append_is_Nil_conv show_nonempty simp_thms)

lemma bit_number: "\<forall>c \<in> set w. \<not> isspace c \<Longrightarrow> get_string_bit (w @ CHR '' '' # show_int i @ r) = Some (w, show_int i @ r)"
  by (rule bit_space) (simp_all only: show_not_space append_is_Nil_conv show_nonempty simp_thms)

lemma bit_last: "dropWhile isspace r \<noteq> [] \<Longrightarrow> get_string_bit (show_int i @ CHR 0x0A # r) = Some (show_int i, dropWhile isspace r)"
  by (rule get_string_bit_app [OF plain_words(2) newline(1)])

lemmas bit_hex = bit_word [OF plain_words(1)] bit_number [OF plain_words(1)] bit_number [OF plain_words(2)]

lemma patch_words: "cstring ''overflow'' = ''overflow''" "cstring ''dangle'' = ''dangle''" "cstring ''stat'' = ''stat''"
  by (simp_all add: cstring_def)

lemma read_elements_line:
  assumes "g < length s" and "get_string_bit s = Some (b0, t)" and "read_bits (cstring b0) t p = Some (p', u)"
  shows "read_elements g s p = read_elements g u p'"
  using assms by (subst read_elements.simps) simp

lemma elements_overflow:
  assumes "g \<le> length r" and "dropWhile isspace r \<noteq> []"
  shows "read_elements g (overflow_write (cs, d) @ r) p = read_elements g (dropWhile isspace r) (set_padding cs d p)"
proof (rule read_elements_line)
  show "get_string_bit (overflow_write (cs, d) @ r) = Some (''overflow'', show_hex (unat cs) @ CHR '' '' # show_int (sint d) @ CHR 0x0A # r)"
    using bit_word [OF type_words(1)] by (simp add: overflow_write_def)
  show "read_bits (cstring ''overflow'') (show_hex (unat cs) @ CHR '' '' # show_int (sint d) @ CHR 0x0A # r) p
      = Some (set_padding cs d p, dropWhile isspace r)"
    using bit_last [OF assms(2)] strtol_show_int [OF sint_bounds]
    by (simp add: read_bits_def patch_words bit_hex plain_words strtoll16_show_hex)
qed (use assms(1) in \<open>simp add: overflow_write_def\<close>)

lemma elements_dangle:
  assumes "g \<le> length r" and "dropWhile isspace r \<noteq> []" and "- (2 ^ 31) \<le> td" and "td < 2 ^ 31"
  shows "read_elements g (dangle_write ((a, f), td) @ r) p = read_elements g (dropWhile isspace r) (set_extension (a XOR f) (word_of_int td) p)"
proof (rule read_elements_line)
  show "get_string_bit (dangle_write ((a, f), td) @ r)
      = Some (''dangle'', show_hex (unat a) @ CHR '' '' # show_hex (unat f) @ CHR '' '' # show_int td @ CHR 0x0A # r)"
    using bit_word [OF type_words(2)] by (simp add: dangle_write_def)
  show "read_bits (cstring ''dangle'') (show_hex (unat a) @ CHR '' '' # show_hex (unat f) @ CHR '' '' # show_int td @ CHR 0x0A # r) p
      = Some (set_extension (a XOR f) (word_of_int td) p, dropWhile isspace r)"
    using bit_last [OF assms(2)] strtol_show_int [OF assms(3,4)]
    by (simp add: read_bits_def patch_words bit_hex plain_words strtoll16_show_hex)
qed (use assms(1) in \<open>simp add: dangle_write_def\<close>)

lemma elements_stat:
  assumes "g \<le> length r" and "dropWhile isspace r \<noteq> []"
  shows "read_elements g (stat_write ((a, f), h, t) @ r) p = read_elements g (dropWhile isspace r) p"
proof (rule read_elements_line)
  show "get_string_bit (stat_write ((a, f), h, t) @ r)
      = Some (''stat'', show_hex (unat a) @ CHR '' '' # show_hex (unat f) @ CHR '' '' # show_int (sint h) @ CHR '' '' # show_int (sint t) @ CHR 0x0A # r)"
    using bit_word [OF type_words(3)] by (simp add: stat_write_def)
  show "read_bits (cstring ''stat'') (show_hex (unat a) @ CHR '' '' # show_hex (unat f) @ CHR '' '' # show_int (sint h) @ CHR '' '' # show_int (sint t) @ CHR 0x0A # r) p
      = Some (p, dropWhile isspace r)"
    using bit_last [OF assms(2)] by (simp add: read_bits_def patch_words bit_hex plain_words)
qed (use assms(1) in \<open>simp add: stat_write_def\<close>)

lemma elements_lines:
  assumes "g \<le> length r" and "dropWhile isspace r \<noteq> []"
    and "\<And>e s p. e \<in> set es \<Longrightarrow> g \<le> length s \<Longrightarrow> dropWhile isspace s \<noteq> [] \<Longrightarrow> read_elements g (line e @ s) p = read_elements g (dropWhile isspace s) (upd e p)"
    and "\<And>e s. dropWhile isspace (line e @ s) = line e @ s" and "\<And>e. line e \<noteq> []"
  shows "read_elements g (dropWhile isspace (concat (map line es) @ r)) p = read_elements g (dropWhile isspace r) (fold upd es p)"
  using assms(3)
proof (induction es arbitrary: p)
  case (Cons e es)
  let ?s = "concat (map line es) @ r"
  have "dropWhile isspace ?s \<noteq> []"
  proof (cases es)
    case (Cons e' es')
    then show ?thesis using assms(4) [of e' "concat (map line es') @ r"] assms(5) [of e'] by simp
  qed (use assms(2) in simp)
  then show ?case using Cons.prems [of e ?s p] Cons.IH [of "upd e p"] Cons.prems assms(1) assms(4) [of e ?s] by simp
qed simp

definition table_of :: "('k \<Rightarrow> nat) \<Rightarrow> ('v \<Rightarrow> u32) \<Rightarrow> ('k \<times> 'v) list \<Rightarrow> u32 list" where
  "table_of h f es = fold (\<lambda>(k, v) t. t[h k := f v]) es (replicate HASH_SIZE 0)"

lemma table_fold:
  assumes "i < length t"
  shows "fold (\<lambda>(k, v) t. t[h k := f v]) es t ! i = (case map_of (rev (map (\<lambda>(k, v). (h k, f v)) es)) i of Some x \<Rightarrow> x | None \<Rightarrow> t ! i)"
  using assms
proof (induction es arbitrary: t)
  case (Cons e es)
  then show ?case by (cases e) (auto simp: map_add_def nth_list_update split: option.splits)
qed simp

lemma table_of_entry:
  assumes "(k, v) \<in> set es" and "\<And>k' v'. (k', v') \<in> set es \<Longrightarrow> h k' = h k \<Longrightarrow> v' = v" and "h k < HASH_SIZE"
  shows "table_of h f es ! h k = f v"
proof -
  let ?m = "map_of (rev (map (\<lambda>(k, v). (h k, f v)) es))"
  have "h k \<in> fst ` set (rev (map (\<lambda>(k, v). (h k, f v)) es))" using assms(1) by force
  then obtain x where x: "?m (h k) = Some x" by (metis map_of_eq_None_iff option.exhaust)
  then have "(h k, x) \<in> set (rev (map (\<lambda>(k, v). (h k, f v)) es))" by (rule map_of_SomeD)
  then have "x = f v" using assms(2) by auto
  with x show ?thesis using assms(3) by (simp add: table_of_def table_fold)
qed

lemma table_of_free:
  assumes "\<And>k v. (k, v) \<in> set es \<Longrightarrow> h k \<noteq> i" and "i < HASH_SIZE"
  shows "table_of h f es ! i = 0"
proof -
  have "map_of (rev (map (\<lambda>(k, v). (h k, f v)) es)) i = None" using assms(1) by (fastforce simp: map_of_eq_None_iff)
  then show ?thesis using assms(2) by (simp add: table_of_def table_fold)
qed

definition patch_tables :: "patch_db \<Rightarrow> patch_info" where
  "patch_tables db = \<lparr>overflow_hash = table_of patch_hash (\<lambda>d. d) (RBT.entries (overflowPatches db)),
     dangle_hash = table_of (\<lambda>(a, f). patch_hash (a XOR f)) word_of_int (RBT.entries (danglePatches db))\<rparr>"

lemma fold_tables:
  "fold (\<lambda>(cs, d). set_padding cs d) os p = p\<lparr>overflow_hash := fold (\<lambda>(k, v) t. t[patch_hash k := v]) os (overflow_hash p)\<rparr>"
  "fold (\<lambda>((a, f), td). set_extension (a XOR f) (word_of_int td)) ds p
     = p\<lparr>dangle_hash := fold (\<lambda>(k, v) t. t[(case k of (a, f) \<Rightarrow> patch_hash (a XOR f)) := word_of_int v]) ds (dangle_hash p)\<rparr>"
  by (induction os arbitrary: p, auto simp: set_padding_def) (induction ds arbitrary: p, auto simp: set_extension_def)

lemma line_starts:
  "dropWhile isspace (overflow_write e @ s) = overflow_write e @ s" "overflow_write e \<noteq> []"
  "dropWhile isspace (dangle_write e' @ s) = dangle_write e' @ s" "dangle_write e' \<noteq> []"
  "dropWhile isspace (stat_write e'' @ s) = stat_write e'' @ s" "stat_write e'' \<noteq> []"
  by (simp_all add: overflow_write_def dangle_write_def stat_write_def isspace_def split: prod.splits)

lemma lines_nonblank:
  assumes "\<And>e s. dropWhile isspace (line e @ s) = line e @ s" and "\<And>e. line e \<noteq> []" and "dropWhile isspace r \<noteq> []"
  shows "dropWhile isspace (concat (map line es) @ r) \<noteq> []"
  using assms by (cases es) (simp_all del: dropWhile_eq_Nil_conv)

lemma concat_empty: "concat (map line es) = [] \<Longrightarrow> (\<And>e. line e \<noteq> []) \<Longrightarrow> es = []"
  by (cases es) auto

lemma read_elements_file:
  fixes os ds ss
  assumes "dropWhile isspace g \<noteq> []" and "\<And>k td. (k, td) \<in> set ds \<Longrightarrow> - (2 ^ 31) \<le> td \<and> td < 2 ^ 31"
  defines "text \<equiv> concat (map overflow_write os) @ concat (map dangle_write ds) @ concat (map stat_write ss)"
  shows "read_elements (length g) (text @ g) p = Some (fold (\<lambda>((a, f), td). set_extension (a XOR f) (word_of_int td)) ds (fold (\<lambda>(cs, d). set_padding cs d) os p))"
proof (cases "text = []")
  case True
  then have e: "os = []" "ds = []"
    using concat_empty [of overflow_write os] concat_empty [of dangle_write ds] line_starts(2,4) unfolding text_def by simp_all
  show ?thesis unfolding True e by (simp add: read_elements.simps)
next
  case False
  let ?n = "length g" let ?s2 = "concat (map stat_write ss) @ g" let ?s1 = "concat (map dangle_write ds) @ ?s2"
  note s2 = lines_nonblank [where line = stat_write, OF line_starts(5,6) assms(1), of ss]
  note s1 = lines_nonblank [where line = dangle_write, OF line_starts(3,4) s2, of ds]
  have "dropWhile isspace (text @ g) = text @ g"
    using False line_starts(1,3,5) unfolding text_def by (cases os; cases ds; cases ss; simp)
  then have "read_elements ?n (text @ g) p = read_elements ?n (dropWhile isspace (concat (map overflow_write os) @ ?s1)) p"
    by (simp add: text_def)
  also have "\<dots> = read_elements ?n (dropWhile isspace ?s1) (fold (\<lambda>(cs, d). set_padding cs d) os p)"
    by (rule elements_lines [OF _ s1 _ line_starts(1,2)]) (use elements_overflow in \<open>auto split: prod.splits\<close>)
  also have "\<dots> = read_elements ?n (dropWhile isspace ?s2)
      (fold (\<lambda>((a, f), td). set_extension (a XOR f) (word_of_int td)) ds (fold (\<lambda>(cs, d). set_padding cs d) os p))"
  proof (rule elements_lines [OF _ s2 _ line_starts(3,4)])
    fix e s q
    assume e: "e \<in> set ds" and s: "?n \<le> length s" "dropWhile isspace s \<noteq> []"
    obtain a f td where k: "e = ((a, f), td)" by (metis surj_pair)
    with e assms(2) have "- (2 ^ 31) \<le> td" "td < 2 ^ 31" by blast+
    from elements_dangle [OF s this] show "read_elements ?n (dangle_write e @ s) q
        = read_elements ?n (dropWhile isspace s) ((\<lambda>((a, f), td). set_extension (a XOR f) (word_of_int td)) e q)" by (simp add: k)
  qed simp
  also have "\<dots> = read_elements ?n (dropWhile isspace g)
      (fold (\<lambda>_ p. p) ss (fold (\<lambda>((a, f), td). set_extension (a XOR f) (word_of_int td)) ds (fold (\<lambda>(cs, d). set_padding cs d) os p)))"
  proof (rule elements_lines [OF _ assms(1) _ line_starts(5,6)])
    fix e s q
    assume "?n \<le> length s" "dropWhile isspace s \<noteq> []"
    from elements_stat [OF this] show "read_elements ?n (stat_write e @ s) q = read_elements ?n (dropWhile isspace s) q"
      by (metis surj_pair)
  qed simp
  also have "fold (\<lambda>_ p. p) ss = (\<lambda>p. p)" by (induction ss) (simp_all add: fun_eq_iff)
  finally show ?thesis using length_dropWhile_le [of isspace g] by (simp add: read_elements.simps)
qed

lemma hash_bound: "patch_hash x < HASH_SIZE"
  by (simp add: patch_hash_def HASH_SIZE_def)

lemma tables_padding:
  assumes "RBT.lookup (overflowPatches db) cs = Some d"
    and "\<And>cs'. RBT.lookup (overflowPatches db) cs' \<noteq> None \<Longrightarrow> patch_hash cs' = patch_hash cs \<Longrightarrow> cs' = cs"
  shows "getPadding cs (patch_tables db) = d"
  using table_of_entry [of cs d "RBT.entries (overflowPatches db)" patch_hash "\<lambda>d. d", OF _ _ hash_bound] assms
  by (fastforce simp: getPadding_def patch_tables_def entries_Some)

lemma tables_free:
  assumes "\<And>cs'. RBT.lookup (overflowPatches db) cs' \<noteq> None \<Longrightarrow> patch_hash cs' \<noteq> patch_hash cs"
  shows "getPadding cs (patch_tables db) = 0"
  using table_of_free [of "RBT.entries (overflowPatches db)" patch_hash "patch_hash cs" "\<lambda>d. d", OF _ hash_bound] assms
  by (fastforce simp: getPadding_def patch_tables_def entries_Some)

lemma tables_extension:
  assumes "RBT.lookup (danglePatches db) (a, f) = Some td"
    and "\<And>a' f'. RBT.lookup (danglePatches db) (a', f') \<noteq> None \<Longrightarrow> patch_hash (a' XOR f') = patch_hash (a XOR f) \<Longrightarrow> (a', f') = (a, f)"
  shows "getLifeExtension a f (patch_tables db) = word_of_int td"
  using table_of_entry [of "(a, f)" td "RBT.entries (danglePatches db)" "\<lambda>(a, f). patch_hash (a XOR f)" word_of_int] assms hash_bound
  by (fastforce simp: getLifeExtension_def patch_tables_def entries_Some)

text \<open>C27: Every patch of the isolator reaches the allocator, when the patch file is shorter than the 1024 characters that
  are read and a character that is no space follows it in the buffer: the padding of a call site and the delay of
  a pair of sites are the ones in the database, unless another site has the same hash, and sites with a hash of
  their own get none.\<close>

theorem patch_file_reaches_allocator:
  assumes "\<forall>k td. RBT.lookup (danglePatches db) k = Some td \<longrightarrow> - (2 ^ 31) \<le> td \<and> td < 2 ^ 31"
    and "text = fst (output_patch db)" and "length text < 1024" and "length stack = 1024" and "\<exists>c \<in> set (drop (length text) stack). \<not> isspace c"
  shows "\<exists>p. PatchInfo_init (Some text) stack = Some p
    \<and> (\<forall>cs d. RBT.lookup (overflowPatches db) cs = Some d
         \<and> (\<forall>cs'. RBT.lookup (overflowPatches db) cs' \<noteq> None \<and> patch_hash cs' = patch_hash cs \<longrightarrow> cs' = cs) \<longrightarrow> getPadding cs p = d)
    \<and> (\<forall>cs. (\<forall>cs'. RBT.lookup (overflowPatches db) cs' \<noteq> None \<longrightarrow> patch_hash cs' \<noteq> patch_hash cs) \<longrightarrow> getPadding cs p = 0)
    \<and> (\<forall>a f td. RBT.lookup (danglePatches db) (a, f) = Some td
         \<and> (\<forall>a' f'. RBT.lookup (danglePatches db) (a', f') \<noteq> None \<and> patch_hash (a' XOR f') = patch_hash (a XOR f) \<longrightarrow> (a', f') = (a, f))
         \<longrightarrow> getLifeExtension a f p = word_of_int td)"
proof -
  let ?os = "RBT.entries (overflowPatches db)" let ?ds = "RBT.entries (danglePatches db)"
  let ?ss = "RBT.entries (fold RBT.delete (updated_dangles db) (static_info db))"
  let ?p0 = "\<lparr>overflow_hash = replicate HASH_SIZE 0, dangle_hash = replicate HASH_SIZE 0\<rparr>"
  have t: "text = concat (map overflow_write ?os) @ concat (map dangle_write ?ds) @ concat (map stat_write ?ss)"
    by (simp add: assms(2) output_patch_def Let_def)
  have td: "- (2 ^ 31) \<le> td \<and> td < 2 ^ 31" if "(k, td) \<in> set ?ds" for k td
    using that assms(1) unfolding entries_Some by blast
  have g: "dropWhile isspace (drop (length text) stack) \<noteq> []" using assms(5) by (simp add: dropWhile_eq_Nil_conv)
  have "PatchInfo_init (Some text) stack = read_elements (length (drop (length text) stack)) (text @ drop (length text) stack) ?p0"
    using assms(3,4) by (simp add: PatchInfo_init_def readFile_def Let_def)
  also have "\<dots> = Some (patch_tables db)"
    unfolding t using read_elements_file [OF g [unfolded t] td] by (simp add: fold_tables patch_tables_def table_of_def)
  finally have run: "PatchInfo_init (Some text) stack = Some (patch_tables db)" .
  show ?thesis
    by (intro exI [of _ "patch_tables db"] conjI allI impI run) (use tables_padding tables_free tables_extension in blast)+
qed

definition small_db :: patch_db where
  "small_db = add_overflow_patch 3 4 (add_dangle_patch (1, 2) 6 empty_db)"

lemma small_entries:
  "RBT.entries (overflowPatches small_db) = [(3, 4)]" "RBT.entries (danglePatches small_db) = [((1, 2), 6)]"
  "RBT.entries (fold RBT.delete (updated_dangles small_db) (static_info small_db)) = []"
  by code_simp+

lemma small_lookup:
  "RBT.lookup (overflowPatches small_db) cs = (if cs = 3 then Some 4 else None)"
  "RBT.lookup (danglePatches small_db) k = (if k = (1, 2) then Some 6 else None)"
  using entries_lookup(1) [of "overflowPatches small_db" cs] entries_lookup(1) [of "danglePatches small_db" k]
  by (simp_all add: small_entries)

lemma small_text: "length (fst (output_patch small_db)) = 32"
  by (simp add: output_patch_def Let_def small_entries overflow_write_def dangle_write_def show_hex_def show_int_def
      show_base_def digits_of.simps)

theorem patch_file_reaches_allocator_witness:
  "\<exists>p. PatchInfo_init (Some (fst (output_patch small_db))) (replicate 1024 CHR ''a'') = Some p
     \<and> getPadding 3 p = 4 \<and> getLifeExtension 1 2 p = 6"
proof -
  let ?stack = "replicate 1024 CHR ''a''" let ?text = "fst (output_patch small_db)"
  have b: "\<forall>k td. RBT.lookup (danglePatches small_db) k = Some td \<longrightarrow> - (2 ^ 31) \<le> td \<and> td < 2 ^ 31" by (simp add: small_lookup)
  have l: "length ?text < 1024" by (simp add: small_text)
  have n: "length ?stack = 1024" by simp
  have s: "\<exists>c \<in> set (drop (length ?text) ?stack). \<not> isspace c" by (simp add: small_text isspace_def)
  obtain p where p: "PatchInfo_init (Some ?text) ?stack = Some p"
    and h: "\<forall>cs d. RBT.lookup (overflowPatches small_db) cs = Some d
         \<and> (\<forall>cs'. RBT.lookup (overflowPatches small_db) cs' \<noteq> None \<and> patch_hash cs' = patch_hash cs \<longrightarrow> cs' = cs) \<longrightarrow> getPadding cs p = d"
      "\<forall>a f td. RBT.lookup (danglePatches small_db) (a, f) = Some td
         \<and> (\<forall>a' f'. RBT.lookup (danglePatches small_db) (a', f') \<noteq> None \<and> patch_hash (a' XOR f') = patch_hash (a XOR f) \<longrightarrow> (a', f') = (a, f))
         \<longrightarrow> getLifeExtension a f p = word_of_int td"
    using patch_file_reaches_allocator [OF b refl l n s] by (elim exE conjE) (rule that)
  have "getPadding 3 p = 4" by (rule h(1) [rule_format]) (simp add: small_lookup)
  moreover have "getLifeExtension 1 2 p = word_of_int 6" by (rule h(2) [rule_format]) (simp add: small_lookup)
  ultimately show ?thesis using p by auto
qed

lemma small_patches:
  obtains p where "PatchInfo_init (Some (fst (output_patch small_db))) (replicate 1024 CHR ''a'') = Some p"
    "getPadding 1 p = 0" "getLifeExtension 0 3 p = 6"
proof (rule that)
  let ?stack = "replicate 1024 CHR ''a''" let ?text = "fst (output_patch small_db)"
  have g: "dropWhile isspace (drop (length ?text) ?stack) \<noteq> []" by (simp add: small_text dropWhile_eq_Nil_conv isspace_def)
  have t: "?text = concat (map overflow_write [(3, 4)]) @ concat (map dangle_write [((1, 2), 6)]) @ concat (map stat_write [])"
    by (simp add: output_patch_def Let_def small_entries)
  let ?p = "set_extension 3 6 (set_padding 3 4 \<lparr>overflow_hash = replicate HASH_SIZE 0, dangle_hash = replicate HASH_SIZE 0\<rparr>)"
  have "PatchInfo_init (Some ?text) ?stack
      = read_elements (length (drop (length ?text) ?stack)) (?text @ drop (length ?text) ?stack) \<lparr>overflow_hash = replicate HASH_SIZE 0, dangle_hash = replicate HASH_SIZE 0\<rparr>"
    by (simp add: PatchInfo_init_def readFile_def Let_def small_text)
  also have "\<dots> = Some ?p"
    unfolding t using read_elements_file [OF g [unfolded t], of "[((1, 2), 6)]" "[(3, 4)]" "[]"] by simp
  finally show "PatchInfo_init (Some ?text) ?stack = Some ?p" .
  show "getPadding 1 ?p = 0" "getLifeExtension 0 3 ?p = 6"
    by (simp_all add: getPadding_def getLifeExtension_def set_padding_def set_extension_def patch_hash_def HASH_SIZE_def nth_list_update)
qed

end
