(* ===== verification/ExtBitmap.thy ===== *)
theory ExtBitmap
  imports Bitmap MathUtil
begin

text \<open>
  Support of the Exterminator runtime (\<open>src/exterminator/src\<close>), a 32-bit program: the generator of
  \<open>marsaglia.h\<close>, the bitmap of \<open>bitmap.h\<close>, and memory as 32-bit words at their addresses with the
  fill and check loops of \<open>partitioninfo.h\<close>.  The last section runs two threads on one word of the
  bitmap, the way \<open>DIEHARD_MULTITHREADED\<close> compiles it.
\<close>

section \<open>Random numbers\<close>

record marsaglia =
  mz :: u32
  mw :: u32

definition Marsaglia :: "u32 \<Rightarrow> u32 \<Rightarrow> marsaglia" where
  "Marsaglia seed1 seed2 = \<lparr>mz = seed1, mw = seed2\<rparr>"

definition marsaglia_next :: "marsaglia \<Rightarrow> u32 \<times> marsaglia" where
  "marsaglia_next s =
     (let z = 36969 * (mz s AND 65535) + drop_bit 16 (mz s); w = 18000 * (mw s AND 65535) + drop_bit 16 (mw s)
      in (push_bit 16 z + w, \<lparr>mz = z, mw = w\<rparr>))"

section \<open>The bitmap\<close>

record xbitmap =
  xb_elements :: nat
  xb_bitarray :: "u32 list"

definition XBitMap :: xbitmap where
  "XBitMap = \<lparr>xb_elements = 0, xb_bitarray = []\<rparr>"

text \<open>The memory the bitmap's heap returns is an argument.\<close>

definition xb_reserve :: "nat \<Rightarrow> u32 list \<Rightarrow> xbitmap \<Rightarrow> xbitmap" where
  "xb_reserve nelts buf b = b\<lparr>xb_bitarray := buf, xb_elements := nelts\<rparr>"

text \<open>\<open>clear\<close> zeroes \<open>_elements / 8 + _elements % 8\<close> bytes; the model takes the whole words of them.\<close>

definition xb_clear :: "xbitmap \<Rightarrow> xbitmap" where
  "xb_clear b = (let n = (xb_elements b div 8 + xb_elements b mod 8) div 4
     in b\<lparr>xb_bitarray := replicate (min n (length (xb_bitarray b))) 0 @ drop n (xb_bitarray b)\<rparr>)"

definition xb_exchange :: "nat \<Rightarrow> u32 \<Rightarrow> xbitmap \<Rightarrow> u32 \<times> xbitmap" where
  "xb_exchange item newval b = (xb_bitarray b ! item, b\<lparr>xb_bitarray := (xb_bitarray b)[item := newval]\<rparr>)"

text \<open>
  The loops of \<open>tryToSet\<close> and \<open>reset\<close> end when \<open>exchange\<close> returns the value loaded before; with
  one thread it always does, so that their body runs once.
\<close>

definition xb_tryToSet :: "nat \<Rightarrow> xbitmap \<Rightarrow> bool \<times> xbitmap" where
  "xb_tryToSet index b =
     (let item = drop_bit 5 index; position = index - push_bit 5 item;
          mask = push_bit position (1 :: u32);
          oldvalue = xb_bitarray b ! item; newvalue = oldvalue OR mask;
          (v, b) = xb_exchange item newvalue b
      in (\<not> (oldvalue AND mask \<noteq> 0), b))"

definition xb_isSet :: "nat \<Rightarrow> xbitmap \<Rightarrow> bool" where
  "xb_isSet index b =
     (let item = drop_bit 5 index; position = index - push_bit 5 item
      in xb_bitarray b ! item AND push_bit position 1 \<noteq> 0)"

definition xb_reset :: "nat \<Rightarrow> xbitmap \<Rightarrow> xbitmap" where
  "xb_reset index b =
     (let item = drop_bit 5 index; position = index - push_bit 5 item;
          oldvalue = xb_bitarray b ! item; newvalue = oldvalue AND NOT (push_bit position 1)
      in snd (xb_exchange item newvalue b))"

definition dump_bitmap :: "xbitmap \<Rightarrow> u32 list" where
  "dump_bitmap b = take (xb_elements b div 32) (xb_bitarray b)"

text \<open>The set of its bits.\<close>

definition xb_inv :: "xbitmap \<Rightarrow> bool" where
  "xb_inv b \<longleftrightarrow> 32 * length (xb_bitarray b) = xb_elements b"

definition xb_bits :: "xbitmap \<Rightarrow> nat set" where
  "xb_bits b = {i. i < xb_elements b \<and> bit (xb_bitarray b ! (i div 32)) (i mod 32)}"

lemma xb_position: "drop_bit 5 (i::nat) = i div 32" "i - push_bit 5 (i div 32) = i mod 32"
  by (simp_all add: drop_bit_nat_div push_bit_nat_mult minus_div_mult_eq_mod)

lemma and_push_bit_1: "(w :: u32) AND push_bit n 1 \<noteq> 0 \<longleftrightarrow> n < 32 \<and> bit w n"
proof -
  have "w AND push_bit n 1 = (if n < 32 \<and> bit w n then push_bit n 1 else 0)"
    by (rule bit_word_eqI) (auto simp: bit_simps)
  moreover have "n < 32 \<Longrightarrow> push_bit n (1::u32) \<noteq> 0" by (auto simp: bit_eq_iff bit_simps intro: exI [of _ n])
  ultimately show ?thesis by simp
qed

lemma same_place: "i div 32 = j div 32 \<and> i mod 32 = j mod 32 \<longleftrightarrow> i = (j::nat)"
  by (metis div_mult_mod_eq)

lemma xb_update:
  assumes "xb_inv b" and "i < xb_elements b"
    and "\<And>q. q < 32 \<Longrightarrow> bit w q \<longleftrightarrow> (if q = i mod 32 then v else bit (xb_bitarray b ! (i div 32)) q)"
  shows "xb_inv (b\<lparr>xb_bitarray := (xb_bitarray b)[i div 32 := w]\<rparr>)
    \<and> xb_bits (b\<lparr>xb_bitarray := (xb_bitarray b)[i div 32 := w]\<rparr>) = (if v then insert i (xb_bits b) else xb_bits b - {i})"
proof -
  have "bit ((xb_bitarray b)[i div 32 := w] ! (j div 32)) (j mod 32)
      \<longleftrightarrow> (if j = i then v else bit (xb_bitarray b ! (j div 32)) (j mod 32))" if "j < xb_elements b" for j
    using assms same_place [of i j] that by (cases "i div 32 = j div 32") (auto simp: nth_list_update xb_inv_def)
  then have "j < xb_elements b \<and> bit ((xb_bitarray b)[i div 32 := w] ! (j div 32)) (j mod 32)
      \<longleftrightarrow> j < xb_elements b \<and> (if j = i then v else bit (xb_bitarray b ! (j div 32)) (j mod 32))" for j by blast
  then show ?thesis using assms(1,2) by (auto simp: xb_bits_def xb_inv_def)
qed

lemma xb_tryToSet_spec:
  assumes "xb_inv b" and "i < xb_elements b"
  shows "fst (xb_tryToSet i b) \<longleftrightarrow> i \<notin> xb_bits b" and "xb_inv (snd (xb_tryToSet i b))"
    and "xb_bits (snd (xb_tryToSet i b)) = insert i (xb_bits b)" and "xb_elements (snd (xb_tryToSet i b)) = xb_elements b"
  using assms xb_update [OF assms, of "xb_bitarray b ! (i div 32) OR push_bit (i mod 32) 1" True] and_push_bit_1 [of _ "i mod 32"]
  by (auto simp: xb_tryToSet_def xb_exchange_def xb_position Let_def xb_bits_def bit_simps)

lemma xb_isSet_spec: "xb_inv b \<Longrightarrow> i < xb_elements b \<Longrightarrow> xb_isSet i b \<longleftrightarrow> i \<in> xb_bits b"
  using and_push_bit_1 [of _ "i mod 32"] by (simp add: xb_isSet_def xb_position Let_def xb_bits_def)

lemma xb_reset_spec:
  assumes "xb_inv b" and "i < xb_elements b"
  shows "xb_inv (xb_reset i b)" and "xb_bits (xb_reset i b) = xb_bits b - {i}" and "xb_elements (xb_reset i b) = xb_elements b"
  using assms xb_update [OF assms, of "xb_bitarray b ! (i div 32) AND NOT (push_bit (i mod 32) 1)" False]
  by (auto simp: xb_reset_def xb_exchange_def xb_position Let_def bit_simps)

lemma xb_bits_bound: "xb_bits b \<subseteq> {..<xb_elements b}"
  by (auto simp: xb_bits_def)

interpretation extbit: bit_store xb_inv xb_elements xb_bits xb_tryToSet "\<lambda>i b. (xb_isSet i b, xb_reset i b)" xb_isSet
  by unfold_locales (simp_all add: xb_tryToSet_spec xb_reset_spec xb_isSet_spec xb_bits_bound)

lemma xb_reserve_spec:
  assumes "32 dvd n" and "length buf = n div 32"
  shows "xb_inv (xb_clear (xb_reserve n buf b))" and "xb_bits (xb_clear (xb_reserve n buf b)) = {}"
    and "xb_elements (xb_clear (xb_reserve n buf b)) = n"
proof -
  have n: "n div 8 + n mod 8 = n div 8" "n div 8 div 4 = n div 32" using assms(1) by (auto elim!: dvdE)
  show "xb_inv (xb_clear (xb_reserve n buf b))" "xb_elements (xb_clear (xb_reserve n buf b)) = n"
    using assms n by (auto simp: xb_inv_def xb_clear_def xb_reserve_def Let_def)
  have "i div 32 < n div 32" if "i < n" for i using that assms(1) by (auto elim!: dvdE)
  then show "xb_bits (xb_clear (xb_reserve n buf b)) = {}"
    using assms(2) n by (auto simp: xb_bits_def xb_clear_def xb_reserve_def Let_def)
qed

section \<open>Memory\<close>

type_synonym wmem = "addr \<Rightarrow> u32"

fun x_fill_loop :: "nat \<Rightarrow> addr \<Rightarrow> u32 \<Rightarrow> u32 \<Rightarrow> wmem \<Rightarrow> wmem" where
  "x_fill_loop 0 l v1 v2 m = m"
| "x_fill_loop (Suc n) l v1 v2 m = x_fill_loop n (l + 8) v1 v2 (m(l := v1, l + 4 := v2))"

definition x_fill :: "addr \<Rightarrow> nat \<Rightarrow> u32 \<Rightarrow> wmem \<Rightarrow> wmem" where
  "x_fill ptr sz val m = x_fill_loop (sz div 8) ptr val val m"

definition x_fillRandom :: "addr \<Rightarrow> nat \<Rightarrow> marsaglia \<times> wmem \<Rightarrow> marsaglia \<times> wmem" where
  "x_fillRandom ptr sz rm =
     (let (r, m) = rm; (lv1, r) = marsaglia_next r; (lv2, r) = marsaglia_next r
      in (r, x_fill_loop (sz div 8) ptr lv1 lv2 m))"

fun x_check_loop :: "nat \<Rightarrow> addr \<Rightarrow> u32 \<Rightarrow> wmem \<Rightarrow> bool" where
  "x_check_loop 0 l val m = False"
| "x_check_loop (Suc n) l val m = (if m l \<noteq> val then True else x_check_loop n (l + 4) val m)"

definition x_checkNot :: "addr \<Rightarrow> nat \<Rightarrow> u32 \<Rightarrow> wmem \<Rightarrow> bool" where
  "x_checkNot ptr sz val m = x_check_loop (sz div 4) ptr val m"

lemma x_fill_loop_eq:
  "x_fill_loop n l v v m a = (if l \<le> a \<and> a < l + 8 * n \<and> 4 dvd a - l then v else m a)"
proof (induction n arbitrary: l m)
  case (Suc n)
  have *: "l \<le> a \<and> a < l + 8 * Suc n \<and> 4 dvd a - l \<longleftrightarrow>
      a = l \<or> a = l + 4 \<or> (l + 8 \<le> a \<and> a < l + 8 + 8 * n \<and> 4 dvd a - (l + 8))" (is "?L \<longleftrightarrow> ?R")
  proof
    assume L: ?L
    then obtain k where "a - l = 4 * k" by (elim conjE dvdE)
    then have a: "a = l + 4 * k" using L by linarith
    show ?R
    proof (cases "k < 2")
      case True
      then show ?thesis using a by (auto simp: less_2_cases_iff)
    next
      case False
      then have "a - (l + 8) = 4 * (k - 2)" using a by simp
      then show ?thesis using a L False by simp
    qed
  next
    assume ?R
    moreover have "4 dvd a - l" if "l + 8 \<le> a" "4 dvd a - (l + 8)"
    proof -
      have "a - l = (a - (l + 8)) + 8" using that(1) by simp
      then show ?thesis using that(2) by (metis dvd_add dvd_triv_left mult_2_right numeral_Bit0)
    qed
    ultimately show ?L by auto
  qed
  show ?case using Suc [of "l + 8"] unfolding * by auto
qed auto

lemma x_check_loop_iff: "x_check_loop n l v m \<longleftrightarrow> (\<exists>j < n. m (l + 4 * j) \<noteq> v)"
proof (induction n arbitrary: l)
  case (Suc n)
  have "(\<exists>j < Suc n. m (l + 4 * j) \<noteq> v) \<longleftrightarrow> m l \<noteq> v \<or> (\<exists>j < n. m (l + 4 * Suc j) \<noteq> v)"
    by (auto simp: less_Suc_eq_0_disj)
  with Suc [of "l + 4"] show ?case by (simp add: add.assoc)
qed simp

lemma x_checkNot_iff: "x_checkNot ptr sz v m \<longleftrightarrow> (\<exists>j < sz div 4. m (ptr + 4 * j) \<noteq> v)"
  by (simp add: x_checkNot_def x_check_loop_iff)

lemma x_fill_eq: "x_fill ptr sz v m a = (if ptr \<le> a \<and> a < ptr + 8 * (sz div 8) \<and> 4 dvd a - ptr then v else m a)"
  by (simp add: x_fill_def x_fill_loop_eq)

lemma x_fill_check: "8 dvd sz \<Longrightarrow> \<not> x_checkNot ptr sz v (x_fill ptr sz v m)"
  by (auto simp: x_checkNot_iff x_fill_eq elim!: dvdE)

section \<open>Two threads on one word\<close>

text \<open>
  With \<open>DIEHARD_MULTITHREADED\<close> the exchange is atomic, but the loop of \<open>tryToSet\<close> reads the word, exchanges
  it and only then compares.  A thread is about to read, holds the value it read, or has returned; a
  schedule is the list of the threads that take the next step, thread \<open>t\<close> sets the bit \<open>t\<close>.
\<close>

datatype xphase = About_to_read | Has_read u32 | Returned bool

definition xt_step :: "nat \<Rightarrow> u32 \<times> xphase list \<Rightarrow> u32 \<times> xphase list" where
  "xt_step t s =
     (let (word, phases) = s; mask = push_bit t 1
      in case phases ! t of
           About_to_read \<Rightarrow> (word, phases[t := Has_read word])
         | Has_read oldvalue \<Rightarrow>
             (oldvalue OR mask, phases[t := (if word = oldvalue then Returned (oldvalue AND mask = 0) else About_to_read)])
         | Returned _ \<Rightarrow> s)"

definition xt_run :: "nat list \<Rightarrow> u32 \<times> xphase list \<Rightarrow> u32 \<times> xphase list" where
  "xt_run schedule s = fold xt_step schedule s"

text \<open>Setting two free bits of one word at the same time loses one: thread 0 is told that it set its bit, the word does
  not have it, thread 1 set its bit and is told that it did not, and a third thread that tries the bit of thread 0
  is told that it set it too, so that one slot is handed out twice.\<close>

theorem xbitmap_race:
  "\<exists>schedule. xt_run schedule (0, [About_to_read, About_to_read]) = (push_bit 1 1, [Returned True, Returned False])
     \<and> set schedule \<subseteq> {0, 1} \<and> xt_run [0, 0] (push_bit 1 1, [About_to_read]) = (push_bit 0 1 OR push_bit 1 1, [Returned True])"
proof -
  have "xt_run [1, 0, 0, 1, 1, 1] (0, [About_to_read, About_to_read]) = (push_bit 1 1, [Returned True, Returned False])"
    "xt_run [0, 0] (push_bit 1 1, [About_to_read]) = (push_bit 0 1 OR push_bit 1 1, [Returned True])"
    by code_simp+
  then show ?thesis by (intro exI [of _ "[1, 0, 0, 1, 1, 1]"]) simp
qed

end
