(* ===== verification/ExtPartition.thy ===== *)
theory ExtPartition
  imports ExtBitmap "HOL-Library.Monad_Syntax"
begin

text \<open>
  One size class of the Exterminator heap: \<open>PartitionInfo\<close> with \<open>ExterminatorMetadata\<close>
  (\<open>src/exterminator/src/partitioninfo.h\<close>, \<open>partition_metadata.h\<close>), as the Exterminator library
  is built: one thread, \<open>DIEHARD_DIEFAST = 1\<close>, 32 bits.  The call sites are arguments.  \<open>abort\<close>
  ends the program: an operation then answers \<open>Died\<close>.
\<close>

section \<open>Metadata\<close>

record slot_info =
  si_id :: nat
  si_alloc_callsite :: nat
  si_free_callsite :: nat
  si_free_time :: nat

record metadata =
  md_elements :: nat
  md_slots :: "slot_info list"

definition null_slot :: slot_info where
  "null_slot = \<lparr>si_id = 0, si_alloc_callsite = 0, si_free_callsite = 0, si_free_time = 0\<rparr>"

definition elementsChanged :: "nat \<Rightarrow> metadata \<Rightarrow> metadata" where
  "elementsChanged new_el d =
     (let new_info = replicate new_el null_slot;
          new_info = take (md_elements d) (md_slots d) @ drop (md_elements d) new_info
      in d\<lparr>md_elements := new_el, md_slots := new_info\<rparr>)"

definition allocEvent :: "nat \<Rightarrow> nat \<Rightarrow> nat \<Rightarrow> metadata \<Rightarrow> metadata" where
  "allocEvent idx callsite global_ct d =
     d\<lparr>md_slots := (md_slots d)[idx := (md_slots d ! idx)\<lparr>si_alloc_callsite := callsite, si_id := global_ct\<rparr>]\<rparr>"

definition freeEvent :: "nat \<Rightarrow> nat \<Rightarrow> nat \<Rightarrow> metadata \<Rightarrow> metadata" where
  "freeEvent idx callsite global_ct d =
     d\<lparr>md_slots := (md_slots d)[idx := (md_slots d ! idx)\<lparr>si_free_callsite := callsite, si_free_time := global_ct\<rparr>]\<rparr>"

definition md_getAllocCallsite :: "nat \<Rightarrow> metadata \<Rightarrow> nat" where
  "md_getAllocCallsite idx d = si_alloc_callsite (md_slots d ! idx)"

definition md_getObjectID :: "nat \<Rightarrow> metadata \<Rightarrow> nat" where
  "md_getObjectID idx d = si_id (md_slots d ! idx)"

definition dumpMetadata :: "metadata \<Rightarrow> slot_info list" where
  "dumpMetadata d = take (md_elements d) (md_slots d)"

section \<open>State\<close>

record partition =
  p_initialized :: bool
  p_allocated :: xbitmap
  p_hasData :: xbitmap
  p_size :: nat
  p_sizeClass :: nat
  p_start :: addr
  p_threshold :: int
  p_requested :: int
  p_elements :: nat
  p_elementsShift :: nat
  p_mask :: u32
  p_meta :: metadata

text \<open>A partition before \<open>initialize\<close>, in static memory.\<close>

definition PartitionInfo :: partition where
  "PartitionInfo = \<lparr>p_initialized = False, p_allocated = XBitMap, p_hasData = XBitMap, p_size = 0, p_sizeClass = 0, p_start = 0,
     p_threshold = 0, p_requested = 0, p_elements = 0, p_elementsShift = 0, p_mask = 0, p_meta = \<lparr>md_elements = 0, md_slots = []\<rparr>\<rparr>"

text \<open>The globals of the runtime; \<open>dh_replicated\<close> says that \<open>DH_REPLICATED\<close> is set.\<close>

record runtime =
  rt_rng :: marsaglia
  sentinel :: u32
  global_ct :: nat
  death_time :: nat
  bad_replica :: bool
  dh_replicated :: bool

text \<open>\<open>diefast_error\<close> says whether it aborts; otherwise it asks for a signal and returns.\<close>

definition diefast_error :: "runtime \<Rightarrow> bool \<times> runtime" where
  "diefast_error g = (death_time g = 0 \<and> \<not> dh_replicated g, g\<lparr>bad_replica := True\<rparr>)"

section \<open>Operations\<close>

definition initializePartition :: "bool \<Rightarrow> partition \<times> runtime \<times> wmem \<Rightarrow> partition \<times> runtime \<times> wmem" where
  "initializePartition replicated s =
     (let (p, g, m) = s;
          (g, m) = (if replicated
                    then let (r, m) = x_fillRandom (p_start p) (p_elements p * p_size p) (rt_rng g, m) in (g\<lparr>rt_rng := r\<rparr>, m)
                    else (g, x_fill (p_start p) (p_elements p * p_size p) (sentinel g) m))
      in (p\<lparr>p_initialized := True\<rparr>, g, m))"

definition initialize :: "bool \<Rightarrow> nat \<Rightarrow> nat \<Rightarrow> int \<Rightarrow> addr \<Rightarrow> nat \<Rightarrow> u32 list \<Rightarrow> u32 list
    \<Rightarrow> partition \<times> runtime \<times> wmem \<Rightarrow> partition \<times> runtime \<times> wmem" where
  "initialize replicated i sz threshold start len buf1 buf2 s =
     (let (p, g, m) = s; elements = len div sz;
          p = p\<lparr>p_threshold := threshold, p_requested := 0, p_elements := elements, p_elementsShift := log2 elements,
                p_mask := word_of_nat elements - 1, p_size := sz, p_sizeClass := i, p_start := start,
                p_allocated := xb_clear (xb_reserve elements buf1 (p_allocated p)),
                p_hasData := xb_clear (xb_reserve elements buf2 (p_hasData p)),
                p_meta := elementsChanged elements (p_meta p)\<rparr>
      in initializePartition replicated (p, g, m))"

datatype alloc_answer = Object addr | Failed | Died

text \<open>
  The probing loop.  Without \<open>DIEHARD_MULTITHREADED\<close> the counter \<open>iterations\<close> stays 0, so that only
  the threshold ends it; a corrupted slot keeps its bit and is counted (\<open>continue\<close>).
\<close>

partial_function (option) alloc_probe :: "nat \<Rightarrow> partition \<times> runtime \<times> wmem
    \<Rightarrow> (alloc_answer \<times> partition \<times> runtime \<times> wmem) option" where
  "alloc_probe callsite s =
     (let (p, g, m) = s
      in if p_requested p \<ge> p_threshold p then Some (Failed, s)
         else let (rng, r) = marsaglia_next (rt_rng g); g = g\<lparr>rt_rng := r\<rparr>;
                  objectIndex = unat (rng AND p_mask p);
                  ptr = p_start p + objectIndex * p_size p;
                  (success, b) = xb_tryToSet objectIndex (p_allocated p); p = p\<lparr>p_allocated := b\<rparr>
              in if success
                 then let p = p\<lparr>p_requested := p_requested p + 1\<rparr>
                      in if \<not> xb_isSet objectIndex (p_hasData p) \<and> x_checkNot ptr (p_size p) (sentinel g) m
                         then let (died, g) = diefast_error g
                              in if died then Some (Died, p, g, m) else alloc_probe callsite (p, g, m)
                         else Some (Object ptr,
                                p\<lparr>p_hasData := snd (xb_tryToSet objectIndex (p_hasData p)),
                                  p_meta := allocEvent objectIndex callsite (global_ct g) (p_meta p)\<rparr>,
                                g, x_fill ptr (p_size p) 0 m)
                 else alloc_probe callsite (p, g, m))"

definition allocObject :: "bool \<Rightarrow> nat \<Rightarrow> partition \<times> runtime \<times> wmem
    \<Rightarrow> (alloc_answer \<times> partition \<times> runtime \<times> wmem) option" where
  "allocObject replicated callsite s =
     alloc_probe callsite (if \<not> p_initialized (fst s) then initializePartition replicated s else s)"

text \<open>The test of the predecessor is switched off in the code (\<open>if(0 && ...)\<close>).\<close>

definition checkOverflow :: "addr \<Rightarrow> nat \<Rightarrow> partition \<times> runtime \<times> wmem \<Rightarrow> bool \<times> partition \<times> runtime \<times> wmem" where
  "checkOverflow ptr index s =
     (let (p, g, m) = s
      in if int index < int (p_elements p) - 1 \<and> \<not> xb_isSet (index + 1) (p_hasData p)
            \<and> x_checkNot (ptr + p_size p) (p_size p) (sentinel g) m
         then let p = p\<lparr>p_allocated := snd (xb_tryToSet (index + 1) (p_allocated p))\<rparr>; (died, g) = diefast_error g
              in (died, p, g, m)
         else (False, s))"

definition forceFreeIndex :: "nat \<Rightarrow> addr \<Rightarrow> nat \<Rightarrow> partition \<times> runtime \<times> wmem \<Rightarrow> bool \<times> partition \<times> runtime \<times> wmem" where
  "forceFreeIndex callsite ptr objectIndex s =
     (let (p, g, m) = s;
          p = p\<lparr>p_requested := p_requested p - 1, p_allocated := xb_reset objectIndex (p_allocated p),
                p_meta := freeEvent objectIndex callsite (global_ct g) (p_meta p)\<rparr>;
          (p, g, m) = (if bad_replica g then (p, g, m)
                       else let (rng, r) = marsaglia_next (rt_rng g); g = g\<lparr>rt_rng := r\<rparr>
                            in if rng mod 2 = 0
                               then (p\<lparr>p_hasData := xb_reset objectIndex (p_hasData p)\<rparr>, g, x_fill ptr (p_size p) (sentinel g) m)
                               else (p, g, m))
      in checkOverflow ptr objectIndex (p, g, m))"

definition on_grid :: "addr \<Rightarrow> partition \<Rightarrow> bool" where
  "on_grid ptr p = (let offset = word_of_nat ptr - word_of_nat (p_start p) :: u32
     in offset AND NOT (word_of_nat (p_size p) - 1) = offset)"

definition x_objectIndex :: "addr \<Rightarrow> partition \<Rightarrow> nat" where
  "x_objectIndex ptr p = drop_bit (p_sizeClass p + staticlog 8) (sub32 ptr (p_start p))"

definition freeObject :: "nat \<Rightarrow> addr \<Rightarrow> partition \<times> runtime \<times> wmem \<Rightarrow> bool \<times> partition \<times> runtime \<times> wmem" where
  "freeObject callsite ptr s =
     (if on_grid ptr (fst s) then forceFreeIndex callsite ptr (x_objectIndex ptr (fst s)) s else (False, s))"

text \<open>\<open>None\<close>: the code aborts.\<close>

definition p_getAllocCallsite :: "addr \<Rightarrow> partition \<Rightarrow> nat option" where
  "p_getAllocCallsite ptr p =
     (if on_grid ptr p then Some (md_getAllocCallsite (x_objectIndex ptr p) (p_meta p)) else None)"

definition p_getObjectID :: "addr \<Rightarrow> partition \<Rightarrow> nat option" where
  "p_getObjectID ptr p = (if on_grid ptr p then Some (md_getObjectID (x_objectIndex ptr p) (p_meta p)) else None)"

record partition_dump =
  pd_size :: nat
  pd_elements :: nat
  pd_start :: addr
  pd_allocated :: "u32 list"
  pd_hasData :: "u32 list"
  pd_slots :: "slot_info list"
  pd_memory :: "u32 list"

definition p_dump_heap :: "partition \<Rightarrow> wmem \<Rightarrow> partition_dump" where
  "p_dump_heap p m = \<lparr>pd_size = p_size p, pd_elements = p_elements p, pd_start = p_start p,
     pd_allocated = dump_bitmap (p_allocated p), pd_hasData = dump_bitmap (p_hasData p), pd_slots = dumpMetadata (p_meta p),
     pd_memory = map (\<lambda>j. m (p_start p + 4 * j)) [0..<p_size p * p_elements p div 4]\<rparr>"

section \<open>Well-formed partitions\<close>

definition part_ok :: "partition \<Rightarrow> bool" where
  "part_ok p \<longleftrightarrow> p_size p = 2 ^ (p_sizeClass p + 3) \<and> (\<exists>k. p_elements p = 2 ^ k \<and> 5 \<le> k \<and> k < 32)
     \<and> p_mask p = word_of_nat (p_elements p) - 1
     \<and> xb_inv (p_allocated p) \<and> xb_elements (p_allocated p) = p_elements p
     \<and> xb_inv (p_hasData p) \<and> xb_elements (p_hasData p) = p_elements p
     \<and> length (md_slots (p_meta p)) = p_elements p \<and> p_start p + p_elements p * p_size p < 2 ^ 32"

definition slot_at :: "partition \<Rightarrow> nat \<Rightarrow> addr" where
  "slot_at p i = p_start p + i * p_size p"

text \<open>An empty slot that no longer holds the sentinel.\<close>

definition corrupted :: "partition \<Rightarrow> runtime \<Rightarrow> wmem \<Rightarrow> nat \<Rightarrow> bool" where
  "corrupted p g m i \<longleftrightarrow> i \<notin> xb_bits (p_hasData p) \<and> x_checkNot (slot_at p i) (p_size p) (sentinel g) m"

lemma mask_less: "unat (w AND (word_of_nat (2 ^ k) - 1) :: u32) < 2 ^ k" if "k < 32"
proof -
  have "word_of_nat (2 ^ k) - 1 = (mask k :: u32)" by (simp add: mask_eq_exp_minus_1)
  then have "unat (w AND (word_of_nat (2 ^ k) - 1)) = take_bit k (unat w)"
    by (simp add: take_bit_eq_mask [symmetric] unsigned_take_bit_eq)
  then show ?thesis by (simp add: take_bit_eq_mod)
qed

lemma part_index: "part_ok p \<Longrightarrow> unat (w AND p_mask p) < p_elements p"
  using mask_less by (auto simp: part_ok_def)

lemma part_okD:
  assumes "part_ok p"
  shows "p_size p = 2 ^ (p_sizeClass p + 3)" "xb_inv (p_allocated p)" "xb_elements (p_allocated p) = p_elements p"
    "xb_inv (p_hasData p)" "xb_elements (p_hasData p) = p_elements p" "length (md_slots (p_meta p)) = p_elements p"
    "p_start p + p_elements p * p_size p < 2 ^ 32" "8 dvd p_size p" "0 < p_size p"
  using assms by (auto simp: part_ok_def power_add)

lemma part_okI:
  assumes "part_ok p" and "p_size q = p_size p" "p_sizeClass q = p_sizeClass p" "p_elements q = p_elements p" "p_mask q = p_mask p"
    "p_start q = p_start p" and "xb_inv (p_allocated q)" "xb_elements (p_allocated q) = p_elements p"
    and "xb_inv (p_hasData q)" "xb_elements (p_hasData q) = p_elements p" and "length (md_slots (p_meta q)) = p_elements p"
  shows "part_ok q"
  using assms(1,7-11) unfolding part_ok_def assms(2-6) by blast

lemma size_multiple:
  assumes "k < 32"
  shows "(w :: u32) AND NOT (word_of_nat (2 ^ k) - 1) = w \<longleftrightarrow> 2 ^ k dvd unat w"
proof -
  have m: "word_of_nat (2 ^ k) - 1 = (mask k :: u32)" by (simp add: mask_eq_exp_minus_1)
  have "w AND NOT (mask k) = w \<longleftrightarrow> take_bit k w = 0"
    by (auto simp: bit_eq_iff bit_simps)
  also have "\<dots> \<longleftrightarrow> take_bit k (unat w) = 0"
    by (metis unsigned_take_bit_eq unsigned_eq_0_iff)
  finally show ?thesis unfolding m by (simp add: take_bit_eq_mod dvd_eq_mod_eq_0)
qed

lemma on_grid_iff:
  assumes "part_ok p" and "p_start p \<le> ptr" and "ptr < p_start p + p_elements p * p_size p"
  shows "on_grid ptr p \<longleftrightarrow> (\<exists>i < p_elements p. ptr = slot_at p i)"
    and "i < p_elements p \<Longrightarrow> x_objectIndex (slot_at p i) p = i"
proof -
  note d = part_okD [OF assms(1)]
  obtain k where k: "p_elements p = 2 ^ k" using assms(1) by (auto simp: part_ok_def)
  have sc: "p_sizeClass p + 3 < 32"
  proof (rule ccontr)
    assume "\<not> p_sizeClass p + 3 < 32"
    then have "(2::nat) ^ 32 \<le> p_size p" unfolding d(1) by (intro power_increasing) auto
    moreover have "p_size p \<le> p_elements p * p_size p" by (simp add: k)
    ultimately show False using d(7) by linarith
  qed
  have "unat (word_of_nat ptr - word_of_nat (p_start p) :: u32) = ptr - p_start p"
  proof -
    have "word_of_nat ptr - word_of_nat (p_start p) = (word_of_nat (ptr - p_start p) :: u32)"
      using assms(2) by (simp add: of_nat_diff)
    moreover have "ptr - p_start p < 2 ^ 32" using assms(2,3) d(7) by linarith
    ultimately show ?thesis by (simp add: unat_of_nat)
  qed
  then have "on_grid ptr p \<longleftrightarrow> p_size p dvd ptr - p_start p"
    using size_multiple [OF sc] by (simp add: on_grid_def d(1) Let_def)
  also have "\<dots> \<longleftrightarrow> (\<exists>i < p_elements p. ptr = slot_at p i)"
  proof
    assume "p_size p dvd ptr - p_start p"
    then obtain i where "ptr - p_start p = p_size p * i" by blast
    moreover have "ptr = p_start p + (ptr - p_start p)" using assms(2) by simp
    ultimately have i: "ptr = slot_at p i" by (simp add: slot_at_def mult.commute)
    then have "i * p_size p < p_elements p * p_size p" using assms(3) by (simp add: slot_at_def)
    then show "\<exists>i < p_elements p. ptr = slot_at p i" using i by auto
  qed (auto simp: slot_at_def)
  finally show "on_grid ptr p \<longleftrightarrow> (\<exists>i < p_elements p. ptr = slot_at p i)" .
  show "x_objectIndex (slot_at p i) p = i" if "i < p_elements p"
  proof -
    have "i * p_size p < p_elements p * p_size p" using that d(9) by simp
    then have "slot_at p i < 2 ^ 32" using d(7) unfolding slot_at_def by linarith
    then have "sub32 (slot_at p i) (p_start p) = i * p_size p"
      using sub32_le [of "p_start p" "slot_at p i"] by (simp add: slot_at_def)
    moreover have "staticlog 8 = 3" using staticlog_pow2 [of 3] by simp
    ultimately show ?thesis using d(1) by (simp add: x_objectIndex_def drop_bit_nat_div)
  qed
qed

lemma slots_apart:
  assumes "part_ok p" and "i \<noteq> j" and "a < p_size p"
  shows "\<not> (slot_at p j \<le> slot_at p i + a \<and> slot_at p i + a < slot_at p j + p_size p)"
proof
  assume h: "slot_at p j \<le> slot_at p i + a \<and> slot_at p i + a < slot_at p j + p_size p"
  have "(i * p_size p + a) div p_size p = i" using assms(3) by simp
  moreover have "(i * p_size p + a) div p_size p = j"
    by (rule div_nat_eqI) (use h in \<open>auto simp: slot_at_def algebra_simps\<close>)
  ultimately show False using assms(2) by simp
qed

section \<open>Allocation\<close>

text \<open>
  What the probing loop has done when it answers: \<open>B\<close> are the corrupted slots it met, which stay
  allocated for good.
\<close>

definition alloc_done :: "nat set \<Rightarrow> partition \<Rightarrow> runtime \<Rightarrow> wmem \<Rightarrow> nat \<Rightarrow> alloc_answer \<Rightarrow> partition \<Rightarrow> runtime \<Rightarrow> wmem \<Rightarrow> bool" where
  "alloc_done B p g m c ans p' g' m' \<longleftrightarrow> part_ok p' \<and> p_size p' = p_size p \<and> p_start p' = p_start p
     \<and> p_elements p' = p_elements p \<and> p_threshold p' = p_threshold p \<and> p_initialized p' = p_initialized p \<and> sentinel g' = sentinel g
     \<and> finite B \<and> B \<subseteq> {..<p_elements p} - xb_bits (p_allocated p) \<and> (\<forall>j \<in> B. corrupted p g m j)
     \<and> (case ans of
          Object a \<Rightarrow> (\<exists>i < p_elements p. a = slot_at p i \<and> i \<notin> xb_bits (p_allocated p) \<union> B \<and> \<not> corrupted p g m i
            \<and> xb_bits (p_allocated p') = insert i (xb_bits (p_allocated p) \<union> B) \<and> xb_bits (p_hasData p') = insert i (xb_bits (p_hasData p))
            \<and> p_requested p' = p_requested p + int (card B) + 1 \<and> p_requested p' \<le> p_threshold p
            \<and> m' = x_fill a (p_size p) 0 m \<and> md_getObjectID i (p_meta p') = global_ct g \<and> md_getAllocCallsite i (p_meta p') = c)
        | Failed \<Rightarrow> xb_bits (p_allocated p') = xb_bits (p_allocated p) \<union> B \<and> xb_bits (p_hasData p') = xb_bits (p_hasData p) \<and> m' = m
            \<and> p_requested p' = p_requested p + int (card B) \<and> p_threshold p \<le> p_requested p'
        | Died \<Rightarrow> B \<noteq> {} \<and> death_time g = 0 \<and> \<not> dh_replicated g)"

text \<open>One probe, as a step of a deterministic machine.\<close>

definition probe_index :: "partition \<Rightarrow> runtime \<Rightarrow> nat" where
  "probe_index p g = unat (fst (marsaglia_next (rt_rng g)) AND p_mask p)"

definition probed :: "runtime \<Rightarrow> runtime" where
  "probed g = g\<lparr>rt_rng := snd (marsaglia_next (rt_rng g))\<rparr>"

definition take_slot :: "nat \<Rightarrow> partition \<Rightarrow> partition" where
  "take_slot i p = p\<lparr>p_allocated := snd (xb_tryToSet i (p_allocated p)), p_requested := p_requested p + 1\<rparr>"

lemma take_slot_ok:
  assumes "part_ok p" and "i < p_elements p"
  shows "part_ok (take_slot i p)" and "xb_bits (p_allocated (take_slot i p)) = insert i (xb_bits (p_allocated p))"
  using part_okI [OF assms(1), of "take_slot i p"] part_okD [OF assms(1)] assms(2)
  by (simp_all add: take_slot_def xb_tryToSet_spec)

text \<open>The loop body with the rest of the loop as an argument.\<close>

definition probe_body :: "(nat \<Rightarrow> partition \<times> runtime \<times> wmem \<Rightarrow> (alloc_answer \<times> partition \<times> runtime \<times> wmem) option) \<Rightarrow> nat
    \<Rightarrow> partition \<times> runtime \<times> wmem \<Rightarrow> (alloc_answer \<times> partition \<times> runtime \<times> wmem) option" where
  "probe_body f callsite s =
     (let (p, g, m) = s
      in if p_requested p \<ge> p_threshold p then Some (Failed, s)
         else let (rng, r) = marsaglia_next (rt_rng g); g = g\<lparr>rt_rng := r\<rparr>;
                  objectIndex = unat (rng AND p_mask p);
                  ptr = p_start p + objectIndex * p_size p;
                  (success, b) = xb_tryToSet objectIndex (p_allocated p); p = p\<lparr>p_allocated := b\<rparr>
              in if success
                 then let p = p\<lparr>p_requested := p_requested p + 1\<rparr>
                      in if \<not> xb_isSet objectIndex (p_hasData p) \<and> x_checkNot ptr (p_size p) (sentinel g) m
                         then let (died, g) = diefast_error g
                              in if died then Some (Died, p, g, m) else f callsite (p, g, m)
                         else Some (Object ptr,
                                p\<lparr>p_hasData := snd (xb_tryToSet objectIndex (p_hasData p)),
                                  p_meta := allocEvent objectIndex callsite (global_ct g) (p_meta p)\<rparr>,
                                g, x_fill ptr (p_size p) 0 m)
                 else f callsite (p, g, m))"

lemma alloc_probe_body: "alloc_probe c s = probe_body alloc_probe c s"
  unfolding probe_body_def by (rule alloc_probe.simps)

lemma probe_step:
  fixes p :: partition and g :: runtime
  assumes "part_ok p" and "p_requested p < p_threshold p"
  defines "i \<equiv> probe_index p g"
  shows "i < p_elements p" and "i \<in> xb_bits (p_allocated p) \<Longrightarrow> \<exists>q. part_ok q \<and> xb_bits (p_allocated q) = xb_bits (p_allocated p)
      \<and> (\<exists>b. q = p\<lparr>p_allocated := b\<rparr>) \<and> probe_body f c (p, g, m) = f c (q, probed g, m)"
    and "i \<notin> xb_bits (p_allocated p) \<Longrightarrow> corrupted p g m i \<Longrightarrow> death_time g = 0 \<and> \<not> dh_replicated g \<Longrightarrow>
      probe_body f c (p, g, m) = Some (Died, take_slot i p, (probed g)\<lparr>bad_replica := True\<rparr>, m)"
    and "i \<notin> xb_bits (p_allocated p) \<Longrightarrow> corrupted p g m i \<Longrightarrow> \<not> (death_time g = 0 \<and> \<not> dh_replicated g) \<Longrightarrow>
      probe_body f c (p, g, m) = f c (take_slot i p, (probed g)\<lparr>bad_replica := True\<rparr>, m)"
    and "i \<notin> xb_bits (p_allocated p) \<Longrightarrow> \<not> corrupted p g m i \<Longrightarrow> probe_body f c (p, g, m) =
      Some (Object (slot_at p i), (take_slot i p)\<lparr>p_hasData := snd (xb_tryToSet i (p_hasData p)),
        p_meta := allocEvent i c (global_ct g) (p_meta p)\<rparr>, probed g, x_fill (slot_at p i) (p_size p) 0 m)"
proof -
  note d = part_okD [OF assms(1)]
  show i: "i < p_elements p" unfolding i_def probe_index_def by (rule part_index [OF assms(1)])
  have set: "fst (xb_tryToSet i (p_allocated p)) \<longleftrightarrow> i \<notin> xb_bits (p_allocated p)" using d i by (simp add: xb_tryToSet_spec)
  have has: "xb_isSet i (p_hasData p) \<longleftrightarrow> i \<in> xb_bits (p_hasData p)" using d i by (simp add: xb_isSet_spec)
  obtain r rng where r: "marsaglia_next (rt_rng g) = (r, rng)" by (metis surj_pair)
  obtain k b where b: "xb_tryToSet i (p_allocated p) = (k, b)" by (metis surj_pair)
  have ri: "unat (r AND p_mask p) = i" by (simp add: i_def probe_index_def r)
  have pg: "probed g = g\<lparr>rt_rng := rng\<rparr>" by (simp add: probed_def r)
  have ts: "take_slot i p = p\<lparr>p_allocated := b, p_requested := p_requested p + 1\<rparr>" by (simp add: take_slot_def b)
  have go: "probe_body f c (p, g, m) = (if k
      then if \<not> xb_isSet i (p_hasData p) \<and> x_checkNot (slot_at p i) (p_size p) (sentinel g) m
        then let (died, g) = diefast_error (probed g)
             in if died then Some (Died, take_slot i p, g, m) else f c (take_slot i p, g, m)
        else Some (Object (slot_at p i), (take_slot i p)\<lparr>p_hasData := snd (xb_tryToSet i (p_hasData p)),
               p_meta := allocEvent i c (global_ct g) (p_meta p)\<rparr>, probed g, x_fill (slot_at p i) (p_size p) 0 m)
      else f c (p\<lparr>p_allocated := b\<rparr>, probed g, m))"
    using assms(2) unfolding ts by (simp add: probe_body_def r ri b pg slot_at_def Let_def)
  show "\<exists>q. part_ok q \<and> xb_bits (p_allocated q) = xb_bits (p_allocated p)
      \<and> (\<exists>b. q = p\<lparr>p_allocated := b\<rparr>) \<and> probe_body f c (p, g, m) = f c (q, probed g, m)" if "i \<in> xb_bits (p_allocated p)"
  proof -
    have "part_ok (p\<lparr>p_allocated := b\<rparr>)" "xb_bits b = xb_bits (p_allocated p)"
      using part_okI [OF assms(1), of "p\<lparr>p_allocated := b\<rparr>"] d i that b xb_tryToSet_spec [OF d(2), of i] by auto
    then show ?thesis using go set b that by (intro exI [of _ "p\<lparr>p_allocated := b\<rparr>"]) auto
  qed
  show "probe_body f c (p, g, m) = Some (Died, take_slot i p, (probed g)\<lparr>bad_replica := True\<rparr>, m)"
    if "i \<notin> xb_bits (p_allocated p)" "corrupted p g m i" "death_time g = 0 \<and> \<not> dh_replicated g"
    using go set b that has by (simp add: corrupted_def diefast_error_def pg)
  show "probe_body f c (p, g, m) = f c (take_slot i p, (probed g)\<lparr>bad_replica := True\<rparr>, m)"
    if "i \<notin> xb_bits (p_allocated p)" "corrupted p g m i" "\<not> (death_time g = 0 \<and> \<not> dh_replicated g)"
    using go set b that has by (auto simp: corrupted_def diefast_error_def pg)
  show "probe_body f c (p, g, m) = Some (Object (slot_at p i), (take_slot i p)\<lparr>p_hasData := snd (xb_tryToSet i (p_hasData p)),
        p_meta := allocEvent i c (global_ct g) (p_meta p)\<rparr>, probed g, x_fill (slot_at p i) (p_size p) 0 m)"
    if "i \<notin> xb_bits (p_allocated p)" "\<not> corrupted p g m i"
    using go set b that has by (auto simp: corrupted_def)
qed

text \<open>Slots that were corrupted stay so while the loop goes on.\<close>

lemma corrupted_take: "corrupted (take_slot i p) ((probed g)\<lparr>bad_replica := b\<rparr>) m j \<longleftrightarrow> corrupted p g m j"
  by (simp add: corrupted_def take_slot_def probed_def slot_at_def)

lemma corrupted_again: "corrupted (p\<lparr>p_allocated := b\<rparr>) (probed g) m j \<longleftrightarrow> corrupted p g m j"
  by (simp add: corrupted_def probed_def slot_at_def)

lemma alloc_done_again:
  assumes "alloc_done B (p\<lparr>p_allocated := b\<rparr>) (probed g) m c ans p' g' m'" and "xb_bits b = xb_bits (p_allocated p)"
  shows "alloc_done B p g m c ans p' g' m'"
  using assms unfolding alloc_done_def corrupted_again by (cases ans) (simp_all add: probed_def slot_at_def)

lemma alloc_done_take:
  assumes "alloc_done B (take_slot i p) ((probed g)\<lparr>bad_replica := True\<rparr>) m c ans p' g' m'" and "part_ok p"
    and "i < p_elements p" and "i \<notin> xb_bits (p_allocated p)" and "corrupted p g m i"
  shows "alloc_done (insert i B) p g m c ans p' g' m'"
proof -
  note t = take_slot_ok [OF assms(2,3)]
  have geo: "p_size (take_slot i p) = p_size p" "p_start (take_slot i p) = p_start p" "p_elements (take_slot i p) = p_elements p"
    "p_threshold (take_slot i p) = p_threshold p" "p_initialized (take_slot i p) = p_initialized p" "p_hasData (take_slot i p) = p_hasData p"
    "p_requested (take_slot i p) = p_requested p + 1" "slot_at (take_slot i p) = slot_at p" for i
    by (simp_all add: take_slot_def slot_at_def fun_eq_iff)
  have B: "finite B" "B \<subseteq> {..<p_elements p} - insert i (xb_bits (p_allocated p))" "\<forall>j \<in> B. corrupted p g m j"
    using assms(1) by (simp_all add: alloc_done_def corrupted_take geo t)
  then have "i \<notin> B" by blast
  with B(1) have c: "card (insert i B) = card B + 1" by simp
  have u: "insert i (xb_bits (p_allocated p)) \<union> B = xb_bits (p_allocated p) \<union> insert i B" by auto
  show ?thesis
    using assms(1,3-5) B unfolding alloc_done_def corrupted_take geo t(2) u c
    by (cases ans) (auto simp: probed_def)
qed

lemma alloc_done_object:
  assumes "part_ok p" and "i < p_elements p" and "i \<notin> xb_bits (p_allocated p)" and "\<not> corrupted p g m i" and "p_requested p < p_threshold p"
  shows "alloc_done {} p g m c (Object (slot_at p i)) ((take_slot i p)\<lparr>p_hasData := snd (xb_tryToSet i (p_hasData p)),
      p_meta := allocEvent i c (global_ct g) (p_meta p)\<rparr>) (probed g) (x_fill (slot_at p i) (p_size p) 0 m)"
proof -
  note d = part_okD [OF assms(1)] and t = take_slot_ok [OF assms(1,2)]
  let ?q = "(take_slot i p)\<lparr>p_hasData := snd (xb_tryToSet i (p_hasData p)), p_meta := allocEvent i c (global_ct g) (p_meta p)\<rparr>"
  have geo: "p_size ?q = p_size p" "p_start ?q = p_start p" "p_elements ?q = p_elements p" "p_threshold ?q = p_threshold p"
    "p_sizeClass ?q = p_sizeClass p" "p_initialized ?q = p_initialized p" "p_mask ?q = p_mask p" "p_requested ?q = p_requested p + 1"
    "xb_bits (p_allocated ?q) = insert i (xb_bits (p_allocated p))"
    "p_hasData ?q = snd (xb_tryToSet i (p_hasData p))" "p_meta ?q = allocEvent i c (global_ct g) (p_meta p)"
    using t by (simp_all add: take_slot_def)
  have "part_ok ?q"
    by (rule part_okI [OF assms(1)]) (use d assms(2) in \<open>simp_all add: take_slot_def allocEvent_def xb_tryToSet_spec\<close>)
  then show ?thesis
    using assms d geo by (auto simp: alloc_done_def probed_def xb_tryToSet_spec allocEvent_def md_getObjectID_def md_getAllocCallsite_def)
qed

lemma alloc_probe_done:
  assumes "alloc_probe c s = Some r"
  shows "case s of (p, g, m) \<Rightarrow> case r of (ans, p', g', m') \<Rightarrow> part_ok p \<longrightarrow> (\<exists>B. alloc_done B p g m c ans p' g' m')"
proof (rule alloc_probe.raw_induct [OF _ assms, of "\<lambda>c s r. case s of (p, g, m) \<Rightarrow> case r of (ans, p', g', m') \<Rightarrow>
    part_ok p \<longrightarrow> (\<exists>B. alloc_done B p g m c ans p' g' m')"], goal_cases)
  case (1 f c s r)
  have body: "probe_body f c s = Some r" unfolding probe_body_def by (rule 1(2))
  obtain p g m where s: "s = (p, g, m)" by (metis surj_pair)
  obtain ans p' g' m' where r: "r = (ans, p', g', m')" by (metis surj_pair)
  have IH: "\<exists>B. alloc_done B q h n c ans p' g' m'" if "f c (q, h, n) = Some r" "part_ok q" for q h n
    using 1(1) [OF that(1)] that(2) by (simp add: r)
  have "\<exists>B. alloc_done B p g m c ans p' g' m'" if ok: "part_ok p"
  proof (cases "p_threshold p \<le> p_requested p")
    case True
    then have "ans = Failed" "p' = p" "g' = g" "m' = m" using body by (simp_all add: probe_body_def s r)
    then have "alloc_done {} p g m c ans p' g' m'" using True ok by (simp add: alloc_done_def)
    then show ?thesis by blast
  next
    case False
    then have lt: "p_requested p < p_threshold p" by simp
    let ?i = "probe_index p g"
    note st = probe_step [OF ok lt, of g]
    show ?thesis
    proof (cases "?i \<in> xb_bits (p_allocated p)")
      case True
      then obtain q b where q: "part_ok q" "q = p\<lparr>p_allocated := b\<rparr>" "xb_bits (p_allocated q) = xb_bits (p_allocated p)"
        "probe_body f c (p, g, m) = f c (q, probed g, m)" using st(2) by blast
      obtain B where "alloc_done B q (probed g) m c ans p' g' m'" using IH [of q "probed g" m] q body s by auto
      then have "alloc_done B p g m c ans p' g' m'" using alloc_done_again [of B b p] q(2,3) by simp
      then show ?thesis by blast
    next
      case free: False
      show ?thesis
      proof (cases "corrupted p g m ?i")
        case True
        show ?thesis
        proof (cases "death_time g = 0 \<and> \<not> dh_replicated g")
          case dead: True
          have e: "ans = Died" "p' = take_slot ?i p" "g' = (probed g)\<lparr>bad_replica := True\<rparr>" "m' = m"
            using st(3) [OF free True dead] body by (simp_all add: s r)
          have "alloc_done {?i} p g m c ans p' g' m'"
            using take_slot_ok [OF ok st(1)] st(1) free True dead unfolding e alloc_done_def
            by (simp add: take_slot_def probed_def)
          then show ?thesis by blast
        next
          case alive: False
          have "f c (take_slot ?i p, (probed g)\<lparr>bad_replica := True\<rparr>, m) = Some r"
            using st(4) [OF free True alive] body by (simp add: s)
          from IH [OF this take_slot_ok(1) [OF ok st(1)]] alloc_done_take [OF _ ok st(1) free True] show ?thesis by blast
        qed
      next
        case False
        have e: "r = (Object (slot_at p ?i), (take_slot ?i p)\<lparr>p_hasData := snd (xb_tryToSet ?i (p_hasData p)),
            p_meta := allocEvent ?i c (global_ct g) (p_meta p)\<rparr>, probed g, x_fill (slot_at p ?i) (p_size p) 0 m)"
          using st(5) [OF free False] body by (simp add: s)
        show ?thesis
          using alloc_done_object [OF ok st(1) free False lt] e r by blast
      qed
    qed
  qed
  then show ?case by (simp add: s r)
qed

text \<open>The loop ends as soon as a draw hits a slot that is free and intact.\<close>

definition later_rng :: "nat \<Rightarrow> marsaglia \<Rightarrow> marsaglia" where
  "later_rng n r = ((\<lambda>r. snd (marsaglia_next r)) ^^ n) r"

lemma later_rng_simps: "later_rng 0 r = r" "later_rng (Suc n) r = later_rng n (snd (marsaglia_next r))"
  by (simp_all add: later_rng_def funpow_Suc_right del: funpow.simps(2))

definition good_draw :: "nat \<Rightarrow> partition \<Rightarrow> runtime \<Rightarrow> wmem \<Rightarrow> bool" where
  "good_draw n p g m \<longleftrightarrow> (let i = unat (fst (marsaglia_next (later_rng n (rt_rng g))) AND p_mask p)
     in i \<notin> xb_bits (p_allocated p) \<and> \<not> corrupted p g m i)"

lemma good_draw_first: "good_draw 0 p g m \<longleftrightarrow> probe_index p g \<notin> xb_bits (p_allocated p) \<and> \<not> corrupted p g m (probe_index p g)"
  by (simp add: good_draw_def later_rng_simps probe_index_def Let_def)

lemma good_draw_again: "good_draw (Suc n) p g m \<Longrightarrow> xb_bits b = xb_bits (p_allocated p) \<Longrightarrow> good_draw n (p\<lparr>p_allocated := b\<rparr>) (probed g) m"
  by (simp add: good_draw_def later_rng_simps corrupted_again Let_def) (simp add: probed_def)

lemma good_draw_take:
  assumes "good_draw (Suc n) p g m" and "part_ok p" and "i < p_elements p" and "corrupted p g m i"
  shows "good_draw n (take_slot i p) ((probed g)\<lparr>bad_replica := True\<rparr>) m"
proof -
  have "rt_rng ((probed g)\<lparr>bad_replica := True\<rparr>) = snd (marsaglia_next (rt_rng g))" "p_mask (take_slot i p) = p_mask p"
    by (simp_all add: probed_def take_slot_def)
  with assms(1,4) take_slot_ok(2) [OF assms(2,3)] show ?thesis
    unfolding good_draw_def later_rng_simps corrupted_take Let_def by auto
qed

lemma alloc_probe_returns:
  assumes "part_ok p" and "good_draw n p g m"
  shows "\<exists>r. alloc_probe c (p, g, m) = Some r"
  using assms
proof (induction n arbitrary: p g)
  case 0
  show ?case
  proof (cases "p_threshold p \<le> p_requested p")
    case True
    then show ?thesis by (subst alloc_probe.simps) simp
  next
    case False
    then have "p_requested p < p_threshold p" by simp
    from probe_step(5) [OF "0.prems"(1) this] "0.prems"(2) show ?thesis
      unfolding good_draw_first alloc_probe_body [of c] by blast
  qed
next
  case (Suc n)
  show ?case
  proof (cases "p_threshold p \<le> p_requested p")
    case True
    then show ?thesis by (subst alloc_probe.simps) simp
  next
    case False
    then have lt: "p_requested p < p_threshold p" by simp
    let ?i = "probe_index p g"
    note st = probe_step [OF Suc.prems(1) lt, of g]
    show ?thesis
    proof (cases "?i \<in> xb_bits (p_allocated p)")
      case True
      then obtain q b where q: "part_ok q" "q = p\<lparr>p_allocated := b\<rparr>" "xb_bits (p_allocated q) = xb_bits (p_allocated p)"
        "probe_body alloc_probe c (p, g, m) = alloc_probe c (q, probed g, m)" using st(2) by blast
      have "good_draw n q (probed g) m" using good_draw_again [OF Suc.prems(2), of b] q(2,3) by simp
      from Suc.IH [OF q(1) this] q(4) show ?thesis unfolding alloc_probe_body [of c "(p, g, m)"] by simp
    next
      case free: False
      show ?thesis
      proof (cases "corrupted p g m ?i")
        case True
        note go = Suc.IH [OF take_slot_ok(1) [OF Suc.prems(1) st(1)] good_draw_take [OF Suc.prems(2,1) st(1) True]]
        show ?thesis
          using st(3,4) [OF free True, where f = alloc_probe and c = c] go unfolding alloc_probe_body [of c "(p, g, m)"]
          by (cases "death_time g = 0 \<and> \<not> dh_replicated g") auto
      next
        case False
        from st(5) [OF free False] show ?thesis unfolding alloc_probe_body [of c] by blast
      qed
    qed
  qed
qed

section \<open>Frees\<close>

lemma fill_elsewhere:
  assumes "part_ok p" and "i \<noteq> j"
  shows "x_checkNot (slot_at p j) (p_size p) v (x_fill (slot_at p i) (p_size p) w m) = x_checkNot (slot_at p j) (p_size p) v m"
proof -
  have "x_fill (slot_at p i) (p_size p) w m (slot_at p j + 4 * k) = m (slot_at p j + 4 * k)" if "k < p_size p div 4" for k
  proof -
    have "4 * k < p_size p" using that by (simp add: less_mult_imp_div_less div_less_iff_less_mult mult.commute)
    then have "\<not> (slot_at p i \<le> slot_at p j + 4 * k \<and> slot_at p j + 4 * k < slot_at p i + p_size p)"
      using slots_apart [OF assms(1), of j i] assms(2) by blast
    moreover have "8 * (p_size p div 8) = p_size p" using part_okD(8) [OF assms(1)] by simp
    ultimately show ?thesis by (auto simp: x_fill_eq)
  qed
  then show ?thesis by (auto simp: x_checkNot_iff)
qed

text \<open>The state after the first half of \<open>forceFreeIndex\<close>, before the overflow check.\<close>

definition released :: "nat \<Rightarrow> nat \<Rightarrow> partition \<times> runtime \<times> wmem \<Rightarrow> partition \<times> runtime \<times> wmem" where
  "released callsite i s =
     (let (p, g, m) = s;
          p = p\<lparr>p_requested := p_requested p - 1, p_allocated := xb_reset i (p_allocated p),
                p_meta := freeEvent i callsite (global_ct g) (p_meta p)\<rparr>
      in if bad_replica g then (p, g, m)
         else let (rng, r) = marsaglia_next (rt_rng g); g = g\<lparr>rt_rng := r\<rparr>
              in if rng mod 2 = 0
                 then (p\<lparr>p_hasData := xb_reset i (p_hasData p)\<rparr>, g, x_fill (slot_at p i) (p_size p) (sentinel g) m)
                 else (p, g, m))"

lemma forceFreeIndex_released:
  "forceFreeIndex c (slot_at p i) i (p, g, m) = checkOverflow (slot_at p i) i (released c i (p, g, m))"
  by (simp add: forceFreeIndex_def released_def slot_at_def Let_def split: prod.splits)

lemma released_spec:
  assumes "part_ok p" and "i < p_elements p" and "released c i (p, g, m) = (q, h, n)"
  shows "part_ok q" and "p_size q = p_size p" and "p_elements q = p_elements p" and "slot_at q = slot_at p"
    and "p_requested q = p_requested p - 1" and "xb_bits (p_allocated q) = xb_bits (p_allocated p) - {i}"
    and "sentinel h = sentinel g" "death_time h = death_time g" "dh_replicated h = dh_replicated g" "bad_replica h = bad_replica g"
    and "xb_bits (p_hasData q) = xb_bits (p_hasData p) \<and> n = m
      \<or> xb_bits (p_hasData q) = xb_bits (p_hasData p) - {i} \<and> n = x_fill (slot_at p i) (p_size p) (sentinel g) m"
proof -
  note d = part_okD [OF assms(1)]
  have q: "q = p\<lparr>p_requested := p_requested p - 1, p_allocated := xb_reset i (p_allocated p),
        p_meta := freeEvent i c (global_ct g) (p_meta p), p_hasData := p_hasData q\<rparr>"
    and has: "p_hasData q = p_hasData p \<and> n = m \<or>
      p_hasData q = xb_reset i (p_hasData p) \<and> n = x_fill (slot_at p i) (p_size p) (sentinel g) m"
    and h: "sentinel h = sentinel g" "death_time h = death_time g" "dh_replicated h = dh_replicated g" "bad_replica h = bad_replica g"
    using assms(3) by (auto simp: released_def slot_at_def Let_def split: prod.splits if_splits)
  have hd: "xb_inv (p_hasData q)" "xb_elements (p_hasData q) = p_elements p"
    using has d assms(2) by (auto simp: xb_reset_spec)
  show "part_ok q"
    by (rule part_okI [OF assms(1)]; (subst q)?) (use hd d assms(2) in \<open>simp_all add: xb_reset_spec freeEvent_def\<close>)
  show "p_size q = p_size p" "p_elements q = p_elements p" "slot_at q = slot_at p" "p_requested q = p_requested p - 1"
    by (subst q, simp add: slot_at_def fun_eq_iff)+
  show "xb_bits (p_allocated q) = xb_bits (p_allocated p) - {i}" using d assms(2) by (subst q) (simp add: xb_reset_spec)
  show "xb_bits (p_hasData q) = xb_bits (p_hasData p) \<and> n = m
      \<or> xb_bits (p_hasData q) = xb_bits (p_hasData p) - {i} \<and> n = x_fill (slot_at p i) (p_size p) (sentinel g) m"
    using has d assms(2) by (auto simp: xb_reset_spec)
qed (use assms(3) in \<open>auto simp: released_def Let_def split: prod.splits if_splits\<close>)

lemma freeObject_spec:
  assumes "part_ok p" and "i < p_elements p" and "freeObject c (slot_at p i) (p, g, m) = (died, p', g', m')"
  defines "over \<equiv> i + 1 < p_elements p \<and> corrupted p g m (i + 1)"
  shows "part_ok p' \<and> p_requested p' = p_requested p - 1
    \<and> xb_bits (p_allocated p') = xb_bits (p_allocated p) - {i} \<union> (if over then {i + 1} else {})
    \<and> died = (over \<and> death_time g = 0 \<and> \<not> dh_replicated g) \<and> bad_replica g' = (bad_replica g \<or> over)
    \<and> (xb_bits (p_hasData p') = xb_bits (p_hasData p) \<and> m' = m
      \<or> xb_bits (p_hasData p') = xb_bits (p_hasData p) - {i} \<and> m' = x_fill (slot_at p i) (p_size p) (sentinel g) m)"
proof -
  have inside: "p_start p \<le> slot_at p i" "slot_at p i < p_start p + p_elements p * p_size p"
    using assms(2) part_okD(9) [OF assms(1)] by (simp_all add: slot_at_def)
  have "on_grid (slot_at p i) p" "x_objectIndex (slot_at p i) p = i"
    using on_grid_iff [OF assms(1) inside] assms(2) by blast+
  then have run: "checkOverflow (slot_at p i) i (released c i (p, g, m)) = (died, p', g', m')"
    using assms(3) by (simp add: freeObject_def forceFreeIndex_released)
  obtain q h n where r: "released c i (p, g, m) = (q, h, n)" by (metis surj_pair)
  note s = released_spec [OF assms(1,2) r]
  have next_slot: "slot_at p i + p_size q = slot_at p (i + 1)" by (simp add: slot_at_def s(2))
  have same: "i + 1 \<in> xb_bits (p_hasData q) \<longleftrightarrow> i + 1 \<in> xb_bits (p_hasData p)"
    "x_checkNot (slot_at p (i + 1)) (p_size p) (sentinel g) n = x_checkNot (slot_at p (i + 1)) (p_size p) (sentinel g) m"
    using s(11) fill_elsewhere [OF assms(1), of i "i + 1"] by auto
  have test: "(int i < int (p_elements q) - 1 \<and> \<not> xb_isSet (i + 1) (p_hasData q)
      \<and> x_checkNot (slot_at p i + p_size q) (p_size q) (sentinel h) n) \<longleftrightarrow> over"
  proof (cases "i + 1 < p_elements p")
    case True
    then have "xb_isSet (i + 1) (p_hasData q) \<longleftrightarrow> i + 1 \<in> xb_bits (p_hasData q)"
      using part_okD [OF s(1)] s(3) by (simp add: xb_isSet_spec)
    with True same next_slot s(2,3,7) show ?thesis by (auto simp: over_def corrupted_def)
  next
    case False
    then show ?thesis using s(3) by (auto simp: over_def)
  qed
  show ?thesis
  proof (cases over)
    case True
    then have i: "i + 1 < p_elements q" using s(3) by (simp add: over_def)
    have e: "p' = q\<lparr>p_allocated := snd (xb_tryToSet (i + 1) (p_allocated q))\<rparr>" "g' = h\<lparr>bad_replica := True\<rparr>" "m' = n"
      "died = (death_time g = 0 \<and> \<not> dh_replicated g)"
      using run test True s(8,9) unfolding r by (simp_all add: checkOverflow_def diefast_error_def)
    have "part_ok p'" "xb_bits (p_allocated p') = insert (i + 1) (xb_bits (p_allocated q))"
      using part_okI [OF s(1), of p'] part_okD [OF s(1)] i unfolding e by (simp_all add: xb_tryToSet_spec)
    then show ?thesis using s(5,6,11) True unfolding e by auto
  next
    case False
    then have "(died, p', g', m') = (False, q, h, n)" using run test unfolding r by (auto simp: checkOverflow_def)
    then show ?thesis using s False by simp
  qed
qed

lemma freeObject_off_grid:
  assumes "part_ok p" and "p_start p \<le> a" and "a < p_start p + p_elements p * p_size p" and "\<And>i. i < p_elements p \<Longrightarrow> a \<noteq> slot_at p i"
  shows "freeObject c a (p, g, m) = (False, p, g, m)"
  using on_grid_iff(1) [OF assms(1-3)] assms(4) by (auto simp: freeObject_def)

section \<open>A fresh partition\<close>

lemma initialize_ok:
  assumes "sz = 2 ^ (i + 3)" and "len = 2 ^ k * sz" and "5 \<le> k" and "k < 32" and "start + len < 2 ^ 32"
    and "length buf1 = 2 ^ k div 32" and "length buf2 = 2 ^ k div 32" and "md_elements (p_meta p) = 0"
    and "initialize False i sz threshold start len buf1 buf2 (p, g, m) = (p', g', m')"
  shows "part_ok p' \<and> p_elements p' = 2 ^ k \<and> p_start p' = start \<and> p_size p' = sz \<and> p_threshold p' = threshold
    \<and> p_requested p' = 0 \<and> xb_bits (p_allocated p') = {} \<and> xb_bits (p_hasData p') = {} \<and> g' = g
    \<and> (\<forall>j < 2 ^ k. \<not> corrupted p' g' m' j)"
proof -
  have n: "len div sz = 2 ^ k" using assms(1,2) by simp
  have dvd: "32 dvd (2::nat) ^ k" using assms(3) le_imp_power_dvd [of 5 k 2] by simp
  note x = xb_reserve_spec [OF dvd assms(6)] and y = xb_reserve_spec [OF dvd assms(7)]
  have e: "p' = p\<lparr>p_threshold := threshold, p_requested := 0, p_elements := 2 ^ k, p_elementsShift := log2 (2 ^ k),
      p_mask := word_of_nat (2 ^ k) - 1, p_size := sz, p_sizeClass := i, p_start := start,
      p_allocated := xb_clear (xb_reserve (2 ^ k) buf1 (p_allocated p)),
      p_hasData := xb_clear (xb_reserve (2 ^ k) buf2 (p_hasData p)),
      p_meta := elementsChanged (2 ^ k) (p_meta p), p_initialized := True\<rparr>"
    "g' = g" "m' = x_fill start (2 ^ k * sz) (sentinel g) m"
    using assms(9) n by (auto simp: initialize_def initializePartition_def Let_def)
  have "length (md_slots (p_meta p')) = 2 ^ k" using assms(8) by (simp add: e elementsChanged_def)
  then have ok: "part_ok p'" using x y assms(1-5) by (auto simp: part_ok_def e)
  have "\<not> x_checkNot (slot_at p' j) sz (sentinel g) m'" if j: "j < 2 ^ k" for j
  proof -
    have "m' (start + j * sz + 4 * l) = sentinel g" if "l < sz div 4" for l
    proof -
      have "4 * l < sz" using that by (simp add: less_mult_imp_div_less div_less_iff_less_mult mult.commute)
      moreover have "Suc j * sz \<le> 2 ^ k * sz" using j by (intro mult_le_mono1) simp
      ultimately have "start + j * sz + 4 * l < start + 2 ^ k * sz" by simp
      moreover have "8 * (2 ^ k * sz div 8) = 2 ^ k * sz" "4 dvd j * sz" using assms(1) by (simp_all add: power_add)
      ultimately show ?thesis by (simp add: e x_fill_eq dvd_add)
    qed
    then show ?thesis by (simp add: x_checkNot_iff slot_at_def e)
  qed
  then show ?thesis using ok x y by (auto simp: e corrupted_def)
qed

section \<open>Properties\<close>

text \<open>For the witnesses: 32 objects of 8 bytes at address 4096.\<close>

definition demo_runtime :: runtime where
  "demo_runtime = \<lparr>rt_rng = Marsaglia 1 1, sentinel = 7, global_ct = 1, death_time = 0, bad_replica = False, dh_replicated = False\<rparr>"

definition demo_partition :: "partition \<times> runtime \<times> wmem" where
  "demo_partition = initialize False 0 8 16 4096 256 [0] [0] (PartitionInfo, demo_runtime, \<lambda>_. 0)"

lemma demo_partition:
  obtains p m where "demo_partition = (p, demo_runtime, m)" "part_ok p" "p_initialized p" "xb_bits (p_allocated p) = {}"
    "p_elements p = 32" "p_requested p = 0" "p_threshold p = 16" "\<And>j. j < 32 \<Longrightarrow> \<not> corrupted p demo_runtime m j"
proof -
  obtain p g m where e: "demo_partition = (p, g, m)" by (metis surj_pair)
  then have run: "initialize False 0 8 16 4096 256 [0] [0] (PartitionInfo, demo_runtime, \<lambda>_. 0) = (p, g, m)" by (simp add: demo_partition_def)
  then have "p_initialized p" by (auto simp: initialize_def initializePartition_def Let_def)
  have ok: "part_ok p \<and> p_elements p = 32 \<and> p_threshold p = 16 \<and> p_requested p = 0 \<and> xb_bits (p_allocated p) = {} \<and> g = demo_runtime
      \<and> (\<forall>j < 32. \<not> corrupted p g m j)"
    using initialize_ok [OF _ _ _ _ _ _ _ _ run, of 5] by (auto simp: PartitionInfo_def)
  show thesis by (rule that [of p m]) (use ok e \<open>p_initialized p\<close> in \<open>auto\<close>)
qed

text \<open>C19: Allocation in a partition of the Exterminator heap.  As soon as the random numbers hit a free slot
  that still holds the sentinel, the loop ends.  Then an object is a slot of the partition that was free, is now
  marked, holds data, is filled with zeroes and carries the time and call site of the allocation; it is given
  out only below the threshold; every corrupted slot met on the way stays marked and is counted; and the
  program aborts only for a corrupted slot.\<close>

theorem xpartition_alloc:
  assumes "part_ok p" and "p_initialized p" and "good_draw n p g m"
  shows "\<exists>ans p' g' m' B. allocObject replicated c (p, g, m) = Some (ans, p', g', m') \<and> alloc_done B p g m c ans p' g' m'"
proof -
  obtain ans p' g' m' where run: "alloc_probe c (p, g, m) = Some (ans, p', g', m')"
    using alloc_probe_returns [OF assms(1,3)] by (metis surj_pair)
  from alloc_probe_done [OF run] assms(1,2) run show ?thesis by (auto simp: allocObject_def)
qed

theorem xpartition_alloc_witness:
  "\<exists>p m a p' g' m'. demo_partition = (p, demo_runtime, m) \<and> allocObject False 5 (p, demo_runtime, m) = Some (Object a, p', g', m')
     \<and> (\<exists>i < 32. a = slot_at p i) \<and> p_requested p' = 1"
proof (rule demo_partition)
  fix p m
  assume p: "demo_partition = (p, demo_runtime, m)" "part_ok p" "p_initialized p" "xb_bits (p_allocated p) = {}"
    "p_elements p = 32" "p_requested p = 0" "p_threshold p = 16" "\<And>j. j < 32 \<Longrightarrow> \<not> corrupted p demo_runtime m j"
  have "good_draw 0 p demo_runtime m"
    using part_index [OF p(2)] p(4,5,8) by (simp add: good_draw_first probe_index_def)
  from xpartition_alloc [OF p(2,3) this, of False 5] obtain ans p' g' m' B
    where run: "allocObject False 5 (p, demo_runtime, m) = Some (ans, p', g', m')" and al: "alloc_done B p demo_runtime m 5 ans p' g' m'"
    by blast
  have "B = {}" using al p(5,8) by (auto simp: alloc_done_def)
  with al p(5-7) obtain a where "ans = Object a" "\<exists>i < 32. a = slot_at p i" "p_requested p' = 1"
    by (cases ans) (auto simp: alloc_done_def)
  with run p(1) show ?thesis by blast
qed

text \<open>C20: \<open>free\<close> in a partition: the bit of the slot is cleared, and the following slot is reported and marked
  exactly when it is empty and no longer holds the sentinel, which aborts the program only outside replicas
  and without a death time.  The slot keeps its data or is filled with the sentinel; an address that is not the
  start of a slot is ignored.  The number of requested objects is decremented even when the slot was not
  allocated, so that a second \<open>free\<close> lets the partition grow over its threshold.\<close>

theorem xpartition_free:
  assumes "part_ok p" and "p_start p \<le> a" and "a < p_start p + p_elements p * p_size p"
    and "freeObject c a (p, g, m) = (died, p', g', m')"
  shows "(\<exists>i < p_elements p. a = slot_at p i \<and> part_ok p' \<and> p_requested p' = p_requested p - 1
      \<and> (let over = i + 1 < p_elements p \<and> corrupted p g m (i + 1)
         in xb_bits (p_allocated p') = xb_bits (p_allocated p) - {i} \<union> (if over then {i + 1} else {})
          \<and> died = (over \<and> death_time g = 0 \<and> \<not> dh_replicated g) \<and> bad_replica g' = (bad_replica g \<or> over))
      \<and> (xb_bits (p_hasData p') = xb_bits (p_hasData p) \<and> m' = m
        \<or> xb_bits (p_hasData p') = xb_bits (p_hasData p) - {i} \<and> m' = x_fill a (p_size p) (sentinel g) m))
    \<or> (\<forall>i < p_elements p. a \<noteq> slot_at p i) \<and> \<not> died \<and> p' = p \<and> g' = g \<and> m' = m"
proof (cases "\<exists>i < p_elements p. a = slot_at p i")
  case True
  then obtain i where i: "i < p_elements p" "a = slot_at p i" by blast
  note s = freeObject_spec [OF assms(1) i(1) assms(4) [unfolded i(2)]]
  show ?thesis unfolding i(2) Let_def by (intro disjI1 exI [of _ i]) (use s i(1) in simp)
next
  case False
  with freeObject_off_grid [OF assms(1-3)] assms(4) show ?thesis by auto
qed

theorem xpartition_free_witness:
  "\<exists>p m died p' g' m'. demo_partition = (p, demo_runtime, m) \<and> freeObject 5 (slot_at p 3) (p, demo_runtime, m) = (died, p', g', m')
     \<and> \<not> died \<and> p_requested p' = - 1"
proof (rule demo_partition)
  fix p m
  assume p: "demo_partition = (p, demo_runtime, m)" "part_ok p" "p_initialized p" "xb_bits (p_allocated p) = {}"
    "p_elements p = 32" "p_requested p = 0" "p_threshold p = 16" "\<And>j. j < 32 \<Longrightarrow> \<not> corrupted p demo_runtime m j"
  obtain died p' g' m' where run: "freeObject 5 (slot_at p 3) (p, demo_runtime, m) = (died, p', g', m')" by (metis surj_pair)
  have in1: "p_start p \<le> slot_at p 3" "slot_at p 3 < p_start p + p_elements p * p_size p"
    using part_okD(9) [OF p(2)] p(5) by (simp_all add: slot_at_def)
  have inj: "slot_at p 3 = slot_at p i \<Longrightarrow> i = 3" for i using part_okD(9) [OF p(2)] by (simp add: slot_at_def)
  have "p_requested p' = - 1 \<and> \<not> died"
    using xpartition_free [OF p(2) in1 run] p(5,6,8) inj by (auto simp: Let_def dest: spec [of _ 3])
  with run p(1) show ?thesis by blast
qed

end
