(* ===== verification/ExtHeap.thy ===== *)
theory ExtHeap
  imports ExtPartition
begin

text \<open>
  The heap of the Exterminator library (\<open>src/exterminator/src/diehard.h\<close>): twelve partitions of equal
  size, larger objects mapped directly and found through a table indexed by address.  The address
  \<open>mmap\<close> returns is an argument, \<open>munmap\<close> is recorded.  The locks and the guard pages are left out.
\<close>

section \<open>State and size classes\<close>

definition NumberOfClasses :: nat where "NumberOfClasses = 12"
definition MaxObjectSize :: nat where "MaxObjectSize = 16 * 1024"

record xh_params =
  MaxHeapSize :: nat
  LoadNumerator :: nat
  LoadDenominator :: nat

definition PartitionSize :: "xh_params \<Rightarrow> nat" where
  "PartitionSize P = MaxHeapSize P div NumberOfClasses"

text \<open>\<open>values\<close> and \<open>addrs\<close> are the arrays of \<open>LargeObjectManager\<close>.\<close>

record large_objects =
  lo_values :: "nat \<Rightarrow> nat"
  lo_addrs :: "nat \<Rightarrow> addr"
  lo_ct :: nat

record xheap =
  xh_heap :: addr
  xh_pInfo :: "partition list"
  xh_size :: "nat list"
  xh_large :: large_objects
  xh_unmapped :: "(addr \<times> nat) list"

definition sizeClass :: "nat \<Rightarrow> nat" where
  "sizeClass sz = log2 sz - staticlog 8"

definition classToSize :: "nat \<Rightarrow> nat" where
  "classToSize index = push_bit (index + staticlog 8) 1"

definition getSizeClass :: "xh_params \<Rightarrow> addr \<Rightarrow> xheap \<Rightarrow> nat" where
  "getSizeClass P ptr h = drop_bit (staticlog (int (PartitionSize P))) (sub32 ptr (xh_heap h))"

definition isOnHeap :: "xh_params \<Rightarrow> addr \<Rightarrow> xheap \<Rightarrow> bool" where
  "isOnHeap P ptr h \<longleftrightarrow> xh_heap h \<le> ptr \<and> ptr < xh_heap h + MaxHeapSize P"

section \<open>Large objects\<close>

definition lo_getIndex :: "addr \<Rightarrow> nat" where
  "lo_getIndex ptr = drop_bit (staticlog (int MaxObjectSize)) ptr"

definition lo_get :: "addr \<Rightarrow> large_objects \<Rightarrow> nat" where
  "lo_get ptr l = lo_values l (lo_getIndex ptr)"

definition lo_set :: "addr \<Rightarrow> nat \<Rightarrow> large_objects \<Rightarrow> large_objects" where
  "lo_set ptr sz l =
     (let l = (if lo_values l (lo_getIndex ptr) = 0 then l\<lparr>lo_ct := lo_ct l + 1\<rparr> else l)
      in l\<lparr>lo_values := (lo_values l)(lo_getIndex ptr := sz), lo_addrs := (lo_addrs l)(lo_getIndex ptr := ptr)\<rparr>)"

definition lo_clear :: "addr \<Rightarrow> large_objects \<Rightarrow> large_objects" where
  "lo_clear ptr l =
     (let l = (if lo_values l (lo_getIndex ptr) \<noteq> 0 then l\<lparr>lo_ct := lo_ct l - 1\<rparr> else l)
      in l\<lparr>lo_values := (lo_values l)(lo_getIndex ptr := 0), lo_addrs := (lo_addrs l)(lo_getIndex ptr := 0)\<rparr>)"

text \<open>The entries \<open>dump_los\<close> writes, after their number.\<close>

definition dump_los :: "wmem \<Rightarrow> large_objects \<Rightarrow> nat \<times> (addr \<times> nat \<times> u32 list) list" where
  "dump_los m l = (lo_ct l, map (\<lambda>i. (lo_addrs l i, lo_values l i, map (\<lambda>j. m (lo_addrs l i + 4 * j)) [0..<lo_values l i div 4]))
     (filter (\<lambda>i. lo_values l i \<noteq> 0) [0..<push_bit (32 - staticlog (int MaxObjectSize)) 1]))"

definition x_memset :: "addr \<Rightarrow> nat \<Rightarrow> wmem \<Rightarrow> wmem" where
  "x_memset ptr sz m = (\<lambda>a. if ptr \<le> a \<and> a < ptr + sz then 0 else m a)"

definition allocateDirect :: "bool \<Rightarrow> addr \<Rightarrow> nat \<Rightarrow> xheap \<times> runtime \<times> wmem \<Rightarrow> addr \<times> xheap \<times> runtime \<times> wmem" where
  "allocateDirect replicated os_map sz s =
     (let (h, g, m) = s; sz = (sz + 4 - 1) mod 2 ^ 32 div 4 * 4; ptr = os_map
      in if ptr \<noteq> 0
         then let h = h\<lparr>xh_large := lo_set ptr sz (xh_large h)\<rparr>
              in if replicated then let (r, m) = x_fillRandom ptr sz (rt_rng g, m) in (ptr, h, g\<lparr>rt_rng := r\<rparr>, m)
                 else (ptr, h, g, x_memset ptr sz m)
         else (ptr, h, g, m))"

definition freeDirect :: "addr \<Rightarrow> xheap \<Rightarrow> xheap" where
  "freeDirect ptr h =
     (let sz = lo_get ptr (xh_large h)
      in if sz \<noteq> 0 then h\<lparr>xh_unmapped := xh_unmapped h @ [(ptr, sz)], xh_large := lo_clear ptr (xh_large h)\<rparr> else h)"

section \<open>Operations\<close>

text \<open>\<open>(int) loadFactor / _size[i]\<close>; the load factor is exact for the fractions used.\<close>

definition load_threshold :: "xh_params \<Rightarrow> nat \<Rightarrow> int" where
  "load_threshold P sz = int (LoadNumerator P * PartitionSize P div LoadDenominator P div sz)"

text \<open>The partitions are initialized from the last to the first; \<open>bufs\<close> are the memory of their bitmaps.\<close>

fun init_partitions :: "xh_params \<Rightarrow> bool \<Rightarrow> (nat \<Rightarrow> u32 list \<times> u32 list) \<Rightarrow> nat \<Rightarrow> xheap \<times> runtime \<times> wmem
    \<Rightarrow> xheap \<times> runtime \<times> wmem" where
  "init_partitions P replicated bufs 0 s = s"
| "init_partitions P replicated bufs (Suc i) s =
     (let (h, g, m) = s;
          (p, g, m) = initialize replicated i (xh_size h ! i) (load_threshold P (xh_size h ! i))
                        (xh_heap h + i * PartitionSize P) (PartitionSize P) (fst (bufs i)) (snd (bufs i))
                        (xh_pInfo h ! i, g, m)
      in init_partitions P replicated bufs i (h\<lparr>xh_pInfo := (xh_pInfo h)[i := p]\<rparr>, g, m))"

text \<open>\<open>None\<close>: no memory for the heap, the program aborts.\<close>

definition initializeHeap :: "xh_params \<Rightarrow> bool \<Rightarrow> (nat \<Rightarrow> u32 list \<times> u32 list) \<Rightarrow> nat \<Rightarrow> xheap \<times> runtime \<times> wmem
    \<Rightarrow> (xheap \<times> runtime \<times> wmem) option" where
  "initializeHeap P replicated bufs dh_deathtime s =
     (let (h, g, m) = s;
          sizeTable = [8, 16, 32, 64, 128, 256, 512, 1024, 2048, 4096, 8192, MaxObjectSize];
          h = h\<lparr>xh_size := sizeTable\<rparr>; g = g\<lparr>sentinel := 0x9efbdbb3\<rparr>
      in if xh_heap h = 0 then None
         else let (h, g, m) = init_partitions P replicated bufs NumberOfClasses (h, g, m)
              in Some (h, g\<lparr>global_ct := 0, death_time := dh_deathtime\<rparr>, m))"

text \<open>The constructor; \<open>heap\<close> is the address of the mapping.\<close>

definition XDieHardHeap :: "xh_params \<Rightarrow> bool \<Rightarrow> addr \<Rightarrow> (nat \<Rightarrow> u32 list \<times> u32 list) \<Rightarrow> nat \<Rightarrow> runtime \<times> wmem
    \<Rightarrow> (xheap \<times> runtime \<times> wmem) option" where
  "XDieHardHeap P replicated heap bufs dh_deathtime gm =
     (let (g, m) = gm;
          h = \<lparr>xh_heap = heap, xh_pInfo = replicate NumberOfClasses PartitionInfo, xh_size = replicate NumberOfClasses 0,
               xh_large = \<lparr>lo_values = (\<lambda>_. 0), lo_addrs = (\<lambda>_. 0), lo_ct = 0\<rparr>, xh_unmapped = []\<rparr>
      in map_option (\<lambda>(h, g, m). (h, g\<lparr>bad_replica := False\<rparr>, m)) (initializeHeap P replicated bufs dh_deathtime (h, g, m)))"

text \<open>The loop over the size classes, from \<open>sc\<close> on, with the number of classes left.\<close>

fun alloc_classes :: "bool \<Rightarrow> nat \<Rightarrow> nat \<Rightarrow> nat \<Rightarrow> xheap \<times> runtime \<times> wmem
    \<Rightarrow> (alloc_answer \<times> xheap \<times> runtime \<times> wmem) option" where
  "alloc_classes replicated callsite 0 sc s = Some (Failed, s)"
| "alloc_classes replicated callsite (Suc n) sc s =
     (let (h, g, m) = s
      in case allocObject replicated callsite (xh_pInfo h ! sc, g, m) of
           None \<Rightarrow> None
         | Some (ans, p, g, m) \<Rightarrow>
             let s = (h\<lparr>xh_pInfo := (xh_pInfo h)[sc := p]\<rparr>, g, m)
             in (case ans of Failed \<Rightarrow> alloc_classes replicated callsite n (sc + 1) s | _ \<Rightarrow> Some (ans, s)))"

definition allocateObject :: "bool \<Rightarrow> addr \<Rightarrow> nat \<Rightarrow> nat \<Rightarrow> xheap \<times> runtime \<times> wmem
    \<Rightarrow> (alloc_answer \<times> xheap \<times> runtime \<times> wmem) option" where
  "allocateObject replicated os_map callsite sz s =
     (if sz > MaxObjectSize
      then let (ptr, s) = allocateDirect replicated os_map sz s in Some (if ptr = 0 then Failed else Object ptr, s)
      else let sz = (if sz < 8 then 8 else sz); sc = sizeClass sz
           in alloc_classes replicated callsite (NumberOfClasses - sc) sc s)"

text \<open>At the death time the program raises a signal whose handler exits.\<close>

definition xh_malloc :: "bool \<Rightarrow> addr \<Rightarrow> addr \<Rightarrow> nat \<Rightarrow> nat \<Rightarrow> xheap \<times> runtime \<times> wmem
    \<Rightarrow> (alloc_answer \<times> xheap \<times> runtime \<times> wmem) option" where
  "xh_malloc replicated os_map os_map' callsite sz s =
     (let (h, g, m) = s; g = g\<lparr>global_ct := (global_ct g + 1) mod 2 ^ 32\<rparr>
      in if global_ct g = death_time g then Some (Died, h, g, m)
         else case allocateObject replicated os_map callsite sz (h, g, m) of
                None \<Rightarrow> None
              | Some (Failed, s) \<Rightarrow>
                  let (ptr, s) = allocateDirect replicated os_map' sz s in Some (if ptr = 0 then Failed else Object ptr, s)
              | Some (ans, s) \<Rightarrow> Some (ans, s))"

definition xh_free :: "xh_params \<Rightarrow> nat \<Rightarrow> addr \<Rightarrow> xheap \<times> runtime \<times> wmem \<Rightarrow> bool \<times> xheap \<times> runtime \<times> wmem" where
  "xh_free P callsite ptr s =
     (let (h, g, m) = s
      in if ptr \<noteq> 0
         then if isOnHeap P ptr h
              then let sc = getSizeClass P ptr h; (died, p, g, m) = freeObject callsite ptr (xh_pInfo h ! sc, g, m)
                   in (died, h\<lparr>xh_pInfo := (xh_pInfo h)[sc := p]\<rparr>, g, m)
              else (False, freeDirect ptr h, g, m)
         else (False, s))"

definition xh_getSize :: "xh_params \<Rightarrow> addr \<Rightarrow> xheap \<Rightarrow> nat" where
  "xh_getSize P ptr h = (if isOnHeap P ptr h then classToSize (getSizeClass P ptr h) else lo_get ptr (xh_large h))"

text \<open>\<open>None\<close>: the code aborts.\<close>

definition xh_getAllocCallsite :: "xh_params \<Rightarrow> addr \<Rightarrow> xheap \<Rightarrow> nat option" where
  "xh_getAllocCallsite P ptr h =
     (if \<not> isOnHeap P ptr h then Some 0 else p_getAllocCallsite ptr (xh_pInfo h ! getSizeClass P ptr h))"

definition xh_getObjectID :: "xh_params \<Rightarrow> addr \<Rightarrow> xheap \<Rightarrow> nat option" where
  "xh_getObjectID P ptr h =
     (if \<not> isOnHeap P ptr h then Some 0 else p_getObjectID ptr (xh_pInfo h ! getSizeClass P ptr h))"

text \<open>
  The core file, written to the file named by the environment, if there is one; \<open>dl_base\<close> and
  \<open>stack_base\<close> are addresses of the process.  A large object is written with its words.
\<close>

record xheap_dump =
  xd_global_ct :: nat
  xd_sentinel :: u32
  xd_dl_base :: addr
  xd_stack_base :: addr
  xd_flags :: nat
  xd_classes :: nat
  xd_partitions :: "partition_dump list"
  xd_los :: "nat \<times> (addr \<times> nat \<times> u32 list) list"

definition heap_config_flags :: "runtime \<Rightarrow> nat" where
  "heap_config_flags g = (if bad_replica g then 3 else 1)"

definition x_dump_heap :: "bool \<Rightarrow> addr \<Rightarrow> addr \<Rightarrow> bool \<Rightarrow> xheap \<times> runtime \<times> wmem \<Rightarrow> xheap_dump option \<times> runtime" where
  "x_dump_heap corefile dl_base stack_base corrupt s =
     (let (h, g, m) = s; g = (if corrupt then g\<lparr>bad_replica := True\<rparr> else g)
      in if \<not> corefile then (None, g)
         else (Some \<lparr>xd_global_ct = global_ct g, xd_sentinel = sentinel g, xd_dl_base = dl_base, xd_stack_base = stack_base,
                 xd_flags = heap_config_flags g, xd_classes = NumberOfClasses,
                 xd_partitions = map (\<lambda>sc. p_dump_heap (xh_pInfo h ! sc) m) [0..<NumberOfClasses],
                 xd_los = dump_los m (xh_large h)\<rparr>, g))"

section \<open>Well-formed heaps\<close>

definition xh_ok :: "xh_params \<Rightarrow> xheap \<Rightarrow> bool" where
  "xh_ok P h \<longleftrightarrow> (\<exists>k. PartitionSize P = 2 ^ k \<and> 19 \<le> k \<and> k < 32) \<and> MaxHeapSize P = NumberOfClasses * PartitionSize P
     \<and> 0 < xh_heap h \<and> xh_heap h + MaxHeapSize P < 2 ^ 32 \<and> length (xh_pInfo h) = NumberOfClasses
     \<and> (\<forall>i < NumberOfClasses. let p = xh_pInfo h ! i in part_ok p \<and> p_initialized p \<and> p_sizeClass p = i
          \<and> p_start p = xh_heap h + i * PartitionSize P \<and> p_elements p * p_size p = PartitionSize P)"

definition xh_live :: "xheap \<Rightarrow> addr set" where
  "xh_live h = (\<Union>i < NumberOfClasses. slot_at (xh_pInfo h ! i) ` xb_bits (p_allocated (xh_pInfo h ! i)))"

lemma xh_okD:
  assumes "xh_ok P h"
  shows "MaxHeapSize P = NumberOfClasses * PartitionSize P" "0 < xh_heap h" "xh_heap h + MaxHeapSize P < 2 ^ 32"
    "length (xh_pInfo h) = NumberOfClasses"
    "i < NumberOfClasses \<Longrightarrow> part_ok (xh_pInfo h ! i)" "i < NumberOfClasses \<Longrightarrow> p_initialized (xh_pInfo h ! i)"
    "i < NumberOfClasses \<Longrightarrow> p_sizeClass (xh_pInfo h ! i) = i"
    "i < NumberOfClasses \<Longrightarrow> p_start (xh_pInfo h ! i) = xh_heap h + i * PartitionSize P"
    "i < NumberOfClasses \<Longrightarrow> p_elements (xh_pInfo h ! i) * p_size (xh_pInfo h ! i) = PartitionSize P"
  using assms by (simp_all add: xh_ok_def Let_def)

lemma xh_ok_update:
  assumes "xh_ok P h" and "i < NumberOfClasses" and "part_ok q" and "p_initialized q" and "p_sizeClass q = i"
    and "p_size q = p_size (xh_pInfo h ! i)" and "p_start q = p_start (xh_pInfo h ! i)" and "p_elements q = p_elements (xh_pInfo h ! i)"
  shows "xh_ok P (h\<lparr>xh_pInfo := (xh_pInfo h)[i := q]\<rparr>)"
  using assms by (auto simp: xh_ok_def Let_def nth_list_update)

lemma size_class_of:
  assumes "xh_ok P h" and "i < NumberOfClasses" and "xh_heap h + i * PartitionSize P \<le> a" and "a < xh_heap h + Suc i * PartitionSize P"
  shows "isOnHeap P a h" and "getSizeClass P a h = i"
proof -
  obtain k where k: "PartitionSize P = 2 ^ k" using assms(1) by (auto simp: xh_ok_def)
  note d = xh_okD [OF assms(1)]
  have "Suc i * PartitionSize P \<le> NumberOfClasses * PartitionSize P" using assms(2) by (intro mult_le_mono1) simp
  then have hi: "a < xh_heap h + MaxHeapSize P" using assms(4) d(1) by simp
  then show "isOnHeap P a h" using assms(3) by (simp add: isOnHeap_def)
  have "sub32 a (xh_heap h) = a - xh_heap h"
    using sub32_le [of "xh_heap h" a] assms(3) hi d(3) by simp
  moreover have "(a - xh_heap h) div 2 ^ k = i"
    by (rule div_nat_eqI) (use assms(3,4) in \<open>simp_all add: k mult.commute\<close>)
  moreover have "staticlog (2 ^ k) = k" using staticlog_pow2 [of k] by simp
  ultimately show "getSizeClass P a h = i" by (simp add: getSizeClass_def drop_bit_nat_div k)
qed

lemma slot_in_class:
  assumes "xh_ok P h" and "i < NumberOfClasses" and "j < p_elements (xh_pInfo h ! i)"
  shows "isOnHeap P (slot_at (xh_pInfo h ! i) j) h" and "getSizeClass P (slot_at (xh_pInfo h ! i) j) h = i"
proof -
  note d = xh_okD [OF assms(1)]
  let ?p = "xh_pInfo h ! i"
  have "j * p_size ?p < p_elements ?p * p_size ?p" using assms(3) part_okD(9) [OF d(5) [OF assms(2)]] by simp
  then have "slot_at ?p j < xh_heap h + Suc i * PartitionSize P" "xh_heap h + i * PartitionSize P \<le> slot_at ?p j"
    using d(8,9) [OF assms(2)] by (simp_all add: slot_at_def)
  from size_class_of [OF assms(1,2) this(2,1)]
  show "isOnHeap P (slot_at ?p j) h" and "getSizeClass P (slot_at ?p j) h = i" by simp_all
qed

lemma slots_of_class:
  assumes "xh_ok P h" and "i < NumberOfClasses" and "j < p_elements (xh_pInfo h ! i)"
  shows "slot_at (xh_pInfo h ! i) j \<in> xh_live h \<longleftrightarrow> j \<in> xb_bits (p_allocated (xh_pInfo h ! i))"
proof
  assume "slot_at (xh_pInfo h ! i) j \<in> xh_live h"
  then obtain i' j' where e: "i' < NumberOfClasses" "j' \<in> xb_bits (p_allocated (xh_pInfo h ! i'))"
    "slot_at (xh_pInfo h ! i) j = slot_at (xh_pInfo h ! i') j'" by (auto simp: xh_live_def)
  have "j' < p_elements (xh_pInfo h ! i')"
    using e(2) xb_bits_bound part_okD(3) [OF xh_okD(5) [OF assms(1) e(1)]] by fastforce
  then have "i' = i" using slot_in_class(2) [OF assms] slot_in_class(2) [OF assms(1) e(1)] e(3) by metis
  moreover have "0 < p_size (xh_pInfo h ! i)" using part_okD(9) [OF xh_okD(5) [OF assms(1,2)]] .
  ultimately have "j' = j" using e(3) by (simp add: slot_at_def)
  with e(2) \<open>i' = i\<close> show "j \<in> xb_bits (p_allocated (xh_pInfo h ! i))" by simp
qed (use assms(2) in \<open>auto simp: xh_live_def\<close>)

lemma sizeClass_fits:
  assumes "8 \<le> sz" and "sz \<le> MaxObjectSize"
  shows "sizeClass sz < NumberOfClasses" and "sz \<le> classToSize (sizeClass sz)" and "sz = 8 \<or> classToSize (sizeClass sz - 1) < sz"
proof -
  have s8: "staticlog 8 = 3" using staticlog_pow2 [of 3] by simp
  have l: "3 \<le> log2 sz" using log2_mono [OF assms(1)] log2_pow2 [of 3] by simp
  have u: "log2 sz \<le> 14" using assms(2) log2_le_iff [of sz 14] by (simp add: MaxObjectSize_def)
  show "sizeClass sz < NumberOfClasses" using u by (simp add: sizeClass_def s8 NumberOfClasses_def)
  have "sizeClass sz + 3 = log2 sz" using l by (simp add: sizeClass_def s8)
  then show "sz \<le> classToSize (sizeClass sz)" using log2_upper [of sz] by (simp add: classToSize_def s8 push_bit_nat_mult)
  show "sz = 8 \<or> classToSize (sizeClass sz - 1) < sz"
  proof (cases "log2 sz = 3")
    case True
    then have "sz \<le> 8" using log2_upper [of sz] by simp
    then show ?thesis using assms(1) by simp
  next
    case False
    then have "sizeClass sz - 1 + 3 = log2 sz - 1" using l by (simp add: sizeClass_def s8)
    moreover have "2 ^ (log2 sz - 1) < sz" using log2_lower [of sz] assms(1) by simp
    ultimately show ?thesis by (simp add: classToSize_def s8 push_bit_nat_mult)
  qed
qed

section \<open>Allocation\<close>

lemma xh_live_alloc:
  assumes "xh_ok P h" and "sc < NumberOfClasses" and "p_size q = p_size (xh_pInfo h ! sc)" and "p_start q = p_start (xh_pInfo h ! sc)"
    and "xb_bits (p_allocated q) = insert i (xb_bits (p_allocated (xh_pInfo h ! sc)))"
  shows "xh_live (h\<lparr>xh_pInfo := (xh_pInfo h)[sc := q]\<rparr>) = insert (slot_at (xh_pInfo h ! sc) i) (xh_live h)"
proof -
  have "slot_at q = slot_at (xh_pInfo h ! sc)" using assms(3,4) by (simp add: slot_at_def fun_eq_iff)
  then have "slot_at ((xh_pInfo h)[sc := q] ! j) ` xb_bits (p_allocated ((xh_pInfo h)[sc := q] ! j))
      = (if j = sc then insert (slot_at (xh_pInfo h ! sc) i) (slot_at (xh_pInfo h ! sc) ` xb_bits (p_allocated (xh_pInfo h ! sc)))
         else slot_at (xh_pInfo h ! j) ` xb_bits (p_allocated (xh_pInfo h ! j)))" if "j < NumberOfClasses" for j
    using assms(5) xh_okD(4) [OF assms(1)] that by (simp add: nth_list_update)
  then have "xh_live (h\<lparr>xh_pInfo := (xh_pInfo h)[sc := q]\<rparr>)
      = (\<Union>j < NumberOfClasses. if j = sc then insert (slot_at (xh_pInfo h ! sc) i) (slot_at (xh_pInfo h ! sc) ` xb_bits (p_allocated (xh_pInfo h ! sc)))
         else slot_at (xh_pInfo h ! j) ` xb_bits (p_allocated (xh_pInfo h ! j)))"
    unfolding xh_live_def by simp
  also have "\<dots> = insert (slot_at (xh_pInfo h ! sc) i) (xh_live h)"
    using assms(2) by (auto simp: xh_live_def split: if_splits)
  finally show ?thesis .
qed

text \<open>A class below its threshold, all of whose empty slots are intact, with a free slot ahead among the draws.\<close>

definition class_ready :: "nat \<Rightarrow> partition \<Rightarrow> runtime \<Rightarrow> wmem \<Rightarrow> bool" where
  "class_ready n p g m \<longleftrightarrow> p_requested p < p_threshold p \<and> (\<forall>j < p_elements p. \<not> corrupted p g m j) \<and> good_draw n p g m"

lemma ready_class:
  assumes "part_ok p" and "p_initialized p" and "class_ready n p g m"
  obtains i q g' where "allocObject replicated c (p, g, m) = Some (Object (slot_at p i), q, g', x_fill (slot_at p i) (p_size p) 0 m)"
    "i < p_elements p" "i \<notin> xb_bits (p_allocated p)" "part_ok q" "p_initialized q" "p_sizeClass q = p_sizeClass p"
    "p_size q = p_size p" "p_start q = p_start p" "p_elements q = p_elements p"
    "xb_bits (p_allocated q) = insert i (xb_bits (p_allocated p))" "p_requested q = p_requested p + 1"
    "md_getObjectID i (p_meta q) = global_ct g" "md_getAllocCallsite i (p_meta q) = c"
proof -
  have "good_draw n p g m" using assms(3) by (simp add: class_ready_def)
  from alloc_probe_returns [OF assms(1) this] obtain ans q g' m' where run: "alloc_probe c (p, g, m) = Some (ans, q, g', m')"
    by (metis surj_pair)
  from alloc_probe_done [OF run] assms(1) obtain B where al: "alloc_done B p g m c ans q g' m'" by auto
  have sub: "B \<subseteq> {..<p_elements p}" and bad: "\<forall>j \<in> B. corrupted p g m j" using al by (auto simp: alloc_done_def)
  have B: "B = {}"
  proof (rule ccontr)
    assume "B \<noteq> {}"
    then obtain j where "j \<in> B" by blast
    with sub bad assms(3) show False by (auto simp: class_ready_def)
  qed
  have geo: "part_ok q" "p_initialized q" "p_size q = p_size p" "p_start q = p_start p" "p_elements q = p_elements p"
    using al assms(2) by (simp_all add: alloc_done_def)
  have sc: "p_sizeClass q = p_sizeClass p" using part_okD(1) [OF assms(1)] part_okD(1) [OF geo(1)] geo(3) by simp
  obtain a where a: "ans = Object a" using al B assms(3) by (cases ans) (auto simp: alloc_done_def class_ready_def)
  then obtain i where i: "i < p_elements p" "a = slot_at p i" "i \<notin> xb_bits (p_allocated p)"
      "xb_bits (p_allocated q) = insert i (xb_bits (p_allocated p))" "p_requested q = p_requested p + 1"
      "m' = x_fill a (p_size p) 0 m" "md_getObjectID i (p_meta q) = global_ct g" "md_getAllocCallsite i (p_meta q) = c"
    using al B by (auto simp: alloc_done_def)
  show thesis
    by (rule that [of i q g']) (use run a i geo sc assms(2) in \<open>simp_all add: allocObject_def\<close>)
qed

section \<open>A fresh heap\<close>

definition fresh_class :: "xh_params \<Rightarrow> runtime \<Rightarrow> wmem \<Rightarrow> xheap \<Rightarrow> nat \<Rightarrow> bool" where
  "fresh_class P g m h i \<longleftrightarrow> (let p = xh_pInfo h ! i
     in part_ok p \<and> p_initialized p \<and> p_sizeClass p = i \<and> p_start p = xh_heap h + i * PartitionSize P
      \<and> p_elements p * p_size p = PartitionSize P \<and> xb_bits (p_allocated p) = {} \<and> p_requested p = 0
      \<and> p_threshold p = load_threshold P (2 ^ (i + 3)) \<and> (\<forall>j < p_elements p. \<not> corrupted p g m j)
      \<and> md_elements (p_meta p) = p_elements p \<and> set (md_slots (p_meta p)) \<subseteq> {null_slot})"

definition sizes_table :: "nat list" where
  "sizes_table = [8, 16, 32, 64, 128, 256, 512, 1024, 2048, 4096, 8192, MaxObjectSize]"

lemma sizes_table: "i < NumberOfClasses \<Longrightarrow> sizes_table ! i = 2 ^ (i + 3)"
proof -
  have "\<forall>i \<in> set [0..<12]. sizes_table ! i = 2 ^ (i + 3)" by (simp add: sizes_table_def MaxObjectSize_def upt_rec)
  then show "i < NumberOfClasses \<Longrightarrow> sizes_table ! i = 2 ^ (i + 3)" by (simp add: NumberOfClasses_def)
qed

definition bitmaps_fit :: "nat \<Rightarrow> (nat \<Rightarrow> u32 list \<times> u32 list) \<Rightarrow> bool" where
  "bitmaps_fit k bufs \<longleftrightarrow> (\<forall>i < NumberOfClasses. length (fst (bufs i)) = 2 ^ (k - (i + 3)) div 32
     \<and> length (snd (bufs i)) = 2 ^ (k - (i + 3)) div 32)"

lemma corrupted_fill:
  assumes "\<not> corrupted p g m j"
  shows "\<not> corrupted p g (x_fill a n (sentinel g) m) j"
  using assms by (auto simp: corrupted_def x_checkNot_iff x_fill_eq)

lemma init_partitions_fresh:
  assumes "PartitionSize P = 2 ^ k" and "19 \<le> k" and "k < 32" and "MaxHeapSize P = NumberOfClasses * PartitionSize P"
    and "bitmaps_fit k bufs" and "xh_heap h + MaxHeapSize P < 2 ^ 32" and "xh_size h = sizes_table" and "n \<le> NumberOfClasses"
    and "length (xh_pInfo h) = NumberOfClasses" and "\<And>i. i < n \<Longrightarrow> md_elements (p_meta (xh_pInfo h ! i)) = 0"
    and "\<And>i. n \<le> i \<Longrightarrow> i < NumberOfClasses \<Longrightarrow> fresh_class P g m h i"
  shows "\<exists>ps m'. init_partitions P False bufs n (h, g, m) = (h\<lparr>xh_pInfo := ps\<rparr>, g, m') \<and> length ps = NumberOfClasses
    \<and> (\<forall>i < NumberOfClasses. fresh_class P g m' (h\<lparr>xh_pInfo := ps\<rparr>) i)"
  using assms(6-)
proof (induction n arbitrary: h m)
  case 0
  then show ?case by (intro exI [of _ "xh_pInfo h"] exI [of _ m]) simp
next
  case (Suc i)
  have i: "i < NumberOfClasses" using Suc.prems(3) by simp
  then have i11: "i \<le> 11" by (simp add: NumberOfClasses_def)
  let ?sz = "2 ^ (i + 3) :: nat" and ?st = "xh_heap h + i * PartitionSize P"
  obtain p g' m' where run: "initialize False i ?sz (load_threshold P ?sz) ?st (PartitionSize P) (fst (bufs i)) (snd (bufs i))
      (xh_pInfo h ! i, g, m) = (p, g', m')" by (metis surj_pair)
  have kk: "i + 3 \<le> k" using i11 assms(2) by linarith
  have ps: "PartitionSize P = 2 ^ (k - (i + 3)) * ?sz" by (simp add: assms(1) flip: power_add) (use kk in simp)
  have "Suc i * PartitionSize P \<le> NumberOfClasses * PartitionSize P" using i by (intro mult_le_mono1) simp
  then have top: "?st + PartitionSize P < 2 ^ 32" using Suc.prems(1) assms(4) by simp
  have b: "length (fst (bufs i)) = 2 ^ (k - (i + 3)) div 32" "length (snd (bufs i)) = 2 ^ (k - (i + 3)) div 32"
    using assms(5) i by (auto simp: bitmaps_fit_def)
  have kl: "5 \<le> k - (i + 3)" "k - (i + 3) < 32" using i11 assms(2,3) by linarith+
  note ok = initialize_ok [OF refl ps kl top b Suc.prems(5) [OF lessI] run]
  have fx: "p_initialized p" "m' = x_fill ?st (PartitionSize P div ?sz * ?sz) (sentinel g) m"
    using run by (auto simp: initialize_def initializePartition_def Let_def)
  have "p_meta p = elementsChanged (p_elements p) (p_meta (xh_pInfo h ! i))"
    using run by (auto simp: initialize_def initializePartition_def Let_def)
  then have md: "md_elements (p_meta p) = p_elements p" "set (md_slots (p_meta p)) \<subseteq> {null_slot}"
    using Suc.prems(5) [OF lessI] by (auto simp: elementsChanged_def Let_def)
  have el: "p_elements p * p_size p = PartitionSize P" using ok ps by simp
  have scl: "p_sizeClass p = i" using ok part_okD(1) [of p] by simp
  let ?h = "h\<lparr>xh_pInfo := (xh_pInfo h)[i := p]\<rparr>"
  have fr: "fresh_class P g m' ?h j" if "i \<le> j" "j < NumberOfClasses" for j
  proof (cases "j = i")
    case True
    have "g' = g" using ok by simp
    with ok have "\<forall>l < p_elements p. \<not> corrupted p g m' l" by simp
    with True show ?thesis using ok fx(1) el scl md Suc.prems(4) i by (simp add: fresh_class_def)
  next
    case False
    then have "fresh_class P g m h j" using Suc.prems(6) that by simp
    then show ?thesis using False corrupted_fill unfolding fx(2) by (simp add: fresh_class_def Let_def)
  qed
  have "init_partitions P False bufs (Suc i) (h, g, m) = init_partitions P False bufs i (?h, g, m')"
    using run ok Suc.prems(2) sizes_table [OF i] by simp
  with Suc.IH [of ?h m'] Suc.prems i fr show ?case by simp
qed

lemma fresh_heap:
  assumes "PartitionSize P = 2 ^ k" and "19 \<le> k" and "k < 32" and "MaxHeapSize P = NumberOfClasses * PartitionSize P"
    and "bitmaps_fit k bufs" and "0 < a" and "a + MaxHeapSize P < 2 ^ 32"
  obtains h g' m' where "XDieHardHeap P False a bufs dt (g, m) = Some (h, g', m')" "xh_ok P h" "xh_live h = {}"
    "g' = g\<lparr>sentinel := 0x9efbdbb3, global_ct := 0, death_time := dt, bad_replica := False\<rparr>"
    "\<And>i. i < NumberOfClasses \<Longrightarrow> fresh_class P g' m' h i" "xh_heap h = a"
    "xh_large h = \<lparr>lo_values = (\<lambda>_. 0), lo_addrs = (\<lambda>_. 0), lo_ct = 0\<rparr>"
proof -
  let ?h = "\<lparr>xh_heap = a, xh_pInfo = replicate NumberOfClasses PartitionInfo, xh_size = sizes_table,
      xh_large = \<lparr>lo_values = (\<lambda>_. 0), lo_addrs = (\<lambda>_. 0), lo_ct = 0\<rparr>, xh_unmapped = []\<rparr>"
  let ?g = "g\<lparr>sentinel := 0x9efbdbb3\<rparr>"
  have md: "md_elements (p_meta PartitionInfo) = 0" by (simp add: PartitionInfo_def)
  obtain ps m' where run: "init_partitions P False bufs NumberOfClasses (?h, ?g, m) = (?h\<lparr>xh_pInfo := ps\<rparr>, ?g, m')"
      "length ps = NumberOfClasses" "\<And>i. i < NumberOfClasses \<Longrightarrow> fresh_class P ?g m' (?h\<lparr>xh_pInfo := ps\<rparr>) i"
    using init_partitions_fresh [OF assms(1-5), of ?h NumberOfClasses ?g m] assms(7) md by auto
  let ?g' = "g\<lparr>sentinel := 0x9efbdbb3, global_ct := 0, death_time := dt, bad_replica := False\<rparr>"
  have fr: "fresh_class P ?g' m' (?h\<lparr>xh_pInfo := ps\<rparr>) i" if "i < NumberOfClasses" for i
    using run(3) [OF that] by (simp add: fresh_class_def corrupted_def)
  show thesis
  proof (rule that [of "?h\<lparr>xh_pInfo := ps\<rparr>" ?g' m'])
    show "XDieHardHeap P False a bufs dt (g, m) = Some (?h\<lparr>xh_pInfo := ps\<rparr>, ?g', m')"
      using run(1) assms(6) by (simp add: XDieHardHeap_def initializeHeap_def sizes_table_def Let_def)
    show "xh_ok P (?h\<lparr>xh_pInfo := ps\<rparr>)"
      using assms(1-4,6,7) run(2) fr by (simp add: xh_ok_def fresh_class_def Let_def)
    show "xh_live (?h\<lparr>xh_pInfo := ps\<rparr>) = {}" using fr by (simp add: xh_live_def fresh_class_def Let_def)
  qed (use fr in simp_all)
qed

lemma alloc_classes_first:
  assumes "sc < NumberOfClasses" and "allocObject replicated c (xh_pInfo h ! sc, g, m) = Some (Object a, q, g', m')"
  shows "alloc_classes replicated c (NumberOfClasses - sc) sc (h, g, m) = Some (Object a, h\<lparr>xh_pInfo := (xh_pInfo h)[sc := q]\<rparr>, g', m')"
proof -
  obtain n where "NumberOfClasses - sc = Suc n" using assms(1) by (metis Suc_diff_Suc)
  then show ?thesis using assms(2) by simp
qed

lemma class_size:
  assumes "xh_ok P h" and "sc < NumberOfClasses"
  shows "p_size (xh_pInfo h ! sc) = classToSize sc"
  using part_okD(1) [OF xh_okD(5) [OF assms]] xh_okD(7) [OF assms] staticlog_pow2 [of 3]
  by (simp add: classToSize_def push_bit_nat_mult)

lemma classToSize_tight:
  assumes "8 \<le> sz" and "sz \<le> MaxObjectSize"
  shows "sz = 8 \<or> classToSize (sizeClass sz) < 2 * sz"
proof (cases "sizeClass sz")
  case 0
  then have "classToSize (sizeClass sz) = 8" using staticlog_pow2 [of 3] by (simp add: classToSize_def push_bit_nat_mult)
  then show ?thesis using assms(1) by simp
next
  case (Suc k)
  then have "classToSize (sizeClass sz) = 2 * classToSize (sizeClass sz - 1)" by (simp add: classToSize_def push_bit_nat_mult)
  then show ?thesis using sizeClass_fits(3) [OF assms] by auto
qed

text \<open>What a live object of class \<open>sc\<close> answers to the queries.\<close>

lemma slot_queries:
  assumes "xh_ok P h" and "sc < NumberOfClasses" and "i < p_elements (xh_pInfo h ! sc)"
  defines "a \<equiv> slot_at (xh_pInfo h ! sc) i"
  shows "isOnHeap P a h" "xh_getSize P a h = classToSize sc"
    "xh_getObjectID P a h = Some (md_getObjectID i (p_meta (xh_pInfo h ! sc)))"
    "xh_getAllocCallsite P a h = Some (md_getAllocCallsite i (p_meta (xh_pInfo h ! sc)))"
proof -
  let ?q = "xh_pInfo h ! sc"
  note on = slot_in_class [OF assms(1-3), folded a_def] and q = xh_okD(5) [OF assms(1,2)]
  have "p_start ?q \<le> a" "a < p_start ?q + p_elements ?q * p_size ?q"
    using assms(3) part_okD(9) [OF q] by (simp_all add: a_def slot_at_def)
  note g = on_grid_iff [OF q this]
  have grid: "on_grid a ?q" using g(1) assms(3) by (auto simp: a_def)
  have idx: "x_objectIndex a ?q = i" using g(2) assms(3) by (simp add: a_def)
  show "isOnHeap P a h" by (rule on)
  show "xh_getSize P a h = classToSize sc" using on by (simp add: xh_getSize_def)
  show "xh_getObjectID P a h = Some (md_getObjectID i (p_meta ?q))"
    using on grid idx by (simp add: xh_getObjectID_def p_getObjectID_def)
  show "xh_getAllocCallsite P a h = Some (md_getAllocCallsite i (p_meta ?q))"
    using on grid idx by (simp add: xh_getAllocCallsite_def p_getAllocCallsite_def)
qed

lemma ready_heap:
  assumes "xh_ok P h" and "sc < NumberOfClasses" and "class_ready n (xh_pInfo h ! sc) g m"
  obtains a q g' where "allocObject replicated c (xh_pInfo h ! sc, g, m) = Some (Object a, q, g', x_fill a (classToSize sc) 0 m)"
    "xh_ok P (h\<lparr>xh_pInfo := (xh_pInfo h)[sc := q]\<rparr>)" "a \<notin> xh_live h"
    "xh_live (h\<lparr>xh_pInfo := (xh_pInfo h)[sc := q]\<rparr>) = insert a (xh_live h)"
    "isOnHeap P a (h\<lparr>xh_pInfo := (xh_pInfo h)[sc := q]\<rparr>)"
    "xh_getSize P a (h\<lparr>xh_pInfo := (xh_pInfo h)[sc := q]\<rparr>) = classToSize sc"
    "xh_getObjectID P a (h\<lparr>xh_pInfo := (xh_pInfo h)[sc := q]\<rparr>) = Some (global_ct g)"
    "xh_getAllocCallsite P a (h\<lparr>xh_pInfo := (xh_pInfo h)[sc := q]\<rparr>) = Some c"
proof -
  let ?p = "xh_pInfo h ! sc"
  note d = xh_okD [OF assms(1)]
  from ready_class [OF d(5,6) [OF assms(2)] assms(3), of replicated c]
  obtain i q g' where al: "allocObject replicated c (?p, g, m) = Some (Object (slot_at ?p i), q, g', x_fill (slot_at ?p i) (p_size ?p) 0 m)"
    and i: "i < p_elements ?p" "i \<notin> xb_bits (p_allocated ?p)" and q: "part_ok q" "p_initialized q" "p_sizeClass q = p_sizeClass ?p"
    "p_size q = p_size ?p" "p_start q = p_start ?p" "p_elements q = p_elements ?p"
    "xb_bits (p_allocated q) = insert i (xb_bits (p_allocated ?p))"
    and md: "md_getObjectID i (p_meta q) = global_ct g" "md_getAllocCallsite i (p_meta q) = c" by metis
  let ?h = "h\<lparr>xh_pInfo := (xh_pInfo h)[sc := q]\<rparr>"
  have ok: "xh_ok P ?h" by (rule xh_ok_update [OF assms(1,2) q(1,2)]) (use q d(7) [OF assms(2)] in simp_all)
  have nth: "xh_pInfo ?h ! sc = q" using d(4) assms(2) by simp
  have "slot_at q i = slot_at ?p i" using q(4,5) by (simp add: slot_at_def)
  with slot_queries [OF ok assms(2), of i] i(1) q(6) md
  have ans: "isOnHeap P (slot_at ?p i) ?h" "xh_getSize P (slot_at ?p i) ?h = classToSize sc"
    "xh_getObjectID P (slot_at ?p i) ?h = Some (global_ct g)" "xh_getAllocCallsite P (slot_at ?p i) ?h = Some c"
    unfolding nth by simp_all
  have "slot_at ?p i \<notin> xh_live h" using slots_of_class [OF assms(1,2) i(1)] i(2) by simp
  from that [OF al [unfolded class_size [OF assms(1,2)]] ok this xh_live_alloc [OF assms(1,2) q(4,5,7)] ans] show thesis .
qed

section \<open>Properties\<close>

lemma lo_getIndex_div: "lo_getIndex p = p div MaxObjectSize"
  using staticlog_pow2 [of 14] by (simp add: lo_getIndex_def MaxObjectSize_def drop_bit_nat_div)

lemma large_indices_apart:
  assumes "MaxObjectSize < sz" and "p + sz \<le> q"
  shows "lo_getIndex p \<noteq> lo_getIndex q"
proof -
  have "p + MaxObjectSize \<le> q" using assms by simp
  then have "p div MaxObjectSize + 1 \<le> q div MaxObjectSize"
    using div_le_mono [of "p + MaxObjectSize" q MaxObjectSize] by (simp add: MaxObjectSize_def)
  then show ?thesis by (simp add: lo_getIndex_div)
qed

lemma allocateDirect_entry:
  assumes "allocateDirect r p sz (h, g, m) = (a, h', g', m')" and "p \<noteq> 0" and "sz + 3 < 2 ^ 32"
  shows "a = p" "h' = h\<lparr>xh_large := lo_set p ((sz + 3) div 4 * 4) (xh_large h)\<rparr>"
  using assms by (auto simp: allocateDirect_def Let_def add.commute [of 3] split: if_splits prod.splits)

text \<open>Objects mapped directly are found in a table with one entry for 16 KB of addresses.  Two objects one
  of which is larger than that never share an entry, and then both sizes are right and freeing the first one
  unmaps exactly it.  But small requests are mapped directly too, once the partitions are exhausted: when
  the addresses share an entry, the second request overwrites the size of the first, freeing the first unmaps
  as much memory as the second object has, and freeing the second is then ignored.\<close>

theorem xlarge_objects:
  assumes "allocateDirect r p sz (h, g, m) = (a, h1, g1, m1)" and "allocateDirect r q sz' (h1, g2, m2) = (b, h2, g3, m3)"
    and "p \<noteq> 0" and "q \<noteq> 0" and "p \<noteq> q" and "0 < sz" and "0 < sz'" and "sz + 3 < 2 ^ 32" and "sz' + 3 < 2 ^ 32"
  shows "lo_get q (xh_large h2) = (sz' + 3) div 4 * 4
    \<and> (MaxObjectSize < sz \<and> p + sz \<le> q \<or> MaxObjectSize < sz' \<and> q + sz' \<le> p \<longrightarrow> lo_getIndex p \<noteq> lo_getIndex q)
    \<and> (if lo_getIndex p \<noteq> lo_getIndex q
       then lo_get p (xh_large h2) = (sz + 3) div 4 * 4
         \<and> xh_unmapped (freeDirect p h2) = xh_unmapped h2 @ [(p, (sz + 3) div 4 * 4)]
         \<and> lo_get p (xh_large (freeDirect p h2)) = 0 \<and> lo_get q (xh_large (freeDirect p h2)) = (sz' + 3) div 4 * 4
       else lo_get p (xh_large h2) = (sz' + 3) div 4 * 4
         \<and> xh_unmapped (freeDirect q (freeDirect p h2)) = xh_unmapped h2 @ [(p, (sz' + 3) div 4 * 4)])"
proof -
  note e1 = allocateDirect_entry [OF assms(1,3,8)]
  note e2 = allocateDirect_entry [OF assms(2,4,9)]
  have pos: "0 < (sz + 3) div 4 * 4" "0 < (sz' + 3) div 4 * 4" using assms(6,7) by (simp_all add: div_greater_zero_iff)
  have apart: "MaxObjectSize < sz \<and> p + sz \<le> q \<or> MaxObjectSize < sz' \<and> q + sz' \<le> p \<longrightarrow> lo_getIndex p \<noteq> lo_getIndex q"
    using large_indices_apart [of sz p q] large_indices_apart [of sz' q p] by metis
  show ?thesis
  proof (cases "lo_getIndex p = lo_getIndex q")
    case True
    then show ?thesis using pos apart by (simp add: e1(2) e2(2) lo_get_def lo_set_def lo_clear_def freeDirect_def Let_def)
  next
    case False
    then show ?thesis using pos apart by (simp add: e1(2) e2(2) lo_get_def lo_set_def lo_clear_def freeDirect_def Let_def)
  qed
qed

text \<open>The partitions of the demonstration heap with nothing below the threshold: two small requests share an entry.\<close>

definition demo_full :: xheap where
  "demo_full = \<lparr>xh_heap = 2 ^ 20, xh_pInfo = [], xh_size = [],
     xh_large = \<lparr>lo_values = (\<lambda>_. 0), lo_addrs = (\<lambda>_. 0), lo_ct = 0\<rparr>, xh_unmapped = []\<rparr>"

theorem xlarge_objects_witness:
  "\<exists>h1 h2 g1 g2 m1 m2. allocateDirect False 0x40000000 100 (demo_full, demo_runtime, \<lambda>_. 0) = (0x40000000, h1, g1, m1)
     \<and> allocateDirect False 0x40001000 8192 (h1, g1, m1) = (0x40001000, h2, g2, m2)
     \<and> lo_get 0x40000000 (xh_large h2) = 8192
     \<and> xh_unmapped (freeDirect 0x40001000 (freeDirect 0x40000000 h2)) = [(0x40000000, 8192)]"
proof -
  obtain a h1 g1 m1 where r1: "allocateDirect False 0x40000000 100 (demo_full, demo_runtime, \<lambda>_. 0) = (a, h1, g1, m1)"
    by (metis surj_pair)
  obtain b h2 g2 m2 where r2: "allocateDirect False 0x40001000 8192 (h1, g1, m1) = (b, h2, g2, m2)" by (metis surj_pair)
  have ab: "a = 0x40000000" "b = 0x40001000" using allocateDirect_entry(1) [OF r1] allocateDirect_entry(1) [OF r2] by simp_all
  have "xh_unmapped h2 = []"
    using allocateDirect_entry(2) [OF r1] allocateDirect_entry(2) [OF r2] by (simp add: demo_full_def)
  moreover have "lo_getIndex 0x40000000 = lo_getIndex 0x40001000" by (simp add: lo_getIndex_div MaxObjectSize_def)
  ultimately have "lo_get 0x40000000 (xh_large h2) = 8192" "xh_unmapped (freeDirect 0x40001000 (freeDirect 0x40000000 h2)) = [(0x40000000, 8192)]"
    using xlarge_objects [OF r1 r2] by simp_all
  with r1 r2 ab show ?thesis by blast
qed


text \<open>For the witnesses: partitions of 512 KB from the address 1 MB on.\<close>

definition demo_params :: xh_params where
  "demo_params = \<lparr>MaxHeapSize = 12 * 2 ^ 19, LoadNumerator = 1, LoadDenominator = 2\<rparr>"

definition demo_bufs :: "nat \<Rightarrow> u32 list \<times> u32 list" where
  "demo_bufs i = (replicate (2 ^ (19 - (i + 3)) div 32) 0, replicate (2 ^ (19 - (i + 3)) div 32) 0)"

lemma demo_heap:
  obtains h g m where "XDieHardHeap demo_params False (2 ^ 20) demo_bufs 0 (demo_runtime, \<lambda>_. 0) = Some (h, g, m)"
    "xh_ok demo_params h" "xh_live h = {}" "global_ct g = 0" "death_time g = 0"
    "\<And>i. i < NumberOfClasses \<Longrightarrow> fresh_class demo_params g m h i"
    "xh_large h = \<lparr>lo_values = (\<lambda>_. 0), lo_addrs = (\<lambda>_. 0), lo_ct = 0\<rparr>"
proof -
  have P: "PartitionSize demo_params = 2 ^ 19" "MaxHeapSize demo_params = NumberOfClasses * PartitionSize demo_params"
    by (simp_all add: PartitionSize_def demo_params_def NumberOfClasses_def)
  have b: "bitmaps_fit 19 demo_bufs" by (simp add: bitmaps_fit_def demo_bufs_def)
  have k: "19 \<le> (19 :: nat)" "19 < (32 :: nat)" "0 < (2 ^ 20 :: nat)" "2 ^ 20 + MaxHeapSize demo_params < 2 ^ 32"
    by (simp_all add: demo_params_def)
  show thesis
  proof (rule fresh_heap [OF P(1) k(1,2) P(2) b k(3,4), of 0 demo_runtime "\<lambda>_. 0"])
    fix h g m
    assume *: "XDieHardHeap demo_params False (2 ^ 20) demo_bufs 0 (demo_runtime, \<lambda>_. 0) = Some (h, g, m)"
      "xh_ok demo_params h" "xh_live h = {}"
      "g = demo_runtime\<lparr>sentinel := 0x9efbdbb3, global_ct := 0, death_time := 0, bad_replica := False\<rparr>"
      "\<And>i. i < NumberOfClasses \<Longrightarrow> fresh_class demo_params g m h i"
      "xh_large h = \<lparr>lo_values = (\<lambda>_. 0), lo_addrs = (\<lambda>_. 0), lo_ct = 0\<rparr>"
    have "global_ct g = 0" "death_time g = 0" unfolding *(4) by simp_all
    from that [OF *(1-3) this *(5,6)] show thesis .
  qed
qed

lemma fresh_ready:
  assumes "fresh_class P g m h i" and "0 < load_threshold P (2 ^ (i + 3))"
  shows "class_ready 0 (xh_pInfo h ! i) g m"
  using assms part_index [of "xh_pInfo h ! i"] by (simp add: fresh_class_def class_ready_def good_draw_first probe_index_def Let_def)


end
