(* ===== verification/Correcting.thy ===== *)
theory Correcting
  imports PatchFile ExtHeap
begin

text \<open>
  The correcting heap of the Exterminator library (\<open>src/exterminator/src/correct.h\<close>) over the heap of
  \<open>ExtHeap\<close>: allocations from patched call sites are padded, frees of patched pairs of sites are put
  into a priority queue.  The queue is a list in the order of the death times, one of the layouts of
  \<open>push_heap\<close> and \<open>pop_heap\<close>; the code only looks at its first element.  The library is compiled with
  \<open>NDEBUG\<close>: a queue of 1024 entries is written past its end, which is \<open>None\<close>.
\<close>

definition PQUEUE_SIZE :: nat where "PQUEUE_SIZE = 1024"

record pqueue_entry =
  pe_ptr :: addr
  pe_death_time :: nat

text \<open>\<open>c_global_ct\<close> is the member \<open>global_ct\<close> of the class, which hides the global counter of the runtime.\<close>

record correcting =
  c_super :: xheap
  c_patch :: patch_info
  c_global_ct :: nat
  c_pqueue :: "pqueue_entry list"

type_synonym cstate = "correcting \<times> runtime \<times> wmem"

definition push_heap :: "pqueue_entry \<Rightarrow> pqueue_entry list \<Rightarrow> pqueue_entry list" where
  "push_heap e q = insort_key pe_death_time e q"

text \<open>\<open>storage\<close> is what the memory of the heap object held where the member \<open>global_ct\<close> lies: no constructor sets it.\<close>

definition CorrectingHeap :: "string option \<Rightarrow> string \<Rightarrow> nat \<Rightarrow> xheap \<times> runtime \<times> wmem \<Rightarrow> cstate option" where
  "CorrectingHeap file stack storage s =
     (let (h, g, m) = s
      in map_option (\<lambda>p. (\<lparr>c_super = h, c_patch = p, c_global_ct = storage, c_pqueue = []\<rparr>, g, m)) (PatchInfo_init file stack))"

text \<open>The loop of \<open>malloc\<close> that frees the objects whose time has come; it also tells whether the program died.\<close>

fun free_lingering :: "xh_params \<Rightarrow> nat \<Rightarrow> nat \<Rightarrow> pqueue_entry list \<Rightarrow> xheap \<times> runtime \<times> wmem
    \<Rightarrow> bool \<times> pqueue_entry list \<times> xheap \<times> runtime \<times> wmem" where
  "free_lingering P callsite now [] s = (False, [], s)"
| "free_lingering P callsite now (e # q) s =
     (if pe_death_time e \<le> now
      then let (died, s) = xh_free P callsite (pe_ptr e) s
           in if died then (True, e # q, s) else free_lingering P callsite now q s
      else (False, e # q, s))"

text \<open>\<open>callsite\<close> is the site the patches are looked up with, \<open>inner\<close> the one the heap below records.\<close>

definition c_malloc :: "xh_params \<Rightarrow> bool \<Rightarrow> addr \<Rightarrow> addr \<Rightarrow> u32 \<Rightarrow> nat \<Rightarrow> nat \<Rightarrow> cstate \<Rightarrow> (alloc_answer \<times> cstate) option" where
  "c_malloc P replicated os_map os_map' callsite inner sz s =
     (let (c, g, m) = s; pad = getPadding callsite (c_patch c);
          sz = (if pad \<noteq> 0 then (sz + unat pad) mod 2 ^ 32 else sz);
          (died, q, h, g, m) = free_lingering P inner (c_global_ct c) (c_pqueue c) (c_super c, g, m);
          c = c\<lparr>c_super := h, c_pqueue := q\<rparr>
      in if died then Some (Died, c, g, m)
         else case xh_malloc replicated os_map os_map' inner sz (h, g, m) of
                None \<Rightarrow> None
              | Some (ans, h, g, m) \<Rightarrow> Some (ans, c\<lparr>c_super := h\<rparr>, g, m))"

text \<open>\<open>getAllocCallsite\<close> aborts for an address inside an object: \<open>None\<close>.\<close>

definition c_free :: "xh_params \<Rightarrow> u32 \<Rightarrow> nat \<Rightarrow> addr \<Rightarrow> cstate \<Rightarrow> (bool \<times> cstate) option" where
  "c_free P callsite inner ptr s =
     (let (c, g, m) = s
      in case xh_getAllocCallsite P ptr (c_super c) of
           None \<Rightarrow> None
         | Some site \<Rightarrow>
             let td = getLifeExtension (word_of_nat site) callsite (c_patch c)
             in if td = 0
                then let (died, h, g, m) = xh_free P inner ptr (c_super c, g, m) in Some (died, c\<lparr>c_super := h\<rparr>, g, m)
                else case xh_getObjectID P ptr (c_super c) of
                       None \<Rightarrow> None
                     | Some oid \<Rightarrow>
                         let e = \<lparr>pe_ptr = ptr, pe_death_time = unat (td + word_of_nat oid)\<rparr>
                         in if length (c_pqueue c) < PQUEUE_SIZE then Some (False, c\<lparr>c_pqueue := push_heap e (c_pqueue c)\<rparr>, g, m)
                            else None)"

section \<open>Runs\<close>

text \<open>A program: its calls with what the system answers and the call sites.\<close>

datatype c_call = C_malloc addr addr u32 nat nat | C_free u32 nat addr

fun c_step :: "xh_params \<Rightarrow> bool \<Rightarrow> c_call \<Rightarrow> cstate \<Rightarrow> (bool \<times> cstate) option" where
  "c_step P replicated (C_malloc o1 o2 site inner sz) s =
     map_option (\<lambda>(ans, s). (ans = Died, s)) (c_malloc P replicated o1 o2 site inner sz s)"
| "c_step P replicated (C_free site inner ptr) s = c_free P site inner ptr s"

fun c_run :: "xh_params \<Rightarrow> bool \<Rightarrow> c_call list \<Rightarrow> cstate \<Rightarrow> cstate option" where
  "c_run P replicated [] s = Some s"
| "c_run P replicated (call # calls) s =
     (case c_step P replicated call s of Some (False, s) \<Rightarrow> c_run P replicated calls s | _ \<Rightarrow> None)"

definition c_sorted :: "correcting \<Rightarrow> bool" where
  "c_sorted c \<longleftrightarrow> sorted (map pe_death_time (c_pqueue c))"

lemma free_lingering_queue:
  assumes "free_lingering P site t q s = (False, q', s')" and "sorted (map pe_death_time q)"
  shows "q' = filter (\<lambda>e. t < pe_death_time e) q" and "sorted (map pe_death_time q')"
proof -
  have "q' = filter (\<lambda>e. t < pe_death_time e) q \<and> sorted (map pe_death_time q')"
    using assms
  proof (induction q arbitrary: s)
    case (Cons e q)
    show ?case
    proof (cases "pe_death_time e \<le> t")
      case True
      then show ?thesis using Cons by (auto split: prod.splits if_splits)
    next
      case False
      then have "\<forall>x \<in> set (e # q). t < pe_death_time x" using Cons.prems(2) by fastforce
      then have "filter (\<lambda>e. t < pe_death_time e) (e # q) = e # q" by (intro filter_True)
      moreover have "q' = e # q" using False Cons.prems(1) by simp
      ultimately show ?thesis using Cons.prems(2) by simp
    qed
  qed simp
  then show "q' = filter (\<lambda>e. t < pe_death_time e) q" "sorted (map pe_death_time q')" by blast+
qed

lemma c_malloc_queue:
  assumes "c_malloc P r o1 o2 site inner sz (c, g, m) = Some (ans, c', g', m')" and "ans \<noteq> Died" and "c_sorted c"
  shows "c_sorted c'" and "c_global_ct c' = c_global_ct c" and "c_pqueue c' = filter (\<lambda>e. c_global_ct c < pe_death_time e) (c_pqueue c)"
proof -
  obtain died q h g1 m1 where f: "free_lingering P inner (c_global_ct c) (c_pqueue c) (c_super c, g, m) = (died, q, h, g1, m1)"
    by (metis surj_pair)
  have e: "\<not> died" "c' = c\<lparr>c_super := c_super c', c_pqueue := q\<rparr>"
    using assms(1,2) f by (auto simp: c_malloc_def Let_def split: if_splits option.splits)
  then have "free_lingering P inner (c_global_ct c) (c_pqueue c) (c_super c, g, m) = (False, q, h, g1, m1)" using f by simp
  note q = free_lingering_queue [OF this assms(3) [unfolded c_sorted_def]]
  have "c_pqueue c' = q" "c_global_ct c' = c_global_ct c" by (subst e(2), simp)+
  with q show "c_sorted c'" "c_global_ct c' = c_global_ct c" "c_pqueue c' = filter (\<lambda>e. c_global_ct c < pe_death_time e) (c_pqueue c)"
    by (simp_all add: c_sorted_def)
qed

lemma c_free_queue:
  assumes "c_free P site inner ptr (c, g, m) = Some (False, c', g', m')" and "c_sorted c"
  shows "c_sorted c'" and "c_global_ct c' = c_global_ct c" and "set (c_pqueue c) \<subseteq> set (c_pqueue c')"
proof -
  have "c_global_ct c' = c_global_ct c \<and> (c_pqueue c' = c_pqueue c \<or> (\<exists>e. c_pqueue c' = push_heap e (c_pqueue c)))"
    using assms(1) by (auto simp: c_free_def Let_def split: option.splits if_splits prod.splits)
  then show "c_sorted c'" "c_global_ct c' = c_global_ct c" "set (c_pqueue c) \<subseteq> set (c_pqueue c')"
    using assms(2) by (auto simp: c_sorted_def push_heap_def sorted_insort_key set_insort_key)
qed

lemma c_step_queue:
  assumes "c_step P r call (c, g, m) = Some (False, c', g', m')" and "c_sorted c"
  shows "c_sorted c' \<and> c_global_ct c' = c_global_ct c
    \<and> (\<forall>e \<in> set (c_pqueue c). c_global_ct c < pe_death_time e \<longrightarrow> e \<in> set (c_pqueue c'))"
proof (cases call)
  case (C_malloc o1 o2 site inner sz)
  then obtain ans where "c_malloc P r o1 o2 site inner sz (c, g, m) = Some (ans, c', g', m')" "ans \<noteq> Died" using assms(1) by auto
  note q = c_malloc_queue [OF this assms(2)]
  show ?thesis using q by simp
next
  case (C_free site inner ptr)
  then have "c_free P site inner ptr (c, g, m) = Some (False, c', g', m')" using assms(1) by simp
  note q = c_free_queue [OF this assms(2)]
  show ?thesis using q by blast
qed

lemma c_run_queue:
  assumes "c_run P r calls (c, g, m) = Some (c', g', m')" and "c_sorted c"
  shows "c_sorted c' \<and> c_global_ct c' = c_global_ct c
    \<and> (\<forall>e \<in> set (c_pqueue c). c_global_ct c < pe_death_time e \<longrightarrow> e \<in> set (c_pqueue c'))"
  using assms
proof (induction calls arbitrary: c g m)
  case (Cons call calls)
  then obtain c1 g1 m1 where s: "c_step P r call (c, g, m) = Some (False, c1, g1, m1)" "c_run P r calls (c1, g1, m1) = Some (c', g', m')"
    by (auto split: option.splits bool.splits)
  note st = c_step_queue [OF s(1) Cons.prems(2)]
  from Cons.IH [OF s(2)] st show ?case by auto
qed simp

section \<open>Properties\<close>

text \<open>C28: A delayed free is never executed.  \<open>malloc\<close> compares the death times with a member of \<open>CorrectingHeap\<close> that
  hides the global counter and is never written; it keeps the value the storage of the heap object held, 0 in the
  zeroed static storage of the library.  Over every run the queue keeps its order and every entry above that value.\<close>

theorem delayed_frees_never_run:
  assumes "CorrectingHeap file stack storage s = Some s0" and "c_run P r calls s0 = Some (c, g, m)"
    and "e \<in> set (c_pqueue c)" and "storage < pe_death_time e" and "c_run P r calls' (c, g, m) = Some (c', g', m')"
  shows "e \<in> set (c_pqueue c') \<and> c_global_ct c' = storage \<and> sorted (map pe_death_time (c_pqueue c'))"
proof -
  obtain c0 g0 m0 where s0: "s0 = (c0, g0, m0)" by (metis surj_pair)
  have c0: "c_sorted c0" "c_global_ct c0 = storage"
    using assms(1) s0 by (auto simp: CorrectingHeap_def c_sorted_def Let_def split: prod.splits)
  note r1 = c_run_queue [OF assms(2) [unfolded s0] c0(1)]
  then have "c_sorted c" by simp
  note r2 = c_run_queue [OF assms(5) this]
  show ?thesis using r1 r2 c0(2) assms(3,4) by (simp add: c_sorted_def)
qed

text \<open>For the witness: large objects, so that only the table of large objects is used.\<close>

lemma large_malloc:
  assumes "MaxObjectSize < sz" and "o1 \<noteq> 0" and "getPadding site (c_patch c) = 0" and "\<forall>e \<in> set (c_pqueue c). c_global_ct c < pe_death_time e"
    and "death_time g = 0" and "global_ct g + 1 < 2 ^ 32"
  shows "\<exists>h m'. c_malloc P False o1 o2 site inner sz (c, g, m)
    = Some (Object o1, c\<lparr>c_super := h\<rparr>, g\<lparr>global_ct := global_ct g + 1\<rparr>, m') \<and> xh_heap h = xh_heap (c_super c)"
proof -
  let ?h = "c_super c\<lparr>xh_large := lo_set o1 ((sz + 4 - 1) mod 2 ^ 32 div 4 * 4) (xh_large (c_super c))\<rparr>"
  have "free_lingering P inner (c_global_ct c) (c_pqueue c) s = (False, c_pqueue c, s)" for s
    using assms(4) by (cases "c_pqueue c") auto
  moreover have "c\<lparr>c_super := h, c_pqueue := c_pqueue c\<rparr> = c\<lparr>c_super := h\<rparr>" for h by simp
  ultimately have "c_malloc P False o1 o2 site inner sz (c, g, m)
      = Some (Object o1, c\<lparr>c_super := ?h\<rparr>, g\<lparr>global_ct := global_ct g + 1\<rparr>, x_memset o1 ((sz + 4 - 1) mod 2 ^ 32 div 4 * 4) m)"
    using assms by (simp add: c_malloc_def xh_malloc_def allocateObject_def allocateDirect_def Let_def)
  moreover have "xh_heap ?h = xh_heap (c_super c)" by simp
  ultimately show ?thesis by blast
qed

lemma large_free_delayed:
  assumes "\<not> isOnHeap P ptr (c_super c)" and "getLifeExtension 0 site (c_patch c) = td" and "td \<noteq> 0" and "c_pqueue c = []"
  shows "c_free P site inner ptr (c, g, m) = Some (False, c\<lparr>c_pqueue := [\<lparr>pe_ptr = ptr, pe_death_time = unat td\<rparr>]\<rparr>, g, m)"
  using assms by (simp add: c_free_def xh_getAllocCallsite_def xh_getObjectID_def push_heap_def PQUEUE_SIZE_def)

lemma large_mallocs:
  assumes "getPadding 1 (c_patch c) = 0" and "\<forall>e \<in> set (c_pqueue c). c_global_ct c < pe_death_time e"
    and "death_time g = 0" and "global_ct g + n < 2 ^ 32"
  shows "\<exists>c' g' m'. c_run P False (replicate n (C_malloc 0x40000000 0 1 5 20000)) (c, g, m) = Some (c', g', m')
    \<and> global_ct g' = global_ct g + n"
  using assms
proof (induction n arbitrary: c g m)
  case (Suc n)
  obtain h m1 where run: "c_malloc P False 0x40000000 0 1 5 20000 (c, g, m)
      = Some (Object 0x40000000, c\<lparr>c_super := h\<rparr>, g\<lparr>global_ct := global_ct g + 1\<rparr>, m1)"
    using large_malloc [where sz = 20000 and ?o1.0 = "0x40000000" and ?o2.0 = 0 and site = 1 and c = c and g = g and P = P and inner = 5 and m = m] Suc.prems by (auto simp: MaxObjectSize_def)
  with Suc.IH [of "c\<lparr>c_super := h\<rparr>" "g\<lparr>global_ct := global_ct g + 1\<rparr>" m1] Suc.prems show ?case by simp
qed simp

theorem delayed_frees_never_run_witness:
  "\<exists>s0 c g m c' g' m'. CorrectingHeap (Some (fst (output_patch small_db))) (replicate 1024 CHR ''a'') 0 (demo_full, demo_runtime, \<lambda>_. 0) = Some s0
     \<and> c_run demo_params False [C_malloc 0x40000000 0 1 5 20000, C_free 3 5 0x40000000] s0 = Some (c, g, m)
     \<and> c_run demo_params False (replicate 10 (C_malloc 0x40000000 0 1 5 20000)) (c, g, m) = Some (c', g', m')
     \<and> 10 < global_ct g' \<and> \<lparr>pe_ptr = 0x40000000, pe_death_time = 6\<rparr> \<in> set (c_pqueue c')"
proof -
  let ?file = "Some (fst (output_patch small_db))" let ?stack = "replicate 1024 CHR ''a''" let ?e = "\<lparr>pe_ptr = 0x40000000, pe_death_time = 6\<rparr>"
  obtain p where p: "PatchInfo_init ?file ?stack = Some p" "getPadding 1 p = 0" "getLifeExtension 0 3 p = 6"
    by (rule small_patches)
  let ?start = "\<lparr>c_super = demo_full, c_patch = p, c_global_ct = 0, c_pqueue = []\<rparr>"
  have s0: "CorrectingHeap ?file ?stack 0 (demo_full, demo_runtime, \<lambda>_. 0) = Some (?start, demo_runtime, \<lambda>_. 0)"
    by (simp add: CorrectingHeap_def p(1))
  obtain h m1 where r1: "c_malloc demo_params False 0x40000000 0 1 5 20000 (?start, demo_runtime, \<lambda>_. 0)
      = Some (Object 0x40000000, ?start\<lparr>c_super := h\<rparr>, demo_runtime\<lparr>global_ct := global_ct demo_runtime + 1\<rparr>, m1)" "xh_heap h = xh_heap demo_full"
    using large_malloc [where sz = 20000 and ?o1.0 = "0x40000000" and ?o2.0 = 0 and site = 1 and c = ?start and g = demo_runtime and P = demo_params and inner = 5 and m = "\<lambda>_. 0"] p(2)
    by (auto simp: MaxObjectSize_def demo_runtime_def)
  have off: "\<not> isOnHeap demo_params 0x40000000 h" using r1(2) by (simp add: isOnHeap_def demo_params_def demo_full_def)
  let ?c = "?start\<lparr>c_super := h, c_pqueue := [?e]\<rparr>" let ?g = "demo_runtime\<lparr>global_ct := global_ct demo_runtime + 1\<rparr>"
  have "c_free demo_params 3 5 0x40000000 (?start\<lparr>c_super := h\<rparr>, ?g, m1)
      = Some (False, ?start\<lparr>c_super := h, c_pqueue := [\<lparr>pe_ptr = 0x40000000, pe_death_time = unat (6 :: u32)\<rparr>]\<rparr>, ?g, m1)"
    by (rule large_free_delayed) (use off p(3) in simp_all)
  then have "c_free demo_params 3 5 0x40000000 (?start\<lparr>c_super := h\<rparr>, ?g, m1) = Some (False, ?c, ?g, m1)" by simp
  then have r2: "c_run demo_params False [C_malloc 0x40000000 0 1 5 20000, C_free 3 5 0x40000000] (?start, demo_runtime, \<lambda>_. 0) = Some (?c, ?g, m1)"
    using r1(1) by simp
  obtain c' g' m' where r3: "c_run demo_params False (replicate 10 (C_malloc 0x40000000 0 1 5 20000)) (?c, ?g, m1) = Some (c', g', m')"
    "global_ct g' = global_ct ?g + 10"
    using large_mallocs [of ?c ?g 10 demo_params m1] p(2) by (auto simp: demo_runtime_def)
  have "?e \<in> set (c_pqueue c')"
    using delayed_frees_never_run [OF s0 r2 _ _ r3(1), of ?e] by simp
  moreover have "10 < global_ct g'" using r3(2) by (simp add: demo_runtime_def)
  ultimately show ?thesis using s0 r2 r3(1) by blast
qed

end
