(* ===== verification/CoreFile.thy ===== *)
theory CoreFile
  imports ExtHeap PatchFile
begin

text \<open>
  The core file between the Exterminator library and its error isolator: the words \<open>dump_heap\<close> writes
  (\<open>src/exterminator/src/diehard.h\<close>), and the replica the isolator builds from them
  (\<open>src/exterminator/src/patcher/heap_structure.h\<close>, \<open>heap_structure.cpp\<close>).  The mapped file is a list of 32-bit
  words and a pointer into it the rest of the list; reading past its end is \<open>None\<close>, as is a failed
  assertion (the isolator is compiled with them).
\<close>

section \<open>Writing\<close>

definition slot_words :: "slot_info \<Rightarrow> u32 list" where
  "slot_words s = [word_of_nat (si_id s), word_of_nat (si_alloc_callsite s), word_of_nat (si_free_callsite s), word_of_nat (si_free_time s)]"

definition partition_words :: "partition_dump \<Rightarrow> u32 list" where
  "partition_words d = [word_of_nat (pd_size d), word_of_nat (pd_elements d), word_of_nat (pd_start d)]
     @ pd_allocated d @ pd_hasData d @ concat (map slot_words (pd_slots d)) @ pd_memory d"

definition los_words :: "nat \<times> (addr \<times> nat \<times> u32 list) list \<Rightarrow> u32 list" where
  "los_words = (\<lambda>(ct, es). word_of_nat ct # concat (map (\<lambda>(a, sz, ws). [word_of_nat a, word_of_nat sz] @ ws) es))"

definition core_words :: "xheap_dump \<Rightarrow> u32 list" where
  "core_words d = [word_of_nat (xd_global_ct d), xd_sentinel d, word_of_nat (xd_dl_base d), word_of_nat (xd_stack_base d),
       word_of_nat (xd_flags d), word_of_nat (xd_classes d)]
     @ concat (map partition_words (xd_partitions d)) @ los_words (xd_los d)"

section \<open>Replicas\<close>

record pinfo =
  pi_size :: nat
  pi_elements :: nat
  pi_bitmap :: "u32 list"
  pi_has_data :: "u32 list"
  pi_slots :: "slot_info list"
  pi_heap :: "u32 list"
  pi_vaddr_start :: nat
  pi_vaddr_end :: nat
  pi_replica_id :: nat

definition size_in_words :: "pinfo \<Rightarrow> nat" where
  "size_in_words p = pi_size p div 4"

text \<open>\<open>rp_pmap\<close>: partition and index of every allocation number, -1 where there is none.\<close>

record replica =
  rp_id :: nat
  rp_partitions :: "pinfo list"
  rp_los_size :: "(nat, nat) RBT.rbt"
  rp_los_map :: "(nat, u32 list) RBT.rbt"
  rp_ptr_base :: u32
  rp_stack_base :: u32
  rp_flags :: nat
  rp_global_allocs :: nat
  rp_sentinel :: u32
  rp_pmap :: "(int \<times> int) list"

definition new_replica :: "nat \<Rightarrow> replica" where
  "new_replica i = \<lparr>rp_id = i, rp_partitions = [], rp_los_size = RBT.empty, rp_los_map = RBT.empty, rp_ptr_base = 0, rp_stack_base = 0,
     rp_flags = 0, rp_global_allocs = 0, rp_sentinel = 0, rp_pmap = []\<rparr>"

definition get_bit :: "u32 list \<Rightarrow> nat \<Rightarrow> bool" where
  "get_bit bstart index =
     (let item = drop_bit 5 index; position = index - push_bit 5 item; mask = push_bit position 1
      in bstart ! item AND mask \<noteq> 0)"

definition isDieFast :: "replica \<Rightarrow> bool" where
  "isDieFast r \<longleftrightarrow> rp_flags r AND 1 \<noteq> 0"

definition isBadReplica :: "replica \<Rightarrow> bool" where
  "isBadReplica r \<longleftrightarrow> rp_flags r AND 2 \<noteq> 0"

definition makeBadReplica :: "replica \<Rightarrow> replica" where
  "makeBadReplica r = r\<lparr>rp_flags := rp_flags r OR 2\<rparr>"

definition DXhasData :: "pinfo \<Rightarrow> nat \<Rightarrow> bool option" where
  "DXhasData p which = (if which < pi_elements p then Some (get_bit (pi_has_data p) which) else None)"

definition DXallocated :: "pinfo \<Rightarrow> nat \<Rightarrow> bool option" where
  "DXallocated p which = (if which < pi_elements p then Some (get_bit (pi_bitmap p) which) else None)"

definition DXtoID :: "pinfo \<Rightarrow> nat \<Rightarrow> nat" where
  "DXtoID p idx = si_id (pi_slots p ! idx)"

definition DXtoAllocSite :: "pinfo \<Rightarrow> nat \<Rightarrow> nat" where
  "DXtoAllocSite p idx = si_alloc_callsite (pi_slots p ! idx)"

definition DXtoFreeSite :: "pinfo \<Rightarrow> nat \<Rightarrow> nat" where
  "DXtoFreeSite p idx = si_free_callsite (pi_slots p ! idx)"

definition DXtoFreeTime :: "pinfo \<Rightarrow> nat \<Rightarrow> nat" where
  "DXtoFreeTime p idx = si_free_time (pi_slots p ! idx)"

text \<open>A pointer into the memory of the partition is the index of a word.\<close>

definition DXtoPointer :: "pinfo \<Rightarrow> nat \<Rightarrow> nat" where
  "DXtoPointer p idx = size_in_words p * idx"

definition isSentinel :: "replica \<Rightarrow> pinfo \<Rightarrow> nat \<Rightarrow> bool" where
  "isSentinel r p ptr \<longleftrightarrow> rp_sentinel r = pi_heap p ! ptr"

definition check_sentinel :: "replica \<Rightarrow> pinfo \<Rightarrow> nat \<Rightarrow> bool" where
  "check_sentinel r p dx = list_all (\<lambda>i. isSentinel r p (DXtoPointer p dx + i)) [0..<size_in_words p]"

section \<open>Reading\<close>

fun read_word :: "u32 list \<Rightarrow> (u32 \<times> u32 list) option" where
  "read_word [] = None"
| "read_word (w # ws) = Some (w, ws)"

definition read_words :: "nat \<Rightarrow> u32 list \<Rightarrow> (u32 list \<times> u32 list) option" where
  "read_words n ws = (if n \<le> length ws then Some (take n ws, drop n ws) else None)"

fun read_slots :: "u32 list \<Rightarrow> slot_info list" where
  "read_slots (a # b # c # d # ws) =
     \<lparr>si_id = unat a, si_alloc_callsite = unat b, si_free_callsite = unat c, si_free_time = unat d\<rparr> # read_slots ws"
| "read_slots ws = []"

definition read_partition :: "u32 list \<Rightarrow> replica \<Rightarrow> (replica \<times> u32 list) option" where
  "read_partition cursor r = do {
     (size, cursor) \<leftarrow> read_word cursor; (elements, cursor) \<leftarrow> read_word cursor; (start, cursor) \<leftarrow> read_word cursor;
     (bitmap, cursor) \<leftarrow> read_words (unat elements div 32) cursor;
     (has_data, cursor) \<leftarrow> read_words (unat elements div 32) cursor;
     (slots, cursor) \<leftarrow> read_words (unat elements * 4) cursor;
     (heap, cursor) \<leftarrow> read_words (unat size div 4 * unat elements) cursor;
     Some (r\<lparr>rp_partitions := rp_partitions r @ [\<lparr>pi_size = unat size, pi_elements = unat elements, pi_bitmap = bitmap, pi_has_data = has_data,
             pi_slots = read_slots slots, pi_heap = heap, pi_vaddr_start = unat start,
             pi_vaddr_end = unat (start + size * elements), pi_replica_id = rp_id r\<rparr>]\<rparr>, cursor) }"

fun read_partitions :: "nat \<Rightarrow> u32 list \<Rightarrow> replica \<Rightarrow> (replica \<times> u32 list) option" where
  "read_partitions 0 cursor r = Some (r, cursor)"
| "read_partitions (Suc n) cursor r = do { (r, cursor) \<leftarrow> read_partition cursor r; read_partitions n cursor r }"

definition read_los_entry :: "u32 list \<Rightarrow> replica \<Rightarrow> (replica \<times> u32 list) option" where
  "read_los_entry cursor r = do {
     (vaddr, cursor) \<leftarrow> read_word cursor; (size, cursor) \<leftarrow> read_word cursor;
     (ws, cursor') \<leftarrow> read_words (unat size div 4) cursor;
     Some (r\<lparr>rp_los_size := RBT.insert (unat vaddr) (unat size) (rp_los_size r), rp_los_map := RBT.insert (unat vaddr) ws (rp_los_map r)\<rparr>, cursor') }"

fun read_los :: "nat \<Rightarrow> u32 list \<Rightarrow> replica \<Rightarrow> (replica \<times> u32 list) option" where
  "read_los 0 cursor r = Some (r, cursor)"
| "read_los (Suc n) cursor r = do { (r, cursor) \<leftarrow> read_los_entry cursor r; read_los n cursor r }"

text \<open>\<open>make_partition_maps\<close>: the slots of partition \<open>i\<close> from \<open>j\<close> on, with the number of slots left.\<close>

fun map_slots :: "nat \<Rightarrow> pinfo \<Rightarrow> nat \<Rightarrow> nat \<Rightarrow> nat \<Rightarrow> (int \<times> int) list \<Rightarrow> (int \<times> int) list option" where
  "map_slots allocs info i 0 j pmap = Some pmap"
| "map_slots allocs info i (Suc n) j pmap =
     (let oid = DXtoID info j
      in if oid \<le> allocs then map_slots allocs info i n (j + 1) (pmap[oid := (int i, int j)]) else None)"

fun map_partitions :: "nat \<Rightarrow> pinfo list \<Rightarrow> nat \<Rightarrow> (int \<times> int) list \<Rightarrow> (int \<times> int) list option" where
  "map_partitions allocs [] i pmap = Some pmap"
| "map_partitions allocs (info # infos) i pmap = do {
     pmap \<leftarrow> map_slots allocs info i (pi_elements info) 0 pmap; map_partitions allocs infos (i + 1) pmap }"

definition make_partition_maps :: "replica \<Rightarrow> replica option" where
  "make_partition_maps r =
     map_option (\<lambda>pmap. r\<lparr>rp_pmap := pmap\<rparr>)
       (map_partitions (rp_global_allocs r) (rp_partitions r) 0 (replicate (rp_global_allocs r + 1) (-1, -1)))"

definition verify_canaries :: "replica \<Rightarrow> replica" where
  "verify_canaries r =
     fold (\<lambda>p. fold (\<lambda>k r. if \<not> get_bit (pi_has_data p) k \<and> \<not> check_sentinel r p k then makeBadReplica r else r) [0..<pi_elements p])
       (rp_partitions r) r"

definition read_core :: "u32 list \<Rightarrow> replica \<Rightarrow> replica option" where
  "read_core core r = do {
     (global_allocs, cursor) \<leftarrow> read_word core; (sentinel_value, cursor) \<leftarrow> read_word cursor; (ptr_base, cursor) \<leftarrow> read_word cursor;
     (stack, cursor) \<leftarrow> read_word cursor; (flags, cursor) \<leftarrow> read_word cursor; (number, cursor) \<leftarrow> read_word cursor;
     (r, cursor) \<leftarrow> read_partitions (nat (sint number)) cursor
        (r\<lparr>rp_global_allocs := unat global_allocs, rp_sentinel := sentinel_value, rp_ptr_base := ptr_base, rp_stack_base := stack, rp_flags := unat flags\<rparr>);
     (entries, cursor) \<leftarrow> read_word cursor;
     (r, cursor) \<leftarrow> read_los (nat (sint entries)) cursor r;
     r \<leftarrow> make_partition_maps r;
     Some (verify_canaries r) }"

section \<open>The isolator reads what the heap wrote\<close>

lemma unat_word: "n < 2 ^ 32 \<Longrightarrow> unat (word_of_nat n :: u32) = n"
  by (simp add: unsigned_of_nat take_bit_nat_eq_self)

lemma sint_word: "n < 2 ^ 31 \<Longrightarrow> nat (sint (word_of_nat n :: u32)) = n"
proof -
  assume n: "n < 2 ^ 31"
  then have "uint (word_of_nat n :: u32) = int n" using unat_word [of n] by (simp add: uint_nat)
  moreover have "signed_take_bit 31 (int n) = int n" using n by (intro signed_take_bit_int_eq_self) simp_all
  ultimately show ?thesis by (simp add: sint_uint)
qed

lemma read_words_app: "length ws = n \<Longrightarrow> read_words n (ws @ rest) = Some (ws, rest)"
  by (auto simp: read_words_def)

definition slot_fits :: "slot_info \<Rightarrow> bool" where
  "slot_fits s \<longleftrightarrow> si_id s < 2 ^ 32 \<and> si_alloc_callsite s < 2 ^ 32 \<and> si_free_callsite s < 2 ^ 32 \<and> si_free_time s < 2 ^ 32"

lemma read_slots_words: "list_all slot_fits ss \<Longrightarrow> read_slots (concat (map slot_words ss)) = ss"
  by (induction ss) (simp_all add: slot_words_def slot_fits_def unat_word)

lemma slot_words_length: "length (concat (map slot_words ss)) = length ss * 4"
  by (induction ss) (simp_all add: slot_words_def)

text \<open>The partition the isolator should see.\<close>

definition pinfo_of :: "nat \<Rightarrow> partition \<Rightarrow> wmem \<Rightarrow> pinfo" where
  "pinfo_of rid p m = \<lparr>pi_size = p_size p, pi_elements = p_elements p, pi_bitmap = xb_bitarray (p_allocated p),
     pi_has_data = xb_bitarray (p_hasData p), pi_slots = md_slots (p_meta p),
     pi_heap = map (\<lambda>j. m (p_start p + 4 * j)) [0..<p_size p div 4 * p_elements p],
     pi_vaddr_start = p_start p, pi_vaddr_end = p_start p + p_size p * p_elements p, pi_replica_id = rid\<rparr>"

definition dump_ready :: "partition \<Rightarrow> bool" where
  "dump_ready p \<longleftrightarrow> part_ok p \<and> md_elements (p_meta p) = p_elements p \<and> list_all slot_fits (md_slots (p_meta p))"

lemma bitmap_words: "xb_inv b \<Longrightarrow> dump_bitmap b = xb_bitarray b \<and> length (xb_bitarray b) = xb_elements b div 32"
  by (auto simp: xb_inv_def dump_bitmap_def)

lemma part_bounds:
  assumes "part_ok p"
  shows "p_size p < 2 ^ 32" "p_elements p < 2 ^ 32" "p_start p < 2 ^ 32" "p_start p + p_size p * p_elements p < 2 ^ 32"
    "p_size p * p_elements p div 4 = p_size p div 4 * p_elements p" "0 < p_elements p"
proof -
  note d = part_okD [OF assms]
  obtain k where "p_elements p = 2 ^ k" using assms by (auto simp: part_ok_def)
  then show e: "0 < p_elements p" by simp
  show "p_start p + p_size p * p_elements p < 2 ^ 32" using d(7) by (simp add: mult.commute)
  then have "p_size p * p_elements p < 2 ^ 32" by linarith
  then show "p_size p < 2 ^ 32" "p_elements p < 2 ^ 32" using e d(9)
    by (meson le_less_trans dvd_imp_le dvd_triv_left dvd_triv_right mult_pos_pos)+
  show "p_start p < 2 ^ 32" using d(7) by linarith
  show "p_size p * p_elements p div 4 = p_size p div 4 * p_elements p"
    using dvd_trans [OF _ d(8), of 4] by (simp add: dvd_div_mult)
qed

lemma read_partition_words:
  assumes "dump_ready p"
  shows "read_partition (partition_words (p_dump_heap p m) @ rest) r
    = Some (r\<lparr>rp_partitions := rp_partitions r @ [pinfo_of (rp_id r) p m]\<rparr>, rest)"
proof -
  have ok: "part_ok p" and sl: "md_elements (p_meta p) = p_elements p" "list_all slot_fits (md_slots (p_meta p))"
    using assms by (auto simp: dump_ready_def)
  note d = part_okD [OF ok] and b = part_bounds [OF ok]
  note bm = bitmap_words [OF d(2)] bitmap_words [OF d(4)]
  have end_word: "unat (word_of_nat (p_start p) + word_of_nat (p_size p) * word_of_nat (p_elements p) :: u32) = p_start p + p_size p * p_elements p"
    using unat_word [OF b(4)] by simp
  have slots: "dumpMetadata (p_meta p) = md_slots (p_meta p)" using sl(1) d(6) by (simp add: dumpMetadata_def)
  have rs: "read_words (p_elements p * 4) (concat (map slot_words (md_slots (p_meta p))) @ x) = Some (concat (map slot_words (md_slots (p_meta p))), x)" for x
    by (rule read_words_app) (simp add: slot_words_length d(6))
  have rb: "read_words (p_elements p div 32) (xb_bitarray (p_allocated p) @ x) = Some (xb_bitarray (p_allocated p), x)"
    "read_words (p_elements p div 32) (xb_bitarray (p_hasData p) @ x) = Some (xb_bitarray (p_hasData p), x)" for x
    using bm d(3,5) by (simp_all add: read_words_app)
  have rm: "read_words (p_size p div 4 * p_elements p) (map (\<lambda>j. m (p_start p + 4 * j)) [0..<p_size p div 4 * p_elements p] @ x)
      = Some (map (\<lambda>j. m (p_start p + 4 * j)) [0..<p_size p div 4 * p_elements p], x)" for x
    by (rule read_words_app) simp
  show ?thesis
    using bm b(5)
    by (simp add: read_partition_def partition_words_def p_dump_heap_def slots unat_word [OF b(1)] unat_word [OF b(2)] unat_word [OF b(3)] rb rs rm read_slots_words [OF sl(2)]
        end_word pinfo_of_def del: of_nat_mult of_nat_add)
qed

lemma read_partitions_words:
  assumes "list_all dump_ready ps"
  shows "read_partitions (length ps) (concat (map (\<lambda>p. partition_words (p_dump_heap p m)) ps) @ rest) r
    = Some (r\<lparr>rp_partitions := rp_partitions r @ map (\<lambda>p. pinfo_of (rp_id r) p m) ps\<rparr>, rest)"
  using assms by (induction ps arbitrary: r) (simp_all add: read_partition_words)

lemma map_slots_spec:
  assumes "\<And>k. j \<le> k \<Longrightarrow> k < j + n \<Longrightarrow> DXtoID info k \<le> allocs" and "length pmap = allocs + 1"
  obtains pmap' where "map_slots allocs info i n j pmap = Some pmap'" "length pmap' = allocs + 1"
    "\<And>oid. oid \<le> allocs \<Longrightarrow> (\<exists>k. j \<le> k \<and> k < j + n \<and> DXtoID info k = oid \<and> pmap' ! oid = (int i, int k))
       \<or> (\<forall>k. j \<le> k \<and> k < j + n \<longrightarrow> DXtoID info k \<noteq> oid) \<and> pmap' ! oid = pmap ! oid"
  using assms
proof (induction n arbitrary: j pmap thesis)
  case (Suc n)
  let ?o = "DXtoID info j" let ?pm = "pmap[DXtoID info j := (int i, int j)]"
  have o: "?o \<le> allocs" using Suc.prems(2) [of j] by simp
  obtain pmap' where r: "map_slots allocs info i n (j + 1) ?pm = Some pmap'" "length pmap' = allocs + 1"
    and q: "\<And>oid. oid \<le> allocs \<Longrightarrow> (\<exists>k. j + 1 \<le> k \<and> k < j + 1 + n \<and> DXtoID info k = oid \<and> pmap' ! oid = (int i, int k))
       \<or> (\<forall>k. j + 1 \<le> k \<and> k < j + 1 + n \<longrightarrow> DXtoID info k \<noteq> oid) \<and> pmap' ! oid = ?pm ! oid"
    by (rule Suc.IH [of "j + 1" ?pm]) (use Suc.prems(2,3) in auto)
  show ?case
  proof (rule Suc.prems(1))
    show "map_slots allocs info i (Suc n) j pmap = Some pmap'" using r(1) o by simp
    fix oid assume oid: "oid \<le> allocs"
    show "(\<exists>k. j \<le> k \<and> k < j + Suc n \<and> DXtoID info k = oid \<and> pmap' ! oid = (int i, int k))
       \<or> (\<forall>k. j \<le> k \<and> k < j + Suc n \<longrightarrow> DXtoID info k \<noteq> oid) \<and> pmap' ! oid = pmap ! oid"
    proof (cases "\<exists>k. j + 1 \<le> k \<and> k < j + 1 + n \<and> DXtoID info k = oid \<and> pmap' ! oid = (int i, int k)")
      case True
      then obtain k where "j + 1 \<le> k" "k < j + 1 + n" "DXtoID info k = oid" "pmap' ! oid = (int i, int k)" by blast
      then show ?thesis by (intro disjI1 exI [of _ k]) simp
    next
      case False
      with q [OF oid] have n: "\<forall>k. j + 1 \<le> k \<and> k < j + 1 + n \<longrightarrow> DXtoID info k \<noteq> oid" "pmap' ! oid = ?pm ! oid" by blast+
      show ?thesis
      proof (cases "?o = oid")
        case True
        then have "pmap' ! oid = (int i, int j)" using n(2) oid Suc.prems(3) by simp
        with True show ?thesis by (intro disjI1 exI [of _ j]) simp
      next
        case False
        then have "pmap' ! oid = pmap ! oid" using n(2) by simp
        moreover have "DXtoID info k \<noteq> oid" if "j \<le> k" "k < j + Suc n" for k
          using n(1) False that by (cases "k = j") auto
        ultimately show ?thesis by blast
      qed
    qed
  qed (rule r(2))
qed simp

text \<open>The slot of a number, when there is one.\<close>

definition pmap_entry :: "pinfo list \<Rightarrow> nat \<Rightarrow> int \<times> int \<Rightarrow> bool" where
  "pmap_entry infos oid e \<longleftrightarrow>
     (\<exists>i j. i < length infos \<and> j < pi_elements (infos ! i) \<and> DXtoID (infos ! i) j = oid \<and> e = (int i, int j))
     \<or> (\<forall>i < length infos. \<forall>j < pi_elements (infos ! i). DXtoID (infos ! i) j \<noteq> oid) \<and> e = (-1, -1)"

lemma map_partitions_spec:
  assumes "\<And>i k. i < length infos \<Longrightarrow> k < pi_elements (infos ! i) \<Longrightarrow> DXtoID (infos ! i) k \<le> allocs"
    and "length pmap = allocs + 1" and "n \<le> length infos" and "\<And>oid. oid \<le> allocs \<Longrightarrow> pmap_entry (take n infos) oid (pmap ! oid)"
  shows "\<exists>pmap'. map_partitions allocs (drop n infos) n pmap = Some pmap' \<and> length pmap' = allocs + 1
    \<and> (\<forall>oid \<le> allocs. pmap_entry infos oid (pmap' ! oid))"
  using assms(2-)
proof (induction "length infos - n" arbitrary: n pmap)
  case 0
  then show ?case by simp
next
  case (Suc l)
  then have n: "n < length infos" by simp
  obtain pm where r: "map_slots allocs (infos ! n) n (pi_elements (infos ! n)) 0 pmap = Some pm" "length pm = allocs + 1"
    and q: "\<And>oid. oid \<le> allocs \<Longrightarrow> (\<exists>k. 0 \<le> k \<and> k < 0 + pi_elements (infos ! n) \<and> DXtoID (infos ! n) k = oid \<and> pm ! oid = (int n, int k))
       \<or> (\<forall>k. 0 \<le> k \<and> k < 0 + pi_elements (infos ! n) \<longrightarrow> DXtoID (infos ! n) k \<noteq> oid) \<and> pm ! oid = pmap ! oid"
    by (rule map_slots_spec [of 0 "pi_elements (infos ! n)" "infos ! n" allocs pmap n]) (use assms(1) [OF n] Suc.prems(1) in auto)
  have e: "pmap_entry (take (Suc n) infos) oid (pm ! oid)" if oid: "oid \<le> allocs" for oid
  proof (cases "\<exists>k < pi_elements (infos ! n). DXtoID (infos ! n) k = oid \<and> pm ! oid = (int n, int k)")
    case True
    then obtain k where "k < pi_elements (infos ! n)" "DXtoID (infos ! n) k = oid" "pm ! oid = (int n, int k)" by blast
    then show ?thesis unfolding pmap_entry_def using n by (intro disjI1 exI [of _ n] exI [of _ k]) simp
  next
    case False
    with q [OF oid] have no: "\<forall>k < pi_elements (infos ! n). DXtoID (infos ! n) k \<noteq> oid" "pm ! oid = pmap ! oid" by auto
    have len: "length (take (Suc n) infos) = Suc n" "length (take n infos) = n" using n by simp_all
    from Suc.prems(3) [OF oid] consider (old) i j where "i < n" "j < pi_elements (infos ! i)" "DXtoID (infos ! i) j = oid" "pmap ! oid = (int i, int j)"
      | (none) "\<forall>i < n. \<forall>j < pi_elements (infos ! i). DXtoID (infos ! i) j \<noteq> oid" "pmap ! oid = (-1, -1)"
      unfolding pmap_entry_def len by auto
    then show ?thesis
    proof cases
      case old
      then show ?thesis unfolding no(2) pmap_entry_def len by (intro disjI1 exI [of _ i] exI [of _ j]) simp
    next
      case none
      then have "\<forall>i < Suc n. \<forall>j < pi_elements (infos ! i). DXtoID (infos ! i) j \<noteq> oid" using no(1) by (metis less_Suc_eq)
      then show ?thesis unfolding no(2) pmap_entry_def len using none(2) by simp
    qed
  qed
  have "l = length infos - Suc n" using Suc.hyps(2) n by simp
  from Suc.hyps(1) [OF this r(2) _ e] n obtain pmap' where "map_partitions allocs (drop (Suc n) infos) (Suc n) pm = Some pmap'"
    "length pmap' = allocs + 1" "\<forall>oid \<le> allocs. pmap_entry infos oid (pmap' ! oid)" by auto
  moreover have "drop n infos = infos ! n # drop (Suc n) infos" using n by (simp add: Cons_nth_drop_Suc)
  ultimately show ?case using r(1) by simp
qed

lemma make_maps:
  assumes "\<And>i k. i < length (rp_partitions r) \<Longrightarrow> k < pi_elements (rp_partitions r ! i) \<Longrightarrow> DXtoID (rp_partitions r ! i) k \<le> rp_global_allocs r"
  obtains pmap where "make_partition_maps r = Some (r\<lparr>rp_pmap := pmap\<rparr>)"
    "\<And>oid. oid \<le> rp_global_allocs r \<Longrightarrow> pmap_entry (rp_partitions r) oid (pmap ! oid)"
proof -
  let ?n = "rp_global_allocs r + 1"
  have "pmap_entry (take 0 (rp_partitions r)) oid (replicate ?n (-1, -1) ! oid)" if "oid \<le> rp_global_allocs r" for oid
  proof -
    have "replicate ?n (-1, -1) ! oid = (-1, -1)" using that by (intro nth_replicate) simp
    then show ?thesis by (simp add: pmap_entry_def del: replicate.simps)
  qed
  with map_partitions_spec [OF assms, of "replicate ?n (-1, -1)" 0] obtain pmap
    where "map_partitions (rp_global_allocs r) (rp_partitions r) 0 (replicate ?n (-1, -1)) = Some pmap"
      "\<forall>oid \<le> rp_global_allocs r. pmap_entry (rp_partitions r) oid (pmap ! oid)" by auto
  then show thesis by (intro that [of pmap]) (simp_all add: make_partition_maps_def)
qed

section \<open>Canaries\<close>

definition dead_canary :: "replica \<Rightarrow> pinfo \<Rightarrow> nat \<Rightarrow> bool" where
  "dead_canary r p k \<longleftrightarrow> \<not> get_bit (pi_has_data p) k \<and> \<not> check_sentinel r p k"

lemma dead_canary_bad: "dead_canary (makeBadReplica r) p k = dead_canary r p k"
  by (simp add: dead_canary_def check_sentinel_def isSentinel_def makeBadReplica_def)

lemma bad_makeBad: "isBadReplica (makeBadReplica r)"
proof -
  have "bit ((rp_flags r OR 2) AND 2) 1" by (simp add: bit_simps)
  then have "(rp_flags r OR 2) AND 2 \<noteq> 0" by (metis bit_0_eq bot_apply bot_bool_def)
  then show ?thesis by (simp add: isBadReplica_def makeBadReplica_def)
qed

definition mark :: "pinfo \<Rightarrow> nat \<Rightarrow> replica \<Rightarrow> replica" where
  "mark p k r = (if dead_canary r p k then makeBadReplica r else r)"

lemma mark_keeps:
  "rp_partitions (mark p k r) = rp_partitions r" "rp_sentinel (mark p k r) = rp_sentinel r" "rp_global_allocs (mark p k r) = rp_global_allocs r"
  "rp_pmap (mark p k r) = rp_pmap r" "isBadReplica (mark p k r) \<longleftrightarrow> isBadReplica r \<or> dead_canary r p k" "dead_canary (mark p k r) p' k' = dead_canary r p' k'"
  by (simp_all add: mark_def dead_canary_bad bad_makeBad) (simp_all add: makeBadReplica_def)

lemma mark_slots:
  "isBadReplica (fold (mark p) ks r) \<longleftrightarrow> isBadReplica r \<or> (\<exists>k \<in> set ks. dead_canary r p k)"
  "dead_canary (fold (mark p) ks r) p' k' = dead_canary r p' k'"
  "rp_partitions (fold (mark p) ks r) = rp_partitions r" "rp_sentinel (fold (mark p) ks r) = rp_sentinel r"
  "rp_global_allocs (fold (mark p) ks r) = rp_global_allocs r" "rp_pmap (fold (mark p) ks r) = rp_pmap r"
  by (induction ks arbitrary: r) (auto simp: mark_keeps)

lemma verify_canaries_mark: "verify_canaries r = fold (\<lambda>p. fold (mark p) [0..<pi_elements p]) (rp_partitions r) r"
  by (simp add: verify_canaries_def mark_def [abs_def] dead_canary_def)

lemma verify_canaries_spec:
  "isBadReplica (verify_canaries r) \<longleftrightarrow> isBadReplica r \<or> (\<exists>p \<in> set (rp_partitions r). \<exists>k < pi_elements p. dead_canary r p k)"
  "rp_partitions (verify_canaries r) = rp_partitions r" "rp_sentinel (verify_canaries r) = rp_sentinel r"
  "rp_global_allocs (verify_canaries r) = rp_global_allocs r" "rp_pmap (verify_canaries r) = rp_pmap r"
proof -
  have "(isBadReplica (fold (\<lambda>p. fold (mark p) [0..<pi_elements p]) ps r) \<longleftrightarrow> isBadReplica r \<or> (\<exists>p \<in> set ps. \<exists>k < pi_elements p. dead_canary r p k))
    \<and> rp_partitions (fold (\<lambda>p. fold (mark p) [0..<pi_elements p]) ps r) = rp_partitions r
    \<and> rp_sentinel (fold (\<lambda>p. fold (mark p) [0..<pi_elements p]) ps r) = rp_sentinel r
    \<and> rp_global_allocs (fold (\<lambda>p. fold (mark p) [0..<pi_elements p]) ps r) = rp_global_allocs r
    \<and> rp_pmap (fold (\<lambda>p. fold (mark p) [0..<pi_elements p]) ps r) = rp_pmap r" for ps
    by (induction ps arbitrary: r) (auto simp: mark_slots)
  then show "isBadReplica (verify_canaries r) \<longleftrightarrow> isBadReplica r \<or> (\<exists>p \<in> set (rp_partitions r). \<exists>k < pi_elements p. dead_canary r p k)"
    "rp_partitions (verify_canaries r) = rp_partitions r" "rp_sentinel (verify_canaries r) = rp_sentinel r"
    "rp_global_allocs (verify_canaries r) = rp_global_allocs r" "rp_pmap (verify_canaries r) = rp_pmap r"
    unfolding verify_canaries_mark by simp_all
qed

lemma heap_word:
  assumes "part_ok p" and "k < p_elements p" and "i < p_size p div 4"
  shows "pi_heap (pinfo_of rid p m) ! (p_size p div 4 * k + i) = m (slot_at p k + 4 * i)"
proof -
  have "p_size p div 4 * Suc k \<le> p_size p div 4 * p_elements p" using assms(2) by (intro mult_le_mono2) simp
  then have lt: "p_size p div 4 * k + i < p_size p div 4 * p_elements p" using assms(3) by simp
  have "4 dvd p_size p" using dvd_trans [OF _ part_okD(8) [OF assms(1)], of 4] by simp
  then obtain q where q: "p_size p = 4 * q" by (elim dvdE)
  with lt show ?thesis by (simp add: pinfo_of_def slot_at_def algebra_simps)
qed

lemma get_bit_bits:
  assumes "xb_inv b" and "k < xb_elements b"
  shows "get_bit (xb_bitarray b) k \<longleftrightarrow> k \<in> xb_bits b"
proof -
  have "xb_bitarray b ! (k div 32) AND push_bit (k mod 32) 1 \<noteq> 0 \<longleftrightarrow> bit (xb_bitarray b ! (k div 32)) (k mod 32)"
    using and_push_bit_1 [of "xb_bitarray b ! (k div 32)" "k mod 32"] by (simp del: push_bit_of_1)
  then show ?thesis using assms(2) by (simp add: get_bit_def xb_bits_def xb_position Let_def del: push_bit_of_1)
qed

lemma dead_canary_corrupted:
  assumes "part_ok p" and "k < p_elements p" and "rp_sentinel r = sentinel g"
  shows "dead_canary r (pinfo_of rid p m) k \<longleftrightarrow> corrupted p g m k"
proof -
  note d = part_okD [OF assms(1)]
  have "get_bit (pi_has_data (pinfo_of rid p m)) k \<longleftrightarrow> k \<in> xb_bits (p_hasData p)"
    using get_bit_bits [OF d(4)] d(5) assms(2) by (simp add: pinfo_of_def)
  moreover have "check_sentinel r (pinfo_of rid p m) k \<longleftrightarrow> \<not> x_checkNot (slot_at p k) (p_size p) (sentinel g) m"
  proof -
    have "check_sentinel r (pinfo_of rid p m) k \<longleftrightarrow> (\<forall>i < p_size p div 4. pi_heap (pinfo_of rid p m) ! (p_size p div 4 * k + i) = sentinel g)"
      using assms(3) by (auto simp: check_sentinel_def isSentinel_def DXtoPointer_def size_in_words_def list_all_iff pinfo_of_def)
    also have "\<dots> \<longleftrightarrow> (\<forall>i < p_size p div 4. m (slot_at p k + 4 * i) = sentinel g)" using heap_word [OF assms(1,2)] by simp
    finally show ?thesis by (simp add: x_checkNot_iff)
  qed
  ultimately show ?thesis by (simp add: dead_canary_def corrupted_def)
qed

definition large_ready :: "nat \<times> (addr \<times> nat \<times> u32 list) list \<Rightarrow> bool" where
  "large_ready l \<longleftrightarrow> fst l = length (snd l) \<and> fst l < 2 ^ 31 \<and> distinct (map fst (snd l))
     \<and> list_all (\<lambda>(a, sz, ws). a < 2 ^ 32 \<and> sz < 2 ^ 32 \<and> length ws = sz div 4) (snd l)"

lemma read_los_words:
  assumes "list_all (\<lambda>(a, sz, ws). a < 2 ^ 32 \<and> sz < 2 ^ 32 \<and> length ws = sz div 4) es" and "distinct (map fst es)"
  shows "\<exists>ss ms. read_los (length es) (concat (map (\<lambda>(a, sz, ws). [word_of_nat a, word_of_nat sz] @ ws) es) @ rest) r
      = Some (r\<lparr>rp_los_size := ss, rp_los_map := ms\<rparr>, rest)
    \<and> (\<forall>a. RBT.lookup ss a = (case map_of es a of Some (sz, ws) \<Rightarrow> Some sz | None \<Rightarrow> RBT.lookup (rp_los_size r) a))"
  using assms
proof (induction es arbitrary: r)
  case Nil
  then show ?case by (intro exI [of _ "rp_los_size r"] exI [of _ "rp_los_map r"]) simp
next
  case (Cons e es)
  obtain a sz ws where e: "e = (a, sz, ws)" by (metis surj_pair)
  have b: "a < 2 ^ 32" "sz < 2 ^ 32" "length ws = sz div 4" using Cons.prems(1) by (simp_all add: e)
  let ?r = "r\<lparr>rp_los_size := RBT.insert a sz (rp_los_size r), rp_los_map := RBT.insert a ws (rp_los_map r)\<rparr>"
  have "read_los_entry (word_of_nat a # word_of_nat sz # ws @ x) r = Some (?r, x)" for x
    using read_words_app [OF b(3)] by (simp add: read_los_entry_def unat_word [OF b(1)] unat_word [OF b(2)])
  moreover have n: "map_of es a = None" using Cons.prems(2) e by (auto simp: map_of_eq_None_iff)
  moreover from Cons.IH [of ?r] Cons.prems obtain ss ms where
    "read_los (length es) (concat (map (\<lambda>(a, sz, ws). [word_of_nat a, word_of_nat sz] @ ws) es) @ rest) ?r
      = Some (?r\<lparr>rp_los_size := ss, rp_los_map := ms\<rparr>, rest)"
    "\<forall>a'. RBT.lookup ss a' = (case map_of es a' of Some (sz, ws) \<Rightarrow> Some sz | None \<Rightarrow> RBT.lookup (rp_los_size ?r) a')"
    by auto
  ultimately show ?case by (intro exI [of _ ss] exI [of _ ms]) (auto simp: e split: option.splits)
qed

section \<open>Properties\<close>

definition core_ready :: "xheap \<Rightarrow> runtime \<Rightarrow> wmem \<Rightarrow> bool" where
  "core_ready h g m \<longleftrightarrow> global_ct g < 2 ^ 32 \<and> list_all dump_ready (xh_pInfo h) \<and> length (xh_pInfo h) = NumberOfClasses
     \<and> (\<forall>p \<in> set (xh_pInfo h). \<forall>s \<in> set (md_slots (p_meta p)). si_id s \<le> global_ct g) \<and> large_ready (dump_los m (xh_large h))"

lemma read_core_words:
  assumes "global_ct g < 2 ^ 32" and "list_all dump_ready ps" and "length ps = NumberOfClasses" and "large_ready (ct, es)"
    and "\<And>p s. p \<in> set ps \<Longrightarrow> s \<in> set (md_slots (p_meta p)) \<Longrightarrow> si_id s \<le> global_ct g"
    and "d = \<lparr>xd_global_ct = global_ct g, xd_sentinel = sentinel g, xd_dl_base = dl, xd_stack_base = sb, xd_flags = heap_config_flags g,
        xd_classes = NumberOfClasses, xd_partitions = map (\<lambda>p. p_dump_heap p m) ps, xd_los = (ct, es)\<rparr>"
  obtains r where "read_core (core_words d) (new_replica i) = Some (verify_canaries r)" "rp_global_allocs r = global_ct g"
    "rp_sentinel r = sentinel g" "rp_partitions r = map (\<lambda>p. pinfo_of i p m) ps" "isBadReplica r \<longleftrightarrow> bad_replica g"
    "\<forall>oid \<le> global_ct g. pmap_entry (rp_partitions r) oid (rp_pmap r ! oid)"
proof -
  let ?r0 = "(new_replica i)\<lparr>rp_global_allocs := global_ct g, rp_sentinel := sentinel g, rp_ptr_base := word_of_nat dl,
      rp_stack_base := word_of_nat sb, rp_flags := heap_config_flags g\<rparr>"
  let ?r1 = "?r0\<lparr>rp_partitions := map (\<lambda>p. pinfo_of i p m) ps\<rparr>"
  have f: "heap_config_flags g < 2 ^ 32" by (simp add: heap_config_flags_def)
  have n: "nat (sint (word_of_nat NumberOfClasses :: u32)) = length ps" using sint_word [of NumberOfClasses] assms(3) by (simp add: NumberOfClasses_def)
  have l: "ct = length es" "nat (sint (word_of_nat ct :: u32)) = length es" "distinct (map fst es)"
    "list_all (\<lambda>(a, sz, ws). a < 2 ^ 32 \<and> sz < 2 ^ 32 \<and> length ws = sz div 4) es"
    using assms(4) sint_word [of ct] by (simp_all add: large_ready_def)
  obtain ss ms where los: "read_los (length es) (concat (map (\<lambda>(a, sz, ws). [word_of_nat a, word_of_nat sz] @ ws) es)) ?r1
      = Some (?r1\<lparr>rp_los_size := ss, rp_los_map := ms\<rparr>, [])"
    using read_los_words [OF l(4,3), of "[]" ?r1] by auto
  let ?r2 = "?r1\<lparr>rp_los_size := ss, rp_los_map := ms\<rparr>"
  have ids: "DXtoID (rp_partitions ?r2 ! j) k \<le> rp_global_allocs ?r2"
    if "j < length (rp_partitions ?r2)" "k < pi_elements (rp_partitions ?r2 ! j)" for j k
  proof -
    have j: "j < length ps" using that(1) by simp
    then have "part_ok (ps ! j)" using assms(2) by (simp add: list_all_length dump_ready_def)
    moreover have "k < p_elements (ps ! j)" using that j by (simp add: pinfo_of_def)
    ultimately have "md_slots (p_meta (ps ! j)) ! k \<in> set (md_slots (p_meta (ps ! j)))" using part_okD(6) by (intro nth_mem) simp
    from assms(5) [OF nth_mem [OF j] this] j show ?thesis by (simp add: DXtoID_def pinfo_of_def)
  qed
  obtain pmap where pm: "make_partition_maps ?r2 = Some (?r2\<lparr>rp_pmap := pmap\<rparr>)"
    "\<And>oid. oid \<le> rp_global_allocs ?r2 \<Longrightarrow> pmap_entry (rp_partitions ?r2) oid (pmap ! oid)" using make_maps [OF ids] by blast
  have parts: "read_partitions (length ps) (concat (map (partition_words \<circ> (\<lambda>p. p_dump_heap p m)) ps) @ x) ?r0 = Some (?r1, x)" for x
    using read_partitions_words [OF assms(2), of m x ?r0] by (simp add: comp_def new_replica_def)
  have "read_core (core_words d) (new_replica i) = Some (verify_canaries (?r2\<lparr>rp_pmap := pmap\<rparr>))"
    using parts los pm(1) n l(2)
    by (simp add: read_core_def core_words_def assms(6) los_words_def unat_word [OF assms(1)] unat_word [OF f])
  then show thesis
    by (rule that) (use pm(2) in \<open>simp_all add: isBadReplica_def heap_config_flags_def\<close>)
qed

lemma core_file_read:
  assumes "core_ready h g m" and "x_dump_heap True dl sb corrupt (h, g, m) = (Some d, g')"
  shows "\<exists>r. read_core (core_words d) (new_replica i) = Some r \<and> rp_global_allocs r = global_ct g \<and> rp_sentinel r = sentinel g
    \<and> rp_partitions r = map (\<lambda>p. pinfo_of i p m) (xh_pInfo h)
    \<and> (\<forall>oid \<le> global_ct g. pmap_entry (rp_partitions r) oid (rp_pmap r ! oid))
    \<and> (isBadReplica r \<longleftrightarrow> bad_replica g \<or> corrupt \<or> (\<exists>p \<in> set (xh_pInfo h). \<exists>j < p_elements p. corrupted p g m j))"
proof -
  let ?ps = "xh_pInfo h"
  obtain ct es where l: "dump_los m (xh_large h) = (ct, es)" by (metis surj_pair)
  have ready: "global_ct g < 2 ^ 32" "list_all dump_ready ?ps" "length ?ps = NumberOfClasses" "large_ready (ct, es)"
    "\<And>p s. p \<in> set ?ps \<Longrightarrow> s \<in> set (md_slots (p_meta p)) \<Longrightarrow> si_id s \<le> global_ct g"
    using assms(1) by (auto simp: core_ready_def l)
  have g': "global_ct g' = global_ct g" "sentinel g' = sentinel g" "bad_replica g' \<longleftrightarrow> bad_replica g \<or> corrupt"
    using assms(2) by (auto simp: x_dump_heap_def Let_def split: if_splits)
  have "map (\<lambda>sc. p_dump_heap (?ps ! sc) m) [0..<NumberOfClasses] = map (\<lambda>p. p_dump_heap p m) ?ps"
    using ready(3) by (intro nth_equalityI) simp_all
  then have d: "d = \<lparr>xd_global_ct = global_ct g', xd_sentinel = sentinel g', xd_dl_base = dl, xd_stack_base = sb, xd_flags = heap_config_flags g',
        xd_classes = NumberOfClasses, xd_partitions = map (\<lambda>p. p_dump_heap p m) ?ps, xd_los = (ct, es)\<rparr>"
    using assms(2) l by (auto simp: x_dump_heap_def Let_def split: if_splits)
  obtain r where r: "read_core (core_words d) (new_replica i) = Some (verify_canaries r)" "rp_global_allocs r = global_ct g'"
    "rp_sentinel r = sentinel g'" "rp_partitions r = map (\<lambda>p. pinfo_of i p m) ?ps" "isBadReplica r \<longleftrightarrow> bad_replica g'"
    "\<forall>oid \<le> global_ct g'. pmap_entry (rp_partitions r) oid (rp_pmap r ! oid)"
    by (rule read_core_words [where i = i, OF ready(1) [folded g'(1)] ready(2-4) ready(5) [folded g'(1)] d])
  have "(\<exists>k < pi_elements (pinfo_of i p m). dead_canary r (pinfo_of i p m) k) \<longleftrightarrow> (\<exists>j < p_elements p. corrupted p g m j)"
    if "p \<in> set ?ps" for p
  proof -
    have "part_ok p" using ready(2) that by (auto simp: list_all_iff dump_ready_def)
    with dead_canary_corrupted [of p _ r g i m] r(3) g'(2) show ?thesis by (auto simp: pinfo_of_def)
  qed
  then have "isBadReplica (verify_canaries r) \<longleftrightarrow> bad_replica g \<or> corrupt \<or> (\<exists>p \<in> set ?ps. \<exists>j < p_elements p. corrupted p g m j)"
    using r(5) g'(3) by (simp add: verify_canaries_spec r(4))
  then show ?thesis
    using r g' by (intro exI [of _ "verify_canaries r"]) (simp add: verify_canaries_spec)
qed

text \<open>C24: The isolator reads what the heap wrote: from the words of a core file it rebuilds the allocation counter, the
  sentinel and every partition with its geometry, bitmaps, metadata and memory; the number of every allocation
  leads to a slot that carries it, or to no slot when there is none; and the replica counts as bad exactly when
  the heap had found an error, or was told of one, or some empty slot no longer holds the sentinel.\<close>

theorem core_file_round_trip:
  assumes "core_ready h g m" and "x_dump_heap True dl sb corrupt (h, g, m) = (Some d, g')"
  shows "\<exists>r. read_core (core_words d) (new_replica i) = Some r \<and> rp_global_allocs r = global_ct g \<and> rp_sentinel r = sentinel g
    \<and> rp_partitions r = map (\<lambda>p. pinfo_of i p m) (xh_pInfo h)
    \<and> (\<forall>oid \<le> global_ct g. pmap_entry (rp_partitions r) oid (rp_pmap r ! oid))
    \<and> (isBadReplica r \<longleftrightarrow> bad_replica g \<or> corrupt \<or> (\<exists>p \<in> set (xh_pInfo h). \<exists>j < p_elements p. corrupted p g m j))"
  by (rule core_file_read [OF assms])

lemma fresh_core_ready:
  assumes "xh_ok P h" and "\<And>i. i < NumberOfClasses \<Longrightarrow> fresh_class P g m h i" and "global_ct g < 2 ^ 32"
    and "\<And>i. lo_values (xh_large h) i = 0" and "lo_ct (xh_large h) = 0"
  shows "core_ready h g m"
proof -
  have f: "dump_ready p \<and> (\<forall>s \<in> set (md_slots (p_meta p)). si_id s \<le> global_ct g)" if "p \<in> set (xh_pInfo h)" for p
  proof -
    obtain i where i: "i < NumberOfClasses" "p = xh_pInfo h ! i" using \<open>p \<in> set (xh_pInfo h)\<close> xh_okD(4) [OF assms(1)] by (metis in_set_conv_nth)
    have "list_all slot_fits (md_slots (p_meta p))" "\<forall>s \<in> set (md_slots (p_meta p)). si_id s \<le> global_ct g"
      using assms(2) [OF i(1)] by (auto simp: fresh_class_def i(2) list_all_iff slot_fits_def null_slot_def Let_def)
    then show ?thesis using assms(2) [OF i(1)] by (simp add: fresh_class_def dump_ready_def i(2) Let_def)
  qed
  have "dump_los m (xh_large h) = (0, [])" using assms(4,5) by (simp add: dump_los_def)
  then show ?thesis using f assms(1,3) by (simp add: core_ready_def xh_okD(4) list_all_iff large_ready_def)
qed

theorem core_file_round_trip_witness:
  "\<exists>h g m d g' r. XDieHardHeap demo_params False (2 ^ 20) demo_bufs 0 (demo_runtime, \<lambda>_. 0) = Some (h, g, m)
     \<and> x_dump_heap True 0 0 False (h, g, m) = (Some d, g') \<and> read_core (core_words d) (new_replica 0) = Some r
     \<and> length (rp_partitions r) = 12 \<and> rp_sentinel r = sentinel g"
proof (rule demo_heap)
  fix h g m
  assume d: "XDieHardHeap demo_params False (2 ^ 20) demo_bufs 0 (demo_runtime, \<lambda>_. 0) = Some (h, g, m)"
    "xh_ok demo_params h" "xh_live h = {}" "global_ct g = 0" "death_time g = 0"
    "\<And>i. i < NumberOfClasses \<Longrightarrow> fresh_class demo_params g m h i" "xh_large h = \<lparr>lo_values = (\<lambda>_. 0), lo_addrs = (\<lambda>_. 0), lo_ct = 0\<rparr>"
  have ready: "core_ready h g m" by (rule fresh_core_ready [OF d(2,6)]) (simp_all add: d(4,7))
  obtain dump g' where dump: "x_dump_heap True 0 0 False (h, g, m) = (Some dump, g')" by (simp add: x_dump_heap_def Let_def)
  from core_file_round_trip [OF ready dump, of 0] d(1) dump xh_okD(4) [OF d(2)] show ?thesis
    by (auto simp: NumberOfClasses_def)
qed

end
