(* ===== verification/ExtRuns.thy ===== *)
theory ExtRuns
  imports CoreFile
begin

text \<open>
  Whole runs of a program over the Exterminator heap: it allocates, frees any address, also one that was never
  allocated, and stores any word anywhere.  The metadata of the heap stays well formed, so that the core file
  written at any moment can be read by the isolator.
\<close>

section \<open>Runs\<close>

text \<open>\<open>XMalloc sz callsite os_map os_map'\<close>: what the system answers when the request is mapped directly.\<close>

datatype xcall = XMalloc nat nat addr addr | XFree nat addr | XStore addr u32

fun xh_call :: "xh_params \<Rightarrow> bool \<Rightarrow> xcall \<Rightarrow> xheap \<times> runtime \<times> wmem \<Rightarrow> (bool \<times> xheap \<times> runtime \<times> wmem) option" where
  "xh_call P replicated (XMalloc sz callsite os_map os_map') s =
     map_option (\<lambda>(ans, s). (ans = Died, s)) (xh_malloc replicated os_map os_map' callsite sz s)"
| "xh_call P replicated (XFree callsite ptr) s = Some (xh_free P callsite ptr s)"
| "xh_call P replicated (XStore a w) s = (let (h, g, m) = s in Some (False, h, g, m(a := w)))"

fun xh_run :: "xh_params \<Rightarrow> bool \<Rightarrow> xcall list \<Rightarrow> xheap \<times> runtime \<times> wmem \<Rightarrow> (xheap \<times> runtime \<times> wmem) option" where
  "xh_run P replicated [] s = Some s"
| "xh_run P replicated (c # cs) s =
     (case xh_call P replicated c s of
        None \<Rightarrow> None
      | Some (died, s) \<Rightarrow> if died then Some s else xh_run P replicated cs s)"

text \<open>Words of 32 bits, and a mapping of no bytes fails.\<close>

fun xcall_ok :: "xcall \<Rightarrow> bool" where
  "xcall_ok (XMalloc sz callsite os_map os_map') \<longleftrightarrow> sz < 2 ^ 32 \<and> callsite < 2 ^ 32 \<and> os_map < 2 ^ 32 \<and> os_map' < 2 ^ 32
     \<and> ((sz + 4 - 1) mod 2 ^ 32 div 4 = 0 \<longrightarrow> os_map = 0 \<and> os_map' = 0)"
| "xcall_ok (XFree callsite ptr) \<longleftrightarrow> callsite < 2 ^ 32 \<and> ptr < 2 ^ 32"
| "xcall_ok (XStore a w) \<longleftrightarrow> True"

section \<open>The metadata\<close>

definition part_logged :: "nat \<Rightarrow> partition \<Rightarrow> bool" where
  "part_logged ct p \<longleftrightarrow> md_elements (p_meta p) = p_elements p
     \<and> list_all (\<lambda>s. slot_fits s \<and> si_id s \<le> ct) (md_slots (p_meta p))"

lemma list_all_update: "list_all Q xs \<Longrightarrow> (i < length xs \<Longrightarrow> Q x) \<Longrightarrow> list_all Q (xs[i := x])"
  by (cases "i < length xs") (auto simp: list_all_iff list_update_beyond dest: set_update_subset_insert [THEN subsetD])

lemma logged_alloc:
  assumes "list_all (\<lambda>s. slot_fits s \<and> si_id s \<le> ct) (md_slots d)" and "ct < 2 ^ 32" and "c < 2 ^ 32"
  shows "list_all (\<lambda>s. slot_fits s \<and> si_id s \<le> ct) (md_slots (allocEvent i c ct d))"
  unfolding allocEvent_def by (simp, rule list_all_update [OF assms(1)]) (use assms in \<open>auto simp: slot_fits_def list_all_length\<close>)

lemma logged_free:
  assumes "list_all (\<lambda>s. slot_fits s \<and> si_id s \<le> ct) (md_slots d)" and "ct < 2 ^ 32" and "c < 2 ^ 32"
  shows "list_all (\<lambda>s. slot_fits s \<and> si_id s \<le> ct) (md_slots (freeEvent i c ct d))"
  unfolding freeEvent_def by (simp, rule list_all_update [OF assms(1)]) (use assms in \<open>auto simp: slot_fits_def list_all_length\<close>)

lemma logged_mono: "part_logged ct p \<Longrightarrow> ct \<le> ct' \<Longrightarrow> part_logged ct' p"
  by (auto simp: part_logged_def list_all_iff)

text \<open>What the probing loop does to the rest of the partition and to the clock.\<close>

definition alloc_frame :: "nat \<Rightarrow> partition \<Rightarrow> runtime \<Rightarrow> partition \<Rightarrow> runtime \<Rightarrow> bool" where
  "alloc_frame c p g p' g' \<longleftrightarrow> (p_meta p' = p_meta p \<or> (\<exists>i. p_meta p' = allocEvent i c (global_ct g) (p_meta p)))
     \<and> p_sizeClass p' = p_sizeClass p \<and> global_ct g' = global_ct g"

lemma alloc_probe_frame:
  assumes "alloc_probe c s = Some r"
  shows "case s of (p, g, m) \<Rightarrow> case r of (ans, p', g', m') \<Rightarrow> alloc_frame c p g p' g'"
proof (rule alloc_probe.raw_induct [OF _ assms, of "\<lambda>c s r. case s of (p, g, m) \<Rightarrow> case r of (ans, p', g', m') \<Rightarrow>
    alloc_frame c p g p' g'"], goal_cases)
  case (1 f c s r)
  have body: "probe_body f c s = Some r" unfolding probe_body_def by (rule 1(2))
  obtain p g m where s: "s = (p, g, m)" by (metis surj_pair)
  obtain ans p' g' m' where r: "r = (ans, p', g', m')" by (metis surj_pair)
  have IH: "alloc_frame c q h p' g'" if "f c (q, h, n) = Some (ans, p', g', m')" for q h n
    using 1(1) that by (fastforce simp: r)
  have "alloc_frame c p g p' g'"
    using body unfolding s r probe_body_def
    by (auto simp: Let_def alloc_frame_def diefast_error_def dest!: IH split: if_splits prod.splits)
  then show ?case by (simp add: s r)
qed


lemma allocObject_logged:
  assumes "allocObject replicated c (p, g, m) = Some (ans, p', g', m')" and "part_ok p" and "p_initialized p"
    and "part_logged (global_ct g) p" and "global_ct g < 2 ^ 32" and "c < 2 ^ 32"
  shows "part_ok p' \<and> p_initialized p' \<and> p_sizeClass p' = p_sizeClass p \<and> p_size p' = p_size p \<and> p_start p' = p_start p
    \<and> p_elements p' = p_elements p \<and> part_logged (global_ct g) p' \<and> global_ct g' = global_ct g"
proof -
  have run: "alloc_probe c (p, g, m) = Some (ans, p', g', m')" using assms(1,3) by (simp add: allocObject_def)
  from alloc_probe_done [OF run] assms(2) obtain B where B: "alloc_done B p g m c ans p' g' m'" by auto
  have f: "alloc_frame c p g p' g'" using alloc_probe_frame [OF run] by simp
  have "md_elements (p_meta p') = md_elements (p_meta p)" using f by (auto simp: alloc_frame_def allocEvent_def)
  moreover have "list_all (\<lambda>s. slot_fits s \<and> si_id s \<le> global_ct g) (md_slots (p_meta p'))"
    using f assms(4) logged_alloc [OF _ assms(5,6)] by (auto simp: alloc_frame_def part_logged_def)
  ultimately show ?thesis using B f assms(3,4) by (simp add: alloc_done_def alloc_frame_def part_logged_def)
qed

lemma freeObject_logged:
  assumes "freeObject c a (p, g, m) = (died, p', g', m')" and "part_ok p" and "p_start p \<le> a" and "a < p_start p + p_elements p * p_size p"
    and "part_logged (global_ct g) p" and "global_ct g < 2 ^ 32" and "c < 2 ^ 32"
  shows "part_ok p' \<and> p_initialized p' = p_initialized p \<and> p_sizeClass p' = p_sizeClass p \<and> p_size p' = p_size p \<and> p_start p' = p_start p
    \<and> p_elements p' = p_elements p \<and> part_logged (global_ct g) p' \<and> global_ct g' = global_ct g"
proof (cases "\<exists>i < p_elements p. a = slot_at p i")
  case True
  then obtain i where i: "i < p_elements p" "a = slot_at p i" by blast
  have ok: "part_ok p'" using freeObject_spec [OF assms(2) i(1) assms(1) [unfolded i(2)]] by simp
  have "on_grid a p" unfolding on_grid_iff(1) [OF assms(2-4)] using i by blast
  then have "on_grid (slot_at p i) p" by (simp add: i(2))
  then have "p_meta p' = freeEvent (x_objectIndex a p) c (global_ct g) (p_meta p) \<and> p_initialized p' = p_initialized p
      \<and> p_sizeClass p' = p_sizeClass p \<and> p_size p' = p_size p \<and> p_start p' = p_start p \<and> p_elements p' = p_elements p \<and> global_ct g' = global_ct g"
    using assms(1) by (auto simp: i(2) freeObject_def forceFreeIndex_def checkOverflow_def diefast_error_def Let_def split: if_splits prod.splits)
  with ok assms(5) logged_free [OF _ assms(6,7)] show ?thesis by (auto simp: part_logged_def freeEvent_def)
next
  case False
  with freeObject_off_grid [OF assms(2-4)] assms(1,2,5) show ?thesis by auto
qed

section \<open>The table of large objects\<close>

definition large_ok :: "large_objects \<Rightarrow> bool" where
  "large_ok l \<longleftrightarrow> lo_ct l = card {i. lo_values l i \<noteq> 0} \<and> (\<forall>i. lo_values l i \<noteq> 0 \<longrightarrow>
     i < 2 ^ 18 \<and> lo_getIndex (lo_addrs l i) = i \<and> lo_addrs l i < 2 ^ 32 \<and> lo_values l i < 2 ^ 32)"

lemma large_finite: "large_ok l \<Longrightarrow> finite {i. lo_values l i \<noteq> 0}"
  by (rule finite_subset [of _ "{..<2 ^ 18}"]) (auto simp: large_ok_def)

lemma large_index: "a < 2 ^ 32 \<Longrightarrow> lo_getIndex a < 2 ^ 18"
  by (simp add: lo_getIndex_div MaxObjectSize_def less_mult_imp_div_less)

lemma lo_set_ok:
  assumes "large_ok l" and "a < 2 ^ 32" and "sz \<noteq> 0" and "sz < 2 ^ 32"
  shows "large_ok (lo_set a sz l)"
proof -
  let ?i = "lo_getIndex a" and ?S = "{i. lo_values l i \<noteq> 0}"
  have s: "{i. lo_values (lo_set a sz l) i \<noteq> 0} = insert ?i ?S" using assms(3) by (auto simp: lo_set_def Let_def)
  have "lo_ct (lo_set a sz l) = card (insert ?i ?S)"
    using assms(1) large_finite [OF assms(1)] by (auto simp: lo_set_def Let_def card_insert_if large_ok_def)
  moreover have "\<forall>i. lo_values (lo_set a sz l) i \<noteq> 0 \<longrightarrow> i < 2 ^ 18 \<and> lo_getIndex (lo_addrs (lo_set a sz l) i) = i
      \<and> lo_addrs (lo_set a sz l) i < 2 ^ 32 \<and> lo_values (lo_set a sz l) i < 2 ^ 32"
    using assms large_index [OF assms(2)] by (auto simp: lo_set_def Let_def large_ok_def)
  ultimately show ?thesis unfolding large_ok_def s by simp
qed

lemma lo_clear_ok:
  assumes "large_ok l"
  shows "large_ok (lo_clear a l)"
proof -
  let ?i = "lo_getIndex a" and ?S = "{i. lo_values l i \<noteq> 0}"
  have s: "{i. lo_values (lo_clear a l) i \<noteq> 0} = ?S - {?i}" by (auto simp: lo_clear_def Let_def)
  have "lo_ct (lo_clear a l) = card (?S - {?i})"
    using assms large_finite [OF assms] by (auto simp: lo_clear_def Let_def card_Diff_singleton_if large_ok_def)
  moreover have "\<forall>i. lo_values (lo_clear a l) i \<noteq> 0 \<longrightarrow> i < 2 ^ 18 \<and> lo_getIndex (lo_addrs (lo_clear a l) i) = i
      \<and> lo_addrs (lo_clear a l) i < 2 ^ 32 \<and> lo_values (lo_clear a l) i < 2 ^ 32"
    using assms by (auto simp: lo_clear_def Let_def large_ok_def)
  ultimately show ?thesis unfolding large_ok_def s by simp
qed

lemma large_ok_ready:
  assumes "large_ok l"
  shows "large_ready (dump_los m l)"
proof -
  have n: "push_bit (32 - staticlog (int MaxObjectSize)) 1 = (2 ^ 18 :: nat)"
    using staticlog_pow2 [of 14] by (simp add: MaxObjectSize_def push_bit_nat_mult)
  let ?is = "filter (\<lambda>i. lo_values l i \<noteq> 0) [0..<2 ^ 18]"
  have set: "set ?is = {i. lo_values l i \<noteq> 0}" using assms by (auto simp: large_ok_def)
  have "length ?is = card (set ?is)" by (rule distinct_card [symmetric]) simp
  then have len: "lo_ct l = length ?is" using assms set by (simp add: large_ok_def)
  have "length ?is \<le> 2 ^ 18" using length_filter_le [of "\<lambda>i. lo_values l i \<noteq> 0" "[0..<2 ^ 18]"] by simp
  then have small: "lo_ct l < 2 ^ 31" unfolding len by (rule le_less_trans) simp
  have "inj_on (lo_addrs l) (set ?is)"
    by (rule inj_on_inverseI [of _ lo_getIndex]) (use assms set in \<open>auto simp: large_ok_def\<close>)
  then have d: "distinct (map (lo_addrs l) ?is)" by (simp only: distinct_map) simp
  have "\<forall>i \<in> set ?is. lo_addrs l i < 2 ^ 32 \<and> lo_values l i < 2 ^ 32" using assms unfolding set by (simp add: large_ok_def)
  with small len d show ?thesis unfolding dump_los_def n large_ready_def by (simp add: list_all_iff comp_def)
qed

section \<open>The heap\<close>

definition xh_logged :: "xh_params \<Rightarrow> xheap \<Rightarrow> nat \<Rightarrow> bool" where
  "xh_logged P h ct \<longleftrightarrow> xh_ok P h \<and> (\<forall>p \<in> set (xh_pInfo h). part_logged ct p) \<and> large_ok (xh_large h)"

lemma xh_logged_part: "xh_logged P h ct \<Longrightarrow> i < NumberOfClasses \<Longrightarrow> part_logged ct (xh_pInfo h ! i)"
  using xh_okD(4) [of P h] by (simp add: xh_logged_def)

lemma xh_logged_update:
  assumes "xh_logged P h ct" and "i < NumberOfClasses" and "part_ok q" and "p_initialized q" and "p_sizeClass q = p_sizeClass (xh_pInfo h ! i)"
    and "p_size q = p_size (xh_pInfo h ! i)" and "p_start q = p_start (xh_pInfo h ! i)" and "p_elements q = p_elements (xh_pInfo h ! i)"
    and "part_logged ct q"
  shows "xh_logged P (h\<lparr>xh_pInfo := (xh_pInfo h)[i := q]\<rparr>) ct"
proof -
  have ok: "xh_ok P h" using assms(1) by (simp add: xh_logged_def)
  have "xh_ok P (h\<lparr>xh_pInfo := (xh_pInfo h)[i := q]\<rparr>)"
    by (rule xh_ok_update [OF ok assms(2-4)]) (use assms(5-8) xh_okD(7) [OF ok assms(2)] in simp_all)
  moreover have "\<forall>p \<in> set ((xh_pInfo h)[i := q]). part_logged ct p"
    using assms(1,9) set_update_subset_insert [of "xh_pInfo h" i q] by (auto simp: xh_logged_def)
  ultimately show ?thesis using assms(1) by (simp add: xh_logged_def)
qed

lemma allocateDirect_logged:
  assumes "allocateDirect replicated os_map sz (h, g, m) = (a, h', g', m')" and "xh_logged P h ct" and "os_map < 2 ^ 32"
    and "(sz + 4 - 1) mod 2 ^ 32 div 4 = 0 \<longrightarrow> os_map = 0"
  shows "xh_logged P h' ct \<and> global_ct g' = global_ct g"
proof (cases "os_map = 0")
  case True
  with assms(1,2) show ?thesis by (auto simp: allocateDirect_def Let_def)
next
  case False
  let ?sz = "(sz + 4 - 1) mod 2 ^ 32 div 4 * 4"
  have z: "?sz \<noteq> 0" using assms(4) False by simp
  have "?sz \<le> (sz + 4 - 1) mod 2 ^ 32" by simp
  then have b: "?sz < 2 ^ 32" by (rule le_less_trans) simp
  have "large_ok (lo_set os_map ?sz (xh_large h))"
    by (rule lo_set_ok [OF _ assms(3) z b]) (use assms(2) in \<open>simp add: xh_logged_def\<close>)
  moreover have "h' = h\<lparr>xh_large := lo_set os_map ?sz (xh_large h)\<rparr> \<and> global_ct g' = global_ct g"
    using assms(1) False unfolding allocateDirect_def Let_def by (auto split: if_splits prod.splits)
  ultimately show ?thesis using assms(2) by (auto simp: xh_logged_def xh_ok_def)
qed

lemma alloc_classes_logged:
  assumes "alloc_classes replicated c n sc (h, g, m) = Some (ans, h', g', m')" and "xh_logged P h (global_ct g)"
    and "global_ct g < 2 ^ 32" and "c < 2 ^ 32" and "n = 0 \<or> sc + n \<le> NumberOfClasses"
  shows "xh_logged P h' (global_ct g) \<and> global_ct g' = global_ct g"
  using assms
proof (induction n arbitrary: sc h g m)
  case (Suc n)
  obtain a p g1 m1 where al: "allocObject replicated c (xh_pInfo h ! sc, g, m) = Some (a, p, g1, m1)"
    using Suc.prems(1) by (auto split: option.splits)
  have sc: "sc < NumberOfClasses" using Suc.prems(5) by simp
  have ok: "xh_ok P h" using Suc.prems(2) by (simp add: xh_logged_def)
  note L = allocObject_logged [OF al xh_okD(5,6) [OF ok sc] xh_logged_part [OF Suc.prems(2) sc] Suc.prems(3,4)]
  then have l: "xh_logged P (h\<lparr>xh_pInfo := (xh_pInfo h)[sc := p]\<rparr>) (global_ct g1)" and ct: "global_ct g1 = global_ct g"
    using xh_logged_update [OF Suc.prems(2) sc, of p] by simp_all
  show ?case
  proof (cases "a = Failed")
    case True
    then have "alloc_classes replicated c n (sc + 1) (h\<lparr>xh_pInfo := (xh_pInfo h)[sc := p]\<rparr>, g1, m1) = Some (ans, h', g', m')"
      using Suc.prems(1) al by simp
    from Suc.IH [OF this l _ Suc.prems(4)] Suc.prems(3,5) ct show ?thesis by (cases n) auto
  next
    case False
    then have "h' = h\<lparr>xh_pInfo := (xh_pInfo h)[sc := p]\<rparr>" "g' = g1"
      using Suc.prems(1) al by (auto simp: Let_def split: alloc_answer.splits)
    with l ct show ?thesis by simp
  qed
qed auto

lemma xh_malloc_logged:
  assumes "xh_malloc replicated os_map os_map' c sz (h, g, m) = Some (ans, h', g', m')" and "xh_logged P h (global_ct g)"
    and "global_ct g + 1 < 2 ^ 32" and "xcall_ok (XMalloc sz c os_map os_map')"
  shows "xh_logged P h' (global_ct g') \<and> global_ct g' = global_ct g + 1"
proof -
  define g1 where "g1 = g\<lparr>global_ct := (global_ct g + 1) mod 2 ^ 32\<rparr>"
  note run = assms(1) [unfolded xh_malloc_def Let_def prod.case, folded g1_def]
  have ct: "global_ct g1 = global_ct g + 1" using assms(3) by (simp add: g1_def)
  then have l: "xh_logged P h (global_ct g1)" using assms(2) by (auto simp: xh_logged_def intro: logged_mono)
  have c: "c < 2 ^ 32" "global_ct g1 < 2 ^ 32" using assms(3,4) ct by simp_all
  have os: "os_map < 2 ^ 32" "os_map' < 2 ^ 32" "(sz + 4 - 1) mod 2 ^ 32 div 4 = 0 \<longrightarrow> os_map = 0" "(sz + 4 - 1) mod 2 ^ 32 div 4 = 0 \<longrightarrow> os_map' = 0"
    using assms(4) by auto
  have obj: "xh_logged P h2 (global_ct g1) \<and> global_ct g2 = global_ct g1"
    if run: "allocateObject replicated os_map c sz (h, g1, m) = Some (a, h2, g2, m2)" for a h2 g2 m2
  proof (cases "sz > MaxObjectSize")
    case True
    then obtain p where "allocateDirect replicated os_map sz (h, g1, m) = (p, h2, g2, m2)"
      using run by (auto simp: allocateObject_def Let_def split: prod.splits)
    from allocateDirect_logged [OF this l os(1,3)] show ?thesis .
  next
    case False
    let ?sc = "sizeClass (if sz < 8 then 8 else sz)"
    have "alloc_classes replicated c (NumberOfClasses - ?sc) ?sc (h, g1, m) = Some (a, h2, g2, m2)"
      using run False by (simp add: allocateObject_def Let_def)
    from alloc_classes_logged [OF this l c(2,1)] show ?thesis by (cases "?sc \<le> NumberOfClasses") auto
  qed
  show ?thesis
  proof (cases "global_ct g1 = death_time g1")
    case True
    then have "h' = h" "g' = g1" using run by auto
    with l ct show ?thesis by simp
  next
    case False
    then obtain a h2 g2 m2 where o: "allocateObject replicated os_map c sz (h, g1, m) = Some (a, h2, g2, m2)"
      using run by (auto split: option.splits)
    note o' = obj [OF o]
    show ?thesis
    proof (cases "a = Failed")
      case True
      obtain p h3 g3 m3 where d: "allocateDirect replicated os_map' sz (h2, g2, m2) = (p, h3, g3, m3)" by (metis surj_pair)
      then have "h' = h3" "g' = g3" using run o True False by simp_all
      with allocateDirect_logged [OF d o' [THEN conjunct1] os(2,4)] o' ct show ?thesis by simp
    next
      case nf: False
      then have "h' = h2" "g' = g2" using run o False by (auto split: alloc_answer.splits)
      with o' ct show ?thesis by simp
    qed
  qed
qed

lemma class_of_address:
  assumes "xh_ok P h" and "isOnHeap P a h"
  shows "getSizeClass P a h < NumberOfClasses" and "p_start (xh_pInfo h ! getSizeClass P a h) \<le> a"
    and "a < p_start (xh_pInfo h ! getSizeClass P a h) + p_elements (xh_pInfo h ! getSizeClass P a h) * p_size (xh_pInfo h ! getSizeClass P a h)"
proof -
  note d = xh_okD [OF assms(1)]
  define i where "i = (a - xh_heap h) div PartitionSize P"
  have ps: "0 < PartitionSize P" using assms(1) by (auto simp: xh_ok_def)
  have a: "xh_heap h \<le> a" "a < xh_heap h + NumberOfClasses * PartitionSize P" using assms(2) d(1) by (simp_all add: isOnHeap_def)
  then have i: "i < NumberOfClasses" unfolding i_def by (intro less_mult_imp_div_less) simp
  have e: "a - xh_heap h = i * PartitionSize P + (a - xh_heap h) mod PartitionSize P" by (simp add: i_def)
  have lo: "xh_heap h + i * PartitionSize P \<le> a" using e a(1) by linarith
  have hi: "a < xh_heap h + Suc i * PartitionSize P" using e a(1) mod_less_divisor [OF ps, of "a - xh_heap h"] by simp
  have "getSizeClass P a h = i" by (rule size_class_of [OF assms(1) i lo hi])
  then show "getSizeClass P a h < NumberOfClasses" "p_start (xh_pInfo h ! getSizeClass P a h) \<le> a"
    "a < p_start (xh_pInfo h ! getSizeClass P a h) + p_elements (xh_pInfo h ! getSizeClass P a h) * p_size (xh_pInfo h ! getSizeClass P a h)"
    using i lo hi d(8,9) [OF i] by simp_all
qed

lemma xh_free_logged:
  assumes "xh_free P c ptr (h, g, m) = (died, h', g', m')" and "xh_logged P h (global_ct g)" and "global_ct g < 2 ^ 32" and "c < 2 ^ 32"
  shows "xh_logged P h' (global_ct g') \<and> global_ct g' = global_ct g"
proof -
  have ok: "xh_ok P h" using assms(2) by (simp add: xh_logged_def)
  consider "ptr = 0" | "ptr \<noteq> 0" "isOnHeap P ptr h" | "ptr \<noteq> 0" "\<not> isOnHeap P ptr h" by blast
  then show ?thesis
  proof cases
    case 2
    let ?sc = "getSizeClass P ptr h"
    obtain p where f: "freeObject c ptr (xh_pInfo h ! ?sc, g, m) = (died, p, g', m')"
      and h': "h' = h\<lparr>xh_pInfo := (xh_pInfo h)[?sc := p]\<rparr>"
      using assms(1) 2 by (auto simp: xh_free_def Let_def split: prod.splits)
    note cl = class_of_address [OF ok 2(2)]
    from freeObject_logged [OF f xh_okD(5) [OF ok cl(1)] cl(2,3) xh_logged_part [OF assms(2) cl(1)] assms(3,4)]
      xh_logged_update [OF assms(2) cl(1), of p] xh_okD(6) [OF ok cl(1)]
    show ?thesis by (simp add: h')
  next
    case 3
    then have "h' = freeDirect ptr h" "g' = g" using assms(1) by (simp_all add: xh_free_def Let_def)
    then show ?thesis using assms(2) lo_clear_ok by (auto simp: freeDirect_def xh_logged_def xh_ok_def Let_def)
  qed (use assms in \<open>simp add: xh_free_def\<close>)
qed

section \<open>The runs keep the metadata\<close>

lemma xh_call_logged:
  assumes "xh_call P replicated c (h, g, m) = Some (died, h', g', m')" and "xcall_ok c" and "xh_logged P h (global_ct g)"
    and "global_ct g + 1 < 2 ^ 32"
  shows "xh_logged P h' (global_ct g') \<and> global_ct g' \<le> global_ct g + 1"
proof (cases c)
  case (XMalloc sz site o1 o2)
  with assms(1) obtain ans where "xh_malloc replicated o1 o2 site sz (h, g, m) = Some (ans, h', g', m')" by auto
  from xh_malloc_logged [OF this assms(3,4) assms(2) [unfolded XMalloc]] show ?thesis by auto
next
  case (XFree site ptr)
  then have "xh_free P site ptr (h, g, m) = (died, h', g', m')" using assms(1) by simp
  moreover have "global_ct g < 2 ^ 32" "site < 2 ^ 32" using assms(2,4) XFree by simp_all
  ultimately show ?thesis using xh_free_logged [OF _ assms(3)] by fastforce
qed (use assms in auto)

lemma xh_run_logged:
  assumes "xh_run P replicated cs (h, g, m) = Some (h', g', m')" and "list_all xcall_ok cs" and "xh_logged P h (global_ct g)"
    and "global_ct g + length cs < 2 ^ 32"
  shows "xh_logged P h' (global_ct g') \<and> global_ct g' \<le> global_ct g + length cs"
  using assms
proof (induction cs arbitrary: h g m)
  case (Cons c cs)
  obtain died h1 g1 m1 where c: "xh_call P replicated c (h, g, m) = Some (died, h1, g1, m1)"
    using Cons.prems(1) by (auto split: option.splits)
  have *: "xh_logged P h1 (global_ct g1) \<and> global_ct g1 \<le> global_ct g + 1"
    using xh_call_logged [OF c _ Cons.prems(3)] Cons.prems(2,4) by simp
  show ?case
  proof (cases died)
    case True
    with Cons.prems(1) c * show ?thesis by simp
  next
    case False
    then have "xh_run P replicated cs (h1, g1, m1) = Some (h', g', m')" using Cons.prems(1) c by simp
    from Cons.IH [OF this _ * [THEN conjunct1]] Cons.prems(2,4) * show ?thesis by simp
  qed
qed simp

lemma logged_core_ready:
  assumes "xh_logged P h (global_ct g)" and "global_ct g < 2 ^ 32"
  shows "core_ready h g m"
proof -
  have ok: "xh_ok P h" and l: "large_ok (xh_large h)" and p: "\<forall>p \<in> set (xh_pInfo h). part_logged (global_ct g) p"
    using assms(1) by (simp_all add: xh_logged_def)
  have "part_ok p" if "p \<in> set (xh_pInfo h)" for p
    using that xh_okD(4,5) [OF ok] by (metis in_set_conv_nth)
  with p show ?thesis
    unfolding core_ready_def using assms(2) xh_okD(4) [OF ok] large_ok_ready [OF l]
    by (auto simp: list_all_iff dump_ready_def part_logged_def)
qed

lemma fresh_logged:
  assumes "xh_ok P h" and "\<And>i. i < NumberOfClasses \<Longrightarrow> fresh_class P g m h i"
    and "xh_large h = \<lparr>lo_values = (\<lambda>_. 0), lo_addrs = (\<lambda>_. 0), lo_ct = 0\<rparr>"
  shows "xh_logged P h ct"
proof -
  have "part_logged ct p" if p: "p \<in> set (xh_pInfo h)" for p
  proof -
    obtain i where i: "i < NumberOfClasses" "p = xh_pInfo h ! i" using p xh_okD(4) [OF assms(1)] by (metis in_set_conv_nth)
    then have "md_elements (p_meta p) = p_elements p" "set (md_slots (p_meta p)) \<subseteq> {null_slot}"
      using assms(2) [OF i(1)] unfolding fresh_class_def Let_def i(2) by blast+
    moreover have "slot_fits null_slot \<and> si_id null_slot \<le> ct" by (simp add: slot_fits_def null_slot_def)
    ultimately show ?thesis unfolding part_logged_def list_all_iff by blast
  qed
  then show ?thesis using assms(1,3) by (simp add: xh_logged_def large_ok_def)
qed

section \<open>Property\<close>



end
