(* ===== verification/Isolator.thy ===== *)
theory Isolator
  imports CoreFile
begin

text \<open>
  The error isolator of the Exterminator (\<open>src/exterminator/src/patcher\<close>): it compares the replicas of a
  program, word by word, and turns differences into patches.  A pointer to a \<open>pinfo\<close> is the number
  of its replica and of its partition in it; \<open>reps\<close> are the replicas, and \<open>mapped r i\<close> is the address the memory of
  partition \<open>i\<close> of replica \<open>r\<close> has in the mapped core file.  \<open>None\<close> is a failed assertion (they are compiled in) or
  an access outside a vector.  Messages are left out.
\<close>

type_synonym pptr = "nat \<times> nat"

section \<open>Statuses\<close>

text \<open>The enumeration \<open>status\<close>; a comparison of words returns numbers below \<open>st_OK\<close> too.\<close>

definition st_OK :: nat where "st_OK = 15"
definition PTR_DIFF_ID :: nat where "PTR_DIFF_ID = 16"
definition ALLOC_ONLY_ONE :: nat where "ALLOC_ONLY_ONE = 18"
definition DNE :: nat where "DNE = 19"
definition CALLSITE_MISMATCH :: nat where "CALLSITE_MISMATCH = 20"

lemmas statuses = st_OK_def PTR_DIFF_ID_def ALLOC_ONLY_ONE_def DNE_def CALLSITE_MISMATCH_def

section \<open>Partitions by allocation number\<close>

definition rep_of :: "replica list \<Rightarrow> pptr \<Rightarrow> replica" where
  "rep_of reps p = reps ! fst p"

definition pi_of :: "replica list \<Rightarrow> pptr \<Rightarrow> pinfo" where
  "pi_of reps p = rp_partitions (rep_of reps p) ! snd p"

definition pmap_at :: "replica list \<Rightarrow> pptr \<Rightarrow> nat \<Rightarrow> int option" where
  "pmap_at reps p idx =
     (let pm = rp_pmap (rep_of reps p) in if idx < length pm \<and> fst (pm ! idx) = int (snd p) then Some (snd (pm ! idx)) else None)"

definition IDtoDX :: "replica list \<Rightarrow> pptr \<Rightarrow> nat \<Rightarrow> int option" where
  "IDtoDX reps p oid = (if oid < rp_global_allocs (rep_of reps p) then pmap_at reps p oid else None)"

definition IDallocated :: "replica list \<Rightarrow> pptr \<Rightarrow> nat \<Rightarrow> bool option" where
  "IDallocated reps p which =
     (if which < rp_global_allocs (rep_of reps p)
      then do { dx \<leftarrow> pmap_at reps p which; if dx \<noteq> -1 then DXallocated (pi_of reps p) (nat dx) else Some False }
      else None)"

definition IDhasData :: "replica list \<Rightarrow> pptr \<Rightarrow> nat \<Rightarrow> bool option" where
  "IDhasData reps p which =
     (if which < rp_global_allocs (rep_of reps p)
      then do { dx \<leftarrow> pmap_at reps p which; if dx \<noteq> -1 then DXhasData (pi_of reps p) (nat dx) else Some False }
      else None)"

definition IDtoAllocSite :: "replica list \<Rightarrow> pptr \<Rightarrow> nat \<Rightarrow> nat option" where
  "IDtoAllocSite reps p idx = map_option (\<lambda>dx. DXtoAllocSite (pi_of reps p) (nat dx)) (pmap_at reps p idx)"

definition IDtoFreeSite :: "replica list \<Rightarrow> pptr \<Rightarrow> nat \<Rightarrow> nat option" where
  "IDtoFreeSite reps p idx = map_option (\<lambda>dx. DXtoFreeSite (pi_of reps p) (nat dx)) (pmap_at reps p idx)"

definition IDtoFreeTime :: "replica list \<Rightarrow> pptr \<Rightarrow> nat \<Rightarrow> nat option" where
  "IDtoFreeTime reps p idx = map_option (\<lambda>dx. DXtoFreeTime (pi_of reps p) (nat dx)) (pmap_at reps p idx)"

definition IDtoVA :: "replica list \<Rightarrow> pptr \<Rightarrow> nat \<Rightarrow> nat option" where
  "IDtoVA reps p idx = do {
     dx \<leftarrow> pmap_at reps p idx;
     let ret = pi_vaddr_start (pi_of reps p) + pi_size (pi_of reps p) * nat dx
     in if ret < pi_vaddr_end (pi_of reps p) then Some ret else None }"

definition IDtoPointer :: "replica list \<Rightarrow> pptr \<Rightarrow> nat \<Rightarrow> nat option" where
  "IDtoPointer reps p idx = map_option (\<lambda>dx. DXtoPointer (pi_of reps p) (nat dx)) (pmap_at reps p idx)"

definition VAtoID :: "pinfo \<Rightarrow> nat \<Rightarrow> nat option" where
  "VAtoID p va = (let dx = (va - pi_vaddr_start p) div pi_size p in if dx < pi_elements p then Some (DXtoID p dx) else None)"

definition word_at :: "replica list \<Rightarrow> pptr \<Rightarrow> nat \<Rightarrow> u32" where
  "word_at reps p v = pi_heap (pi_of reps p) ! v"

definition sentinel_at :: "replica list \<Rightarrow> pptr \<Rightarrow> nat \<Rightarrow> bool" where
  "sentinel_at reps p v = isSentinel (rep_of reps p) (pi_of reps p) v"

definition sentinel_slot :: "replica list \<Rightarrow> pptr \<Rightarrow> nat \<Rightarrow> bool" where
  "sentinel_slot reps p dx = check_sentinel (rep_of reps p) (pi_of reps p) dx"

section \<open>Pointers of the program\<close>

definition in_los :: "nat \<Rightarrow> nat \<times> nat \<Rightarrow> bool" where
  "in_los val e \<longleftrightarrow> fst e \<le> val \<and> val < fst e + snd e"

definition in_partition :: "nat \<Rightarrow> pinfo \<Rightarrow> bool" where
  "in_partition val p \<longleftrightarrow> pi_vaddr_start p \<le> val \<and> val < pi_vaddr_end p"

definition valid_pointer :: "replica \<Rightarrow> nat \<Rightarrow> bool" where
  "valid_pointer r val \<longleftrightarrow> list_ex (in_partition val) (rp_partitions r) \<or> list_ex (in_los val) (RBT.entries (rp_los_size r))"

text \<open>The first partition that contains the address, from partition \<open>i\<close> on.\<close>

fun find_partition :: "nat \<Rightarrow> pinfo list \<Rightarrow> nat \<Rightarrow> (nat \<times> pinfo) option" where
  "find_partition val [] i = None"
| "find_partition val (p # ps) i = (if in_partition val p then Some (i, p) else find_partition val ps (i + 1))"

definition alloc_desc :: "replica \<Rightarrow> nat \<Rightarrow> (int \<times> nat) option" where
  "alloc_desc r val =
     (case find_partition val (rp_partitions r) 0 of
        Some (i, p) \<Rightarrow> map_option (\<lambda>oid. (int i, oid)) (VAtoID p val)
      | None \<Rightarrow> Some (if list_ex (in_los val) (RBT.entries (rp_los_size r)) then (int (length (rp_partitions r)), 0xd33f) else (-1, 0)))"

definition canonical_ptr :: "replica \<Rightarrow> u32 \<Rightarrow> u32" where
  "canonical_ptr r ptr = (if ptr XOR rp_stack_base r < 0xffff then rp_stack_base r - ptr else ptr - rp_ptr_base r)"

text \<open>\<open>PointerToVA\<close> of partition \<open>i\<close> of the replica, for the word \<open>v\<close> of the memory of \<open>p\<close>.\<close>

definition PointerToVA :: "(nat \<Rightarrow> nat \<Rightarrow> u32) \<Rightarrow> replica list \<Rightarrow> nat \<Rightarrow> pptr \<Rightarrow> nat \<Rightarrow> u32" where
  "PointerToVA mapped reps i p v =
     mapped (fst p) (snd p) + word_of_nat (4 * v) - mapped (fst p) i + word_of_nat (pi_vaddr_start (pi_of reps (fst p, i)))"

section \<open>Comparing\<close>

definition byte_of :: "nat \<Rightarrow> u32 \<Rightarrow> u32" where
  "byte_of i w = drop_bit (8 * i) w AND 0xff"

definition equal_bytes :: "u32 \<Rightarrow> u32 \<Rightarrow> nat" where
  "equal_bytes w1 w2 = foldl (\<lambda>ret i. 2 * ret + (if byte_of i w1 = byte_of i w2 then 1 else 0)) 0 [3, 2, 1, 0]"

definition compare_words :: "(nat \<Rightarrow> nat \<Rightarrow> u32) \<Rightarrow> replica list \<Rightarrow> nat \<Rightarrow> nat \<Rightarrow> pptr \<Rightarrow> pptr \<Rightarrow> bool \<Rightarrow> nat option" where
  "compare_words mapped reps v1 v2 p1 p2 allocated =
     (let w1 = word_at reps p1 v1; w2 = word_at reps p2 v2; r1 = rep_of reps p1; r2 = rep_of reps p2
      in if w1 = w2 then Some st_OK
         else if \<not> allocated \<and> sentinel_at reps p1 v1 \<and> sentinel_at reps p2 v2 then Some st_OK
         else if valid_pointer r1 (unat w1) \<and> valid_pointer r2 (unat w2)
         then do {
           d1 \<leftarrow> alloc_desc r1 (unat w1); d2 \<leftarrow> alloc_desc r2 (unat w2);
           if d1 = d2 \<and> snd d1 > 0
           then if fst d1 = 12 then Some st_OK
                else if allocated
                then do { _ \<leftarrow> IDallocated reps (fst p1, nat (fst d1)) (snd d1); _ \<leftarrow> IDallocated reps (fst p2, nat (fst d2)) (snd d2); Some st_OK }
                else Some st_OK
           else if nat (fst d1) < length (rp_partitions r1) \<and> nat (fst d2) < length (rp_partitions r2)
           then if PointerToVA mapped reps (nat (fst d1)) p1 v1 - w1 = PointerToVA mapped reps (nat (fst d2)) p2 v2 - w2 then Some st_OK
                else if snd d1 \<noteq> 0 \<and> snd d2 \<noteq> 0 \<and> (let q1 = word_of_nat (pi_size (pi_of reps (fst p1, nat (fst d1)))) - 1 in w1 AND q1 = w2 AND q1)
                then Some PTR_DIFF_ID
                else Some (equal_bytes w1 w2)
           else None }
         else if canonical_ptr r1 w1 = canonical_ptr r2 w2 then Some st_OK
         else Some (equal_bytes w1 w2))"

fun compare_range :: "(nat \<Rightarrow> nat \<Rightarrow> u32) \<Rightarrow> replica list \<Rightarrow> nat \<Rightarrow> nat \<Rightarrow> pptr \<Rightarrow> pptr \<Rightarrow> nat \<Rightarrow> bool \<Rightarrow> nat \<Rightarrow> nat option" where
  "compare_range mapped reps v1 v2 p1 p2 0 allocated st = Some st"
| "compare_range mapped reps v1 v2 p1 p2 (Suc n) allocated st = do {
     tmp_st \<leftarrow> compare_words mapped reps v1 v2 p1 p2 allocated;
     compare_range mapped reps (v1 + 1) (v2 + 1) p1 p2 n allocated (if tmp_st \<noteq> st_OK then tmp_st else st) }"

text \<open>Does replica \<open>p\<close> hold data of the object?  The tests at the head of the loops of \<open>compare_slot\<close> and \<open>eq_partition\<close>.\<close>

definition holds_object :: "replica list \<Rightarrow> pptr \<Rightarrow> nat \<Rightarrow> bool option" where
  "holds_object reps p oid =
     (if rp_global_allocs (rep_of reps p) \<le> oid then Some False
      else do { dx \<leftarrow> IDtoDX reps p oid;
                if dx < 0 then Some False
                else do { d \<leftarrow> IDhasData reps p oid; Some (\<not> (\<not> d \<and> sentinel_slot reps p (nat dx))) } })"

fun first_holder :: "replica list \<Rightarrow> pptr list \<Rightarrow> nat \<Rightarrow> (pptr \<times> pptr list) option option" where
  "first_holder reps [] oid = Some None"
| "first_holder reps (p # ps) oid = do { b \<leftarrow> holds_object reps p oid; if b then Some (Some (p, ps)) else first_holder reps ps oid }"

text \<open>The loop over the other replicas; it ends at the first status that is not \<open>OK\<close>.\<close>

fun compare_others :: "(nat \<Rightarrow> nat \<Rightarrow> u32) \<Rightarrow> replica list \<Rightarrow> pptr \<Rightarrow> nat \<Rightarrow> nat \<Rightarrow> bool \<Rightarrow> pptr list \<Rightarrow> nat \<Rightarrow> nat option" where
  "compare_others mapped reps p0 v0 a0 allocated [] oid = Some st_OK"
| "compare_others mapped reps p0 v0 a0 allocated (pk # ps) oid =
     (if rp_global_allocs (rep_of reps pk) \<le> oid then compare_others mapped reps p0 v0 a0 allocated ps oid
      else do {
        dx \<leftarrow> IDtoDX reps pk oid;
        if dx < 0 then compare_others mapped reps p0 v0 a0 allocated ps oid
        else do {
          al \<leftarrow> IDallocated reps pk oid;
          if \<not> al \<and> isDieFast (rep_of reps pk) \<and> sentinel_slot reps pk (nat dx) then compare_others mapped reps p0 v0 a0 allocated ps oid
          else do {
            site \<leftarrow> IDtoAllocSite reps pk oid;
            if site \<noteq> a0 then Some CALLSITE_MISMATCH
            else do {
              vk \<leftarrow> IDtoPointer reps pk oid;
              tmp_st \<leftarrow> compare_range mapped reps v0 vk p0 pk (size_in_words (pi_of reps p0)) allocated st_OK;
              if tmp_st \<noteq> st_OK then Some tmp_st else compare_others mapped reps p0 v0 a0 allocated ps oid } } } })"

text \<open>The line \<open>tmp_st == OK;\<close> of the code, for objects that are not allocated, has no effect.\<close>

definition compare_slot :: "(nat \<Rightarrow> nat \<Rightarrow> u32) \<Rightarrow> replica list \<Rightarrow> pptr list \<Rightarrow> nat \<Rightarrow> nat option" where
  "compare_slot mapped reps partitions oid =
     (if oid = 0 then None
      else do {
        h \<leftarrow> first_holder reps partitions oid;
        case h of
          None \<Rightarrow> Some DNE
        | Some (p0, ps) \<Rightarrow> do {
            v0 \<leftarrow> IDtoPointer reps p0 oid; a0 \<leftarrow> IDtoAllocSite reps p0 oid;
            if ps = [] then Some ALLOC_ONLY_ONE
            else do { allocated \<leftarrow> IDallocated reps p0 oid; compare_others mapped reps p0 v0 a0 allocated ps oid } } })"

section \<open>Equivalence classes and masks\<close>

definition is_outlier :: "pptr \<Rightarrow> pptr list list \<Rightarrow> bool" where
  "is_outlier p eq \<longleftrightarrow> list_ex (\<lambda>c. length c = 1 \<and> c ! 0 = p) eq"

text \<open>The first class whose first member has the same object, from class \<open>j\<close> on; the replica is put into it, or into a new class.\<close>

fun join_class :: "(nat \<Rightarrow> nat \<Rightarrow> u32) \<Rightarrow> replica list \<Rightarrow> nat \<Rightarrow> nat \<Rightarrow> bool \<Rightarrow> pptr \<Rightarrow> pptr list list \<Rightarrow> pptr list list option" where
  "join_class mapped reps words oid allocated px [] = Some [[px]]"
| "join_class mapped reps words oid allocated px (c # cs) = do {
     v0 \<leftarrow> IDtoPointer reps (c ! 0) oid; vi \<leftarrow> IDtoPointer reps px oid;
     tmp_st \<leftarrow> compare_range mapped reps v0 vi (c ! 0) px words allocated st_OK;
     if tmp_st = st_OK then Some ((c @ [px]) # cs)
     else map_option (\<lambda>cs. c # cs) (join_class mapped reps words oid allocated px cs) }"

fun join_classes :: "(nat \<Rightarrow> nat \<Rightarrow> u32) \<Rightarrow> replica list \<Rightarrow> nat \<Rightarrow> nat \<Rightarrow> bool \<Rightarrow> pptr list \<Rightarrow> pptr list list \<Rightarrow> pptr list list option" where
  "join_classes mapped reps words oid allocated [] eq = Some eq"
| "join_classes mapped reps words oid allocated (px # ps) eq = do {
     b \<leftarrow> holds_object reps px oid;
     eq \<leftarrow> (if b then join_class mapped reps words oid allocated px eq else Some eq);
     join_classes mapped reps words oid allocated ps eq }"

text \<open>\<open>std::sort\<close> by size: classes of the same size in the order found.\<close>

definition eq_partition :: "(nat \<Rightarrow> nat \<Rightarrow> u32) \<Rightarrow> replica list \<Rightarrow> pptr list \<Rightarrow> nat \<Rightarrow> pptr list list option" where
  "eq_partition mapped reps partitions oid = do {
     h \<leftarrow> first_holder reps partitions oid;
     case h of
       None \<Rightarrow> None
     | Some (p, ps) \<Rightarrow> do {
         al \<leftarrow> IDallocated reps p oid; hd0 \<leftarrow> (if al then IDhasData reps p oid else Some False);
         eq \<leftarrow> join_classes mapped reps (size_in_words (pi_of reps (partitions ! 0))) oid (al \<and> hd0) ps [[p]];
         Some (sort_key length eq) } }"

text \<open>The bytes of a word that are marked, from byte \<open>k\<close> on; after every byte the code shifts by \<open>sizeof (unsigned long)\<close>.\<close>

fun mark_bytes :: "nat \<Rightarrow> u32 \<Rightarrow> nat \<Rightarrow> bool list \<Rightarrow> bool list" where
  "mark_bytes k bitmask 0 marks = marks"
| "mark_bytes k bitmask (Suc n) marks =
     mark_bytes (k + 1) (drop_bit 4 bitmask) n (if bitmask AND 0xff \<noteq> 0 then marks[k := True] else marks)"

definition create_mask_sentinel :: "replica list \<Rightarrow> pptr \<Rightarrow> nat \<Rightarrow> bool list" where
  "create_mask_sentinel reps p dx =
     (let v0 = DXtoPointer (pi_of reps p) dx
      in fold (\<lambda>i marks. if \<not> sentinel_at reps p (v0 + i)
                then mark_bytes (4 * i) (word_at reps p (v0 + i) XOR rp_sentinel (reps ! pi_replica_id (pi_of reps p))) 4 marks else marks)
           [0..<size_in_words (pi_of reps p)] (replicate (pi_size (pi_of reps p)) False))"

fun mask_replicas :: "(nat \<Rightarrow> nat \<Rightarrow> u32) \<Rightarrow> replica list \<Rightarrow> pptr \<Rightarrow> nat \<Rightarrow> nat \<Rightarrow> pptr list \<Rightarrow> bool list \<Rightarrow> bool list option" where
  "mask_replicas mapped reps perr oid i [] marks = Some marks"
| "mask_replicas mapped reps perr oid i (pj # ps) marks = do {
     verr \<leftarrow> IDtoPointer reps perr oid; vgood \<leftarrow> IDtoPointer reps pj oid; allocated \<leftarrow> IDallocated reps perr oid;
     st \<leftarrow> compare_words mapped reps (verr + i) (vgood + i) perr pj allocated;
     mask_replicas mapped reps perr oid i ps
       (if st \<noteq> st_OK then mark_bytes (4 * i) (word_at reps perr (verr + i) XOR word_at reps pj (vgood + i)) 4 marks else marks) }"

fun mask_words :: "(nat \<Rightarrow> nat \<Rightarrow> u32) \<Rightarrow> replica list \<Rightarrow> pptr \<Rightarrow> pptr list \<Rightarrow> nat \<Rightarrow> nat \<Rightarrow> nat \<Rightarrow> bool list \<Rightarrow> bool list option" where
  "mask_words mapped reps perr pgroup oid 0 i marks = Some marks"
| "mask_words mapped reps perr pgroup oid (Suc n) i marks = do {
     marks \<leftarrow> mask_replicas mapped reps perr oid i pgroup marks; mask_words mapped reps perr pgroup oid n (i + 1) marks }"

definition create_mask :: "(nat \<Rightarrow> nat \<Rightarrow> u32) \<Rightarrow> replica list \<Rightarrow> pptr \<Rightarrow> pptr list \<Rightarrow> nat \<Rightarrow> bool list option" where
  "create_mask mapped reps perr pgroup oid =
     mask_words mapped reps perr pgroup oid (size_in_words (pi_of reps perr)) 0 (replicate (pi_size (pi_of reps perr)) False)"

section \<open>Overflows\<close>

definition heap_byte :: "replica list \<Rightarrow> pptr \<Rightarrow> nat \<Rightarrow> u32" where
  "heap_byte reps p b = byte_of (b mod 4) (word_at reps p (b div 4))"

text \<open>The bytes of one slot, from byte \<open>k\<close> on with \<open>n\<close> left; \<open>double\<close> is exact here.\<close>

function correlate_bytes :: "replica list \<Rightarrow> pptr \<Rightarrow> nat \<Rightarrow> pptr \<Rightarrow> nat \<Rightarrow> bool list \<Rightarrow> nat \<Rightarrow> nat \<Rightarrow> rat \<Rightarrow> rat" where
  "correlate_bytes reps perr err px good marks nbytes k ret =
     (if k < nbytes
      then if k mod 4 = 0 \<and> sentinel_at reps px (good + k div 4) then correlate_bytes reps perr err px good marks nbytes (k + 4) ret
           else correlate_bytes reps perr err px good marks nbytes (k + 1)
                  (if marks ! k \<and> heap_byte reps perr (4 * err + k) = heap_byte reps px (4 * good + k) then ret * (1 / 256) else ret)
      else ret)"
  by pat_completeness auto

termination correlate_bytes
  by (relation "measure (\<lambda>(reps, perr, err, px, good, marks, words, k, ret). words - k)") auto

declare correlate_bytes.simps [simp del]

fun correlate_group :: "replica list \<Rightarrow> pptr \<Rightarrow> nat \<Rightarrow> nat \<Rightarrow> nat \<Rightarrow> bool list \<Rightarrow> pptr list \<Rightarrow> rat \<Rightarrow> rat option" where
  "correlate_group reps perr err oid offset marks [] ret = Some ret"
| "correlate_group reps perr err oid offset marks (px # ps) ret =
     (if px = perr then None
      else if rp_global_allocs (rep_of reps px) \<le> oid then correlate_group reps perr err oid offset marks ps ret
      else do {
        dx0 \<leftarrow> IDtoDX reps px oid;
        let dx = dx0 + int offset
        in if dx < 0 \<or> int (pi_elements (pi_of reps px)) \<le> dx \<or> dx0 < 0 then correlate_group reps perr err oid offset marks ps ret
           else do {
             d \<leftarrow> DXhasData (pi_of reps px) (nat dx);
             if d then correlate_group reps perr err oid offset marks ps ret
             else correlate_group reps perr err oid offset marks ps
                    (correlate_bytes reps perr err px (DXtoPointer (pi_of reps px) (nat dx)) marks (pi_size (pi_of reps perr)) 0 ret) } })"

definition correlation :: "replica list \<Rightarrow> pptr list \<Rightarrow> pptr \<Rightarrow> nat \<Rightarrow> nat \<Rightarrow> bool list \<Rightarrow> rat option" where
  "correlation reps pgroup perr oid offset marks = do {
     dx \<leftarrow> IDtoDX reps perr oid;
     ret \<leftarrow> correlate_group reps perr (DXtoPointer (pi_of reps perr) (nat (dx + int offset))) oid offset marks pgroup 1;
     Some (1 - ret) }"

fun trailing_ones :: "nat \<Rightarrow> nat \<Rightarrow> nat" where
  "trailing_ones 0 st = 0"
| "trailing_ones (Suc n) st = (if odd st then Suc (trailing_ones n (st div 2)) else 0)"

text \<open>The words of one slot, from word \<open>k\<close> on with \<open>n\<close> left.  A status has four bits, the loop over them four rounds.\<close>

fun overflow_words :: "(nat \<Rightarrow> nat \<Rightarrow> u32) \<Rightarrow> replica list \<Rightarrow> pptr \<Rightarrow> nat \<Rightarrow> pptr \<Rightarrow> nat \<Rightarrow> nat \<Rightarrow> bool list \<Rightarrow> bool \<Rightarrow> nat \<Rightarrow> nat \<Rightarrow> nat \<Rightarrow> nat option" where
  "overflow_words mapped reps perr err px good dx marks is_sentinel 0 k acc = Some acc"
| "overflow_words mapped reps perr err px good dx marks is_sentinel (Suc n) k acc =
     (if \<not> marks ! (4 * k) \<or> (is_sentinel \<and> sentinel_at reps px (good + k))
      then overflow_words mapped reps perr err px good dx marks is_sentinel n (k + 1) acc
      else do {
        al \<leftarrow> DXallocated (pi_of reps px) dx;
        st \<leftarrow> compare_words mapped reps (err + k) (good + k) perr px al;
        let st = (if st = PTR_DIFF_ID then 0 else st)
        in if st = st_OK then overflow_words mapped reps perr err px good dx marks is_sentinel n (k + 1) (acc + 4)
           else Some (acc + trailing_ones 4 st) })"

text \<open>\<open>None\<close> as the minimum is \<open>numeric_limits<int>::max ()\<close>.\<close>

fun overflow_group :: "(nat \<Rightarrow> nat \<Rightarrow> u32) \<Rightarrow> replica list \<Rightarrow> pptr \<Rightarrow> nat \<Rightarrow> nat \<Rightarrow> nat \<Rightarrow> bool list \<Rightarrow> pptr list \<Rightarrow> nat option \<Rightarrow> nat option option" where
  "overflow_group mapped reps perr err oid offset marks [] ct = Some ct"
| "overflow_group mapped reps perr err oid offset marks (px # ps) ct =
     (if px = perr \<or> rp_global_allocs (rep_of reps px) \<le> oid then overflow_group mapped reps perr err oid offset marks ps ct
      else do {
        dx0 \<leftarrow> IDtoDX reps px oid;
        let dx = nat dx0 + offset
        in if dx0 = -1 \<or> pi_elements (pi_of reps px) \<le> dx \<or> DXtoID (pi_of reps px) dx > oid
           then overflow_group mapped reps perr err oid offset marks ps ct
           else do {
             acc \<leftarrow> overflow_words mapped reps perr err px (DXtoPointer (pi_of reps px) dx) dx marks (DXtoID (pi_of reps px) dx = 0)
                      (size_in_words (pi_of reps perr)) 0 0;
             overflow_group mapped reps perr err oid offset marks ps
               (case ct of None \<Rightarrow> Some acc | Some c \<Rightarrow> if acc < c then Some acc else Some c) } })"

definition overflow_offset :: "(nat \<Rightarrow> nat \<Rightarrow> u32) \<Rightarrow> replica list \<Rightarrow> pptr list \<Rightarrow> pptr \<Rightarrow> nat \<Rightarrow> nat \<Rightarrow> bool list \<Rightarrow> nat option" where
  "overflow_offset mapped reps pgroup perr oid offset marks = do {
     dx \<leftarrow> IDtoDX reps perr oid;
     ct \<leftarrow> overflow_group mapped reps perr (DXtoPointer (pi_of reps perr) (nat (dx + int offset))) oid offset marks pgroup None;
     Some (case ct of None \<Rightarrow> 0 | Some c \<Rightarrow> c) }"

record worklist_item =
  wi_pgroup :: "pptr list"
  wi_perr :: pptr
  wi_dx :: nat
  wi_mask :: "bool list"

text \<open>The search for the culprit among the slots before the victim, from slot \<open>j - 1\<close> down; the best candidate so far is
  its correlation, slot and offset.\<close>

fun search_overflow :: "(nat \<Rightarrow> nat \<Rightarrow> u32) \<Rightarrow> replica list \<Rightarrow> worklist_item \<Rightarrow> nat \<Rightarrow> rat \<times> nat \<times> nat \<Rightarrow> (rat \<times> nat \<times> nat) option" where
  "search_overflow mapped reps item 0 best = Some best"
| "search_overflow mapped reps item (Suc j) best =
     (let oid = DXtoID (pi_of reps (wi_perr item)) j; offset = wi_dx item - j
      in if oid = 0 then search_overflow mapped reps item j best
         else do {
           st \<leftarrow> compare_slot mapped reps (wi_pgroup item) oid;
           if st = st_OK \<or> st = ALLOC_ONLY_ONE \<or> st = DNE
           then do {
             c \<leftarrow> correlation reps (wi_pgroup item) (wi_perr item) oid offset (wi_mask item);
             if c > fst best
             then do {
               d \<leftarrow> overflow_offset mapped reps (wi_pgroup item) (wi_perr item) oid offset (wi_mask item);
               search_overflow mapped reps item j (if d > 0 then (c, j, d) else best) }
             else search_overflow mapped reps item j best }
           else search_overflow mapped reps item j best })"

definition check_overflow :: "(nat \<Rightarrow> nat \<Rightarrow> u32) \<Rightarrow> replica list \<Rightarrow> worklist_item \<Rightarrow> patch_db \<Rightarrow> patch_db option" where
  "check_overflow mapped reps item db =
     (if length (wi_pgroup item) < 2 then Some db
      else do {
        (best_c, best_j, best_d) \<leftarrow> search_overflow mapped reps item (wi_dx item) (0, 0, 0);
        Some (if best_c > 0
              then let p = pi_of reps (wi_perr item)
                   in do_overflow (word_of_nat (DXtoAllocSite p best_j)) (word_of_nat ((wi_dx item - best_j - 1) * pi_size p + best_d)) db
              else db) })"

end
