(* ===== verification/Patcher.thy ===== *)
theory Patcher
  imports Isolator
begin

text \<open>
  The patcher program (\<open>src/exterminator/src/patcher/main.cpp\<close>, \<open>dang_ptr.cpp\<close>): the loops over the objects
  and the slots of all replicas, the search for prematurely freed objects, and \<open>main\<close>.  The estimate
  \<open>eval_probability\<close> (\<open>numerics.cpp\<close>, absent from the repository) is an argument.  In a work item the field
  \<open>oid\<close>, which nothing reads, is left out, and so are the three pointers kept for the debugger.
\<close>

section \<open>Discrepancies\<close>

text \<open>The classes from the smallest on, as long as they are singletons; the last class is the reference.\<close>

fun handle_classes :: "(nat \<Rightarrow> nat \<Rightarrow> u32) \<Rightarrow> replica list \<Rightarrow> nat \<Rightarrow> pptr list list \<Rightarrow> patch_db \<Rightarrow> patch_db option" where
  "handle_classes mapped reps oid [] db = Some db"
| "handle_classes mapped reps oid (c # cs) db =
     (if cs = [] \<or> length c \<noteq> 1 then Some db
      else do {
        dx \<leftarrow> IDtoDX reps (c ! 0) oid;
        marks \<leftarrow> create_mask mapped reps (c ! 0) (last cs) oid;
        db \<leftarrow> check_overflow mapped reps \<lparr>wi_pgroup = last cs, wi_perr = c ! 0, wi_dx = nat dx, wi_mask = marks\<rparr> db;
        handle_classes mapped reps oid cs db })"

definition handle_discrepancy :: "(nat \<Rightarrow> nat \<Rightarrow> u32) \<Rightarrow> replica list \<Rightarrow> pptr list \<Rightarrow> nat \<Rightarrow> patch_db \<Rightarrow> patch_db option" where
  "handle_discrepancy mapped reps partitions oid db = do {
     eq \<leftarrow> eq_partition mapped reps partitions oid;
     if length (eq ! 0) \<noteq> 1 \<or> (length reps > 2 \<and> length eq = length reps) then Some db
     else handle_classes mapped reps oid eq db }"

text \<open>The partitions with number \<open>i\<close> of all replicas.\<close>

definition group :: "replica list \<Rightarrow> nat \<Rightarrow> pptr list" where
  "group reps i = map (\<lambda>k. (k, i)) [0..<length reps]"

definition same_shape :: "replica list \<Rightarrow> nat \<Rightarrow> bool" where
  "same_shape reps i \<longleftrightarrow>
     list_all (\<lambda>r. i < length (rp_partitions r) \<and> pi_size (rp_partitions r ! i) = pi_size (rp_partitions (reps ! 0) ! i)
        \<and> pi_elements (rp_partitions r ! i) = pi_elements (rp_partitions (reps ! 0) ! i)) reps"

text \<open>The loop over the objects, from number \<open>j\<close> on with \<open>n\<close> left.\<close>

fun compare_objects :: "(nat \<Rightarrow> nat \<Rightarrow> u32) \<Rightarrow> replica list \<Rightarrow> nat \<Rightarrow> nat \<Rightarrow> patch_db \<Rightarrow> patch_db option" where
  "compare_objects mapped reps 0 j db = Some db"
| "compare_objects mapped reps (Suc n) j db =
     (let i = fst (rp_pmap (reps ! 0) ! j); partitions = group reps (nat i)
      in if i < 0 \<or> \<not> same_shape reps (nat i) then None
         else do {
           st \<leftarrow> compare_slot mapped reps partitions j;
           if st = st_OK \<or> st = ALLOC_ONLY_ONE \<or> st = DNE then compare_objects mapped reps n (j + 1) db
           else if st = CALLSITE_MISMATCH then Some db
           else do {
             al \<leftarrow> (if st = PTR_DIFF_ID then IDallocated reps (partitions ! 0) j else Some True);
             db \<leftarrow> (if al then handle_discrepancy mapped reps partitions j db else Some db);
             compare_objects mapped reps n (j + 1) db } })"

section \<open>Canaries\<close>

type_synonym scores = "(nat \<times> nat, nat \<times> nat) RBT.rbt"

text \<open>Observations and points of an object in a partition.\<close>

definition score_slot :: "replica list \<Rightarrow> pptr \<Rightarrow> nat \<Rightarrow> scores \<Rightarrow> scores option" where
  "score_slot reps pj k score =
     (let oid = DXtoID (pi_of reps pj) k
      in if oid = 0 then Some score
         else do {
           d \<leftarrow> DXhasData (pi_of reps pj) k;
           let (obs, h) = (case RBT.lookup score (snd pj, oid) of Some v \<Rightarrow> v | None \<Rightarrow> (0, 0));
               bad = isBadReplica (rep_of reps pj)
           in Some (RBT.insert (snd pj, oid) (obs + 1, if d \<and> \<not> bad \<or> \<not> d \<and> bad then h + 1 else h) score) })"

fun count_canaries :: "replica list \<Rightarrow> nat \<Rightarrow> pptr list \<Rightarrow> nat option" where
  "count_canaries reps oid [] = Some 0"
| "count_canaries reps oid (p # ps) =
     (if rp_global_allocs (rep_of reps p) \<le> oid then count_canaries reps oid ps
      else do { d \<leftarrow> IDhasData reps p oid; n \<leftarrow> count_canaries reps oid ps; Some (if d then n else n + 1) })"

text \<open>A slot without data whose canary was overwritten.\<close>

definition dead_canary :: "(nat \<Rightarrow> nat \<Rightarrow> u32) \<Rightarrow> replica list \<Rightarrow> pptr list \<Rightarrow> nat \<Rightarrow> nat \<Rightarrow> patch_db \<Rightarrow> patch_db option" where
  "dead_canary mapped reps partitions j k db =
     (let pj = partitions ! j; oid = DXtoID (pi_of reps pj) k
      in do {
        (outlier, canaries) \<leftarrow>
          (if oid = 0 then Some (True, 0)
           else do { _ \<leftarrow> compare_slot mapped reps partitions oid; eq \<leftarrow> eq_partition mapped reps partitions oid;
                     n \<leftarrow> count_canaries reps oid partitions; Some (is_outlier pj eq, n) });
        if outlier
        then check_overflow mapped reps \<lparr>wi_pgroup = take j partitions @ drop (j + 1) partitions, wi_perr = pj, wi_dx = k,
               wi_mask = create_mask_sentinel reps pj k\<rparr> db
        else if canaries = 1 then None
        else do {
          a \<leftarrow> IDtoAllocSite reps pj oid; f \<leftarrow> IDtoFreeSite reps pj oid; t \<leftarrow> IDtoFreeTime reps pj oid;
          Some (do_dang_ptr (word_of_nat a, word_of_nat f)
            (sint (word_of_nat (rp_global_allocs (rep_of reps pj)) - word_of_nat t :: u32)) db) } })"

text \<open>The slots of replica \<open>j\<close>, from slot \<open>k\<close> on with \<open>n\<close> left.\<close>

fun canary_slots :: "(nat \<Rightarrow> nat \<Rightarrow> u32) \<Rightarrow> replica list \<Rightarrow> pptr list \<Rightarrow> nat \<Rightarrow> nat \<Rightarrow> nat \<Rightarrow> scores \<times> patch_db \<Rightarrow> (scores \<times> patch_db) option" where
  "canary_slots mapped reps partitions j 0 k s = Some s"
| "canary_slots mapped reps partitions j (Suc n) k s = do {
     score \<leftarrow> score_slot reps (partitions ! j) k (fst s);
     d \<leftarrow> DXhasData (pi_of reps (partitions ! j)) k;
     db \<leftarrow> (if \<not> d \<and> \<not> sentinel_slot reps (partitions ! j) k then dead_canary mapped reps partitions j k (snd s) else Some (snd s));
     canary_slots mapped reps partitions j n (k + 1) (score, db) }"

fun canary_replicas :: "(nat \<Rightarrow> nat \<Rightarrow> u32) \<Rightarrow> replica list \<Rightarrow> pptr list \<Rightarrow> nat list \<Rightarrow> scores \<times> patch_db \<Rightarrow> (scores \<times> patch_db) option" where
  "canary_replicas mapped reps partitions [] s = Some s"
| "canary_replicas mapped reps partitions (j # js) s = do {
     s \<leftarrow> canary_slots mapped reps partitions j (pi_elements (pi_of reps (partitions ! j))) 0 s;
     canary_replicas mapped reps partitions js s }"

fun canary_partitions :: "(nat \<Rightarrow> nat \<Rightarrow> u32) \<Rightarrow> replica list \<Rightarrow> nat list \<Rightarrow> scores \<times> patch_db \<Rightarrow> (scores \<times> patch_db) option" where
  "canary_partitions mapped reps [] s = Some s"
| "canary_partitions mapped reps (i # is) s = do {
     s \<leftarrow> canary_replicas mapped reps (group reps i) [0..<length reps] s;
     canary_partitions mapped reps is s }"

section \<open>Prematurely freed objects\<close>

text \<open>The confidence is a \<open>double\<close>; the thresholds 0.0001 and 0.0000005 are taken as the exact fractions.\<close>

fun read_search :: "(int \<Rightarrow> int \<Rightarrow> rat) \<Rightarrow> replica list \<Rightarrow> ((nat \<times> nat) \<times> nat \<times> nat) list \<Rightarrow> patch_db \<Rightarrow> patch_db option" where
  "read_search eval_probability reps [] db = Some db"
| "read_search eval_probability reps (((i, oid), obs, h) # es) db =
     (let t = obs - h; conf = eval_probability (int h) (int t);
          td = sint (word_of_nat (rp_global_allocs (reps ! 0)) - word_of_nat oid :: u32)
      in do {
        _ \<leftarrow> (if conf < 1 / 10000 then IDtoVA reps (length reps - 1, i) oid else Some 0);
        a \<leftarrow> IDtoAllocSite reps (0, i) oid; f \<leftarrow> IDtoFreeSite reps (0, i) oid;
        let key = (word_of_nat a, word_of_nat f);
            db = (if f \<noteq> 0 then update_static_info key (word_of_nat h) (word_of_nat t) td db else db)
        in read_search eval_probability reps es (if conf < 1 / 2000000 then do_dang_ptr key td db else db) })"

definition dang_ptr_read_search :: "(int \<Rightarrow> int \<Rightarrow> rat) \<Rightarrow> replica list \<Rightarrow> scores \<Rightarrow> patch_db \<Rightarrow> patch_db option" where
  "dang_ptr_read_search eval_probability reps score db =
     map_option (inspect_static_info eval_probability) (read_search eval_probability reps (RBT.entries score) db)"

section \<open>The program\<close>

definition min_allocated :: "replica list \<Rightarrow> nat" where
  "min_allocated reps = fold (\<lambda>r m. if rp_global_allocs r < m then rp_global_allocs r else m) reps (rp_global_allocs (reps ! 0))"

definition compare_heaps :: "(int \<Rightarrow> int \<Rightarrow> rat) \<Rightarrow> (nat \<Rightarrow> nat \<Rightarrow> u32) \<Rightarrow> replica list \<Rightarrow> patch_db \<Rightarrow> patch_db option" where
  "compare_heaps eval_probability mapped reps db =
     (if list_all (\<lambda>r. length (rp_partitions (reps ! 0)) = length (rp_partitions r)) reps
      then do {
        db \<leftarrow> compare_objects mapped reps (min_allocated reps - 1) 1 db;
        (score, db) \<leftarrow> canary_partitions mapped reps [0..<length (rp_partitions (reps ! 0))] (RBT.empty, db);
        dang_ptr_read_search eval_probability reps score db }
      else None)"

fun read_cores :: "nat \<Rightarrow> u32 list list \<Rightarrow> replica list option" where
  "read_cores i [] = Some []"
| "read_cores i (core # cores) = do { r \<leftarrow> read_core core (new_replica i); rs \<leftarrow> read_cores (i + 1) cores; Some (r # rs) }"

text \<open>The text of the patch file and the mapped cores in, the new text of the patch file out; without a core the
  program prints its usage.\<close>

definition patcher_main :: "(int \<Rightarrow> int \<Rightarrow> rat) \<Rightarrow> (nat \<Rightarrow> nat \<Rightarrow> u32) \<Rightarrow> u32 list list \<Rightarrow> string \<Rightarrow> string option" where
  "patcher_main eval_probability mapped cores patchfile =
     (if cores = [] then None
      else do {
        db \<leftarrow> read_patch patchfile empty_db;
        reps \<leftarrow> read_cores 0 cores;
        db \<leftarrow> compare_heaps eval_probability mapped reps db;
        Some (fst (output_patch db)) })"

section \<open>Patches are never weakened\<close>

definition patches_kept :: "patch_db \<Rightarrow> patch_db \<Rightarrow> bool" where
  "patches_kept db db' \<longleftrightarrow>
     (\<forall>c d. RBT.lookup (overflowPatches db) c = Some d \<longrightarrow> (\<exists>d'. RBT.lookup (overflowPatches db') c = Some d' \<and> d \<le> d'))
     \<and> (\<forall>c td. RBT.lookup (danglePatches db) c = Some td \<longrightarrow> (\<exists>td'. RBT.lookup (danglePatches db') c = Some td' \<and> td \<le> td'))"

lemma kept_refl [intro, simp]: "patches_kept db db"
  by (auto simp: patches_kept_def)

lemma kept_trans [trans]: "patches_kept a b \<Longrightarrow> patches_kept b c \<Longrightarrow> patches_kept a c"
  unfolding patches_kept_def by (meson order_trans)

lemma do_overflow_kept: "patches_kept db (do_overflow callsite delta db)"
  by (auto simp: patches_kept_def do_overflow_def has_overflow_patch_def get_overflow_patch_def add_overflow_patch_def)

lemma do_dang_ptr_kept: "patches_kept db (do_dang_ptr key td db)"
  by (auto simp: patches_kept_def do_dang_ptr_def has_dangle_patch_def get_dangle_patch_def add_dangle_patch_def Let_def)

lemma update_static_info_kept: "patches_kept db (update_static_info key h t drag db)"
  by (simp add: patches_kept_def update_static_info_def split: prod.split option.split)

lemma inspect_entry_kept: "patches_kept db (inspect_entry ev e db)"
proof -
  have d: "patches_kept db (db\<lparr>drag_map := m\<rparr>)" for m by (simp add: patches_kept_def)
  show ?thesis by (auto simp: inspect_entry_def Let_def split: prod.split intro: kept_trans [OF d do_dang_ptr_kept])
qed

lemma inspect_kept: "patches_kept db (inspect_static_info ev db)"
proof -
  have "patches_kept db (fold (inspect_entry ev) es db)" for es
    by (induction es arbitrary: db) (auto intro: kept_trans [OF inspect_entry_kept])
  then show ?thesis by (simp add: inspect_static_info_def)
qed

lemma check_overflow_kept: "check_overflow mapped reps item db = Some db' \<Longrightarrow> patches_kept db db'"
  by (auto simp: check_overflow_def Let_def bind_eq_Some_conv do_overflow_kept split: if_splits)

lemma handle_classes_kept: "handle_classes mapped reps oid eq db = Some db' \<Longrightarrow> patches_kept db db'"
proof (induction eq arbitrary: db)
  case (Cons c cs)
  then show ?case by (auto simp: bind_eq_Some_conv split: if_splits intro: kept_trans [OF check_overflow_kept])
qed simp

lemma handle_discrepancy_kept: "handle_discrepancy mapped reps partitions oid db = Some db' \<Longrightarrow> patches_kept db db'"
  by (auto simp: handle_discrepancy_def bind_eq_Some_conv handle_classes_kept split: if_splits)

lemma compare_objects_kept: "compare_objects mapped reps n j db = Some db' \<Longrightarrow> patches_kept db db'"
proof (induction n arbitrary: j db)
  case (Suc n)
  then show ?case
    by (auto simp: bind_eq_Some_conv Let_def split: if_splits intro: kept_trans [OF handle_discrepancy_kept])
qed simp

lemma dead_canary_kept: "dead_canary mapped reps partitions j k db = Some db' \<Longrightarrow> patches_kept db db'"
proof -
  assume a: "dead_canary mapped reps partitions j k db = Some db'"
  then obtain outlier canaries where "(if outlier
        then check_overflow mapped reps \<lparr>wi_pgroup = take j partitions @ drop (j + 1) partitions, wi_perr = partitions ! j, wi_dx = k,
               wi_mask = create_mask_sentinel reps (partitions ! j) k\<rparr> db
        else if canaries = (1::nat) then None
        else do {
          a \<leftarrow> IDtoAllocSite reps (partitions ! j) (DXtoID (pi_of reps (partitions ! j)) k);
          f \<leftarrow> IDtoFreeSite reps (partitions ! j) (DXtoID (pi_of reps (partitions ! j)) k);
          t \<leftarrow> IDtoFreeTime reps (partitions ! j) (DXtoID (pi_of reps (partitions ! j)) k);
          Some (do_dang_ptr (word_of_nat a, word_of_nat f)
            (sint (word_of_nat (rp_global_allocs (rep_of reps (partitions ! j))) - word_of_nat t :: u32)) db) }) = Some db'"
    by (simp only: dead_canary_def Let_def bind_eq_Some_conv split_paired_Ex prod.case) blast
  then show ?thesis
    by (cases outlier; cases "canaries = 1") (auto simp: bind_eq_Some_conv do_dang_ptr_kept check_overflow_kept)
qed

lemma canary_slots_kept: "canary_slots mapped reps partitions j n k s = Some s' \<Longrightarrow> patches_kept (snd s) (snd s')"
proof (induction n arbitrary: k s)
  case (Suc n)
  then obtain score d db where db: "(if \<not> d \<and> \<not> sentinel_slot reps (partitions ! j) k then dead_canary mapped reps partitions j k (snd s) else Some (snd s)) = Some db"
    and r: "canary_slots mapped reps partitions j n (k + 1) (score, db) = Some s'"
    by (auto simp: bind_eq_Some_conv)
  have "patches_kept (snd s) db" using db by (auto split: if_splits intro: dead_canary_kept)
  with Suc.IH [OF r] show ?case using kept_trans by fastforce
qed simp

lemma canary_replicas_kept: "canary_replicas mapped reps partitions js s = Some s' \<Longrightarrow> patches_kept (snd s) (snd s')"
  by (induction js arbitrary: s) (auto simp: bind_eq_Some_conv intro: kept_trans [OF canary_slots_kept])

lemma canary_partitions_kept: "canary_partitions mapped reps is s = Some s' \<Longrightarrow> patches_kept (snd s) (snd s')"
  by (induction "is" arbitrary: s) (auto simp: bind_eq_Some_conv intro: kept_trans [OF canary_replicas_kept])

lemma read_search_kept: "read_search ev reps es db = Some db' \<Longrightarrow> patches_kept db db'"
proof (induction es arbitrary: db)
  case (Cons e es)
  obtain i oid obs h where e: "e = ((i, oid), obs, h)" by (metis surj_pair)
  let ?td = "sint (word_of_nat (rp_global_allocs (reps ! 0)) - word_of_nat oid :: u32)"
  obtain key f where r: "read_search ev reps es
      (if ev (int h) (int (obs - h)) < 1 / 2000000 then do_dang_ptr key ?td (if f \<noteq> 0 then update_static_info key (word_of_nat h) (word_of_nat (obs - h)) ?td db else db)
       else if f \<noteq> (0::nat) then update_static_info key (word_of_nat h) (word_of_nat (obs - h)) ?td db else db) = Some db'"
    using Cons.prems by (simp only: e read_search.simps Let_def bind_eq_Some_conv) blast
  have "patches_kept db (if f \<noteq> 0 then update_static_info key (word_of_nat h) (word_of_nat (obs - h)) ?td db else db)" by (simp add: update_static_info_kept)
  then have "patches_kept db (if ev (int h) (int (obs - h)) < 1 / 2000000 then do_dang_ptr key ?td (if f \<noteq> 0 then update_static_info key (word_of_nat h) (word_of_nat (obs - h)) ?td db else db)
       else if f \<noteq> 0 then update_static_info key (word_of_nat h) (word_of_nat (obs - h)) ?td db else db)"
    using kept_trans [OF _ do_dang_ptr_kept] by auto
  with Cons.IH [OF r] show ?case by (rule kept_trans [rotated])
qed simp

text \<open>C22: The patcher never weakens a patch.  Whatever the cores hold, every overflow patch of the patch file is still there
  after a run of the comparison that ends, with at least the same padding, and every patch for a premature free with at
  least the same delay.\<close>

theorem patcher_keeps_patches:
  assumes "compare_heaps eval_probability mapped reps db = Some db'"
  shows "patches_kept db db'"
proof -
  obtain db1 s db3 where 1: "compare_objects mapped reps (min_allocated reps - 1) 1 db = Some db1"
    and 2: "canary_partitions mapped reps [0..<length (rp_partitions (reps ! 0))] (RBT.empty, db1) = Some s"
    and 3: "read_search eval_probability reps (RBT.entries (fst s)) (snd s) = Some db3" and d: "db' = inspect_static_info eval_probability db3"
    using assms by (auto simp: compare_heaps_def dang_ptr_read_search_def bind_eq_Some_conv split: if_splits prod.splits)
  have "patches_kept db db1" by (rule compare_objects_kept [OF 1])
  also have "patches_kept db1 (snd s)" using canary_partitions_kept [OF 2] by simp
  also have "patches_kept (snd s) db3" by (rule read_search_kept [OF 3])
  also have "patches_kept db3 db'" unfolding d by (rule inspect_kept)
  finally show ?thesis .
qed

section \<open>A small run\<close>

text \<open>Three replicas with four slots of eight bytes: object 1 lies in a different slot of each, and the program wrote one word
  past its end.\<close>

definition demo_pinfo :: "nat \<Rightarrow> nat \<Rightarrow> pinfo" where
  "demo_pinfo rid pos =
     \<lparr>pi_size = 8, pi_elements = 4, pi_bitmap = [push_bit pos 1], pi_has_data = [push_bit pos 1],
      pi_slots = (replicate 4 \<lparr>si_id = 0, si_alloc_callsite = 0, si_free_callsite = 0, si_free_time = 0\<rparr>)
        [pos := \<lparr>si_id = 1, si_alloc_callsite = 0x41, si_free_callsite = 0, si_free_time = 0\<rparr>],
      pi_heap = (replicate 8 0xdeadbeef)[2 * pos := 7, 2 * pos + 1 := 8, 2 * pos + 2 := 0x41424344],
      pi_vaddr_start = 64, pi_vaddr_end = 96, pi_replica_id = rid\<rparr>"

definition demo_replica :: "nat \<Rightarrow> nat \<Rightarrow> replica" where
  "demo_replica rid pos =
     \<lparr>rp_id = rid, rp_partitions = [demo_pinfo rid pos], rp_los_size = RBT.empty, rp_los_map = RBT.empty, rp_ptr_base = 0,
      rp_stack_base = 0, rp_flags = 3, rp_global_allocs = 2, rp_sentinel = 0xdeadbeef,
      rp_pmap = [(0, 3), (0, int pos), (-1, -1)]\<rparr>"

definition demo_replicas :: "replica list" where
  "demo_replicas = [demo_replica 0 0, demo_replica 1 1, demo_replica 2 2]"

definition demo_patches :: patch_db where
  "demo_patches = add_overflow_patch 0x41 2 (add_dangle_patch (0x50, 0x51) 6 empty_db)"

lemma demo_run:
  "map_option (\<lambda>db. (RBT.entries (overflowPatches db), RBT.entries (danglePatches db)))
     (compare_heaps (\<lambda>h t. 1) (\<lambda>r i. 0) demo_replicas demo_patches)
   = Some ([(0x41, 4)], [((0x50, 0x51), 6)])"
  by code_simp

lemma patcher_keeps_patches_witness:
  "\<exists>db. compare_heaps (\<lambda>h t. 1) (\<lambda>r i. 0) demo_replicas demo_patches = Some db
     \<and> RBT.entries (overflowPatches db) = [(0x41, 4)] \<and> patches_kept demo_patches db"
proof -
  obtain db where db: "compare_heaps (\<lambda>h t. 1) (\<lambda>r i. 0) demo_replicas demo_patches = Some db" "RBT.entries (overflowPatches db) = [(0x41, 4)]"
    using demo_run by auto
  with patcher_keeps_patches [OF db(1)] show ?thesis by blast
qed

section \<open>Overflow patches\<close>

lemma trailing_ones_le: "trailing_ones n st \<le> n"
  by (induction n arbitrary: st) auto

lemma overflow_words_le: "overflow_words mapped reps perr err px good dx marks sn n k acc = Some r \<Longrightarrow> r \<le> acc + 4 * n"
proof (induction n arbitrary: k acc)
  case (Suc n)
  have t: "trailing_ones 4 st \<le> 4 + 4 * n" for st by (rule trans_le_add1 [OF trailing_ones_le])
  from Suc.prems show ?case
    by (auto simp: bind_eq_Some_conv Let_def t split: if_splits dest!: Suc.IH)
qed simp

lemma overflow_group_le:
  assumes "overflow_group mapped reps perr err oid offset marks ps ct = Some (Some r)"
    and "\<And>c. ct = Some c \<Longrightarrow> c \<le> 4 * size_in_words (pi_of reps perr)"
  shows "r \<le> 4 * size_in_words (pi_of reps perr)"
  using assms
proof (induction ps arbitrary: ct)
  case (Cons px ps)
  show ?case
  proof (cases "overflow_group mapped reps perr err oid offset marks ps ct = Some (Some r)")
    case True
    then show ?thesis by (rule Cons.IH) (rule Cons.prems(2))
  next
    case False
    then obtain acc dx sn good where a: "overflow_words mapped reps perr err px good dx marks sn (size_in_words (pi_of reps perr)) 0 0 = Some acc"
      and r: "overflow_group mapped reps perr err oid offset marks ps (case ct of None \<Rightarrow> Some acc | Some c \<Rightarrow> if acc < c then Some acc else Some c) = Some (Some r)"
      using Cons.prems(1) by (fastforce simp: bind_eq_Some_conv Let_def split: if_splits)
    have "acc \<le> 4 * size_in_words (pi_of reps perr)" using overflow_words_le [OF a] by simp
    then show ?thesis using Cons.prems(2) by (intro Cons.IH [OF r]) (auto split: option.splits if_splits)
  qed
qed simp

lemma overflow_offset_le:
  "overflow_offset mapped reps pgroup perr oid offset marks = Some d \<Longrightarrow> d \<le> 4 * size_in_words (pi_of reps perr)"
  by (auto simp: overflow_offset_def bind_eq_Some_conv split: option.splits dest!: overflow_group_le)

definition culprit :: "(nat \<Rightarrow> nat \<Rightarrow> u32) \<Rightarrow> replica list \<Rightarrow> worklist_item \<Rightarrow> nat \<Rightarrow> nat \<Rightarrow> bool" where
  "culprit mapped reps item j d \<longleftrightarrow>
     (let p = pi_of reps (wi_perr item)
      in j < wi_dx item \<and> DXtoID p j \<noteq> 0 \<and> compare_slot mapped reps (wi_pgroup item) (DXtoID p j) \<in> {Some st_OK, Some ALLOC_ONLY_ONE, Some DNE}
         \<and> 0 < d \<and> d \<le> 4 * size_in_words p)"

lemma search_overflow_culprit:
  assumes "search_overflow mapped reps item j best = Some (c, b, d)" and "j \<le> wi_dx item"
  shows "(c, b, d) = best \<or> culprit mapped reps item b d"
  using assms
proof (induction j arbitrary: best)
  case (Suc j)
  let ?oid = "DXtoID (pi_of reps (wi_perr item)) j"
  show ?case
  proof (cases "search_overflow mapped reps item j best = Some (c, b, d)")
    case True
    with Suc show ?thesis by simp
  next
    case False
    then obtain c' d' st where "?oid \<noteq> 0" and st: "compare_slot mapped reps (wi_pgroup item) ?oid = Some st" "st = st_OK \<or> st = ALLOC_ONLY_ONE \<or> st = DNE"
      and d': "overflow_offset mapped reps (wi_pgroup item) (wi_perr item) ?oid (wi_dx item - j) (wi_mask item) = Some d'" "d' > 0"
      and r: "search_overflow mapped reps item j (c', j, d') = Some (c, b, d)"
      using Suc.prems(1) by (auto simp: bind_eq_Some_conv Let_def split: if_splits)
    have "culprit mapped reps item j d'"
      using st d'(2) overflow_offset_le [OF d'(1)] Suc.prems(2) \<open>?oid \<noteq> 0\<close> by (auto simp: culprit_def Let_def)
    with Suc.IH [OF r] Suc.prems(2) show ?thesis by auto
  qed
qed simp

text \<open>C23: An overflow patch names a plausible culprit and reaches the corruption.  When checking a corrupted slot changes the patch
  database, then there were at least two other replicas, and the new patch pads the allocation site of an object in an
  earlier slot of the same partition, whose own contents do not differ between the other replicas; counted from the end of that
  object's slot, the padding ends inside the corrupted slot.\<close>

theorem overflow_patch_sound:
  assumes "check_overflow mapped reps item db = Some db'" and "pi_of reps (wi_perr item) = p" and "4 dvd pi_size p"
  shows "db' = db \<or> 2 \<le> length (wi_pgroup item) \<and> (\<exists>j delta. j < wi_dx item \<and> DXtoID p j \<noteq> 0
    \<and> compare_slot mapped reps (wi_pgroup item) (DXtoID p j) \<in> {Some st_OK, Some ALLOC_ONLY_ONE, Some DNE}
    \<and> wi_dx item * pi_size p < (j + 1) * pi_size p + delta \<and> (j + 1) * pi_size p + delta \<le> (wi_dx item + 1) * pi_size p
    \<and> db' = do_overflow (word_of_nat (DXtoAllocSite p j)) (word_of_nat delta) db)"
proof (cases "db' = db")
  case False
  then obtain c j d where l: "2 \<le> length (wi_pgroup item)" and s: "search_overflow mapped reps item (wi_dx item) (0, 0, 0) = Some (c, j, d)" and c: "c > 0"
    and db: "db' = do_overflow (word_of_nat (DXtoAllocSite p j)) (word_of_nat ((wi_dx item - j - 1) * pi_size p + d)) db"
    using assms(1,2) by (auto simp: check_overflow_def Let_def bind_eq_Some_conv split: if_splits)
  have "culprit mapped reps item j d" using search_overflow_culprit [OF s] c by auto
  then have k: "j < wi_dx item" "DXtoID p j \<noteq> 0" "0 < d" "d \<le> pi_size p"
    and st: "compare_slot mapped reps (wi_pgroup item) (DXtoID p j) \<in> {Some st_OK, Some ALLOC_ONLY_ONE, Some DNE}"
    using assms(2,3) by (simp_all add: culprit_def Let_def size_in_words_def)
  obtain e where "wi_dx item = j + 1 + e" using k(1) by (metis Suc_eq_plus1 less_natE add.commute add.left_commute)
  then have "wi_dx item * pi_size p < (j + 1) * pi_size p + ((wi_dx item - j - 1) * pi_size p + d)"
    "(j + 1) * pi_size p + ((wi_dx item - j - 1) * pi_size p + d) \<le> (wi_dx item + 1) * pi_size p"
    using k(3,4) by (simp_all add: algebra_simps)
  with l k st db show ?thesis by blast
qed simp

definition demo_item :: worklist_item where
  "demo_item = \<lparr>wi_pgroup = [(1, 0), (2, 0)], wi_perr = (0, 0), wi_dx = 1, wi_mask = create_mask_sentinel demo_replicas (0, 0) 1\<rparr>"

lemma demo_check:
  "map_option (\<lambda>db. RBT.entries (overflowPatches db)) (check_overflow (\<lambda>r i. 0) demo_replicas demo_item demo_patches) = Some [(0x41, 4)]"
  "RBT.entries (overflowPatches demo_patches) = [(0x41, 2)]" "pi_size (demo_pinfo 0 0) = 8" "wi_dx demo_item = 1"
  "pi_of demo_replicas (wi_perr demo_item) = demo_pinfo 0 0"
  by code_simp+

lemma overflow_patch_sound_witness:
  "\<exists>db. check_overflow (\<lambda>r i. 0) demo_replicas demo_item demo_patches = Some db \<and> db \<noteq> demo_patches
     \<and> 2 \<le> length (wi_pgroup demo_item) \<and> (\<exists>j delta. j < 1 \<and> DXtoID (demo_pinfo 0 0) j \<noteq> 0
       \<and> compare_slot (\<lambda>r i. 0) demo_replicas (wi_pgroup demo_item) (DXtoID (demo_pinfo 0 0) j) \<in> {Some st_OK, Some ALLOC_ONLY_ONE, Some DNE}
       \<and> 1 * 8 < (j + 1) * 8 + delta \<and> (j + 1) * 8 + delta \<le> (1 + 1) * 8
       \<and> db = do_overflow (word_of_nat (DXtoAllocSite (demo_pinfo 0 0) j)) (word_of_nat delta) demo_patches)"
proof -
  obtain db where db: "check_overflow (\<lambda>r i. 0) demo_replicas demo_item demo_patches = Some db" "RBT.entries (overflowPatches db) = [(0x41, 4)]"
    using demo_check(1) by auto
  then have n: "db \<noteq> demo_patches" using demo_check(2) by auto
  have d: "4 dvd pi_size (demo_pinfo 0 0)" by (simp add: demo_check(3))
  show ?thesis
    using overflow_patch_sound [OF db(1) demo_check(5) d] n db(1) unfolding demo_check(3,4) by blast
qed

section \<open>The mask misses the last bytes\<close>

lemma mark_bytes_low:
  assumes "w AND 0xfffff = (0 :: u32)"
  shows "mark_bytes k w 4 marks = marks"
proof -
  have t: "take_bit 20 w = 0" using assms by (simp add: take_bit_eq_mask mask_eq_exp_minus_1)
  have m: "drop_bit n w AND 0xff = 0" if "n \<le> 12" for n
  proof -
    have "take_bit (n + 8) w = take_bit (n + 8) (take_bit 20 w)" using that by (simp add: take_bit_take_bit)
    then have "take_bit 8 (drop_bit n w) = 0" by (simp add: take_bit_drop_bit t add.commute)
    then show ?thesis by (simp add: take_bit_eq_mask mask_eq_exp_minus_1)
  qed
  have "mark_bytes k w (Suc (Suc (Suc (Suc 0)))) marks = marks"
    using m [of 0] m [of 4] m [of 8] m [of 12] by (simp add: drop_bit_drop_bit)
  moreover have "Suc (Suc (Suc (Suc 0))) = 4" by simp
  ultimately show ?thesis by (simp only:)
qed

lemma create_mask_sentinel_low:
  assumes "\<And>i. i < size_in_words (pi_of reps p) \<Longrightarrow>
    (word_at reps p (DXtoPointer (pi_of reps p) dx + i) XOR rp_sentinel (reps ! pi_replica_id (pi_of reps p))) AND 0xfffff = 0"
  shows "create_mask_sentinel reps p dx = replicate (pi_size (pi_of reps p)) False"
proof -
  let ?f = "\<lambda>i marks. if \<not> sentinel_at reps p (DXtoPointer (pi_of reps p) dx + i)
    then mark_bytes (4 * i) (word_at reps p (DXtoPointer (pi_of reps p) dx + i) XOR rp_sentinel (reps ! pi_replica_id (pi_of reps p))) 4 marks else marks"
  have "fold ?f is marks = marks" if "set is \<subseteq> {0..<size_in_words (pi_of reps p)}" for "is" marks
    using that by (induction "is" arbitrary: marks) (simp_all add: mark_bytes_low assms)
  then show ?thesis by (simp add: create_mask_sentinel_def Let_def)
qed

lemma overflow_words_unmarked:
  "4 * (k + n) \<le> m \<Longrightarrow> overflow_words mapped reps perr err px good dx (replicate m False) sn n k acc = Some acc"
  by (induction n arbitrary: k) simp_all

lemma overflow_group_unmarked:
  assumes "overflow_group mapped reps perr err oid offset (replicate (pi_size (pi_of reps perr)) False) ps ct = Some r" and "ct = None \<or> ct = Some 0"
  shows "r = None \<or> r = Some 0"
  using assms
proof (induction ps arbitrary: ct)
  case (Cons px ps)
  have u: "overflow_words mapped reps perr err px good dx (replicate (pi_size (pi_of reps perr)) False) sn (size_in_words (pi_of reps perr)) 0 0 = Some 0" for good dx sn
    by (rule overflow_words_unmarked) (simp add: size_in_words_def)
  from Cons.prems show ?case
    by (auto simp: u bind_eq_Some_conv Let_def split: if_splits dest: Cons.IH [of None, simplified] Cons.IH [of "Some 0", simplified])
qed simp

lemma overflow_offset_unmarked:
  "overflow_offset mapped reps pgroup perr oid offset (replicate (pi_size (pi_of reps perr)) False) = Some d \<Longrightarrow> d = 0"
  by (auto simp: overflow_offset_def bind_eq_Some_conv dest!: overflow_group_unmarked)

lemma search_overflow_unmarked:
  assumes "search_overflow mapped reps item j best = Some r" and "wi_mask item = replicate (pi_size (pi_of reps (wi_perr item))) False"
  shows "r = best"
  using assms(1)
  by (induction j arbitrary: best) (auto simp: assms(2) bind_eq_Some_conv Let_def dest!: overflow_offset_unmarked split: if_splits)

text \<open>Corruption in the upper bytes goes unnoticed.  The mask of corrupted bytes is computed by shifting the difference by
  \<open>sizeof (unsigned long)\<close>, four bits, instead of the eight bits of a byte: when every word of a corrupted slot differs from the canary
  in its upper twelve bits only, no byte is marked and no overflow patch is ever made for the slot.\<close>

theorem upper_bytes_never_patched:
  assumes "wi_mask item = create_mask_sentinel reps (wi_perr item) (wi_dx item)" and "pi_of reps (wi_perr item) = p"
    and "\<And>i. i < size_in_words p \<Longrightarrow>
      (word_at reps (wi_perr item) (DXtoPointer p (wi_dx item) + i) XOR rp_sentinel (reps ! pi_replica_id p)) AND 0xfffff = 0"
    and "check_overflow mapped reps item db = Some db'"
  shows "db' = db"
proof -
  have m: "wi_mask item = replicate (pi_size (pi_of reps (wi_perr item))) False"
    using create_mask_sentinel_low [of reps "wi_perr item" "wi_dx item"] assms(1-3) by simp
  show ?thesis
  proof (cases "length (wi_pgroup item) < 2")
    case True
    with assms(4) show ?thesis by (simp add: check_overflow_def)
  next
    case False
    then obtain r where "search_overflow mapped reps item (wi_dx item) (0, 0, 0) = Some r"
      using assms(4) by (auto simp: check_overflow_def bind_eq_Some_conv)
    with search_overflow_unmarked [OF this m] False assms(4) show ?thesis by (simp add: check_overflow_def)
  qed
qed

text \<open>The same run with other bytes: the words past the objects now differ from the canary in the upper bytes only.\<close>

definition demo_upper :: "nat \<Rightarrow> nat \<Rightarrow> replica" where
  "demo_upper rid pos = (demo_replica rid pos)\<lparr>rp_partitions := [(demo_pinfo rid pos)\<lparr>pi_heap := (pi_heap (demo_pinfo rid pos))[2 * pos + 2 := 0x123dbeef]\<rparr>]\<rparr>"

definition demo_upper_replicas :: "replica list" where
  "demo_upper_replicas = [demo_upper 0 0, demo_upper 1 1, demo_upper 2 2]"

lemma demo_upper_check:
  "size_in_words (pi_of demo_upper_replicas (wi_perr demo_item)) = 2"
  "(word_at demo_upper_replicas (wi_perr demo_item) (DXtoPointer (pi_of demo_upper_replicas (wi_perr demo_item)) 1 + 0) XOR rp_sentinel (demo_upper_replicas ! pi_replica_id (pi_of demo_upper_replicas (wi_perr demo_item)))) AND 0xfffff = 0"
  "(word_at demo_upper_replicas (wi_perr demo_item) (DXtoPointer (pi_of demo_upper_replicas (wi_perr demo_item)) 1 + 1) XOR rp_sentinel (demo_upper_replicas ! pi_replica_id (pi_of demo_upper_replicas (wi_perr demo_item)))) AND 0xfffff = 0"
  "check_sentinel (rep_of demo_upper_replicas (0, 0)) (pi_of demo_upper_replicas (0, 0)) 1 = False"
  by code_simp+

lemma demo_upper_run:
  "Option.is_none (check_overflow (\<lambda>r i. 0) demo_upper_replicas (demo_item\<lparr>wi_mask := create_mask_sentinel demo_upper_replicas (0, 0) 1\<rparr>) demo_patches) = False"
  by code_simp

lemma upper_bytes_never_patched_witness:
  "\<not> check_sentinel (rep_of demo_upper_replicas (0, 0)) (pi_of demo_upper_replicas (0, 0)) 1
   \<and> check_overflow (\<lambda>r i. 0) demo_upper_replicas (demo_item\<lparr>wi_mask := create_mask_sentinel demo_upper_replicas (0, 0) 1\<rparr>) demo_patches = Some demo_patches"
proof -
  let ?item = "demo_item\<lparr>wi_mask := create_mask_sentinel demo_upper_replicas (0, 0) 1\<rparr>"
  obtain db where db: "check_overflow (\<lambda>r i. 0) demo_upper_replicas ?item demo_patches = Some db"
    using demo_upper_run by (cases "check_overflow (\<lambda>r i. 0) demo_upper_replicas ?item demo_patches") auto
  have m: "wi_mask ?item = create_mask_sentinel demo_upper_replicas (wi_perr ?item) (wi_dx ?item)" by (simp add: demo_item_def)
  have "db = demo_patches"
  proof (rule upper_bytes_never_patched [OF m refl _ db])
    fix i assume "i < size_in_words (pi_of demo_upper_replicas (wi_perr ?item))"
    then have "i = 0 \<or> i = 1" using demo_upper_check(1) by auto
    then show "(word_at demo_upper_replicas (wi_perr ?item) (DXtoPointer (pi_of demo_upper_replicas (wi_perr ?item)) (wi_dx ?item) + i)
        XOR rp_sentinel (demo_upper_replicas ! pi_replica_id (pi_of demo_upper_replicas (wi_perr ?item)))) AND 0xfffff = 0"
      using demo_upper_check(2,3) demo_check(4) by auto
  qed
  with db demo_upper_check(4) show ?thesis by simp
qed

section \<open>Reused slots\<close>

lemma map_slots_ids:
  "map_slots allocs info i n j pmap = Some pmap' \<Longrightarrow> j \<le> k \<Longrightarrow> k < j + n \<Longrightarrow> DXtoID info k \<le> allocs"
proof (induction n arbitrary: j pmap)
  case (Suc n)
  then show ?case by (cases "j = k") (auto simp: Let_def split: if_splits)
qed simp

lemma map_partitions_ids:
  "map_partitions allocs infos i pmap = Some pmap' \<Longrightarrow> n < length infos \<Longrightarrow> k < pi_elements (infos ! n) \<Longrightarrow> DXtoID (infos ! n) k \<le> allocs"
proof (induction infos arbitrary: i n pmap)
  case (Cons info infos)
  then show ?case by (cases n) (auto simp: bind_eq_Some_conv dest!: map_slots_ids [of _ _ _ _ _ _ _ k])
qed simp

lemma verify_canaries_keeps:
  "rp_partitions (verify_canaries r) = rp_partitions r \<and> rp_pmap (verify_canaries r) = rp_pmap r \<and> rp_global_allocs (verify_canaries r) = rp_global_allocs r"
proof -
  let ?same = "\<lambda>a b. rp_partitions a = rp_partitions b \<and> rp_pmap a = rp_pmap b \<and> rp_global_allocs a = rp_global_allocs b"
  have k: "?same (fold (\<lambda>k r. if \<not> get_bit (pi_has_data p) k \<and> \<not> check_sentinel r p k then makeBadReplica r else r) ks r) r" for p ks r
    by (induction ks arbitrary: r) (simp_all add: makeBadReplica_def)
  have "?same (fold (\<lambda>p. fold (\<lambda>k r. if \<not> get_bit (pi_has_data p) k \<and> \<not> check_sentinel r p k then makeBadReplica r else r) [0..<pi_elements p]) ps r) r" for ps r
    by (induction ps arbitrary: r) (simp_all add: k)
  then show ?thesis by (simp add: verify_canaries_def)
qed

lemma read_core_pmap:
  assumes "read_core core r = Some r'" and "oid \<le> rp_global_allocs r'"
  shows "pmap_entry (rp_partitions r') oid (rp_pmap r' ! oid)"
proof -
  obtain r1 pm where m: "map_partitions (rp_global_allocs r1) (rp_partitions r1) 0 (replicate (rp_global_allocs r1 + 1) (-1, -1)) = Some pm"
    and r': "r' = verify_canaries (r1\<lparr>rp_pmap := pm\<rparr>)"
    using assms(1) by (auto simp: read_core_def make_partition_maps_def bind_eq_Some_conv)
  have e: "pmap_entry (take 0 (rp_partitions r1)) oid (replicate (rp_global_allocs r1 + 1) (-1, -1) ! oid)" if "oid \<le> rp_global_allocs r1" for oid
    using that by (simp add: pmap_entry_def del: replicate_Suc)
  have "\<exists>pm'. map_partitions (rp_global_allocs r1) (drop 0 (rp_partitions r1)) 0 (replicate (rp_global_allocs r1 + 1) (-1, -1)) = Some pm' \<and> length pm' = rp_global_allocs r1 + 1
    \<and> (\<forall>oid \<le> rp_global_allocs r1. pmap_entry (rp_partitions r1) oid (pm' ! oid))"
    by (rule map_partitions_spec) (use map_partitions_ids [OF m] e in simp_all)
  then show ?thesis using m assms(2) r' verify_canaries_keeps [of "r1\<lparr>rp_pmap := pm\<rparr>"] by simp
qed

lemma min_allocated_le: "min_allocated reps \<le> rp_global_allocs (reps ! 0)"
proof -
  have "fold (\<lambda>r m. if rp_global_allocs r < m then rp_global_allocs r else m) rs m \<le> m" for rs m
  proof (induction rs arbitrary: m)
    case (Cons r rs)
    from Cons.IH [of "rp_global_allocs r"] Cons.IH [of m] show ?case by auto
  qed simp
  then show ?thesis by (simp add: min_allocated_def)
qed

lemma compare_objects_present:
  assumes "compare_objects mapped reps n j db = Some db'" and "j \<le> k" and "k < j + n"
    and "\<And>m. j \<le> m \<Longrightarrow> m < j + n \<Longrightarrow> compare_slot mapped reps (group reps (nat (fst (rp_pmap (reps ! 0) ! m)))) m \<noteq> Some CALLSITE_MISMATCH"
  shows "0 \<le> fst (rp_pmap (reps ! 0) ! k)"
  using assms
proof (induction n arbitrary: j db)
  case (Suc n)
  have i: "0 \<le> fst (rp_pmap (reps ! 0) ! j)" using Suc.prems(1) by (auto simp: Let_def split: if_splits)
  have m: "compare_slot mapped reps (group reps (nat (fst (rp_pmap (reps ! 0) ! j)))) j \<noteq> Some CALLSITE_MISMATCH" using Suc.prems(4) by simp
  obtain db2 where r: "compare_objects mapped reps n (j + 1) db2 = Some db'"
    using Suc.prems(1) m by (auto simp: Let_def bind_eq_Some_conv split: if_splits)
  show ?case
  proof (cases "k = j")
    case False
    show ?thesis by (rule Suc.IH [OF r]) (use False Suc.prems(2-4) in auto)
  qed (use i in simp)
qed simp

text \<open>The isolator cannot cope with reused slots.  When the comparison ends without having met a call-site mismatch, then every
  object any replica can compare (numbers 1 to the smallest number of allocations) is still in a slot of the first replica; as soon as one
  of them was freed and its slot taken by a newer object, the lookup yields partition -1 and the comparison reads outside of the vector
  of partitions.\<close>

theorem isolator_needs_every_object:
  assumes "read_core core (new_replica 0) = Some r0" and "compare_heaps eval_probability mapped (r0 # rs) db = Some db'"
  shows "(\<exists>j. 1 \<le> j \<and> j < min_allocated (r0 # rs) \<and> compare_slot mapped (r0 # rs) (group (r0 # rs) (nat (fst (rp_pmap r0 ! j)))) j = Some CALLSITE_MISMATCH)
    \<or> {1..<min_allocated (r0 # rs)} \<subseteq> {DXtoID (rp_partitions r0 ! i) k | i k. i < length (rp_partitions r0) \<and> k < pi_elements (rp_partitions r0 ! i)}"
proof (cases "\<exists>j. 1 \<le> j \<and> j < min_allocated (r0 # rs) \<and> compare_slot mapped (r0 # rs) (group (r0 # rs) (nat (fst (rp_pmap r0 ! j)))) j = Some CALLSITE_MISMATCH")
  case False
  obtain db1 where o: "compare_objects mapped (r0 # rs) (min_allocated (r0 # rs) - 1) 1 db = Some db1"
    using assms(2) by (auto simp: compare_heaps_def bind_eq_Some_conv split: if_splits)
  have "\<exists>i k. j = DXtoID (rp_partitions r0 ! i) k \<and> i < length (rp_partitions r0) \<and> k < pi_elements (rp_partitions r0 ! i)"
    if j: "1 \<le> j" "j < min_allocated (r0 # rs)" for j
  proof -
    have "0 \<le> fst (rp_pmap r0 ! j)" using compare_objects_present [OF o, of j] False j by auto
    moreover have "pmap_entry (rp_partitions r0) j (rp_pmap r0 ! j)"
      by (rule read_core_pmap [OF assms(1)]) (use j(2) min_allocated_le [of "r0 # rs"] in simp)
    ultimately show ?thesis by (auto simp: pmap_entry_def)
  qed
  then show ?thesis by (intro disjI2 subsetI) auto
qed blast

text \<open>One replica with 32 slots of four bytes and one object.\<close>

definition demo_core :: "u32 list" where
  "demo_core = [2, 0xdeadbeef, 0, 0, 3, 1, 4, 32, 64, 1, 1, 1, 5, 0, 0] @ replicate 124 0 @ [7] @ replicate 31 0xdeadbeef @ [0]"

lemma demo_core_run:
  "map_option (\<lambda>r. (min_allocated [r], Option.is_none (compare_heaps (\<lambda>h t. 1) (\<lambda>r i. 0) [r] empty_db),
      compare_slot (\<lambda>r i. 0) [r] (group [r] (nat (fst (rp_pmap r ! 1)))) 1)) (read_core demo_core (new_replica 0)) = Some (2, False, Some ALLOC_ONLY_ONE)"
  by code_simp

lemma isolator_needs_every_object_witness:
  "\<exists>r0 db. read_core demo_core (new_replica 0) = Some r0 \<and> compare_heaps (\<lambda>h t. 1) (\<lambda>r i. 0) [r0] empty_db = Some db
     \<and> 1 \<in> {DXtoID (rp_partitions r0 ! i) k | i k. i < length (rp_partitions r0) \<and> k < pi_elements (rp_partitions r0 ! i)}"
proof -
  obtain r0 where r0: "read_core demo_core (new_replica 0) = Some r0" and m: "min_allocated [r0] = 2"
    and n: "\<not> Option.is_none (compare_heaps (\<lambda>h t. 1) (\<lambda>r i. 0) [r0] empty_db)"
    and c: "compare_slot (\<lambda>r i. 0) [r0] (group [r0] (nat (fst (rp_pmap r0 ! 1)))) 1 = Some ALLOC_ONLY_ONE"
    using demo_core_run by auto
  obtain db where db: "compare_heaps (\<lambda>h t. 1) (\<lambda>r i. 0) [r0] empty_db = Some db"
    using n by (cases "compare_heaps (\<lambda>h t. 1) (\<lambda>r i. 0) [r0] empty_db") auto
  have "\<not> (\<exists>j. 1 \<le> j \<and> j < min_allocated [r0] \<and> compare_slot (\<lambda>r i. 0) [r0] (group [r0] (nat (fst (rp_pmap r0 ! j)))) j = Some CALLSITE_MISMATCH)"
  proof
    assume "\<exists>j. 1 \<le> j \<and> j < min_allocated [r0] \<and> compare_slot (\<lambda>r i. 0) [r0] (group [r0] (nat (fst (rp_pmap r0 ! j)))) j = Some CALLSITE_MISMATCH"
    then obtain j where j: "1 \<le> j" "j < 2" "compare_slot (\<lambda>r i. 0) [r0] (group [r0] (nat (fst (rp_pmap r0 ! j)))) j = Some CALLSITE_MISMATCH"
      unfolding m by blast
    then have "j = 1" by simp
    with c j(3) show False by (simp add: ALLOC_ONLY_ONE_def CALLSITE_MISMATCH_def)
  qed
  then have "{1..<min_allocated [r0]} \<subseteq> {DXtoID (rp_partitions r0 ! i) k | i k. i < length (rp_partitions r0) \<and> k < pi_elements (rp_partitions r0 ! i)}"
    using isolator_needs_every_object [OF r0 db] by blast
  moreover have "1 \<in> {1..<min_allocated [r0]}" using m by simp
  ultimately show ?thesis using r0 db by blast
qed

end
