(* ===== verification/Voter.thy ===== *)
theory Voter
  imports Rng "HOL-Library.Multiset"
begin

text \<open>
  The replicated mode (\<open>src/replicated\<close>): a reader per replica copies the output of its program into a
  shared buffer (\<open>reader.cpp\<close>), and the voter waits until every replica has filled its buffer, prints the
  contents most of them agree on and lets them go on (\<open>voter.cpp\<close>, \<open>fingerprinter.h\<close>, \<open>mostcommonelement.h\<close>).
  A pipe of signals is the number of characters in it.  \<open>N\<close> is \<open>NUMBER_OF_REPLICAS\<close> and \<open>L\<close> is
  \<open>BUFFER_LENGTH\<close> (4096 in the code).  The voter is a process of its own, forked before the handler that counts
  dead replicas is installed, so its copy of \<open>ReplicasAliveNow\<close> keeps the initial value \<open>N\<close>.  A replica that crashes
  closes its output, which for its reader is the end of the output.
\<close>

section \<open>Most common element\<close>

text \<open>The inner loop: the frequency of \<open>x\<close> so far, and the best element with its number of occurrences.\<close>

fun count_item :: "('a \<Rightarrow> 'a \<Rightarrow> bool) \<Rightarrow> 'a \<Rightarrow> 'a list \<Rightarrow> nat \<Rightarrow> 'a option \<times> nat \<Rightarrow> 'a option \<times> nat" where
  "count_item eq x [] thisFrequency best = best"
| "count_item eq x (y # ys) thisFrequency best =
     (if eq x y
      then let f = thisFrequency + 1 in count_item eq x ys f (if f > snd best then (Some x, f) else best)
      else count_item eq x ys thisFrequency best)"

definition mostCommonElement :: "('a \<Rightarrow> 'a \<Rightarrow> bool) \<Rightarrow> 'a list \<Rightarrow> 'a option \<times> nat" where
  "mostCommonElement eq array = fold (\<lambda>x best. count_item eq x array 0 best) array (None, 0)"

definition occurrences :: "('a \<Rightarrow> 'a \<Rightarrow> bool) \<Rightarrow> 'a \<Rightarrow> 'a list \<Rightarrow> nat" where
  "occurrences eq x xs = length (filter (eq x) xs)"

lemma count_item_result:
  "count_item eq x ys f best = (if f + occurrences eq x ys > snd best \<and> occurrences eq x ys > 0 then (Some x, f + occurrences eq x ys) else best)"
  by (induction ys arbitrary: f best) (auto simp: occurrences_def Let_def)

text \<open>The result is the first element with the largest number of occurrences.\<close>

lemma most_common_fold:
  assumes "\<And>x. x \<in> set xs \<Longrightarrow> 0 < occurrences eq x array"
  shows "fold (\<lambda>x best. count_item eq x array 0 best) xs best
    = (if \<exists>x \<in> set xs. snd best < occurrences eq x array
       then let m = Max ((\<lambda>x. occurrences eq x array) ` set xs)
            in (find (\<lambda>x. occurrences eq x array = m) xs, m)
       else best)"
  using assms
proof (induction xs arbitrary: best)
  case (Cons x xs)
  let ?o = "\<lambda>x. occurrences eq x array"
  let ?b = "if ?o x > snd best then (Some x, ?o x) else best"
  have h: "count_item eq x array 0 best = ?b" using Cons.prems [of x] by (simp add: count_item_result)
  note IH = Cons.IH [of ?b] 
  show ?case
  proof (cases "xs = []")
    case True
    then show ?thesis by (simp add: h)
  next
    case False
    have m: "Max (?o ` set (x # xs)) = max (?o x) (Max (?o ` set xs))" using False by simp
    have f: "\<exists>y \<in> set xs. ?o y = Max (?o ` set xs)" 
    proof -
      have "Max (?o ` set xs) \<in> ?o ` set xs" using False by (intro Max_in) auto
      then show ?thesis by (metis imageE)
    qed
    have le: "?o y \<le> Max (?o ` set xs)" if "y \<in> set xs" for y using that by simp
    have find: "find P xs \<noteq> None" if "\<exists>y \<in> set xs. P y" for P using that by (auto simp: find_None_iff)
    show ?thesis
    proof (cases "Max (?o ` set xs) > snd ?b")
      case True
      then have "\<exists>y \<in> set xs. snd ?b < ?o y" using f by force
      then have r: "fold (\<lambda>x best. count_item eq x array 0 best) xs ?b = (find (\<lambda>x. ?o x = Max (?o ` set xs)) xs, Max (?o ` set xs))"
        using IH Cons.prems by (simp add: Let_def)
      have "?o x < Max (?o ` set xs)" "snd best < Max (?o ` set xs)" using True by (auto split: if_splits)
      then show ?thesis using r f m by (auto simp: h Let_def)
    next
      case False
      have n: "\<not> (\<exists>y \<in> set xs. snd ?b < ?o y)"
      proof
        assume "\<exists>y \<in> set xs. snd ?b < ?o y"
        then obtain y where "y \<in> set xs" "snd ?b < ?o y" by blast
        with False le [of y] show False by linarith
      qed
      then have r: "fold (\<lambda>x best. count_item eq x array 0 best) xs ?b = ?b"
        using IH Cons.prems by simp
      show ?thesis
      proof (cases "?o x > snd best")
        case True
        then have "Max (?o ` set (x # xs)) = ?o x" using False m by simp
        with True r show ?thesis by (simp only: fold_simps comp_apply h Let_def) simp
      next
        case F: False
        then show ?thesis using r n by (auto simp: h)
      qed
    qed
  qed
qed simp

lemma mostCommonElement_spec:
  assumes "xs \<noteq> []" and "\<And>x. x \<in> set xs \<Longrightarrow> eq x x"
  shows "mostCommonElement eq xs = (let m = Max ((\<lambda>x. occurrences eq x xs) ` set xs) in (find (\<lambda>x. occurrences eq x xs = m) xs, m))"
proof -
  have p: "0 < occurrences eq x xs" if "x \<in> set xs" for x
  proof -
    have "x \<in> set (filter (eq x) xs)" using that assms(2) by simp
    then show ?thesis unfolding occurrences_def by (rule length_pos_if_in_set)
  qed
  have "\<exists>x \<in> set xs. snd (None :: 'a option, 0 :: nat) < occurrences eq x xs" using p assms(1) by (cases xs) auto
  then show ?thesis unfolding mostCommonElement_def using most_common_fold [OF p, of xs "(None, 0)"] by simp
qed

text \<open>It is the first of the elements that occur most often.\<close>

lemma mostCommonElement_first:
  assumes "xs \<noteq> []" and "\<And>x. x \<in> set xs \<Longrightarrow> eq x x"
  shows "\<exists>i < length xs. mostCommonElement eq xs = (Some (xs ! i), occurrences eq (xs ! i) xs)
    \<and> (\<forall>j < length xs. occurrences eq (xs ! j) xs \<le> occurrences eq (xs ! i) xs)
    \<and> (\<forall>j < i. occurrences eq (xs ! j) xs < occurrences eq (xs ! i) xs)"
proof -
  let ?o = "\<lambda>x. occurrences eq x xs"
  define m where "m = Max (?o ` set xs)"
  have le: "?o x \<le> m" if "x \<in> set xs" for x using that by (simp add: m_def)
  have "m \<in> ?o ` set xs" unfolding m_def using assms(1) by (intro Max_in) auto
  then have "\<exists>x \<in> set xs. ?o x = m" by (metis imageE)
  then obtain x where f: "find (\<lambda>x. ?o x = m) xs = Some x" by (metis (mono_tags, lifting) find_None_iff2 not_None_eq)
  then obtain i where i: "i < length xs" "?o (xs ! i) = m" "x = xs ! i" "\<forall>j < i. ?o (xs ! j) \<noteq> m"
    by (auto simp: find_Some_iff)
  have "?o (xs ! j) < m" if "j < i" for j using i(1,4) le [of "xs ! j"] that by (metis le_neq_implies_less nth_mem order.strict_trans)
  moreover have "mostCommonElement eq xs = (Some (xs ! i), m)" using mostCommonElement_spec [of xs eq, OF assms] f i(3) by (simp add: m_def Let_def)
  ultimately show ?thesis using i le nth_mem by blast
qed

section \<open>Fingerprints\<close>

record fingerprinter =
  fp_value :: int
  fp_start :: nat

text \<open>The sum of the bytes, which are signed; it stays far below \<open>2 ^ 31\<close>.\<close>

definition fingerprint :: "byte list \<Rightarrow> int" where
  "fingerprint b = (\<Sum>c\<leftarrow>b. sint c)"

definition same_fingerprint :: "fingerprinter \<Rightarrow> fingerprinter \<Rightarrow> bool" where
  "same_fingerprint f1 f2 \<longleftrightarrow> fp_value f1 = fp_value f2"

section \<open>Readers and voter\<close>

text \<open>A reader that sent its last signal is \<open>Finished\<close>, and \<open>Done\<close> once its process and its pipes are gone.\<close>

datatype rphase = Reading | Waiting byte | Finished | Done

text \<open>\<open>rs_in\<close>: what the program of replica \<open>i\<close> has still to write; \<open>rs_full\<close> and \<open>rs_cont\<close>: the characters in its two pipes.
  \<open>rs_votes\<close> and \<open>rs_sent\<close> record the votes taken and the signals every reader sent; no step looks at them.\<close>

record rsys =
  rs_in :: "nat \<Rightarrow> byte list"
  rs_phase :: "nat \<Rightarrow> rphase"
  rs_count :: "nat \<Rightarrow> nat"
  rs_buf :: "nat \<Rightarrow> byte list"
  rs_full :: "nat \<Rightarrow> nat"
  rs_cont :: "nat \<Rightarrow> nat"
  rs_dead :: "nat \<Rightarrow> bool"
  rs_arrivals :: nat
  rs_rng :: u64
  rs_out :: "byte list"
  rs_exit :: bool
  rs_votes :: nat
  rs_sent :: "nat \<Rightarrow> nat"

definition signal :: "nat \<Rightarrow> rsys \<Rightarrow> rsys" where
  "signal i s = s\<lparr>rs_full := (rs_full s)(i := rs_full s i + 1), rs_sent := (rs_sent s)(i := rs_sent s i + 1)\<rparr>"

text \<open>One character of \<open>reader\<close>; \<open>None\<close> while it is blocked or after it has ended.\<close>

definition reader :: "nat \<Rightarrow> nat \<Rightarrow> rsys \<Rightarrow> rsys option" where
  "reader L i s =
     (case rs_phase s i of
        Reading \<Rightarrow>
          (case rs_in s i of
             [] \<Rightarrow> Some (signal i (s\<lparr>rs_buf := (rs_buf s)(i := take (rs_count s i) (rs_buf s i) @ replicate (L - rs_count s i) 0),
                     rs_phase := (rs_phase s)(i := Finished)\<rparr>))
           | c # cs \<Rightarrow>
               Some (if L \<le> rs_count s i
                 then signal i (s\<lparr>rs_in := (rs_in s)(i := cs), rs_count := (rs_count s)(i := 0), rs_phase := (rs_phase s)(i := Waiting c)\<rparr>)
                 else s\<lparr>rs_in := (rs_in s)(i := cs), rs_buf := (rs_buf s)(i := (rs_buf s i)[rs_count s i := c]),
                        rs_count := (rs_count s)(i := rs_count s i + 1)\<rparr>))
      | Waiting c \<Rightarrow>
          (if 0 < rs_cont s i
           then Some (s\<lparr>rs_cont := (rs_cont s)(i := rs_cont s i - 1), rs_phase := (rs_phase s)(i := Reading),
                  rs_buf := (rs_buf s)(i := (rs_buf s i)[0 := c]), rs_count := (rs_count s)(i := 1)\<rparr>)
           else None)
      | Finished \<Rightarrow> Some (s\<lparr>rs_phase := (rs_phase s)(i := Done)\<rparr>)
      | Done \<Rightarrow> None)"

definition long_bytes :: "nat \<Rightarrow> byte list" where
  "long_bytes r = map (\<lambda>j. word_of_nat (r div 256 ^ j)) [0..<8]"

fun random_longs :: "nat \<Rightarrow> u64 \<Rightarrow> byte list \<times> u64" where
  "random_longs 0 g = ([], g)"
| "random_longs (Suc n) g = (let (r, g) = rng_next g; (bs, g) = random_longs n g in (long_bytes r @ bs, g))"

text \<open>The vote, once all replicas have arrived.  The voter does not ignore \<open>SIGPIPE\<close>: the reply to a reader that is gone ends it.\<close>

definition vote :: "nat \<Rightarrow> nat \<Rightarrow> rsys \<Rightarrow> rsys" where
  "vote N L s =
     (let f = map (\<lambda>i. \<lparr>fp_value = fingerprint (rs_buf s i), fp_start = i\<rparr>) [0..<N];
          (result, count) = mostCommonElement same_fingerprint f
      in if count < 2 then s\<lparr>rs_exit := True\<rparr>
         else let w = fp_start (the result); (junk, g) = random_longs (L div 8) (rs_rng s);
                  replied = takeWhile (\<lambda>i. rs_phase s i \<noteq> Done) [0..<N]
              in s\<lparr>rs_out := rs_out s @ filter (\<lambda>c. c \<noteq> 0) (rs_buf s w),
                   rs_buf := (rs_buf s)(w := junk @ drop (length junk) (rs_buf s w)), rs_rng := g,
                   rs_cont := (\<lambda>i. if i \<in> set replied then rs_cont s i + 1 else rs_cont s i), rs_exit := length replied < N,
                   rs_votes := rs_votes s + 1\<rparr>)"

definition handleInput :: "nat \<Rightarrow> nat \<Rightarrow> rsys \<Rightarrow> rsys" where
  "handleInput N L s =
     (let s = s\<lparr>rs_arrivals := rs_arrivals s + 1\<rparr>
      in if N \<le> rs_arrivals s then vote N L (s\<lparr>rs_arrivals := 0\<rparr>) else s)"

text \<open>The voter handles the pipe of replica \<open>i\<close>; \<open>None\<close> when it is not ready.\<close>

definition voter :: "nat \<Rightarrow> nat \<Rightarrow> nat \<Rightarrow> rsys \<Rightarrow> rsys option" where
  "voter N L i s =
     (if rs_exit s \<or> rs_dead s i then None
      else if 0 < rs_full s i then Some (handleInput N L (s\<lparr>rs_full := (rs_full s)(i := rs_full s i - 1)\<rparr>))
      else if rs_phase s i = Done then Some (s\<lparr>rs_dead := (rs_dead s)(i := True)\<rparr>)
      else None)"

datatype action = Read nat | Vote nat

definition rstep :: "nat \<Rightarrow> nat \<Rightarrow> action \<Rightarrow> rsys \<Rightarrow> rsys" where
  "rstep N L a s =
     (case a of
        Read i \<Rightarrow> (if i < N then case reader L i s of Some s' \<Rightarrow> s' | None \<Rightarrow> s else s)
      | Vote i \<Rightarrow> (if i < N then case voter N L i s of Some s' \<Rightarrow> s' | None \<Rightarrow> s else s))"

text \<open>The processes run in any order: a schedule says who is next, and one that cannot go on is passed over.\<close>

definition rrun :: "nat \<Rightarrow> nat \<Rightarrow> action list \<Rightarrow> rsys \<Rightarrow> rsys" where
  "rrun N L as s = fold (rstep N L) as s"

definition rstart :: "nat \<Rightarrow> (nat \<Rightarrow> byte list) \<Rightarrow> (nat \<Rightarrow> byte list) \<Rightarrow> u64 \<Rightarrow> rsys" where
  "rstart L outputs junk g =
     \<lparr>rs_in = outputs, rs_phase = (\<lambda>i. Reading), rs_count = (\<lambda>i. 0), rs_buf = (\<lambda>i. take L (junk i @ replicate L 0)),
      rs_full = (\<lambda>i. 0), rs_cont = (\<lambda>i. 0), rs_dead = (\<lambda>i. False), rs_arrivals = 0, rs_rng = g, rs_out = [], rs_exit = False,
      rs_votes = 0, rs_sent = (\<lambda>i. 0)\<rparr>"

lemma rrun_Cons: "rrun N L (a # as) s = rrun N L as (rstep N L a s)"
  by (simp add: rrun_def)

lemma rrun_invariant:
  assumes "P s" and "\<And>s a. P s \<Longrightarrow> P (rstep N L a s)"
  shows "P (rrun N L as s)"
  using assms(1) by (induction as arbitrary: s) (simp_all add: rrun_def assms(2))

section \<open>Lock step\<close>

text \<open>Every reader is at most one signal ahead of the votes, and every vote has one signal of each.\<close>

definition seen :: "rsys \<Rightarrow> nat \<Rightarrow> nat" where
  "seen s i = rs_sent s i - rs_full s i"

definition ahead :: "rsys \<Rightarrow> nat \<Rightarrow> bool" where
  "ahead s i \<longleftrightarrow> rs_full s i \<le> rs_sent s i \<and> rs_votes s \<le> seen s i
     \<and> (case rs_phase s i of
          Reading \<Rightarrow> rs_sent s i + rs_cont s i \<le> rs_votes s
        | Waiting c \<Rightarrow> rs_sent s i + rs_cont s i \<le> rs_votes s + 1
        | Finished \<Rightarrow> rs_sent s i \<le> rs_votes s + 1
        | Done \<Rightarrow> rs_sent s i \<le> rs_votes s + 1)"

definition lockstep :: "nat \<Rightarrow> rsys \<Rightarrow> bool" where
  "lockstep N s \<longleftrightarrow> (\<forall>i < N. ahead s i) \<and> N * rs_votes s + rs_arrivals s \<le> (\<Sum>i < N. seen s i)"

lemma ahead_sent: "ahead s i \<Longrightarrow> rs_sent s i \<le> rs_votes s + 1"
  by (auto simp: ahead_def split: rphase.splits)

lemma seen_signal: "rs_full s i \<le> rs_sent s i \<Longrightarrow> seen (signal i s) = seen s"
  by (auto simp: seen_def signal_def fun_eq_iff Suc_diff_le)

lemma reader_frame:
  assumes "reader L i s = Some s'"
  shows "rs_votes s' = rs_votes s" "rs_arrivals s' = rs_arrivals s" "rs_out s' = rs_out s" "rs_rng s' = rs_rng s"
    and "j \<noteq> i \<Longrightarrow> rs_phase s' j = rs_phase s j \<and> rs_in s' j = rs_in s j \<and> rs_count s' j = rs_count s j \<and> rs_buf s' j = rs_buf s j
      \<and> rs_full s' j = rs_full s j \<and> rs_cont s' j = rs_cont s j \<and> rs_sent s' j = rs_sent s j"
  using assms by (auto simp: reader_def signal_def split: rphase.splits list.splits if_splits)

lemma reader_lockstep:
  assumes "reader L i s = Some s'" and "lockstep N s" and "i < N"
  shows "lockstep N s'"
proof -
  have a: "ahead s i" using assms(2,3) by (simp add: lockstep_def)
  have seen: "seen s' = seen s"
    using assms(1) a by (auto simp: reader_def ahead_def seen_signal [unfolded seen_def] seen_def signal_def fun_eq_iff Suc_diff_le split: rphase.splits list.splits if_splits)
  have "ahead s' j" if "j < N" for j
  proof (cases "j = i")
    case True
    have "rs_full s' i \<le> rs_sent s' i" "rs_votes s' \<le> seen s' i"
      using assms(1) a unfolding seen reader_frame(1) [OF assms(1)]
      by (auto simp: reader_def ahead_def signal_def split: rphase.splits list.splits if_splits)
    then show ?thesis
      using assms(1) a unfolding True by (auto simp: reader_def ahead_def signal_def split: rphase.splits list.splits if_splits)
  next
    case False
    have "ahead s j" using assms(2) that by (simp add: lockstep_def)
    then show ?thesis using reader_frame(1) [OF assms(1)] reader_frame(5) [OF assms(1) False] seen by (auto simp: ahead_def split: rphase.splits)
  qed
  with assms(2) show ?thesis using reader_frame [OF assms(1)] seen by (simp add: lockstep_def)
qed

text \<open>When the last replica arrives, every reader has sent exactly one signal more than there were votes.\<close>

lemma sum_full:
  fixes f :: "nat \<Rightarrow> nat"
  assumes "\<And>i. i < N \<Longrightarrow> f i \<le> c" and "N * c \<le> (\<Sum>i < N. f i)" and "i < N"
  shows "f i = c"
proof (rule ccontr)
  assume "f i \<noteq> c"
  then have lt: "f i < c" using assms(1,3) by (simp add: le_neq_implies_less)
  have "(\<Sum>i < N. f i) < (\<Sum>i < N. c)"
    by (rule sum_strict_mono_ex1) (use assms(1,3) lt in auto)
  with assms(2) show False by simp
qed

definition voted :: "nat \<Rightarrow> rsys \<Rightarrow> bool" where
  "voted N s \<longleftrightarrow> (\<forall>i < N. rs_sent s i = rs_votes s + 1 \<and> rs_full s i = 0)"

lemma voted_not_reading: "ahead s i \<Longrightarrow> rs_sent s i = rs_votes s + 1 \<Longrightarrow> rs_phase s i \<noteq> Reading"
  by (auto simp: ahead_def)

lemma all_arrived:
  assumes "\<And>i. i < N \<Longrightarrow> rs_full s i \<le> rs_sent s i \<and> rs_sent s i \<le> rs_votes s + 1" and "N * (rs_votes s + 1) \<le> (\<Sum>i < N. seen s i)"
  shows "voted N s"
proof -
  have "rs_sent s i = rs_votes s + 1 \<and> rs_full s i = 0" if i: "i < N" for i
  proof -
    have "seen s i = rs_votes s + 1"
      by (rule sum_full [OF _ assms(2) i]) (use assms(1) in \<open>auto simp: seen_def intro: order_trans [OF diff_le_self]\<close>)
    with assms(1) [OF i] show ?thesis by (auto simp: seen_def)
  qed
  then show ?thesis by (simp add: voted_def)
qed

lemma vote_cases:
  obtains "vote N L s = s\<lparr>rs_exit := True\<rparr>"
  | w junk g replied c where "vote N L s = s\<lparr>rs_out := rs_out s @ filter (\<lambda>c. c \<noteq> 0) (rs_buf s w),
      rs_buf := (rs_buf s)(w := junk @ drop (length junk) (rs_buf s w)), rs_rng := g,
      rs_cont := (\<lambda>i. if i \<in> set replied then rs_cont s i + 1 else rs_cont s i), rs_exit := length replied < N, rs_votes := rs_votes s + 1\<rparr>"
    "mostCommonElement same_fingerprint (map (\<lambda>i. \<lparr>fp_value = fingerprint (rs_buf s i), fp_start = i\<rparr>) [0..<N]) = (Some \<lparr>fp_value = fingerprint (rs_buf s w), fp_start = w\<rparr>, c)"
    "w < N" "2 \<le> c" "random_longs (L div 8) (rs_rng s) = (junk, g)" "replied = takeWhile (\<lambda>i. rs_phase s i \<noteq> Done) [0..<N]"
proof -
  let ?f = "map (\<lambda>i. \<lparr>fp_value = fingerprint (rs_buf s i), fp_start = i\<rparr>) [0..<N]"
  obtain r c where m: "mostCommonElement same_fingerprint ?f = (r, c)" by (cases "mostCommonElement same_fingerprint ?f")
  obtain junk g where j: "random_longs (L div 8) (rs_rng s) = (junk, g)" by (cases "random_longs (L div 8) (rs_rng s)")
  show thesis
  proof (cases "c < 2")
    case True
    then show thesis by (intro that(1)) (simp add: vote_def m)
  next
    case False
    have ne: "?f \<noteq> []"
    proof
      assume "?f = []"
      with m have "mostCommonElement same_fingerprint [] = (r, c)" by (simp only:)
      with False show False by (simp add: mostCommonElement_def)
    qed
    then obtain i where "i < N" "r = Some (?f ! i)"
      using mostCommonElement_first [OF ne, of same_fingerprint] m by (auto simp: same_fingerprint_def simp del: nth_map_upt)
    then obtain w where "w < N" "r = Some \<lparr>fp_value = fingerprint (rs_buf s w), fp_start = w\<rparr>" by auto
    with m j False show thesis by (intro that(2) [where w = w and junk = junk and g = g and c = c and replied = "takeWhile (\<lambda>i. rs_phase s i \<noteq> Done) [0..<N]"]) (simp_all add: vote_def Let_def)
  qed
qed

lemma sum_seen_step:
  assumes "i < N" and "0 < rs_full s i" and "rs_full s i \<le> rs_sent s i"
  shows "(\<Sum>j < N. seen (s\<lparr>rs_full := (rs_full s)(i := rs_full s i - 1)\<rparr>) j) = (\<Sum>j < N. seen s j) + 1"
proof -
  have "seen (s\<lparr>rs_full := (rs_full s)(i := rs_full s i - 1)\<rparr>) = (seen s)(i := seen s i + 1)"
    using assms(2,3) by (auto simp: seen_def fun_eq_iff)
  moreover have "(\<Sum>j < N. ((seen s)(i := seen s i + 1)) j) = (\<Sum>j < N. seen s j) + 1"
    using assms(1) by (simp add: sum.remove [of "{..<N}" i])
  ultimately show ?thesis by simp
qed

lemma vote_lockstep:
  assumes "voted N s" and "\<And>i. i < N \<Longrightarrow> ahead s i"
  shows "N * rs_votes (vote N L s) \<le> (\<Sum>i < N. seen (vote N L s) i)" and "i < N \<Longrightarrow> ahead (vote N L s) i"
proof -
  show "N * rs_votes (vote N L s) \<le> (\<Sum>i < N. seen (vote N L s) i)"
  proof (rule vote_cases [of N L s])
    assume "vote N L s = s\<lparr>rs_exit := True\<rparr>"
    moreover have "(\<Sum>i < N. rs_votes s) \<le> (\<Sum>i < N. seen s i)" using assms(1) by (intro sum_mono) (simp add: voted_def seen_def)
    ultimately show ?thesis by (simp add: seen_def)
  next
    fix w junk g replied
    assume "vote N L s = s\<lparr>rs_out := rs_out s @ filter (\<lambda>c. c \<noteq> 0) (rs_buf s w),
      rs_buf := (rs_buf s)(w := junk @ drop (length junk) (rs_buf s w)), rs_rng := g,
      rs_cont := (\<lambda>i. if i \<in> set replied then rs_cont s i + 1 else rs_cont s i), rs_exit := length replied < N, rs_votes := rs_votes s + 1\<rparr>"
    moreover have "(\<Sum>i < N. rs_votes s + 1) \<le> (\<Sum>i < N. seen s i)" using assms(1) by (intro sum_mono) (simp add: voted_def seen_def)
    ultimately show ?thesis by (simp add: seen_def)
  qed
  assume i: "i < N"
  show "ahead (vote N L s) i"
    by (rule vote_cases [of N L s]; use assms(1) assms(2) [OF i] i in \<open>auto simp: ahead_def voted_def seen_def split: rphase.splits\<close>)
qed

lemma voter_lockstep:
  assumes "voter N L i s = Some s'" and "lockstep N s" and "i < N"
  shows "lockstep N s'"
proof (cases "0 < rs_full s i")
  case True
  let ?t = "s\<lparr>rs_full := (rs_full s)(i := rs_full s i - 1), rs_arrivals := rs_arrivals s + 1\<rparr>"
  have a: "ahead s j" if "j < N" for j using assms(2) that by (simp add: lockstep_def)
  have seen: "(\<Sum>j < N. seen ?t j) = (\<Sum>j < N. seen s j) + 1"
    using sum_seen_step [OF assms(3) True] a [OF assms(3)] by (simp add: seen_def ahead_def)
  have at: "ahead ?t j" if "j < N" for j using a [OF that] True by (auto simp: ahead_def seen_def split: rphase.splits)
  have s': "s' = (if N \<le> rs_arrivals ?t then vote N L (?t\<lparr>rs_arrivals := 0\<rparr>) else ?t)"
    using assms(1) True by (auto simp: voter_def handleInput_def Let_def split: if_splits)
  show ?thesis
  proof (cases "N \<le> rs_arrivals ?t")
    case False
    with s' at seen assms(2) show ?thesis by (simp add: lockstep_def)
  next
    case arrived: True
    let ?u = "?t\<lparr>rs_arrivals := 0\<rparr>"
    have au: "ahead ?u j" if "j < N" for j using at [OF that] by (auto simp: ahead_def seen_def split: rphase.splits)
    have su: "(\<Sum>j < N. seen ?u j) = (\<Sum>j < N. seen s j) + 1" using seen by (simp add: seen_def)
    have "voted N ?u"
    proof (rule all_arrived)
      show "rs_full ?u j \<le> rs_sent ?u j \<and> rs_sent ?u j \<le> rs_votes ?u + 1" if "j < N" for j
        using au [OF that] ahead_sent [OF au [OF that]] by (simp add: ahead_def)
      show "N * (rs_votes ?u + 1) \<le> (\<Sum>j < N. seen ?u j)"
        unfolding su using assms(2) arrived by (simp add: lockstep_def)
    qed
    note v = vote_lockstep [OF this au, where L = L]
    have "rs_arrivals (vote N L ?u) = 0" by (rule vote_cases [of N L ?u]) simp_all
    with v s' arrived show ?thesis by (simp add: lockstep_def)
  qed
next
  case False
  have "s' = s\<lparr>rs_dead := (rs_dead s)(i := True)\<rparr>" using assms(1) False by (auto simp: voter_def split: if_splits)
  with assms(2) show ?thesis by (auto simp: lockstep_def ahead_def seen_def split: rphase.splits)
qed

lemma rstep_lockstep: "lockstep N s \<Longrightarrow> lockstep N (rstep N L a s)"
  by (auto simp: rstep_def split: action.splits option.splits intro: reader_lockstep voter_lockstep)

lemma rstart_lockstep: "lockstep N (rstart L outputs junk g)"
  by (simp add: lockstep_def ahead_def seen_def rstart_def)

section \<open>What a reader has copied\<close>

definition block :: "nat \<Rightarrow> byte list \<Rightarrow> nat \<Rightarrow> byte list" where
  "block L out k = take L (drop (k * L) out) @ replicate (L - length (take L (drop (k * L) out))) 0"

text \<open>After \<open>n\<close> signals: the reader holds, or has left for the vote, the next block of the output.\<close>

definition copied :: "nat \<Rightarrow> byte list \<Rightarrow> rsys \<Rightarrow> nat \<Rightarrow> bool" where
  "copied L out s i \<longleftrightarrow> rs_count s i \<le> L \<and> length (rs_buf s i) = L \<and>
     (case rs_phase s i of
        Reading \<Rightarrow> rs_in s i = drop (rs_sent s i * L + rs_count s i) out \<and> rs_sent s i * L + rs_count s i \<le> length out
          \<and> (0 < rs_sent s i \<longrightarrow> 0 < rs_count s i) \<and> take (rs_count s i) (rs_buf s i) = take (rs_count s i) (drop (rs_sent s i * L) out)
      | Waiting c \<Rightarrow> rs_sent s i * L < length out \<and> c = out ! (rs_sent s i * L) \<and> rs_in s i = drop (rs_sent s i * L + 1) out \<and> 0 < rs_sent s i
          \<and> (rs_votes s < rs_sent s i \<longrightarrow> rs_buf s i = block L out (rs_sent s i - 1))
      | Finished \<Rightarrow> 0 < rs_sent s i \<and> (rs_sent s i - 1) * L + rs_count s i = length out \<and> (1 < rs_sent s i \<longrightarrow> 0 < rs_count s i)
          \<and> (rs_votes s < rs_sent s i \<longrightarrow> rs_buf s i = block L out (rs_sent s i - 1))
      | Done \<Rightarrow> 0 < rs_sent s i \<and> (rs_sent s i - 1) * L + rs_count s i = length out \<and> (1 < rs_sent s i \<longrightarrow> 0 < rs_count s i)
          \<and> (rs_votes s < rs_sent s i \<longrightarrow> rs_buf s i = block L out (rs_sent s i - 1)))"

lemma copied_sent:
  assumes "copied L out s i" and "0 < L"
  shows "rs_sent s i \<le> (length out - 1) div L + 1"
proof (cases "rs_sent s i")
  case (Suc k)
  have "k * L \<le> length out - 1"
    using assms(1) Suc by (cases "k = 0") (auto simp: copied_def split: rphase.splits)
  then have "k \<le> (length out - 1) div L" using assms(2) by (metis div_le_mono div_mult_self_is_m mult.commute)
  with Suc show ?thesis by simp
qed simp

lemma block_length: "length (block L out k) = L"
  by (simp add: block_def)

lemma take_Suc_update: "n < length xs \<Longrightarrow> take (Suc n) (xs[n := c]) = take n xs @ [c]"
  by (simp add: take_Suc_conv_app_nth)

lemma reader_copied:
  assumes "reader L i s = Some s'" and "copied L out s i" and "0 < L"
  shows "copied L out s' i"
proof (cases "rs_phase s i")
  case Reading
  show ?thesis
  proof (cases "rs_in s i")
    case Nil
    have "length out = rs_sent s i * L + rs_count s i" using assms(2) Reading Nil by (auto simp: copied_def)
    moreover from this have "take L (drop (rs_sent s i * L) out) = take (rs_count s i) (drop (rs_sent s i * L) out)"
      using assms(2) by (simp add: copied_def)
    ultimately show ?thesis
      using assms(1,2) Reading Nil by (auto simp: reader_def signal_def copied_def block_def)
  next
    case (Cons c cs)
    let ?p = "rs_sent s i * L + rs_count s i"
    have d: "drop ?p out = c # cs" "?p < length out"
      using assms(2) Reading Cons by (auto simp: copied_def) (metis drop_all linorder_not_less list.simps(3))+
    then have c: "c = out ! ?p" "cs = drop (?p + 1) out"
      by (metis nth_via_drop) (use d in \<open>simp add: drop_Suc flip: tl_drop\<close>)
    show ?thesis
    proof (cases "L \<le> rs_count s i")
      case True
      then have full: "rs_count s i = L" using assms(2) by (simp add: copied_def)
      then have "rs_buf s i = block L out (rs_sent s i)"
        using assms(2) Reading d(2) by (auto simp: copied_def block_def)
      then show ?thesis
        using assms(1,2) Reading Cons full c d(2) by (auto simp: reader_def signal_def copied_def add.commute)
    next
      case False
      have b: "take (rs_count s i) (rs_buf s i) = take (rs_count s i) (drop (rs_sent s i * L) out)" "length (rs_buf s i) = L"
        using assms(2) Reading by (simp_all add: copied_def)
      have "take (Suc (rs_count s i)) ((rs_buf s i)[rs_count s i := c]) = take (Suc (rs_count s i)) (drop (rs_sent s i * L) out)"
        using False b d(2) c(1) by (simp add: take_Suc_update take_Suc_conv_app_nth)
      then show ?thesis
        using assms(1,2) Reading Cons False c d(2) by (auto simp: reader_def copied_def)
    qed
  qed
next
  case (Waiting c)
  have "take (Suc 0) (drop (rs_sent s i * L) out) = [out ! (rs_sent s i * L)]"
    using assms(2) Waiting by (simp add: copied_def take_Suc_conv_app_nth)
  moreover have "take (Suc 0) ((rs_buf s i)[0 := c]) = [c]" using assms(2,3) by (cases "rs_buf s i") (auto simp: copied_def)
  ultimately show ?thesis
    using assms(1,2,3) Waiting by (auto simp: reader_def copied_def Suc_le_eq split: if_splits)
qed (use assms(1,2) in \<open>auto simp: reader_def copied_def\<close>)

lemma random_longs_length: "length (fst (random_longs n g)) = 8 * n"
  by (induction n arbitrary: g) (simp_all add: case_prod_beta long_bytes_def Let_def)

text \<open>What a step of the voter does to the buffers and the output.\<close>

definition same_readers :: "rsys \<Rightarrow> rsys \<Rightarrow> bool" where
  "same_readers s s' \<longleftrightarrow> rs_phase s' = rs_phase s \<and> rs_in s' = rs_in s \<and> rs_count s' = rs_count s \<and> rs_sent s' = rs_sent s"

definition fingerprints :: "nat \<Rightarrow> rsys \<Rightarrow> fingerprinter list" where
  "fingerprints N s = map (\<lambda>i. \<lparr>fp_value = fingerprint (rs_buf s i), fp_start = i\<rparr>) [0..<N]"

lemma voter_effect:
  assumes "voter N L i s = Some s'" and "lockstep N s" and "i < N"
  obtains (quiet) "same_readers s s'" "rs_buf s' = rs_buf s" "rs_votes s' = rs_votes s" "rs_out s' = rs_out s"
  | (vote) w junk c where "same_readers s s'" "\<And>j. j < N \<Longrightarrow> rs_sent s j = rs_votes s + 1" "w < N" "2 \<le> c" "length junk \<le> L"
      "mostCommonElement same_fingerprint (fingerprints N s) = (Some \<lparr>fp_value = fingerprint (rs_buf s w), fp_start = w\<rparr>, c)"
      "rs_buf s' = (rs_buf s)(w := junk @ drop (length junk) (rs_buf s w))" "rs_votes s' = rs_votes s + 1"
      "rs_out s' = rs_out s @ filter (\<lambda>c. c \<noteq> 0) (rs_buf s w)"
proof (cases "0 < rs_full s i \<and> N \<le> rs_arrivals s + 1")
  case False
  then show thesis
    using assms(1) by (intro quiet) (auto simp: voter_def handleInput_def same_readers_def Let_def split: if_splits)
next
  case True
  let ?u = "s\<lparr>rs_full := (rs_full s)(i := rs_full s i - 1), rs_arrivals := 0\<rparr>"
  have a: "ahead s j" if "j < N" for j using assms(2) that by (simp add: lockstep_def)
  have s': "s' = vote N L ?u"
    using assms(1) True by (auto simp: voter_def handleInput_def Let_def split: if_splits)
  have "(\<Sum>j < N. seen ?u j) = (\<Sum>j < N. seen s j) + 1"
    using sum_seen_step [OF assms(3)] True a [OF assms(3)] by (simp add: seen_def ahead_def)
  then have "voted N ?u"
    using True assms(2) a ahead_sent [OF a] by (intro all_arrived) (auto simp: lockstep_def ahead_def intro: order_trans [OF diff_le_self])
  then have sent: "rs_sent s j = rs_votes s + 1" if "j < N" for j using that by (simp add: voted_def)
  show thesis
  proof (rule vote_cases [of N L ?u])
    assume "vote N L ?u = ?u\<lparr>rs_exit := True\<rparr>"
    then show thesis using s' by (intro quiet) (simp_all add: same_readers_def)
  next
    fix w junk g replied c
    assume v: "vote N L ?u = ?u\<lparr>rs_out := rs_out ?u @ filter (\<lambda>c. c \<noteq> 0) (rs_buf ?u w),
        rs_buf := (rs_buf ?u)(w := junk @ drop (length junk) (rs_buf ?u w)), rs_rng := g,
        rs_cont := (\<lambda>i. if i \<in> set replied then rs_cont ?u i + 1 else rs_cont ?u i), rs_exit := length replied < N, rs_votes := rs_votes ?u + 1\<rparr>"
      and m: "mostCommonElement same_fingerprint (map (\<lambda>i. \<lparr>fp_value = fingerprint (rs_buf ?u i), fp_start = i\<rparr>) [0..<N])
        = (Some \<lparr>fp_value = fingerprint (rs_buf ?u w), fp_start = w\<rparr>, c)"
      and w: "w < N" "2 \<le> c" "random_longs (L div 8) (rs_rng ?u) = (junk, g)"
    have "length junk \<le> L" using random_longs_length [of "L div 8" "rs_rng ?u"] w(3) by simp
    with v m w(1,2) s' sent show thesis by (intro vote [of w c junk]) (simp_all add: same_readers_def fingerprints_def)
  qed
qed

lemma voter_copied:
  assumes "voter N L i s = Some s'" and "lockstep N s" and "i < N" and "j < N" and "copied L out s j"
  shows "copied L out s' j"
proof (cases rule: voter_effect [OF assms(1-3)])
  case 1
  with assms(5) show ?thesis by (auto simp: copied_def same_readers_def split: rphase.splits)
next
  case (2 w junk c)
  have "rs_phase s j \<noteq> Reading"
    using voted_not_reading 2(2) [OF assms(4)] assms(2,4) by (auto simp: lockstep_def)
  moreover have "length (rs_buf s' j) = length (rs_buf s j)" using 2(5,7) assms(5) by (auto simp: copied_def)
  ultimately show ?thesis
    using assms(5) 2(1,2,8) assms(4) by (auto simp: copied_def same_readers_def split: rphase.splits)
qed

lemma rstart_copied: "copied L (outputs i) (rstart L outputs junk g) i"
  by (simp add: copied_def rstart_def)

lemma reader_copied_other:
  assumes "reader L i s = Some s'" and "j \<noteq> i" and "copied L out s j"
  shows "copied L out s' j"
  using reader_frame(1) [OF assms(1)] reader_frame(5) [OF assms(1,2)] assms(3) by (auto simp: copied_def split: rphase.splits)

section \<open>The output\<close>

definition replicas_ok :: "nat \<Rightarrow> nat \<Rightarrow> (nat \<Rightarrow> byte list) \<Rightarrow> rsys \<Rightarrow> bool" where
  "replicas_ok N L outputs s \<longleftrightarrow> lockstep N s \<and> (\<forall>i < N. copied L (outputs i) s i) \<and> length (rs_out s) \<le> L * rs_votes s"

lemma rstep_ok:
  assumes "replicas_ok N L outputs s" and "0 < L"
  shows "replicas_ok N L outputs (rstep N L a s)"
proof -
  have ls: "lockstep N s" and cp: "copied L (outputs j) s j" if "j < N" for j using assms(1) that by (auto simp: replicas_ok_def)
  have ls: "lockstep N s" using assms(1) by (simp add: replicas_ok_def)
  have out: "length (rs_out s) \<le> L * rs_votes s" using assms(1) by (simp add: replicas_ok_def)
  have r: "replicas_ok N L outputs s'" if "reader L i s = Some s'" "i < N" for i s'
  proof -
    have "copied L (outputs j) s' j" if j: "j < N" for j
      using reader_copied [OF \<open>reader L i s = Some s'\<close> _ assms(2)] reader_copied_other [OF \<open>reader L i s = Some s'\<close>] cp [OF j] by (cases "j = i") auto
    then show ?thesis
      using reader_lockstep [OF that(1) ls that(2)] reader_frame(1,3) [OF that(1)] out by (simp add: replicas_ok_def)
  qed
  have v: "replicas_ok N L outputs s'" if vt: "voter N L i s = Some s'" "i < N" for i s'
  proof -
    have "length (rs_out s') \<le> L * rs_votes s'"
    proof (cases rule: voter_effect [OF vt(1) ls vt(2)])
      case (2 w junk c)
      have "length (filter (\<lambda>c. c \<noteq> 0) (rs_buf s w)) \<le> L"
        using cp [OF 2(3)] length_filter_le [of "\<lambda>c. c \<noteq> 0" "rs_buf s w"] by (simp add: copied_def)
      with out 2(8,9) show ?thesis by simp
    qed (use out in simp)
    then show ?thesis
      using voter_lockstep [OF vt(1) ls vt(2)] voter_copied [OF vt(1) ls vt(2)] cp by (auto simp: replicas_ok_def)
  qed
  show ?thesis using r v assms(1) by (auto simp: rstep_def split: action.splits option.splits)
qed

lemma rrun_ok:
  assumes "0 < L"
  shows "replicas_ok N L outputs (rrun N L as (rstart L outputs junk g))"
proof (rule rrun_invariant [where P = "replicas_ok N L outputs"])
  show "replicas_ok N L outputs (rstart L outputs junk g)"
    unfolding replicas_ok_def using rstart_lockstep rstart_copied by (auto simp: rstart_def)
qed (rule rstep_ok [OF _ assms])

section \<open>Agreeing replicas\<close>

definition in_step :: "rphase \<Rightarrow> nat \<Rightarrow> nat \<Rightarrow> nat \<Rightarrow> bool" where
  "in_step p sent cont votes \<longleftrightarrow>
     (case p of Reading \<Rightarrow> sent + cont = votes | Waiting c \<Rightarrow> sent + cont = votes + 1 | Finished \<Rightarrow> True | Done \<Rightarrow> True)"

definition exact :: "nat \<Rightarrow> rsys \<Rightarrow> bool" where
  "exact N s \<longleftrightarrow> (\<Sum>i < N. seen s i) = N * rs_votes s + rs_arrivals s \<and> rs_arrivals s < N
     \<and> (\<forall>i < N. in_step (rs_phase s i) (rs_sent s i) (rs_cont s i) (rs_votes s))"

definition dead_ok :: "nat \<Rightarrow> rsys \<Rightarrow> bool" where
  "dead_ok N s \<longleftrightarrow> (\<forall>i < N. rs_dead s i \<longrightarrow> rs_full s i = 0 \<and> rs_phase s i = Done)"

definition agreed :: "nat \<Rightarrow> nat \<Rightarrow> byte list \<Rightarrow> rsys \<Rightarrow> bool" where
  "agreed N L out s \<longleftrightarrow> replicas_ok N L (\<lambda>i. out) s \<and> dead_ok N s
     \<and> rs_out s = filter (\<lambda>c. c \<noteq> 0) (take (rs_votes s * L) out)
     \<and> (if rs_exit s then length out \<le> rs_votes s * L else exact N s)"

lemma reader_seen: "reader L i s = Some s' \<Longrightarrow> rs_full s i \<le> rs_sent s i \<Longrightarrow> seen s' = seen s"
  by (auto simp: reader_def seen_def signal_def fun_eq_iff Suc_diff_le split: rphase.splits list.splits if_splits)

lemma reader_exit: "reader L i s = Some s' \<Longrightarrow> rs_exit s' = rs_exit s \<and> rs_dead s' = rs_dead s \<and> rs_phase s i \<noteq> Done"
  by (auto simp: reader_def signal_def split: rphase.splits list.splits if_splits)

lemma reader_exact:
  assumes "reader L i s = Some s'" and "exact N s" and "lockstep N s" and "i < N"
  shows "exact N s'"
proof -
  note f = reader_frame [OF assms(1)]
  have "seen s' = seen s" using assms(3,4) by (intro reader_seen [OF assms(1)]) (auto simp: lockstep_def ahead_def)
  moreover have "in_step (rs_phase s' j) (rs_sent s' j) (rs_cont s' j) (rs_votes s)" if j: "j < N" for j
  proof (cases "j = i")
    case True
    have "in_step (rs_phase s i) (rs_sent s i) (rs_cont s i) (rs_votes s)" using assms(2,4) by (simp add: exact_def)
    with assms(1) True show ?thesis
      by (auto simp: reader_def in_step_def signal_def split: rphase.splits list.splits if_splits)
  next
    case False
    with f(5) [OF False] assms(2) j show ?thesis by (simp add: exact_def)
  qed
  ultimately show ?thesis using assms(2) f(1,2) by (simp add: exact_def)
qed

lemma reader_dead_ok: "reader L i s = Some s' \<Longrightarrow> dead_ok N s \<Longrightarrow> i < N \<Longrightarrow> dead_ok N s'"
  using reader_exit [of L i s s'] reader_frame(5) [of L i s s'] unfolding dead_ok_def by metis

text \<open>At a vote all buffers hold the same block, so that at least two agree.\<close>

lemma vote_blocks:
  assumes "copied L out s j" and "rs_sent s j = rs_votes s + 1" and "ahead s j"
  shows "rs_buf s j = block L out (rs_votes s)" and "rs_phase s j = Done \<Longrightarrow> length out \<le> (rs_votes s + 1) * L"
  using assms voted_not_reading [OF assms(3,2)] by (auto simp: copied_def split: rphase.splits)

lemma block_filter: "filter (\<lambda>c. c \<noteq> 0) (block L out k) = filter (\<lambda>c. c \<noteq> 0) (take L (drop (k * L) out))"
  by (simp add: block_def)

lemma agree_count:
  assumes "\<And>i. i < N \<Longrightarrow> rs_buf s i = b" and "0 < N"
  shows "snd (mostCommonElement same_fingerprint (fingerprints N s)) = N"
proof -
  let ?f = "fingerprints N s"
  have ne: "?f \<noteq> []" using assms(2) by (simp add: fingerprints_def)
  have all: "occurrences same_fingerprint x ?f = N" if "x \<in> set ?f" for x
  proof -
    have "filter (same_fingerprint x) ?f = ?f"
      using that assms(1) by (auto simp: filter_id_conv fingerprints_def same_fingerprint_def)
    then show ?thesis by (simp add: occurrences_def fingerprints_def)
  qed
  obtain i where i: "i < length ?f" "mostCommonElement same_fingerprint ?f = (Some (?f ! i), occurrences same_fingerprint (?f ! i) ?f)"
    using mostCommonElement_first [OF ne, of same_fingerprint] by (auto simp: same_fingerprint_def)
  show ?thesis unfolding i(2) snd_conv by (rule all [OF nth_mem [OF i(1)]])
qed

lemma voter_agreed:
  assumes "voter N L i s = Some s'" and "agreed N L out s" and "i < N" and "2 \<le> N" and "0 < L"
  shows "agreed N L out s'"
proof -
  have ok: "replicas_ok N L (\<lambda>i. out) s" "dead_ok N s" and o: "rs_out s = filter (\<lambda>c. c \<noteq> 0) (take (rs_votes s * L) out)"
    and ex: "\<not> rs_exit s" "\<not> rs_dead s i" "exact N s"
    using assms(1,2) by (auto simp: agreed_def voter_def split: if_splits)
  have ls: "lockstep N s" and cp: "\<And>j. j < N \<Longrightarrow> copied L out s j" and ah: "\<And>j. j < N \<Longrightarrow> ahead s j"
    using ok(1) by (auto simp: replicas_ok_def lockstep_def)
  have ok': "replicas_ok N L (\<lambda>i. out) s'"
    using rstep_ok [OF ok(1) assms(5), of "Vote i"] assms(1,3) by (simp add: rstep_def)
  have dead: "dead_ok N s'" if "rs_phase s' = rs_phase s" "rs_full s' = (rs_full s)(i := n) \<and> rs_dead s' = rs_dead s" for n
    using ok(2) ex(2) that by (auto simp: dead_ok_def)
  show ?thesis
  proof (cases "0 < rs_full s i")
    case False
    then have "s' = s\<lparr>rs_dead := (rs_dead s)(i := True)\<rparr>" "rs_phase s i = Done" using assms(1) by (auto simp: voter_def split: if_splits)
    with False ok' ok(2) o ex show ?thesis by (auto simp: agreed_def exact_def seen_def dead_ok_def)
  next
    case full: True
    let ?t = "s\<lparr>rs_full := (rs_full s)(i := rs_full s i - 1), rs_arrivals := rs_arrivals s + 1\<rparr>"
    have sum: "(\<Sum>j < N. seen ?t j) = (\<Sum>j < N. seen s j) + 1"
      using sum_seen_step [OF assms(3) full] ah [OF assms(3)] by (simp add: seen_def ahead_def)
    have s': "s' = (if N \<le> rs_arrivals s + 1 then vote N L (?t\<lparr>rs_arrivals := 0\<rparr>) else ?t)"
      using assms(1) full by (auto simp: voter_def handleInput_def Let_def split: if_splits)
    show ?thesis
    proof (cases "N \<le> rs_arrivals s + 1")
      case False
      then have "exact N ?t" using ex(3) sum by (simp add: exact_def)
      with False s' ok' dead o ex show ?thesis by (auto simp: agreed_def)
    next
      case True
      let ?u = "?t\<lparr>rs_arrivals := 0\<rparr>"
      have arr: "rs_arrivals s + 1 = N" using True ex(3) by (simp add: exact_def)
      have su: "(\<Sum>j < N. seen ?u j) = N * (rs_votes s + 1)" using sum ex(3) arr by (simp add: exact_def seen_def)
      have "voted N ?u"
        using su ah ahead_sent [OF ah] by (intro all_arrived) (auto simp: ahead_def intro: order_trans [OF diff_le_self])
      then have sent: "rs_sent s j = rs_votes s + 1" if "j < N" for j using that by (simp add: voted_def)
      note blocks = vote_blocks [OF cp sent ah]
      have "snd (mostCommonElement same_fingerprint (fingerprints N ?u)) = N"
        by (rule agree_count [of N ?u "block L out (rs_votes s)"]) (use blocks(1) assms(3) in simp_all)
      then have cnt: "2 \<le> c" if "mostCommonElement same_fingerprint (map (\<lambda>i. \<lparr>fp_value = fingerprint (rs_buf ?u i), fp_start = i\<rparr>) [0..<N]) = (r, c)" for r c
        using that assms(4) by (simp add: fingerprints_def)
      show ?thesis
      proof (rule vote_cases [of N L ?u])
        assume "vote N L ?u = ?u\<lparr>rs_exit := True\<rparr>"
        moreover have "rs_votes (vote N L ?u) = rs_votes s + 1"
          using cnt by (auto simp: vote_def Let_def split: prod.split)
        ultimately show ?thesis by simp
      next
        fix w junk g replied c
        assume v: "vote N L ?u = ?u\<lparr>rs_out := rs_out ?u @ filter (\<lambda>c. c \<noteq> 0) (rs_buf ?u w),
            rs_buf := (rs_buf ?u)(w := junk @ drop (length junk) (rs_buf ?u w)), rs_rng := g,
            rs_cont := (\<lambda>i. if i \<in> set replied then rs_cont ?u i + 1 else rs_cont ?u i), rs_exit := length replied < N, rs_votes := rs_votes ?u + 1\<rparr>"
          and w: "w < N" and rep: "replied = takeWhile (\<lambda>i. rs_phase ?u i \<noteq> Done) [0..<N]"
        have f: "rs_out s' = rs_out s @ filter (\<lambda>c. c \<noteq> 0) (rs_buf s w)" "rs_votes s' = rs_votes s + 1" "rs_exit s' = (length replied < N)"
          "rs_phase s' = rs_phase s" "rs_full s' = (rs_full s)(i := rs_full s i - 1)" "rs_dead s' = rs_dead s" "rs_sent s' = rs_sent s" "rs_arrivals s' = 0"
          "rs_cont s' = (\<lambda>i. if i \<in> set replied then rs_cont s i + 1 else rs_cont s i)"
          using s' True v by (simp_all cong: if_cong)
        have "take ((rs_votes s + 1) * L) out = take (rs_votes s * L) out @ take L (drop (rs_votes s * L) out)"
          by (simp only: add_mult_distrib mult_1 take_add)
        then have o': "rs_out s' = filter (\<lambda>c. c \<noteq> 0) (take (rs_votes s' * L) out)"
          unfolding f(1,2) o blocks(1) [OF w w w] block_filter by (simp only: filter_append)
        have rep': "replied = takeWhile (\<lambda>i. rs_phase s i \<noteq> Done) [0..<N]" using rep by simp
        have "length out \<le> rs_votes s' * L" if "rs_exit s'"
        proof -
          have l: "length replied < length [0..<N]" using that f(3) by simp
          then have "rs_phase s ([0..<N] ! length replied) = Done" using nth_length_takeWhile [of "\<lambda>i. rs_phase s i \<noteq> Done" "[0..<N]"] rep' by simp
          then have "rs_phase s (length replied) = Done" "length replied < N" using l by simp_all
          with blocks(2) f(2) show ?thesis by simp
        qed
        moreover have "exact N s'" if "\<not> rs_exit s'"
        proof -
          have "length replied = length [0..<N]" using that f(3) length_takeWhile_le [of "\<lambda>i. rs_phase s i \<noteq> Done" "[0..<N]"] rep' by simp
          then have "replied = [0..<N]" using rep' by (metis takeWhile_eq_take take_all order_refl)
          moreover have "seen s' = seen ?u" using f(5,7) by (simp add: seen_def fun_eq_iff)
          ultimately show ?thesis using su f ex(3) assms(4) by (auto simp: exact_def in_step_def split: rphase.splits)
        qed
        ultimately show ?thesis using ok' o' dead [OF f(4)] f(5,6) by (auto simp: agreed_def)
      qed
    qed
  qed
qed

lemma rstep_agreed: "agreed N L out s \<Longrightarrow> 2 \<le> N \<Longrightarrow> 0 < L \<Longrightarrow> agreed N L out (rstep N L a s)"
proof -
  assume a: "agreed N L out s" and N: "2 \<le> N" and L: "0 < L"
  have r: "agreed N L out s'" if "reader L i s = Some s'" "i < N" for i s'
  proof -
    have "replicas_ok N L (\<lambda>i. out) s'"
      using rstep_ok [of N L "\<lambda>i. out" s "Read i"] a L that by (simp add: agreed_def rstep_def)
    then show ?thesis
      using a reader_exact [OF that(1) _ _ that(2)] reader_dead_ok [OF that(1) _ that(2)] reader_exit [OF that(1)] reader_frame(1,3) [OF that(1)]
      by (auto simp: agreed_def replicas_ok_def)
  qed
  show ?thesis using r voter_agreed [OF _ a _ N L] a by (auto simp: rstep_def split: action.splits option.splits)
qed

lemma rrun_agreed:
  assumes "2 \<le> N" and "0 < L"
  shows "agreed N L out (rrun N L as (rstart L (\<lambda>i. out) junk g))"
proof (rule rrun_invariant [where P = "agreed N L out"])
  have "replicas_ok N L (\<lambda>i. out) (rstart L (\<lambda>i. out) junk g)" using rrun_ok [OF assms(2), of N "\<lambda>i. out" "[]"] by (simp add: rrun_def)
  then show "agreed N L out (rstart L (\<lambda>i. out) junk g)"
    using assms(1) by (simp add: agreed_def exact_def in_step_def dead_ok_def seen_def rstart_def)
qed (use rstep_agreed assms in blast)

lemma reader_moves: "reader L i s = Some s' \<Longrightarrow> s' \<noteq> s"
proof -
  assume r: "reader L i s = Some s'"
  have "rs_phase s' i \<noteq> rs_phase s i \<or> rs_in s' i \<noteq> rs_in s i"
    using r by (auto simp: reader_def signal_def split: rphase.splits list.splits if_splits)
  then show ?thesis by blast
qed

lemma vote_full: "rs_full (vote N L s) = rs_full s"
  by (rule vote_cases [of N L s]) simp_all

lemma voter_moves: "voter N L i s = Some s' \<Longrightarrow> s' \<noteq> s"
proof -
  assume v: "voter N L i s = Some s'"
  have "rs_full s' i \<noteq> rs_full s i \<or> rs_dead s' i \<noteq> rs_dead s i"
    using v by (auto simp: voter_def handleInput_def vote_full Let_def split: if_splits)
  then show ?thesis by blast
qed

text \<open>When nothing can move any more, the whole output was voted on.\<close>

lemma quiescent:
  assumes "agreed N L out s" and "\<And>a. rstep N L a s = s" and "0 < L"
  shows "length out \<le> rs_votes s * L"
proof (cases "rs_exit s")
  case True
  with assms(1) show ?thesis by (simp add: agreed_def)
next
  case False
  then have ex: "exact N s" and ok: "dead_ok N s" and cp: "\<And>i. i < N \<Longrightarrow> copied L out s i" using assms(1) by (auto simp: agreed_def replicas_ok_def)
  have rd: "reader L i s = None" if "i < N" for i
    using assms(2) [of "Read i"] reader_moves [of L i s] that by (cases "reader L i s") (auto simp: rstep_def)
  have vt: "voter N L i s = None" if "i < N" for i
    using assms(2) [of "Vote i"] voter_moves [of N L i s] that by (cases "voter N L i s") (auto simp: rstep_def)
  have full: "rs_full s i = 0" if "i < N" for i using vt [OF that] ok that False by (auto simp: voter_def dead_ok_def split: if_splits)
  have ph: "rs_phase s i = Done \<or> (\<exists>c. rs_phase s i = Waiting c) \<and> rs_cont s i = 0" if "i < N" for i
    using rd [OF that] by (auto simp: reader_def split: rphase.splits list.splits if_splits)
  have "\<exists>i < N. rs_sent s i \<le> rs_votes s"
  proof (rule ccontr)
    assume "\<not> (\<exists>i < N. rs_sent s i \<le> rs_votes s)"
    then have "(\<Sum>i < N. rs_votes s + 1) \<le> (\<Sum>i < N. seen s i)" using full by (intro sum_mono) (auto simp: seen_def not_le)
    with ex show False by (simp add: exact_def)
  qed
  then obtain i where i: "i < N" "rs_sent s i \<le> rs_votes s" by blast
  have "in_step (rs_phase s i) (rs_sent s i) (rs_cont s i) (rs_votes s)" using ex i(1) by (simp add: exact_def)
  then have "rs_phase s i = Done" using ph [OF i(1)] i(2) by (auto simp: in_step_def)
  then have "0 < rs_sent s i" "(rs_sent s i - 1) * L + rs_count s i = length out" "rs_count s i \<le> L"
    using cp [OF i(1)] by (auto simp: copied_def)
  then have "length out \<le> rs_sent s i * L" by (cases "rs_sent s i") auto
  with i(2) show ?thesis by (meson le_trans mult_le_mono1)
qed

section \<open>Properties\<close>

text \<open>C29: The replicated mode shows the output of the program.  When all replicas write the same bytes, then in whatever order
  the readers and the voter run, what the voter has printed is the output up to the buffer voted on last, without its zero
  bytes; and once no process can go on, it is all of the output.\<close>

theorem replicas_agree:
  assumes "2 \<le> N" and "0 < L" and "rrun N L as (rstart L (\<lambda>i. out) junk g) = s"
  shows "rs_out s = filter (\<lambda>c. c \<noteq> 0) (take (rs_votes s * L) out)
    \<and> ((\<forall>a. rstep N L a s = s) \<longrightarrow> rs_out s = filter (\<lambda>c. c \<noteq> 0) out)"
proof -
  have a: "agreed N L out s" unfolding assms(3) [symmetric] by (rule rrun_agreed [OF assms(1,2)])
  then have o: "rs_out s = filter (\<lambda>c. c \<noteq> 0) (take (rs_votes s * L) out)" by (simp add: agreed_def)
  moreover have "rs_out s = filter (\<lambda>c. c \<noteq> 0) out" if "\<forall>a. rstep N L a s = s"
    using quiescent [OF a _ assms(2)] that o by simp
  ultimately show ?thesis by blast
qed

definition demo_schedule :: "action list" where
  "demo_schedule = map Read [0, 1, 2, 0, 1, 2, 0, 1, 2] @ map Vote [2, 0, 1] @ map Read [0, 1, 2, 0, 1, 2] @ map Vote [0, 1, 2]"

lemma demo_schedule_run: "rs_votes (rrun 3 2 demo_schedule (rstart 2 (\<lambda>i. [65, 66, 67]) (\<lambda>i. []) 1)) = 2"
  by code_simp

lemma replicas_agree_witness:
  "rs_out (rrun 3 2 demo_schedule (rstart 2 (\<lambda>i. [65, 66, 67]) (\<lambda>i. []) 1)) = [65, 66, 67]"
  using replicas_agree [of 3 2 demo_schedule "[65, 66, 67]" "\<lambda>i. []" 1, OF _ _ refl] demo_schedule_run by simp



text \<open>The vote counts sums, not contents.  The result is the first fingerprint with the most occurrences; a replica whose buffer is a
  permutation of what all others wrote has the same sum, and as the first replica its buffer is the one that is printed.\<close>

theorem permuted_buffer_wins:
  assumes "2 \<le> N" and "mset bad = mset good" and "rs_buf s = (\<lambda>i. if i = 0 then bad else good)"
  shows "rs_out (vote N L s) = rs_out s @ filter (\<lambda>c. c \<noteq> 0) bad"
proof -
  have same: "fingerprint bad = fingerprint good"
    unfolding fingerprint_def by (metis assms(2) mset_map sum_mset_sum_list)
  let ?f = "fingerprints N s"
  have ne: "?f \<noteq> []" using assms(1) by (simp add: fingerprints_def)
  have all: "occurrences same_fingerprint x ?f = N" if "x \<in> set ?f" for x
  proof -
    have "filter (same_fingerprint x) ?f = ?f"
      using that assms(3) same by (auto simp: filter_id_conv fingerprints_def same_fingerprint_def)
    then show ?thesis by (simp add: occurrences_def fingerprints_def)
  qed
  obtain i where i: "i < length ?f" "mostCommonElement same_fingerprint ?f = (Some (?f ! i), occurrences same_fingerprint (?f ! i) ?f)"
    "\<forall>j < i. occurrences same_fingerprint (?f ! j) ?f < occurrences same_fingerprint (?f ! i) ?f"
    using mostCommonElement_first [OF ne, of same_fingerprint] by (auto simp: same_fingerprint_def)
  have "i = 0" using i(1,3) all [OF nth_mem] by (metis gr0I less_irrefl less_trans)
  then have "mostCommonElement same_fingerprint ?f = (Some \<lparr>fp_value = fingerprint bad, fp_start = 0\<rparr>, N)"
    using i(1,2) all [OF nth_mem [OF i(1)]] assms(1,3) by (simp add: fingerprints_def)
  then show ?thesis using assms(1,3) by (simp add: vote_def fingerprints_def Let_def split: prod.split)
qed

lemma permuted_buffer_wins_witness:
  "rs_out (vote 3 2 ((rstart 2 (\<lambda>i. []) (\<lambda>i. []) 1)\<lparr>rs_buf := (\<lambda>i. if i = 0 then [66, 65] else [65, 66])\<rparr>)) = [66, 65]"
  using permuted_buffer_wins [of 3 "[66, 65]" "[65, 66]" "(rstart 2 (\<lambda>i. []) (\<lambda>i. []) 1)\<lparr>rs_buf := (\<lambda>i. if i = 0 then [66, 65] else [65, 66])\<rparr>" 2]
  by (simp add: rstart_def)

end
