(* ===== verification/ExtVoter.thy ===== *)
theory ExtVoter
  imports Voter ExtBitmap
begin

text \<open>
  The voter of the Exterminator (\<open>src/exterminator/src/voter.cpp\<close>, \<open>selector.h\<close>).  Its readers, pipes and fingerprints are
  those of \<open>Voter\<close>; a reader closes its pipe right after the last signal (\<open>Finished\<close>, then \<open>Done\<close>).  Unlike the other
  voter it handles the input before it looks whether there is any, counts dead replicas in its own process, ignores
  \<open>SIGPIPE\<close>, and starts isolators.  Its buffers hold one byte.  \<open>select\<close> does not fail, and a \<open>long\<close> has 32 bits.
\<close>

section \<open>State\<close>

text \<open>\<open>rs_rng\<close> of the readers is not used; \<open>xv_isolators\<close> counts the isolators started.\<close>

record xvoter =
  xv_sys :: rsys
  xv_alive :: nat
  xv_rng :: marsaglia
  xv_pending :: bool
  xv_running :: bool
  xv_isolators :: nat

definition BUFFER_LENGTH :: nat where "BUFFER_LENGTH = 1"

fun junk_longs :: "nat \<Rightarrow> marsaglia \<Rightarrow> byte list \<times> marsaglia" where
  "junk_longs 0 g = ([], g)"
| "junk_longs (Suc n) g =
     (let (r, g) = marsaglia_next g; (bs, g) = junk_longs n g
      in (map (\<lambda>j. word_of_nat (unat r div 256 ^ j)) [0..<4] @ bs, g))"

section \<open>Operations\<close>

definition requestDump :: "xvoter \<Rightarrow> xvoter" where
  "requestDump s = s\<lparr>xv_pending := True\<rparr>"

definition dumpCompleted :: "xvoter \<Rightarrow> xvoter" where
  "dumpCompleted s = s\<lparr>xv_running := False, xv_pending := False\<rparr>"

definition pending_dump :: "xvoter \<Rightarrow> xvoter" where
  "pending_dump s =
     (if xv_pending s \<and> \<not> xv_running s
      then s\<lparr>xv_running := True, xv_pending := False, xv_isolators := xv_isolators s + 1\<rparr> else s)"

text \<open>The vote; a reply to a reader that is gone has no effect.\<close>

definition xv_vote :: "nat \<Rightarrow> xvoter \<Rightarrow> xvoter" where
  "xv_vote N s =
     (let s = pending_dump s;
          y = xv_sys s;
          (result, count) = mostCommonElement same_fingerprint (fingerprints N y)
      in if count < 2 then s\<lparr>xv_sys := y\<lparr>rs_exit := True\<rparr>\<rparr>
         else let w = fp_start (the result); (junk, g) = junk_longs (BUFFER_LENGTH div 4) (xv_rng s)
              in s\<lparr>xv_sys := y\<lparr>rs_out := rs_out y @ filter (\<lambda>c. c \<noteq> 0) (rs_buf y w),
                     rs_buf := (rs_buf y)(w := junk @ drop (length junk) (rs_buf y w)),
                     rs_cont := (\<lambda>i. if i < N then rs_cont y i + 1 else rs_cont y i), rs_votes := rs_votes y + 1\<rparr>,
                   xv_rng := g, xv_isolators := (if count < xv_alive s then xv_isolators s + 1 else xv_isolators s)\<rparr>)"

definition xv_handleInput :: "nat \<Rightarrow> xvoter \<Rightarrow> xvoter" where
  "xv_handleInput N s =
     (let y = xv_sys s; y = y\<lparr>rs_arrivals := rs_arrivals y + 1\<rparr>
      in if xv_alive s \<le> rs_arrivals y then xv_vote N (s\<lparr>xv_sys := y\<lparr>rs_arrivals := 0\<rparr>\<rparr>) else s\<lparr>xv_sys := y\<rparr>)"

text \<open>The pipe of replica \<open>i\<close> is ready when there is a signal or its writer has closed it; the input is handled, then read.\<close>

definition xv_voter :: "nat \<Rightarrow> nat \<Rightarrow> xvoter \<Rightarrow> xvoter option" where
  "xv_voter N i s =
     (let y = xv_sys s
      in if rs_exit y \<or> xv_alive s = 0 \<or> rs_dead y i \<or> rs_full y i = 0 \<and> rs_phase y i \<noteq> Done then None
         else let s = xv_handleInput N s; y = xv_sys s
              in Some (if rs_exit y then s
                 else if 0 < rs_full y i then s\<lparr>xv_sys := y\<lparr>rs_full := (rs_full y)(i := rs_full y i - 1)\<rparr>\<rparr>
                 else s\<lparr>xv_sys := y\<lparr>rs_dead := (rs_dead y)(i := True)\<rparr>, xv_alive := xv_alive s - 1\<rparr>))"

datatype xaction = XRead nat | XVote nat | XRequest | XComplete

definition xv_step :: "nat \<Rightarrow> xaction \<Rightarrow> xvoter \<Rightarrow> xvoter" where
  "xv_step N a s =
     (case a of
        XRead i \<Rightarrow> (if i < N then case reader BUFFER_LENGTH i (xv_sys s) of Some y \<Rightarrow> s\<lparr>xv_sys := y\<rparr> | None \<Rightarrow> s else s)
      | XVote i \<Rightarrow> (if i < N then case xv_voter N i s of Some s' \<Rightarrow> s' | None \<Rightarrow> s else s)
      | XRequest \<Rightarrow> requestDump s
      | XComplete \<Rightarrow> dumpCompleted s)"

definition xv_run :: "nat \<Rightarrow> xaction list \<Rightarrow> xvoter \<Rightarrow> xvoter" where
  "xv_run N as s = fold (xv_step N) as s"

definition xv_start :: "nat \<Rightarrow> (nat \<Rightarrow> byte list) \<Rightarrow> (nat \<Rightarrow> byte list) \<Rightarrow> marsaglia \<Rightarrow> xvoter" where
  "xv_start N outputs junk g = \<lparr>xv_sys = rstart BUFFER_LENGTH outputs junk 0, xv_alive = N, xv_rng = g, xv_pending = False,
     xv_running = False, xv_isolators = 0\<rparr>"

lemma xv_run_Cons: "xv_run N (a # as) s = xv_run N as (xv_step N a s)"
  by (simp add: xv_run_def)

lemma xv_run_append: "xv_run N (as @ bs) s = xv_run N bs (xv_run N as s)"
  by (simp add: xv_run_def)

section \<open>Simulation\<close>

text \<open>As long as no end was seen, the voter does what the other voter would do if the readers that closed their pipes were still there.\<close>

definition undone :: "rsys \<Rightarrow> rsys" where
  "undone y = y\<lparr>rs_phase := (\<lambda>i. if rs_phase y i = Done then Finished else rs_phase y i)\<rparr>"

definition no_end :: "nat \<Rightarrow> xvoter \<Rightarrow> bool" where
  "no_end N s \<longleftrightarrow> xv_alive s = N \<and> (\<forall>i < N. \<not> rs_dead (xv_sys s) i)"

lemma undone_simps [simp]:
  "rs_in (undone y) = rs_in y" "rs_count (undone y) = rs_count y" "rs_buf (undone y) = rs_buf y" "rs_full (undone y) = rs_full y"
  "rs_cont (undone y) = rs_cont y" "rs_dead (undone y) = rs_dead y" "rs_arrivals (undone y) = rs_arrivals y" "rs_rng (undone y) = rs_rng y"
  "rs_out (undone y) = rs_out y" "rs_exit (undone y) = rs_exit y" "rs_votes (undone y) = rs_votes y" "rs_sent (undone y) = rs_sent y"
  "rs_phase (undone y) i \<noteq> Done"
  by (simp_all add: undone_def)

lemma undone_phase: "rs_phase (undone y) i = (if rs_phase y i = Done then Finished else rs_phase y i)"
  by (simp add: undone_def)

lemma pending_dump_frame [simp]: "xv_sys (pending_dump s) = xv_sys s" "xv_alive (pending_dump s) = xv_alive s"
  by (simp_all add: pending_dump_def)

lemma junk_one [simp]: "junk_longs (BUFFER_LENGTH div 4) g = ([], g)" "random_longs (BUFFER_LENGTH div 8) h = ([], h)"
  by (simp_all add: BUFFER_LENGTH_def)

lemma xv_vote_sys:
  assumes "mostCommonElement same_fingerprint (fingerprints N (xv_sys s)) = (result, c)"
  shows "xv_sys (xv_vote N s) = (let y = xv_sys s in if c < 2 then y\<lparr>rs_exit := True\<rparr>
      else y\<lparr>rs_out := rs_out y @ filter (\<lambda>c. c \<noteq> 0) (rs_buf y (fp_start (the result))),
             rs_cont := (\<lambda>i. if i < N then rs_cont y i + 1 else rs_cont y i), rs_votes := rs_votes y + 1\<rparr>)"
    and "xv_alive (xv_vote N s) = xv_alive s"
  using assms by (simp_all add: xv_vote_def Let_def cong: if_cong)

lemma takeWhile_True: "takeWhile (\<lambda>i. True) xs = xs"
  by (induction xs) simp_all

lemma undone_vote:
  assumes "xv_sys s = y" and "\<not> rs_exit y"
  shows "undone (xv_sys (xv_vote N s)) = vote N BUFFER_LENGTH (undone y)"
proof -
  obtain r c where m: "mostCommonElement same_fingerprint (fingerprints N y) = (r, c)" by (cases "mostCommonElement same_fingerprint (fingerprints N y)")
  have "map (\<lambda>i. \<lparr>fp_value = fingerprint (rs_buf (undone y) i), fp_start = i\<rparr>) [0..<N] = fingerprints N y" by (simp add: fingerprints_def)
  then have "vote N BUFFER_LENGTH (undone y) = (if c < 2 then (undone y)\<lparr>rs_exit := True\<rparr>
      else (undone y)\<lparr>rs_out := rs_out y @ filter (\<lambda>c. c \<noteq> 0) (rs_buf y (fp_start (the r))),
        rs_buf := (rs_buf y)(fp_start (the r) := rs_buf y (fp_start (the r))), rs_rng := rs_rng y,
        rs_cont := (\<lambda>i. if i < N then rs_cont y i + 1 else rs_cont y i), rs_exit := False, rs_votes := rs_votes y + 1\<rparr>)"
    unfolding vote_def by (simp add: m Let_def takeWhile_True cong: if_cong)
  then show ?thesis
    using xv_vote_sys(1) [of N s r c] m assms by (simp add: undone_def Let_def cong: if_cong)
qed

lemma vote_full_frame: "vote N L (y\<lparr>rs_full := F\<rparr>) = (vote N L y)\<lparr>rs_full := F\<rparr>"
  by (simp add: vote_def Let_def split: prod.split cong: if_cong)

lemma undone_full: "undone (y\<lparr>rs_full := F\<rparr>) = (undone y)\<lparr>rs_full := F\<rparr>"
  by (simp add: undone_def cong: if_cong)

lemma handleInput_full_frame: "handleInput N L (y\<lparr>rs_full := F\<rparr>) = (handleInput N L y)\<lparr>rs_full := F\<rparr>"
proof -
  have "y\<lparr>rs_full := F, rs_arrivals := 0\<rparr> = y\<lparr>rs_arrivals := 0, rs_full := F\<rparr>" by simp
  then have "vote N L (y\<lparr>rs_full := F, rs_arrivals := 0\<rparr>) = (vote N L (y\<lparr>rs_arrivals := 0\<rparr>))\<lparr>rs_full := F\<rparr>"
    by (simp only: vote_full_frame)
  then show ?thesis by (simp add: handleInput_def Let_def)
qed

lemma undone_handleInput:
  assumes "\<not> rs_exit (xv_sys s)" and "xv_alive s = N"
  shows "undone (xv_sys (xv_handleInput N s)) = handleInput N BUFFER_LENGTH (undone (xv_sys s))"
proof -
  let ?y = "(xv_sys s)\<lparr>rs_arrivals := 0\<rparr>"
  have "undone (xv_sys (xv_vote N (s\<lparr>xv_sys := ?y\<rparr>))) = vote N BUFFER_LENGTH (undone ?y)"
    by (rule undone_vote) (use assms(1) in simp_all)
  moreover have "undone (y\<lparr>rs_arrivals := n\<rparr>) = (undone y)\<lparr>rs_arrivals := n\<rparr>" for y n by (simp add: undone_def cong: if_cong)
  ultimately show ?thesis by (simp add: xv_handleInput_def handleInput_def assms(2) Let_def)
qed

lemma xv_handleInput_frame: "rs_full (xv_sys (xv_handleInput N s)) = rs_full (xv_sys s) \<and> rs_dead (xv_sys (xv_handleInput N s)) = rs_dead (xv_sys s)
    \<and> rs_phase (xv_sys (xv_handleInput N s)) = rs_phase (xv_sys s) \<and> rs_buf (xv_sys (xv_handleInput N s)) = rs_buf (xv_sys s)
    \<and> rs_sent (xv_sys (xv_handleInput N s)) = rs_sent (xv_sys s) \<and> xv_alive (xv_handleInput N s) = xv_alive s"
proof -
  have v: "rs_full (xv_sys (xv_vote N s)) = rs_full (xv_sys s) \<and> rs_dead (xv_sys (xv_vote N s)) = rs_dead (xv_sys s)
    \<and> rs_phase (xv_sys (xv_vote N s)) = rs_phase (xv_sys s) \<and> rs_buf (xv_sys (xv_vote N s)) = rs_buf (xv_sys s)
    \<and> rs_sent (xv_sys (xv_vote N s)) = rs_sent (xv_sys s) \<and> xv_alive (xv_vote N s) = xv_alive s" for s
  proof (cases "mostCommonElement same_fingerprint (fingerprints N (xv_sys s))")
    case (Pair r c)
    from xv_vote_sys [OF this] show ?thesis by (simp add: Let_def)
  qed
  show ?thesis by (simp add: xv_handleInput_def v Let_def)
qed

text \<open>A signal, unless the voter gives up.\<close>

lemma undone_voter:
  assumes "xv_voter N i s = Some s'" and "0 < rs_full (xv_sys s) i" and "xv_alive s = N" and "\<not> rs_exit (xv_sys s')"
  shows "voter N BUFFER_LENGTH i (undone (xv_sys s)) = Some (undone (xv_sys s'))"
proof -
  let ?y = "xv_sys s" and ?h = "xv_handleInput N s"
  let ?F = "(rs_full ?y)(i := rs_full ?y i - 1)"
  have go: "\<not> rs_exit ?y" "\<not> rs_dead ?y i" using assms(1) by (auto simp: xv_voter_def Let_def split: if_splits)
  have "s' = ?h \<and> rs_exit (xv_sys ?h) \<or> s' = ?h\<lparr>xv_sys := (xv_sys ?h)\<lparr>rs_full := ?F\<rparr>\<rparr>"
    using assms(1,2) xv_handleInput_frame [of N s] by (auto simp: xv_voter_def Let_def split: if_splits)
  then have s': "xv_sys s' = (xv_sys ?h)\<lparr>rs_full := ?F\<rparr>" using assms(4) by auto
  have "handleInput N BUFFER_LENGTH ((undone ?y)\<lparr>rs_full := ?F\<rparr>) = (handleInput N BUFFER_LENGTH (undone ?y))\<lparr>rs_full := ?F\<rparr>"
    by (rule handleInput_full_frame)
  also have "\<dots> = undone (xv_sys s')"
    using undone_handleInput [OF go(1) assms(3)] by (simp add: s' undone_full)
  finally show ?thesis using assms(2) go by (simp add: voter_def)
qed

section \<open>Agreeing replicas\<close>

text \<open>At a vote, all buffers hold the same block.\<close>

lemma agreed_buffers:
  assumes "agreed N L out y" and "\<not> rs_exit y" and "0 < rs_full y i" and "i < N" and "N \<le> rs_arrivals y + 1" and "j < N"
  shows "rs_buf y j = block L out (rs_votes y)"
proof -
  have ex: "exact N y" and cp: "copied L out y j" and ah: "\<And>j. j < N \<Longrightarrow> ahead y j"
    using assms(1,2,6) by (auto simp: agreed_def replicas_ok_def lockstep_def)
  let ?t = "y\<lparr>rs_full := (rs_full y)(i := rs_full y i - 1)\<rparr>"
  have "(\<Sum>j < N. seen ?t j) = (\<Sum>j < N. seen y j) + 1"
    using sum_seen_step [OF assms(4,3)] ah [OF assms(4)] by (simp add: ahead_def)
  then have "voted N ?t"
    using ex assms(5) ah ahead_sent [OF ah] by (intro all_arrived) (auto simp: exact_def ahead_def intro: order_trans [OF diff_le_self])
  then have "rs_sent y j = rs_votes y + 1" using assms(6) by (simp add: voted_def)
  with vote_blocks [OF cp _ ah [OF assms(6)]] show ?thesis by simp
qed

text \<open>Until the first end is seen: the state of the other voter, and what every reader that is through has left in its buffer.\<close>

definition same_so_far :: "nat \<Rightarrow> byte list \<Rightarrow> xvoter \<Rightarrow> bool" where
  "same_so_far N out s \<longleftrightarrow> no_end N s \<and> \<not> rs_exit (xv_sys s) \<and> agreed N BUFFER_LENGTH out (undone (xv_sys s))
     \<and> (\<forall>i < N. rs_phase (xv_sys s) i = Finished \<or> rs_phase (xv_sys s) i = Done
          \<longrightarrow> rs_buf (xv_sys s) i = block BUFFER_LENGTH out (rs_sent (xv_sys s) i - 1))"

lemma agreed_no_exit:
  assumes "agreed N BUFFER_LENGTH out (undone (xv_sys s))" and "\<not> rs_exit (xv_sys s)" and "0 < rs_full (xv_sys s) i" and "i < N"
    and "2 \<le> N" and "xv_alive s = N"
  shows "\<not> rs_exit (xv_sys (xv_handleInput N s))"
proof (cases "N \<le> rs_arrivals (xv_sys s) + 1")
  case True
  let ?t = "s\<lparr>xv_sys := (xv_sys s)\<lparr>rs_arrivals := 0\<rparr>\<rparr>"
  have "snd (mostCommonElement same_fingerprint (fingerprints N (xv_sys ?t))) = N"
    by (rule agree_count) (use agreed_buffers [OF assms(1) _ _ assms(4)] True assms(2-5) in simp_all)
  then obtain r where "mostCommonElement same_fingerprint (fingerprints N (xv_sys ?t)) = (r, N)" by (metis prod.collapse)
  from xv_vote_sys [OF this] assms(2,5) True show ?thesis by (simp add: xv_handleInput_def assms(6) Let_def)
next
  case False
  with assms(2) show ?thesis by (simp add: xv_handleInput_def assms(6) Let_def)
qed

lemma xv_voter_same:
  assumes "xv_voter N i s = Some s'" and "same_so_far N out s" and "i < N" and "2 \<le> N"
  shows "same_so_far N out s' \<or> rs_dead (xv_sys s') i \<or> rs_exit (xv_sys s')"
proof (cases "0 < rs_full (xv_sys s) i")
  case True
  have a: "agreed N BUFFER_LENGTH out (undone (xv_sys s))" "xv_alive s = N" "\<not> rs_exit (xv_sys s)"
    using assms(2) by (auto simp: same_so_far_def no_end_def)
  note h = xv_handleInput_frame [of N s]
  have "\<not> rs_exit (xv_sys (xv_handleInput N s))" by (rule agreed_no_exit [OF a(1,3) True assms(3,4) a(2)])
  then have s': "s' = (xv_handleInput N s)\<lparr>xv_sys := (xv_sys (xv_handleInput N s))\<lparr>rs_full := (rs_full (xv_sys s))(i := rs_full (xv_sys s) i - 1)\<rparr>\<rparr>"
    and ne: "\<not> rs_exit (xv_sys s')"
    using assms(1) True h by (auto simp: xv_voter_def Let_def split: if_splits)
  have v: "voter N BUFFER_LENGTH i (undone (xv_sys s)) = Some (undone (xv_sys s'))" by (rule undone_voter [OF assms(1) True a(2) ne])
  have "agreed N BUFFER_LENGTH out (undone (xv_sys s'))"
    by (rule voter_agreed [OF v a(1) assms(3,4)]) (simp add: BUFFER_LENGTH_def)
  then show ?thesis using assms(2) s' h ne by (simp add: same_so_far_def no_end_def)
next
  case False
  with xv_handleInput_frame [of N s] assms(1) show ?thesis by (auto simp: xv_voter_def Let_def split: if_splits)
qed

lemma reader_undone:
  assumes "reader L i y = Some y'" and "rs_phase y i \<noteq> Finished"
  shows "reader L i (undone y) = Some (undone y')"
  using assms
  by (auto simp: reader_def undone_def signal_def fun_eq_iff split: rphase.splits list.splits if_splits cong: if_cong)

lemma xv_reader_same:
  assumes "reader BUFFER_LENGTH i (xv_sys s) = Some y" and "same_so_far N out s" and "i < N" and "2 \<le> N"
  shows "same_so_far N out (s\<lparr>xv_sys := y\<rparr>)"
proof -
  let ?y = "xv_sys s"
  have a: "agreed N BUFFER_LENGTH out (undone ?y)" "\<not> rs_exit ?y" "no_end N s" using assms(2) by (auto simp: same_so_far_def)
  have one: "0 < BUFFER_LENGTH" by (simp add: BUFFER_LENGTH_def)
  note e = reader_exit [OF assms(1)]
  show ?thesis
  proof (cases "rs_phase ?y i = Finished")
    case True
    then have y: "y = ?y\<lparr>rs_phase := (rs_phase ?y)(i := Done)\<rparr>" using assms(1) by (simp add: reader_def)
    then have "undone y = undone ?y" using True by (auto simp: undone_def fun_eq_iff cong: if_cong)
    with assms(2) y True show ?thesis by (simp add: same_so_far_def no_end_def)
  next
    case False
    have "rstep N BUFFER_LENGTH (Read i) (undone ?y) = undone y" using reader_undone [OF assms(1) False] assms(3) by (simp add: rstep_def)
    then have ag: "agreed N BUFFER_LENGTH out (undone y)" using rstep_agreed [OF a(1) assms(4) one, of "Read i"] by simp
    have "rs_buf y i = block BUFFER_LENGTH out (rs_sent y i - 1)" if "rs_phase y i = Finished"
    proof -
      have ex: "exact N (undone ?y)" and ah: "ahead (undone ?y) i" and cp: "copied BUFFER_LENGTH out (undone y) i"
        using a(1,2) ag assms(3) by (auto simp: agreed_def replicas_ok_def lockstep_def)
      have r: "rs_phase ?y i = Reading" using assms(1) False that by (auto simp: reader_def signal_def split: rphase.splits list.splits if_splits)
      then have "rs_sent y i = rs_sent ?y i + 1" using assms(1) that by (auto simp: reader_def signal_def split: list.splits if_splits)
      moreover have "rs_votes ?y \<le> rs_sent ?y i" using ah unfolding ahead_def seen_def undone_simps by (meson diff_le_self le_trans)
      ultimately show ?thesis using cp that reader_frame(1) [OF assms(1)] by (simp add: copied_def undone_phase)
    qed
    moreover have "rs_phase y i \<noteq> Done" using assms(1) False by (auto simp: reader_def signal_def split: rphase.splits list.splits if_splits)
    ultimately show ?thesis
      using assms(2) ag a(2,3) e reader_frame(5) [OF assms(1)] unfolding same_so_far_def no_end_def
      by (simp add: all_conj_distrib) metis
  qed
qed

lemma xv_step_same:
  assumes "same_so_far N out s \<or> (\<exists>i < N. rs_dead (xv_sys s) i) \<or> rs_exit (xv_sys s)" and "2 \<le> N"
  shows "same_so_far N out (xv_step N a s) \<or> (\<exists>i < N. rs_dead (xv_sys (xv_step N a s)) i) \<or> rs_exit (xv_sys (xv_step N a s))"
proof (cases "same_so_far N out s")
  case True
  show ?thesis
  proof (cases a)
    case (XRead i)
    with True xv_reader_same [OF _ True _ assms(2)] show ?thesis by (auto simp: xv_step_def split: option.splits)
  next
    case (XVote i)
    show ?thesis
    proof (cases "i < N \<and> xv_voter N i s \<noteq> None")
      case True
      then obtain s' where v: "xv_voter N i s = Some s'" by blast
      from xv_voter_same [OF v \<open>same_so_far N out s\<close> _ assms(2)] True v XVote show ?thesis by (auto simp: xv_step_def)
    next
      case False
      then have "xv_step N a s = s" by (auto simp: xv_step_def XVote)
      with True show ?thesis by simp
    qed
  qed (use True in \<open>simp_all add: xv_step_def requestDump_def dumpCompleted_def same_so_far_def no_end_def\<close>)
next
  case False
  have v: "(rs_dead (xv_sys s) j \<longrightarrow> rs_dead (xv_sys s') j) \<and> (rs_exit (xv_sys s) \<longrightarrow> rs_exit (xv_sys s'))" if "xv_voter N i s = Some s'" for i j s'
    using that xv_handleInput_frame [of N s] by (auto simp: xv_voter_def Let_def split: if_splits)
  have r: "rs_dead y = rs_dead (xv_sys s) \<and> rs_exit y = rs_exit (xv_sys s)" if "reader BUFFER_LENGTH i (xv_sys s) = Some y" for i y
    using reader_exit [OF that] by simp
  show ?thesis using False assms(1) v r
    by (cases a) (fastforce simp: xv_step_def requestDump_def dumpCompleted_def split: option.splits)+
qed

lemma xv_start_same:
  assumes "2 \<le> N"
  shows "same_so_far N out (xv_start N (\<lambda>i. out) junk g)"
proof -
  have "undone (rstart BUFFER_LENGTH (\<lambda>i. out) junk 0) = rstart BUFFER_LENGTH (\<lambda>i. out) junk 0"
    by (simp add: undone_def rstart_def)
  moreover have "agreed N BUFFER_LENGTH out (rrun N BUFFER_LENGTH [] (rstart BUFFER_LENGTH (\<lambda>i. out) junk 0))"
    by (rule rrun_agreed [OF assms]) (simp add: BUFFER_LENGTH_def)
  ultimately have "agreed N BUFFER_LENGTH out (undone (rstart BUFFER_LENGTH (\<lambda>i. out) junk 0))" by (simp add: rrun_def)
  then show ?thesis by (simp add: same_so_far_def no_end_def xv_start_def) (simp add: rstart_def)
qed

lemma xv_run_same:
  assumes "2 \<le> N" and "xv_run N as (xv_start N (\<lambda>i. out) junk g) = s" and "\<And>i. i < N \<Longrightarrow> \<not> rs_dead (xv_sys s) i" and "\<not> rs_exit (xv_sys s)"
  shows "same_so_far N out s"
proof -
  have "same_so_far N out s \<or> (\<exists>i < N. rs_dead (xv_sys s) i) \<or> rs_exit (xv_sys s)"
    if "xv_run N as t = s" "same_so_far N out t \<or> (\<exists>i < N. rs_dead (xv_sys t) i) \<or> rs_exit (xv_sys t)" for t
    using that by (induction as arbitrary: t) (simp_all add: xv_run_Cons xv_step_same [OF _ assms(1)], simp add: xv_run_def)
  from this [OF assms(2)] xv_start_same [OF assms(1)] assms(3,4) show ?thesis by blast
qed

section \<open>The end of the output\<close>

text \<open>When all readers have closed their pipes and no signal is left, everything was voted on and the last byte is in all buffers.\<close>

lemma all_through:
  assumes "same_so_far N out s" and "out \<noteq> []" and "2 \<le> N" and "\<And>i. i < N \<Longrightarrow> rs_phase (xv_sys s) i = Done \<and> rs_full (xv_sys s) i = 0"
  shows "rs_votes (xv_sys s) = length out \<and> rs_arrivals (xv_sys s) = 0 \<and> (\<forall>i < N. rs_buf (xv_sys s) i = [last out])"
proof -
  let ?y = "xv_sys s"
  have sent: "rs_sent ?y i = length out" if "i < N" for i
  proof -
    have "copied BUFFER_LENGTH out (undone ?y) i" using assms(1) that by (auto simp: same_so_far_def agreed_def replicas_ok_def)
    then have c: "rs_count ?y i \<le> 1" "0 < rs_sent ?y i" "rs_sent ?y i - 1 + rs_count ?y i = length out" "1 < rs_sent ?y i \<longrightarrow> 0 < rs_count ?y i"
      using assms(4) [OF that] by (simp_all add: copied_def BUFFER_LENGTH_def undone_phase)
    have "0 < length out" using assms(2) by simp
    with c show ?thesis by linarith
  qed
  have "exact N (undone ?y)" using assms(1) by (auto simp: same_so_far_def agreed_def)
  then have e: "(\<Sum>i < N. seen ?y i) = N * rs_votes ?y + rs_arrivals ?y" "rs_arrivals ?y < N" by (simp_all add: exact_def seen_def)
  have "(\<Sum>i < N. seen ?y i) = (\<Sum>i < N. length out)" by (rule sum.cong) (use sent assms(4) in \<open>simp_all add: seen_def\<close>)
  then have n: "N * length out = N * rs_votes ?y + rs_arrivals ?y" using e(1) by simp
  then have "length out = rs_votes ?y"
    using e(2) by (metis add.right_neutral div_less div_mult_self4 less_nat_zero_code mult.commute not_less_zero nonzero_mult_div_cancel_left)
  moreover from this n have "rs_arrivals ?y = 0" by simp
  moreover have "rs_buf ?y i = [last out]" if "i < N" for i
  proof -
    have "rs_buf ?y i = block BUFFER_LENGTH out (length out - 1)" using assms(1,4) that sent [OF that] by (simp add: same_so_far_def)
    also have "\<dots> = [last out]" using assms(2) by (cases out rule: rev_cases) (simp_all add: block_def BUFFER_LENGTH_def)
    finally show ?thesis .
  qed
  ultimately show ?thesis by simp
qed

text \<open>Handling an end.\<close>

lemma one_end:
  assumes "2 \<le> N" and "i < N" and "\<And>j. j < N \<Longrightarrow> rs_buf (xv_sys s) j = [c]" and "c \<noteq> 0" and "\<not> rs_exit (xv_sys s)"
    and "rs_phase (xv_sys s) i = Done" and "rs_full (xv_sys s) i = 0" and "\<not> rs_dead (xv_sys s) i" and "0 < xv_alive s"
  obtains s' where "xv_step N (XVote i) s = s'" "xv_alive s' = xv_alive s - 1" "rs_buf (xv_sys s') = rs_buf (xv_sys s)"
    "rs_phase (xv_sys s') = rs_phase (xv_sys s)" "rs_full (xv_sys s') = rs_full (xv_sys s)" "\<not> rs_exit (xv_sys s')"
    "rs_dead (xv_sys s') = (rs_dead (xv_sys s))(i := True)"
    "rs_out (xv_sys s') = rs_out (xv_sys s) @ (if xv_alive s \<le> rs_arrivals (xv_sys s) + 1 then [c] else [])"
proof -
  let ?t = "s\<lparr>xv_sys := (xv_sys s)\<lparr>rs_arrivals := 0\<rparr>\<rparr>" and ?h = "xv_handleInput N s"
  have ne: "fingerprints N (xv_sys ?t) \<noteq> []" using assms(1) by (simp add: fingerprints_def)
  have "snd (mostCommonElement same_fingerprint (fingerprints N (xv_sys ?t))) = N"
    by (rule agree_count) (use assms(1,3) in simp_all)
  moreover obtain w where "w < N" "fst (mostCommonElement same_fingerprint (fingerprints N (xv_sys ?t))) = Some (fingerprints N (xv_sys ?t) ! w)"
    using mostCommonElement_first [OF ne, of same_fingerprint] by (auto simp: same_fingerprint_def fingerprints_def simp del: nth_map_upt)
  ultimately have m: "mostCommonElement same_fingerprint (fingerprints N (xv_sys ?t)) = (Some (fingerprints N (xv_sys ?t) ! w), N)" "w < N"
    by (simp_all add: prod_eq_iff)
  have h: "\<not> rs_exit (xv_sys ?h) \<and> rs_out (xv_sys ?h) = rs_out (xv_sys s) @ (if xv_alive s \<le> rs_arrivals (xv_sys s) + 1 then [c] else [])"
    using xv_vote_sys(1) [OF m(1)] assms(1,3-5) m(2) by (simp add: xv_handleInput_def fingerprints_def Let_def)
  have "xv_step N (XVote i) s = ?h\<lparr>xv_sys := (xv_sys ?h)\<lparr>rs_dead := (rs_dead (xv_sys ?h))(i := True)\<rparr>, xv_alive := xv_alive ?h - 1\<rparr>"
    using assms(2,5-9) h xv_handleInput_frame [of N s] by (simp add: xv_step_def xv_voter_def Let_def)
  then show thesis using that h xv_handleInput_frame [of N s] by simp
qed

lemma all_ends:
  assumes "2 \<le> N" and "\<And>j. j < N \<Longrightarrow> rs_buf (xv_sys s) j = [c]" and "c \<noteq> 0" and "\<not> rs_exit (xv_sys s)" and "xv_alive s = length ps" and "distinct ps"
    and "\<And>i. i \<in> set ps \<Longrightarrow> i < N \<and> rs_phase (xv_sys s) i = Done \<and> rs_full (xv_sys s) i = 0 \<and> \<not> rs_dead (xv_sys s) i"
  shows "\<exists>k. rs_out (xv_sys (xv_run N (map XVote ps) s)) = rs_out (xv_sys s) @ replicate k c \<and> (ps \<noteq> [] \<longrightarrow> 0 < k)
    \<and> xv_alive (xv_run N (map XVote ps) s) = 0"
  using assms
proof (induction ps arbitrary: s)
  case (Cons i ps)
  have i: "i < N" "rs_phase (xv_sys s) i = Done" "rs_full (xv_sys s) i = 0" "\<not> rs_dead (xv_sys s) i" "0 < xv_alive s"
    using Cons.prems(5,7) by auto
  obtain s' where s': "xv_step N (XVote i) s = s'" "xv_alive s' = xv_alive s - 1" "rs_buf (xv_sys s') = rs_buf (xv_sys s)"
    "rs_phase (xv_sys s') = rs_phase (xv_sys s)" "rs_full (xv_sys s') = rs_full (xv_sys s)" "\<not> rs_exit (xv_sys s')"
    "rs_dead (xv_sys s') = (rs_dead (xv_sys s))(i := True)"
    "rs_out (xv_sys s') = rs_out (xv_sys s) @ (if xv_alive s \<le> rs_arrivals (xv_sys s) + 1 then [c] else [])"
    by (rule one_end [OF Cons.prems(1) i(1) Cons.prems(2-4) i(2-5)]) 
  have "\<exists>k. rs_out (xv_sys (xv_run N (map XVote ps) s')) = rs_out (xv_sys s') @ replicate k c \<and> (ps \<noteq> [] \<longrightarrow> 0 < k)
    \<and> xv_alive (xv_run N (map XVote ps) s') = 0"
    by (rule Cons.IH [OF Cons.prems(1)]) (use Cons.prems s' in auto)
  then obtain k where k: "rs_out (xv_sys (xv_run N (map XVote ps) s')) = rs_out (xv_sys s') @ replicate k c" "ps \<noteq> [] \<longrightarrow> 0 < k"
    "xv_alive (xv_run N (map XVote ps) s') = 0" by blast
  let ?k = "(if xv_alive s \<le> rs_arrivals (xv_sys s) + 1 then 1 else 0) + k"
  have "0 < ?k" using k(2) Cons.prems(5) by (cases "ps = []") auto
  moreover have "rs_out (xv_sys (xv_run N (map XVote (i # ps)) s)) = rs_out (xv_sys s) @ replicate ?k c"
    using k(1) s'(1,8) by (simp add: xv_run_Cons)
  ultimately show ?case using k(3) s'(1) by (intro exI [of _ ?k]) (simp add: xv_run_Cons)
qed (simp add: xv_run_def)

section \<open>Properties\<close>


text \<open>Two replicas write two bytes; every signal is voted on.\<close>

definition xdemo_schedule :: "xaction list" where
  "xdemo_schedule = map XRead [0, 0, 1, 1] @ map XVote [1, 0] @ map XRead [0, 1, 0, 1] @ map XVote [0, 1] @ map XRead [0, 1]"

definition xdemo :: "xaction list \<Rightarrow> xvoter" where
  "xdemo as = xv_run 2 as (xv_start 2 (\<lambda>i. [65, 66]) (\<lambda>i. []) (Marsaglia 1 1))"

lemma xdemo_run:
  "list_all (\<lambda>i. \<not> rs_dead (xv_sys (xdemo xdemo_schedule)) i \<and> rs_full (xv_sys (xdemo xdemo_schedule)) i = 0) [0..<2]"
  "\<not> rs_exit (xv_sys (xdemo xdemo_schedule))" "rs_votes (xv_sys (xdemo xdemo_schedule)) = 2"
  "map (rs_phase (xv_sys (xdemo xdemo_schedule))) [0, 1] = [Done, Done]"
  by code_simp+


text \<open>C32: The Exterminator prints the last byte again.  When all replicas have written the same output and every byte has been voted on,
  the voter has printed exactly that output; but it counts the end of a pipe as an arrival before it looks, so that
  when the ends of the replicas are handled, in whatever order, it takes at least one more vote on the old buffers
  and appends the last byte again, before it ends.\<close>

theorem ends_repeat_last_byte:
  assumes "2 \<le> N" and "xv_run N as (xv_start N (\<lambda>i. xs @ [c]) junk g) = s" and "c \<noteq> 0" and "\<not> rs_exit (xv_sys s)"
    and "\<forall>i < N. rs_phase (xv_sys s) i = Done \<and> rs_full (xv_sys s) i = 0 \<and> \<not> rs_dead (xv_sys s) i"
    and "distinct ps" and "set ps = {..<N}"
  shows "rs_out (xv_sys s) = filter (\<lambda>c. c \<noteq> 0) xs @ [c]
    \<and> (\<exists>k \<ge> 1. rs_out (xv_sys (xv_run N (as @ map XVote ps) (xv_start N (\<lambda>i. xs @ [c]) junk g))) = filter (\<lambda>c. c \<noteq> 0) xs @ [c] @ replicate k c)
    \<and> xv_alive (xv_run N (as @ map XVote ps) (xv_start N (\<lambda>i. xs @ [c]) junk g)) = 0"
proof -
  have same: "same_so_far N (xs @ [c]) s" by (rule xv_run_same [OF assms(1,2)]) (use assms(4,5) in simp_all)
  then have al: "xv_alive s = N" by (simp add: same_so_far_def no_end_def)
  from all_through [OF same _ assms(1)] assms(5)
  have v: "rs_votes (xv_sys s) = length (xs @ [c])" "\<And>i. i < N \<Longrightarrow> rs_buf (xv_sys s) i = [c]" by auto
  have "rs_out (xv_sys s) = filter (\<lambda>c. c \<noteq> 0) (take (rs_votes (xv_sys s)) (xs @ [c]))"
    using same by (simp add: same_so_far_def agreed_def BUFFER_LENGTH_def)
  then have o: "rs_out (xv_sys s) = filter (\<lambda>c. c \<noteq> 0) xs @ [c]" using v(1) assms(3) by simp
  have "length ps = N" using assms(6,7) by (metis card_lessThan distinct_card)
  then obtain k where "rs_out (xv_sys (xv_run N (map XVote ps) s)) = rs_out (xv_sys s) @ replicate k c" "ps \<noteq> [] \<longrightarrow> 0 < k"
    "xv_alive (xv_run N (map XVote ps) s) = 0"
    using all_ends [OF assms(1) v(2) assms(3,4), of ps] al assms(5-7) by auto
  moreover have "ps \<noteq> []" using \<open>length ps = N\<close> assms(1) by auto
  ultimately show ?thesis using o assms(2) by (auto simp: xv_run_append Suc_le_eq)
qed

theorem ends_repeat_last_byte_witness:
  "\<exists>k \<ge> 1. rs_out (xv_sys (xdemo (xdemo_schedule @ map XVote [1, 0]))) = [65, 66] @ replicate k 66"
proof -
  have d: "xv_run 2 xdemo_schedule (xv_start 2 (\<lambda>i. [65] @ [66]) (\<lambda>i. []) (Marsaglia 1 1)) = xdemo xdemo_schedule" by (simp add: xdemo_def)
  have "i = 0 \<or> i = 1" if "i < 2" for i :: nat using that by linarith
  then have "\<forall>i < 2. rs_phase (xv_sys (xdemo xdemo_schedule)) i = Done \<and> rs_full (xv_sys (xdemo xdemo_schedule)) i = 0 \<and> \<not> rs_dead (xv_sys (xdemo xdemo_schedule)) i"
    using xdemo_run(1,4) by (auto simp: list_all_iff)
  moreover have "set [1, 0] = {..<2 :: nat}" by auto
  ultimately show ?thesis
    using ends_repeat_last_byte [OF _ d _ xdemo_run(2), of "[1, 0]"] by (simp add: xdemo_def)
qed

text \<open>Replicas that agree, but end at different times.  Of two, the first ends before the other has written its byte: the voter takes a vote
  on a byte and a buffer not yet filled, and gives up.  Of five, two end before the others have written the second byte: the first byte
  wins again.\<close>

lemma early_end_stops_voter:
  "let s = xv_run 2 (map XRead [0, 0, 0] @ map XVote [0, 0]) (xv_start 2 (\<lambda>i. [65]) (\<lambda>i. []) (Marsaglia 1 1))
   in rs_exit (xv_sys s) \<and> rs_out (xv_sys s) = []"
  by code_simp

definition fast_two :: "xaction list" where
  "fast_two = map XRead [0, 0, 1, 1, 2, 2, 3, 3, 4, 4] @ map XVote [0, 1, 2, 3, 4] @ map XRead [0, 0, 0, 1, 1, 1] @ map XVote [0, 0, 1, 1]"

lemma early_ends_print_stale_byte:
  "rs_out (xv_sys (xv_run 5 fast_two (xv_start 5 (\<lambda>i. [65, 66]) (\<lambda>i. []) (Marsaglia 1 1)))) = [65, 65]"
  by code_simp

end
