(* ===== verification/HeapShield.thy ===== *)
theory HeapShield
  imports Memory "HOL-Library.Monad_Syntax"
begin

text \<open>
  The checked replacements of the C string functions (\<open>src/source/heapshield.cpp\<close>): each asks the allocator how
  many bytes lie between the destination and the end of its object and cuts the copy to them.  Parameters:
  \<open>onStack\<close> (the comparison with the address of a local variable), \<open>usable\<close> (\<open>malloc_usable_size\<close>, \<open>2 ^ 64 - 1\<close>
  for an address that is not the allocator's), \<open>lus\<close> and \<open>lmalloc\<close> (\<open>local_usable_size\<close> and \<open>local_malloc\<close>, which
  the file uses and nothing in the repository defines).  A scan for the end of a string is a partial function.
  Formatted output is given by its text, a stream by the bytes left in it.
\<close>

abbreviation not_ours :: nat where "not_ours \<equiv> 2 ^ 64 - 1"

section \<open>The C library\<close>

partial_function (option) strlen :: "mem \<Rightarrow> addr \<Rightarrow> nat option" where
  "strlen m p = (if m p = 0 then Some 0 else do { n \<leftarrow> strlen m (p + 1); Some (n + 1) })"

definition c_memcpy :: "addr \<Rightarrow> addr \<Rightarrow> nat \<Rightarrow> mem \<Rightarrow> mem" where
  "c_memcpy dest src n m = (\<lambda>x. if dest \<le> x \<and> x < dest + n then m (src + (x - dest)) else m x)"

text \<open>At most \<open>n\<close> characters of the string and a zero byte.\<close>

fun append_chars :: "nat \<Rightarrow> addr \<Rightarrow> addr \<Rightarrow> mem \<Rightarrow> mem" where
  "append_chars 0 d s m = m(d := 0)"
| "append_chars (Suc n) d s m = (if m s = 0 then m(d := 0) else append_chars n (d + 1) (s + 1) (m(d := m s)))"

definition c_strncat :: "addr \<Rightarrow> addr \<Rightarrow> nat \<Rightarrow> mem \<Rightarrow> mem option" where
  "c_strncat dest src n m = do { d \<leftarrow> strlen m dest; Some (append_chars n (dest + d) src m) }"

definition c_strcat :: "addr \<Rightarrow> addr \<Rightarrow> mem \<Rightarrow> mem option" where
  "c_strcat dest src m = do { n \<leftarrow> strlen m src; c_strncat dest src n m }"

definition put_bytes :: "addr \<Rightarrow> byte list \<Rightarrow> mem \<Rightarrow> mem" where
  "put_bytes p bs m = (\<lambda>x. if p \<le> x \<and> x < p + length bs then bs ! (x - p) else m x)"

definition c_vsnprintf :: "addr \<Rightarrow> nat \<Rightarrow> byte list \<Rightarrow> mem \<Rightarrow> nat \<times> mem" where
  "c_vsnprintf str n txt m = (length txt, if n = 0 then m else put_bytes str (take (n - 1) txt @ [0]) m)"

definition c_vsprintf :: "addr \<Rightarrow> byte list \<Rightarrow> mem \<Rightarrow> nat \<times> mem" where
  "c_vsprintf str txt m = (length txt, put_bytes str (txt @ [0]) m)"

text \<open>The number of complete items read, the rest of the stream and the memory.\<close>

definition c_fread :: "addr \<Rightarrow> nat \<Rightarrow> nat \<Rightarrow> byte list \<Rightarrow> mem \<Rightarrow> nat \<times> byte list \<times> mem" where
  "c_fread p sz nmemb stream m =
     (let bs = take (sz * nmemb) stream in (if sz = 0 then 0 else length bs div sz, drop (sz * nmemb) stream, put_bytes p bs m))"

text \<open>A line with its end, cut to \<open>n - 1\<close> characters; the null pointer at the end of the stream.\<close>

definition c_fgets :: "addr \<Rightarrow> int \<Rightarrow> byte list \<Rightarrow> mem \<Rightarrow> addr \<times> byte list \<times> mem" where
  "c_fgets p n stream m =
     (if n \<le> 0 \<or> stream = [] then (0, stream, m)
      else let line = takeWhile (\<lambda>c. c \<noteq> 10) stream; bs = take (nat n - 1) (take (length line + 1) stream)
           in (p, drop (length bs) stream, put_bytes p (bs @ [0]) m))"

section \<open>Local copies\<close>

text \<open>The length is an \<open>int\<close>, and so converted for the comparison and back.\<close>

definition local_strlen :: "(addr \<Rightarrow> bool) \<Rightarrow> (addr \<Rightarrow> nat) \<Rightarrow> addr \<Rightarrow> mem \<Rightarrow> nat option" where
  "local_strlen onStack lus str m = do {
     len \<leftarrow> strlen m str;
     let len = uint (word_of_int (sint (word_of_nat len :: u32)) :: u64);
         maxLen = (if onStack str then 2 ^ 32 - 1 else int (lus str))
     in Some (unat (word_of_int (sint (word_of_int (if len > maxLen then maxLen else len) :: u32)) :: u64)) }"

definition local_strcat :: "(addr \<Rightarrow> bool) \<Rightarrow> (addr \<Rightarrow> nat) \<Rightarrow> addr \<Rightarrow> addr \<Rightarrow> mem \<Rightarrow> mem option" where
  "local_strcat onStack lus dest src m = do {
     d \<leftarrow> local_strlen onStack lus dest m; s \<leftarrow> local_strlen onStack lus src m;
     Some (fold (\<lambda>i m. m(dest + d + i := m (src + i))) [0..<s + 1] m) }"

definition local_strncat :: "(addr \<Rightarrow> bool) \<Rightarrow> (addr \<Rightarrow> nat) \<Rightarrow> addr \<Rightarrow> addr \<Rightarrow> nat \<Rightarrow> mem \<Rightarrow> mem option" where
  "local_strncat onStack lus dest src sz m = do {
     d \<leftarrow> local_strlen onStack lus dest m; s \<leftarrow> local_strlen onStack lus src m;
     let n = min (s + 1) sz; m = fold (\<lambda>i m. m(dest + d + i := m (src + i))) [0..<n] m
     in Some (m(dest + d + n := 0)) }"

text \<open>The loop of \<open>local_strncpy\<close>: where the destination pointer ends, and the memory.\<close>

fun copy_chars :: "nat \<Rightarrow> addr \<Rightarrow> addr \<Rightarrow> mem \<Rightarrow> addr \<times> mem" where
  "copy_chars 0 dptr sptr m = (dptr, m)"
| "copy_chars (Suc n) dptr sptr m =
     (if m sptr = 0 then (dptr + 1, m(dptr := 0)) else copy_chars n (dptr + 1) (sptr + 1) (m(dptr := m sptr)))"

definition local_strncpy :: "(addr \<Rightarrow> nat) \<Rightarrow> addr \<Rightarrow> addr \<Rightarrow> nat \<Rightarrow> mem \<Rightarrow> mem" where
  "local_strncpy lus dest src n m =
     (let destLength = sint (word_of_nat (lus dest) - 1 :: u32);
          bound = unat (word_of_int destLength :: u64);
          lengthToCopy = unat (word_of_nat (if n < bound then n else bound) :: u32);
          (dptr, m) = copy_chars lengthToCopy dest src m
      in m(dptr := 0))"

definition local_strcpy :: "(addr \<Rightarrow> nat) \<Rightarrow> addr \<Rightarrow> addr \<Rightarrow> mem \<Rightarrow> mem" where
  "local_strcpy lus dest src m = local_strncpy lus dest src (2 ^ 31 - 1) m"

definition local_strdup :: "(addr \<Rightarrow> bool) \<Rightarrow> (addr \<Rightarrow> nat) \<Rightarrow> (nat \<Rightarrow> addr) \<Rightarrow> addr \<Rightarrow> mem \<Rightarrow> (addr \<times> mem) option" where
  "local_strdup onStack lus lmalloc s m = do {
     len \<leftarrow> local_strlen onStack lus s m;
     let n = lmalloc (len + 1) in Some (n, if n \<noteq> 0 then local_strncpy lus n s len m else m) }"

section \<open>Replacements\<close>

definition sh_fread :: "(addr \<Rightarrow> nat) \<Rightarrow> addr \<Rightarrow> nat \<Rightarrow> nat \<Rightarrow> byte list \<Rightarrow> mem \<Rightarrow> nat \<times> byte list \<times> mem" where
  "sh_fread usable ptr sz nmemb stream m =
     (let room = usable ptr
      in if room = not_ours then c_fread ptr sz nmemb stream m
         else let total = sz * nmemb mod 2 ^ 64 in c_fread ptr 1 (if total < room then total else room) stream m)"

definition sh_memcpy :: "(addr \<Rightarrow> bool) \<Rightarrow> (addr \<Rightarrow> nat) \<Rightarrow> addr \<Rightarrow> addr \<Rightarrow> nat \<Rightarrow> mem \<Rightarrow> mem" where
  "sh_memcpy onStack usable dest src n m =
     (let sz = (if onStack dest then n
                else let sz = usable dest in if sz = not_ours then n else if n < sz then n else sz)
      in c_memcpy dest src sz m)"

definition sh_sprintf :: "(addr \<Rightarrow> bool) \<Rightarrow> (addr \<Rightarrow> nat) \<Rightarrow> addr \<Rightarrow> byte list \<Rightarrow> mem \<Rightarrow> nat \<times> mem" where
  "sh_sprintf onStack usable str txt m =
     (if onStack str then c_vsprintf str txt m
      else let sz = usable str in if sz = not_ours then c_vsprintf str txt m else c_vsnprintf str sz txt m)"

definition sh_snprintf :: "(addr \<Rightarrow> bool) \<Rightarrow> (addr \<Rightarrow> nat) \<Rightarrow> addr \<Rightarrow> nat \<Rightarrow> byte list \<Rightarrow> mem \<Rightarrow> nat \<times> mem" where
  "sh_snprintf onStack usable str n txt m =
     (if onStack str then c_vsnprintf str n txt m
      else let sz = usable str in if sz = not_ours then c_vsnprintf str n txt m else c_vsnprintf str (if n < sz then n else sz) txt m)"

definition sh_gets :: "(addr \<Rightarrow> bool) \<Rightarrow> (addr \<Rightarrow> nat) \<Rightarrow> addr \<Rightarrow> byte list \<Rightarrow> mem \<Rightarrow> addr \<times> byte list \<times> mem" where
  "sh_gets onStack usable s stream m =
     (let sz = (if onStack s then 2 ^ 31 - 1 else usable s) in c_fgets s (sint (word_of_nat sz :: u32)) stream m)"

definition sh_strcpy :: "(addr \<Rightarrow> bool) \<Rightarrow> (addr \<Rightarrow> nat) \<Rightarrow> (addr \<Rightarrow> nat) \<Rightarrow> addr \<Rightarrow> addr \<Rightarrow> mem \<Rightarrow> mem" where
  "sh_strcpy onStack usable lus dest src m =
     (if onStack dest then local_strcpy lus dest src m
      else let sz = usable dest in if sz = not_ours then local_strcpy lus dest src m else local_strncpy lus dest src sz m)"

definition sh_strncpy :: "(addr \<Rightarrow> bool) \<Rightarrow> (addr \<Rightarrow> nat) \<Rightarrow> (addr \<Rightarrow> nat) \<Rightarrow> addr \<Rightarrow> addr \<Rightarrow> nat \<Rightarrow> mem \<Rightarrow> mem" where
  "sh_strncpy onStack usable lus dest src n m =
     (if onStack dest then local_strncpy lus dest src n m
      else let sz = usable dest
           in if sz = not_ours then local_strncpy lus dest src n m else local_strncpy lus dest src (if n < sz then n else sz) m)"

definition sh_strcat :: "(addr \<Rightarrow> bool) \<Rightarrow> (addr \<Rightarrow> nat) \<Rightarrow> addr \<Rightarrow> addr \<Rightarrow> mem \<Rightarrow> mem option" where
  "sh_strcat onStack usable dest src m =
     (if onStack dest then c_strcat dest src m
      else do {
        d \<leftarrow> strlen m dest;
        let sz = usable (dest + d) in if sz = not_ours then c_strcat dest src m else c_strncat dest src sz m })"

definition sh_strncat :: "(addr \<Rightarrow> bool) \<Rightarrow> (addr \<Rightarrow> nat) \<Rightarrow> addr \<Rightarrow> addr \<Rightarrow> nat \<Rightarrow> mem \<Rightarrow> mem option" where
  "sh_strncat onStack usable dest src n m =
     (if onStack dest then c_strncat dest src n m
      else do {
        d \<leftarrow> strlen m dest;
        let sz = usable (dest + d)
        in if sz = not_ours then c_strncat dest src n m
           else c_strncat dest src (if n < sub64 sz 1 then n else sub64 sz 1) m })"

section \<open>Strings\<close>

lemma strlen_SomeD: "strlen m p = Some n \<Longrightarrow> (\<forall>i < n. m (p + i) \<noteq> 0) \<and> m (p + n) = 0"
proof (induction n arbitrary: p)
  case 0
  then show ?case by (subst (asm) strlen.simps) (auto simp: bind_eq_Some_conv split: if_splits)
next
  case (Suc n)
  then have "m p \<noteq> 0" "strlen m (p + 1) = Some n"
    by (subst (asm) (2) strlen.simps; auto simp: bind_eq_Some_conv split: if_splits)+
  with Suc.IH [of "p + 1"] show ?case by (auto simp: less_Suc_eq_0_disj)
qed

lemma strlen_SomeI: "(\<And>i. i < n \<Longrightarrow> m (p + i) \<noteq> 0) \<Longrightarrow> m (p + n) = 0 \<Longrightarrow> strlen m p = Some n"
proof (induction n arbitrary: p)
  case 0
  then show ?case by (subst strlen.simps) simp
next
  case (Suc n)
  have "strlen m (p + 1) = Some n" 
  proof (rule Suc.IH)
    fix i assume "i < n"
    then show "m (p + 1 + i) \<noteq> 0" using Suc.prems(1) [of "Suc i"] by simp
  qed (use Suc.prems(2) in simp)
  moreover have "m p \<noteq> 0" using Suc.prems(1) [of 0] by simp
  ultimately show ?case by (subst strlen.simps) simp
qed

text \<open>Only the bytes from \<open>a\<close> to \<open>b\<close>, exclusive, may change.\<close>

definition writes_within :: "addr \<Rightarrow> addr \<Rightarrow> mem \<Rightarrow> mem \<Rightarrow> bool" where
  "writes_within a b m m' \<longleftrightarrow> (\<forall>x. x < a \<or> b \<le> x \<longrightarrow> m' x = m x)"

lemma copy_chars_within:
  "copy_chars n d s m = (d', m') \<Longrightarrow> d \<le> d' \<and> d' \<le> d + n \<and> writes_within d (d + n) m m'"
proof (induction n arbitrary: d s m)
  case (Suc n)
  show ?case
  proof (cases "m s = 0")
    case True
    with Suc.prems show ?thesis by (auto simp: writes_within_def)
  next
    case False
    with Suc.prems have "copy_chars n (d + 1) (s + 1) (m(d := m s)) = (d', m')" by simp
    from Suc.IH [OF this] show ?thesis by (auto simp: writes_within_def)
  qed
qed (simp add: writes_within_def)

text \<open>The string is copied up to its end or to \<open>n\<close> characters.\<close>

lemma copy_chars_string:
  assumes "copy_chars n d s m = (d', m')" and "\<forall>i < l. m (s + i) \<noteq> 0" and "m (s + l) = 0" and "s + l < d \<or> d + n < s"
  shows "(\<forall>i < min l n. m' (d + i) = m (s + i)) \<and> (l < n \<longrightarrow> m' (d + l) = 0) \<and> (n \<le> l \<longrightarrow> d' = d + n)"
  using assms
proof (induction n arbitrary: d s m l)
  case (Suc n)
  show ?case
  proof (cases l)
    case 0
    with Suc.prems show ?thesis by auto
  next
    case (Suc k)
    let ?m = "m(d := m s)"
    have nz: "m s \<noteq> 0" using Suc.prems(2) Suc by (metis add.right_neutral zero_less_Suc)
    have r: "copy_chars n (d + 1) (s + 1) ?m = (d', m')" using Suc.prems(1) nz by simp
    have u: "\<forall>i < k. ?m (s + 1 + i) \<noteq> 0" "?m (s + 1 + k) = 0" "s + 1 + k < d + 1 \<or> d + 1 + n < s + 1"
      using Suc.prems(2-4) Suc by auto
    have e: "m' (d + 1 + i) = m (s + 1 + i)" if "i < min k n" for i
      using Suc.IH [OF r u] that Suc.prems(4) Suc by auto
    have z: "m' d = m s" using copy_chars_within [OF r] by (simp add: writes_within_def)
    have "m' (d + i) = m (s + i)" if "i < min l (Suc n)" for i
      using e [of "i - 1"] z that Suc by (cases i) auto
    with Suc.IH [OF r u] Suc show ?thesis by auto
  qed
qed auto

lemma copy_chars_string_end:
  assumes "copy_chars n d s m = (d', m')" and "\<forall>i < l. m (s + i) \<noteq> 0" and "s + l < d \<or> d + n < s"
  shows "d + min l n \<le> d'"
  using assms
proof (induction n arbitrary: d s m l)
  case (Suc n)
  show ?case
  proof (cases l)
    case (Suc k)
    have nz: "m s \<noteq> 0" using Suc.prems(2) Suc by (metis add.right_neutral zero_less_Suc)
    have r: "copy_chars n (d + 1) (s + 1) (m(d := m s)) = (d', m')" using Suc.prems(1) nz by simp
    have "\<forall>i < k. (m(d := m s)) (s + 1 + i) \<noteq> 0" "s + 1 + k < d + 1 \<or> d + 1 + n < s + 1" using Suc.prems(2,3) Suc by auto
    from Suc.IH [OF r this] Suc show ?thesis by simp
  next
    case 0
    with copy_chars_within [OF Suc.prems(1)] show ?thesis by simp
  qed
qed simp

lemma local_count:
  assumes "0 < lus dest" and "lus dest < 2 ^ 31"
  shows "local_strncpy lus dest src n m = (let (dptr, m) = copy_chars (min n (lus dest - 1)) dest src m in m(dptr := 0))"
proof -
  have u: "uint (word_of_nat (lus dest - 1) :: u32) = int (lus dest - 1)"
    using assms by (simp add: unsigned_of_nat take_bit_nat_eq_self uint_nat del: of_nat_diff)
  have e: "word_of_nat (lus dest) - 1 = (word_of_nat (lus dest - 1) :: u32)" using assms(1) by (simp add: of_nat_diff)
  have "signed_take_bit 31 (int (lus dest - 1)) = int (lus dest - 1)"
    by (rule signed_take_bit_int_eq_self) (use assms(2) in simp_all)
  then have s: "sint (word_of_nat (lus dest) - 1 :: u32) = int (lus dest - 1)" unfolding e by (simp only: sint_uint u) simp
  have b: "unat (word_of_int (int (lus dest - 1)) :: u64) = lus dest - 1"
    using assms(2) by (simp add: unsigned_of_nat take_bit_nat_eq_self del: of_nat_diff)
  have c: "unat (word_of_nat (min n (lus dest - 1)) :: u32) = min n (lus dest - 1)"
    using assms(2) by (simp add: unsigned_of_nat take_bit_nat_eq_self)
  have "(if n < lus dest - 1 then n else lus dest - 1) = min n (lus dest - 1)" by simp
  with b c show ?thesis unfolding local_strncpy_def Let_def s by (simp only:)
qed

lemma local_strncpy_within:
  assumes "0 < lus dest" and "lus dest < 2 ^ 31"
  shows "writes_within dest (dest + lus dest) m (local_strncpy lus dest src n m)"
proof -
  obtain d' m' where c: "copy_chars (min n (lus dest - 1)) dest src m = (d', m')" by (metis surj_pair)
  from copy_chars_within [OF c] show ?thesis
    unfolding local_count [of lus dest, OF assms] c Let_def prod.case writes_within_def using assms(1) by auto
qed

lemma append_chars_within: "writes_within d (d + n + 1) m (append_chars n d s m)"
proof (induction n arbitrary: d s m)
  case (Suc n)
  let ?m = "m(d := m s)"
  have IH: "append_chars n (d + 1) (s + 1) ?m x = ?m x" if "x < d + 1 \<or> d + 1 + n + 1 \<le> x" for x
    using Suc [where d = "d + 1" and s = "s + 1" and m = ?m] that unfolding writes_within_def by blast
  have "append_chars (Suc n) d s m x = m x" if x: "x < d \<or> d + Suc n + 1 \<le> x" for x
    using IH [of x] x by (cases "m s = 0") auto
  then show ?case unfolding writes_within_def by blast
qed (simp add: writes_within_def)

lemma put_bytes_within: "length bs \<le> n \<Longrightarrow> writes_within p (p + n) m (put_bytes p bs m)"
  by (auto simp: writes_within_def put_bytes_def)

lemma writes_within_mono: "writes_within a b m m' \<Longrightarrow> b \<le> c \<Longrightarrow> writes_within a c m m'"
  by (auto simp: writes_within_def)

lemma c_memcpy_within: "n \<le> k \<Longrightarrow> writes_within dest (dest + k) m (c_memcpy dest src n m)"
  by (auto simp: writes_within_def c_memcpy_def)

section \<open>Properties\<close>


definition demo_usable :: "addr \<Rightarrow> nat" where
  "demo_usable p = (if 1000 \<le> p \<and> p < 1008 then 1008 - p else not_ours)"

definition demo_memory :: mem where
  "demo_memory = (\<lambda>x. 0)(1000 := 65, 2000 := 97, 2001 := 98, 2002 := 99, 2003 := 100, 2004 := 101, 2005 := 102, 2006 := 103, 2007 := 104, 2008 := 105)"

lemma demo_strings: "strlen demo_memory 1000 = Some 1" "strlen demo_memory 2000 = Some 9"
  by (simp_all add: strlen.simps demo_memory_def)


text \<open>\<open>strcpy\<close> into an object of the heap copies the string, or as much of it as the object has room for with the zero byte
  that always ends it.\<close>

theorem shield_strcpy_copies:
  assumes "\<not> onStack dest" and "usable dest = room" and "lus dest = room" and "0 < room" and "room < 2 ^ 31"
    and "strlen m src = Some l" and "src + l < dest \<or> dest + room \<le> src"
    and "m' = sh_strcpy onStack usable lus dest src m"
  shows "strlen m' dest = Some (min l (room - 1)) \<and> (\<forall>i < min l (room - 1). m' (dest + i) = m (src + i))"
proof -
  obtain d' m1 where c: "copy_chars (min room (room - 1)) dest src m = (d', m1)" by (metis surj_pair)
  have lp: "0 < lus dest" "lus dest < 2 ^ 31" using assms(3-5) by simp_all
  have m': "m' = m1(d' := 0)"
    using assms(1-3,5,8) c local_count [of lus dest src room m, OF lp] by (simp add: sh_strcpy_def Let_def)
  note l = strlen_SomeD [OF assms(6)]
  have k: "min room (room - 1) = room - 1" by simp
  have s: "(\<forall>i < min l (room - 1). m1 (dest + i) = m (src + i)) \<and> (l < room - 1 \<longrightarrow> m1 (dest + l) = 0) \<and> (room - 1 \<le> l \<longrightarrow> d' = dest + (room - 1))"
    using copy_chars_string [OF c] l assms(4,7) unfolding k by auto
  have "src + l < dest \<or> dest + (room - 1) < src" using assms(4,7) by linarith
  then have d': "dest + min l (room - 1) \<le> d'"
    using copy_chars_string_end [OF c [unfolded k] conjunct1 [OF l]] by blast
  have "m' (dest + i) = m (src + i)" if "i < min l (room - 1)" for i using s d' that m' by auto
  moreover have "m' (dest + min l (room - 1)) = 0" using s m' by (cases "l < room - 1") auto
  ultimately show ?thesis using l by (auto intro!: strlen_SomeI)
qed

lemma shield_strcpy_copies_witness:
  "strlen (sh_strcpy (\<lambda>p. False) demo_usable (\<lambda>p. 8) 1000 2000 demo_memory) 1000 = Some 7
   \<and> sh_strcpy (\<lambda>p. False) demo_usable (\<lambda>p. 8) 1000 2000 demo_memory 1006 = 103"
proof -
  note c = shield_strcpy_copies [of "\<lambda>p. False" 1000 demo_usable 8 "\<lambda>p. 8" demo_memory 2000 9, OF _ _ _ _ _ demo_strings(2) _ refl]
  have b: "6 < min 9 (8 - 1 :: nat)" by simp
  have "sh_strcpy (\<lambda>p. False) demo_usable (\<lambda>p. 8) 1000 2000 demo_memory (1000 + 6) = demo_memory (2000 + 6)"
    by (rule conjunct2 [OF c, rule_format, OF _ _ _ _ _ _ b]) (simp_all add: demo_usable_def)
  moreover have "demo_memory (2000 + 6) = 103" by (simp add: demo_memory_def)
  ultimately show ?thesis using c by (simp add: demo_usable_def)
qed

lemma append_chars_end:
  "(\<forall>i < n. m (s + i) \<noteq> 0) \<Longrightarrow> s + n \<le> d \<or> d + n < s \<Longrightarrow> append_chars n d s m (d + n) = 0"
proof (induction n arbitrary: d s m)
  case (Suc n)
  have nz: "m s \<noteq> 0" using Suc.prems(1) by (metis add.right_neutral zero_less_Suc)
  have "append_chars n (d + 1) (s + 1) (m(d := m s)) (d + 1 + n) = 0"
    by (rule Suc.IH) (use Suc.prems in auto)
  with nz show ?case by simp
qed simp

text \<open>C34: Three replacements break the contract of the function they replace.  When the string does not fit, \<open>strcat\<close> asks for as many characters as there is
  room and so puts the zero byte behind the object; \<open>strncpy\<close> with a count below the room writes a zero byte behind the
  characters it was to copy; and \<open>fread\<close>, asked for items of several bytes, answers with the number of bytes.\<close>

theorem shield_breaks_contracts:
  assumes "\<not> onStack dest" and "strlen m dest = Some d" and "strlen m src = Some l" and "usable dest = room" and "lus dest = room"
    and "usable (dest + d) = room - d" and "d < room" and "room < 2 ^ 31" and "room - d \<le> l" and "n < room" and "n \<le> l"
    and "src + l < dest \<or> dest + room < src" and "sz * nmemb \<le> room" and "sz * nmemb \<le> length stream"
  shows "(\<exists>m'. sh_strcat onStack usable dest src m = Some m' \<and> m' (dest + room) = 0)
    \<and> sh_strncpy onStack usable lus dest src n m (dest + n) = 0
    \<and> fst (sh_fread usable dest sz nmemb stream m) = sz * nmemb"
proof -
  note l = strlen_SomeD [OF assms(3)]
  have ours: "usable dest \<noteq> not_ours" "usable (dest + d) \<noteq> not_ours" using assms(4,6,8) by auto
  have "append_chars (room - d) (dest + d) src m (dest + d + (room - d)) = 0"
    by (rule append_chars_end) (use l assms(7,9,12) in auto)
  then have "sh_strcat onStack usable dest src m = Some (append_chars (room - d) (dest + d) src m) \<and> append_chars (room - d) (dest + d) src m (dest + room) = 0"
    using assms(1,2,6,7) ours(2) by (simp add: sh_strcat_def c_strncat_def Let_def)
  moreover have "sh_strncpy onStack usable lus dest src n m (dest + n) = 0"
  proof -
    have lp: "0 < lus dest" "lus dest < 2 ^ 31" using assms(5,7,8) by simp_all
    have k: "min n (lus dest - 1) = n" using assms(5,10) by simp
    obtain d' m1 where c: "copy_chars n dest src m = (d', m1)" by (metis surj_pair)
    have e: "sh_strncpy onStack usable lus dest src n m = m1(d' := 0)"
      using assms(1,4,10) ours(1) c local_count [of lus dest src n m, OF lp] unfolding k by (simp add: sh_strncpy_def Let_def)
    have "src + l < dest \<or> dest + n < src" using assms(10,12) by linarith
    then have "dest + min l n \<le> d'" using copy_chars_string_end [OF c conjunct1 [OF l]] by blast
    then have "d' = dest + n" using copy_chars_within [OF c] assms(11) by simp
    with e show ?thesis by simp
  qed
  moreover have "fst (sh_fread usable dest sz nmemb stream m) = sz * nmemb"
    using ours(1) assms(4,8,13,14) by (auto simp: sh_fread_def c_fread_def Let_def)
  ultimately show ?thesis by blast
qed

lemma shield_breaks_contracts_witness:
  "(\<exists>m'. sh_strcat (\<lambda>p. False) demo_usable 1000 2000 demo_memory = Some m' \<and> m' 1008 = 0)
   \<and> sh_strncpy (\<lambda>p. False) demo_usable (\<lambda>p. 8) 1000 2000 3 demo_memory 1003 = 0
   \<and> fst (sh_fread demo_usable 1000 4 2 (replicate 8 7) demo_memory) = 8"
  using shield_breaks_contracts [of "\<lambda>p. False" 1000 demo_memory 1 2000 9 demo_usable 8 "\<lambda>p. 8" 3 4 2 "replicate 8 7"] demo_strings
  by (simp add: demo_usable_def)

end
