(* ===== verification/RandomMmap.thy ===== *)
theory RandomMmap
  imports Rng Bitmap "HOL-Library.Monad_Syntax"
begin

text \<open>
  The randomised page mapper (\<open>src/include/randommmap.h\<close>): it reserves one region of \<open>2 ^ 31\<close> bytes and hands out
  runs of its pages at places drawn by \<open>MWC64\<close>.  The address of the region and the memory of the bitmap come from
  the operating system; \<open>rm_open\<close> says which pages are not protected.  The search may never end and is a
  partial function.
\<close>

definition PAGE_SIZE :: nat where "PAGE_SIZE = 4096"
definition PAGES :: nat where "PAGES = 2 ^ 19"

record random_mmap =
  rm_rng :: mwc64
  rm_bitmap :: bitmap
  rm_pages :: addr
  rm_open :: "nat \<Rightarrow> bool"

definition RandomMmap :: "mwc64 \<Rightarrow> addr \<Rightarrow> u64 list \<Rightarrow> random_mmap option" where
  "RandomMmap rng pages buf =
     (if pages = 0 then None
      else Some \<lparr>rm_rng = rng, rm_bitmap = reserve PAGES (Some buf) BitMap, rm_pages = pages, rm_open = (\<lambda>i. False)\<rparr>)"

definition page_count :: "nat \<Rightarrow> nat" where
  "page_count sz = (sz + PAGE_SIZE - 1) mod 2 ^ 64 div PAGE_SIZE"

text \<open>The pages from \<open>index + i\<close> on with \<open>n\<close> left; when one is taken, those before it are given back.\<close>

fun set_run :: "nat \<Rightarrow> nat \<Rightarrow> nat \<Rightarrow> bitmap \<Rightarrow> bool \<times> bitmap" where
  "set_run 0 i index b = (True, b)"
| "set_run (Suc n) i index b =
     (let (ok, b) = tryToSet (index + i) b
      in if ok then set_run n (i + 1) index b else (False, fold (\<lambda>j b. snd (reset (index + j) b)) [0..<i] b))"

partial_function (option) search_run :: "nat \<Rightarrow> mwc64 \<times> bitmap \<Rightarrow> (nat \<times> mwc64 \<times> bitmap) option" where
  "search_run npages s =
     (let (r, rng) = mwc64_next (fst s); range = (sub64 PAGES npages + 1) mod 2 ^ 64
      in if range = 0 then None
         else let index = unat r mod range; (ok, b) = set_run npages 0 index (snd s)
              in if ok then Some (index, rng, b) else search_run npages (rng, b))"

definition rm_map :: "nat \<Rightarrow> random_mmap \<Rightarrow> (addr \<times> random_mmap) option" where
  "rm_map sz h = do {
     let npages = page_count sz;
     (index, rng, b) \<leftarrow> search_run npages (rm_rng h, rm_bitmap h);
     Some (rm_pages h + index * PAGE_SIZE,
       h\<lparr>rm_rng := rng, rm_bitmap := b, rm_open := (\<lambda>i. index \<le> i \<and> i < index + npages \<or> rm_open h i)\<rparr>) }"

definition rm_unmap :: "addr \<Rightarrow> nat \<Rightarrow> random_mmap \<Rightarrow> random_mmap" where
  "rm_unmap ptr sz h =
     (let npages = page_count sz mod 2 ^ 32;
          ptr = ptr - ptr mod PAGE_SIZE;
          index = sub64 ptr (rm_pages h) div PAGE_SIZE
      in h\<lparr>rm_bitmap := fold (\<lambda>i b. snd (reset (index + i) b)) [0..<npages] (rm_bitmap h),
           rm_open := (\<lambda>i. \<not> (index \<le> i \<and> i < index + npages) \<and> rm_open h i)\<rparr>)"

section \<open>Runs of pages\<close>

definition map_ok :: "bitmap \<Rightarrow> bool" where
  "map_ok b \<longleftrightarrow> bm_inv b \<and> elements b = PAGES"

lemma reset_all:
  assumes "map_ok b" and "index + n \<le> PAGES"
  shows "map_ok (fold (\<lambda>j b. snd (reset (index + j) b)) [0..<n] b)
    \<and> bm_bits (fold (\<lambda>j b. snd (reset (index + j) b)) [0..<n] b) = bm_bits b - {index..<index + n}"
  using assms(2)
proof (induction n)
  case (Suc n)
  let ?b = "fold (\<lambda>j b. snd (reset (index + j) b)) [0..<n] b"
  have b: "bm_inv ?b" "index + n < elements ?b" "bm_bits ?b = bm_bits b - {index..<index + n}"
    using Suc by (auto simp: map_ok_def)
  have "elements ?b = PAGES" using Suc by (simp add: map_ok_def)
  then show ?case
    using bm_bits_reset [OF b(1,2)] bm_inv_reset [OF b(1,2)] b(3) by (auto simp: map_ok_def atLeastLessThanSuc)
qed (use assms(1) in simp)

definition free_run :: "bitmap \<Rightarrow> nat \<Rightarrow> nat \<Rightarrow> bool" where
  "free_run b index n \<longleftrightarrow> {index..<index + n} \<inter> bm_bits b = {}"

lemma set_run_from:
  assumes "map_ok b" and "index + i + n \<le> PAGES" and "bm_bits b = bits \<union> {index..<index + i}" and "{index..<index + i} \<inter> bits = {}"
  shows "map_ok (snd (set_run n i index b)) \<and> fst (set_run n i index b) = ({index + i..<index + i + n} \<inter> bits = {})
    \<and> bm_bits (snd (set_run n i index b)) = (if {index + i..<index + i + n} \<inter> bits = {} then bits \<union> {index..<index + i + n} else bits)"
  using assms
proof (induction n arbitrary: i b)
  case (Suc n)
  have b: "bm_inv b" "index + i < elements b" using Suc.prems by (auto simp: map_ok_def)
  note t = fst_tryToSet [OF b] bm_bits_tryToSet [OF b] bm_inv_tryToSet [OF b]
  obtain ok b1 where s: "tryToSet (index + i) b = (ok, b1)" by (cases "tryToSet (index + i) b")
  have ok: "ok = (index + i \<notin> bits)" "bm_bits b1 = insert (index + i) (bm_bits b)" "map_ok b1"
    using t s Suc.prems(1,3) by (auto simp: map_ok_def dest: arg_cong [where f = "\<lambda>x. elements (snd x)"])
  show ?case
  proof (cases ok)
    case True
    have "bm_bits b1 = bits \<union> {index..<index + (i + 1)}" "{index..<index + (i + 1)} \<inter> bits = {}"
      using ok True Suc.prems(3,4) by (auto simp: atLeastLessThanSuc)
    from Suc.IH [OF ok(3) _ this] Suc.prems(2) True s ok(1)
    show ?thesis by (auto simp: Int_def set_eq_iff Suc_le_eq)
  next
    case False
    have "bm_bits b1 - {index..<index + i} = bits" using ok False Suc.prems(3,4) by auto
    moreover have "index + i \<in> {index + i..<index + i + Suc n} \<inter> bits" using ok(1) False by simp
    then have "\<not> {index + i..<index + i + Suc n} \<inter> bits = {}" by blast
    moreover have "index + i \<le> PAGES" using Suc.prems(2) by simp
    note reset_all [OF ok(3) this]
    ultimately show ?thesis using False s by (simp only: set_run.simps Let_def prod.case if_False fst_conv snd_conv simp_thms)
  qed
qed auto

lemma set_run_result:
  assumes "map_ok b" and "index + n \<le> PAGES"
  shows "map_ok (snd (set_run n 0 index b)) \<and> fst (set_run n 0 index b) = free_run b index n
    \<and> bm_bits (snd (set_run n 0 index b)) = (if free_run b index n then bm_bits b \<union> {index..<index + n} else bm_bits b)"
  using set_run_from [OF assms(1), of index 0 n "bm_bits b"] assms(2) by (simp add: free_run_def)

section \<open>The search\<close>

text \<open>The state of the generator after \<open>k\<close> draws, and where draw number \<open>k\<close> would put the run.\<close>

definition rng_after :: "nat \<Rightarrow> mwc64 \<Rightarrow> mwc64" where
  "rng_after k g = ((\<lambda>g. snd (mwc64_next g)) ^^ k) g"

definition drawn :: "nat \<Rightarrow> nat \<Rightarrow> mwc64 \<Rightarrow> nat" where
  "drawn n k g = unat (fst (mwc64_next (rng_after k g))) mod (PAGES - n + 1)"

lemma rng_after_simps: "rng_after 0 g = g" "rng_after (Suc k) g = rng_after k (snd (mwc64_next g))"
  by (simp_all add: rng_after_def funpow_Suc_right del: funpow.simps(2))

lemma drawn_Suc: "drawn n (Suc k) g = drawn n k (snd (mwc64_next g))"
  by (simp add: drawn_def rng_after_simps)

lemma drawn_bound: "n \<le> PAGES \<Longrightarrow> drawn n k g + n \<le> PAGES"
proof -
  assume n: "n \<le> PAGES"
  have "drawn n k g < PAGES - n + 1" unfolding drawn_def by (rule mod_less_divisor) simp
  with n show ?thesis by linarith
qed

lemma search_range: "n \<le> PAGES \<Longrightarrow> (sub64 PAGES n + 1) mod 2 ^ 64 = PAGES - n + 1"
  by (simp add: sub64_le PAGES_def)

lemma search_run_unfold:
  assumes "n \<le> PAGES"
  shows "search_run n (g, b) =
    (if fst (set_run n 0 (drawn n 0 g) b) then Some (drawn n 0 g, snd (mwc64_next g), snd (set_run n 0 (drawn n 0 g) b))
     else search_run n (snd (mwc64_next g), snd (set_run n 0 (drawn n 0 g) b)))"
proof -
  have nz: "PAGES - n + 1 \<noteq> 0" by simp
  show ?thesis
    by (subst search_run.simps)
      (simp only: Let_def case_prod_beta fst_conv snd_conv search_range [OF assms] drawn_def rng_after_simps nz if_False)
qed

lemma search_run_finds:
  assumes "n \<le> PAGES" and "map_ok b" and "free_run b (drawn n k g) n" and "\<And>j. j < k \<Longrightarrow> \<not> free_run b (drawn n j g) n"
  shows "\<exists>b'. search_run n (g, b) = Some (drawn n k g, rng_after (Suc k) g, b') \<and> map_ok b'
    \<and> bm_bits b' = bm_bits b \<union> {drawn n k g..<drawn n k g + n}"
  using assms(2-4)
proof (induction k arbitrary: g b)
  case 0
  note r = set_run_result [OF 0(1) drawn_bound [OF assms(1), of 0 g]]
  with 0(2) show ?case by (simp add: search_run_unfold [OF assms(1), of g b] rng_after_simps)
next
  case (Suc k)
  note r = set_run_result [OF Suc.prems(1) drawn_bound [OF assms(1), of 0 g]]
  let ?b = "snd (set_run n 0 (drawn n 0 g) b)"
  have f: "\<not> fst (set_run n 0 (drawn n 0 g) b)" "map_ok ?b" "bm_bits ?b = bm_bits b" using r Suc.prems(3) [of 0] by auto
  have e: "free_run ?b i n = free_run b i n" for i using f(3) by (simp add: free_run_def)
  have "\<exists>b'. search_run n (snd (mwc64_next g), ?b) = Some (drawn n k (snd (mwc64_next g)), rng_after (Suc k) (snd (mwc64_next g)), b')
    \<and> map_ok b' \<and> bm_bits b' = bm_bits ?b \<union> {drawn n k (snd (mwc64_next g))..<drawn n k (snd (mwc64_next g)) + n}"
  proof (rule Suc.IH [OF f(2)])
    show "free_run ?b (drawn n k (snd (mwc64_next g))) n" using Suc.prems(2) by (simp add: e drawn_Suc)
    show "\<not> free_run ?b (drawn n j (snd (mwc64_next g))) n" if "j < k" for j
      using Suc.prems(3) [of "Suc j"] that by (simp add: e drawn_Suc)
  qed
  then show ?case using f by (simp add: search_run_unfold [OF assms(1), of g b] drawn_Suc rng_after_simps)
qed

text \<open>A search that returns has found a run.\<close>

lemma search_run_some:
  assumes "n \<le> PAGES" and "map_ok b" and "search_run n (g, b) = Some r"
  shows "\<exists>k. free_run b (drawn n k g) n"
proof -
  have "map_ok (snd (g, b)) \<longrightarrow> (\<exists>k. free_run (snd (g, b)) (drawn n k (fst (g, b))) n)"
  proof (rule search_run.raw_induct [where P = "\<lambda>m s r. m = n \<longrightarrow> map_ok (snd s) \<longrightarrow> (\<exists>k. free_run (snd s) (drawn n k (fst s)) n)", OF _ assms(3), THEN mp, OF _ refl])
    fix sr :: "nat \<Rightarrow> mwc64 \<times> bitmap \<Rightarrow> (nat \<times> mwc64 \<times> bitmap) option" and m s r
    assume IH: "\<And>m s r. sr m s = Some r \<Longrightarrow> m = n \<longrightarrow> map_ok (snd s) \<longrightarrow> (\<exists>k. free_run (snd s) (drawn n k (fst s)) n)"
      and r: "(let (r, rng) = mwc64_next (fst s); range = (sub64 PAGES m + 1) mod 2 ^ 64
        in if range = 0 then None
           else let index = unat r mod range; (ok, b) = set_run m 0 index (snd s)
                in if ok then Some (index, rng, b) else sr m (rng, b)) = Some r"
    show "m = n \<longrightarrow> map_ok (snd s) \<longrightarrow> (\<exists>k. free_run (snd s) (drawn n k (fst s)) n)"
    proof (intro impI)
      assume n: "m = n" and ok: "map_ok (snd s)"
      note sr = set_run_result [OF ok drawn_bound [OF assms(1), of 0 "fst s"]]
      let ?b = "snd (set_run n 0 (drawn n 0 (fst s)) (snd s))"
      show "\<exists>k. free_run (snd s) (drawn n k (fst s)) n"
      proof (cases "free_run (snd s) (drawn n 0 (fst s)) n")
        case False
        then have f: "\<not> fst (set_run n 0 (drawn n 0 (fst s)) (snd s))" "map_ok ?b" "bm_bits ?b = bm_bits (snd s)" using sr by auto
        have "sr n (snd (mwc64_next (fst s)), ?b) = Some r"
          using r f(1) unfolding n Let_def case_prod_beta search_range [OF assms(1)]
          by (simp add: drawn_def rng_after_simps split: if_splits)
        from IH [OF this] f(2) obtain k where "free_run ?b (drawn n k (snd (mwc64_next (fst s)))) n" by auto
        then have "free_run (snd s) (drawn n (Suc k) (fst s)) n" using f(3) by (simp add: drawn_Suc free_run_def)
        then show ?thesis by blast
      qed blast
    qed
  qed
  with assms(2) show ?thesis by simp
qed

section \<open>Mapping and unmapping\<close>

definition rm_inv :: "random_mmap \<Rightarrow> bool" where
  "rm_inv h \<longleftrightarrow> map_ok (rm_bitmap h) \<and> rm_pages h \<noteq> 0 \<and> PAGE_SIZE dvd rm_pages h \<and> rm_pages h + PAGES * PAGE_SIZE \<le> 2 ^ 64
     \<and> (\<forall>i. rm_open h i \<longrightarrow> i \<in> bm_bits (rm_bitmap h))"

lemma unmap_index:
  assumes "rm_inv h" and "i < PAGES"
  shows "sub64 (rm_pages h + i * PAGE_SIZE - (rm_pages h + i * PAGE_SIZE) mod PAGE_SIZE) (rm_pages h) div PAGE_SIZE = i"
proof -
  have d: "PAGE_SIZE dvd rm_pages h + i * PAGE_SIZE" using assms(1) by (simp add: rm_inv_def)
  have "i * PAGE_SIZE < PAGES * PAGE_SIZE" using assms(2) by (simp add: PAGE_SIZE_def)
  moreover have "rm_pages h + PAGES * PAGE_SIZE \<le> 2 ^ 64" using assms(1) by (simp add: rm_inv_def)
  ultimately have "rm_pages h + i * PAGE_SIZE < 2 ^ 64" by linarith
  then have "sub64 (rm_pages h + i * PAGE_SIZE) (rm_pages h) = rm_pages h + i * PAGE_SIZE - rm_pages h"
    by (intro sub64_le) simp_all
  then show ?thesis using d by (simp add: PAGE_SIZE_def)
qed

lemma page_count_bound: "0 < sz \<Longrightarrow> sz \<le> PAGES * PAGE_SIZE \<Longrightarrow> 0 < page_count sz \<and> page_count sz \<le> PAGES \<and> sz \<le> page_count sz * PAGE_SIZE \<and> page_count sz mod 2 ^ 32 = page_count sz"
  by (simp add: page_count_def PAGES_def PAGE_SIZE_def) linarith

lemma rm_map_finds:
  assumes "rm_inv h" and "page_count sz \<le> PAGES"
    and "free_run (rm_bitmap h) i (page_count sz)" and "drawn (page_count sz) k (rm_rng h) = i"
    and "\<And>j. j < k \<Longrightarrow> \<not> free_run (rm_bitmap h) (drawn (page_count sz) j (rm_rng h)) (page_count sz)"
  shows "\<exists>h'. rm_map sz h = Some (rm_pages h + i * PAGE_SIZE, h') \<and> rm_inv h' \<and> rm_pages h' = rm_pages h
    \<and> rm_rng h' = rng_after (Suc k) (rm_rng h) \<and> bm_bits (rm_bitmap h') = bm_bits (rm_bitmap h) \<union> {i..<i + page_count sz}
    \<and> rm_open h' = (\<lambda>j. j \<in> {i..<i + page_count sz} \<or> rm_open h j)"
proof -
  have "map_ok (rm_bitmap h)" using assms(1) by (simp add: rm_inv_def)
  from search_run_finds [OF assms(2) this, of k "rm_rng h"] assms(3-5)
  obtain b where b: "search_run (page_count sz) (rm_rng h, rm_bitmap h) = Some (i, rng_after (Suc k) (rm_rng h), b)" "map_ok b"
    "bm_bits b = bm_bits (rm_bitmap h) \<union> {i..<i + page_count sz}" by auto
  then show ?thesis using assms(1) by (auto simp: rm_map_def rm_inv_def Let_def)
qed

text \<open>The page mapper hands out free runs and takes them back.  For a size of at least one byte and at most the region, \<open>map\<close> returns
  exactly when some draw of the generator hits a run of free pages; then it returns the run of the first such draw: it lies in the
  region, holds the size, was free, and is now taken and accessible while nothing else changed.  Unmapping it makes the same pages free
  again, and protected.\<close>

theorem random_mmap_round_trip:
  assumes "rm_inv h" and "0 < sz" and "sz \<le> PAGES * PAGE_SIZE" and "n = page_count sz"
  shows "(rm_map sz h \<noteq> None) = (\<exists>k. free_run (rm_bitmap h) (drawn n k (rm_rng h)) n)
    \<and> (\<forall>k. free_run (rm_bitmap h) (drawn n k (rm_rng h)) n \<and> (\<forall>j < k. \<not> free_run (rm_bitmap h) (drawn n j (rm_rng h)) n) \<longrightarrow>
        (\<exists>h' i. i = drawn n k (rm_rng h) \<and> rm_map sz h = Some (rm_pages h + i * PAGE_SIZE, h') \<and> i * PAGE_SIZE + sz \<le> PAGES * PAGE_SIZE
          \<and> bm_bits (rm_bitmap h') = bm_bits (rm_bitmap h) \<union> {i..<i + n} \<and> (\<forall>j. rm_open h' j = (j \<in> {i..<i + n} \<or> rm_open h j)) \<and> rm_inv h'
          \<and> bm_bits (rm_bitmap (rm_unmap (rm_pages h + i * PAGE_SIZE) sz h')) = bm_bits (rm_bitmap h)
          \<and> rm_open (rm_unmap (rm_pages h + i * PAGE_SIZE) sz h') = rm_open h))"
proof -
  note p = page_count_bound [OF assms(2,3), folded assms(4)]
  have found: "\<exists>h' i. i = drawn n k (rm_rng h) \<and> rm_map sz h = Some (rm_pages h + i * PAGE_SIZE, h') \<and> i * PAGE_SIZE + sz \<le> PAGES * PAGE_SIZE
      \<and> bm_bits (rm_bitmap h') = bm_bits (rm_bitmap h) \<union> {i..<i + n} \<and> (\<forall>j. rm_open h' j = (j \<in> {i..<i + n} \<or> rm_open h j)) \<and> rm_inv h'
      \<and> bm_bits (rm_bitmap (rm_unmap (rm_pages h + i * PAGE_SIZE) sz h')) = bm_bits (rm_bitmap h)
      \<and> rm_open (rm_unmap (rm_pages h + i * PAGE_SIZE) sz h') = rm_open h"
    if f: "free_run (rm_bitmap h) (drawn n k (rm_rng h)) n" "\<forall>j < k. \<not> free_run (rm_bitmap h) (drawn n j (rm_rng h)) n" for k
  proof -
    define i where "i = drawn n k (rm_rng h)"
    have i: "i + n \<le> PAGES" "i < PAGES" using drawn_bound [of n k "rm_rng h"] p by (auto simp: i_def)
    obtain h' where h': "rm_map sz h = Some (rm_pages h + i * PAGE_SIZE, h')" "rm_inv h'" "rm_pages h' = rm_pages h"
      "bm_bits (rm_bitmap h') = bm_bits (rm_bitmap h) \<union> {i..<i + n}" "rm_open h' = (\<lambda>j. j \<in> {i..<i + n} \<or> rm_open h j)"
      using rm_map_finds [OF assms(1), of sz i k] f p unfolding assms(4) [symmetric] i_def by blast
    have "i * PAGE_SIZE + sz \<le> (i + n) * PAGE_SIZE" using p by (simp add: add_mult_distrib)
    also have "\<dots> \<le> PAGES * PAGE_SIZE" using i(1) by (rule mult_le_mono1)
    finally have fits: "i * PAGE_SIZE + sz \<le> PAGES * PAGE_SIZE" .
    have disj: "{i..<i + n} \<inter> bm_bits (rm_bitmap h) = {}" using f(1) by (simp add: free_run_def i_def)
    have opened: "\<And>j. rm_open h j \<Longrightarrow> j \<in> bm_bits (rm_bitmap h)" using assms(1) by (simp add: rm_inv_def)
    have ix: "sub64 (rm_pages h + i * PAGE_SIZE - (rm_pages h + i * PAGE_SIZE) mod PAGE_SIZE) (rm_pages h') div PAGE_SIZE = i"
      unfolding h'(3) by (rule unmap_index [OF assms(1) i(2)])
    have c: "page_count sz mod 2 ^ 32 = n" using p by (simp add: assms(4))
    have ok: "map_ok (rm_bitmap h')" using h'(2) by (simp add: rm_inv_def)
    have "bm_bits (rm_bitmap (rm_unmap (rm_pages h + i * PAGE_SIZE) sz h')) = bm_bits (rm_bitmap h)"
      using reset_all [OF ok i(1)] disj h'(4) unfolding rm_unmap_def Let_def ix c by auto
    moreover have "rm_open (rm_unmap (rm_pages h + i * PAGE_SIZE) sz h') = rm_open h"
      using disj opened unfolding rm_unmap_def Let_def ix c by (auto simp: h'(5) fun_eq_iff)
    ultimately show ?thesis
      using h' fits unfolding i_def [symmetric] by (intro exI [of _ h'] exI [of _ i]) simp
  qed
  have "(\<exists>k. free_run (rm_bitmap h) (drawn n k (rm_rng h)) n)" if some: "rm_map sz h \<noteq> None"
  proof -
    obtain r where "search_run n (rm_rng h, rm_bitmap h) = Some r"
      using some by (cases "search_run n (rm_rng h, rm_bitmap h)") (auto simp: rm_map_def Let_def assms(4))
    with search_run_some p assms(1) show ?thesis unfolding rm_inv_def by blast
  qed
  moreover have "rm_map sz h \<noteq> None" if ex: "\<exists>k. free_run (rm_bitmap h) (drawn n k (rm_rng h)) n"
  proof -
    let ?k = "LEAST k. free_run (rm_bitmap h) (drawn n k (rm_rng h)) n"
    have "free_run (rm_bitmap h) (drawn n ?k (rm_rng h)) n" using ex by (rule LeastI_ex)
    moreover have "\<forall>j < ?k. \<not> free_run (rm_bitmap h) (drawn n j (rm_rng h)) n" using not_less_Least by blast
    ultimately obtain h' i where "rm_map sz h = Some (rm_pages h + i * PAGE_SIZE, h')" using found [of ?k] by blast
    then show ?thesis by simp
  qed
  ultimately show ?thesis using found by blast
qed

text \<open>The region right after start-up: the first draw succeeds.\<close>

lemma start_inv:
  assumes "RandomMmap g pages buf = Some h" and "length buf = (PAGES + 63) mod 2 ^ 64 div 64" and "PAGE_SIZE dvd pages" and "pages + PAGES * PAGE_SIZE \<le> 2 ^ 64"
  shows "rm_inv h \<and> bm_bits (rm_bitmap h) = {} \<and> rm_rng h = g"
proof -
  have n: "PAGES < 2 ^ 37" by (simp add: PAGES_def)
  have "elements (reserve PAGES (Some buf) BitMap) = PAGES" by (simp add: reserve_elements PAGES_def)
  then show ?thesis
    using assms reserve_inv [OF n assms(2)] reserve_bits [OF assms(2)] by (auto simp: RandomMmap_def rm_inv_def map_ok_def split: if_splits)
qed

lemma random_mmap_round_trip_witness:
  "\<exists>h h' i. RandomMmap (mwc64_init 1 2) (2 ^ 40) (replicate 8192 0) = Some h \<and> rm_map 5000 h = Some (rm_pages h + i * PAGE_SIZE, h')
     \<and> i * PAGE_SIZE + 5000 \<le> PAGES * PAGE_SIZE \<and> bm_bits (rm_bitmap h') = {i..<i + 2}
     \<and> bm_bits (rm_bitmap (rm_unmap (rm_pages h + i * PAGE_SIZE) 5000 h')) = {}"
proof -
  obtain h where h: "RandomMmap (mwc64_init 1 2) (2 ^ 40) (replicate 8192 0) = Some h" by (simp add: RandomMmap_def)
  have s: "rm_inv h \<and> bm_bits (rm_bitmap h) = {} \<and> rm_rng h = mwc64_init 1 2"
    by (rule start_inv [OF h]) (simp_all add: PAGES_def PAGE_SIZE_def)
  have c: "2 = page_count 5000" by (simp add: page_count_def PAGE_SIZE_def)
  have l: "(5000 :: nat) \<le> PAGES * PAGE_SIZE" by (simp add: PAGES_def PAGE_SIZE_def)
  have f: "free_run (rm_bitmap h) (drawn 2 0 (rm_rng h)) 2" using s by (simp add: free_run_def)
  show ?thesis
    using random_mmap_round_trip [OF conjunct1 [OF s] _ l c] f h s by (metis (no_types, lifting) not_less0 sup_bot_left zero_less_numeral)
qed

end
