(* ===== verification/HeapBytes.thy ===== *)
theory HeapBytes
  imports LibDieHarder
begin

text \<open>
  What the heap of \<open>libdieharder.cpp\<close> writes: nothing without DieFast; with DieFast the canaries of
  \<open>activate\<close> (\<open>randomminiheap-diehard.h\<close>), of \<open>free\<close> and the random fill of \<open>DieHardHeap::malloc\<close>.
  \<open>heap_bytes\<close> extends the contract of a heap by its bytes: a call keeps the bytes and the size of
  every other live object.  The clients that read and write objects (\<open>CWrapper\<close>) rest on it.
\<close>

section \<open>The contract\<close>

text \<open>The \<open>n\<close> bytes at \<open>b\<close> are the same in both memories.\<close>

definition same_bytes :: "addr \<Rightarrow> nat \<Rightarrow> mem \<Rightarrow> mem \<Rightarrow> bool" where
  "same_bytes b n m m' \<longleftrightarrow> (\<forall>x. b \<le> x \<and> x < b + n \<longrightarrow> m' x = m x)"

lemma same_bytes_refl [simp]: "same_bytes b n m m"
  by (simp add: same_bytes_def)

lemma same_bytes_trans: "same_bytes b n m m1 \<Longrightarrow> same_bytes b n m1 m2 \<Longrightarrow> same_bytes b n m m2"
  by (simp add: same_bytes_def)

lemma same_bytes_le: "same_bytes b n m m' \<Longrightarrow> k \<le> n \<Longrightarrow> same_bytes b k m m'"
  by (simp add: same_bytes_def)

lemma same_bytesD: "same_bytes b n m m' \<Longrightarrow> i < n \<Longrightarrow> m' (b + i) = m (b + i)"
  by (simp add: same_bytes_def)

locale heap_bytes = heap_iface +
  assumes objects_apart: "inv r \<Longrightarrow> a \<in> live r \<Longrightarrow> b \<in> live r \<Longrightarrow> a \<noteq> b
      \<Longrightarrow> {a..<a + size_of a r} \<inter> {b..<b + size_of b r} = {}"
    and alloc_fits: "inv r \<Longrightarrow> serves sz \<Longrightarrow> alloc sz (r, m) = Some (a, (r', m'), rs) \<Longrightarrow> a \<noteq> 0
      \<Longrightarrow> sz \<le> size_of a r'"
    and alloc_keeps: "inv r \<Longrightarrow> serves sz \<Longrightarrow> alloc sz (r, m) = Some (a, (r', m'), rs) \<Longrightarrow> b \<in> live r
      \<Longrightarrow> size_of b r' = size_of b r \<and> same_bytes b (size_of b r) m m'"
    and release_keeps: "inv r \<Longrightarrow> a \<in> live r \<or> a \<notin> inside r \<Longrightarrow> release a (r, m) = (ok, (r', m'), rs)
      \<Longrightarrow> b \<in> live r \<Longrightarrow> b \<noteq> a \<Longrightarrow> size_of b r' = size_of b r \<and> same_bytes b (size_of b r) m m'"
begin

lemma alloc_apart:
  assumes "inv r" and "serves sz" and "alloc sz (r, m) = Some (a, (r', m'), rs)" and "a \<noteq> 0" and "b \<in> live r"
  shows "{a..<a + size_of a r'} \<inter> {b..<b + size_of b r} = {}"
proof -
  note f = alloc_fresh [OF assms(1-4)]
  have l: "inv r'" "live r' = insert a (live r)" using alloc_result [OF assms(1-3)] assms(4) by auto
  have "a \<noteq> b" using f(1) assms(5) by blast
  with objects_apart [OF l(1), of a b] l(2) assms(5) alloc_keeps [OF assms(1-3,5)] show ?thesis by simp
qed

lemma run_call_keeps:
  assumes "inv r" and "fair_call live inside serves c r" and "run_call alloc release c (r, m) = Some (out, (r', m'))"
    and "b \<in> live r" and "c \<noteq> Free b"
  shows "b \<in> live r' \<and> size_of b r' = size_of b r \<and> same_bytes b (size_of b r) m m'"
proof (cases c)
  case (Malloc sz)
  then obtain a rs where a: "alloc sz (r, m) = Some (a, (r', m'), rs)" "serves sz"
    using assms(2,3) by (auto simp: fair_call_def)
  have "b \<in> live r'" using alloc_result [OF assms(1) a(2,1)] assms(4) by auto
  with alloc_keeps [OF assms(1) a(2,1) assms(4)] show ?thesis by simp
next
  case (Free a)
  obtain ok s rs where f: "release a (r, m) = (ok, s, rs)" by (metis surj_pair)
  then have f: "release a (r, m) = (ok, (r', m'), rs)" using assms(3) by (auto simp: Free)
  have a: "a \<in> live r \<or> a \<notin> inside r" "b \<noteq> a" using assms(2,5) by (auto simp: fair_call_def Free)
  have "b \<in> live r'"
    using a release_live [OF assms(1) _ f] release_outside [OF assms(1) _ f] assms(4) by auto
  with release_keeps [OF assms(1) a(1) f assms(4) a(2)] show ?thesis by simp
qed

lemma run_calls_keep:
  assumes "inv r" and "fair_calls live inside serves alloc release cs (r, m)"
    and "run_calls alloc release cs (r, m) = Some (outs, (r', m'))" and "b \<in> live r" and "Free b \<notin> set cs"
  shows "b \<in> live r' \<and> size_of b r' = size_of b r \<and> same_bytes b (size_of b r) m m'"
  using assms
proof (induction cs arbitrary: r m outs)
  case (Cons c cs)
  from Cons.prems(3) obtain out r1 m1 rest where
    one: "run_call alloc release c (r, m) = Some (out, (r1, m1))" and
    more: "run_calls alloc release cs (r1, m1) = Some (rest, (r', m'))"
    by (auto split: option.splits)
  have f: "fair_call live inside serves c r" "fair_calls live inside serves alloc release cs (r1, m1)"
    using Cons.prems(2) one by auto
  have "c \<noteq> Free b" "Free b \<notin> set cs" using Cons.prems(5) by auto
  note step = run_call_keeps [OF Cons.prems(1) f(1) one Cons.prems(4) this(1)]
  have "inv r1" using run_call_abs [OF Cons.prems(1) f(1) one] by simp
  from Cons.IH [OF this f(2) more] step \<open>Free b \<notin> set cs\<close> show ?case by (auto intro: same_bytes_trans)
qed simp

end

section \<open>Writes\<close>

definition touches :: "addr set \<Rightarrow> mem \<Rightarrow> mem \<Rightarrow> bool" where
  "touches W m m' \<longleftrightarrow> (\<forall>x. x \<notin> W \<longrightarrow> m' x = m x)"

lemma touches_refl [simp]: "touches W m m"
  by (simp add: touches_def)

lemma touches_trans: "touches V m m1 \<Longrightarrow> touches W m1 m2 \<Longrightarrow> touches (V \<union> W) m m2"
  by (simp add: touches_def)

lemma touches_mono: "touches V m m' \<Longrightarrow> V \<subseteq> W \<Longrightarrow> touches W m m'"
  by (auto simp: touches_def)

lemma touches_same: "touches W m m' \<Longrightarrow> W \<inter> {b..<b + n} = {} \<Longrightarrow> same_bytes b n m m'"
  by (auto simp: touches_def same_bytes_def disjoint_iff)

lemma touches_fill: "touches {a..<a + n} m (fill a n v m)"
  unfolding touches_def using fill_frame by (metis atLeastLessThan_iff linorder_not_le)

section \<open>One class\<close>

lemma dh_activate_touches:
  assumes "dh_activate p buf words m s = (s', m')"
  shows "touches {buf..<buf + NObjects p * ObjectSize p} m m'"
proof -
  have "m' = m \<or> (\<exists>v. m' = fill buf (NObjects p * ObjectSize p) v m)"
    using assms unfolding dh_activate_def by (auto simp: Let_def split: if_splits)
  then show ?thesis using touches_fill by auto
qed

lemma dh_free_touches:
  assumes "dh_free p a m s = (ok, s', m', rs)"
  shows "touches {a..<a + ObjectSize p} m m'" and "\<not> ok \<Longrightarrow> m' = m"
  using assms touches_fill by (auto simp: dh_free_def Let_def split: prod.splits if_splits)

text \<open>Growing writes into the miniheaps it activates.\<close>

definition regions_from :: "rh_params \<Rightarrow> heap_env \<Rightarrow> nat \<Rightarrow> nat \<Rightarrow> addr set" where
  "regions_from P E n k = (\<Union>i \<in> {n..<k}. class_region P E i)"

lemma another_touches:
  assumes "getAnotherMiniHeap P (dh_ops P df E) (h, m) = (h', m')"
  shows "rh_miniHeapsInUse h \<le> rh_miniHeapsInUse h' \<and> touches (regions_from P E (rh_miniHeapsInUse h) (rh_miniHeapsInUse h')) m m'"
proof -
  let ?n = "rh_miniHeapsInUse h"
  obtain x m1 where act: "mini_activate (dh_ops P df E ?n) m (rh_buf h ! ?n) = (x, m1)" by (metis surj_pair)
  have "touches (class_region P E ?n) m m1"
    using dh_activate_touches [OF act [unfolded heap_simps]] by (simp add: class_region_def heap_simps)
  moreover have "h' = h \<and> m' = m \<or> rh_miniHeapsInUse h' = Suc ?n \<and> m' = m1"
    using assms act by (auto simp: getAnotherMiniHeap_def Let_def split: if_splits)
  ultimately show ?thesis by (auto simp: regions_from_def)
qed

lemma regions_from_join: "n \<le> k \<Longrightarrow> k \<le> l \<Longrightarrow> regions_from P E n k \<union> regions_from P E k l = regions_from P E n l"
  unfolding regions_from_def by (simp add: ivl_disj_un_two(3) flip: UN_Un)

lemma grow_touches:
  assumes "growHeapIfNeeded P (dh_ops P df E) (h, m) = Some (h', m')"
  shows "rh_miniHeapsInUse h \<le> rh_miniHeapsInUse h' \<and> touches (regions_from P E (rh_miniHeapsInUse h) (rh_miniHeapsInUse h')) m m'"
proof -
  let ?R = "\<lambda>s t. rh_miniHeapsInUse (fst s) \<le> rh_miniHeapsInUse (fst t)
    \<and> touches (regions_from P E (rh_miniHeapsInUse (fst s)) (rh_miniHeapsInUse (fst t))) (snd s) (snd t)"
  have "P = P \<and> dh_ops P df E = dh_ops P df E \<longrightarrow> ?R (h, m) (h', m')"
  proof (rule growHeapIfNeeded.raw_induct [where P = "\<lambda>P' ops' s r. P' = P \<and> ops' = dh_ops P df E \<longrightarrow> ?R s r", OF _ assms])
    fix f P' ops' s r
    assume IH: "\<And>P' ops' s r. f P' ops' s = Some r \<Longrightarrow> P' = P \<and> ops' = dh_ops P df E \<longrightarrow> ?R s r"
      and eq: "(if over_threshold P' (fst s) then f P' ops' (getAnotherMiniHeap P' ops' s) else Some s) = Some r"
    show "P' = P \<and> ops' = dh_ops P df E \<longrightarrow> ?R s r"
    proof (intro impI, elim conjE)
      assume *: "P' = P" "ops' = dh_ops P df E"
      show "?R s r"
      proof (cases "over_threshold P' (fst s)")
        case True
        obtain h m h1 m1 where s: "s = (h, m)" "getAnotherMiniHeap P (dh_ops P df E) s = (h1, m1)" by (metis surj_pair)
        note one = another_touches [OF s(2) [unfolded s(1)]]
        have "f P' ops' (h1, m1) = Some r" using True eq s * by simp
        from IH [OF this] * have more: "?R (h1, m1) r" by simp
        with one touches_trans [of _ m m1] have "touches (regions_from P E (rh_miniHeapsInUse h) (rh_miniHeapsInUse h1)
            \<union> regions_from P E (rh_miniHeapsInUse h1) (rh_miniHeapsInUse (fst r))) m (snd r)" by auto
        with one more show ?thesis by (simp add: s regions_from_join)
      qed (use eq in auto)
    qed
  qed
  then show ?thesis by simp
qed

lemma rh_malloc_touches:
  assumes "random_heap P (dh_ops P df E) mini_fresh (class_ready P df E) (class_region P E) (class_slot P df) (class_live P df)"
    and "class_heap_inv P df E h" and "rh_malloc P (dh_ops P df E) (h, m) = Some (a, (h', m'), rs)"
  shows "touches (regions_from P E (rh_miniHeapsInUse h) (rh_miniHeapsInUse h')) m m'"
proof -
  obtain h1 h2 rs2 where g: "(if over_threshold P h then growHeapIfNeeded P (dh_ops P df E) (h, m) else Some (h, m)) = Some (h1, m')"
    and t: "getObject_retry (dh_ops P df E) m' h1 [] = Some (a, h2, rs2)" and h': "rh_miniHeapsInUse h' = rh_miniHeapsInUse h2"
    using assms(3) by (auto simp: rh_malloc_def split: option.splits)
  have inv: "class_heap_inv P df E h1" "\<not> over_threshold P h1"
    using g random_heap.grow_result [OF assms(1,2)] assms(2) random_heap.grown_def [OF assms(1)] by (auto split: if_splits)
  have "random_heap.allocated P mini_fresh (class_ready P df E) (class_region P E) (class_slot P df) (class_live P df) h1 a h2"
    using random_heap.retry_spec [OF assms(1) _ _ t] random_heap.not_over_pos(1) [OF assms(1) inv] inv(1)
    by (simp add: heap_inv_def)
  then have "rh_miniHeapsInUse h2 = rh_miniHeapsInUse h1" by (simp add: random_heap.allocated_def [OF assms(1)])
  with g grow_touches [of P df E h m h1 m'] h' show ?thesis by (auto split: if_splits)
qed

text \<open>Freeing writes over the object, and only when it is accepted.\<close>

lemma rh_free_at_touches:
  assumes "rh_free_at (dh_ops P df E) i a (h, m) = (ok, (h', m'), rs)"
  shows "touches {a..<a + rh_ObjectSize P} m m' \<and> (\<not> ok \<longrightarrow> m' = m)"
proof -
  obtain x where "dh_free (dh_params P df i) a m (rh_buf h ! i) = (ok, x, m', rs)"
    using assms by (auto simp: rh_free_at_def heap_simps split: prod.splits)
  from dh_free_touches [OF this] show ?thesis by (simp add: heap_simps)
qed

lemma rh_free_search_touches:
  assumes "rh_free_search i (dh_ops P df E) c a (h, m) acc = (ok, (h', m'), rs)"
  shows "touches {a..<a + rh_ObjectSize P} m m' \<and> (\<not> ok \<longrightarrow> m' = m)"
  using assms
proof (induction i arbitrary: h m acc)
  case (Suc i)
  obtain k h1 m1 rs1 where at: "rh_free_at (dh_ops P df E) i a (h, m) = (k, (h1, m1), rs1)" by (metis surj_pair)
  note t = rh_free_at_touches [OF at]
  consider "int i = c" | "int i \<noteq> c" k | "int i \<noteq> c" "\<not> k" by blast
  then show ?case
  proof cases
    case 1
    with Suc.prems have "rh_free_search i (dh_ops P df E) c a (h, m) acc = (ok, (h', m'), rs)" by simp
    then show ?thesis by (rule Suc.IH)
  next
    case 2
    with Suc.prems at have "ok" "m' = m1" by auto
    with t show ?thesis by simp
  next
    case 3
    with Suc.prems at have "rh_free_search i (dh_ops P df E) c a (h1, m1) (acc @ rs1) = (ok, (h', m'), rs)" by simp
    from Suc.IH [OF this] t 3 show ?thesis by simp
  qed
qed simp

lemma rh_free_touches:
  assumes "rh_free (dh_ops P df E) a (h, m) = (ok, (h', m'), rs)"
  shows "touches {a..<a + rh_ObjectSize P} m m' \<and> (\<not> ok \<longrightarrow> m' = m)"
proof (cases "0 \<le> rh_cachedMiniHeap h \<and> rh_cachedMiniHeap h < int (rh_miniHeapsInUse h)")
  case True
  obtain k h1 m1 rs1 where at: "rh_free_at (dh_ops P df E) (nat (rh_cachedMiniHeap h)) a (h, m) = (k, (h1, m1), rs1)"
    by (metis surj_pair)
  show ?thesis
  proof (cases k)
    case k: True
    with assms True at have "ok" "m' = m1" by (auto simp: rh_free_def Let_def)
    with rh_free_at_touches [OF at] show ?thesis by simp
  next
    case k: False
    with assms True at have run: "rh_free_search (rh_miniHeapsInUse h) (dh_ops P df E) (rh_cachedMiniHeap h) a (h1, m1) rs1 = (ok, (h', m'), rs)"
      by (simp add: rh_free_def Let_def)
    have "m1 = m" using rh_free_at_touches [OF at] k by simp
    with rh_free_search_touches [OF run] show ?thesis by simp
  qed
next
  case False
  with assms have "rh_free_search (rh_miniHeapsInUse h) (dh_ops P df E) (rh_cachedMiniHeap h) a (h, m) [] = (ok, (h', m'), rs)"
    by (auto simp: rh_free_def)
  then show ?thesis by (rule rh_free_search_touches)
qed

section \<open>All classes\<close>

text \<open>What \<open>free\<close> of each class may write for the address \<open>a\<close>.\<close>

definition frees_within :: "nat \<Rightarrow> (nat \<Rightarrow> 'r heap_ops) \<Rightarrow> addr \<Rightarrow> (nat \<Rightarrow> addr set) \<Rightarrow> bool" where
  "frees_within n ops a W \<longleftrightarrow> (\<forall>i < n. \<forall>r m ok r' m' rs.
     h_free (ops i) a (r, m) = (ok, (r', m'), rs) \<longrightarrow> touches (W i) m m' \<and> (\<not> ok \<longrightarrow> m' = m))"

context size_classes begin

text \<open>Only the class of the object writes.\<close>

lemma sh_free_at_touches:
  assumes "frees_within n_classes ops a W" and "i < n_classes" and "sh_free_at ops i a (h, m) = (ok, (h', m'), rs)"
  shows "touches (W i) m m' \<and> (\<not> ok \<longrightarrow> m' = m)"
proof -
  obtain r where "h_free (ops i) a (sh_buf h ! i, m) = (ok, (r, m'), rs)"
    using assms(3) by (auto simp: sh_free_at_def Let_def split: prod.splits)
  with assms(1,2) show ?thesis unfolding frees_within_def by blast
qed

lemma sh_free_search_touches:
  assumes W: "frees_within n_classes ops a W"
    and "sh_inv h" and "set is \<subseteq> {..<n_classes}" and "sole_class h a j"
    and "sh_free_search is ops cached a (h, m) acc = (ok, (h', m'), rs)"
  shows "touches (W j) m m' \<and> (\<not> ok \<longrightarrow> m' = m)"
  using assms(2-5)
proof (induction "is" arbitrary: h m acc)
  case (Cons i "is")
  obtain k h1 m1 rs1 where at: "sh_free_at ops i a (h, m) = (k, (h1, m1), rs1)" by (metis surj_pair)
  have i: "i < n_classes" and sub: "set is \<subseteq> {..<n_classes}" using Cons.prems(2) by simp_all
  note f = sh_free_at_spec [OF Cons.prems(1) i Cons.prems(3) at] and t = sh_free_at_touches [OF W i at]
  show ?case
  proof (cases "int i = cached")
    case True
    with Cons.prems(4) have "sh_free_search is ops cached a (h, m) acc = (ok, (h', m'), rs)" by simp
    from Cons.IH [OF Cons.prems(1) sub Cons.prems(3) this] show ?thesis .
  next
    case False
    show ?thesis
    proof (cases k)
      case True
      with Cons.prems(4) at False t f show ?thesis by (auto split: if_splits)
    next
      case k: False
      with Cons.prems(4) at False have run: "sh_free_search is ops cached a (h1, m1) (acc @ rs1) = (ok, (h', m'), rs)" by simp
      have same: "sh_same h h1" and m1: "m1 = m" using f k t by (auto split: if_splits)
      have "sh_inv h1" "sole_class h1 a j" using same Cons.prems(3) sole_same by (auto simp: sh_same_def)
      from Cons.IH [OF this(1) sub this(2) run] m1 show ?thesis by simp
    qed
  qed
qed simp

lemma sh_free_touches:
  assumes W: "frees_within n_classes ops a W"
    and "sh_inv h" and "sole_class h a j" and "sh_free Q ops a (h, m) = (ok, (h', m'), rs)"
  shows "touches (W j) m m' \<and> (\<not> ok \<longrightarrow> m' = m)"
proof (cases "0 \<le> cachedSizeClass h \<and> cachedSizeClass h < int n_classes")
  case True
  let ?c = "nat (cachedSizeClass h)"
  obtain k h1 m1 rs1 where at: "sh_free_at ops ?c a (h, m) = (k, (h1, m1), rs1)" by (metis surj_pair)
  have c: "?c < n_classes" using True by linarith
  note f = sh_free_at_spec [OF assms(2) c assms(3) at] and t = sh_free_at_touches [OF W c at]
  show ?thesis
  proof (cases k)
    case True
    with assms(4) at \<open>0 \<le> _ \<and> _\<close> have "ok" "m' = m1" by (auto simp: sh_free_def Let_def)
    with t f \<open>k\<close> show ?thesis by (auto split: if_splits)
  next
    case k: False
    with assms(4) at True have run: "sh_free_search [0..<n_classes] ops (cachedSizeClass h) a (h1, m1) rs1 = (ok, (h', m'), rs)"
      by (simp add: sh_free_def Let_def)
    have same: "sh_same h h1" and m1: "m1 = m" using f k t by (auto split: if_splits)
    have "sh_inv h1" "sole_class h1 a j" using same assms(3) sole_same by (auto simp: sh_same_def)
    from sh_free_search_touches [OF W this(1) _ this(2) run] m1 show ?thesis by (simp add: atLeast0LessThan)
  qed
next
  case False
  with assms(4) have "sh_free_search [0..<n_classes] ops (cachedSizeClass h) a (h, m) [] = (ok, (h', m'), rs)"
    by (auto simp: sh_free_def Let_def)
  from sh_free_search_touches [OF W assms(2) _ assms(3) this] show ?thesis by (simp add: atLeast0LessThan)
qed

end

section \<open>The heap of libdieharder\<close>

lemma program_frees_within: "frees_within 17 (program_ops df) a (\<lambda>c. {a..<a + 16 * 2 ^ c})"
  unfolding frees_within_def
proof (intro allI impI)
  fix c r m ok r' m' rs assume "h_free (program_ops df c) a (r, m) = (ok, (r', m'), rs)"
  then have "rh_free (dh_ops (program_class c) df (program_env c)) a (r, m) = (ok, (r', m'), rs)"
    by (simp add: program_ops_def class_ops_def)
  from rh_free_touches [OF this] show "touches {a..<a + 16 * 2 ^ c} m m' \<and> (\<not> ok \<longrightarrow> m' = m)"
    by (simp add: program_class_size)
qed

lemma program_large_getSize:
  assumes "program_inv df (s, l)" and "2 ^ 46 \<le> a"
  shows "program_getSize df a (s, l) = lh_getSize a l"
proof -
  have "a \<notin> class_own c" if "c < 17" for c using class_own_range [OF that] assms(2) that by fastforce
  then have "fst (sh_getSize (program_sh df) (program_ops df) a s) = 0"
    using program_heap.sh.size_foreign [of df s a] assms(1) by (auto simp: program_inv_def)
  then show ?thesis by (simp add: program_getSize_def ch_getSize_def Let_def)
qed

text \<open>The size of an object does not change while it lives.\<close>

lemma program_size_kept:
  assumes "program_inv df (s, l)" and "program_inv df (s', l')" and "b \<in> program_live df (s, l)" and "b \<in> program_live df (s', l')"
    and "2 ^ 46 \<le> b \<Longrightarrow> lh_getSize b l' = lh_getSize b l"
  shows "program_getSize df b (s', l') = program_getSize df b (s, l)"
proof -
  have large: "program_getSize df b (s', l') = program_getSize df b (s, l)" if "2 ^ 46 \<le> b"
    using assms(5) that by (simp add: program_large_getSize [OF assms(1)] program_large_getSize [OF assms(2)])
  note A = program_live_cases [OF assms(1,3)] and B = program_live_cases [OF assms(2,4)]
  show ?thesis
  proof (rule A; rule B)
    fix c d
    assume c: "c < 17" "program_getSize df b (s, l) = 16 * 2 ^ c" "{b..<b + 16 * 2 ^ c} \<subseteq> class_own c"
      and d: "d < 17" "program_getSize df b (s', l') = 16 * 2 ^ d" "{b..<b + 16 * 2 ^ d} \<subseteq> class_own d"
    have "b \<in> class_own c" "b \<in> class_own d" using c(3) d(3) by auto
    then have "c = d" using program_heap.own_apart [of c df d] c(1) d(1) by auto
    with c d show ?thesis by simp
  qed (rule large, assumption)+
qed

lemma large_size_entry:
  assumes "lh_rep 4096 {2 ^ 46..} B (objectSize l)" and "b \<in> lh_live 4096 l"
  shows "\<exists>n. B b = Some n \<and> lh_getSize b l = n"
  using assms rep_live [OF assms(1)] program_large.lh_get_live [OF assms(1)] by (auto simp: lh_getSize_def)

lemma large_malloc_keeps:
  assumes "lh_inv 4096 {2 ^ 46..} l" and "lh_serves 4096 sz" and "lh_malloc 4096 first_fit sz (l, m) = Some (a, (l', m'), rs)"
    and "b \<in> lh_live 4096 l"
  shows "lh_getSize b l' = lh_getSize b l \<and> m' = m"
proof -
  obtain B where B: "lh_rep 4096 {2 ^ 46..} B (objectSize l)" using assms(1) by (auto simp: lh_inv_def)
  have r: "a = first_fit l sz" "l' = lh_set 4096 (first_fit l sz) sz l" "m' = m" using assms(3) by (auto simp: lh_malloc_def Let_def)
  note new = program_large.lh_malloc_rep [OF B assms(2), folded r(2)]
  obtain n where n: "B b = Some n" "lh_getSize b l = n" using large_size_entry [OF B assms(4)] by blast
  have "(B(first_fit l sz \<mapsto> sz)) b = Some n" using n(1) new(4) by auto
  from program_large.lh_get_live [OF new(1) this] n(2) r(3) show ?thesis by (simp add: lh_getSize_def)
qed

lemma large_free_keeps:
  assumes "lh_inv 4096 {2 ^ 46..} l" and "a \<in> lh_live 4096 l \<or> a \<notin> lh_inside l" and "lh_free 4096 a (l, m) = (ok, (l', m'), rs)"
    and "b \<in> lh_live 4096 l" and "b \<noteq> a"
  shows "lh_getSize b l' = lh_getSize b l \<and> m' = m"
proof (cases "a \<in> lh_live 4096 l")
  case True
  obtain B where B: "lh_rep 4096 {2 ^ 46..} B (objectSize l)" using assms(1) by (auto simp: lh_inv_def)
  obtain k where k: "B a = Some k" "lh_getSize a l = k" using large_size_entry [OF B True] by blast
  have "0 < k" using lh_repD(2) [OF B k(1)] by (simp add: lh_serves_def)
  then have r: "objectSize l' = objectSize (lh_clear 4096 a l)" "m' = m"
    using assms(3) k(2) by (auto simp: lh_free_def Let_def lh_getSize_def lh_clear_def lh_get_def)
  have B': "lh_rep 4096 {2 ^ 46..} (B(a := None)) (objectSize l')" using program_large.lh_free_rep [OF B k(1)] r(1) by simp
  obtain n where n: "B b = Some n" "lh_getSize b l = n" using large_size_entry [OF B assms(4)] by blast
  with program_large.lh_get_live [OF B', of b n] assms(5) r(2) show ?thesis by (simp add: lh_getSize_def)
next
  case False
  with assms(2) have "lh_get a l = 0" using program_large.lh_get_outside [OF assms(1)] by blast
  with assms(3) show ?thesis by (auto simp: lh_free_def Let_def)
qed

text \<open>New miniheaps and the new object lie apart from the objects of the program.\<close>

lemma class_malloc_writes:
  assumes "i < 17" and "class_inv df i h"
    and run: "rh_malloc (program_class i) (dh_ops (program_class i) df (program_env i)) (h, m) = Some (a, (r, m1), rs)"
  obtains W where "touches W m m1" "{a..<a + 16 * 2 ^ i} \<subseteq> W" "W \<subseteq> class_own i"
    "\<And>b. b \<in> class_objects df i h \<Longrightarrow> W \<inter> {b..<b + 16 * 2 ^ i} = {}"
proof
  let ?P = "program_class i" and ?E = "program_env i"
  let ?R = "regions_from ?P ?E (rh_miniHeapsInUse h) (rh_miniHeapsInUse r)"
  have ok: "env_ok ?P ?E" using assms(1) by (rule program_env_ok)
  note H = class_random_heap [OF ok, of df]
  have inv: "class_heap_inv ?P df ?E h" using assms(2) by (simp add: class_inv_def)
  note M = random_heap.rh_malloc_spec [OF H inv run]
  have use: "rh_miniHeapsInUse r \<le> 11" "rh_miniHeapsInUse h \<le> 11"
    using M(1) inv by (simp_all add: heap_inv_def heap_shape_def program_MAX)
  have region: "\<exists>j < rh_miniHeapsInUse g. {b..<b + 16 * 2 ^ i} \<subseteq> class_region ?P ?E j"
    if g: "class_heap_inv ?P df ?E g" "b \<in> heap_live (class_live ?P df) g" for b g
  proof -
    obtain j where j: "j < rh_miniHeapsInUse g" "b \<in> class_live ?P df j (rh_buf g ! j)" using g(2) by (auto simp: heap_live_def)
    have "class_ready ?P df ?E j (rh_buf g ! j)" using g(1) j(1) by (simp add: heap_inv_def heap_shape_def)
    from class_live_region [OF this j(2)] j(1) show ?thesis by (auto simp: program_class_size)
  qed
  show "touches (?R \<union> {a..<a + 16 * 2 ^ i}) m m1" by (rule touches_mono [OF rh_malloc_touches [OF H inv run]]) simp
  have "?R \<subseteq> class_own i" unfolding regions_from_def class_own_def using use by (intro UN_mono) auto
  moreover have a: "a \<in> heap_live (class_live ?P df) r" using M(5) by simp
  then have "{a..<a + 16 * 2 ^ i} \<subseteq> class_own i" using region [OF M(1)] use(1) unfolding class_own_def by fastforce
  ultimately show "?R \<union> {a..<a + 16 * 2 ^ i} \<subseteq> class_own i" by simp
  fix b assume "b \<in> class_objects df i h"
  then have b: "b \<in> heap_live (class_live ?P df) h" by (simp add: class_objects_def)
  then have "b \<in> heap_live (class_live ?P df) r" "a \<noteq> b" using M(3,5) by auto
  with class_objects_apart [OF ok M(1) a] have one: "{a..<a + 16 * 2 ^ i} \<inter> {b..<b + 16 * 2 ^ i} = {}"
    by (simp add: program_class_size)
  obtain j where j: "j < rh_miniHeapsInUse h" "{b..<b + 16 * 2 ^ i} \<subseteq> class_region ?P ?E j" using region [OF inv b] by blast
  have "class_region ?P ?E k \<inter> class_region ?P ?E j = {}" if "rh_miniHeapsInUse h \<le> k" "k < rh_miniHeapsInUse r" for k
    using ok that j(1) use by (simp add: env_ok_def program_MAX)
  then have "?R \<inter> class_region ?P ?E j = {}" unfolding regions_from_def by (fastforce simp: disjoint_iff)
  with one j(2) show "(?R \<union> {a..<a + 16 * 2 ^ i}) \<inter> {b..<b + 16 * 2 ^ i} = {}" by blast
qed simp

lemma small_malloc_keeps:
  assumes "program_inv df (s, l)" and "sh_malloc (program_sh df) (program_ops df) sz (s, m) = Some (a, (s', m'), rs)"
    and "sz \<le> 1048576" and "b \<in> program_live df (s, l)"
  shows "same_bytes b (program_getSize df b (s, l)) m m'"
proof -
  define i where "i = getIndex (if sz < Alignment then Alignment else sz)"
  have i: "i < 17" using small_index [OF assms(3)] by (simp add: i_def)
  have ops: "h_malloc (program_ops df c) n (r, k) = rh_malloc (program_class c) (dh_ops (program_class c) df (program_env c)) (r, k)" for c n r k
    by (simp add: program_ops_def class_ops_def)
  obtain r m1 where run: "rh_malloc (program_class i) (dh_ops (program_class i) df (program_env i)) (sh_buf s ! i, m) = Some (a, (r, m1), rs)"
    and m': "m' = (if df then fill a (16 * 2 ^ i) (localRandomValue s) m1 else m1)"
    using assms(2,3) by (auto simp: sh_malloc_def ops program_sh_def getClassSize_pow2 power_add mult.commute i_def Let_def
        split: option.splits prod.splits)
  have inv: "class_inv df i (sh_buf s ! i)" using assms(1) i by (simp add: program_inv_def classes_inv_def)
  from class_malloc_writes [OF i inv run] obtain W where W: "touches W m m1" "{a..<a + 16 * 2 ^ i} \<subseteq> W" "W \<subseteq> class_own i"
    "\<And>b. b \<in> class_objects df i (sh_buf s ! i) \<Longrightarrow> W \<inter> {b..<b + 16 * 2 ^ i} = {}" by blast
  have "touches W m1 m'" using touches_mono [OF touches_fill W(2)] by (simp add: m')
  with W(1) have t: "touches W m m'" using touches_trans [of W m m1 W m'] by simp
  have "W \<inter> {b..<b + program_getSize df b (s, l)} = {}"
  proof (rule program_live_cases [OF assms(1,4)])
    fix c assume c: "c < 17" "b \<in> class_objects df c (sh_buf s ! c)" "program_getSize df b (s, l) = 16 * 2 ^ c"
      "{b..<b + 16 * 2 ^ c} \<subseteq> class_own c"
    show ?thesis
    proof (cases "c = i")
      case True
      with W(4) c(2,3) show ?thesis by simp
    next
      case False
      then have "class_own c \<inter> class_own i = {}" using program_heap.own_apart [of c df i] c(1) i by simp
      with W(3) c(4) show ?thesis unfolding c(3) by blast
    qed
  next
    assume "2 ^ 46 \<le> b"
    moreover have "class_own i \<subseteq> {..<2 ^ 46}" using class_own_range [OF i] i by fastforce
    ultimately show ?thesis using W(3) by fastforce
  qed
  with t show ?thesis by (rule touches_same)
qed

lemma program_malloc_keeps:
  assumes "program_inv df r" and "program_serves sz" and "program_malloc df sz (r, m) = Some (a, (r', m'), rs)" and "b \<in> program_live df r"
  shows "program_getSize df b r' = program_getSize df b r \<and> same_bytes b (program_getSize df b r) m m'"
proof -
  obtain s l s' l' where r: "r = (s, l)" "r' = (s', l')" by (metis surj_pair)
  have i: "program_inv df (s, l)" "program_inv df (s', l')" "b \<in> program_live df (s, l)" "b \<in> program_live df (s', l')"
    using whole.alloc_result [OF assms(1-3)] assms(1,4) by (auto simp: r)
  have lh: "lh_inv 4096 {2 ^ 46..} l" using i(1) by (simp add: program_inv_def)
  from program_malloc_cases [OF assms(3) [unfolded r]] show ?thesis
  proof (elim disjE conjE)
    assume "sz \<le> 1048576" "l' = l" "sh_malloc (program_sh df) (program_ops df) sz (s, m) = Some (a, (s', m'), rs)"
    with small_malloc_keeps [OF i(1) _ _ i(3)] program_size_kept [OF i] show ?thesis by (simp add: r)
  next
    assume c: "1048576 < sz" "s' = s" "lh_malloc 4096 first_fit sz (l, m) = Some (a, (l', m'), rs)"
    have sz: "lh_serves 4096 sz" using assms(2) c(1) by (simp add: program_serves_def)
    have "lh_getSize b l' = lh_getSize b l" if "2 ^ 46 \<le> b"
    proof -
      have "b \<in> lh_live 4096 l"
      proof (rule program_live_cases [OF i(1,3)])
        fix c assume "c < 17" "{b..<b + 16 * 2 ^ c} \<subseteq> class_own c"
        with class_own_range [of c] that show ?thesis by fastforce
      qed
      with large_malloc_keeps [OF lh sz c(3)] show ?thesis by simp
    qed
    moreover have "m' = m" using c(3) by (auto simp: lh_malloc_def Let_def)
    ultimately show ?thesis using program_size_kept [OF i] by (simp add: r)
  qed
qed

lemma program_free_writes:
  assumes "program_inv df (s, l)" and "a \<in> program_live df (s, l) \<or> a \<notin> program_inside df (s, l)"
    and "program_free df a ((s, l), m) = (ok, ((s', l'), m'), rs)"
  shows "if a \<in> program_live df (s, l) then touches {a..<a + program_getSize df a (s, l)} m m' else m' = m"
proof -
  have inv: "classes_inv 17 (class_inv df) s" using assms(1) by (simp add: program_inv_def)
  have side: "a \<in> classes_union 17 (class_objects df) s \<or> a \<notin> classes_union 17 (class_inside df) s"
    using assms(2) program_two.sides(3) [of df s l] assms(1) by (auto simp: program_live_def program_inside_def program_inv_def)
  obtain k s1 m1 rs1 where one: "sh_free (program_sh df) (program_ops df) a (s, m) = (k, (s1, m1), rs1)" by (metis surj_pair)
  have m': "m' = m1" using assms(3) one by (auto simp: program_free_def ch_free_def lh_free_def Let_def split: if_splits)
  obtain j where j: "program_heap.sole_class df s a j"
      "a \<in> classes_union 17 (class_objects df) s \<Longrightarrow> j < 17 \<and> a \<in> class_objects df j (sh_buf s ! j)"
    using program_heap.sole_class_exists [of df s a] inv side by auto
  have t: "touches {a..<a + 16 * 2 ^ j} m m1 \<and> (\<not> k \<longrightarrow> m1 = m)"
    using program_heap.sh_free_touches [of df a "\<lambda>c. {a..<a + 16 * 2 ^ c}" s j m k s1 m1 rs1] program_frees_within inv j(1) one by simp
  show ?thesis
  proof (cases "a \<in> classes_union 17 (class_objects df) s")
    case True
    with j(2) program_small_size [OF assms(1)] have "program_getSize df a (s, l) = 16 * 2 ^ j" by blast
    with t True show ?thesis by (simp add: m' program_live_def)
  next
    case False
    with side have "\<not> k" using program_heap.sh.release_outside [of df s a m k s1 m1 rs1] inv one by simp
    with t show ?thesis by (simp add: m')
  qed
qed

lemma program_free_keeps:
  assumes "program_inv df r" and "a \<in> program_live df r \<or> a \<notin> program_inside df r"
    and "program_free df a (r, m) = (ok, (r', m'), rs)" and "b \<in> program_live df r" and "b \<noteq> a"
  shows "program_getSize df b r' = program_getSize df b r \<and> same_bytes b (program_getSize df b r) m m'"
proof -
  obtain s l s' l' where r: "r = (s, l)" "r' = (s', l')" by (metis surj_pair)
  have "program_inv df r' \<and> b \<in> program_live df r'"
    using assms(2) whole.release_live [OF assms(1) _ assms(3)] whole.release_outside [OF assms(1) _ assms(3)] assms(4,5) by auto
  then have i: "program_inv df (s, l)" "program_inv df (s', l')" "b \<in> program_live df (s, l)" "b \<in> program_live df (s', l')"
    using assms(1,4) by (simp_all add: r)
  have lh: "lh_inv 4096 {2 ^ 46..} l" using i(1) by (simp add: program_inv_def)
  have "lh_getSize b l' = lh_getSize b l" if "2 ^ 46 \<le> b"
  proof -
    have b: "b \<in> lh_live 4096 l"
    proof (rule program_live_cases [OF i(1,3)])
      fix c assume "c < 17" "{b..<b + 16 * 2 ^ c} \<subseteq> class_own c"
      with class_own_range [of c] that show ?thesis by fastforce
    qed
    have "a \<in> lh_live 4096 l \<or> a \<notin> lh_inside l"
      using assms(2) program_two.sides(2) [of df s l] assms(1) by (auto simp: r program_live_def program_inside_def program_inv_def)
    moreover have "l' = l \<or> (\<exists>ok k m1 rs. lh_free 4096 a (l, m1) = (ok, (l', k), rs))"
      using assms(3) by (auto simp: r program_free_def ch_free_def Let_def split: prod.splits if_splits)
    ultimately show ?thesis using large_free_keeps [OF lh _ _ b assms(5)] by blast
  qed
  moreover have "same_bytes b (program_getSize df b (s, l)) m m'"
  proof (cases "a \<in> program_live df (s, l)")
    case True
    with program_free_writes [OF i(1) assms(2) [unfolded r] assms(3) [unfolded r]]
    have "touches {a..<a + program_getSize df a (s, l)} m m'" by simp
    then show ?thesis by (rule touches_same) (use program_objects_apart [OF i(1) True i(3)] assms(5) in blast)
  qed (use program_free_writes [OF i(1) assms(2) [unfolded r] assms(3) [unfolded r]] in simp)
  ultimately show ?thesis using program_size_kept [OF i] by (simp add: r)
qed

interpretation whole_bytes: heap_bytes "program_inv df" "program_live df" "program_inside df"
    "(\<Union>i < 17. class_own i) \<union> {2 ^ 46..}" program_serves "program_malloc df" "program_free df" "program_getSize df"
  for df
  by unfold_locales (fact program_objects_apart program_malloc_size program_malloc_keeps program_free_keeps)+

section \<open>Properties\<close>



end
