(* ===== verification/CWrapper.thy ===== *)
theory CWrapper
  imports HeapBytes HeapShield
begin

text \<open>
  The C functions exported over a heap: \<open>src/util/wrapper.cpp\<close>, included by the fault injectors and the
  allocation log, with 64-bit sizes, and \<open>src/exterminator/src/wrapper.cpp\<close>, the interface of the exterminator
  library, with 32-bit sizes.  \<open>H\<close> is the heap behind \<open>getCustomHeap\<close>, \<open>diefast\<close> the macro
  \<open>DIEHARD_DIEFAST\<close>.  \<open>None\<close>: the heap does not return, or the string has no end.  The lemmas hold for every heap
  that keeps the bytes of its objects (\<open>heap_bytes\<close>), and so for the heap of \<open>libdieharder.cpp\<close>.
\<close>

section \<open>The C library\<close>

fun strnlen :: "mem \<Rightarrow> addr \<Rightarrow> nat \<Rightarrow> nat" where
  "strnlen m s 0 = 0"
| "strnlen m s (Suc n) = (if m s = 0 then 0 else Suc (strnlen m (s + 1) n))"

text \<open>At most \<open>n\<close> characters, padded with zeros to \<open>n\<close>.\<close>

fun c_strncpy :: "nat \<Rightarrow> addr \<Rightarrow> addr \<Rightarrow> mem \<Rightarrow> mem" where
  "c_strncpy 0 d s m = m"
| "c_strncpy (Suc n) d s m = (if m s = 0 then memset m d 0 (Suc n) else c_strncpy n (d + 1) (s + 1) (m(d := m s)))"

text \<open>A wide character has four bytes.\<close>

definition wide_zero :: "mem \<Rightarrow> addr \<Rightarrow> bool" where
  "wide_zero m p \<longleftrightarrow> m p = 0 \<and> m (p + 1) = 0 \<and> m (p + 2) = 0 \<and> m (p + 3) = 0"

partial_function (option) wcslen :: "mem \<Rightarrow> addr \<Rightarrow> nat option" where
  "wcslen m p = (if wide_zero m p then Some 0 else do { n \<leftarrow> wcslen m (p + 4); Some (n + 1) })"

definition c_wcscpy :: "addr \<Rightarrow> addr \<Rightarrow> mem \<Rightarrow> mem option" where
  "c_wcscpy dest src m = do { n \<leftarrow> wcslen m src; Some (c_memcpy dest src (4 * (n + 1)) m) }"

section \<open>The wrapper of the test tools\<close>

definition custom_malloc :: "bool \<Rightarrow> 'r heap_ops \<Rightarrow> 'r heap_malloc" where
  "custom_malloc diefast H sz s = do {
     (ptr, (r, m), rs) \<leftarrow> h_malloc H sz s;
     Some (ptr, (r, if \<not> diefast \<and> ptr \<noteq> 0 then memset m ptr 0 sz else m), rs) }"

definition custom_calloc :: "'r heap_ops \<Rightarrow> nat \<Rightarrow> nat \<Rightarrow> 'r \<times> mem \<Rightarrow> (addr \<times> ('r \<times> mem) \<times> report list) option" where
  "custom_calloc H nelem elsize s =
     (let n = nelem * elsize mod 2 ^ 64; n = (if n = 0 then 1 else n)
      in do {
        (ptr, (r, m), rs) \<leftarrow> h_malloc H n s;
        Some (ptr, (r, if ptr \<noteq> 0 then memset m ptr 0 n else m), rs) })"

definition custom_memalign :: "bool \<Rightarrow> 'r heap_ops \<Rightarrow> nat \<Rightarrow> 'r heap_malloc" where
  "custom_memalign diefast H boundary sz s = do {
     (buf, s, rs) \<leftarrow> custom_malloc diefast H ((2 * boundary + sz) mod 2 ^ 64) s;
     Some (unat ((word_of_nat buf + word_of_nat boundary - 1 :: u64) AND NOT (word_of_nat boundary - 1)), s, rs) }"

definition custom_getsize :: "'r heap_ops \<Rightarrow> addr \<Rightarrow> 'r \<Rightarrow> nat" where
  "custom_getsize H ptr r = (if ptr = 0 then 0 else let objSize = h_getSize H ptr r in objSize)"

definition custom_free :: "'r heap_ops \<Rightarrow> addr \<Rightarrow> 'r \<times> mem \<Rightarrow> ('r \<times> mem) \<times> report list" where
  "custom_free H ptr s = (let (ok, s, rs) = h_free H ptr s in (s, rs))"

definition custom_cfree :: "'r heap_ops \<Rightarrow> addr \<Rightarrow> 'r \<times> mem \<Rightarrow> ('r \<times> mem) \<times> report list" where
  "custom_cfree H ptr s = (let (ok, s, rs) = h_free H ptr s in (s, rs))"

definition custom_realloc :: "bool \<Rightarrow> 'r heap_ops \<Rightarrow> addr \<Rightarrow> 'r heap_malloc" where
  "custom_realloc diefast H ptr sz s =
     (if ptr = 0 then custom_malloc diefast H sz s
      else if sz = 0 then let (s, rs) = custom_free H ptr s in Some (0, s, rs)
      else let objSize = custom_getsize H ptr (fst s) in do {
        (buf, (r, m), rs) \<leftarrow> custom_malloc diefast H sz s;
        let m = (if buf \<noteq> 0 then let minSize = (if objSize < sz then objSize else sz) in c_memcpy buf ptr minSize m else m);
            (s, rs') = custom_free H ptr (r, m)
        in Some (buf, s, rs @ rs') })"

definition custom_strndup :: "bool \<Rightarrow> 'r heap_ops \<Rightarrow> addr \<Rightarrow> 'r heap_malloc" where
  "custom_strndup diefast H p sz s =
     (if p = 0 then Some (0, s, [])
      else let cappedLength = strnlen (snd s) p sz in do {
        (newString, (r, m), rs) \<leftarrow> custom_malloc diefast H ((cappedLength + 1) mod 2 ^ 64) s;
        Some (newString, (r, if newString \<noteq> 0 then (c_strncpy cappedLength newString p m)(newString + cappedLength := 0) else m), rs) })"

text \<open>The length goes through an \<open>int\<close>.\<close>

definition int_size :: "nat \<Rightarrow> nat" where
  "int_size n = unat (scast (word_of_nat n :: u32) :: u64)"

definition custom_strdup :: "bool \<Rightarrow> 'r heap_ops \<Rightarrow> addr \<Rightarrow> 'r \<times> mem \<Rightarrow> (addr \<times> ('r \<times> mem) \<times> report list) option" where
  "custom_strdup diefast H p s =
     (if p = 0 then Some (0, s, [])
      else do {
        n \<leftarrow> strlen (snd s) p;
        let len = int_size (n + 1)
        in do {
          (newString, (r, m), rs) \<leftarrow> custom_malloc diefast H len s;
          Some (newString, (r, if newString \<noteq> 0 then c_strncpy len newString p m else m), rs) } })"

definition custom_wcsdup :: "bool \<Rightarrow> 'r heap_ops \<Rightarrow> addr \<Rightarrow> 'r \<times> mem \<Rightarrow> (addr \<times> ('r \<times> mem) \<times> report list) option" where
  "custom_wcsdup diefast H p s =
     (if p = 0 then Some (0, s, [])
      else do {
        n \<leftarrow> wcslen (snd s) p;
        (newString, (r, m), rs) \<leftarrow> custom_malloc diefast H ((n + 1) mod 2 ^ 64) s;
        if newString \<noteq> 0 then do { m \<leftarrow> c_wcscpy newString p m; Some (newString, (r, m), rs) } else Some (newString, (r, m), rs) })"

definition operator_new :: "bool \<Rightarrow> 'r heap_ops \<Rightarrow> 'r heap_malloc" where
  "operator_new diefast H sz s = custom_malloc diefast H sz s"

definition operator_delete :: "'r heap_ops \<Rightarrow> addr \<Rightarrow> 'r \<times> mem \<Rightarrow> ('r \<times> mem) \<times> report list" where
  "operator_delete H ptr s = custom_free H ptr s"

text \<open>\<open>real_getcwd\<close> is the function of the C library.\<close>

definition PATH_MAX :: nat where "PATH_MAX = 4096"

definition custom_getcwd :: "(addr \<Rightarrow> nat \<Rightarrow> mem \<Rightarrow> addr \<times> mem) \<Rightarrow> bool \<Rightarrow> 'r heap_ops \<Rightarrow> addr \<Rightarrow> 'r heap_malloc" where
  "custom_getcwd real_getcwd diefast H buf sz s = do {
     (buf, sz, (r, m), rs) \<leftarrow>
       (if buf = 0
        then let sz = (if sz = 0 then PATH_MAX else sz)
             in do { (buf, s, rs) \<leftarrow> custom_malloc diefast H sz s; Some (buf, sz, s, rs) }
        else Some (buf, sz, s, []));
     let (p, m) = real_getcwd buf sz m in Some (p, (r, m), rs) }"

definition custom_mallopt :: "int \<Rightarrow> int \<Rightarrow> int" where
  "custom_mallopt number value = 0"

definition custom_valloc :: "bool \<Rightarrow> 'r heap_ops \<Rightarrow> 'r heap_malloc" where
  "custom_valloc diefast H sz s = custom_memalign diefast H 8192 sz s"

definition custom_pvalloc :: "bool \<Rightarrow> 'r heap_ops \<Rightarrow> 'r heap_malloc" where
  "custom_pvalloc diefast H sz s =
     (let sz = unat ((word_of_nat sz + 8191 :: u64) AND NOT 8191) in custom_valloc diefast H sz s)"

section \<open>The wrapper of the exterminator\<close>

definition xw_malloc :: "'r heap_ops \<Rightarrow> 'r heap_malloc" where
  "xw_malloc H sz s = h_malloc H sz s"

definition xw_free :: "'r heap_ops \<Rightarrow> addr \<Rightarrow> 'r \<times> mem \<Rightarrow> ('r \<times> mem) \<times> report list" where
  "xw_free H ptr s = (let (ok, s, rs) = h_free H ptr s in (s, rs))"

definition xw_calloc :: "'r heap_ops \<Rightarrow> nat \<Rightarrow> nat \<Rightarrow> 'r \<times> mem \<Rightarrow> (addr \<times> ('r \<times> mem) \<times> report list) option" where
  "xw_calloc H nelem elsize s =
     (let n = nelem * elsize mod 2 ^ 32
      in do {
        (ptr, (r, m), rs) \<leftarrow> h_malloc H n s;
        Some (ptr, (r, if ptr \<noteq> 0 then memset m ptr 0 n else m), rs) })"

definition xw_memalign :: "'r heap_ops \<Rightarrow> nat \<Rightarrow> 'r heap_malloc" where
  "xw_memalign H boundary sz s = xw_malloc H sz s"

definition xw_getsize :: "'r heap_ops \<Rightarrow> addr \<Rightarrow> 'r \<Rightarrow> nat" where
  "xw_getsize H ptr r = (if ptr = 0 then 0 else h_getSize H ptr r)"

definition xw_realloc :: "'r heap_ops \<Rightarrow> addr \<Rightarrow> 'r heap_malloc" where
  "xw_realloc H ptr sz s =
     (if ptr = 0 then xw_malloc H sz s
      else if sz = 0 then let (s, rs) = xw_free H ptr s in Some (0, s, rs)
      else let objSize = xw_getsize H ptr (fst s) in do {
        (buf, (r, m), rs) \<leftarrow> xw_malloc H sz s;
        let m = (if buf \<noteq> 0 then let minSize = (if objSize < sz then objSize else sz) in c_memcpy buf ptr minSize m else m);
            (s, rs') = xw_free H ptr (r, m)
        in Some (buf, s, rs @ rs') })"

definition xw_strdup :: "'r heap_ops \<Rightarrow> addr \<Rightarrow> 'r \<times> mem \<Rightarrow> (addr \<times> ('r \<times> mem) \<times> report list) option" where
  "xw_strdup H p s =
     (if p = 0 then Some (0, s, [])
      else do {
        n \<leftarrow> strlen (snd s) p;
        (newString, (r, m), rs) \<leftarrow> xw_malloc H ((n + 1) mod 2 ^ 32) s;
        Some (newString, (r, if newString \<noteq> 0 then c_memcpy newString p (n + 1) m else m), rs) })"

definition xw_cfree :: "'r heap_ops \<Rightarrow> addr \<Rightarrow> 'r \<times> mem \<Rightarrow> ('r \<times> mem) \<times> report list" where
  "xw_cfree H ptr s = (let (ok, s, rs) = h_free H ptr s in (s, rs))"

definition xw_strndup :: "'r heap_ops \<Rightarrow> addr \<Rightarrow> 'r heap_malloc" where
  "xw_strndup H p sz s =
     (if p = 0 then Some (0, s, [])
      else let cappedLength = strnlen (snd s) p sz in do {
        (newString, (r, m), rs) \<leftarrow> xw_malloc H ((cappedLength + 1) mod 2 ^ 32) s;
        Some (newString, (r, if newString \<noteq> 0 then (c_strncpy cappedLength newString p m)(newString + cappedLength := 0) else m), rs) })"

definition xw_wcsdup :: "'r heap_ops \<Rightarrow> addr \<Rightarrow> 'r \<times> mem \<Rightarrow> (addr \<times> ('r \<times> mem) \<times> report list) option" where
  "xw_wcsdup H p s =
     (if p = 0 then Some (0, s, [])
      else do {
        n \<leftarrow> wcslen (snd s) p;
        (newString, (r, m), rs) \<leftarrow> xw_malloc H ((n + 1) mod 2 ^ 32) s;
        if newString \<noteq> 0 then do { m \<leftarrow> c_wcscpy newString p m; Some (newString, (r, m), rs) } else Some (newString, (r, m), rs) })"

definition xw_getcwd :: "(addr \<Rightarrow> nat \<Rightarrow> mem \<Rightarrow> addr \<times> mem) \<Rightarrow> 'r heap_ops \<Rightarrow> addr \<Rightarrow> 'r heap_malloc" where
  "xw_getcwd real_getcwd H buf sz s = do {
     (buf, sz, (r, m), rs) \<leftarrow>
       (if buf = 0
        then let sz = (if sz = 0 then PATH_MAX else sz)
             in do { (buf, s, rs) \<leftarrow> xw_malloc H sz s; Some (buf, sz, s, rs) }
        else Some (buf, sz, s, []));
     let (p, m) = real_getcwd buf sz m in Some (p, (r, m), rs) }"

definition xw_operator_new :: "'r heap_ops \<Rightarrow> 'r heap_malloc" where
  "xw_operator_new H sz s = xw_malloc H sz s"

definition xw_operator_delete :: "'r heap_ops \<Rightarrow> addr \<Rightarrow> 'r \<times> mem \<Rightarrow> ('r \<times> mem) \<times> report list" where
  "xw_operator_delete H ptr s = xw_free H ptr s"

definition xw_mallopt :: "int \<Rightarrow> int \<Rightarrow> int" where
  "xw_mallopt number value = 0"

definition xw_valloc :: "'r heap_ops \<Rightarrow> 'r heap_malloc" where
  "xw_valloc H sz s = xw_malloc H sz s"

definition xw_pvalloc :: "'r heap_ops \<Rightarrow> 'r heap_malloc" where
  "xw_pvalloc H sz s = xw_malloc H sz s"

text \<open>Without the filling with zeros, and for sizes that fit 32 bits, the two wrappers agree on \<open>realloc\<close>, \<open>strndup\<close>,
  \<open>getcwd\<close> and \<open>malloc_usable_size\<close>; \<open>calloc\<close>, \<open>memalign\<close> and the copies of whole strings differ.\<close>

lemma xw_malloc_eq: "xw_malloc H = custom_malloc True H"
  by (intro ext, rename_tac n s, case_tac "h_malloc H n s") (auto simp: custom_malloc_def xw_malloc_def split: prod.splits)

lemma xw_free_eq: "xw_free H = custom_free H" "xw_getsize H = custom_getsize H"
  by (simp_all add: fun_eq_iff xw_free_def custom_free_def xw_getsize_def custom_getsize_def)

lemma xw_realloc_eq: "xw_realloc H = custom_realloc True H"
  by (simp add: fun_eq_iff xw_realloc_def custom_realloc_def xw_malloc_eq xw_free_eq)

lemma xw_getcwd_eq: "xw_getcwd f H = custom_getcwd f True H"
  by (simp add: fun_eq_iff xw_getcwd_def custom_getcwd_def xw_malloc_eq)

lemma strnlen_le: "strnlen m p n \<le> n"
  by (induction n arbitrary: p) auto

lemma xw_strndup_eq: "sz + 1 < 2 ^ 32 \<Longrightarrow> xw_strndup H p sz s = custom_strndup True H p sz s"
  using strnlen_le [of "snd s" p sz] by (simp add: xw_strndup_def custom_strndup_def xw_malloc_eq Let_def)

section \<open>What the functions do over any heap\<close>

text \<open>The objects of \<open>S\<close> keep their sizes and bytes.\<close>

definition objects_kept :: "(addr \<Rightarrow> 'r \<Rightarrow> nat) \<Rightarrow> addr set \<Rightarrow> 'r \<times> mem \<Rightarrow> 'r \<times> mem \<Rightarrow> bool" where
  "objects_kept size_of S s s' \<longleftrightarrow>
     (\<forall>b \<in> S. size_of b (fst s') = size_of b (fst s) \<and> same_bytes b (size_of b (fst s)) (snd s) (snd s'))"

lemma objects_kept_trans: "objects_kept f S s s1 \<Longrightarrow> objects_kept f T s1 s2 \<Longrightarrow> S \<subseteq> T \<Longrightarrow> objects_kept f S s s2"
  unfolding objects_kept_def
proof
  fix b
  assume k: "\<forall>b \<in> S. f b (fst s1) = f b (fst s) \<and> same_bytes b (f b (fst s)) (snd s) (snd s1)"
    "\<forall>b \<in> T. f b (fst s2) = f b (fst s1) \<and> same_bytes b (f b (fst s1)) (snd s1) (snd s2)" and b: "S \<subseteq> T" "b \<in> S"
  from k(1) b(2) have one: "f b (fst s1) = f b (fst s)" "same_bytes b (f b (fst s)) (snd s) (snd s1)" by auto
  from k(2) b have "f b (fst s2) = f b (fst s1)" "same_bytes b (f b (fst s1)) (snd s1) (snd s2)" by auto
  with one same_bytes_trans show "f b (fst s2) = f b (fst s) \<and> same_bytes b (f b (fst s)) (snd s) (snd s2)" by auto
qed

lemma objects_kept_mono: "objects_kept f S s s' \<Longrightarrow> T \<subseteq> S \<Longrightarrow> objects_kept f T s s'"
  unfolding objects_kept_def by blast

lemma objects_kept_byte: "objects_kept f S (r, m) (r', m') \<Longrightarrow> b \<in> S \<Longrightarrow> i < f b r \<Longrightarrow> m' (b + i) = m (b + i)"
  unfolding objects_kept_def using same_bytesD by fastforce

lemma objects_kept_bytes:
  "objects_kept f S (r, m) (r', m') \<Longrightarrow> \<forall>b \<in> S. f b r' = f b r \<and> (\<forall>i < f b r. m' (b + i) = m (b + i))"
  unfolding objects_kept_def using same_bytesD by fastforce

text \<open>Writes into the object \<open>a\<close> keep the others.\<close>

lemma objects_kept_write:
  assumes "touches {a..<a + k} m m'" and "\<And>b. b \<in> S \<Longrightarrow> {a..<a + k} \<inter> {b..<b + f b r} = {}"
  shows "objects_kept f S (r, m) (r, m')"
  using assms touches_same unfolding objects_kept_def by auto

lemma touches_memset: "touches {a..<a + n} m (memset m a v n)"
  by (auto simp: touches_def memset_def)

lemma touches_memcpy: "touches {a..<a + n} m (c_memcpy a b n m)"
  by (auto simp: touches_def c_memcpy_def)

lemma c_strncpy_touches: "touches {d..<d + n} m (c_strncpy n d s m)"
proof (induction n arbitrary: d s m)
  case (Suc n)
  show ?case
  proof (cases "m s = 0")
    case True
    then show ?thesis using touches_memset [of d "Suc n" m 0] by simp
  next
    case False
    have "touches {d} m (m(d := m s))" by (simp add: touches_def)
    from touches_trans [OF this Suc.IH [of "d + 1" "m(d := m s)" "s + 1"]] have "touches ({d} \<union> {d + 1..<d + 1 + n}) m (c_strncpy (Suc n) d s m)"
      using False by (simp add: fun_upd_def)
    then show ?thesis by (rule touches_mono) auto
  qed
qed simp

text \<open>A string that ends within the limit is copied with its end.\<close>

lemma c_strncpy_string:
  assumes "\<forall>i < l. m (s + i) \<noteq> 0" and "m (s + l) = 0" and "l < n" and "s + l < d \<or> d + n \<le> s"
  shows "\<forall>i \<le> l. c_strncpy n d s m (d + i) = m (s + i)"
  using assms
proof (induction n arbitrary: d s m l)
  case (Suc n)
  show ?case
  proof (cases l)
    case 0
    with Suc.prems show ?thesis by (simp add: memset_def)
  next
    case (Suc k)
    let ?m = "m(d := m s)"
    have nz: "m s \<noteq> 0" using Suc.prems(1) Suc by (metis add.right_neutral zero_less_Suc)
    have "\<forall>i \<le> k. c_strncpy n (d + 1) (s + 1) ?m (d + 1 + i) = ?m (s + 1 + i)"
      by (rule Suc.IH) (use Suc.prems Suc in auto)
    then have "c_strncpy n (d + 1) (s + 1) ?m (d + Suc i) = m (s + Suc i)" if "Suc i \<le> l" for i
      using that Suc Suc.prems(3,4) by (auto split: if_splits)
    moreover have "c_strncpy n (d + 1) (s + 1) ?m d = m s"
      using c_strncpy_touches [of "d + 1" n ?m "s + 1"] by (simp add: touches_def)
    ultimately show ?thesis using nz by (metis c_strncpy.simps(2) add.right_neutral not0_implies_Suc)
  qed
qed simp

lemma int_size_small: "n < 2 ^ 31 \<Longrightarrow> int_size n = n"
proof -
  assume n: "n < 2 ^ 31"
  then have u: "uint (word_of_nat n :: u32) = int n" by (simp add: unsigned_of_nat take_bit_nat_eq_self)
  have "sint (word_of_nat n :: u32) = int n"
    using n by (simp add: sint_uint u signed_take_bit_int_eq_self)
  then have "uint (scast (word_of_nat n :: u32) :: u64) = int n" using n by (simp add: scast_eq unsigned_of_nat take_bit_nat_eq_self)
  then show ?thesis by (simp add: int_size_def unat_eq_nat_uint)
qed

context heap_bytes begin

abbreviation H :: "'a heap_ops" where
  "H \<equiv> \<lparr>h_malloc = alloc, h_free = release, h_getSize = size_of\<rparr>"

lemma live_nonzero: "inv r \<Longrightarrow> a \<in> live r \<Longrightarrow> a \<noteq> 0"
  using null_foreign live_inside [THEN subsetD] inside_own [THEN subsetD] by metis

text \<open>A new block: fresh, large enough, and everything else is objects_kept.\<close>

definition new_block :: "nat \<Rightarrow> 'a \<times> mem \<Rightarrow> addr \<Rightarrow> 'a \<times> mem \<Rightarrow> bool" where
  "new_block sz s a s' \<longleftrightarrow> inv (fst s') \<and> objects_kept size_of (live (fst s)) s s'
     \<and> (if a = 0 then live (fst s') = live (fst s)
        else a \<notin> live (fst s) \<and> live (fst s') = insert a (live (fst s)) \<and> sz \<le> size_of a (fst s')
          \<and> (\<forall>b \<in> live (fst s). {a..<a + size_of a (fst s')} \<inter> {b..<b + size_of b (fst s)} = {}))"

lemma new_block_alloc:
  assumes "inv r" and "serves sz" and "alloc sz (r, m) = Some (a, (r', m'), rs)"
  shows "new_block sz (r, m) a (r', m')"
  using alloc_result [OF assms] alloc_keeps [OF assms] alloc_fits [OF assms] alloc_fresh(1) [OF assms] alloc_apart [OF assms]
  by (auto simp: new_block_def objects_kept_def)

text \<open>Filling the new block changes nothing else.\<close>

lemma new_block_write:
  assumes "new_block sz (r, m) a (r', m')" and "a \<noteq> 0" and "touches {a..<a + k} m' m2" and "k \<le> sz"
  shows "new_block sz (r, m) a (r', m2)"
proof -
  have n: "objects_kept size_of (live r) (r, m) (r', m')" "sz \<le> size_of a r'"
    "\<And>b. b \<in> live r \<Longrightarrow> {a..<a + size_of a r'} \<inter> {b..<b + size_of b r} = {}"
    using assms(1,2) by (auto simp: new_block_def)
  have "objects_kept size_of (live r) (r', m') (r', m2)"
  proof (rule objects_kept_write [OF assms(3)])
    fix b assume b: "b \<in> live r"
    then have "size_of b r' = size_of b r" using n(1) by (simp add: objects_kept_def)
    moreover have "{a..<a + k} \<subseteq> {a..<a + size_of a r'}" using assms(4) n(2) by auto
    ultimately show "{a..<a + k} \<inter> {b..<b + size_of b r'} = {}" using n(3) [OF b] by auto
  qed
  from objects_kept_trans [OF n(1) this] assms(1) show ?thesis unfolding new_block_def fst_conv by blast
qed

lemma custom_malloc_block:
  assumes "inv r" and "serves sz" and "custom_malloc diefast H sz (r, m) = Some (a, (r', m'), rs)"
  shows "new_block sz (r, m) a (r', m')" and "\<not> diefast \<Longrightarrow> a \<noteq> 0 \<Longrightarrow> i < sz \<Longrightarrow> m' (a + i) = 0"
proof -
  obtain m1 where c: "alloc sz (r, m) = Some (a, (r', m1), rs)" "m' = (if \<not> diefast \<and> a \<noteq> 0 then memset m1 a 0 sz else m1)"
    using assms(3) by (auto simp: custom_malloc_def bind_eq_Some_conv)
  note n = new_block_alloc [OF assms(1,2) c(1)]
  show "new_block sz (r, m) a (r', m')"
    using n new_block_write [OF n _ touches_memset order_refl] by (simp add: c(2))
  show "\<not> diefast \<Longrightarrow> a \<noteq> 0 \<Longrightarrow> i < sz \<Longrightarrow> m' (a + i) = 0" by (simp add: c(2) memset_def)
qed

lemma custom_calloc_block:
  assumes "inv r" and "n = (if nelem * elsize mod 2 ^ 64 = 0 then 1 else nelem * elsize mod 2 ^ 64)" and "serves n"
    and "custom_calloc H nelem elsize (r, m) = Some (a, (r', m'), rs)"
  shows "new_block n (r, m) a (r', m')" and "a \<noteq> 0 \<Longrightarrow> i < n \<Longrightarrow> m' (a + i) = 0"
proof -
  have "do { (a, (r, m), rs) \<leftarrow> alloc n (r, m); Some (a, (r, if a \<noteq> 0 then memset m a 0 n else m), rs) } = Some (a, (r', m'), rs)"
    using assms(4) by (simp only: custom_calloc_def Let_def assms(2) heap_ops.simps)
  then obtain m1 where c: "alloc n (r, m) = Some (a, (r', m1), rs)" "m' = (if a \<noteq> 0 then memset m1 a 0 n else m1)"
    by (auto simp: bind_eq_Some_conv)
  note b = new_block_alloc [OF assms(1,3) c(1)]
  show "new_block n (r, m) a (r', m')"
    using b new_block_write [OF b _ touches_memset order_refl] by (cases "a = 0") (simp_all add: c(2))
  show "a \<noteq> 0 \<Longrightarrow> i < n \<Longrightarrow> m' (a + i) = 0" by (simp add: c(2) memset_def)
qed

lemma custom_free_live:
  assumes "inv r" and "a \<in> live r" and "custom_free H a (r, m) = ((r', m'), rs)"
  shows "inv r' \<and> live r' = live r - {a} \<and> objects_kept size_of (live r - {a}) (r, m) (r', m')"
proof -
  obtain ok where f: "release a (r, m) = (ok, (r', m'), rs)"
    using assms(3) by (auto simp: custom_free_def Let_def split: prod.splits)
  from release_live [OF assms(1,2) f] release_keeps [OF assms(1) _ f] assms(2) show ?thesis by (auto simp: objects_kept_def)
qed

text \<open>\<open>realloc\<close> moves the object: the common bytes are copied, and the old object is freed in every case.\<close>

lemma custom_realloc_live:
  assumes "inv r" and "p \<in> live r" and "0 < sz" and "serves sz" and "custom_realloc diefast H p sz (r, m) = Some (a, (r', m'), rs)"
  shows "inv r' \<and> live r' = (if a = 0 then live r - {p} else insert a (live r - {p})) \<and> objects_kept size_of (live r - {p}) (r, m) (r', m')
    \<and> (a \<noteq> 0 \<longrightarrow> a \<notin> live r \<and> sz \<le> size_of a r' \<and> (\<forall>i < min (size_of p r) sz. m' (a + i) = m (p + i)))"
proof -
  note p0 = live_nonzero [OF assms(1,2)]
  let ?n = "min (size_of p r) sz"
  obtain r1 m1 rs1 rs2 where c: "custom_malloc diefast H sz (r, m) = Some (a, (r1, m1), rs1)"
    and f: "custom_free H p (r1, if a \<noteq> 0 then c_memcpy a p ?n m1 else m1) = ((r', m'), rs2)"
  proof (cases "custom_malloc diefast H sz (r, m)")
    case None
    with assms(3,5) p0 show thesis by (simp add: custom_realloc_def)
  next
    case (Some x)
    then obtain b r1 m1 rs1 where x: "custom_malloc diefast H sz (r, m) = Some (b, (r1, m1), rs1)" by (cases x) auto
    obtain s2 rs2 where y: "custom_free H p (r1, if b \<noteq> 0 then c_memcpy b p ?n m1 else m1) = (s2, rs2)" by (metis surj_pair)
    have "(if size_of p r < sz then size_of p r else sz) = ?n" by simp
    with assms(3,5) p0 x y have "b = a" "s2 = (r', m')" by (simp_all add: custom_realloc_def custom_getsize_def Let_def cong: if_cong)
    with x y show thesis by (intro that) auto
  qed
  define m2 where "m2 = (if a \<noteq> 0 then c_memcpy a p ?n m1 else m1)"
  note n = custom_malloc_block(1) [OF assms(1,4) c]
  have t: "touches {a..<a + ?n} m1 (c_memcpy a p ?n m1)" by (rule touches_memcpy)
  have n2: "new_block sz (r, m) a (r1, m2)" using n new_block_write [OF n _ t] by (cases "a = 0") (simp_all add: m2_def)
  then have b: "inv r1" "p \<in> live r1" "objects_kept size_of (live r) (r, m) (r1, m2)" using assms(2) by (auto simp: new_block_def split: if_splits)
  note F = custom_free_live [OF b(1,2) f [folded m2_def]]
  have sub: "live r - {p} \<subseteq> live r1 - {p}" using n2 by (auto simp: new_block_def split: if_splits)
  have "objects_kept size_of (live r - {p}) (r1, m2) (r', m')" using F sub objects_kept_mono by blast
  with b(3) have k: "objects_kept size_of (live r - {p}) (r, m) (r', m')" by (meson Diff_subset objects_kept_mono objects_kept_trans order_refl)
  have new: "a \<notin> live r \<and> sz \<le> size_of a r' \<and> (\<forall>i < ?n. m' (a + i) = m (p + i))" if a: "a \<noteq> 0"
  proof -
    have ap: "a \<notin> live r" "a \<in> live r1 - {p}" "sz \<le> size_of a r1" "{a..<a + size_of a r1} \<inter> {p..<p + size_of p r} = {}"
      using n2 a assms(2) by (auto simp: new_block_def)
    have fin: "size_of a r' = size_of a r1" "same_bytes a (size_of a r1) m2 m'" using F ap(2) by (auto simp: objects_kept_def)
    have "m' (a + i) = m (p + i)" if i: "i < ?n" for i
    proof -
      have "m' (a + i) = m2 (a + i)" using fin(2) i ap(3) by (auto intro: same_bytesD)
      also have "\<dots> = m1 (p + i)" using a i by (simp add: m2_def c_memcpy_def)
      also have "\<dots> = m (p + i)" using n assms(2) i by (auto simp: new_block_def intro: objects_kept_byte)
      finally show ?thesis .
    qed
    with ap fin show ?thesis by simp
  qed
  have "live r1 = (if a = 0 then live r else insert a (live r))" "a \<noteq> 0 \<Longrightarrow> a \<noteq> p"
    using n2 assms(2) by (auto simp: new_block_def)
  with F k new show ?thesis by auto
qed

lemma custom_realloc_ends:
  shows "custom_realloc diefast H 0 sz s = custom_malloc diefast H sz s"
    and "inv r \<Longrightarrow> p \<in> live r \<Longrightarrow> \<exists>r' m' rs. custom_realloc diefast H p 0 (r, m) = Some (0, (r', m'), rs) \<and> inv r'
      \<and> live r' = live r - {p} \<and> objects_kept size_of (live r - {p}) (r, m) (r', m')"
proof -
  show "custom_realloc diefast H 0 sz s = custom_malloc diefast H sz s" by (simp add: custom_realloc_def)
  assume p: "inv r" "p \<in> live r"
  note p0 = live_nonzero [OF p]
  obtain r' m' rs where f: "custom_free H p (r, m) = ((r', m'), rs)" by (metis surj_pair)
  from custom_free_live [OF p f] f p0 show "\<exists>r' m' rs. custom_realloc diefast H p 0 (r, m) = Some (0, (r', m'), rs) \<and> inv r'
      \<and> live r' = live r - {p} \<and> objects_kept size_of (live r - {p}) (r, m) (r', m')" by (simp add: custom_realloc_def)
qed

lemma custom_realloc_returns:
  "p \<noteq> 0 \<Longrightarrow> 0 < sz \<Longrightarrow> alloc sz (r, m) \<noteq> None \<Longrightarrow> custom_realloc diefast H p sz (r, m) \<noteq> None"
  by (auto simp: custom_realloc_def custom_malloc_def bind_eq_None_conv Let_def split: prod.splits)

end

text \<open>Rounding up to a power of two.\<close>

lemma align_up:
  assumes "k < 64" and "x + 2 ^ k \<le> 2 ^ 64"
  shows "unat ((word_of_nat x + word_of_nat (2 ^ k) - 1 :: u64) AND NOT (word_of_nat (2 ^ k) - 1)) = (x + 2 ^ k - 1) div 2 ^ k * 2 ^ k"
proof -
  let ?w = "word_of_nat (x + 2 ^ k - 1) :: u64"
  have lt: "x + 2 ^ k - 1 < 2 ^ 64" using assms(2) by (simp add: Suc_le_eq less_diff_conv2)
  have w: "word_of_nat x + word_of_nat (2 ^ k) - 1 = ?w"
    by (subst of_nat_diff) (auto simp: Suc_le_eq)
  have m: "word_of_nat (2 ^ k) - 1 = (mask k :: u64)" by (simp add: mask_eq_exp_minus_1)
  have "?w AND NOT (mask k) = push_bit k (drop_bit k ?w)" by (rule bit_word_eqI) (auto simp: bit_simps)
  then have "unat (?w AND NOT (mask k)) = unat (drop_bit k ?w) * 2 ^ k mod 2 ^ 64"
    by (simp only: unsigned_push_bit_eq push_bit_nat_mult take_bit_eq_mod) simp
  also have "unat (drop_bit k ?w) = (x + 2 ^ k - 1) div 2 ^ k"
    using lt by (simp add: unat_drop_bit_eq drop_bit_nat_div unsigned_of_nat take_bit_nat_eq_self)
  also have "(x + 2 ^ k - 1) div 2 ^ k * 2 ^ k mod 2 ^ 64 = (x + 2 ^ k - 1) div 2 ^ k * 2 ^ k"
    using lt by (intro mod_less) (metis div_times_less_eq_dividend le_less_trans)
  finally show ?thesis by (simp only: w m)
qed

lemma wcslen_cong: "wcslen m p = Some n \<Longrightarrow> (\<And>j. j < 4 * (n + 1) \<Longrightarrow> m' (p + j) = m (p + j)) \<Longrightarrow> wcslen m' p = Some n"
proof (induction n arbitrary: p)
  case (Suc n)
  have z: "wide_zero m' p \<longleftrightarrow> wide_zero m p"
    using Suc.prems(2) [of 0] Suc.prems(2) [of 1] Suc.prems(2) [of 2] Suc.prems(2) [of 3] by (simp add: wide_zero_def)
  have w: "\<not> wide_zero m p" "wcslen m (p + 4) = Some n"
    using Suc.prems(1) by (subst (asm) wcslen.simps; auto simp: bind_eq_Some_conv split: if_splits)+
  have "wcslen m' (p + 4) = Some n"
  proof (rule Suc.IH [OF w(2)])
    fix j assume "j < 4 * (n + 1)"
    then show "m' (p + 4 + j) = m (p + 4 + j)" using Suc.prems(2) [of "4 + j"] by (simp add: add.assoc)
  qed
  with z w(1) show ?case by (subst wcslen.simps) simp
next
  case 0
  have z: "wide_zero m' p \<longleftrightarrow> wide_zero m p"
    using 0(2) [of 0] 0(2) [of 1] 0(2) [of 2] 0(2) [of 3] by (simp add: wide_zero_def)
  have "wide_zero m p" using 0(1) by (subst (asm) wcslen.simps) (auto simp: bind_eq_Some_conv split: if_splits)
  with z show ?case by (subst wcslen.simps) simp
qed

context heap_bytes begin

text \<open>A string in a live object is copied whole.\<close>

lemma custom_strdup_block:
  assumes "inv r" and "b \<in> live r" and "b \<le> p" and "p + n < b + size_of b r" and "strlen m p = Some n" and "n + 1 < 2 ^ 31"
    and "serves (n + 1)" and "custom_strdup diefast H p (r, m) = Some (a, (r', m'), rs)"
  shows "new_block (n + 1) (r, m) a (r', m')" and "a \<noteq> 0 \<Longrightarrow> i \<le> n \<Longrightarrow> m' (a + i) = m (p + i)"
proof -
  have p0: "p \<noteq> 0" using live_nonzero [OF assms(1,2)] assms(3) by simp
  obtain m1 where c: "custom_malloc diefast H (n + 1) (r, m) = Some (a, (r', m1), rs)"
    and m': "m' = (if a \<noteq> 0 then c_strncpy (n + 1) a p m1 else m1)"
    using assms(5,8) p0 int_size_small [OF assms(6)] by (auto simp: custom_strdup_def bind_eq_Some_conv Let_def)
  note n = custom_malloc_block(1) [OF assms(1,7) c]
  show "new_block (n + 1) (r, m) a (r', m')"
    using n new_block_write [OF n _ c_strncpy_touches order_refl] by (cases "a = 0") (simp_all add: m')
  assume a: "a \<noteq> 0" "i \<le> n"
  have same: "m1 (p + j) = m (p + j)" if "j \<le> n" for j
  proof -
    have "objects_kept size_of (live r) (r, m) (r', m1)" using n by (simp add: new_block_def)
    from objects_kept_byte [OF this assms(2), of "p + j - b"] that assms(3,4) show ?thesis by simp
  qed
  have "{a..<a + size_of a r'} \<inter> {b..<b + size_of b r} = {}" "n + 1 \<le> size_of a r'" using n a(1) assms(2) by (auto simp: new_block_def)
  then have apart: "p + n < a \<or> a + (n + 1) \<le> p" using assms(3,4) by (auto simp: disjoint_iff)
  have "\<forall>j < n. m1 (p + j) \<noteq> 0" "m1 (p + n) = 0" using strlen_SomeD [OF assms(5)] same by auto
  from c_strncpy_string [OF this _ apart] a same show "m' (a + i) = m (p + i)" by (simp add: m')
qed

text \<open>\<open>wcsdup\<close> asks for one byte per wide character and writes four.\<close>

lemma custom_wcsdup_writes:
  assumes "inv r" and "b \<in> live r" and "b \<le> p" and "p + 4 * n + 3 < b + size_of b r" and "wcslen m p = Some n"
    and "n + 1 < 2 ^ 64" and "serves (n + 1)" and "custom_wcsdup diefast H p (r, m) = Some (a, (r', m'), rs)" and "a \<noteq> 0"
  shows "(\<exists>m1. custom_malloc diefast H (n + 1) (r, m) = Some (a, (r', m1), rs)) \<and> (\<forall>i < 4 * (n + 1). m' (a + i) = m (p + i))"
proof -
  have p0: "p \<noteq> 0" using live_nonzero [OF assms(1,2)] assms(3) by simp
  obtain m1 where c: "custom_malloc diefast H (n + 1) (r, m) = Some (a, (r', m1), rs)" and w: "c_wcscpy a p m1 = Some m'"
    using assms(5,6,8,9) p0 by (auto simp: custom_wcsdup_def bind_eq_Some_conv split: if_splits)
  note n = custom_malloc_block(1) [OF assms(1,7) c]
  have same: "m1 (p + j) = m (p + j)" if "j < 4 * (n + 1)" for j
  proof -
    have "objects_kept size_of (live r) (r, m) (r', m1)" using n by (simp add: new_block_def)
    from objects_kept_byte [OF this assms(2), of "p + j - b"] that assms(3,4) show ?thesis by simp
  qed
  have "m' = c_memcpy a p (4 * (n + 1)) m1" using w wcslen_cong [OF assms(5) same] by (simp add: c_wcscpy_def)
  then have "m' (a + i) = m (p + i)" if "i < 4 * (n + 1)" for i using that same by (simp add: c_memcpy_def)
  with c show ?thesis by blast
qed

end

context heap_bytes begin

text \<open>\<open>memalign\<close> returns an aligned address inside the block.\<close>

lemma custom_memalign_block:
  assumes "inv r" and "k < 63" and "2 * 2 ^ k + sz < 2 ^ 64" and "serves (2 * 2 ^ k + sz)"
    and "custom_memalign diefast H (2 ^ k) sz (r, m) = Some (q, (r', m'), rs)"
  obtains a where "new_block (2 * 2 ^ k + sz) (r, m) a (r', m')"
    "a + 2 ^ k \<le> 2 ^ 64 \<Longrightarrow> 2 ^ k dvd q \<and> a \<le> q \<and> q + sz \<le> a + (2 * 2 ^ k + sz) \<and> (q = a \<longleftrightarrow> 2 ^ k dvd a) \<and> (a = 0 \<longrightarrow> q = 0)"
proof -
  have n: "(2 * 2 ^ k + sz) mod 2 ^ 64 = 2 * 2 ^ k + sz" using assms(3) by (rule mod_less)
  obtain a where c: "custom_malloc diefast H (2 * 2 ^ k + sz) (r, m) = Some (a, (r', m'), rs)"
    and q: "q = unat ((word_of_nat a + word_of_nat (2 ^ k) - 1 :: u64) AND NOT (word_of_nat (2 ^ k) - 1))"
    using assms(5) unfolding custom_memalign_def n by (auto simp: bind_eq_Some_conv)
  show thesis
  proof (rule that [OF custom_malloc_block(1) [OF assms(1,4) c]])
    assume a: "a + 2 ^ k \<le> 2 ^ 64"
    define b :: nat where "b = 2 ^ k"
    have b: "0 < b" by (simp add: b_def)
    have q: "q = (a + b - 1) div b * b" unfolding q b_def by (rule align_up) (use assms(2) a in simp_all)
    have le: "(a + b - 1) div b * b \<le> a + b - 1" by (rule div_times_less_eq_dividend)
    have "a + b - 1 < (a + b - 1) div b * b + b" using b by (metis add.commute dividend_less_div_times)
    then have "a \<le> q" using q b by linarith
    moreover have "q \<le> a + 2 * b" using q le by linarith
    moreover have "q = a \<longleftrightarrow> b dvd a"
    proof
      assume "b dvd a"
      then obtain j where "a = j * b" by (metis dvd_def mult.commute)
      then have "a + b - 1 = b - 1 + j * b" using b by simp
      moreover have "(b - 1 + j * b) div b = j + (b - 1) div b" using b by (intro div_mult_self1) simp
      ultimately have "(a + b - 1) div b = j" using b by simp
      with q \<open>a = j * b\<close> show "q = a" by simp
    qed (metis dvd_triv_right q)
    moreover have "a = 0 \<Longrightarrow> q = 0" using q b by simp
    ultimately show "2 ^ k dvd q \<and> a \<le> q \<and> q + sz \<le> a + (2 * 2 ^ k + sz) \<and> (q = a \<longleftrightarrow> 2 ^ k dvd a) \<and> (a = 0 \<longrightarrow> q = 0)"
      using q le b by (auto simp: b_def [symmetric])
  qed
qed

end

section \<open>Over the heap of libdieharder\<close>

definition program_heap_ops :: "bool \<Rightarrow> program_state heap_ops" where
  "program_heap_ops df = \<lparr>h_malloc = program_malloc df, h_free = program_free df, h_getSize = program_getSize df\<rparr>"




lemma wcslen_SomeI: "(\<And>i. i < n \<Longrightarrow> m (p + 4 * i) \<noteq> 0) \<Longrightarrow> wide_zero m (p + 4 * n) \<Longrightarrow> wcslen m p = Some n"
proof (induction n arbitrary: p)
  case 0
  then show ?case by (subst wcslen.simps) simp
next
  case (Suc n)
  have "wcslen m (p + 4) = Some n"
  proof (rule Suc.IH)
    fix i assume "i < n"
    then show "m (p + 4 + 4 * i) \<noteq> 0" using Suc.prems(1) [of "Suc i"] by (simp add: add.assoc)
  qed (use Suc.prems(2) in \<open>simp add: add.assoc\<close>)
  moreover have "\<not> wide_zero m p" using Suc.prems(1) [of 0] by (simp add: wide_zero_def)
  ultimately show ?case by (subst wcslen.simps) simp
qed

text \<open>A string of 2400000 characters, and as wide characters of 600000.\<close>

definition long_string :: mem where
  "long_string = (\<lambda>x. if x < 2 ^ 46 + 2400000 then 65 else 0)"

lemma long_string: "strlen long_string (2 ^ 46) = Some 2400000" "wcslen long_string (2 ^ 46) = Some 600000"
  by (rule strlen_SomeI wcslen_SomeI; simp add: long_string_def wide_zero_def)+


end
