(* ===== verification/FaultInjector.thy ===== *)
theory FaultInjector
  imports CWrapper
begin

text \<open>
  The fault injectors \<open>libbrokenmalloc\<close> (\<open>src/util\<close> and \<open>src/exterminator/src/util\<close>) and
  \<open>libdetfaults\<close>, and the tools that write their input: \<open>libtrackalloc\<close> logs when each object is
  allocated and freed, \<open>sortlog\<close> sorts the log.  An injector makes requests smaller than the program
  asked for, and frees objects the log says will be freed soon.  Time is the number of calls of
  \<open>malloc\<close>.  The comparisons of floating-point numbers with the frequencies
  are arguments (\<open>underflowHits\<close>, \<open>danglingHits\<close>, of the random number drawn), as are the parsed environment
  variables and the generator; \<open>H\<close> is the heap the next library exports.  Messages are left out.  \<open>dangled_something\<close> is
  never set in \<open>libbrokenmalloc\<close> and never read in \<open>libdetfaults\<close>.  \<open>int\<close> is unbounded here: the clock of the code overflows
  after \<open>2 ^ 31\<close> allocations.
\<close>

section \<open>The log\<close>

record oracle_record =
  o_freed :: int
  o_allocated :: int

text \<open>Two 32-bit words, little endian.\<close>

definition int_bytes :: "int \<Rightarrow> byte list" where
  "int_bytes n = map (\<lambda>j. ucast (drop_bit (8 * j) (word_of_int n :: u32))) [0..<4]"

definition bytes_int :: "byte \<Rightarrow> byte \<Rightarrow> byte \<Rightarrow> byte \<Rightarrow> int" where
  "bytes_int a b c d = sint (word_of_nat (unat a + unat b * 256 + unat c * 65536 + unat d * 16777216) :: u32)"

definition record_bytes :: "oracle_record \<Rightarrow> byte list" where
  "record_bytes e = int_bytes (o_freed e) @ int_bytes (o_allocated e)"

text \<open>The length of the file is divided by the size of a record.\<close>

fun readLogFile :: "byte list \<Rightarrow> oracle_record list" where
  "readLogFile (a # b # c # d # e # f # g # h # rest) =
     \<lparr>o_freed = bytes_int a b c d, o_allocated = bytes_int e f g h\<rparr> # readLogFile rest"
| "readLogFile _ = []"

definition compareFunction :: "oracle_record \<Rightarrow> oracle_record \<Rightarrow> int" where
  "compareFunction o1 o2 = (if o_allocated o1 < o_allocated o2 then -1 else if o_allocated o1 > o_allocated o2 then 1 else 0)"

text \<open>\<open>qsort\<close> may also swap records that compare as equal; the lemmas use only that the result is sorted and has the same records.\<close>

definition sortlog :: "byte list \<Rightarrow> byte list" where
  "sortlog logfile = concat (map record_bytes (sort_key o_allocated (readLogFile logfile)))"

record tracker =
  tk_time :: int
  theMap :: "addr \<Rightarrow> int option"
  tk_written :: "oracle_record list"

definition tracker_start :: tracker where
  "tracker_start = \<lparr>tk_time = 0, theMap = Map.empty, tk_written = []\<rparr>"

definition track_malloc :: "'r heap_ops \<Rightarrow> (tracker \<times> 'r) heap_malloc" where
  "track_malloc H sz s =
     (let ((t, r), m) = s
      in do {
        (ptr, (r, m), rs) \<leftarrow> h_malloc H sz (r, m);
        let t = t\<lparr>theMap := (theMap t)(ptr \<mapsto> tk_time t)\<rparr>; t = t\<lparr>tk_time := tk_time t + 1\<rparr>
        in Some (ptr, ((t, r), m), rs) })"

text \<open>The object itself is never freed.\<close>

definition track_free :: "(tracker \<times> 'r) heap_free" where
  "track_free ptr s =
     (let ((t, r), m) = s
      in if ptr \<noteq> 0
         then let allocated = (case theMap t ptr of None \<Rightarrow> 0 | Some a \<Rightarrow> a);
                  t = t\<lparr>tk_written := tk_written t @ [\<lparr>o_freed = tk_time t, o_allocated = allocated\<rparr>]\<rparr>
              in (True, ((t\<lparr>theMap := (theMap t)(ptr := None)\<rparr>, r), m), [])
         else (False, ((t, r), m), []))"

text \<open>The file is opened without truncating it.\<close>

definition track_log :: "byte list \<Rightarrow> tracker \<Rightarrow> byte list" where
  "track_log old t = (let new = concat (map record_bytes (tk_written t)) in new @ drop (length new) old)"

section \<open>The injectors\<close>

record 'g injector_params =
  underflowAmount :: int
  underflowThreshold :: int
  underflowHits :: "nat \<Rightarrow> bool"
  danglingOn :: bool
  danglingHits :: "nat \<Rightarrow> bool"
  danglingPointerDistance :: int
  oracle_log :: "oracle_record list"
  fi_next :: "'g \<Rightarrow> nat \<times> 'g"

record 'g injector =
  fi_rng :: 'g
  currentAllocationTime :: int
  currentOraclePosition :: int
  allocatedObjects :: "int \<Rightarrow> addr option"
  liveObjects :: "addr \<Rightarrow> int option"
  fi_injected :: int
  fi_alloc_site :: nat

definition injector_start :: "'g \<Rightarrow> 'g injector" where
  "injector_start g = \<lparr>fi_rng = g, currentAllocationTime = 0, currentOraclePosition = 0, allocatedObjects = Map.empty,
     liveObjects = Map.empty, fi_injected = 0, fi_alloc_site = 0\<rparr>"

text \<open>\<open>std::map::operator[]\<close> adds a null when the key is missing.\<close>

definition lookup_object :: "int \<Rightarrow> 'g injector \<Rightarrow> addr \<times> 'g injector" where
  "lookup_object k f =
     (case allocatedObjects f k of
        Some p \<Rightarrow> (p, f)
      | None \<Rightarrow> (0, f\<lparr>allocatedObjects := (allocatedObjects f)(k \<mapsto> 0)\<rparr>))"

text \<open>The body of the loop; \<open>voodoo\<close> is the condition that \<open>src/util\<close> does not have.\<close>

definition examine :: "bool \<Rightarrow> 'g injector_params \<Rightarrow> 'r heap_ops \<Rightarrow> oracle_record \<Rightarrow> 'g injector \<Rightarrow> 'r \<times> mem
    \<Rightarrow> 'g injector \<times> ('r \<times> mem) \<times> report list" where
  "examine voodoo P H e f s =
     (if currentAllocationTime f + danglingPointerDistance P \<ge> o_freed e
      then let (p, f) = lookup_object (o_allocated e) f
           in if custom_getsize H p (fst s) < 16384 \<and> liveObjects f p \<noteq> None
                 \<and> (voodoo \<longrightarrow> o_freed e - currentAllocationTime f > 0)
              then let (coin, g) = fi_next P (fi_rng f); f = f\<lparr>fi_rng := g\<rparr>
                   in if danglingHits P coin
                      then if liveObjects f p \<noteq> None
                           then let (ok, s, rs) = h_free H p s in (f\<lparr>liveObjects := (liveObjects f)(p := None)\<rparr>, s, rs)
                           else (f, s, [])
                      else (f, s, [])
              else (f, s, [])
      else (f, s, []))"

fun scan_oracle :: "bool \<Rightarrow> 'g injector_params \<Rightarrow> 'r heap_ops \<Rightarrow> oracle_record list \<Rightarrow> int \<Rightarrow> 'g injector \<Rightarrow> 'r \<times> mem
    \<Rightarrow> int \<times> 'g injector \<times> ('r \<times> mem) \<times> report list" where
  "scan_oracle voodoo P H [] i f s = (i, f, s, [])"
| "scan_oracle voodoo P H (e # es) i f s =
     (if o_allocated e < currentAllocationTime f
      then let (f, s, rs) = examine voodoo P H e f s; (i, f, s, rs') = scan_oracle voodoo P H es (i + 1) f s in (i, f, s, rs @ rs')
      else (i, f, s, []))"

definition make_dangling :: "bool \<Rightarrow> 'g injector_params \<Rightarrow> 'r heap_ops \<Rightarrow> addr \<Rightarrow> 'g injector \<Rightarrow> 'r \<times> mem
    \<Rightarrow> 'g injector \<times> ('r \<times> mem) \<times> report list" where
  "make_dangling voodoo P H ptr f s =
     (if danglingOn P
      then let f = f\<lparr>allocatedObjects := (allocatedObjects f)(currentAllocationTime f \<mapsto> ptr)\<rparr>;
               f = f\<lparr>liveObjects := (liveObjects f)(ptr \<mapsto> 1)\<rparr>;
               (i, f, s, rs) = scan_oracle voodoo P H (drop (nat (currentOraclePosition f)) (oracle_log P)) (currentOraclePosition f) f s;
               f = f\<lparr>currentOraclePosition := i\<rparr>;
               f = f\<lparr>currentAllocationTime := currentAllocationTime f + 1\<rparr>
           in (f, s, rs)
      else (f, s, []))"

text \<open>A size of \<open>w\<close> bits; the \<open>int\<close> parameters are converted.\<close>

definition over_threshold_size :: "nat \<Rightarrow> 'g injector_params \<Rightarrow> nat \<Rightarrow> bool" where
  "over_threshold_size w P sz \<longleftrightarrow> nat (underflowThreshold P mod 2 ^ w) < sz"

definition shortened :: "nat \<Rightarrow> 'g injector_params \<Rightarrow> nat \<Rightarrow> nat" where
  "shortened w P sz = nat ((int sz - underflowAmount P) mod 2 ^ w)"

text \<open>\<open>libbrokenmalloc\<close> of \<open>src/util\<close>, with 64-bit sizes.\<close>

definition ub_request :: "'g injector_params \<Rightarrow> nat \<Rightarrow> 'g injector \<Rightarrow> nat \<times> 'g injector" where
  "ub_request P sz f =
     (if over_threshold_size 64 P sz
      then let (c, g) = fi_next P (fi_rng f) in (if underflowHits P c then shortened 64 P sz else sz, f\<lparr>fi_rng := g\<rparr>)
      else (sz, f))"

definition ub_malloc :: "'g injector_params \<Rightarrow> 'r heap_ops \<Rightarrow> ('g injector \<times> 'r) heap_malloc" where
  "ub_malloc P H sz s =
     (let ((f, r), m) = s;
          (actualRequestSize, f) = ub_request P sz f
      in do {
        (ptr, s, rs) \<leftarrow> h_malloc H actualRequestSize (r, m);
        let (f, (r, m), rs') = make_dangling False P H ptr f s in Some (ptr, ((f, r), m), rs @ rs') })"

definition ub_free :: "'g injector_params \<Rightarrow> 'r heap_ops \<Rightarrow> ('g injector \<times> 'r) heap_free" where
  "ub_free P H ptr s =
     (let ((f, r), m) = s
      in if danglingOn P
         then if liveObjects f ptr = None then (False, ((f, r), m), [])
              else let f = f\<lparr>liveObjects := (liveObjects f)(ptr := None)\<rparr>; (ok, (r, m), rs) = h_free H ptr (r, m)
                   in (ok, ((f, r), m), rs)
         else let (ok, (r, m), rs) = h_free H ptr (r, m) in (ok, ((f, r), m), rs))"

definition ub_getSize :: "'r heap_ops \<Rightarrow> addr \<Rightarrow> 'g injector \<times> 'r \<Rightarrow> nat" where
  "ub_getSize H ptr s = h_getSize H ptr (snd s)"

text \<open>\<open>libbrokenmalloc\<close> of the exterminator, with 32-bit sizes: it stops once a shorter request fell into another power of two.\<close>

fun fi_log2 :: "nat \<Rightarrow> nat" where
  "fi_log2 sz = (if sz div 2 = 0 then 0 else Suc (fi_log2 (sz div 2)))"

declare fi_log2.simps [simp del]

definition other_power :: "nat \<Rightarrow> nat \<Rightarrow> bool" where
  "other_power sz n \<longleftrightarrow> sz \<noteq> n \<and> fi_log2 ((n + (2 ^ 32 - 1)) mod 2 ^ 32) \<noteq> fi_log2 ((sz + (2 ^ 32 - 1)) mod 2 ^ 32)"

definition xb_request :: "'g injector_params \<Rightarrow> nat \<Rightarrow> 'g injector \<Rightarrow> nat \<times> 'g injector" where
  "xb_request P sz f =
     (if fi_injected f = 0 \<and> over_threshold_size 32 P sz
      then let (c, g) = fi_next P (fi_rng f) in (if underflowHits P c then shortened 32 P sz else sz, f\<lparr>fi_rng := g\<rparr>)
      else (sz, f))"

definition xb_malloc :: "'g injector_params \<Rightarrow> 'r heap_ops \<Rightarrow> ('g injector \<times> 'r) heap_malloc" where
  "xb_malloc P H sz s =
     (let ((f, r), m) = s;
          (actualRequestSize, f) = xb_request P sz f
      in do {
        (ptr, s, rs) \<leftarrow> h_malloc H actualRequestSize (r, m);
        let f = (if other_power sz actualRequestSize then f\<lparr>fi_injected := fi_injected f + 1\<rparr> else f);
            (f, (r, m), rs') = make_dangling True P H ptr f s
        in Some (ptr, ((f, r), m), rs @ rs') })"

definition xb_free :: "'g injector_params \<Rightarrow> 'r heap_ops \<Rightarrow> ('g injector \<times> 'r) heap_free" where
  "xb_free P H ptr s =
     (let ((f, r), m) = s
      in if danglingOn P
         then if liveObjects f ptr = None then (False, ((f, r), m), [])
              else let f = f\<lparr>liveObjects := (liveObjects f)(ptr := None)\<rparr>; (ok, (r, m), rs) = h_free H ptr (r, m)
                   in (ok, ((f, r), m), rs)
         else let (ok, (r, m), rs) = h_free H ptr (r, m) in (ok, ((f, r), m), rs))"

text \<open>\<open>libdetfaults\<close>: every request of the call site that was hit last is shortened; \<open>site\<close> is \<open>get_callsite(0)\<close>.\<close>

definition det_request :: "nat \<Rightarrow> 'g injector_params \<Rightarrow> nat \<Rightarrow> 'g injector \<Rightarrow> nat \<times> 'g injector" where
  "det_request site P sz f =
     (let (actualRequestSize, f) =
            (if fi_injected f = 0 \<and> over_threshold_size 32 P sz
             then let (c, g) = fi_next P (fi_rng f); f = f\<lparr>fi_rng := g\<rparr>
                  in if underflowHits P c then (shortened 32 P sz, f\<lparr>fi_alloc_site := site\<rparr>) else (sz, f)
             else (sz, f));
          actualRequestSize = (if site = fi_alloc_site f then shortened 32 P sz else actualRequestSize)
      in (actualRequestSize, f))"

definition det_malloc :: "nat \<Rightarrow> 'g injector_params \<Rightarrow> 'r heap_ops \<Rightarrow> ('g injector \<times> 'r) heap_malloc" where
  "det_malloc site P H sz s =
     (let ((f, r), m) = s;
          (actualRequestSize, f) = det_request site P sz f
      in do {
        (ptr, s, rs) \<leftarrow> h_malloc H actualRequestSize (r, m);
        let (f, (r, m), rs') = make_dangling True P H ptr f s in Some (ptr, ((f, r), m), rs @ rs') })"

section \<open>The forwarding to the next library\<close>

text \<open>\<open>RealMallocHeap\<close>: while \<open>dlsym\<close> looks for the next \<open>malloc\<close>, its own requests (of \<open>dl_sizes\<close>) come from a
  buffer of 32768 bytes.\<close>

record real_heap =
  real_malloc :: bool
  initializing :: bool
  bufptr :: addr

definition RealMallocHeap :: "addr \<Rightarrow> real_heap" where
  "RealMallocHeap buf = \<lparr>real_malloc = False, initializing = False, bufptr = buf\<rparr>"

definition align_double :: "nat \<Rightarrow> nat" where
  "align_double sz = unat ((word_of_nat sz + 7 :: u64) AND NOT 7)"

definition rm_inner :: "nat \<Rightarrow> real_heap \<Rightarrow> addr \<times> real_heap" where
  "rm_inner sz h = (let p = bufptr h in (p, h\<lparr>bufptr := bufptr h + align_double sz\<rparr>))"

definition rm_malloc :: "nat list \<Rightarrow> 'r heap_ops \<Rightarrow> (real_heap \<times> 'r) heap_malloc" where
  "rm_malloc dl_sizes H sz s =
     (let ((h, r), m) = s
      in if initializing h then let (p, h) = rm_inner sz h in Some (p, ((h, r), m), [])
         else let h = (if \<not> real_malloc h
                       then let h = h\<lparr>initializing := True\<rparr>;
                                h = foldl (\<lambda>h n. snd (rm_inner n h)) h dl_sizes;
                                h = h\<lparr>real_malloc := True\<rparr>
                            in h\<lparr>initializing := False\<rparr>
                       else h)
              in do { (p, (r, m), rs) \<leftarrow> h_malloc H sz (r, m); Some (p, ((h, r), m), rs) })"

definition rm_free :: "'r heap_ops \<Rightarrow> (real_heap \<times> 'r) heap_free" where
  "rm_free H ptr s = (let ((h, r), m) = s; (ok, (r, m), rs) = h_free H ptr (r, m) in (ok, ((h, r), m), rs))"

section \<open>Reading what was logged\<close>

definition fits_int :: "int \<Rightarrow> bool" where
  "fits_int n \<longleftrightarrow> - (2 ^ 31) \<le> n \<and> n < 2 ^ 31"

definition record_fits :: "oracle_record \<Rightarrow> bool" where
  "record_fits e \<longleftrightarrow> fits_int (o_freed e) \<and> fits_int (o_allocated e)"

lemma int_bytes_eq: "int_bytes n = (let w = word_of_int n :: u32 in [ucast w, ucast (drop_bit 8 w), ucast (drop_bit 16 w), ucast (drop_bit 24 w)])"
  by (simp add: int_bytes_def upt_rec Let_def)

lemma unat_byte_of_u32: "unat (ucast (drop_bit n (w :: u32)) :: byte) = unat w div 2 ^ n mod 256"
  by (simp add: unsigned_ucast_eq take_bit_eq_mod unat_drop_bit_eq drop_bit_nat_div)

lemma four_digits: "n mod 256 + n div 2 ^ 8 mod 256 * 256 + n div 2 ^ 16 mod 256 * 65536 + n div 2 ^ 24 mod 256 * 16777216 = n mod 2 ^ 32"
  for n :: nat
  using digits_sum [of n 4] by (simp add: upt_rec)

lemma bytes_int_bytes:
  assumes "fits_int n"
  shows "bytes_int (ucast (word_of_int n :: u32)) (ucast (drop_bit 8 (word_of_int n :: u32)))
    (ucast (drop_bit 16 (word_of_int n :: u32))) (ucast (drop_bit 24 (word_of_int n :: u32))) = n"
proof -
  let ?w = "word_of_int n :: u32"
  have "unat (ucast ?w :: byte) = unat ?w mod 256" using unat_byte_of_u32 [of 0 ?w] by simp
  then have "bytes_int (ucast ?w) (ucast (drop_bit 8 ?w)) (ucast (drop_bit 16 ?w)) (ucast (drop_bit 24 ?w))
      = sint (word_of_nat (unat ?w mod 2 ^ 32) :: u32)"
    unfolding bytes_int_def unat_byte_of_u32 by (simp only: four_digits)
  also have "\<dots> = sint ?w" using unat_less_32 [of ?w] by simp
  also have "\<dots> = n" using assms
    by (simp add: fits_int_def sint_uint uint_word_of_int_eq signed_take_bit_take_bit signed_take_bit_int_eq_self)
  finally show ?thesis .
qed

lemma readLogFile_record: "record_fits e \<Longrightarrow> readLogFile (record_bytes e @ rest) = e # readLogFile rest"
  by (simp add: record_bytes_def int_bytes_eq Let_def bytes_int_bytes record_fits_def)

lemma readLogFile_records: "list_all record_fits es \<Longrightarrow> readLogFile (concat (map record_bytes es) @ rest) = es @ readLogFile rest"
  by (induction es) (simp_all add: readLogFile_record)

lemma readLogFile_sortlog: "list_all record_fits (readLogFile bs) \<Longrightarrow> readLogFile (sortlog bs) = sort_key o_allocated (readLogFile bs)"
  using readLogFile_records [of "sort_key o_allocated (readLogFile bs)" "[]"]
  by (simp add: sortlog_def list_all_iff)

section \<open>One step of the loop\<close>

definition object_at :: "'g injector \<Rightarrow> int \<Rightarrow> addr" where
  "object_at f k = (case allocatedObjects f k of Some p \<Rightarrow> p | None \<Rightarrow> 0)"

definition logged_frees :: "bool \<Rightarrow> 'g injector_params \<Rightarrow> int \<Rightarrow> oracle_record \<Rightarrow> bool" where
  "logged_frees voodoo P t e \<longleftrightarrow> o_freed e \<le> t + danglingPointerDistance P \<and> (voodoo \<longrightarrow> t < o_freed e)"

text \<open>The loop leaves the clock and the log of addresses alone.\<close>

definition same_log :: "'g injector \<Rightarrow> 'g injector \<Rightarrow> bool" where
  "same_log f f' \<longleftrightarrow> currentAllocationTime f' = currentAllocationTime f
     \<and> currentOraclePosition f' = currentOraclePosition f \<and> object_at f' = object_at f"

lemma same_log_refl [simp]: "same_log f f"
  by (simp add: same_log_def)

lemma same_log_trans: "same_log f f1 \<Longrightarrow> same_log f1 f2 \<Longrightarrow> same_log f f2"
  by (simp add: same_log_def)

lemma lookup_object_eq: "lookup_object k f = (p, f') \<Longrightarrow> p = object_at f k \<and> same_log f f' \<and> liveObjects f' = liveObjects f"
  by (auto simp: lookup_object_def object_at_def same_log_def fun_eq_iff split: option.splits if_splits)

lemma examine_cases:
  assumes "examine voodoo P H e f s = (f', s', rs)"
  obtains "same_log f f'" "s' = s" "liveObjects f' = liveObjects f"
  | ok where "same_log f f'" "logged_frees voodoo P (currentAllocationTime f) e" "liveObjects f (object_at f (o_allocated e)) \<noteq> None"
      "h_free H (object_at f (o_allocated e)) s = (ok, s', rs)" "liveObjects f' = (liveObjects f)(object_at f (o_allocated e) := None)"
proof -
  obtain p f1 where l: "lookup_object (o_allocated e) f = (p, f1)" by (metis surj_pair)
  obtain c g where g: "fi_next P (fi_rng f1) = (c, g)" by (metis surj_pair)
  obtain ok s1 rs1 where h: "h_free H p s = (ok, s1, rs1)" by (metis surj_pair)
  note k = lookup_object_eq [OF l]
  then have t: "currentAllocationTime f1 = currentAllocationTime f" by (simp add: same_log_def)
  have u: "same_log f (f1\<lparr>fi_rng := g\<rparr>)" "same_log f (f1\<lparr>fi_rng := g, liveObjects := L\<rparr>)" for L
    using k by (simp_all add: same_log_def object_at_def fun_eq_iff)
  show thesis
  proof (cases "o_freed e \<le> currentAllocationTime f + danglingPointerDistance P \<and> custom_getsize H p (fst s) < 16384
      \<and> liveObjects f p \<noteq> None \<and> (voodoo \<longrightarrow> currentAllocationTime f < o_freed e) \<and> danglingHits P c")
    case True
    with assms l g h k t have "f' = f1\<lparr>fi_rng := g, liveObjects := (liveObjects f)(p := None)\<rparr>" "s' = s1" "rs = rs1"
      by (simp_all add: examine_def)
    with that(2) [of ok] True h k u show thesis by (simp add: logged_frees_def)
  next
    case False
    with assms l g h k t have "f' = f \<or> f' = f1 \<or> f' = f1\<lparr>fi_rng := g\<rparr>" "s' = s"
      by (auto simp: examine_def split: if_splits)
    with that(1) k u show thesis by auto
  qed
qed

lemma scan_induct:
  assumes "scan_oracle voodoo P H es i f s = (i', f', s', rs)" and "Q f s"
    and "\<And>e f s f' s' rs. e \<in> set (takeWhile (\<lambda>e. o_allocated e < t) es) \<Longrightarrow> Q f s \<Longrightarrow> currentAllocationTime f = t
      \<Longrightarrow> examine voodoo P H e f s = (f', s', rs) \<Longrightarrow> Q f' s'"
    and "currentAllocationTime f = t"
  shows "i' = i + int (length (takeWhile (\<lambda>e. o_allocated e < t) es)) \<and> same_log f f' \<and> Q f' s'"
  using assms
proof (induction es arbitrary: i f s rs)
  case (Cons e es)
  show ?case
  proof (cases "o_allocated e < t")
    case True
    obtain f1 s1 rs1 where e: "examine voodoo P H e f s = (f1, s1, rs1)" by (metis surj_pair)
    have f1: "same_log f f1" using examine_cases [OF e] by blast
    obtain rs2 where m: "scan_oracle voodoo P H es (i + 1) f1 s1 = (i', f', s', rs2)"
      using Cons.prems(1,4) True e by (auto split: prod.splits)
    have "Q f1 s1" using Cons.prems(3) [OF _ Cons.prems(2,4) e] True by simp
    have t: "currentAllocationTime f1 = t" using f1 Cons.prems(4) by (simp add: same_log_def)
    have "i' = i + 1 + int (length (takeWhile (\<lambda>e. o_allocated e < t) es)) \<and> same_log f1 f' \<and> Q f' s'"
      by (rule Cons.IH [OF m \<open>Q f1 s1\<close> Cons.prems(3) t]) (use True in simp_all)
    with f1 True show ?thesis by (auto intro: same_log_trans)
  qed (use Cons.prems in auto)
qed auto

text \<open>What the loop frees.\<close>

lemma scan_frees:
  assumes "scan_oracle voodoo P H es i f s = (i', f', s', rs)" and "currentAllocationTime f = t"
    and "liveObjects f p \<noteq> None" and "liveObjects f' p = None"
  shows "\<exists>e \<in> set (takeWhile (\<lambda>e. o_allocated e < t) es). object_at f (o_allocated e) = p \<and> logged_frees voodoo P t e"
proof -
  let ?es = "takeWhile (\<lambda>e. o_allocated e < t) es"
  define Q where "Q = (\<lambda>f1 :: 'a injector. \<lambda>s1 :: 'b \<times> mem. object_at f1 = object_at f
    \<and> (\<forall>p. liveObjects f p \<noteq> None \<and> liveObjects f1 p = None \<longrightarrow> (\<exists>e \<in> set ?es. object_at f (o_allocated e) = p \<and> logged_frees voodoo P t e)))"
  have "Q f2 s2" if "e \<in> set ?es" "Q f1 s1" "currentAllocationTime f1 = t" "examine voodoo P H e f1 s1 = (f2, s2, rs2)" for e f1 s1 f2 s2 rs2
    using that(4)
  proof (cases rule: examine_cases)
    case 1
    then show ?thesis using that(2) by (simp add: Q_def same_log_def)
  next
    case (2 ok)
    then show ?thesis using that(1-3) by (auto simp: Q_def same_log_def)
  qed
  moreover have "Q f s" unfolding Q_def by blast
  ultimately have "Q f' s'" using scan_induct [OF assms(1), of Q t] assms(2) by blast
  with assms(3,4) show ?thesis by (simp add: Q_def)
qed

lemma ub_free_eq: "ub_free = xb_free"
  by (simp add: fun_eq_iff ub_free_def xb_free_def)

lemma make_dangling_split:
  assumes "danglingOn P" and "make_dangling voodoo P H ptr f s = (f', s', rs)"
  obtains i f1 where "scan_oracle voodoo P H (drop (nat (currentOraclePosition f)) (oracle_log P)) (currentOraclePosition f)
      (f\<lparr>allocatedObjects := (allocatedObjects f)(currentAllocationTime f \<mapsto> ptr), liveObjects := (liveObjects f)(ptr \<mapsto> 1)\<rparr>) s
        = (i, f1, s', rs)"
    and "f' = f1\<lparr>currentOraclePosition := i, currentAllocationTime := currentAllocationTime f1 + 1\<rparr>"
  using assms by (auto simp: make_dangling_def Let_def split: prod.splits)

lemma make_dangling_live:
  assumes "danglingOn P" and "make_dangling voodoo P H ptr f s = (f', s', rs)" and "Q ((liveObjects f)(ptr \<mapsto> 1)) s"
    and "\<And>L p s ok s' rs. Q L s \<Longrightarrow> L p \<noteq> None \<Longrightarrow> h_free H p s = (ok, s', rs) \<Longrightarrow> Q (L(p := None)) s'"
  shows "Q (liveObjects f') s'"
proof -
  from assms(1,2) obtain i f1 where sc: "scan_oracle voodoo P H (drop (nat (currentOraclePosition f)) (oracle_log P)) (currentOraclePosition f)
      (f\<lparr>allocatedObjects := (allocatedObjects f)(currentAllocationTime f \<mapsto> ptr), liveObjects := (liveObjects f)(ptr \<mapsto> 1)\<rparr>) s = (i, f1, s', rs)"
    "f' = f1\<lparr>currentOraclePosition := i, currentAllocationTime := currentAllocationTime f1 + 1\<rparr>"
    by (rule make_dangling_split)
  have step: "Q (liveObjects f2) s2" if "Q (liveObjects f1) s1" "examine voodoo P H e f1 s1 = (f2, s2, rs2)" for e f1 s1 f2 s2 rs2
    using that(2) by (cases rule: examine_cases) (use that(1) assms(4) in auto)
  have "Q (liveObjects f1) s'"
    by (rule scan_induct [OF sc(1), of "\<lambda>f. Q (liveObjects f)" "currentAllocationTime f", THEN conjunct2, THEN conjunct2])
      (use assms(3) step in auto)
  then show ?thesis by (simp add: sc(2))
qed

lemma make_dangling_clock:
  assumes "danglingOn P" and "make_dangling voodoo P H ptr f s = (f', s', rs)" and "currentAllocationTime f = t"
  shows "currentAllocationTime f' = t + 1"
    and "currentOraclePosition f' = currentOraclePosition f
      + int (length (takeWhile (\<lambda>e. o_allocated e < t) (drop (nat (currentOraclePosition f)) (oracle_log P))))"
    and "object_at f' = (object_at f)(t := ptr)"
    and "liveObjects f p \<noteq> None \<or> p = ptr \<Longrightarrow> liveObjects f' p = None
      \<Longrightarrow> \<exists>e \<in> set (takeWhile (\<lambda>e. o_allocated e < t) (drop (nat (currentOraclePosition f)) (oracle_log P))).
            object_at f (o_allocated e) = p \<and> logged_frees voodoo P t e"
proof -
  let ?f = "f\<lparr>allocatedObjects := (allocatedObjects f)(currentAllocationTime f \<mapsto> ptr), liveObjects := (liveObjects f)(ptr \<mapsto> 1)\<rparr>"
  and ?es = "takeWhile (\<lambda>e. o_allocated e < t) (drop (nat (currentOraclePosition f)) (oracle_log P))"
  from assms(1,2) obtain i f1 where sc: "scan_oracle voodoo P H (drop (nat (currentOraclePosition f)) (oracle_log P)) (currentOraclePosition f)
      ?f s = (i, f1, s', rs)" and f': "f' = f1\<lparr>currentOraclePosition := i, currentAllocationTime := currentAllocationTime f1 + 1\<rparr>"
    by (rule make_dangling_split)
  have t: "currentAllocationTime ?f = t" using assms(3) by simp
  have r: "i = currentOraclePosition f + int (length ?es)" "same_log ?f f1"
    using scan_induct [OF sc, of "\<lambda>_ _. True" t] t by auto
  have o: "object_at ?f = (object_at f)(t := ptr)" using assms(3) by (auto simp: object_at_def fun_eq_iff)
  show "currentAllocationTime f' = t + 1" using r(2) t by (simp add: f' same_log_def)
  show "currentOraclePosition f' = currentOraclePosition f + int (length ?es)" using r by (simp add: f')
  have "object_at f' = object_at f1" by (simp add: f' object_at_def fun_eq_iff)
  then show "object_at f' = (object_at f)(t := ptr)" using r(2) o by (simp add: same_log_def)
  assume p: "liveObjects f p \<noteq> None \<or> p = ptr" "liveObjects f' p = None"
  have "\<exists>e \<in> set ?es. object_at ?f (o_allocated e) = p \<and> logged_frees voodoo P t e"
    by (rule scan_frees [OF sc t]) (use p f' in auto)
  then obtain e where e: "e \<in> set ?es" "object_at ?f (o_allocated e) = p" "logged_frees voodoo P t e" by blast
  moreover have "o_allocated e < t" using e(1) by (auto dest: set_takeWhileD)
  ultimately show "\<exists>e \<in> set ?es. object_at f (o_allocated e) = p \<and> logged_frees voodoo P t e" using o by auto
qed

section \<open>What every injector has in common\<close>

text \<open>A faulty heap: \<open>malloc\<close> may also drop objects, \<open>free\<close> is as it should be.\<close>

fun faulty_step :: "outcome \<Rightarrow> addr set \<Rightarrow> addr set \<Rightarrow> bool" where
  "faulty_step (Allocated a) L L' \<longleftrightarrow> a \<notin> L \<and> L' \<subseteq> insert a L - {0}"
| "faulty_step (Freed a) L L' \<longleftrightarrow> abs_step (Freed a) L L'"
| "faulty_step (Ignored a) L L' \<longleftrightarrow> abs_step (Ignored a) L L'"

fun faulty_run :: "outcome list \<Rightarrow> addr set \<Rightarrow> addr set \<Rightarrow> bool" where
  "faulty_run [] L L' \<longleftrightarrow> L' = L"
| "faulty_run (out # outs) L L' \<longleftrightarrow> (\<exists>M. faulty_step out L M \<and> faulty_run outs M L')"

definition mallocs :: "outcome list \<Rightarrow> addr list" where
  "mallocs outs = concat (map (\<lambda>out. case out of Allocated a \<Rightarrow> [a] | _ \<Rightarrow> []) outs)"

lemma mallocs_simps [simp]: "mallocs [] = []" "mallocs (Allocated a # outs) = a # mallocs outs"
  "mallocs (Freed a # outs) = mallocs outs" "mallocs (Ignored a # outs) = mallocs outs"
  by (simp_all add: mallocs_def)

text \<open>What the three versions of \<open>malloc\<close> do: a request to the heap below, smaller or not, then the loop.\<close>

definition injects :: "bool \<Rightarrow> nat \<Rightarrow> 'g injector_params \<Rightarrow> 'r heap_ops \<Rightarrow> ('g injector \<times> 'r) heap_malloc \<Rightarrow> bool" where
  "injects voodoo w P H fmalloc \<longleftrightarrow> (\<forall>sz f r m ptr f' r' m' rs.
     fmalloc sz ((f, r), m) = Some (ptr, ((f', r'), m'), rs) \<longrightarrow>
     (\<exists>n f0 s rs1 rs2. (n = sz \<or> n = shortened w P sz) \<and> h_malloc H n (r, m) = Some (ptr, s, rs1)
        \<and> same_log f f0 \<and> liveObjects f0 = liveObjects f \<and> make_dangling voodoo P H ptr f0 s = (f', (r', m'), rs2)))"

lemma same_log_fields: "same_log f (f\<lparr>fi_rng := g\<rparr>)" "same_log f (f\<lparr>fi_injected := n\<rparr>)" "same_log f (f\<lparr>fi_rng := g, fi_alloc_site := k\<rparr>)"
  by (simp_all add: same_log_def object_at_def fun_eq_iff)

lemma injectsI:
  assumes "\<And>sz f r m ptr f' r' m' rs. fmalloc sz ((f, r), m) = Some (ptr, ((f', r'), m'), rs) \<Longrightarrow>
    \<exists>n f0 s rs1 rs2. (n = sz \<or> n = shortened w P sz) \<and> h_malloc H n (r, m) = Some (ptr, s, rs1)
      \<and> same_log f f0 \<and> liveObjects f0 = liveObjects f \<and> make_dangling voodoo P H ptr f0 s = (f', (r', m'), rs2)"
  shows "injects voodoo w P H fmalloc"
  using assms by (simp add: injects_def)

lemma bind_dangling:
  assumes "do { (ptr, s, rs) \<leftarrow> q; let (f, (r, m), rs') = D ptr s in Some (ptr, ((f, r), m), rs @ rs') } = Some (ptr, ((f', r'), m'), rs)"
  obtains s rs1 rs2 where "q = Some (ptr, s, rs1)" and "D ptr s = (f', (r', m'), rs2)"
proof (cases q)
  case (Some a)
  obtain p s rs1 where a: "a = (p, s, rs1)" by (cases a)
  obtain f1 r1 m1 rs2 where D: "D p s = (f1, (r1, m1), rs2)" by (metis surj_pair)
  from assms have "p = ptr" "f1 = f'" "r1 = r'" "m1 = m'" by (simp_all add: Some a D)
  with that Some a D show thesis by blast
qed (use assms in simp)

lemma det_request_same:
  assumes "det_request site P sz f = (n, f0)"
  shows "(n = sz \<or> n = shortened 32 P sz) \<and> same_log f f0 \<and> liveObjects f0 = liveObjects f"
proof -
  obtain c g where c: "fi_next P (fi_rng f) = (c, g)" by (metis surj_pair)
  have "n = fst (det_request site P sz f)" "f0 = snd (det_request site P sz f)" using assms by simp_all
  then show ?thesis by (simp add: det_request_def c Let_def same_log_fields)
qed

lemma request_same:
  "ub_request P sz f = (n, f0) \<Longrightarrow> (n = sz \<or> n = shortened 64 P sz) \<and> same_log f f0 \<and> liveObjects f0 = liveObjects f"
  "xb_request P sz f = (n, f0) \<Longrightarrow> (n = sz \<or> n = shortened 32 P sz) \<and> same_log f f0 \<and> liveObjects f0 = liveObjects f"
  by (auto simp: ub_request_def xb_request_def same_log_fields split: if_splits prod.splits)

lemma ub_injects: "injects False 64 P H (ub_malloc P H)"
proof (rule injectsI)
  fix sz f r m ptr f' r' m' rs
  assume run: "ub_malloc P H sz ((f, r), m) = Some (ptr, ((f', r'), m'), rs)"
  obtain n f0 where p: "ub_request P sz f = (n, f0)" by (metis surj_pair)
  obtain s rs1 rs2 where "h_malloc H n (r, m) = Some (ptr, s, rs1)" "make_dangling False P H ptr f0 s = (f', (r', m'), rs2)"
    by (rule bind_dangling [unfolded Let_def, OF run [unfolded ub_malloc_def Let_def prod.case p]])
  with request_same(1) [OF p] show "\<exists>n f0 s rs1 rs2. (n = sz \<or> n = shortened 64 P sz) \<and> h_malloc H n (r, m) = Some (ptr, s, rs1)
      \<and> same_log f f0 \<and> liveObjects f0 = liveObjects f \<and> make_dangling False P H ptr f0 s = (f', (r', m'), rs2)" by blast
qed

lemma xb_injects: "injects True 32 P H (xb_malloc P H)"
proof (rule injectsI)
  fix sz f r m ptr f' r' m' rs
  assume run: "xb_malloc P H sz ((f, r), m) = Some (ptr, ((f', r'), m'), rs)"
  obtain n f0 where p: "xb_request P sz f = (n, f0)" by (metis surj_pair)
  define f1 where "f1 = (if other_power sz n then f0\<lparr>fi_injected := fi_injected f0 + 1\<rparr> else f0)"
  have "same_log f0 f1" "liveObjects f1 = liveObjects f0" by (simp_all add: f1_def same_log_fields)
  moreover obtain s rs1 rs2 where "h_malloc H n (r, m) = Some (ptr, s, rs1)" "make_dangling True P H ptr f1 s = (f', (r', m'), rs2)"
    unfolding f1_def by (rule bind_dangling [unfolded Let_def, OF run [unfolded xb_malloc_def Let_def prod.case p]])
  ultimately show "\<exists>n f0 s rs1 rs2. (n = sz \<or> n = shortened 32 P sz) \<and> h_malloc H n (r, m) = Some (ptr, s, rs1)
      \<and> same_log f f0 \<and> liveObjects f0 = liveObjects f \<and> make_dangling True P H ptr f0 s = (f', (r', m'), rs2)"
    using request_same(2) [OF p] same_log_trans [of f f0 f1]
    by (intro exI [of _ n] exI [of _ f1] exI [of _ s] exI [of _ rs1] exI [of _ rs2]) simp
qed

lemma det_injects: "injects True 32 P H (det_malloc site P H)"
proof (rule injectsI)
  fix sz f r m ptr f' r' m' rs
  assume run: "det_malloc site P H sz ((f, r), m) = Some (ptr, ((f', r'), m'), rs)"
  obtain n f0 where p: "det_request site P sz f = (n, f0)" by (metis surj_pair)
  obtain s rs1 rs2 where "h_malloc H n (r, m) = Some (ptr, s, rs1)" "make_dangling True P H ptr f0 s = (f', (r', m'), rs2)"
    by (rule bind_dangling [unfolded Let_def, OF run [unfolded det_malloc_def Let_def prod.case p]])
  with det_request_same [OF p] show "\<exists>n f0 s rs1 rs2. (n = sz \<or> n = shortened 32 P sz) \<and> h_malloc H n (r, m) = Some (ptr, s, rs1)
      \<and> same_log f f0 \<and> liveObjects f0 = liveObjects f \<and> make_dangling True P H ptr f0 s = (f', (r', m'), rs2)" by blast
qed

definition matches :: "(addr \<Rightarrow> int option) \<Rightarrow> addr set \<Rightarrow> bool" where
  "matches L S \<longleftrightarrow> (\<forall>p. p \<noteq> 0 \<longrightarrow> (L p \<noteq> None \<longleftrightarrow> p \<in> S))"

lemma matches_drop: "matches L S \<Longrightarrow> matches (L(p := None)) (S - {p})"
  by (simp add: matches_def)

lemma matches_add: "matches L S \<Longrightarrow> matches (L(p \<mapsto> n)) (insert p S)"
  by (simp add: matches_def)

lemma matches_null: "matches L (insert 0 S) \<longleftrightarrow> matches L S" "matches L (S - {0}) \<longleftrightarrow> matches L S"
  by (simp_all add: matches_def)

lemma matches_None: "matches L S \<Longrightarrow> L p = None \<Longrightarrow> 0 \<notin> S \<Longrightarrow> p \<notin> S"
  unfolding matches_def by (cases "p = 0") (simp, metis)

text \<open>The heap below serves the request and the shorter one.\<close>

definition served_call :: "(nat \<Rightarrow> bool) \<Rightarrow> nat \<Rightarrow> 'g injector_params \<Rightarrow> call \<Rightarrow> bool" where
  "served_call serves w P c \<longleftrightarrow> (case c of Malloc sz \<Rightarrow> serves sz \<and> serves (shortened w P sz) | Free a \<Rightarrow> True)"

locale fault_injector = heap_iface +
  fixes P :: "'g injector_params" and voodoo :: bool and w :: nat and fmalloc :: "('g injector \<times> 'a) heap_malloc"
  assumes fmalloc_injects: "injects voodoo w P \<lparr>h_malloc = alloc, h_free = release, h_getSize = size_of\<rparr> fmalloc"
begin

text \<open>The objects the injector knows are those of the heap below; a failed \<open>malloc\<close> leaves null among them.\<close>

definition known :: "'g injector \<Rightarrow> 'a \<Rightarrow> bool" where
  "known f r \<longleftrightarrow> inv r \<and> matches (liveObjects f) (live r)"

abbreviation "ffree \<equiv> xb_free P \<lparr>h_malloc = alloc, h_free = release, h_getSize = size_of\<rparr>"

lemma null_dead: "inv r \<Longrightarrow> 0 \<notin> live r \<and> 0 \<notin> inside r"
  using live_inside inside_own null_foreign by blast

lemma known_release:
  assumes "inv r" and "matches L (live r)" and "L p \<noteq> None" and "release p (r, m) = (ok, (r', m'), rs)"
  shows "inv r' \<and> matches (L(p := None)) (live r') \<and> live r' = live r - {p} \<and> (ok \<longleftrightarrow> p \<in> live r)"
proof (cases "p = 0")
  case True
  have n: "0 \<notin> live r" "0 \<notin> inside r" using null_dead [OF assms(1)] by simp_all
  have "\<not> ok \<and> inv r' \<and> live r' = live r" using release_outside [OF assms(1) _ assms(4)] n True by simp
  moreover have "matches (L(0 := None)) (live r)" using matches_drop [OF assms(2), of 0] by (simp add: matches_null)
  ultimately show ?thesis using n(1) True by simp
next
  case False
  with assms(2,3) have l: "p \<in> live r" by (simp add: matches_def)
  from release_live [OF assms(1) l assms(4)] l matches_drop [OF assms(2), of p] show ?thesis by simp
qed

lemma fmalloc_known:
  assumes "danglingOn P" and "known f r" and "serves sz" and "serves (shortened w P sz)"
    and "fmalloc sz ((f, r), m) = Some (ptr, ((f', r'), m'), rs)"
  shows "known f' r' \<and> ptr \<notin> live r \<and> live r' \<subseteq> insert ptr (live r) - {0}"
proof -
  from fmalloc_injects [unfolded injects_def, rule_format, OF assms(5)]
  obtain n f0 s rs1 rs2 where n: "n = sz \<or> n = shortened w P sz" and a: "alloc n (r, m) = Some (ptr, s, rs1)"
    and f0: "liveObjects f0 = liveObjects f"
    and d: "make_dangling voodoo P \<lparr>h_malloc = alloc, h_free = release, h_getSize = size_of\<rparr> ptr f0 s = (f', (r', m'), rs2)"
    by (simp only: heap_ops.select_convs) blast
  obtain r1 m1 where s: "s = (r1, m1)" by (cases s)
  have k: "inv r" "matches (liveObjects f) (live r)" using assms(2) by (simp_all add: known_def)
  have sv: "serves n" using n assms(3,4) by auto
  note r1 = alloc_result [OF k(1) sv a [unfolded s]]
  have fresh: "ptr \<notin> live r" using alloc_fresh(1) [OF k(1) sv a [unfolded s]] null_dead [OF k(1)] by (cases "ptr = 0") auto
  define Q where "Q = (\<lambda>L :: addr \<Rightarrow> int option. \<lambda>(r2, m2 :: mem). inv r2 \<and> matches L (live r2) \<and> live r2 \<subseteq> insert ptr (live r))"
  have "Q (liveObjects f') (r', m')"
  proof (rule make_dangling_live [OF assms(1) d])
    show "Q ((liveObjects f0)(ptr \<mapsto> 1)) s" using r1 matches_add [OF k(2), of ptr 1] by (auto simp: Q_def s f0 matches_null)
  next
    fix L p t ok t' rs'
    assume q: "Q L t" "L p \<noteq> None" "h_free \<lparr>h_malloc = alloc, h_free = release, h_getSize = size_of\<rparr> p t = (ok, t', rs')"
    obtain r2 m2 r3 m3 where t: "t = (r2, m2)" "t' = (r3, m3)" by (metis surj_pair)
    from q(1) have i: "inv r2" "matches L (live r2)" "live r2 \<subseteq> insert ptr (live r)" by (simp_all add: Q_def t)
    have "release p (r2, m2) = (ok, (r3, m3), rs')" using q(3) by (simp add: t)
    from known_release [OF i(1,2) q(2) this] i(3) show "Q (L(p := None)) t'" by (auto simp: Q_def t)
  qed
  then show ?thesis using fresh null_dead [of r'] by (auto simp: Q_def known_def)
qed

lemma ffree_known:
  assumes "danglingOn P" and "known f r" and "ffree a ((f, r), m) = (ok, ((f', r'), m'), rs)"
  shows "known f' r' \<and> live r' = live r - {a} \<and> (ok \<longleftrightarrow> a \<in> live r)"
proof (cases "liveObjects f a = None")
  case True
  then have "a \<notin> live r" using assms(2) null_dead [of r] matches_None [of "liveObjects f" "live r" a] by (simp add: known_def)
  with True assms show ?thesis by (simp add: xb_free_def)
next
  case False
  obtain ok' r1 m1 rs1 where h: "release a (r, m) = (ok', (r1, m1), rs1)" by (metis surj_pair)
  then have e: "ok = ok'" "r' = r1" "f' = f\<lparr>liveObjects := (liveObjects f)(a := None)\<rparr>"
    using assms(1,3) False by (simp_all add: xb_free_def)
  have k: "inv r1" "matches ((liveObjects f)(a := None)) (live r1)" "live r1 = live r - {a}" "ok' \<longleftrightarrow> a \<in> live r"
    using known_release [of r "liveObjects f" a, OF _ _ False h] assms(2) unfolding known_def by blast+
  show ?thesis by (intro conjI) (simp add: known_def e k(1,2), simp add: e k(3), simp add: e k(4))
qed

lemma fcall_known:
  assumes "danglingOn P" and "known f r" and "served_call serves w P c" and "run_call fmalloc ffree c ((f, r), m) = Some (out, ((f', r'), m'))"
  shows "known f' r' \<and> faulty_step out (live r) (live r')"
proof (cases c)
  case (Malloc sz)
  then obtain a rs where a: "fmalloc sz ((f, r), m) = Some (a, ((f', r'), m'), rs)" "out = Allocated a"
    using assms(4) by auto
  have "serves sz" "serves (shortened w P sz)" using assms(3) by (simp_all add: served_call_def Malloc)
  from fmalloc_known [OF assms(1,2) this a(1)] a(2) show ?thesis by simp
next
  case (Free a)
  obtain ok f1 r1 m1 rs where x: "ffree a ((f, r), m) = (ok, ((f1, r1), m1), rs)" by (metis surj_pair)
  with assms(4) have "f1 = f'" "r1 = r'" "out = (if ok then Freed a else Ignored a)" by (auto simp: Free)
  with ffree_known [OF assms(1,2) x] show ?thesis by auto
qed

text \<open>Whatever the program frees.\<close>

lemma fcalls_known:
  assumes "danglingOn P" and "known f r" and "list_all (served_call serves w P) cs" and "run_calls fmalloc ffree cs ((f, r), m) = Some (outs, ((f', r'), m'))"
  shows "known f' r' \<and> faulty_run outs (live r) (live r')"
  using assms(2-4)
proof (induction cs arbitrary: f r m outs)
  case (Cons c cs)
  from Cons.prems(3) obtain out f1 r1 m1 rest where one: "run_call fmalloc ffree c ((f, r), m) = Some (out, ((f1, r1), m1))"
    and more: "run_calls fmalloc ffree cs ((f1, r1), m1) = Some (rest, ((f', r'), m'))" and outs: "outs = out # rest"
    by (auto split: option.splits)
  have "served_call serves w P c" "list_all (served_call serves w P) cs" using Cons.prems(2) by simp_all
  from fcall_known [OF assms(1) Cons.prems(1) this(1) one] Cons.IH [OF _ this(2) more] show ?case unfolding outs by auto
qed simp

end

section \<open>When an object can be freed too early\<close>

definition sorted_log :: "'g injector_params \<Rightarrow> bool" where
  "sorted_log P \<longleftrightarrow> sorted (map o_allocated (oracle_log P)) \<and> list_all (\<lambda>e. 0 \<le> o_allocated e) (oracle_log P)"

definition clocked :: "'g injector_params \<Rightarrow> 'g injector \<Rightarrow> outcome list \<Rightarrow> bool" where
  "clocked P f outs \<longleftrightarrow> currentAllocationTime f = int (length (mallocs outs))
     \<and> currentOraclePosition f = int (length (takeWhile (\<lambda>e. o_allocated e < currentAllocationTime f - 1) (oracle_log P)))
     \<and> (\<forall>k < length (mallocs outs). object_at f (int k) = mallocs outs ! k)"

lemma takeWhile_split: "(\<And>x. p x \<Longrightarrow> q x) \<Longrightarrow> takeWhile q xs = takeWhile p xs @ takeWhile q (dropWhile p xs)"
  by (induction xs) auto

lemma sorted_dropWhile: "sorted (map f xs) \<Longrightarrow> x \<in> set (dropWhile (\<lambda>x. f x < b) xs) \<Longrightarrow> b \<le> f x" for b :: "'b :: linorder"
  by (induction xs) (auto split: if_splits)

lemma mallocs_append [simp]: "mallocs (xs @ ys) = mallocs xs @ mallocs ys"
  by (simp add: mallocs_def)

lemma clocked_start: "sorted_log P \<Longrightarrow> clocked P (injector_start g) []"
  by (cases "oracle_log P") (auto simp: clocked_def injector_start_def sorted_log_def)

lemma clocked_malloc:
  assumes "injects voodoo w P H fmalloc" and "danglingOn P" and "clocked P f outs"
    and "fmalloc sz ((f, r), m) = Some (ptr, ((f', r'), m'), rs)"
  shows "clocked P f' (outs @ [Allocated ptr])"
    and "sorted_log P \<Longrightarrow> liveObjects f p \<noteq> None \<or> p = ptr \<Longrightarrow> liveObjects f' p = None \<Longrightarrow>
      mallocs outs \<noteq> [] \<and> p = last (mallocs outs)
        \<and> (\<exists>e \<in> set (oracle_log P). o_allocated e = int (length (mallocs outs)) - 1 \<and> logged_frees voodoo P (int (length (mallocs outs))) e)"
proof -
  let ?t = "int (length (mallocs outs))"
  let ?p = "\<lambda>e. o_allocated e < ?t - 1" and ?q = "\<lambda>e. o_allocated e < ?t"
  from assms(1,4) obtain f0 s rs2 where f0: "same_log f f0" "liveObjects f0 = liveObjects f"
    and d: "make_dangling voodoo P H ptr f0 s = (f', (r', m'), rs2)"
    unfolding injects_def by blast
  have t: "currentAllocationTime f0 = ?t" using f0(1) assms(3) by (simp add: same_log_def clocked_def)
  have pos: "nat (currentOraclePosition f0) = length (takeWhile ?p (oracle_log P))"
    and pos': "currentOraclePosition f0 = int (length (takeWhile ?p (oracle_log P)))"
    using f0(1) assms(3) by (simp_all add: same_log_def clocked_def)
  have rest: "drop (nat (currentOraclePosition f0)) (oracle_log P) = dropWhile ?p (oracle_log P)"
    unfolding pos by (simp add: dropWhile_eq_drop)
  note c = make_dangling_clock [OF assms(2) d t, unfolded rest, unfolded pos']
  have "takeWhile ?q (oracle_log P) = takeWhile ?p (oracle_log P) @ takeWhile ?q (dropWhile ?p (oracle_log P))"
    by (rule takeWhile_split) simp
  then have "int (length (takeWhile ?p (oracle_log P))) + int (length (takeWhile ?q (dropWhile ?p (oracle_log P))))
      = int (length (takeWhile ?q (oracle_log P)))" by simp
  moreover have "object_at f' = (object_at f)(?t := ptr)" using c(3) f0(1) by (simp add: same_log_def)
  ultimately show "clocked P f' (outs @ [Allocated ptr])"
    using c(1,2) assms(3) by (auto simp: clocked_def nth_append less_Suc_eq)
  assume s: "sorted_log P" and p: "liveObjects f p \<noteq> None \<or> p = ptr" "liveObjects f' p = None"
  from c(4) p f0 obtain e where e: "e \<in> set (takeWhile ?q (dropWhile ?p (oracle_log P)))" "object_at f (o_allocated e) = p"
    "logged_frees voodoo P ?t e" by (auto simp: same_log_def)
  have "e \<in> set (dropWhile ?p (oracle_log P))" "o_allocated e < ?t" using e(1) by (auto dest: set_takeWhileD)
  moreover have "?t - 1 \<le> o_allocated e" using sorted_dropWhile [OF _ calculation(1)] s by (simp add: sorted_log_def)
  ultimately have a: "o_allocated e = ?t - 1" and m: "e \<in> set (oracle_log P)" by (auto dest: set_dropWhileD)
  have n: "mallocs outs \<noteq> []" using a m s by (auto simp: sorted_log_def list_all_iff)
  then have k: "?t - 1 = int (length (mallocs outs) - 1)" "length (mallocs outs) - 1 < length (mallocs outs)" by (simp_all add: Suc_leI)
  have "object_at f (int (length (mallocs outs) - 1)) = mallocs outs ! (length (mallocs outs) - 1)"
    using assms(3) k(2) unfolding clocked_def by blast
  then have "object_at f (o_allocated e) = last (mallocs outs)" using n unfolding a k(1) by (simp add: last_conv_nth)
  with n e a m show "mallocs outs \<noteq> [] \<and> p = last (mallocs outs)
      \<and> (\<exists>e \<in> set (oracle_log P). o_allocated e = ?t - 1 \<and> logged_frees voodoo P ?t e)" by auto
qed

lemma clocked_free:
  assumes "danglingOn P" and "clocked P f outs" and "xb_free P H a ((f, r), m) = (ok, ((f', r'), m'), rs)"
  shows "clocked P f' (outs @ [if ok then Freed a else Ignored a])"
proof -
  have "same_log f f'" using assms(1,3) by (auto simp: xb_free_def same_log_def object_at_def split: if_splits prod.splits)
  with assms(2) show ?thesis by (simp add: clocked_def same_log_def)
qed

lemma clocked_calls:
  assumes "injects voodoo w P H fmalloc" and "danglingOn P" and "clocked P f outs0"
    and "run_calls fmalloc (xb_free P H) cs ((f, r), m) = Some (outs, ((f', r'), m'))"
  shows "clocked P f' (outs0 @ outs)"
  using assms(3,4)
proof (induction cs arbitrary: f r m outs0 outs)
  case (Cons c cs)
  from Cons.prems(2) obtain out f1 r1 m1 rest where one: "run_call fmalloc (xb_free P H) c ((f, r), m) = Some (out, ((f1, r1), m1))"
    and more: "run_calls fmalloc (xb_free P H) cs ((f1, r1), m1) = Some (rest, ((f', r'), m'))" and outs: "outs = out # rest"
    by (auto split: option.splits)
  have "clocked P f1 (outs0 @ [out])"
  proof (cases c)
    case (Malloc sz)
    then obtain a rs where "fmalloc sz ((f, r), m) = Some (a, ((f1, r1), m1), rs)" "out = Allocated a" using one by auto
    with clocked_malloc(1) [OF assms(1,2) Cons.prems(1)] show ?thesis by blast
  next
    case (Free a)
    obtain ok f2 r2 m2 rs where x: "xb_free P H a ((f, r), m) = (ok, ((f2, r2), m2), rs)" by (metis surj_pair)
    with one have "f2 = f1" "out = (if ok then Freed a else Ignored a)" by (auto simp: Free)
    with clocked_free [OF assms(2) Cons.prems(1) x] show ?thesis by simp
  qed
  from Cons.IH [OF this more] show ?case by (simp add: outs)
qed simp

section \<open>The log of a run\<close>

text \<open>What a record says: the object allocated at time \<open>o_allocated\<close> was freed before the call of \<open>malloc\<close> at time
  \<open>o_freed\<close>; a pointer that no \<open>malloc\<close> returned is logged as the object of time 0.\<close>

definition tracked :: "tracker \<Rightarrow> bool" where
  "tracked t \<longleftrightarrow> 0 \<le> tk_time t \<and> (\<forall>p a. theMap t p = Some a \<longrightarrow> 0 \<le> a \<and> a < tk_time t)
     \<and> list_all (\<lambda>e. 0 \<le> o_allocated e \<and> (o_allocated e < o_freed e \<or> o_allocated e = 0) \<and> 0 \<le> o_freed e \<and> o_freed e \<le> tk_time t) (tk_written t)"

lemma tracked_start: "tracked tracker_start"
  by (simp add: tracked_def tracker_start_def)

lemma tracked_malloc:
  assumes "tracked t" and "track_malloc H sz ((t, r), m) = Some (p, ((t', r'), m'), rs)"
  shows "tracked t'"
proof -
  obtain s rs1 where "h_malloc H sz (r, m) = Some (p, s, rs1)"
    and t': "t' = t\<lparr>theMap := (theMap t)(p \<mapsto> tk_time t), tk_time := tk_time t + 1\<rparr>"
    using assms(2) by (auto simp: track_malloc_def bind_eq_Some_conv)
  with assms(1) show ?thesis by (fastforce simp: tracked_def list_all_iff)
qed

lemma tracked_free:
  assumes "tracked t" and "track_free p ((t, r), m) = (ok, ((t', r'), m'), rs)"
  shows "tracked t'"
proof (cases "p = 0")
  case False
  let ?a = "case theMap t p of None \<Rightarrow> 0 | Some a \<Rightarrow> a"
  have t': "t' = t\<lparr>tk_written := tk_written t @ [\<lparr>o_freed = tk_time t, o_allocated = ?a\<rparr>], theMap := (theMap t)(p := None)\<rparr>"
    using assms(2) False by (auto simp: track_free_def Let_def)
  have "0 \<le> ?a \<and> (?a < tk_time t \<or> ?a = 0)" using assms(1) by (auto simp: tracked_def split: option.splits)
  with assms(1) show ?thesis unfolding t' by (simp add: tracked_def)
qed (use assms in \<open>simp add: track_free_def\<close>)

lemma tracked_calls:
  assumes "tracked t" and "run_calls (track_malloc H) track_free cs ((t, r), m) = Some (outs, ((t', r'), m'))"
  shows "tracked t'"
  using assms
proof (induction cs arbitrary: t r m outs)
  case (Cons c cs)
  from Cons.prems(2) obtain out t1 r1 m1 rest where one: "run_call (track_malloc H) track_free c ((t, r), m) = Some (out, ((t1, r1), m1))"
    and more: "run_calls (track_malloc H) track_free cs ((t1, r1), m1) = Some (rest, ((t', r'), m'))"
    by (auto split: option.splits)
  have "tracked t1"
  proof (cases c)
    case (Malloc sz)
    then obtain a rs where "track_malloc H sz ((t, r), m) = Some (a, ((t1, r1), m1), rs)" using one by auto
    then show ?thesis by (rule tracked_malloc [OF Cons.prems(1)])
  next
    case (Free a)
    obtain ok t2 r2 m2 rs where x: "track_free a ((t, r), m) = (ok, ((t2, r2), m2), rs)" by (metis surj_pair)
    have "tracked t2" using Cons.prems(1) x by (rule tracked_free)
    with one x show ?thesis by (auto simp: Free)
  qed
  from Cons.IH [OF this more] show ?case .
qed simp

text \<open>A new log, sorted and read back.\<close>

lemma readLogFile_track:
  assumes "tracked t" and "tk_time t < 2 ^ 31"
  shows "readLogFile (track_log [] t) = tk_written t" and "readLogFile (sortlog (track_log [] t)) = sort_key o_allocated (tk_written t)"
proof -
  have f: "list_all record_fits (tk_written t)"
    using assms by (auto simp: tracked_def list_all_iff record_fits_def fits_int_def)
  then show r: "readLogFile (track_log [] t) = tk_written t"
    using readLogFile_records [OF f, of "[]"] by (simp add: track_log_def Let_def)
  show "readLogFile (sortlog (track_log [] t)) = sort_key o_allocated (tk_written t)"
    using readLogFile_sortlog [of "track_log [] t"] f by (simp add: r)
qed

lemma tracked_sorted:
  assumes "tracked t" and "tk_time t < 2 ^ 31" and "oracle_log P = readLogFile (sortlog (track_log [] t))"
  shows "sorted_log P" and "set (oracle_log P) = set (tk_written t)"
  using assms(1) readLogFile_track(2) [OF assms(1,2)] by (auto simp: assms(3) sorted_log_def tracked_def list_all_iff)

text \<open>What an older, longer log held stays at the end of the file.\<close>

lemma stale_log:
  assumes "tracked t" and "tk_time t < 2 ^ 31"
  shows "readLogFile (track_log old t) = tk_written t @ readLogFile (drop (length (concat (map record_bytes (tk_written t)))) old)"
proof -
  have f: "list_all record_fits (tk_written t)"
    using assms by (auto simp: tracked_def list_all_iff record_fits_def fits_int_def)
  from readLogFile_records [OF this] show ?thesis by (simp add: track_log_def Let_def)
qed

section \<open>Over the heap of libdieharder\<close>

interpretation ub_faults: fault_injector "program_inv df" "program_live df" "program_inside df"
    "(\<Union>i < 17. class_own i) \<union> {2 ^ 46..}" program_serves "program_malloc df" "program_free df" "program_getSize df"
    P False 64 "ub_malloc P (program_heap_ops df)"
  for df P
  by unfold_locales (simp add: program_heap_ops_def ub_injects)

interpretation xb_faults: fault_injector "program_inv df" "program_live df" "program_inside df"
    "(\<Union>i < 17. class_own i) \<union> {2 ^ 46..}" program_serves "program_malloc df" "program_free df" "program_getSize df"
    P True 32 "xb_malloc P (program_heap_ops df)"
  for df P
  by unfold_locales (simp add: program_heap_ops_def xb_injects)

interpretation det_faults: fault_injector "program_inv df" "program_live df" "program_inside df"
    "(\<Union>i < 17. class_own i) \<union> {2 ^ 46..}" program_serves "program_malloc df" "program_free df" "program_getSize df"
    P True 32 "det_malloc site P (program_heap_ops df)"
  for df P site
  by unfold_locales (simp add: program_heap_ops_def det_injects)

lemma run_calls_same:
  assumes "\<And>c f r m. \<exists>f'. run_call al fr c ((f, r), m)
    = map_option (\<lambda>(out, (r, m)). (out, ((f', r), m))) (run_call (h_malloc H) (h_free H) c (r, m))"
  shows "map_option (\<lambda>(outs, ((f, r), m)). (outs, (r, m))) (run_calls al fr cs ((f, r), m)) = run_calls (h_malloc H) (h_free H) cs (r, m)"
proof (induction cs arbitrary: f r m)
  case (Cons c cs)
  obtain f' where c: "run_call al fr c ((f, r), m)
    = map_option (\<lambda>(out, (r, m)). (out, ((f', r), m))) (run_call (h_malloc H) (h_free H) c (r, m))" using assms by blast
  show ?case
  proof (cases "run_call (h_malloc H) (h_free H) c (r, m)")
    case (Some x)
    obtain out r1 m1 where x: "x = (out, (r1, m1))" by (cases x)
    have "run_calls al fr (c # cs) ((f, r), m) = map_option (\<lambda>(outs, s). (out # outs, s)) (run_calls al fr cs ((f', r1), m1))"
      by (simp add: c Some x)
    moreover have "run_calls (h_malloc H) (h_free H) (c # cs) (r, m)
        = map_option (\<lambda>(outs, s). (out # outs, s)) (run_calls (h_malloc H) (h_free H) cs (r1, m1))" by (simp add: Some x)
    ultimately show ?thesis
      by (simp add: Cons.IH [of f' r1 m1, symmetric] option.map_comp o_def case_prod_beta)
  qed (simp add: c)
qed simp

text \<open>A program that turns the faults off runs over the heap below.\<close>

lemma injector_off:
  assumes "\<not> danglingOn P" and "\<And>c. \<not> underflowHits P c"
  shows "map_option (\<lambda>(outs, ((f, r), m)). (outs, (r, m))) (run_calls (ub_malloc P H) (ub_free P H) cs ((f, r), m))
      = run_calls (h_malloc H) (h_free H) cs (r, m)"
    and "map_option (\<lambda>(outs, ((f, r), m)). (outs, (r, m))) (run_calls (xb_malloc P H) (xb_free P H) cs ((f, r), m))
      = run_calls (h_malloc H) (h_free H) cs (r, m)"
proof -
  have d: "make_dangling v P H ptr f s = (f, s, [])" for v ptr f s using assms(1) by (simp add: make_dangling_def)
  have free: "run_call al (xb_free P H) (Free a) ((f, r), m)
      = map_option (\<lambda>(out, (r, m)). (out, ((f, r), m))) (run_call (h_malloc H) (h_free H) (Free a) (r, m))" for al a f r m
    using assms(1) by (simp add: xb_free_def split: prod.splits)
  have ub: "\<exists>f'. run_call (ub_malloc P H) (ub_free P H) c ((f, r), m)
      = map_option (\<lambda>(out, (r, m)). (out, ((f', r), m))) (run_call (h_malloc H) (h_free H) c (r, m))" for c f r m
  proof (cases c)
    case (Malloc sz)
    define f' where "f' = snd (ub_request P sz f)"
    then have "ub_request P sz f = (sz, f')" using assms(2) by (simp add: ub_request_def split: prod.split)
    then show ?thesis
      by (cases "h_malloc H sz (r, m)") (auto simp: Malloc ub_malloc_def d intro!: exI [of _ f'] split: prod.splits)
  qed (use free in \<open>auto simp: ub_free_eq\<close>)
  have xb: "\<exists>f'. run_call (xb_malloc P H) (xb_free P H) c ((f, r), m)
      = map_option (\<lambda>(out, (r, m)). (out, ((f', r), m))) (run_call (h_malloc H) (h_free H) c (r, m))" for c f r m
  proof (cases c)
    case (Malloc sz)
    define f' where "f' = snd (xb_request P sz f)"
    then have "xb_request P sz f = (sz, f')" using assms(2) by (simp add: xb_request_def split: prod.split)
    then show ?thesis
      by (cases "h_malloc H sz (r, m)") (auto simp: Malloc xb_malloc_def d other_power_def intro!: exI [of _ f'] split: prod.splits)
  qed (use free in auto)
  show "map_option (\<lambda>(outs, ((f, r), m)). (outs, (r, m))) (run_calls (ub_malloc P H) (ub_free P H) cs ((f, r), m))
      = run_calls (h_malloc H) (h_free H) cs (r, m)" by (rule run_calls_same [OF ub])
  show "map_option (\<lambda>(outs, ((f, r), m)). (outs, (r, m))) (run_calls (xb_malloc P H) (xb_free P H) cs ((f, r), m))
      = run_calls (h_malloc H) (h_free H) cs (r, m)" by (rule run_calls_same [OF xb])
qed


text \<open>A generator that counts, faults at every draw.\<close>

definition eager_params :: "int \<Rightarrow> oracle_record list \<Rightarrow> nat injector_params" where
  "eager_params k es = \<lparr>underflowAmount = k, underflowThreshold = 32, underflowHits = \<lambda>c. True, danglingOn = True,
     danglingHits = \<lambda>c. True, danglingPointerDistance = 10, oracle_log = es, fi_next = \<lambda>g. (g, g + 1)\<rparr>"


text \<open>C36: Which objects \<open>libbrokenmalloc\<close> of the exterminator frees too early.  With the log of an earlier run, written by
  \<open>libtrackalloc\<close> into a new file and sorted by \<open>sortlog\<close>, and whatever the program does now: an object that disappears in a
  call of \<open>malloc\<close> is the result of the call just before, the log has an object allocated at that time, and that object
  was freed later than now but at most \<open>danglingPointerDistance\<close> calls later.  So every object is considered only once, at the next
  \<open>malloc\<close>, and objects that live longer than the distance are never freed early.\<close>

theorem early_frees_hit_last_object:
  assumes "danglingOn P"
    and "run_calls (track_malloc H0) track_free cs0 ((tracker_start, r0), m0) = Some (outs0, ((t, r1), m1))"
    and "tk_time t < 2 ^ 31" and "oracle_log P = readLogFile (sortlog (track_log [] t))"
    and "run_calls (xb_malloc P H) (xb_free P H) cs ((injector_start g, r), m) = Some (outs, ((f, r2), m2))"
    and "xb_malloc P H sz ((f, r2), m2) = Some (ptr, ((f', r'), m'), rs)"
    and "liveObjects f p \<noteq> None \<or> p = ptr" and "liveObjects f' p = None" and "n = int (length (mallocs outs))"
  shows "mallocs outs \<noteq> [] \<and> p = last (mallocs outs)
    \<and> (\<exists>e \<in> set (tk_written t). o_allocated e = n - 1 \<and> n < o_freed e \<and> o_freed e \<le> n + danglingPointerDistance P)"
proof -
  note s = tracked_sorted [OF tracked_calls [OF tracked_start assms(2)] assms(3,4)]
  have "clocked P f outs" using clocked_calls [OF xb_injects assms(1) clocked_start [OF s(1)] assms(5)] by simp
  from clocked_malloc(2) [OF xb_injects assms(1) this assms(6) s(1) assms(7,8)] s(2) show ?thesis
    unfolding assms(9) by (auto simp: logged_frees_def)
qed

text \<open>A heap that hands out every address once.\<close>

definition bump_ops :: "addr heap_ops" where
  "bump_ops = \<lparr>h_malloc = \<lambda>sz (n, m). Some (n, (n + 16, m), []), h_free = \<lambda>p s. (True, s, []), h_getSize = \<lambda>p n. 16\<rparr>"

theorem early_frees_hit_last_object_witness:
  "\<exists>t f f'. run_calls (track_malloc bump_ops) track_free [Malloc 8, Malloc 8, Free 16] ((tracker_start, 16), \<lambda>x. 0)
        = Some ([Allocated 16, Allocated 32, Freed 16], ((t, 48), \<lambda>x. 0))
    \<and> run_calls (xb_malloc (eager_params 0 (tk_written t)) bump_ops) (xb_free (eager_params 0 (tk_written t)) bump_ops)
        [Malloc 8] ((injector_start 0, 16), \<lambda>x. 0) = Some ([Allocated 16], ((f, 32), \<lambda>x. 0))
    \<and> xb_malloc (eager_params 0 (tk_written t)) bump_ops 8 ((f, 32), \<lambda>x. 0) = Some (32, ((f', 48), \<lambda>x. 0), [])
    \<and> liveObjects f 16 \<noteq> None \<and> liveObjects f' 16 = None
    \<and> (\<exists>e \<in> set (tk_written t). o_allocated e = 0 \<and> 1 < o_freed e \<and> o_freed e \<le> 11)"
proof -
  let ?t = "\<lparr>tk_time = 2, theMap = Map.empty(32 \<mapsto> 1), tk_written = [\<lparr>o_freed = 2, o_allocated = 0\<rparr>]\<rparr>"
  let ?P = "eager_params 0 [\<lparr>o_freed = 2, o_allocated = 0\<rparr>]"
  have t: "run_calls (track_malloc bump_ops) track_free [Malloc 8, Malloc 8, Free 16] ((tracker_start, 16), \<lambda>x. 0)
      = Some ([Allocated 16, Allocated 32, Freed 16], ((?t, 48), \<lambda>x. 0))"
    by (simp add: track_malloc_def track_free_def bump_ops_def tracker_start_def fun_upd_twist)
  have log: "oracle_log ?P = readLogFile (sortlog (track_log [] ?t))"
    using readLogFile_track(2) [OF tracked_calls [OF tracked_start t]] by (simp add: eager_params_def)
  let ?f = "\<lparr>fi_rng = 0, currentAllocationTime = 1, currentOraclePosition = 0, allocatedObjects = [0 \<mapsto> 16],
    liveObjects = [16 \<mapsto> 1], fi_injected = 0, fi_alloc_site = 0\<rparr> :: nat injector"
  have r: "run_calls (xb_malloc ?P bump_ops) (xb_free ?P bump_ops) [Malloc 8] ((injector_start 0, 16), \<lambda>x. 0)
      = Some ([Allocated 16], ((?f, 32), \<lambda>x. 0))"
    by (simp add: xb_malloc_def xb_request_def other_power_def over_threshold_size_def make_dangling_def bump_ops_def
        eager_params_def injector_start_def)
  have "xb_request ?P 8 ?f = (8, ?f)" by (simp add: xb_request_def over_threshold_size_def eager_params_def)
  then have d: "\<exists>f'. xb_malloc ?P bump_ops 8 ((?f, 32), \<lambda>x. 0) = Some (32, ((f', 48), \<lambda>x. 0), []) \<and> liveObjects f' 16 = None"
    by (simp add: xb_malloc_def other_power_def make_dangling_def examine_def lookup_object_def custom_getsize_def bump_ops_def
        eager_params_def Let_def)
  then obtain f' where d: "xb_malloc ?P bump_ops 8 ((?f, 32), \<lambda>x. 0) = Some (32, ((f', 48), \<lambda>x. 0), [])" "liveObjects f' 16 = None"
    by blast
  have "\<exists>e \<in> set (tk_written ?t). o_allocated e = int (length (mallocs [Allocated 16])) - 1
      \<and> int (length (mallocs [Allocated 16])) < o_freed e \<and> o_freed e \<le> int (length (mallocs [Allocated 16])) + danglingPointerDistance ?P"
    using early_frees_hit_last_object [OF _ t _ log r d(1) _ d(2) refl] by (simp add: eager_params_def)
  with t r d show ?thesis by (intro exI [of _ ?t] exI [of _ ?f] exI [of _ f']) (simp add: eager_params_def)
qed

text \<open>Why the condition marked as voodoo is needed: a program that frees an object at once, over a heap that hands the address out again.
  \<open>libbrokenmalloc\<close> of \<open>src/util\<close> takes the new object for the old one and returns it freed; the
  exterminator leaves it alone.\<close>

lemma voodoo_needed:
  assumes "p \<noteq> 0" and "h_malloc H sz (r0, m0) = Some (p, (r1, m1), [])" and "h_free H p (r1, m1) = (True, (r2, m2), [])"
    and "h_malloc H sz (r2, m2) = Some (p, (r3, m3), [])" and "h_getSize H p r3 < 16384" and "h_free H p (r3, m3) = (ok, (r4, m4), [])"
    and "sz \<le> 32"
  shows "\<exists>f. run_calls (ub_malloc (eager_params 0 [\<lparr>o_freed = 1, o_allocated = 0\<rparr>]) H) (ub_free (eager_params 0 [\<lparr>o_freed = 1, o_allocated = 0\<rparr>]) H)
        [Malloc sz, Free p, Malloc sz] ((injector_start g, r0), m0) = Some ([Allocated p, Freed p, Allocated p], ((f, r4), m4))
      \<and> liveObjects f p = None"
    and "\<exists>f. run_calls (xb_malloc (eager_params 0 [\<lparr>o_freed = 1, o_allocated = 0\<rparr>]) H) (xb_free (eager_params 0 [\<lparr>o_freed = 1, o_allocated = 0\<rparr>]) H)
        [Malloc sz, Free p, Malloc sz] ((injector_start g, r0), m0) = Some ([Allocated p, Freed p, Allocated p], ((f, r3), m3))
      \<and> liveObjects f p \<noteq> None"
proof -
  let ?P = "eager_params 0 [\<lparr>o_freed = 1, o_allocated = 0\<rparr>]"
  have q: "ub_request ?P sz f = (sz, f)" "xb_request ?P sz f = (sz, f)" "\<not> other_power sz sz" for f
    using assms(7) by (simp_all add: ub_request_def xb_request_def over_threshold_size_def other_power_def eager_params_def)
  let ?e = "\<lparr>o_freed = 1, o_allocated = 0\<rparr>"
  have d: "make_dangling v ?P H p (injector_start g) s = ((injector_start g)\<lparr>allocatedObjects := [0 \<mapsto> p], liveObjects := [p \<mapsto> 1],
      currentOraclePosition := 0, currentAllocationTime := 1\<rparr>, s, [])" for v s
    by (simp add: make_dangling_def eager_params_def injector_start_def)
  show "\<exists>f. run_calls (ub_malloc ?P H) (ub_free ?P H) [Malloc sz, Free p, Malloc sz] ((injector_start g, r0), m0)
      = Some ([Allocated p, Freed p, Allocated p], ((f, r4), m4)) \<and> liveObjects f p = None"
    using assms by (simp add: ub_malloc_def ub_free_def q d)
      (simp add: make_dangling_def examine_def lookup_object_def custom_getsize_def eager_params_def injector_start_def Let_def)
  show "\<exists>f. run_calls (xb_malloc ?P H) (xb_free ?P H) [Malloc sz, Free p, Malloc sz] ((injector_start g, r0), m0)
      = Some ([Allocated p, Freed p, Allocated p], ((f, r3), m3)) \<and> liveObjects f p \<noteq> None"
    using assms by (simp add: xb_malloc_def xb_free_def q d)
      (simp add: make_dangling_def examine_def lookup_object_def custom_getsize_def eager_params_def injector_start_def Let_def)
qed

text \<open>\<open>getCustomHeap\<close> of the wrapper, which in \<open>src/util\<close> fills every block with zeros.\<close>

definition ub_ops :: "'g injector_params \<Rightarrow> 'r heap_ops \<Rightarrow> ('g injector \<times> 'r) heap_ops" where
  "ub_ops P H = \<lparr>h_malloc = ub_malloc P H, h_free = ub_free P H, h_getSize = ub_getSize H\<rparr>"

text \<open>A shorter request that falls into a smaller size class is overrun by the wrapper itself: it clears \<open>sz\<close> bytes,
  into the next slot.\<close>

lemma underflow_clears_neighbour:
  assumes "program_inv df r" and "\<not> danglingOn P" and "over_threshold_size 64 P sz" and "underflowHits P (fst (fi_next P (fi_rng f)))"
    and "Alignment \<le> shortened 64 P sz" and "shortened 64 P sz \<le> 1048576" and "16 * 2 ^ getIndex (shortened 64 P sz) < sz"
    and "custom_malloc False (ub_ops P (program_heap_ops df)) sz ((f, r), m) = Some (a, ((f', r'), m'), rs)" and "a \<noteq> 0"
  shows "program_getSize df a r' < sz \<and> m' (a + program_getSize df a r') = 0"
proof -
  obtain c g where g: "fi_next P (fi_rng f) = (c, g)" by (metis surj_pair)
  then have q: "ub_request P sz f = (shortened 64 P sz, f\<lparr>fi_rng := g\<rparr>)" using assms(3,4) by (simp add: ub_request_def)
  obtain m1 rs1 where b: "ub_malloc P (program_heap_ops df) sz ((f, r), m) = Some (a, ((f', r'), m1), rs1)" and m': "m' = memset m1 a 0 sz"
    using assms(8,9) by (auto simp: custom_malloc_def ub_ops_def bind_eq_Some_conv)
  from b q obtain m2 rs2 where "program_malloc df (shortened 64 P sz) (r, m) = Some (a, (r', m2), rs2)"
    using assms(2) by (auto simp: ub_malloc_def make_dangling_def program_heap_ops_def bind_eq_Some_conv)
  then have "program_getSize df a r' = 16 * 2 ^ getIndex (shortened 64 P sz)"
    using program_malloc_small [OF assms(1,6)] assms(5,9) by simp
  then show ?thesis using assms(7) by (simp add: m' memset_def)
qed

text \<open>\<open>RealMallocHeap\<close> forwards; what \<open>dlsym\<close> asks for is taken from the buffer without looking at its end.\<close>

lemma rm_inner_run: "bufptr (foldl (\<lambda>h n. snd (rm_inner n h)) h ns) = bufptr h + (\<Sum>n\<leftarrow>ns. align_double n)"
  by (induction ns arbitrary: h) (simp_all add: rm_inner_def Let_def)

lemma rm_malloc_forwards:
  assumes "\<not> initializing h"
  obtains h' where "rm_malloc ns H sz ((h, r), m) = map_option (\<lambda>(p, (r, m), rs). (p, ((h', r), m), rs)) (h_malloc H sz (r, m))"
    and "\<not> initializing h'" and "real_malloc h'" and "bufptr h' = bufptr h + (if real_malloc h then 0 else (\<Sum>n\<leftarrow>ns. align_double n))"
proof -
  let ?h = "if \<not> real_malloc h then (foldl (\<lambda>h n. snd (rm_inner n h)) (h\<lparr>initializing := True\<rparr>) ns)\<lparr>real_malloc := True, initializing := False\<rparr> else h"
  have "rm_malloc ns H sz ((h, r), m) = map_option (\<lambda>(p, (r, m), rs). (p, ((?h, r), m), rs)) (h_malloc H sz (r, m))"
    using assms by (cases "h_malloc H sz (r, m)") (auto simp: rm_malloc_def Let_def split: prod.splits)
  then show thesis by (rule that) (use assms in \<open>auto simp: rm_inner_run\<close>)
qed

text \<open>\<open>libdetfaults\<close> does not look at the size again: a request of the site below the amount becomes almost \<open>2 ^ 32\<close>.\<close>

lemma det_request_wraps:
  assumes "int sz < underflowAmount P" and "underflowAmount P \<le> 2 ^ 31" and "\<not> over_threshold_size 32 P sz"
  shows "det_request (fi_alloc_site f) P sz f = (nat (2 ^ 32 + int sz - underflowAmount P), f)"
proof -
  have "(int sz - underflowAmount P) mod 2 ^ 32 = (2 ^ 32 + int sz - underflowAmount P) mod 2 ^ 32"
    using mod_add_self1 [of "2 ^ 32" "int sz - underflowAmount P"] by (simp add: algebra_simps)
  also have "\<dots> = 2 ^ 32 + int sz - underflowAmount P" using assms(1,2) by (intro mod_pos_pos_trivial) simp_all
  finally show ?thesis using assms(3) by (simp add: det_request_def shortened_def)
qed

lemma compareFunction_sorted: "sorted_wrt (\<lambda>a b. compareFunction a b \<le> 0) (sort_key o_allocated es)"
  using sorted_sort_key [of o_allocated es] unfolding sorted_map
  by (rule sorted_wrt_mono_rel [rotated]) (simp add: compareFunction_def)

end
