(* ===== verification/BitString.thy ===== *)
theory BitString
  imports Prelude "HOL-Library.Monad_Syntax"
begin

text \<open>
  \<open>BitString\<close> (\<open>src/util/bitstring.h\<close>): a string of \<open>N\<close> bits, in which 1 means allocated, with the search for a run
  of free bits at an aligned position.  Words have 32 bits, the value of \<open>BITS_PER_ULONG\<close>.  A failed
  assertion, a division by zero and a search that does not end are \<open>None\<close>.
\<close>

section \<open>The bits\<close>

record bit_string =
  bs_N :: nat
  bs_B :: "u32 list"
  firstPos :: nat

definition NUM_ULONGS :: "nat \<Rightarrow> nat" where
  "NUM_ULONGS n = (n + 31) div 32"

definition bs_clear :: "nat \<Rightarrow> bit_string" where
  "bs_clear n = \<lparr>bs_N = n, bs_B = replicate (NUM_ULONGS n) (- 1), firstPos = 0\<rparr>"

definition bs_mask :: "nat \<Rightarrow> u32" where
  "bs_mask index = push_bit (index AND 31) 1"

definition bs_get :: "nat \<Rightarrow> bit_string \<Rightarrow> bool option" where
  "bs_get index b =
     (if index < bs_N b then Some (bs_B b ! drop_bit 5 index AND bs_mask index \<noteq> 0) else None)"

definition bs_set :: "nat \<Rightarrow> bit_string \<Rightarrow> bit_string option" where
  "bs_set index b =
     (if index < bs_N b
      then Some (b\<lparr>bs_B := (bs_B b)[drop_bit 5 index := bs_B b ! drop_bit 5 index OR bs_mask index],
                   firstPos := (if index < firstPos b then index else firstPos b)\<rparr>)
      else None)"

definition bs_reset :: "nat \<Rightarrow> bit_string \<Rightarrow> bit_string option" where
  "bs_reset index b =
     (if index < bs_N b
      then Some (b\<lparr>bs_B := (bs_B b)[drop_bit 5 index := bs_B b ! drop_bit 5 index AND NOT (bs_mask index)]\<rparr>)
      else None)"

section \<open>Runs\<close>

text \<open>Adding one until the position is a multiple of the alignment.\<close>

partial_function (option) align_up :: "nat \<Rightarrow> nat \<Rightarrow> nat option" where
  "align_up alignment bitPos =
     (if alignment = 0 then None else if bitPos mod alignment = 0 then Some bitPos else align_up alignment (bitPos + 1))"

text \<open>The offset of the first taken bit of a run, if it has one.\<close>

fun first_taken :: "nat \<Rightarrow> nat \<Rightarrow> nat \<Rightarrow> bit_string \<Rightarrow> nat option option" where
  "first_taken 0 j bitPos b = Some None"
| "first_taken (Suc n) j bitPos b = do {
     taken \<leftarrow> bs_get (bitPos + j) b;
     if taken then Some (Some j) else first_taken n (j + 1) bitPos b }"

fun set_all :: "nat \<Rightarrow> nat \<Rightarrow> bit_string \<Rightarrow> bit_string option" where
  "set_all 0 bitPos b = Some b"
| "set_all (Suc n) bitPos b = do { b \<leftarrow> bs_set bitPos b; set_all n (bitPos + 1) b }"

partial_function (option) bs_search :: "nat \<Rightarrow> nat \<Rightarrow> nat \<Rightarrow> bit_string \<Rightarrow> (int \<times> bit_string) option" where
  "bs_search len alignment bitPos b =
     (if bs_N b \<le> bitPos then Some (- 1, b)
      else if bs_B b ! drop_bit 5 bitPos = - 1
      then do { p \<leftarrow> align_up alignment (push_bit 5 (drop_bit 5 bitPos + 1)); bs_search len alignment p b }
      else do {
        taken \<leftarrow> bs_get bitPos b;
        if taken then bs_search len alignment (bitPos + alignment) b
        else do {
          blocked \<leftarrow> first_taken len 0 bitPos b;
          case blocked of
            None \<Rightarrow> do { b \<leftarrow> set_all len bitPos b; Some (int bitPos, b) }
          | Some j \<Rightarrow> do { p \<leftarrow> align_up alignment (bitPos + j); bs_search len alignment p b } } })"

definition bs_allocate :: "nat \<Rightarrow> nat \<Rightarrow> bit_string \<Rightarrow> (int \<times> bit_string) option" where
  "bs_allocate len alignment b = bs_search len alignment (firstPos b) b"

fun bs_free :: "nat \<Rightarrow> nat \<Rightarrow> bit_string \<Rightarrow> bit_string option" where
  "bs_free bitPos 0 b = Some b"
| "bs_free bitPos (Suc n) b = do { b \<leftarrow> bs_reset bitPos b; bs_free (bitPos + 1) n b }"

section \<open>First set bit\<close>

definition index32 :: "nat list" where
  "index32 = [0, 1, 28, 2, 29, 14, 24, 3, 30, 22, 20, 15, 25, 17, 4, 8, 31, 27, 13, 23, 21, 19, 16, 7, 26, 12, 18, 6, 11, 5, 10, 9]"

definition lsb :: "u32 \<Rightarrow> nat" where
  "lsb b = index32 ! unat (drop_bit 27 ((b AND - b) * 0x077CB531))"

fun first_from :: "u32 list \<Rightarrow> nat \<Rightarrow> nat \<Rightarrow> int" where
  "first_from [] i indmask = - 1"
| "first_from (w # ws) i indmask =
     (let bitval = w AND NOT (push_bit (indmask AND 31) 1 - 1)
      in if w \<noteq> 0 \<and> bitval \<noteq> 0 then int (i * 32 + lsb bitval)
         else first_from ws (i + 1) (if indmask < 32 then 0 else indmask - 32))"

definition firstAfter :: "nat \<Rightarrow> bit_string \<Rightarrow> int" where
  "firstAfter index b =
     first_from (drop (drop_bit 5 index) (bs_B b)) (drop_bit 5 index) (index - drop_bit 5 index * 32)"

section \<open>The set of taken bits\<close>

definition bs_bit :: "bit_string \<Rightarrow> nat \<Rightarrow> bool" where
  "bs_bit b i \<longleftrightarrow> bit (bs_B b ! (i div 32)) (i mod 32)"

definition bs_taken :: "bit_string \<Rightarrow> nat set" where
  "bs_taken b = {i. i < bs_N b \<and> bs_bit b i}"

text \<open>The unused bits of the last word stay set.\<close>

definition bs_inv :: "bit_string \<Rightarrow> bool" where
  "bs_inv b \<longleftrightarrow> length (bs_B b) = NUM_ULONGS (bs_N b) \<and> firstPos b = 0
     \<and> (\<forall>i. bs_N b \<le> i \<and> i < 32 * NUM_ULONGS (bs_N b) \<longrightarrow> bs_bit b i)"

lemma and_31: "(i::nat) AND 31 = i mod 32"
  using and_pred_pow2 [of i 5] by simp

lemma word_of_index: "drop_bit 5 (i::nat) = i div 32"
  by (simp add: drop_bit_nat_div)

lemma word_index: "i < n \<Longrightarrow> i div 32 < NUM_ULONGS n"
  unfolding NUM_ULONGS_def by (rule less_le_trans [of _ "i div 32 + 1"]) (simp_all add: div_le_mono flip: div_add_self2)

lemma test_mask: "w AND bs_mask i \<noteq> 0 \<longleftrightarrow> bit w (i mod 32)"
proof -
  have "w AND push_bit (i mod 32) 1 = (if bit w (i mod 32) then push_bit (i mod 32) 1 else 0)"
    by (rule bit_word_eqI) (auto simp: bit_simps)
  moreover have "push_bit (i mod 32) (1 :: u32) \<noteq> 0"
  proof
    assume "push_bit (i mod 32) (1 :: u32) = 0"
    then have "bit (push_bit (i mod 32) (1 :: u32)) (i mod 32) = bit (0 :: u32) (i mod 32)" by simp
    then show False by (simp add: bit_simps)
  qed
  ultimately show ?thesis by (simp add: bs_mask_def and_31)
qed

lemma bs_get_taken: "i < bs_N b \<Longrightarrow> bs_get i b = Some (i \<in> bs_taken b)"
  by (simp add: bs_get_def test_mask bs_taken_def bs_bit_def drop_bit_nat_div)

lemma bs_get_outside: "bs_N b \<le> i \<Longrightarrow> bs_get i b = None"
  by (simp add: bs_get_def)

lemma bs_bit_update:
  assumes "length (bs_B b) = NUM_ULONGS (bs_N b)" and "i < bs_N b" and "j < 32 * NUM_ULONGS (bs_N b)"
    and "\<And>n. n < 32 \<Longrightarrow> bit w n = (if n = i mod 32 then v else bit (bs_B b ! (i div 32)) n)"
  shows "bs_bit (b\<lparr>bs_B := (bs_B b)[drop_bit 5 i := w], firstPos := f\<rparr>) j = (if j = i then v else bs_bit b j)"
proof (cases "j div 32 = i div 32")
  case True
  then have "j mod 32 = i mod 32 \<longleftrightarrow> j = i" by (metis div_mult_mod_eq)
  with True assms(1,4) word_index [OF assms(2)] show ?thesis by (simp add: bs_bit_def drop_bit_nat_div)
next
  case False
  then show ?thesis by (auto simp: bs_bit_def drop_bit_nat_div)
qed

lemma bs_set_bits:
  assumes "bs_inv b" and "i < bs_N b"
  shows "\<exists>b'. bs_set i b = Some b' \<and> bs_inv b' \<and> bs_N b' = bs_N b \<and> bs_taken b' = insert i (bs_taken b)"
proof -
  let ?w = "bs_B b ! drop_bit 5 i OR bs_mask i"
  let ?b = "b\<lparr>bs_B := (bs_B b)[drop_bit 5 i := ?w], firstPos := 0\<rparr>"
  have l: "length (bs_B b) = NUM_ULONGS (bs_N b)" using assms(1) by (simp add: bs_inv_def)
  have bits: "bs_bit ?b j = (if j = i then True else bs_bit b j)" if "j < 32 * NUM_ULONGS (bs_N b)" for j
    by (rule bs_bit_update [OF l assms(2) that])
      (auto simp: bit_simps bs_mask_def and_31 drop_bit_nat_div)
  have "j < 32 * NUM_ULONGS (bs_N b)" if "j < bs_N b" for j using that by (simp add: NUM_ULONGS_def)
  then have "bs_taken ?b = insert i (bs_taken b)" using bits assms(2) by (auto simp: bs_taken_def)
  moreover have "bs_inv ?b" using assms bits l by (simp add: bs_inv_def)
  moreover have "bs_set i b = Some ?b" using assms by (simp add: bs_set_def bs_inv_def)
  ultimately show ?thesis by auto
qed

lemma bs_reset_bits:
  assumes "bs_inv b" and "i < bs_N b"
  shows "\<exists>b'. bs_reset i b = Some b' \<and> bs_inv b' \<and> bs_N b' = bs_N b \<and> bs_taken b' = bs_taken b - {i}"
proof -
  let ?w = "bs_B b ! drop_bit 5 i AND NOT (bs_mask i)"
  let ?b = "b\<lparr>bs_B := (bs_B b)[drop_bit 5 i := ?w], firstPos := 0\<rparr>"
  have l: "length (bs_B b) = NUM_ULONGS (bs_N b)" using assms(1) by (simp add: bs_inv_def)
  have bits: "bs_bit ?b j = (if j = i then False else bs_bit b j)" if "j < 32 * NUM_ULONGS (bs_N b)" for j
    by (rule bs_bit_update [OF l assms(2) that])
      (auto simp: bit_simps bs_mask_def and_31 drop_bit_nat_div)
  have "j < 32 * NUM_ULONGS (bs_N b)" if "j < bs_N b" for j using that by (simp add: NUM_ULONGS_def)
  then have "bs_taken ?b = bs_taken b - {i}" using bits assms(2) by (auto simp: bs_taken_def split: if_splits)
  moreover have "bs_inv ?b" using assms bits l by (simp add: bs_inv_def)
  moreover have "b\<lparr>bs_B := B, firstPos := 0\<rparr> = b\<lparr>bs_B := B\<rparr>" for B using assms(1) by (simp add: bs_inv_def)
  then have "bs_reset i b = Some ?b" using assms(2) by (simp add: bs_reset_def)
  ultimately show ?thesis by auto
qed

section \<open>Allocation takes the first run\<close>

lemma align_up_le:
  assumes "0 < a" and "a dvd q" and "p \<le> q"
  shows "\<exists>r. align_up a p = Some r \<and> p \<le> r \<and> r \<le> q \<and> a dvd r \<and> (\<forall>s. p \<le> s \<and> a dvd s \<longrightarrow> r \<le> s)"
  using assms(3)
proof (induction "q - p" arbitrary: p)
  case 0
  then show ?case using assms(1,2) by (subst align_up.simps) auto
next
  case (Suc n)
  show ?case
  proof (cases "a dvd p")
    case True
    then show ?thesis using assms(1) Suc.prems by (subst align_up.simps) auto
  next
    case False
    from Suc(2) have "n = q - (p + 1)" "p + 1 \<le> q" by simp_all
    from Suc(1) [OF this] obtain r where r: "align_up a (p + 1) = Some r" "p + 1 \<le> r" "r \<le> q" "a dvd r"
      "\<forall>s. p + 1 \<le> s \<and> a dvd s \<longrightarrow> r \<le> s" by blast
    have "align_up a p = Some r" using False assms(1) r(1) by (subst align_up.simps) (simp add: dvd_eq_mod_eq_0)
    moreover have "r \<le> s" if "p \<le> s" "a dvd s" for s
      using r(5) that False by (cases "p = s") auto
    ultimately show ?thesis using r(2-4) by auto
  qed
qed

lemma align_up_result:
  assumes "0 < a"
  obtains r where "align_up a p = Some r" "p \<le> r" "a dvd r" "\<And>s. p \<le> s \<Longrightarrow> a dvd s \<Longrightarrow> r \<le> s"
  using align_up_le [OF assms, of "a * p" p] assms that by force

text \<open>A run is open when its bits are free as far as the string goes.\<close>

definition run_open :: "nat \<Rightarrow> nat \<Rightarrow> bit_string \<Rightarrow> bool" where
  "run_open len p b \<longleftrightarrow> p < bs_N b \<and> (\<forall>i. p \<le> i \<and> i < p + len \<and> i < bs_N b \<longrightarrow> i \<notin> bs_taken b)"

lemma first_taken_result:
  "first_taken n j p b =
     (if \<exists>k < n. p + j + k \<in> bs_taken b \<and> p + j + k < bs_N b then
        let k = LEAST k. p + j + k \<in> bs_taken b in Some (Some (j + k))
      else if p + j + n \<le> bs_N b \<or> n = 0 then Some None else None)"
proof (induction n arbitrary: j)
  case (Suc n)
  consider (out) "bs_N b \<le> p + j" | (hit) "p + j < bs_N b" "p + j \<in> bs_taken b" | (free) "p + j < bs_N b" "p + j \<notin> bs_taken b"
    by linarith
  then show ?case
  proof cases
    case out
    then have "bs_get (p + j) b = None" by (rule bs_get_outside)
    then show ?thesis using out by simp
  next
    case hit
    then have "(LEAST k. p + j + k \<in> bs_taken b) = 0" by (intro Least_eq_0) simp
    moreover have "\<exists>k < Suc n. p + j + k \<in> bs_taken b \<and> p + j + k < bs_N b" using hit by (intro exI [of _ 0]) simp
    ultimately show ?thesis using hit bs_get_taken [OF hit(1)] by (simp add: Let_def del: not_ex)
  next
    case free
    have ex: "(\<exists>k < Suc n. p + j + k \<in> bs_taken b \<and> p + j + k < bs_N b) = (\<exists>k < n. p + (j + 1) + k \<in> bs_taken b \<and> p + (j + 1) + k < bs_N b)"
      using free(2) by (auto simp: less_Suc_eq_0_disj)
    have least: "(LEAST k. p + j + k \<in> bs_taken b) = Suc (LEAST k. p + (j + 1) + k \<in> bs_taken b)"
      if "\<exists>k. p + (j + 1) + k \<in> bs_taken b"
    proof -
      obtain k where "p + j + Suc k \<in> bs_taken b" using \<open>\<exists>k. _\<close> by auto
      then show ?thesis using Least_Suc [of "\<lambda>k. p + j + k \<in> bs_taken b" "Suc k"] free(2) by simp
    qed
    have step: "first_taken (Suc n) j p b = first_taken n (j + 1) p b" using bs_get_taken [OF free(1)] free(2) by simp
    show ?thesis
    proof (cases "\<exists>k < n. p + (j + 1) + k \<in> bs_taken b \<and> p + (j + 1) + k < bs_N b")
      case True
      then have "\<exists>k. p + (j + 1) + k \<in> bs_taken b" by blast
      note l = least [OF this]
      show ?thesis unfolding step Suc.IH [of "j + 1"] if_P [OF True] if_P [OF True [folded ex]] Let_def l by simp
    next
      case False
      show ?thesis unfolding step Suc.IH [of "j + 1"] if_not_P [OF False] if_not_P [OF False [folded ex]] using free(1) by auto
    qed
  qed
qed simp

lemma set_all_result:
  assumes "bs_inv b" and "p + n \<le> bs_N b"
  shows "\<exists>b'. set_all n p b = Some b' \<and> bs_inv b' \<and> bs_N b' = bs_N b \<and> bs_taken b' = bs_taken b \<union> {p..<p + n}"
  using assms
proof (induction n arbitrary: p b)
  case (Suc n)
  have "p < bs_N b" using Suc.prems(2) by simp
  from bs_set_bits [OF Suc.prems(1) this] obtain b1 where b1: "bs_set p b = Some b1" "bs_inv b1" "bs_N b1 = bs_N b"
    "bs_taken b1 = insert p (bs_taken b)" by blast
  from Suc.IH [OF b1(2), of "p + 1"] b1(3) Suc.prems(2) obtain b2 where
    b2: "set_all n (p + 1) b1 = Some b2" "bs_inv b2" "bs_N b2 = bs_N b" "bs_taken b2 = bs_taken b1 \<union> {p + 1..<p + 1 + n}" by auto
  have "bs_taken b2 = bs_taken b \<union> {p..<p + Suc n}" unfolding b2(4) b1(4) by auto
  with b1(1) b2(1-3) show ?case by simp
qed simp

lemma bs_free_result:
  assumes "bs_inv b" and "p + n \<le> bs_N b"
  shows "\<exists>b'. bs_free p n b = Some b' \<and> bs_inv b' \<and> bs_N b' = bs_N b \<and> bs_taken b' = bs_taken b - {p..<p + n}"
  using assms
proof (induction n arbitrary: p b)
  case (Suc n)
  have "p < bs_N b" using Suc.prems(2) by simp
  from bs_reset_bits [OF Suc.prems(1) this] obtain b1 where b1: "bs_reset p b = Some b1" "bs_inv b1" "bs_N b1 = bs_N b"
    "bs_taken b1 = bs_taken b - {p}" by blast
  from Suc.IH [OF b1(2), of "p + 1"] b1(3) Suc.prems(2) obtain b2 where
    b2: "bs_free (p + 1) n b1 = Some b2" "bs_inv b2" "bs_N b2 = bs_N b" "bs_taken b2 = bs_taken b1 - {p + 1..<p + 1 + n}" by auto
  have "bs_taken b2 = bs_taken b - {p..<p + Suc n}" unfolding b2(4) b1(4) by auto
  with b1(1) b2(1-3) show ?case by simp
qed simp

text \<open>What the search finds from an aligned position on, when no earlier run is open.\<close>

definition search_result :: "nat \<Rightarrow> nat \<Rightarrow> bit_string \<Rightarrow> (int \<times> bit_string) option \<Rightarrow> bool" where
  "search_result len a b r \<longleftrightarrow>
     (if \<exists>q. a dvd q \<and> run_open len q b then
        let q = LEAST q. a dvd q \<and> run_open len q b
        in if q + len \<le> bs_N b
           then \<exists>b'. r = Some (int q, b') \<and> bs_inv b' \<and> bs_N b' = bs_N b \<and> bs_taken b' = bs_taken b \<union> {q..<q + len}
           else r = None
      else r = Some (- 1, b))"

lemma search_stops_here:
  assumes "bs_inv b" and "a dvd p" and "run_open len p b" and "\<And>q. q < p \<Longrightarrow> a dvd q \<Longrightarrow> \<not> run_open len q b" and "0 < len"
  shows "search_result len a b (do { blocked \<leftarrow> first_taken len 0 p b;
    case blocked of None \<Rightarrow> do { b \<leftarrow> set_all len p b; Some (int p, b) } | Some j \<Rightarrow> f j })"
proof -
  have l: "(LEAST q. a dvd q \<and> run_open len q b) = p"
    using assms(2-4) by (intro Least_equality) (auto simp: not_less [symmetric])
  have no: "\<not> (\<exists>k < len. p + 0 + k \<in> bs_taken b \<and> p + 0 + k < bs_N b)" using assms(3) by (auto simp: run_open_def)
  then have ft: "first_taken len 0 p b = (if p + len \<le> bs_N b then Some None else None)"
    using assms(5) by (simp add: first_taken_result del: not_ex)
  show ?thesis
  proof (cases "p + len \<le> bs_N b")
    case True
    with set_all_result [OF assms(1) True] ft l assms(2,3) show ?thesis by (auto simp: search_result_def Let_def)
  next
    case False
    with ft l assms(2,3) show ?thesis by (auto simp: search_result_def Let_def)
  qed
qed

lemma search_from:
  assumes "bs_inv b" and "0 < a" and "0 < len" and "a dvd p" and "\<And>q. q < p \<Longrightarrow> a dvd q \<Longrightarrow> \<not> run_open len q b"
  shows "search_result len a b (bs_search len a p b)"
  using assms(4,5)
proof (induction "bs_N b - p" arbitrary: p rule: less_induct)
  case less
  note step = bs_search.simps [of len a p b]
  have next_pos: "search_result len a b (bs_search len a r b)"
    if nxt: "p < r" "p < bs_N b" "a dvd r" and none: "\<And>q. p \<le> q \<Longrightarrow> q < r \<Longrightarrow> a dvd q \<Longrightarrow> \<not> run_open len q b" for r
  proof (rule less.hyps)
    show "bs_N b - r < bs_N b - p" using nxt(1,2) by simp
    show "\<not> run_open len q b" if "q < r" "a dvd q" for q
      using less.prems(2) [of q] none [of q] that by (cases "q < p") simp_all
  qed (rule nxt(3))
  consider (over) "bs_N b \<le> p" | (full) "p < bs_N b" "bs_B b ! drop_bit 5 p = - 1"
    | (taken) "p < bs_N b" "bs_B b ! drop_bit 5 p \<noteq> - 1" "p \<in> bs_taken b"
    | (free) "p < bs_N b" "bs_B b ! drop_bit 5 p \<noteq> - 1" "p \<notin> bs_taken b" by linarith
  then show ?case
  proof cases
    case over
    then have "\<not> run_open len q b" if "a dvd q" for q using less.prems(2) [OF _ that] that by (cases "q < p") (auto simp: run_open_def)
    with over show ?thesis by (subst step) (auto simp: search_result_def)
  next
    case full
    let ?w = "p div 32"
    have next_word: "push_bit 5 (drop_bit 5 p + 1) = 32 * (?w + 1)" by (simp add: push_bit_nat_mult drop_bit_nat_div)
    obtain r where r: "align_up a (push_bit 5 (drop_bit 5 p + 1)) = Some r" "32 * (?w + 1) \<le> r" "a dvd r"
      "\<And>s. 32 * (?w + 1) \<le> s \<Longrightarrow> a dvd s \<Longrightarrow> r \<le> s"
      using align_up_result [OF assms(2), of "32 * (?w + 1)"] unfolding next_word by blast
    have no: "\<not> run_open len q b" if "p \<le> q" "q < r" "a dvd q" for q
    proof
      assume o: "run_open len q b"
      have "q < 32 * (?w + 1)" using r(4) [of q] that by linarith
      then have "q div 32 = ?w" using that(1) by (simp add: order_antisym div_le_mono less_mult_imp_div_less)
      then have "q \<in> bs_taken b" using o full(2) by (simp add: bs_taken_def bs_bit_def run_open_def drop_bit_nat_div)
      with o assms(3) show False by (auto simp: run_open_def)
    qed
    have "p < r" using r(2) dividend_less_div_times [of 32 p] by simp
    from next_pos [OF this full(1) r(3) no] show ?thesis using full r(1) by (subst step) simp
  next
    case taken
    have no: "\<not> run_open len q b" if "p \<le> q" "q < p + a" "a dvd q" for q
    proof -
      have "q = p"
      proof (rule ccontr)
        assume "q \<noteq> p"
        then have "a dvd q - p" "0 < q - p" "q - p < a" using that less.prems(1) by (auto intro: dvd_diff_nat)
        then show False using dvd_imp_le by fastforce
      qed
      with taken assms(3) show ?thesis by (auto simp: run_open_def)
    qed
    have "p < p + a" "a dvd p + a" using assms(2) less.prems(1) by simp_all
    from next_pos [OF this(1) taken(1) this(2) no] show ?thesis using taken bs_get_taken [OF taken(1)] by (subst step) simp
  next
    case free
    note g = bs_get_taken [OF free(1)]
    show ?thesis
    proof (cases "run_open len p b")
      case True
      from search_stops_here [OF assms(1) less.prems(1) True less.prems(2) assms(3)] show ?thesis
        using free g by (subst step) simp
    next
      case False
      let ?j = "LEAST k. p + 0 + k \<in> bs_taken b"
      have ex: "\<exists>k < len. p + 0 + k \<in> bs_taken b \<and> p + 0 + k < bs_N b"
        using False free(1) by (auto simp: run_open_def le_iff_add)
      then obtain k where k: "k < len" "p + 0 + k \<in> bs_taken b" by blast
      have j: "?j \<le> k" "p + ?j \<in> bs_taken b" using Least_le [of "\<lambda>k. p + 0 + k \<in> bs_taken b" k] LeastI [of "\<lambda>k. p + 0 + k \<in> bs_taken b" k] k(2) by simp_all
      have "?j \<noteq> 0" using j(2) free(3) by (metis add.right_neutral)
      obtain r where r: "align_up a (p + ?j) = Some r" "p + ?j \<le> r" "a dvd r" "\<And>s. p + ?j \<le> s \<Longrightarrow> a dvd s \<Longrightarrow> r \<le> s"
        using align_up_result [OF assms(2)] by blast
      have no: "\<not> run_open len q b" if "p \<le> q" "q < r" "a dvd q" for q
      proof -
        have "q < p + ?j" using r(4) [of q] that by linarith
        moreover have "p + ?j < q + len" "p + ?j < bs_N b" using j k(1) that(1) by (auto simp: bs_taken_def)
        ultimately have "q \<le> p + ?j \<and> p + ?j < q + len \<and> p + ?j < bs_N b \<and> p + ?j \<in> bs_taken b" using j(2) by simp
        then show ?thesis unfolding run_open_def by blast
      qed
      have ft: "first_taken len 0 p b = Some (Some ?j)" unfolding first_taken_result if_P [OF ex] Let_def by simp
      have "p < r" using r(2) \<open>?j \<noteq> 0\<close> by linarith
      from next_pos [OF this free(1) r(3) no] show ?thesis using free g ft r(1) by (subst step) simp
    qed
  qed
qed

section \<open>The first set bit\<close>

lemma and_minus: "(w :: u32) AND - w = push_bit k 1" if "bit w k" and "\<And>i. i < k \<Longrightarrow> \<not> bit w i"
proof -
  define c where "c = drop_bit k w"
  have le: "bit w n \<Longrightarrow> k \<le> n" for n using that(2) [of n] by (auto simp: not_less [symmetric])
  have w: "w = push_bit k c"
  proof (rule bit_word_eqI)
    fix n :: nat assume "n < LENGTH(32)"
    then show "bit w n = bit (push_bit k c) n" using le [of n] by (cases "k \<le> n") (auto simp: c_def bit_simps)
  qed
  have "odd c" using that(1) by (simp add: c_def even_drop_bit_iff_not_bit)
  then obtain d where d: "c = 1 + 2 * d" by (metis oddE add.commute)
  have "- c = NOT (2 * d)" by (simp add: d minus_eq_not_minus_1)
  then have c: "c AND - c = 1" by (intro bit_word_eqI) (auto simp: d bit_simps bit_1_iff even_bit_succ_iff)
  have "- w = push_bit k (- c)" by (simp add: w push_bit_minus)
  then have "w AND - w = push_bit k (c AND - c)" by (simp add: w push_bit_and)
  with c show ?thesis by simp
qed

lemma de_bruijn: "map (\<lambda>k. index32 ! unat (drop_bit 27 (push_bit k 1 * (0x077CB531 :: u32)))) [0..<32] = [0..<32]"
  by code_simp

lemma lsb_least:
  assumes "bit w k" and "\<And>i. i < k \<Longrightarrow> \<not> bit w i"
  shows "lsb w = k"
proof -
  have "k < 32" using assms(1) bit_imp_le_length [of w k] by simp
  then have "map (\<lambda>k. index32 ! unat (drop_bit 27 (push_bit k 1 * (0x077CB531 :: u32)))) [0..<32] ! k = k"
    unfolding de_bruijn by simp
  with \<open>k < 32\<close> show ?thesis by (simp add: lsb_def and_minus [OF assms])
qed

lemma low_bits_cleared:
  assumes "k < 32"
  shows "bit ((w :: u32) AND NOT (push_bit (k AND 31) 1 - 1)) n \<longleftrightarrow> k \<le> n \<and> bit w n"
proof -
  have "push_bit (k AND 31) (1 :: u32) - 1 = Bit_Operations.mask k"
    using assms by (simp add: and_31 mask_eq_exp_minus_1 push_bit_of_1)
  then show ?thesis by (auto simp: bit_simps dest: bit_imp_le_length)
qed

lemma block_less: "a < b \<Longrightarrow> n < 32 \<Longrightarrow> 32 * a + n < 32 * (b::nat)"
  by linarith

lemma first_from_result:
  assumes "k < 32" and "\<And>j. j < length ws \<Longrightarrow> \<forall>n < 32. bit (ws ! j) n = P (32 * (i + j) + n)"
    and "\<And>n. P n \<Longrightarrow> n < 32 * (i + length ws)"
  shows "first_from ws i k = (if \<exists>n \<ge> 32 * i + k. P n then int (LEAST n. 32 * i + k \<le> n \<and> P n) else - 1)"
  using assms
proof (induction ws arbitrary: i k)
  case Nil
  then have "\<not> (\<exists>n \<ge> 32 * i + k. P n)" by fastforce
  then show ?case by simp
next
  case (Cons w ws)
  have w: "bit w n = P (32 * i + n)" if "n < 32" for n using Cons.prems(2) [of 0] that by simp
  let ?v = "w AND NOT (push_bit (k AND 31) 1 - 1)"
  note v = low_bits_cleared [OF Cons.prems(1), of w]
  show ?case
  proof (cases "?v = 0")
    case True
    have no: "\<not> P n" if "32 * i + k \<le> n" "n < 32 * (i + 1)" for n
    proof -
      have "\<not> bit ?v (n - 32 * i)" unfolding True by simp
      then show ?thesis using v [of "n - 32 * i"] w [of "n - 32 * i"] that by simp
    qed
    have eq: "32 * i + k \<le> n \<and> P n \<longleftrightarrow> 32 * (i + 1) + 0 \<le> n \<and> P n" for n
      using no [of n] Cons.prems(1) by (auto simp: not_less [symmetric])
    have "first_from ws (i + 1) 0 = (if \<exists>n \<ge> 32 * (i + 1) + 0. P n then int (LEAST n. 32 * (i + 1) + 0 \<le> n \<and> P n) else - 1)"
    proof (rule Cons.IH)
      show "\<forall>n < 32. bit (ws ! j) n = P (32 * (i + 1 + j) + n)" if "j < length ws" for j
        using Cons.prems(2) [of "Suc j"] that by simp
      show "n < 32 * (i + 1 + length ws)" if "P n" for n using Cons.prems(3) [OF that] by simp
    qed simp
    then show ?thesis using True Cons.prems(1) by (simp only: first_from.simps Let_def eq simp_thms if_False if_True)
  next
    case False
    then obtain n where n: "bit ?v n" using bit_eqI [of ?v 0] by auto
    define l where "l = (LEAST n. bit ?v n)"
    have l: "bit ?v l" "\<And>j. j < l \<Longrightarrow> \<not> bit ?v j" using LeastI [of "bit ?v", OF n] not_less_Least by (auto simp: l_def)
    have lb: "l < 32" "k \<le> l" "P (32 * i + l)" using l(1) v [of l] w [of l] bit_imp_le_length [of w l] by auto
    have least: "(LEAST n. 32 * i + k \<le> n \<and> P n) = 32 * i + l"
    proof (rule Least_equality)
      fix m assume m: "32 * i + k \<le> m \<and> P m"
      show "32 * i + l \<le> m"
      proof (rule ccontr)
        assume "\<not> ?thesis"
        with m obtain d where d: "m = 32 * i + d" "k \<le> d" "d < l"
          by (metis add_le_cancel_left le_add1 le_trans nat_le_iff_add nat_add_left_cancel_less not_le)
        then have "bit ?v d" using v [of d] w [of d] m lb(1) by simp
        with l(2) [OF d(3)] show False by blast
      qed
    qed (use lb in simp)
    have "w \<noteq> 0" using n v by auto
    moreover have "\<exists>n \<ge> 32 * i + k. P n" using lb by (intro exI [of _ "32 * i + l"]) simp
    ultimately show ?thesis using False lsb_least [OF l] least by (simp add: Let_def)
  qed
qed

section \<open>Properties\<close>

text \<open>Allocation is first fit.  \<open>allocate\<close> finds the first aligned position from which \<open>length\<close> bits are free as far as the string
  goes.  When the run fits it is claimed and \<open>free\<close> gives exactly it back; when it reaches the end of the string first, an assertion
  fails (without assertions, bits behind the string are read), even if the request was meant to fail; and without such a position
  the answer is -1 and nothing changes.\<close>

theorem bitstring_first_fit:
  assumes "bs_inv b" and "0 < alignment" and "0 < len"
  shows "((\<exists>q. alignment dvd q \<and> run_open len q b) \<or> bs_allocate len alignment b = Some (- 1, b))
    \<and> (\<forall>q. alignment dvd q \<and> run_open len q b \<and> (\<forall>r < q. alignment dvd r \<longrightarrow> \<not> run_open len r b) \<longrightarrow>
        (if q + len \<le> bs_N b
         then \<exists>b' b''. bs_allocate len alignment b = Some (int q, b') \<and> bs_inv b' \<and> bs_taken b' = bs_taken b \<union> {q..<q + len}
           \<and> bs_free q len b' = Some b'' \<and> bs_inv b'' \<and> bs_taken b'' = bs_taken b
         else bs_allocate len alignment b = None))"
proof -
  have "bs_allocate len alignment b = bs_search len alignment 0 b" using assms(1) by (simp add: bs_allocate_def bs_inv_def)
  then have r: "search_result len alignment b (bs_allocate len alignment b)" using search_from [OF assms, of 0] by simp
  have "if q + len \<le> bs_N b
      then \<exists>b' b''. bs_allocate len alignment b = Some (int q, b') \<and> bs_inv b' \<and> bs_taken b' = bs_taken b \<union> {q..<q + len}
        \<and> bs_free q len b' = Some b'' \<and> bs_inv b'' \<and> bs_taken b'' = bs_taken b
      else bs_allocate len alignment b = None"
    if q: "alignment dvd q" "run_open len q b" "\<forall>r < q. alignment dvd r \<longrightarrow> \<not> run_open len r b" for q
  proof -
    have l: "(LEAST q. alignment dvd q \<and> run_open len q b) = q" using q by (intro Least_equality) (auto simp: not_less [symmetric])
    have ex: "\<exists>q. alignment dvd q \<and> run_open len q b" using q(1,2) by blast
    note r' = r [unfolded search_result_def if_P [OF ex] Let_def l]
    show ?thesis
    proof (cases "q + len \<le> bs_N b")
      case True
      then obtain b' where b': "bs_allocate len alignment b = Some (int q, b')" "bs_inv b'" "bs_N b' = bs_N b"
        "bs_taken b' = bs_taken b \<union> {q..<q + len}" using r' by auto
      have "bs_taken b \<inter> {q..<q + len} = {}" using q(2) by (auto simp: run_open_def bs_taken_def)
      then have "bs_taken b' - {q..<q + len} = bs_taken b" unfolding b'(4) by auto
      with bs_free_result [OF b'(2), of q len] True b' show ?thesis by auto
    next
      case False
      with r' show ?thesis by simp
    qed
  qed
  moreover have "(\<exists>q. alignment dvd q \<and> run_open len q b) \<or> bs_allocate len alignment b = Some (- 1, b)"
    using r by (auto simp: search_result_def split: if_splits)
  ultimately show ?thesis by blast
qed

definition demo_string :: bit_string where
  "demo_string = the (bs_free 33 4 (bs_clear 40))"

lemma bs_clear_inv: "bs_inv (bs_clear n)" and bs_clear_taken: "bs_taken (bs_clear n) = {..<n}"
proof -
  have m: "n \<le> 32 * NUM_ULONGS n" by (simp add: NUM_ULONGS_def)
  have b: "bs_bit (bs_clear n) i" if "i < 32 * NUM_ULONGS n" for i
    using that by (simp add: bs_bit_def bs_clear_def less_mult_imp_div_less mult.commute)
  show "bs_inv (bs_clear n)" using b by (simp add: bs_inv_def) (simp add: bs_clear_def)
  have "i \<in> bs_taken (bs_clear n) \<longleftrightarrow> i < n" for i
  proof
    show "i < n" if "i \<in> bs_taken (bs_clear n)" using that by (simp add: bs_taken_def bs_clear_def)
    show "i \<in> bs_taken (bs_clear n)" if "i < n"
      using b [OF less_le_trans [OF that m]] that by (simp add: bs_taken_def) (simp add: bs_clear_def)
  qed
  then show "bs_taken (bs_clear n) = {..<n}" by blast
qed

lemma demo_string: "bs_inv demo_string" "bs_N demo_string = 40" "bs_taken demo_string = {..<40} - {33..<37}"
proof -
  have n: "bs_N (bs_clear 40) = 40" by (simp add: bs_clear_def)
  obtain b where "bs_free 33 4 (bs_clear 40) = Some b" "bs_inv b" "bs_N b = bs_N (bs_clear 40)"
    "bs_taken b = bs_taken (bs_clear 40) - {33..<33 + 4}"
    using bs_free_result [OF bs_clear_inv, of 33 4 40] n by fastforce
  then show "bs_inv demo_string" "bs_N demo_string = 40" "bs_taken demo_string = {..<40} - {33..<37}"
    using bs_clear_taken [of 40] n by (simp_all add: demo_string_def)
qed

theorem bitstring_first_fit_witness: "\<exists>b'. bs_allocate 2 2 demo_string = Some (34, b') \<and> bs_taken b' = {..<40} - {33, 36}"
proof -
  have no: "\<not> run_open 2 r demo_string" if "r < 34" "2 dvd r" for r
  proof -
    have "r < 33" using that by (cases "r = 33") auto
    then have "r \<in> bs_taken demo_string" using demo_string by simp
    with \<open>r < 33\<close> show ?thesis by (auto simp: run_open_def)
  qed
  have "run_open 2 34 demo_string" by (auto simp: run_open_def demo_string)
  then have "2 dvd (34::nat) \<and> run_open 2 34 demo_string \<and> (\<forall>r < 34. 2 dvd r \<longrightarrow> \<not> run_open 2 r demo_string)" using no by simp
  moreover have "34 + 2 \<le> bs_N demo_string" by (simp add: demo_string(2))
  moreover note f = bitstring_first_fit [OF demo_string(1), of 2 2, simplified, THEN conjunct2, rule_format, of 34]
  ultimately obtain b' where b': "bs_allocate 2 2 demo_string = Some (34, b')" "bs_taken b' = bs_taken demo_string \<union> {34..<36}"
    by (simp add: demo_string(2)) metis
  have "bs_taken b' = {..<40} - {33, 36}" unfolding b'(2) demo_string(3) by auto
  with b'(1) show ?thesis by blast
qed

text \<open>\<open>firstAfter\<close> is the least set bit from the index on, found with the multiplication by a de Bruijn constant, or -1.
  It also sees the unused bits of the last word, which are always set: when no bit of the string is set and its length is
  not a multiple of 32, the answer is the length of the string instead of -1.\<close>

theorem bitstring_firstAfter:
  assumes "bs_inv b" and "index < bs_N b"
  shows "firstAfter index b =
      (if \<exists>i. index \<le> i \<and> i \<in> bs_taken b then int (LEAST i. index \<le> i \<and> i \<in> bs_taken b)
       else if bs_N b mod 32 = 0 then - 1 else int (bs_N b))"
proof -
  let ?m = "32 * NUM_ULONGS (bs_N b)"
  let ?P = "\<lambda>i. i < ?m \<and> bs_bit b i"
  let ?w = "index div 32"
  have len: "length (bs_B b) = NUM_ULONGS (bs_N b)" and tail: "?P i" if "bs_N b \<le> i" "i < ?m" for i
    using assms(1) that by (auto simp: bs_inv_def)
  have w: "?w < NUM_ULONGS (bs_N b)" by (rule word_index [OF assms(2)])
  have "first_from (drop ?w (bs_B b)) ?w (index mod 32) =
      (if \<exists>n \<ge> 32 * ?w + index mod 32. ?P n then int (LEAST n. 32 * ?w + index mod 32 \<le> n \<and> ?P n) else - 1)"
  proof (rule first_from_result)
    fix j assume j: "j < length (drop ?w (bs_B b))"
    show "\<forall>n < 32. bit (drop ?w (bs_B b) ! j) n = ?P (32 * (?w + j) + n)"
    proof (intro allI impI)
      fix n :: nat assume n: "n < 32"
      then have "(32 * (?w + j) + n) div 32 = ?w + j" "(32 * (?w + j) + n) mod 32 = n"
        using mod_mult_self4 [of 32 "?w + j" n] by simp_all
      moreover have "?w + j < NUM_ULONGS (bs_N b)" using j assms(1) by (simp add: bs_inv_def)
      then have "32 * (?w + j) + n < ?m" using n by (rule block_less)
      ultimately show "bit (drop ?w (bs_B b) ! j) n = ?P (32 * (?w + j) + n)"
        using j by (simp add: bs_bit_def del: div_mult_self1 div_mult_self2)
    qed
  qed (use assms(1) w in \<open>auto simp: bs_inv_def\<close>)
  then have f: "firstAfter index b = (if \<exists>n \<ge> index. ?P n then int (LEAST n. index \<le> n \<and> ?P n) else - 1)"
    unfolding firstAfter_def word_of_index minus_div_mult_eq_mod mult_div_mod_eq .
  have nm: "bs_N b \<le> ?m" "bs_N b mod 32 = 0 \<longleftrightarrow> bs_N b = ?m" by (auto simp: NUM_ULONGS_def) presburger+
  show ?thesis
  proof (cases "\<exists>i. index \<le> i \<and> i \<in> bs_taken b")
    case True
    define k where "k = (LEAST i. index \<le> i \<and> i \<in> bs_taken b)"
    have k: "index \<le> k" "k \<in> bs_taken b" using LeastI_ex [OF True] by (simp_all add: k_def)
    have "(LEAST n. index \<le> n \<and> ?P n) = k"
    proof (rule Least_equality)
      fix n assume n: "index \<le> n \<and> ?P n"
      show "k \<le> n"
      proof (cases "n < bs_N b")
        case True
        with n have "index \<le> n \<and> n \<in> bs_taken b" by (simp add: bs_taken_def)
        then show ?thesis unfolding k_def by (rule Least_le)
      next
        case False
        with k(2) show ?thesis by (simp add: bs_taken_def)
      qed
    qed (use k nm(1) in \<open>auto simp: bs_taken_def\<close>)
    moreover have "\<exists>n \<ge> index. ?P n" using k nm(1) by (intro exI [of _ k]) (auto simp: bs_taken_def)
    ultimately show ?thesis using True f k_def by simp
  next
    case False
    then have no: "\<not> ?P n" if "index \<le> n" "n < bs_N b" for n using that by (auto simp: bs_taken_def)
    show ?thesis
    proof (cases "bs_N b = ?m")
      case True
      then have "\<not> (\<exists>n \<ge> index. ?P n)" using no by auto
      with False f nm(2) True show ?thesis by simp
    next
      case ne: False
      then have p: "?P (bs_N b)" using tail [of "bs_N b"] nm(1) by simp
      then have "(LEAST n. index \<le> n \<and> ?P n) = bs_N b" using no assms(2) by (intro Least_equality) (auto simp: not_less [symmetric])
      with False f nm(2) ne p assms(2) show ?thesis by auto
    qed
  qed
qed

lemma demo_firstAfter: "(LEAST i::nat. 34 \<le> i \<and> i \<in> {..<40} - {33..<37}) = 37"
  by (rule Least_equality) (auto simp: not_less [symmetric])

theorem bitstring_firstAfter_witness: "firstAfter 34 demo_string = 37 \<and> bs_inv demo_string"
proof -
  have ex: "\<exists>i. 34 \<le> i \<and> i \<in> {..<40} - {33..<37::nat}" by (intro exI [of _ 37]) simp
  have "34 < bs_N demo_string" by (simp add: demo_string(2))
  from bitstring_firstAfter [OF demo_string(1) this] show ?thesis
    unfolding demo_string(3) if_P [OF ex] demo_firstAfter using demo_string(1) by simp
qed

end
