(* ===== verification/Kingsley.thy ===== *)
theory Kingsley
  imports Memory "HOL-Library.Monad_Syntax"
begin

text \<open>
  The segregated-fits heap that serves the containers of the fault injectors (\<open>src/util\<close>, \<open>SourceHeap\<close> in
  \<open>libbrokenmalloc.cpp\<close>): \<open>KingsleyHeap<FreelistHeap<TopHeap>, TopHeap>\<close> over
  \<open>TopHeap = SizeHeap<BumpAlloc<ChunkSize, MmapAlloc>>\<close> (\<open>kingsleyheap.h\<close>, \<open>segheap.h\<close>, \<open>freelistheap.h\<close>,
  \<open>sizeheap.h\<close>, \<open>src/exterminator/src/bumpalloc.h\<close>), with 64-bit words.  The size of an object is in the eight
  bytes before it, the link of a free object in its first eight bytes.  \<open>mm\<close> gives the address of a new mapping
  from those made so far (null when it fails).  \<open>None\<close> is an access outside an array or through a null pointer.
\<close>

section \<open>Size classes\<close>

definition NUMBINS :: nat where "NUMBINS = 29"

definition cl :: "nat list" where
  "cl = [0, 1, 2, 2, 3, 3, 3, 3, 4, 4, 4, 4, 4, 4, 4, 4]"

text \<open>The shift is one of \<open>int\<close>: for class 28 it is negative.\<close>

definition class2Size :: "nat \<Rightarrow> nat" where
  "class2Size i = unat (scast (push_bit (i + 3) 1 :: u32) :: u64)"

fun halve_class :: "nat \<Rightarrow> nat \<Rightarrow> nat" where
  "halve_class c sz1 = (if 7 < sz1 then halve_class (c + 1) (sz1 div 2) else c)"

declare halve_class.simps [simp del]

definition size2Class :: "nat \<Rightarrow> nat option" where
  "size2Class sz =
     (if sz < 128 then let i = sub64 sz 1 div 8 in if i < length cl then Some (cl ! i) else None
      else Some (halve_class 5 ((sz - 1) div 32)))"

definition maxObjectSize :: nat where
  "maxObjectSize = class2Size (NUMBINS - 1)"

section \<open>Memory from the system\<close>

type_synonym mappings = "(addr \<times> nat) list"
type_synonym mapper = "mappings \<Rightarrow> nat \<Rightarrow> addr"

record bump_heap =
  bh_bump :: addr
  bh_remaining :: nat

definition BumpAlloc :: bump_heap where
  "BumpAlloc = \<lparr>bh_bump = 0, bh_remaining = 0\<rparr>"

definition refill :: "nat \<Rightarrow> mapper \<Rightarrow> nat \<Rightarrow> mappings \<Rightarrow> bump_heap \<times> mappings" where
  "refill chunk mm sz os =
     (let sz = (if sz < chunk then chunk else sz); p = mm os sz
      in (\<lparr>bh_bump = p, bh_remaining = sz\<rparr>, os @ [(p, sz)]))"

definition bump_malloc :: "nat \<Rightarrow> mapper \<Rightarrow> nat \<Rightarrow> bump_heap \<times> mappings \<Rightarrow> addr \<times> bump_heap \<times> mappings" where
  "bump_malloc chunk mm sz s =
     (let (h, os) = (if bh_remaining (fst s) < sz then refill chunk mm sz (snd s) else s)
      in (bh_bump h, h\<lparr>bh_bump := bh_bump h + sz, bh_remaining := bh_remaining h - sz\<rparr>, os))"

definition size_malloc :: "nat \<Rightarrow> mapper \<Rightarrow> nat \<Rightarrow> bump_heap \<times> mappings \<times> mem \<Rightarrow> (addr \<times> bump_heap \<times> mappings \<times> mem) option" where
  "size_malloc chunk mm sz s =
     (let (h, os, m) = s; (p, h, os) = bump_malloc chunk mm ((sz + 8) mod 2 ^ 64) (h, os)
      in if p = 0 then None else Some (p + 8, h, os, write64 m p (word_of_nat sz)))"

definition size_getSize :: "addr \<Rightarrow> mem \<Rightarrow> nat option" where
  "size_getSize ptr m = (if ptr < 8 then None else Some (unat (read64 m (ptr - 8))))"

section \<open>Free lists\<close>

record freelist_heap =
  myFreeList :: addr
  fl_super :: bump_heap

definition fl_malloc :: "nat \<Rightarrow> mapper \<Rightarrow> nat \<Rightarrow> freelist_heap \<times> mappings \<times> mem \<Rightarrow> (addr \<times> freelist_heap \<times> mappings \<times> mem) option" where
  "fl_malloc chunk mm sz s =
     (let (h, os, m) = s; ptr = myFreeList h
      in if ptr = 0
         then do { (p, b, os, m) \<leftarrow> size_malloc chunk mm sz (fl_super h, os, m); Some (p, h\<lparr>fl_super := b\<rparr>, os, m) }
         else Some (ptr, h\<lparr>myFreeList := unat (read64 m ptr)\<rparr>, os, m))"

definition fl_free :: "addr \<Rightarrow> freelist_heap \<times> mem \<Rightarrow> freelist_heap \<times> mem" where
  "fl_free ptr s =
     (let (h, m) = s in if ptr = 0 then s else (h\<lparr>myFreeList := ptr\<rparr>, write64 m ptr (word_of_nat (myFreeList h))))"

section \<open>The Kingsley heap\<close>

record kingsley =
  myLittleHeap :: "freelist_heap list"
  bigheap :: bump_heap
  memoryHeld :: nat

definition KingsleyHeap :: kingsley where
  "KingsleyHeap = \<lparr>myLittleHeap = replicate NUMBINS \<lparr>myFreeList = 0, fl_super = BumpAlloc\<rparr>, bigheap = BumpAlloc, memoryHeld = 0\<rparr>"

type_synonym kstate = "kingsley \<times> mappings \<times> mem"

definition k_big_malloc :: "nat \<Rightarrow> mapper \<Rightarrow> nat \<Rightarrow> kstate \<Rightarrow> (addr \<times> kstate) option" where
  "k_big_malloc chunk mm sz s =
     (let (k, os, m) = s
      in do { (p, b, os, m) \<leftarrow> size_malloc chunk mm sz (bigheap k, os, m); Some (p, (k\<lparr>bigheap := b\<rparr>, os, m)) })"

definition k_malloc :: "nat \<Rightarrow> mapper \<Rightarrow> nat \<Rightarrow> kstate \<Rightarrow> (addr \<times> kstate) option" where
  "k_malloc chunk mm sz s =
     (if sz \<le> maxObjectSize then do {
        sizeClass \<leftarrow> size2Class sz;
        let (k, os, m) = s
        in if length (myLittleHeap k) \<le> sizeClass then None
           else do {
             (p, h, os, m) \<leftarrow> fl_malloc chunk mm sz (myLittleHeap k ! sizeClass, os, m);
             let s = (k\<lparr>myLittleHeap := (myLittleHeap k)[sizeClass := h]\<rparr>, os, m)
             in if p = 0 then k_big_malloc chunk mm sz s else Some (p, s) } }
      else k_big_malloc chunk mm sz s)"

text \<open>A class below 0 is an access outside the array of heaps.\<close>

fun lower_class :: "nat \<Rightarrow> nat \<Rightarrow> nat option" where
  "lower_class objectSize 0 = (if class2Size 0 > objectSize then None else Some 0)"
| "lower_class objectSize (Suc c) = (if class2Size (Suc c) > objectSize then lower_class objectSize c else Some (Suc c))"

definition k_free :: "addr \<Rightarrow> kstate \<Rightarrow> kstate option" where
  "k_free ptr s = (let (k, os, m) = s in do {
     objectSize \<leftarrow> size_getSize ptr m;
     if maxObjectSize < objectSize then Some s
     else do {
       c \<leftarrow> size2Class objectSize;
       objectSizeClass \<leftarrow> lower_class objectSize c;
       if length (myLittleHeap k) \<le> objectSizeClass then None
       else let (h, m) = fl_free ptr (myLittleHeap k ! objectSizeClass, m)
            in Some (k\<lparr>myLittleHeap := (myLittleHeap k)[objectSizeClass := h],
                       memoryHeld := (memoryHeld k + objectSize) mod 2 ^ 64\<rparr>, os, m) } })"

section \<open>Size class arithmetic\<close>

lemma class2Size_small:
  assumes "i < 28"
  shows "class2Size i = 8 * 2 ^ i"
proof -
  have "map (\<lambda>i. scast (push_bit (i + 3) 1 :: u32) :: u64) [0..<28] = map (\<lambda>i. push_bit (i + 3) 1) [0..<28]" by code_simp
  then have "\<forall>i \<in> set [0..<28]. scast (push_bit (i + 3) 1 :: u32) = (push_bit (i + 3) 1 :: u64)" by (simp only: map_eq_conv)
  then have "class2Size i = unat (push_bit (i + 3) 1 :: u64)" using assms by (simp add: class2Size_def)
  also have "\<dots> = 2 ^ (i + 3) mod 2 ^ 64" by (simp only: unsigned_push_bit_eq push_bit_nat_mult take_bit_eq_mod unsigned_1) simp
  also have "\<dots> = 2 ^ (i + 3)" using assms power_strict_increasing [of "i + 3" 64 "2::nat"] by (intro mod_less) simp
  finally show ?thesis by (simp add: power_add)
qed

lemma class2Size_28: "class2Size 28 = 2 ^ 64 - 2 ^ 31"
proof -
  have "(scast (push_bit (28 + 3) 1 :: u32) :: u64) = 0xFFFFFFFF80000000" by code_simp
  then show ?thesis by (simp add: class2Size_def)
qed

lemma maxObjectSize: "maxObjectSize = 2 ^ 64 - 2 ^ 31"
  by (simp add: maxObjectSize_def NUMBINS_def class2Size_28)

text \<open>The class is the number of halvings until at most 7 is left.\<close>

lemma halve_class_bounds:
  assumes "4 \<le> n"
  shows "\<exists>d. halve_class c n = c + d \<and> 4 * 2 ^ d \<le> n \<and> n < 8 * 2 ^ d"
  using assms
proof (induction n arbitrary: c rule: less_induct)
  case (less n)
  show ?case
  proof (cases "7 < n")
    case True
    then have half: "n div 2 < n" "4 \<le> n div 2" by linarith+
    obtain d where d: "halve_class (c + 1) (n div 2) = c + 1 + d" "4 * 2 ^ d \<le> n div 2" "n div 2 < 8 * 2 ^ d"
      using less.IH [of "n div 2" "c + 1"] half by blast
    have "halve_class c n = c + Suc d" using True d(1) by (subst halve_class.simps) simp
    have "4 * 2 ^ Suc d \<le> n" "n < 8 * 2 ^ Suc d" using d(2,3) by simp_all
    then show ?thesis using \<open>halve_class c n = c + Suc d\<close> by blast
  next
    case False
    with less.prems show ?thesis by (intro exI [of _ 0]) (subst halve_class.simps, simp)
  qed
qed

text \<open>The class of a size is the smallest that fits, except for 128 bytes.\<close>

lemma size2Class_small: "0 < sz \<Longrightarrow> sz < 128 \<Longrightarrow> \<exists>c \<le> 4. size2Class sz = Some c \<and> sz \<le> 8 * 2 ^ c \<and> (c = 0 \<or> 4 * 2 ^ c < sz)"
proof -
  assume sz: "0 < sz" "sz < 128"
  have s: "sub64 sz 1 = sz - 1" using sz by (intro sub64_le) simp_all
  define i where "i = (sz - 1) div 8"
  have i: "i < 16" "8 * i < sz" "sz \<le> 8 * i + 8" using sz by (auto simp: i_def)
  have "\<forall>i \<in> set [0..<16]. cl ! i \<le> 4 \<and> 8 * i + 8 \<le> 8 * 2 ^ (cl ! i) \<and> (cl ! i = 0 \<or> 4 * 2 ^ (cl ! i) \<le> 8 * i)"
    by (simp add: cl_def upt_rec)
  then have c: "cl ! i \<le> 4 \<and> 8 * i + 8 \<le> 8 * 2 ^ (cl ! i) \<and> (cl ! i = 0 \<or> 4 * 2 ^ (cl ! i) \<le> 8 * i)" using i(1) by simp
  have "size2Class sz = Some (cl ! i)" using sz s i(1) by (simp add: size2Class_def i_def cl_def Let_def)
  with c i(2,3) show ?thesis by (intro exI [of _ "cl ! i"]) linarith
qed

lemma size2Class_large: "128 < sz \<Longrightarrow> \<exists>c \<ge> 5. size2Class sz = Some c \<and> sz \<le> 8 * 2 ^ c \<and> 4 * 2 ^ c < sz"
proof -
  assume sz: "128 < sz"
  then have "4 \<le> (sz - 1) div 32" by linarith
  then obtain d where d: "halve_class 5 ((sz - 1) div 32) = 5 + d" "4 * 2 ^ d \<le> (sz - 1) div 32" "(sz - 1) div 32 < 8 * 2 ^ d"
    using halve_class_bounds by blast
  define e where "e = (2::nat) ^ d"
  have "sz \<le> 256 * e" "128 * e < sz" using d(2,3) [folded e_def] sz by linarith+
  then have "sz \<le> 8 * 2 ^ (5 + d)" "4 * 2 ^ (5 + d) < sz" by (simp_all add: power_add e_def)
  with d(1) sz show ?thesis by (intro exI [of _ "5 + d"]) (simp add: size2Class_def)
qed

lemma size2Class_128: "size2Class 128 = Some 5"
  by (simp add: size2Class_def halve_class.simps)

lemma size2Class_fits:
  assumes "0 < sz" and "sz \<le> 2 ^ 31"
  shows "\<exists>c < 29. size2Class sz = Some c \<and> sz \<le> 8 * 2 ^ c"
proof -
  consider "sz < 128" | "sz = 128" | "128 < sz" by linarith
  then show ?thesis
  proof cases
    case 3
    then obtain c where c: "size2Class sz = Some c" "sz \<le> 8 * 2 ^ c" "4 * 2 ^ c < sz" using size2Class_large by blast
    then have "(2::nat) ^ (c + 2) < 2 ^ 31" using assms(2) by (simp add: power_add)
    then have "c < 29" using power_less_imp_less_exp [of "2::nat" "c + 2" 31] by simp
    with c show ?thesis by blast
  qed (use assms size2Class_128 size2Class_small [of sz] in force)+
qed

section \<open>The invariant\<close>

text \<open>\<open>Obj\<close> maps every object ever cut from a chunk to its size, \<open>free c\<close> is the free list of class \<open>c\<close>.  Every object with its
  header, and what is left of every chunk, is a region of its own inside the mappings.\<close>

datatype owner = Object addr | Spare nat

definition heaps :: "kingsley \<Rightarrow> bump_heap list" where
  "heaps k = map fl_super (myLittleHeap k) @ [bigheap k]"

fun region :: "(addr \<Rightarrow> nat option) \<Rightarrow> bump_heap list \<Rightarrow> owner \<Rightarrow> addr set" where
  "region obj hs (Object p) = (case obj p of None \<Rightarrow> {} | Some n \<Rightarrow> {p - 8..<p + n})"
| "region obj hs (Spare i) = (if i < length hs then {bh_bump (hs ! i)..<bh_bump (hs ! i) + bh_remaining (hs ! i)} else {})"

definition mapped :: "mappings \<Rightarrow> addr set" where
  "mapped os = (\<Union>(p, n) \<in> set os. {p..<p + n})"

definition regions_ok :: "(addr \<Rightarrow> nat option) \<Rightarrow> bump_heap list \<Rightarrow> mappings \<Rightarrow> bool" where
  "regions_ok obj hs os \<longleftrightarrow> (\<forall>r s. r \<noteq> s \<longrightarrow> region obj hs r \<inter> region obj hs s = {}) \<and> (\<forall>r. region obj hs r \<subseteq> mapped os)
     \<and> mapped os \<subseteq> {0<..<2 ^ 64}"

fun chain :: "mem \<Rightarrow> addr \<Rightarrow> addr list \<Rightarrow> bool" where
  "chain m a [] \<longleftrightarrow> a = 0"
| "chain m a (x # xs) \<longleftrightarrow> a = x \<and> x \<noteq> 0 \<and> chain m (unat (read64 m x)) xs"

definition headers_ok :: "(addr \<Rightarrow> nat option) \<Rightarrow> mem \<Rightarrow> bool" where
  "headers_ok obj m \<longleftrightarrow> (\<forall>p n. obj p = Some n \<longrightarrow> 8 < p \<and> n \<le> 2 ^ 31 \<and> unat (read64 m (p - 8)) = n)"

definition lists_ok :: "(addr \<Rightarrow> nat option) \<Rightarrow> (nat \<Rightarrow> addr list) \<Rightarrow> freelist_heap list \<Rightarrow> mem \<Rightarrow> bool" where
  "lists_ok obj free fs m \<longleftrightarrow>
     (\<forall>c < 29. chain m (myFreeList (fs ! c)) (free c) \<and> distinct (free c)
        \<and> (\<forall>x \<in> set (free c). \<exists>n. obj x = Some n \<and> 8 * 2 ^ c \<le> n)
        \<and> (\<forall>d < 29. c \<noteq> d \<longrightarrow> set (free c) \<inter> set (free d) = {}))"

fun k_inv :: "(addr \<Rightarrow> nat option) \<Rightarrow> (nat \<Rightarrow> addr list) \<Rightarrow> kstate \<Rightarrow> bool" where
  "k_inv obj free (k, os, m) \<longleftrightarrow> length (myLittleHeap k) = 29 \<and> regions_ok obj (heaps k) os \<and> headers_ok obj m
     \<and> lists_ok obj free (myLittleHeap k) m"

definition live :: "(addr \<Rightarrow> nat option) \<Rightarrow> (nat \<Rightarrow> addr list) \<Rightarrow> addr set" where
  "live obj free = {p. obj p \<noteq> None \<and> (\<forall>c < 29. p \<notin> set (free c))}"

text \<open>The system finds room for the next mapping, apart from the others.\<close>

definition mapping_ok :: "mapper \<Rightarrow> nat \<Rightarrow> nat \<Rightarrow> mappings \<Rightarrow> bool" where
  "mapping_ok mm chunk sz os \<longleftrightarrow>
     (let n = (if sz < chunk then chunk else sz)
      in {mm os n..<mm os n + n} \<inter> mapped os = {} \<and> 0 < mm os n \<and> mm os n + n \<le> 2 ^ 64)"

section \<open>Cutting an object from a chunk\<close>

lemma bump_malloc_result:
  assumes "mapping_ok mm chunk sz os" and "0 < sz" and "bump_malloc chunk mm sz (h, os) = (b, h', os')"
    and "{bh_bump h..<bh_bump h + bh_remaining h} \<subseteq> mapped os" and "mapped os \<subseteq> {0<..<2 ^ 64}"
  shows "mapped os \<subseteq> mapped os' \<and> mapped os' \<subseteq> {0<..<2 ^ 64} \<and> {b..<b + sz} \<subseteq> mapped os' \<and> bh_bump h' = b + sz
    \<and> {b..<b + sz} \<union> {bh_bump h'..<bh_bump h' + bh_remaining h'} \<subseteq> mapped os'
    \<and> ({b..<b + sz} \<union> {bh_bump h'..<bh_bump h' + bh_remaining h'}) \<inter> (mapped os - {bh_bump h..<bh_bump h + bh_remaining h}) = {}"
proof (cases "bh_remaining h < sz")
  case True
  define n where "n = (if sz < chunk then chunk else sz)"
  define p where "p = mm os n"
  have n: "0 < n" "sz \<le> n" using assms(2) by (auto simp: n_def)
  have p: "{p..<p + n} \<inter> mapped os = {}" "0 < p" "p + n \<le> 2 ^ 64"
    using assms(1) by (simp_all add: mapping_ok_def p_def n_def Let_def)
  have r: "b = p" "h' = \<lparr>bh_bump = p + sz, bh_remaining = n - sz\<rparr>" "os' = os @ [(p, n)]"
    using assms(3) True by (auto simp: bump_malloc_def refill_def Let_def n_def p_def)
  have m: "mapped os' = mapped os \<union> {p..<p + n}" by (auto simp: mapped_def r(3))
  have u: "{b..<b + sz} \<union> {bh_bump h'..<bh_bump h' + bh_remaining h'} \<subseteq> {p..<p + n}" using n by (auto simp: r)
  have "{p..<p + n} \<subseteq> {0<..<2 ^ 64}" using p(2,3) by auto
  then have "mapped os' \<subseteq> {0<..<2 ^ 64}" unfolding m using assms(5) by blast
  moreover have "bh_bump h' = b + sz" by (simp add: r)
  ultimately show ?thesis using m u p(1) by blast
next
  case False
  have r: "b = bh_bump h" "h' = \<lparr>bh_bump = bh_bump h + sz, bh_remaining = bh_remaining h - sz\<rparr>" "os' = os"
    using assms(3) False by (auto simp: bump_malloc_def)
  have u: "{b..<b + sz} \<union> {bh_bump h'..<bh_bump h' + bh_remaining h'} \<subseteq> {bh_bump h..<bh_bump h + bh_remaining h}"
    using False by (auto simp: r)
  have "bh_bump h' = b + sz" by (simp add: r)
  then show ?thesis using u assms(4,5) r(3) by blast
qed

lemma region_carve:
  assumes "regions_ok obj hs os" and "i < length hs" and "mapping_ok mm chunk (n + 8) os"
    and "bump_malloc chunk mm (n + 8) (hs ! i, os) = (b, h', os')"
  shows "regions_ok (obj(b + 8 \<mapsto> n)) (hs[i := h']) os' \<and> obj (b + 8) = None \<and> 0 < b \<and> b + 8 + n < 2 ^ 64 + 1 \<and> {b..<b + 8 + n} \<inter> (\<Union>p. region obj hs (Object p)) = {}"
proof -
  let ?new = "{b..<b + (n + 8)} \<union> {bh_bump h'..<bh_bump h' + bh_remaining h'}"
  have "\<forall>r. region obj hs r \<subseteq> mapped os" and m0: "mapped os \<subseteq> {0<..<2 ^ 64}" using assms(1) by (simp_all add: regions_ok_def)
  then have sp: "region obj hs (Spare i) \<subseteq> mapped os" by blast
  have sp': "{bh_bump (hs ! i)..<bh_bump (hs ! i) + bh_remaining (hs ! i)} = region obj hs (Spare i)" using assms(2) by simp
  note B = bump_malloc_result [OF assms(3) _ assms(4) sp [folded sp'] m0, simplified sp']
  then have new: "mapped os \<subseteq> mapped os'" "mapped os' \<subseteq> {0<..<2 ^ 64}" "?new \<subseteq> mapped os'" "bh_bump h' = b + (n + 8)"
    "?new \<inter> (mapped os - region obj hs (Spare i)) = {}" by auto
  have other: "region obj hs r \<inter> ?new = {}" if "r \<noteq> Spare i" for r
  proof -
    have "region obj hs r \<subseteq> mapped os" "region obj hs r \<inter> region obj hs (Spare i) = {}"
      using assms(1) that unfolding regions_ok_def by blast+
    then have "region obj hs r \<subseteq> mapped os - region obj hs (Spare i)" by blast
    with new(5) show ?thesis by blast
  qed
  have b: "b \<in> {b..<b + (n + 8)}" by simp
  have none: "obj (b + 8) = None"
  proof (rule ccontr)
    assume "obj (b + 8) \<noteq> None"
    then have "b \<in> region obj hs (Object (b + 8))" by auto
    with other [of "Object (b + 8)"] b show False by blast
  qed
  let ?obj = "obj(b + 8 \<mapsto> n)" and ?hs = "hs[i := h']"
  have R: "region ?obj ?hs r = (if r = Object (b + 8) then {b..<b + (n + 8)} else if r = Spare i then {bh_bump h'..<bh_bump h' + bh_remaining h'}
      else region obj hs r)" for r
    using assms(2) by (cases r) (auto simp: add.commute)
  have "regions_ok ?obj ?hs os'" unfolding regions_ok_def
  proof (intro conjI allI impI)
    fix r s :: owner assume ne: "r \<noteq> s"
    consider "r \<in> {Object (b + 8), Spare i}" "s \<in> {Object (b + 8), Spare i}" | "r \<notin> {Object (b + 8), Spare i}" "s \<in> {Object (b + 8), Spare i}"
      | "r \<in> {Object (b + 8), Spare i}" "s \<notin> {Object (b + 8), Spare i}" | "r \<notin> {Object (b + 8), Spare i}" "s \<notin> {Object (b + 8), Spare i}" by blast
    then show "region ?obj ?hs r \<inter> region ?obj ?hs s = {}"
    proof cases
      case 1
      with ne new(4) show ?thesis unfolding R by auto
    next
      case 2
      with other [of r] show ?thesis unfolding R by auto
    next
      case 3
      with other [of s] show ?thesis unfolding R by auto
    next
      case 4
      with assms(1) ne show ?thesis unfolding R by (auto simp: regions_ok_def)
    qed
  next
    fix r
    have "region obj hs r \<subseteq> mapped os'" using assms(1) new(1) unfolding regions_ok_def by blast
    with new(3) show "region ?obj ?hs r \<subseteq> mapped os'" unfolding R by auto
  qed (rule new(2))
  moreover have "{b..<b + 8 + n} \<inter> (\<Union>p. region obj hs (Object p)) = {}"
  proof -
    have e: "b + 8 + n = b + (n + 8)" by simp
    have "region obj hs (Object p) \<inter> ?new = {}" for p by (rule other) simp
    then show ?thesis unfolding e by blast
  qed
  moreover have "b \<in> mapped os'" "b + 7 + n \<in> mapped os'" using new(3) by auto
  then have "0 < b" "b + 8 + n < 2 ^ 64 + 1" using new(2) by auto
  ultimately show ?thesis using none by blast
qed

section \<open>Memory of the objects\<close>

text \<open>Two memories agree on an object and its header.\<close>

definition same_object :: "mem \<Rightarrow> mem \<Rightarrow> addr \<Rightarrow> nat \<Rightarrow> bool" where
  "same_object m m' p n \<longleftrightarrow> (\<forall>x. p - 8 \<le> x \<and> x < p + n \<longrightarrow> m x = m' x)"

lemma same_object_header: "same_object m m' p n \<Longrightarrow> 8 < p \<Longrightarrow> read64 m (p - 8) = read64 m' (p - 8)"
  by (rule read64_cong) (auto simp: same_object_def)

lemma same_object_link: "same_object m m' p n \<Longrightarrow> 8 \<le> n \<Longrightarrow> read64 m p = read64 m' p"
  by (rule read64_cong) (auto simp: same_object_def)

lemma chain_cong:
  "(\<And>x. x \<in> set xs \<Longrightarrow> read64 m x = read64 m' x) \<Longrightarrow> chain m a xs \<longleftrightarrow> chain m' a xs"
  by (induction xs arbitrary: a) auto

lemma lists_disjoint: "lists_ok obj free fs m \<Longrightarrow> c < 29 \<Longrightarrow> d < 29 \<Longrightarrow> c \<noteq> d \<Longrightarrow> set (free c) \<inter> set (free d) = {}"
  unfolding lists_ok_def by blast

lemma list_size: "lists_ok obj free fs m \<Longrightarrow> c < 29 \<Longrightarrow> x \<in> set (free c) \<Longrightarrow> obj x = Some n \<Longrightarrow> 8 \<le> n"
proof -
  assume a: "lists_ok obj free fs m" "c < 29" "x \<in> set (free c)" "obj x = Some n"
  then have "8 * 2 ^ c \<le> n" by (fastforce simp: lists_ok_def)
  moreover have "(1::nat) \<le> 2 ^ c" by simp
  ultimately show ?thesis by linarith
qed

lemma object_kept:
  assumes "regions_ok obj hs os" and "obj p = Some n" and "writes \<inter> {p - 8..<p + n} = {}" and "\<And>x. x \<notin> writes \<Longrightarrow> m x = m' x"
  shows "same_object m m' p n"
  unfolding same_object_def
proof (intro allI impI)
  fix x assume "p - 8 \<le> x \<and> x < p + n"
  then have "x \<notin> writes" using assms(3) by (auto simp: disjoint_iff)
  then show "m x = m' x" by (rule assms(4))
qed

lemma objects_apart:
  assumes "regions_ok obj hs os" and "obj p = Some n" and "obj q = Some k" and "p \<noteq> q"
  shows "{p - 8..<p + n} \<inter> {q - 8..<q + k} = {}"
proof -
  have "region obj hs (Object p) \<inter> region obj hs (Object q) = {}" using assms(1,4) unfolding regions_ok_def by blast
  with assms(2,3) show ?thesis by simp
qed

section \<open>Allocation\<close>

lemma heaps_update: "c < length (myLittleHeap k) \<Longrightarrow>
    heaps (k\<lparr>myLittleHeap := (myLittleHeap k)[c := h]\<rparr>) = (heaps k)[c := fl_super h]"
  by (simp add: heaps_def list_update_append map_update)

lemma heaps_nth: "c < length (myLittleHeap k) \<Longrightarrow> heaps k ! c = fl_super (myLittleHeap k ! c)"
  by (simp add: heaps_def nth_append)

lemma pop_inv:
  assumes "k_inv obj free (k, os, m)" and "c < 29" and "free c = x # xs"
  shows "k_inv obj (free(c := xs)) (k\<lparr>myLittleHeap := (myLittleHeap k)[c := (myLittleHeap k ! c)\<lparr>myFreeList := unat (read64 m x)\<rparr>]\<rparr>, os, m)"
    and "live obj (free(c := xs)) = insert x (live obj free)" and "x \<notin> live obj free" and "myFreeList (myLittleHeap k ! c) = x" and "x \<noteq> 0"
    and "\<exists>n. obj x = Some n \<and> 8 * 2 ^ c \<le> n"
proof -
  let ?h = "(myLittleHeap k ! c)\<lparr>myFreeList := unat (read64 m x)\<rparr>"
  have I: "length (myLittleHeap k) = 29" "lists_ok obj free (myLittleHeap k) m" "headers_ok obj m" "regions_ok obj (heaps k) os"
    using assms(1) by simp_all
  have L: "chain m (myFreeList (myLittleHeap k ! c)) (free c)" "distinct (free c)" "\<And>d. d < 29 \<Longrightarrow> c \<noteq> d \<Longrightarrow> set (free c) \<inter> set (free d) = {}"
    "\<forall>x \<in> set (free c). \<exists>n. obj x = Some n \<and> 8 * 2 ^ c \<le> n"
    using I(2) assms(2) by (simp_all add: lists_ok_def)
  show "myFreeList (myLittleHeap k ! c) = x" "x \<noteq> 0" using L(1) assms(3) by simp_all
  show o: "\<exists>n. obj x = Some n \<and> 8 * 2 ^ c \<le> n" using L(4) assms(3) by simp
  have "lists_ok obj (free(c := xs)) ((myLittleHeap k)[c := ?h]) m" unfolding lists_ok_def
  proof (intro allI impI)
    fix d :: nat assume d: "d < 29"
    have "chain m (myFreeList ((myLittleHeap k)[c := ?h] ! d)) ((free(c := xs)) d) \<and> distinct ((free(c := xs)) d)
      \<and> (\<forall>x \<in> set ((free(c := xs)) d). \<exists>n. obj x = Some n \<and> 8 * 2 ^ d \<le> n)"
    proof (cases "d = c")
      case True
      then show ?thesis using L(1,2,4) assms(2,3) I(1) by simp
    next
      case False
      then show ?thesis using I(1,2) d by (simp add: lists_ok_def)
    qed
    moreover have "set ((free(c := xs)) d) \<inter> set ((free(c := xs)) e) = {}" if "e < 29" "d \<noteq> e" for e
    proof -
      have "set (free d) \<inter> set (free e) = {}" using I(2) d that by (simp add: lists_ok_def)
      moreover have "set ((free(c := xs)) d) \<subseteq> set (free d)" "set ((free(c := xs)) e) \<subseteq> set (free e)" using assms(3) by auto
      ultimately show ?thesis by blast
    qed
    ultimately show "chain m (myFreeList ((myLittleHeap k)[c := ?h] ! d)) ((free(c := xs)) d) \<and> distinct ((free(c := xs)) d)
      \<and> (\<forall>x \<in> set ((free(c := xs)) d). \<exists>n. obj x = Some n \<and> 8 * 2 ^ d \<le> n)
      \<and> (\<forall>e < 29. d \<noteq> e \<longrightarrow> set ((free(c := xs)) d) \<inter> set ((free(c := xs)) e) = {})" by blast
  qed
  moreover have "heaps (k\<lparr>myLittleHeap := (myLittleHeap k)[c := ?h]\<rparr>) = heaps k"
    using assms(2) I(1) by (simp add: heaps_update heaps_nth [symmetric])
  ultimately show "k_inv obj (free(c := xs)) (k\<lparr>myLittleHeap := (myLittleHeap k)[c := ?h]\<rparr>, os, m)" using I by simp
  show "x \<notin> live obj free" using assms(2,3) by (auto simp: live_def)
  have "y \<in> live obj (free(c := xs)) \<longleftrightarrow> y = x \<or> y \<in> live obj free" for y
  proof (cases "y = x")
    case True
    have "x \<notin> set xs" using L(2) assms(3) by simp
    moreover have "x \<notin> set (free d)" if "d < 29" "d \<noteq> c" for d using L(3) [OF that(1)] that(2) assms(3) by fastforce
    ultimately show ?thesis using True o by (auto simp: live_def)
  next
    case False
    then have "y \<in> set ((free(c := xs)) d) \<longleftrightarrow> y \<in> set (free d)" for d using assms(3) by simp
    then show ?thesis using False by (simp add: live_def)
  qed
  then show "live obj (free(c := xs)) = insert x (live obj free)" by blast
qed

lemma headers_cong:
  assumes "headers_ok obj m" and "\<And>p n. obj p = Some n \<Longrightarrow> same_object m m' p n"
  shows "headers_ok obj m'"
  using assms same_object_header unfolding headers_ok_def by metis

lemma lists_cong:
  assumes "lists_ok obj free fs m" and "\<And>p n. obj p = Some n \<Longrightarrow> same_object m m' p n"
    and "length fs' = length fs" and "\<And>c. c < 29 \<Longrightarrow> myFreeList (fs' ! c) = myFreeList (fs ! c)"
  shows "lists_ok obj free fs' m'"
proof -
  have "chain m' (myFreeList (fs' ! c)) (free c)" if c: "c < 29" for c
  proof -
    have ch: "chain m (myFreeList (fs ! c)) (free c)" "\<forall>x \<in> set (free c). \<exists>n. obj x = Some n"
      using assms(1) c by (fastforce simp: lists_ok_def)+
    have "read64 m x = read64 m' x" if x: "x \<in> set (free c)" for x
    proof -
      obtain n where n: "obj x = Some n" using ch(2) x by blast
      show ?thesis by (rule same_object_link [OF assms(2) [OF n] list_size [OF assms(1) c x n]])
    qed
    then have "chain m (myFreeList (fs ! c)) (free c) = chain m' (myFreeList (fs ! c)) (free c)" by (rule chain_cong)
    with ch(1) assms(4) [OF c] show ?thesis by simp
  qed
  with assms(1) show ?thesis by (simp add: lists_ok_def)
qed

lemma carve_inv:
  assumes "k_inv obj free (k, os, m)" and "c < 29" and "mapping_ok mm chunk (sz + 8) os" and "sz \<le> 2 ^ 31"
    and "bump_malloc chunk mm (sz + 8) (fl_super (myLittleHeap k ! c), os) = (b, h', os')"
    and "m' = write64 m b (word_of_nat sz)"
    and "k' = k\<lparr>myLittleHeap := (myLittleHeap k)[c := (myLittleHeap k ! c)\<lparr>fl_super := h'\<rparr>]\<rparr>"
  shows "k_inv (obj(b + 8 \<mapsto> sz)) free (k', os', m') \<and> obj (b + 8) = None \<and> 0 < b \<and> (\<forall>p n. obj p = Some n \<longrightarrow> same_object m m' p n)"
proof -
  have I: "length (myLittleHeap k) = 29" "lists_ok obj free (myLittleHeap k) m" "headers_ok obj m" "regions_ok obj (heaps k) os"
    using assms(1) by simp_all
  have cl: "c < length (heaps k)" "heaps k ! c = fl_super (myLittleHeap k ! c)"
    using assms(2) I(1) by (simp_all add: heaps_nth) (simp add: heaps_def)
  note R = region_carve [OF I(4) cl(1) assms(3), unfolded cl(2), OF assms(5)]
  then have R': "regions_ok (obj(b + 8 \<mapsto> sz)) ((heaps k)[c := h']) os'" "obj (b + 8) = None" "0 < b" "b + 8 + sz < 2 ^ 64 + 1"
    and out: "{b..<b + 8 + sz} \<inter> (\<Union>p. region obj (heaps k) (Object p)) = {}" by auto
  have same: "same_object m m' p n" if "obj p = Some n" for p n
  proof (rule object_kept [OF I(4) that, where writes = "{b..<b + 8}"])
    have "{p - 8..<p + n} = region obj (heaps k) (Object p)" using that by simp
    moreover have "{b..<b + 8} \<subseteq> {b..<b + 8 + sz}" by auto
    ultimately show "{b..<b + 8} \<inter> {p - 8..<p + n} = {}" using out by blast
    show "m x = m' x" if "x \<notin> {b..<b + 8}" for x using that by (auto simp: assms(6) write64_def)
  qed
  have heads: "length (myLittleHeap k') = 29" "heaps k' = (heaps k)[c := h']"
    using assms(2) I(1) by (simp_all add: assms(7) heaps_update)
  have "lists_ok obj free (myLittleHeap k') m'"
  proof (rule lists_cong [OF I(2) same])
    show "myFreeList (myLittleHeap k' ! d) = myFreeList (myLittleHeap k ! d)" if "d < 29" for d
      using I(1) that by (cases "d = c") (simp_all add: assms(7))
  qed (use I(1) assms(7) in simp_all)
  moreover have none: "\<And>x d. d < 29 \<Longrightarrow> x \<in> set (free d) \<Longrightarrow> x \<noteq> b + 8"
    using I(2) R'(2) by (fastforce simp: lists_ok_def)
  ultimately have "lists_ok (obj(b + 8 \<mapsto> sz)) free (myLittleHeap k') m'" unfolding lists_ok_def by simp
  moreover have "headers_ok (obj(b + 8 \<mapsto> sz)) m'"
  proof -
    have "headers_ok obj m'" by (rule headers_cong [OF I(3) same])
    moreover have "unat (read64 m' b) = sz" using assms(4) by (simp add: assms(6) unat_of_nat)
    ultimately show ?thesis using assms(4) R'(3) by (simp add: headers_ok_def)
  qed
  ultimately show ?thesis using R'(1-3) heads same by simp
qed

section \<open>Release\<close>


text \<open>A size of at least 8 bytes goes to the largest class it fills.\<close>

lemma lower_class_some:
  assumes "8 \<le> n" and "n \<le> 2 ^ 31" and "c < 29"
  shows "\<exists>d \<le> c. d < 28 \<and> lower_class n c = Some d \<and> 8 * 2 ^ d \<le> n"
  using assms(3)
proof (induction c)
  case 0
  with assms(1) show ?case by (simp add: class2Size_small)
next
  case (Suc c)
  show ?case
  proof (cases "class2Size (Suc c) > n")
    case True
    with Suc show ?thesis by fastforce
  next
    case False
    have "Suc c \<noteq> 28" using False assms(2) class2Size_28 by auto
    with Suc.prems False show ?thesis by (simp add: class2Size_small)
  qed
qed

text \<open>Smaller objects have no class.\<close>

lemma lower_class_none: "n < 8 \<Longrightarrow> c < 29 \<Longrightarrow> lower_class n c = None"
proof (induction c)
  case (Suc c)
  have "n < class2Size (Suc c)"
  proof (cases "Suc c = 28")
    case True
    with Suc.prems(1) class2Size_28 show ?thesis by simp
  next
    case False
    then have "class2Size (Suc c) = 8 * 2 ^ Suc c" using Suc.prems(2) by (intro class2Size_small) simp
    moreover have "(1::nat) \<le> 2 ^ Suc c" by simp
    ultimately show ?thesis using Suc.prems(1) by linarith
  qed
  with Suc show ?case by simp
qed (simp add: class2Size_small)

lemma push_inv:
  assumes "k_inv obj free (k, os, m)" and "p \<in> live obj free" and "obj p = Some n" and "c < 29" and "8 * 2 ^ c \<le> n"
    and "fl_free p (myLittleHeap k ! c, m) = (h, m')" and "k' = k\<lparr>myLittleHeap := (myLittleHeap k)[c := h], memoryHeld := held\<rparr>"
  shows "k_inv obj (free(c := p # free c)) (k', os, m') \<and> live obj (free(c := p # free c)) = live obj free - {p}
    \<and> (\<forall>q j. obj q = Some j \<and> q \<noteq> p \<longrightarrow> same_object m m' q j)"
proof -
  let ?free = "free(c := p # free c)"
  have I: "length (myLittleHeap k) = 29" "lists_ok obj free (myLittleHeap k) m" "headers_ok obj m" "regions_ok obj (heaps k) os"
    using assms(1) by simp_all
  have p: "8 < p" "n \<le> 2 ^ 31" using I(3) assms(3) by (auto simp: headers_ok_def)
  then have f: "h = (myLittleHeap k ! c)\<lparr>myFreeList := p\<rparr>" "m' = write64 m p (word_of_nat (myFreeList (myLittleHeap k ! c)))"
    using assms(6) by (auto simp: fl_free_def)
  have n8: "8 \<le> n"
  proof -
    have "(1::nat) \<le> 2 ^ c" by simp
    with assms(5) show ?thesis by linarith
  qed
  have same: "same_object m m' q j" if "obj q = Some j" "q \<noteq> p" for q j
  proof (rule object_kept [OF I(4) that(1), where writes = "{p..<p + 8}"])
    have "{p..<p + 8} \<subseteq> {p - 8..<p + n}" using n8 by auto
    with objects_apart [OF I(4) assms(3) that(1)] that(2) show "{p..<p + 8} \<inter> {q - 8..<q + j} = {}" by blast
    show "m x = m' x" if "x \<notin> {p..<p + 8}" for x using that by (auto simp: f(2) write64_def)
  qed
  have notp: "p \<notin> set (free d)" if "d < 29" for d using assms(2) that by (simp add: live_def)
  have head: "myFreeList (myLittleHeap k ! d) < 2 ^ 64" if "d < 29" for d
  proof (cases "free d")
    case Nil
    then show ?thesis using I(2) that by (auto simp: lists_ok_def)
  next
    case (Cons x xs)
    then have "myFreeList (myLittleHeap k ! d) = x" "\<exists>j. obj x = Some j" using I(2) that by (fastforce simp: lists_ok_def)+
    moreover have "x < 2 ^ 64" if "obj x = Some j" for j
    proof -
      have "region obj (heaps k) (Object x) \<subseteq> {0<..<2 ^ 64}" using I(4) unfolding regions_ok_def by blast
      moreover have "8 < x" using I(3) that by (auto simp: headers_ok_def)
      moreover have "8 \<le> j" using list_size [OF I(2) \<open>d < 29\<close> _ that] Cons by simp
      ultimately show ?thesis using that by (auto simp: subset_iff dest: spec [of _ x])
    qed
    ultimately show ?thesis by blast
  qed
  have link: "unat (read64 m' p) = myFreeList (myLittleHeap k ! c)" using head [OF assms(4)] by (simp add: f(2) unat_of_nat)
  have ch: "chain m' (myFreeList (myLittleHeap k ! d)) (free d)" if d: "d < 29" for d
  proof -
    have "read64 m x = read64 m' x" if x: "x \<in> set (free d)" for x
    proof -
      obtain j where j: "obj x = Some j" using I(2) d x by (fastforce simp: lists_ok_def)
      have "x \<noteq> p" using notp [OF d] x by blast
      from same_object_link [OF same [OF j this] list_size [OF I(2) d x j]] show ?thesis .
    qed
    then have "chain m a (free d) = chain m' a (free d)" for a by (rule chain_cong)
    moreover have "chain m (myFreeList (myLittleHeap k ! d)) (free d)" using I(2) d unfolding lists_ok_def by blast
    ultimately show ?thesis by blast
  qed
  have "lists_ok obj ?free (myLittleHeap k') m'" unfolding lists_ok_def
  proof (intro allI impI conjI)
    fix d :: nat assume d: "d < 29"
    show "chain m' (myFreeList (myLittleHeap k' ! d)) (?free d)"
      using ch [OF d] ch [OF assms(4)] link p(1) I(1) d by (cases "d = c") (simp_all add: assms(7) f(1))
    show "distinct (?free d)" using I(2) d notp [OF d] by (auto simp: lists_ok_def)
    show "\<forall>x \<in> set (?free d). \<exists>n. obj x = Some n \<and> 8 * 2 ^ d \<le> n" using I(2) d assms(3,5) by (auto simp: lists_ok_def)
    fix e :: nat assume e: "e < 29" "d \<noteq> e"
    have "set (free d) \<inter> set (free e) = {}" using I(2) d e by (simp add: lists_ok_def)
    then show "set (?free d) \<inter> set (?free e) = {}" using notp [OF d] notp [OF e(1)] e(2) by auto
  qed
  moreover have "headers_ok obj m'" unfolding headers_ok_def
  proof (intro allI impI)
    fix q j assume q: "obj q = Some j"
    have old: "8 < q \<and> j \<le> 2 ^ 31 \<and> unat (read64 m (q - 8)) = j" using I(3) q by (simp add: headers_ok_def)
    have "read64 m (q - 8) = read64 m' (q - 8)"
    proof (cases "q = p")
      case True
      show ?thesis by (rule read64_cong) (use True old in \<open>simp add: f(2) write64_frame\<close>)
    next
      case False
      with same_object_header [OF same [OF q]] old show ?thesis by simp
    qed
    with old show "8 < q \<and> j \<le> 2 ^ 31 \<and> unat (read64 m' (q - 8)) = j" by simp
  qed
  moreover have "heaps k' = heaps k" "length (myLittleHeap k') = 29"
    using assms(4) I(1) by (simp_all add: assms(7) f(1) heaps_def list_update_append map_update heaps_nth [symmetric] list_update_same_conv)
  moreover have "y \<in> live obj ?free \<longleftrightarrow> y \<in> live obj free \<and> y \<noteq> p" for y
    using assms(4) by (auto simp: live_def split: if_splits)
  then have "live obj ?free = live obj free - {p}" by blast
  ultimately show ?thesis using I same by simp
qed

section \<open>Properties\<close>

lemma malloc_result:
  assumes "k_inv obj free (k, os, m)" and "mapping_ok mm chunk (sz + 8) os" and "0 < sz" and "sz \<le> 2 ^ 31"
  shows "\<exists>p k' os' m' obj' free' n. k_malloc chunk mm sz (k, os, m) = Some (p, (k', os', m')) \<and> k_inv obj' free' (k', os', m')
    \<and> live obj' free' = insert p (live obj free) \<and> p \<notin> live obj free \<and> obj' p = Some n \<and> sz \<le> n
    \<and> (\<forall>q j. obj q = Some j \<longrightarrow> obj' q = Some j \<and> same_object m m' q j)
    \<and> (obj p = None \<or> (\<exists>c < 29. size2Class sz = Some c \<and> p \<in> set (free c)))"
proof -
  obtain c where c: "c < 29" "size2Class sz = Some c" "sz \<le> 8 * 2 ^ c" using size2Class_fits [OF assms(3,4)] by blast
  have I: "length (myLittleHeap k) = 29" "lists_ok obj free (myLittleHeap k) m" using assms(1) by simp_all
  have ch: "chain m (myFreeList (myLittleHeap k ! c)) (free c)" using I(2) c(1) unfolding lists_ok_def by blast
  have sz: "sz \<le> maxObjectSize" using assms(4) by (simp add: maxObjectSize)
  show ?thesis
  proof (cases "free c")
    case Nil
    then have head: "myFreeList (myLittleHeap k ! c) = 0" using ch by simp
    obtain b h' os' where b: "bump_malloc chunk mm (sz + 8) (fl_super (myLittleHeap k ! c), os) = (b, h', os')" by (metis surj_pair)
    note C = carve_inv [OF assms(1) c(1) assms(2,4) b refl refl]
    have "(sz + 8) mod 2 ^ 64 = sz + 8" using assms(4) by simp
    with b C have "fl_malloc chunk mm sz (myLittleHeap k ! c, os, m)
        = Some (b + 8, (myLittleHeap k ! c)\<lparr>fl_super := h'\<rparr>, os', write64 m b (word_of_nat sz))"
      by (simp add: fl_malloc_def size_malloc_def head)
    then have k: "k_malloc chunk mm sz (k, os, m)
        = Some (b + 8, (k\<lparr>myLittleHeap := (myLittleHeap k)[c := (myLittleHeap k ! c)\<lparr>fl_super := h'\<rparr>]\<rparr>, os', write64 m b (word_of_nat sz)))"
      using c(1,2) sz I(1) by (simp add: k_malloc_def Let_def)
    have none: "b + 8 \<notin> set (free d)" if "d < 29" for d
      using C I(2) that by (fastforce simp: lists_ok_def)
    have l: "live (obj(b + 8 \<mapsto> sz)) free = insert (b + 8) (live obj free)" using none by (auto simp: live_def)
    have n: "b + 8 \<notin> live obj free" using C by (simp add: live_def)
    have i: "k_inv (obj(b + 8 \<mapsto> sz)) free (k\<lparr>myLittleHeap := (myLittleHeap k)[c := (myLittleHeap k ! c)\<lparr>fl_super := h'\<rparr>]\<rparr>, os', write64 m b (word_of_nat sz))"
      using C by blast
    have o: "(obj(b + 8 \<mapsto> sz)) (b + 8) = Some sz" by simp
    have b: "\<forall>q j. obj q = Some j \<longrightarrow> (obj(b + 8 \<mapsto> sz)) q = Some j \<and> same_object m (write64 m b (word_of_nat sz)) q j"
      using C by auto
    show ?thesis by (intro exI conjI, rule k, rule i, rule l, rule n, rule o, rule order_refl, rule b) (use C in blast)
  next
    case (Cons x xs)
    note P = pop_inv [OF assms(1) c(1) Cons]
    have k: "k_malloc chunk mm sz (k, os, m)
        = Some (x, (k\<lparr>myLittleHeap := (myLittleHeap k)[c := (myLittleHeap k ! c)\<lparr>myFreeList := unat (read64 m x)\<rparr>]\<rparr>, os, m))"
      using c(1,2) sz I(1) P(4,5) by (simp add: k_malloc_def fl_malloc_def Let_def)
    obtain n where "obj x = Some n" "8 * 2 ^ c \<le> n" using P(6) by blast
    then have o: "obj x = Some n" "sz \<le> n" using c(3) by simp_all
    have b: "\<forall>q j. obj q = Some j \<longrightarrow> obj q = Some j \<and> same_object m m q j" by (simp add: same_object_def)
    show ?thesis by (intro exI conjI, rule k, rule P(1), rule P(2), rule P(3), rule o(1), rule o(2), rule b) (use c(1,2) Cons in simp)
  qed
qed

lemma free_result:
  assumes "k_inv obj free (k, os, m)" and "p \<in> live obj free" and "obj p = Some n"
  shows "n < 8 \<Longrightarrow> k_free p (k, os, m) = None"
    and "8 \<le> n \<Longrightarrow> \<exists>k' m' free'. k_free p (k, os, m) = Some (k', os, m') \<and> k_inv obj free' (k', os, m')
      \<and> live obj free' = live obj free - {p} \<and> (\<forall>q j. obj q = Some j \<and> q \<noteq> p \<longrightarrow> same_object m m' q j)"
proof -
  have I: "length (myLittleHeap k) = 29" "headers_ok obj m" using assms(1) by simp_all
  then have p: "8 < p" "n \<le> 2 ^ 31" "unat (read64 m (p - 8)) = n" using assms(3) by (auto simp: headers_ok_def)
  then have sz: "size_getSize p m = Some n" "\<not> maxObjectSize < n" by (simp_all add: size_getSize_def maxObjectSize)
  show "k_free p (k, os, m) = None" if n: "n < 8"
  proof (cases "n = 0")
    case True
    have "\<not> sub64 0 1 div 8 < length cl" by (simp add: sub64_def cl_def)
    then show ?thesis using sz True by (simp add: k_free_def size2Class_def Let_def)
  next
    case False
    then obtain c where "c < 29" "size2Class n = Some c" using size2Class_fits [of n] p(2) by blast
    with lower_class_none [OF n this(1)] sz show ?thesis by (simp add: k_free_def)
  qed
  assume n: "8 \<le> n"
  then obtain c where c: "c < 29" "size2Class n = Some c" using size2Class_fits [of n] p(2) by fastforce
  obtain d where d: "d < 28" "lower_class n c = Some d" "8 * 2 ^ d \<le> n" using lower_class_some [OF n p(2) c(1)] by blast
  obtain h m' where f: "fl_free p (myLittleHeap k ! d, m) = (h, m')" by (metis surj_pair)
  have "k_free p (k, os, m) = Some (k\<lparr>myLittleHeap := (myLittleHeap k)[d := h], memoryHeld := (memoryHeld k + n) mod 2 ^ 64\<rparr>, os, m')"
    using sz c(2) d(1,2) f I(1) by (simp add: k_free_def Let_def)
  with push_inv [OF assms _ d(3) f refl, of "(memoryHeld k + n) mod 2 ^ 64"] d(1)
  show "\<exists>k' m' free'. k_free p (k, os, m) = Some (k', os, m') \<and> k_inv obj free' (k', os, m')
      \<and> live obj free' = live obj free - {p} \<and> (\<forall>q j. obj q = Some j \<and> q \<noteq> p \<longrightarrow> same_object m m' q j)"
    by (intro exI conjI) auto
qed

text \<open>The abstract heap: live objects with the sizes asked for, and their bytes.\<close>

definition serves_objects :: "(addr \<Rightarrow> nat option) \<Rightarrow> kstate \<Rightarrow> bool" where
  "serves_objects A s \<longleftrightarrow>
     (\<exists>obj free. k_inv obj free s \<and> dom A = live obj free \<and> (\<forall>p sz. A p = Some sz \<longrightarrow> (\<exists>n. obj p = Some n \<and> sz \<le> n)))"

definition keeps_bytes :: "(addr \<Rightarrow> nat option) \<Rightarrow> mem \<Rightarrow> mem \<Rightarrow> bool" where
  "keeps_bytes A m m' \<longleftrightarrow> (\<forall>p sz x. A p = Some sz \<and> p \<le> x \<and> x < p + sz \<longrightarrow> m' x = m x)"

lemma served_apart:
  assumes "serves_objects A s" and "A p = Some i" and "A q = Some j" and "p \<noteq> q"
  shows "{p..<p + i} \<inter> {q..<q + j} = {}"
proof -
  obtain obj free where o: "k_inv obj free s" "\<forall>p sz. A p = Some sz \<longrightarrow> (\<exists>n. obj p = Some n \<and> sz \<le> n)"
    using assms(1) by (auto simp: serves_objects_def)
  obtain k os m where s: "s = (k, os, m)" by (metis surj_pair)
  obtain a b where ab: "obj p = Some a" "i \<le> a" "obj q = Some b" "j \<le> b" using o(2) assms(2,3) by blast
  have "{p - 8..<p + a} \<inter> {q - 8..<q + b} = {}" using o(1) ab(1,3) assms(4) by (intro objects_apart [of obj "heaps k" os]) (simp_all add: s)
  moreover have "{p..<p + i} \<subseteq> {p - 8..<p + a}" "{q..<q + j} \<subseteq> {q - 8..<q + b}" using ab by auto
  ultimately show ?thesis by blast
qed

lemma keeps_bytesI:
  assumes "\<forall>p sz. A p = Some sz \<longrightarrow> (\<exists>n. obj p = Some n \<and> sz \<le> n)" and "\<And>q j. A q \<noteq> None \<Longrightarrow> obj q = Some j \<Longrightarrow> same_object m m' q j"
  shows "keeps_bytes A m m'"
  unfolding keeps_bytes_def
proof (intro allI impI)
  fix p sz x assume a: "A p = Some sz \<and> p \<le> x \<and> x < p + sz"
  then obtain n where "obj p = Some n" "sz \<le> n" using assms(1) by blast
  moreover from \<open>obj p = Some n\<close> have "same_object m m' p n" using assms(2) [of p n] a by simp
  ultimately have "m x = m' x" using a unfolding same_object_def by (meson diff_le_self le_trans less_le_trans nat_add_left_cancel_le)
  then show "m' x = m x" ..
qed

lemma object_store_inv:
  assumes "k_inv obj free (k, os, m)" and "p \<in> live obj free" and "obj p = Some n" and "p \<le> x" and "x < p + n"
  shows "k_inv obj free (k, os, m(x := v))"
proof -
  let ?m = "m(x := v)"
  have I: "length (myLittleHeap k) = 29" "lists_ok obj free (myLittleHeap k) m" "headers_ok obj m" "regions_ok obj (heaps k) os"
    using assms(1) by simp_all
  have same: "same_object m ?m q j" if "obj q = Some j" "q \<noteq> p" for q j
  proof (rule object_kept [OF I(4) that(1), where writes = "{x}"])
    show "{x} \<inter> {q - 8..<q + j} = {}" using objects_apart [OF I(4) assms(3) that(1)] that(2) assms(4,5) by fastforce
  qed simp
  have "headers_ok obj ?m" unfolding headers_ok_def
  proof (intro allI impI)
    fix q j assume q: "obj q = Some j"
    have old: "8 < q \<and> j \<le> 2 ^ 31 \<and> unat (read64 m (q - 8)) = j" using I(3) q by (simp add: headers_ok_def)
    have "read64 m (q - 8) = read64 ?m (q - 8)"
    proof (cases "q = p")
      case True
      show ?thesis by (rule read64_cong) (use True old assms(4) in simp)
    next
      case False
      with same_object_header [OF same [OF q]] old show ?thesis by simp
    qed
    with old show "8 < q \<and> j \<le> 2 ^ 31 \<and> unat (read64 ?m (q - 8)) = j" by simp
  qed
  moreover have "chain ?m (myFreeList (myLittleHeap k ! d)) (free d)" if d: "d < 29" for d
  proof -
    have "read64 m y = read64 ?m y" if y: "y \<in> set (free d)" for y
    proof -
      obtain j where j: "obj y = Some j" using I(2) d y by (fastforce simp: lists_ok_def)
      have "y \<noteq> p" using assms(2) d y by (auto simp: live_def)
      from same_object_link [OF same [OF j this] list_size [OF I(2) d y j]] show ?thesis .
    qed
    then have "chain m a (free d) = chain ?m a (free d)" for a by (rule chain_cong)
    moreover have "chain m (myFreeList (myLittleHeap k ! d)) (free d)" using I(2) d unfolding lists_ok_def by blast
    ultimately show ?thesis by blast
  qed
  then have "lists_ok obj free (myLittleHeap k) ?m" using I(2) by (simp add: lists_ok_def)
  ultimately show ?thesis using I by simp
qed

lemma serves_malloc:
  assumes "serves_objects A (k, os, m)" and "0 < sz" and "sz \<le> 2 ^ 31" and "mapping_ok mm chunk (sz + 8) os"
  shows "\<exists>p k' os' m'. k_malloc chunk mm sz (k, os, m) = Some (p, (k', os', m')) \<and> A p = None
      \<and> serves_objects (A(p \<mapsto> sz)) (k', os', m') \<and> keeps_bytes A m m'"
proof -
  obtain obj free where o: "k_inv obj free (k, os, m)" "dom A = live obj free"
    "\<forall>p sz. A p = Some sz \<longrightarrow> (\<exists>n. obj p = Some n \<and> sz \<le> n)" using assms(1) by (auto simp: serves_objects_def)
  obtain p k' os' m' obj' free' n where r: "k_malloc chunk mm sz (k, os, m) = Some (p, (k', os', m'))" "k_inv obj' free' (k', os', m')"
    "live obj' free' = insert p (live obj free)" "p \<notin> live obj free" "obj' p = Some n" "sz \<le> n"
    "\<forall>q j. obj q = Some j \<longrightarrow> obj' q = Some j \<and> same_object m m' q j" using malloc_result [OF o(1) assms(4,2,3)] by blast
  have none: "A p = None" using r(4) o(2) by (auto simp: domIff [symmetric])
  have "dom (A(p \<mapsto> sz)) = live obj' free'" using r(3) o(2) by simp
  moreover have "\<exists>n. obj' q = Some n \<and> j \<le> n" if "(A(p \<mapsto> sz)) q = Some j" for q j
  proof (cases "q = p")
    case True
    with that r(5,6) show ?thesis by simp
  next
    case False
    with that have "A q = Some j" by simp
    then obtain i where "obj q = Some i" "j \<le> i" using o(3) by blast
    with r(7) show ?thesis by blast
  qed
  ultimately have "serves_objects (A(p \<mapsto> sz)) (k', os', m')" using r(2) unfolding serves_objects_def by blast
  moreover have "keeps_bytes A m m'" by (rule keeps_bytesI [OF o(3)]) (use r(7) in blast)
  ultimately show ?thesis using r(1) none by blast
qed

lemma serves_free:
  assumes "serves_objects A (k, os, m)" and "A p = Some sz" and "8 \<le> sz"
  shows "\<exists>k' os' m'. k_free p (k, os, m) = Some (k', os', m') \<and> serves_objects (A(p := None)) (k', os', m') \<and> keeps_bytes (A(p := None)) m m'"
proof -
  obtain obj free where o: "k_inv obj free (k, os, m)" "dom A = live obj free"
    "\<forall>p sz. A p = Some sz \<longrightarrow> (\<exists>n. obj p = Some n \<and> sz \<le> n)" using assms(1) by (auto simp: serves_objects_def)
  obtain n where n: "obj p = Some n" "8 \<le> n" using o(3) assms(2,3) by fastforce
  have "p \<in> live obj free" using assms(2) o(2) by auto
  from free_result(2) [OF o(1) this n] obtain k' m' free' where r: "k_free p (k, os, m) = Some (k', os, m')" "k_inv obj free' (k', os, m')"
    "live obj free' = live obj free - {p}" "\<forall>q j. obj q = Some j \<and> q \<noteq> p \<longrightarrow> same_object m m' q j" by blast
  have "dom (A(p := None)) = live obj free'" using r(3) o(2) by simp
  moreover have A: "\<forall>q sz. (A(p := None)) q = Some sz \<longrightarrow> (\<exists>n. obj q = Some n \<and> sz \<le> n)" using o(3) by simp
  ultimately have "serves_objects (A(p := None)) (k', os, m')" using r(2) unfolding serves_objects_def by blast
  moreover have "keeps_bytes (A(p := None)) m m'" by (rule keeps_bytesI [OF A]) (use r(4) in \<open>auto split: if_splits\<close>)
  ultimately show ?thesis using r(1) by blast
qed

lemma serves_store:
  assumes "serves_objects A (k, os, m)" and "A p = Some sz" and "p \<le> x" and "x < p + sz"
  shows "serves_objects A (k, os, m(x := v))"
proof -
  obtain obj free where o: "k_inv obj free (k, os, m)" "dom A = live obj free"
    "\<forall>p sz. A p = Some sz \<longrightarrow> (\<exists>n. obj p = Some n \<and> sz \<le> n)" using assms(1) by (auto simp: serves_objects_def)
  obtain n where n: "obj p = Some n" "x < p + n" using o(3) assms(2-4) by fastforce
  have "p \<in> live obj free" using assms(2) o(2) by auto
  from object_store_inv [OF o(1) this n(1) assms(3) n(2)] o(2,3) show ?thesis unfolding serves_objects_def by blast
qed

text \<open>C39: The heap of the containers refines the abstract heap of live objects with their bytes.  As long as the system finds
  room for a new chunk, \<open>malloc\<close> of up to \<open>2 ^ 31\<close> bytes returns an object that is not live; \<open>free\<close> takes back any live object of at
  least eight bytes; both keep every byte of the other live objects, whose headers and the links of the free lists survive
  any writes of the program into live objects; and live objects never overlap.\<close>

theorem source_heap_refines:
  assumes "serves_objects A (k, os, m)"
  shows "(\<forall>sz mm. 0 < sz \<and> sz \<le> 2 ^ 31 \<and> mapping_ok mm chunk (sz + 8) os \<longrightarrow>
      (\<exists>p k' os' m'. k_malloc chunk mm sz (k, os, m) = Some (p, (k', os', m')) \<and> A p = None
        \<and> serves_objects (A(p \<mapsto> sz)) (k', os', m') \<and> keeps_bytes A m m'))
    \<and> (\<forall>p sz. A p = Some sz \<and> 8 \<le> sz \<longrightarrow>
      (\<exists>k' os' m'. k_free p (k, os, m) = Some (k', os', m') \<and> serves_objects (A(p := None)) (k', os', m') \<and> keeps_bytes (A(p := None)) m m'))
    \<and> (\<forall>p sz x v. A p = Some sz \<and> p \<le> x \<and> x < p + sz \<longrightarrow> serves_objects A (k, os, m(x := v)))
    \<and> (\<forall>p q i j. A p = Some i \<and> A q = Some j \<and> p \<noteq> q \<longrightarrow> {p..<p + i} \<inter> {q..<q + j} = {})"
  apply (intro conjI allI impI; elim conjE)
     apply (rule serves_malloc [OF assms]; assumption)
    apply (rule serves_free [OF assms]; assumption)
   apply (rule serves_store [OF assms]; assumption)
  apply (rule served_apart [OF assms]; assumption)
  done

lemma kingsley_start_inv: "k_inv Map.empty (\<lambda>c. []) (KingsleyHeap, [], m)"
proof -
  have "region Map.empty (heaps KingsleyHeap) r = {}" for r
  proof (cases r)
    case (Spare i)
    have "set (heaps KingsleyHeap) = {BumpAlloc}" by (auto simp: heaps_def KingsleyHeap_def NUMBINS_def)
    then have "i < length (heaps KingsleyHeap) \<Longrightarrow> heaps KingsleyHeap ! i = BumpAlloc" using nth_mem by blast
    then show ?thesis by (simp add: Spare BumpAlloc_def)
  qed simp
  then have "regions_ok Map.empty (heaps KingsleyHeap) []" by (simp add: regions_ok_def mapped_def)
  moreover have "lists_ok Map.empty (\<lambda>c. []) (myLittleHeap KingsleyHeap) m"
    by (simp add: lists_ok_def KingsleyHeap_def NUMBINS_def)
  ultimately show ?thesis by (simp add: headers_ok_def KingsleyHeap_def NUMBINS_def)
qed

lemma start_serves: "serves_objects Map.empty (KingsleyHeap, [], m)"
proof -
  have "live Map.empty (\<lambda>c. []) = {}" by (simp add: live_def)
  with kingsley_start_inv [of m] show ?thesis unfolding serves_objects_def by (intro exI [of _ Map.empty] exI [of _ "\<lambda>c. []"]) auto
qed

theorem source_heap_refines_witness:
  "\<exists>p k os m. k_malloc 4096 (\<lambda>os n. 65536) 20 (KingsleyHeap, [], \<lambda>x. 0) = Some (p, (k, os, m)) \<and> serves_objects [p \<mapsto> 20] (k, os, m)
    \<and> serves_objects [p \<mapsto> 20] (k, os, m(p + 3 := 7)) \<and> k_free p (k, os, m) \<noteq> None"
proof -
  have "mapping_ok (\<lambda>os n. 65536) 4096 (20 + 8) []" by (simp add: mapping_ok_def mapped_def)
  then obtain p k os m where r: "k_malloc 4096 (\<lambda>os n. 65536) 20 (KingsleyHeap, [], \<lambda>x. 0) = Some (p, (k, os, m))"
    "serves_objects [p \<mapsto> 20] (k, os, m)"
    using source_heap_refines [OF start_serves [of "\<lambda>x. 0"], of 4096, THEN conjunct1, rule_format, of 20 "\<lambda>os n. 65536"] by auto
  note S = source_heap_refines [OF r(2), of 4096, THEN conjunct2]
  have "serves_objects [p \<mapsto> 20] (k, os, m(p + 3 := 7))" using S [THEN conjunct2, THEN conjunct1, rule_format, of p 20 "p + 3" 7] by simp
  moreover have "k_free p (k, os, m) \<noteq> None" using S [THEN conjunct1, rule_format, of p 20] by auto
  ultimately show ?thesis using r by blast
qed

lemma not_reused:
  assumes "k_inv obj free (k, os, m)" and p: "p \<in> live obj free" "obj p = Some 128"
  shows "\<exists>s. k_free p (k, os, m) = Some s \<and> (mapping_ok mm chunk (128 + 8) os \<longrightarrow> fst (the (k_malloc chunk mm 128 s)) \<noteq> p)"
proof -
  have I: "length (myLittleHeap k) = 29" "headers_ok obj m" using assms(1) by simp_all
  have hd: "8 < p" "unat (read64 m (p - 8)) = 128" using I(2) p(2) by (auto simp: headers_ok_def)
  then have sz: "size_getSize p m = Some 128" "\<not> maxObjectSize < 128" by (simp_all add: size_getSize_def maxObjectSize)
  have "lower_class 128 4 = Some 4" using lower_class.simps(2) [of 128 3] by (simp add: class2Size_small)
  then have lc: "lower_class 128 5 = Some 4" using lower_class.simps(2) [of 128 4] by (simp add: class2Size_small)
  obtain h m' where f: "fl_free p (myLittleHeap k ! 4, m) = (h, m')" by (metis surj_pair)
  define k' where "k' = k\<lparr>myLittleHeap := (myLittleHeap k)[4 := h], memoryHeld := (memoryHeld k + 128) mod 2 ^ 64\<rparr>"
  have r: "k_free p (k, os, m) = Some (k', os, m')"
    using sz lc f I(1) by (simp add: k_free_def Let_def size2Class_128 k'_def)
  let ?free = "free(4 := p # free 4)"
  have inv: "k_inv obj ?free (k', os, m')" using push_inv [OF assms(1) p _ _ f k'_def] by simp
  have "fst (the (k_malloc chunk mm 128 (k', os, m'))) \<noteq> p" if map_ok: "mapping_ok mm chunk (128 + 8) os"
  proof -
    note M = malloc_result [OF inv map_ok]
    obtain q s where q: "k_malloc chunk mm 128 (k', os, m') = Some (q, s)" "obj q = None \<or> q \<in> set (?free 5)"
      using M size2Class_128 by fastforce
    have "lists_ok obj ?free (myLittleHeap k') m'" using inv by simp
    from lists_disjoint [OF this, of 4 5] have "p \<notin> set (?free 5)" by simp
    then have "q \<noteq> p" using q(2) p(2) by auto
    with q(1) show ?thesis by simp
  qed
  with r show ?thesis by blast
qed

text \<open>The size classes at their limits.  Every size up to \<open>2 ^ 31\<close> is served from the smallest class that fits it, with one exception: 128
  bytes, for which the class above is searched, although an object of 128 bytes is put back into the class below, so that such a request never
  finds the object it could reuse.  Freeing an object of less than eight bytes looks for a class below the first one, outside
  the array; and a request above \<open>2 ^ 31\<close> bytes, which the heap should pass on, indexes a class above the last one, because the largest size
  is computed by a shift of \<open>int\<close> that comes out negative.\<close>

theorem kingsley_boundaries:
  assumes "k_inv obj free (k, os, m)"
  shows "(0 < sz \<and> sz \<le> 2 ^ 31 \<longrightarrow> (\<exists>c < 29. size2Class sz = Some c \<and> sz \<le> 8 * 2 ^ c \<and> (c = 0 \<or> 4 * 2 ^ c < sz \<or> sz = 128)))
    \<and> (p \<in> live obj free \<and> obj p = Some 128 \<longrightarrow>
        (\<exists>s. k_free p (k, os, m) = Some s \<and> (mapping_ok mm chunk (128 + 8) os \<longrightarrow> fst (the (k_malloc chunk mm 128 s)) \<noteq> p)))
    \<and> (p \<in> live obj free \<and> obj p = Some n \<and> n < 8 \<longrightarrow> k_free p (k, os, m) = None)
    \<and> (2 ^ 31 < sz \<and> sz \<le> maxObjectSize \<longrightarrow> k_malloc chunk mm sz (k, os, m) = None)"
proof -
  have I: "length (myLittleHeap k) = 29" "headers_ok obj m" using assms by simp_all
  have small: "\<exists>c < 29. size2Class sz = Some c \<and> sz \<le> 8 * 2 ^ c \<and> (c = 0 \<or> 4 * 2 ^ c < sz \<or> sz = 128)" if "0 < sz" "sz \<le> 2 ^ 31"
    using size2Class_fits [OF that] size2Class_small [OF that(1)] size2Class_large [of sz] by (metis linorder_neqE_nat option.inject)
  have big: "k_malloc chunk mm sz (k, os, m) = None" if "2 ^ 31 < sz" "sz \<le> maxObjectSize"
  proof -
    have "(128::nat) < 2 ^ 31" by simp
    with that(1) have "128 < sz" by (rule less_trans [rotated])
    then obtain c where c: "size2Class sz = Some c" "sz \<le> 8 * 2 ^ c" using size2Class_large by blast
    then have "(2::nat) ^ 31 < 2 ^ (c + 3)" using that(1) by (simp add: power_add)
    then have "28 < c" using power_less_imp_less_exp [of "2::nat" 31 "c + 3"] by simp
    with c(1) that(2) I(1) show ?thesis by (simp add: k_malloc_def)
  qed
  show ?thesis
    apply (intro conjI impI; elim conjE)
       apply (rule small; assumption)
      apply (rule not_reused [OF assms]; assumption)
     apply (rule free_result(1) [OF assms]; assumption)
    apply (rule big; assumption)
    done
qed

theorem kingsley_boundaries_witness: "size2Class 128 = Some 5 \<and> k_malloc 4096 (\<lambda>os n. 65536) 3000000000 (KingsleyHeap, [], \<lambda>x. 0) = None
    \<and> (\<exists>c < 29. size2Class 2000000000 = Some c)"
  using kingsley_boundaries [OF kingsley_start_inv [of "\<lambda>x. 0"], of 3000000000 0 "\<lambda>os n. 65536" 4096 0]
    kingsley_boundaries [OF kingsley_start_inv [of "\<lambda>x. 0"], of 2000000000 0 "\<lambda>os n. 65536" 4096 0]
  by (auto simp: size2Class_128 maxObjectSize)

end
