(* ===== verification/SpinLock.thy ===== *)
theory SpinLock
  imports Prelude
begin

text \<open>
  The spin lock of the Exterminator library (\<open>src/exterminator/src/spinlock.h\<close>), as interleaved single accesses of its
  word by any number of threads.  \<open>Atomic::exchange\<close> is one step, and so is every plain read or write of \<open>mutex\<close>;
  \<open>multi\<close> is \<open>anyThreadCreated\<close>, which the library sets to 1.  The delay loop and \<open>yieldProcessor\<close> take no step
  of their own; the number of delays doubles up to \<open>MAX_SPIN_LIMIT\<close>.
\<close>

section \<open>Steps\<close>

definition MAX_SPIN_LIMIT :: nat where "MAX_SPIN_LIMIT = 1024"

text \<open>What a thread is doing: nothing with the lock, in \<open>contendedLock\<close> with its \<open>spinCount\<close>, in \<open>trylock\<close> between its test and its
  exchange, or holding the lock.\<close>

datatype lphase = Outside | Contended nat | Trying | Holding

record spin_lock =
  mutex :: bool
  phases :: "nat \<Rightarrow> lphase"

definition SpinLockType :: spin_lock where
  "SpinLockType = \<lparr>mutex = False, phases = (\<lambda>i. Outside)\<rparr>"

definition set_phase :: "nat \<Rightarrow> lphase \<Rightarrow> spin_lock \<Rightarrow> spin_lock" where
  "set_phase i ph s = s\<lparr>phases := (phases s)(i := ph)\<rparr>"

text \<open>\<open>Atomic::exchange\<close> of the word with \<open>LOCKED\<close>, and where the thread goes by the old value.\<close>

definition exchange :: "nat \<Rightarrow> lphase \<Rightarrow> lphase \<Rightarrow> spin_lock \<Rightarrow> spin_lock" where
  "exchange i won lost s = set_phase i (if mutex s then lost else won) (s\<lparr>mutex := True\<rparr>)"

definition sl_lock :: "bool \<Rightarrow> nat \<Rightarrow> spin_lock \<Rightarrow> spin_lock" where
  "sl_lock multi i s = (if multi then exchange i Holding (Contended 1) s else set_phase i Holding (s\<lparr>mutex := True\<rparr>))"

definition contendedLock :: "nat \<Rightarrow> nat \<Rightarrow> spin_lock \<Rightarrow> spin_lock" where
  "contendedLock i spinCount s =
     (let spinCount' = 2 * spinCount
      in exchange i Holding (Contended (if spinCount' > MAX_SPIN_LIMIT then 1 else spinCount')) s)"

text \<open>The test of \<open>trylock\<close>, and its exchange.\<close>

definition trylock_test :: "bool \<Rightarrow> nat \<Rightarrow> spin_lock \<Rightarrow> spin_lock" where
  "trylock_test multi i s =
     (if multi then (if mutex s then s else set_phase i Trying s) else set_phase i Holding (s\<lparr>mutex := True\<rparr>))"

definition trylock_exchange :: "nat \<Rightarrow> spin_lock \<Rightarrow> spin_lock" where
  "trylock_exchange i s = exchange i Holding Outside s"

definition sl_unlock :: "nat \<Rightarrow> spin_lock \<Rightarrow> spin_lock" where
  "sl_unlock i s = set_phase i Outside (s\<lparr>mutex := False\<rparr>)"

text \<open>A thread unlocks only what it holds.\<close>

inductive lock_step :: "bool \<Rightarrow> nat \<Rightarrow> spin_lock \<Rightarrow> spin_lock \<Rightarrow> bool" for multi i where
  enter: "phases s i = Outside \<Longrightarrow> lock_step multi i s (sl_lock multi i s)"
| spin: "phases s i = Contended n \<Longrightarrow> lock_step multi i s (contendedLock i n s)"
| test: "phases s i = Outside \<Longrightarrow> lock_step multi i s (trylock_test multi i s)"
| attempt: "phases s i = Trying \<Longrightarrow> lock_step multi i s (trylock_exchange i s)"
| leave: "phases s i = Holding \<Longrightarrow> lock_step multi i s (sl_unlock i s)"

inductive_cases lock_stepE: "lock_step multi i s s'"

inductive lock_run :: "bool \<Rightarrow> spin_lock \<Rightarrow> bool" for multi where
  start: "lock_run multi SpinLockType"
| step: "lock_run multi s \<Longrightarrow> lock_step multi i s s' \<Longrightarrow> lock_run multi s'"

section \<open>Invariant\<close>

definition lock_inv :: "spin_lock \<Rightarrow> bool" where
  "lock_inv s \<longleftrightarrow> (\<forall>i j. phases s i = Holding \<and> phases s j = Holding \<longrightarrow> i = j)
     \<and> (mutex s \<longleftrightarrow> (\<exists>i. phases s i = Holding)) \<and> (\<forall>i n. phases s i = Contended n \<longrightarrow> (\<exists>k \<le> 10. n = 2 ^ k))"

lemma spin_bounds: "lock_inv s \<Longrightarrow> phases s i = Contended n \<Longrightarrow> \<exists>k \<le> 10. n = 2 ^ k"
  unfolding lock_inv_def by blast

lemma exchange_inv:
  assumes "lock_inv s" and "phases s i \<noteq> Holding" and "lost \<noteq> Holding" and "\<And>n. lost = Contended n \<Longrightarrow> \<exists>k \<le> 10. n = 2 ^ k"
  shows "lock_inv (exchange i Holding lost s)"
proof (cases "mutex s")
  case True
  then obtain j where j: "phases s j = Holding" using assms(1) by (auto simp: lock_inv_def)
  then have "j \<noteq> i" using assms(2) by blast
  with True j assms show ?thesis by (auto simp: lock_inv_def exchange_def set_phase_def intro!: exI [of _ j])
next
  case False
  then have "phases s j \<noteq> Holding" for j using assms(1) by (auto simp: lock_inv_def)
  with False assms(1) show ?thesis by (auto simp: lock_inv_def exchange_def set_phase_def)
qed

lemma back_off: "k \<le> 10 \<Longrightarrow> \<exists>l \<le> 10. (if 2 * 2 ^ k > MAX_SPIN_LIMIT then 1 else 2 * 2 ^ k) = (2::nat) ^ l"
proof -
  assume k: "k \<le> 10"
  show ?thesis
  proof (cases "k = 10")
    case True
    then show ?thesis by (intro exI [of _ 0]) (simp add: MAX_SPIN_LIMIT_def)
  next
    case False
    then have "(2::nat) ^ Suc k \<le> 2 ^ 10" using k by (intro power_increasing) auto
    then show ?thesis using k False by (intro exI [of _ "Suc k"]) (simp add: MAX_SPIN_LIMIT_def)
  qed
qed

lemma lock_step_inv:
  assumes "lock_step True i s s'" and "lock_inv s"
  shows "lock_inv s'"
  using assms(1)
proof cases
  case enter
  have "\<exists>k \<le> 10. (1::nat) = 2 ^ k" by (intro exI [of _ 0]) simp
  with enter assms(2) show ?thesis by (auto simp: sl_lock_def intro!: exchange_inv)
next
  case (spin n)
  then obtain k where k: "k \<le> 10" "n = 2 ^ k" using spin_bounds [OF assms(2)] by blast
  then have b: "\<exists>l \<le> 10. (if 2 * n > MAX_SPIN_LIMIT then 1 else 2 * n) = 2 ^ l" using back_off [OF k(1)] by (simp only:)
  show ?thesis unfolding spin(1) contendedLock_def Let_def by (rule exchange_inv [OF assms(2)]) (use spin(2) b in auto)
next
  case test
  with assms(2) show ?thesis by (auto simp: trylock_test_def set_phase_def lock_inv_def)
next
  case attempt
  with assms(2) show ?thesis by (auto simp: trylock_exchange_def intro!: exchange_inv)
next
  case leave
  then have "phases s j \<noteq> Holding" if "j \<noteq> i" for j using assms(2) that by (auto simp: lock_inv_def)
  with leave assms(2) show ?thesis by (auto simp: lock_inv_def sl_unlock_def set_phase_def)
qed

lemma lock_run_inv: "lock_run True s \<Longrightarrow> lock_inv s"
proof (induction rule: lock_run.induct)
  case start
  then show ?case by (simp add: lock_inv_def SpinLockType_def)
next
  case (step s i s')
  then show ?case using lock_step_inv by blast
qed


text \<open>Thread 0 takes the lock, thread 1 waits for it, thread 0 leaves.\<close>

definition demo_lock :: spin_lock where
  "demo_lock = sl_unlock 0 (sl_lock True 1 (sl_lock True 0 SpinLockType))"

lemma demo_lock_run: "lock_run True demo_lock"
proof -
  have "lock_run True (sl_lock True 0 SpinLockType)"
    by (rule lock_run.step [OF lock_run.start lock_step.enter]) (simp add: SpinLockType_def)
  then have "lock_run True (sl_lock True 1 (sl_lock True 0 SpinLockType))"
    by (rule lock_run.step [OF _ lock_step.enter]) (simp add: sl_lock_def SpinLockType_def exchange_def set_phase_def)
  then show ?thesis unfolding demo_lock_def
    by (rule lock_run.step [OF _ lock_step.leave]) (simp add: sl_lock_def SpinLockType_def exchange_def set_phase_def)
qed


text \<open>When no thread was announced (\<open>anyThreadCreated\<close> is 0) the word is only written, and two threads can hold the lock.\<close>

lemma spin_lock_unannounced: "\<exists>s. lock_run False s \<and> phases s 0 = Holding \<and> phases s 1 = Holding"
proof (intro exI conjI)
  let ?s = "sl_lock False 1 (sl_lock False 0 SpinLockType)"
  have "lock_run False (sl_lock False 0 SpinLockType)"
    by (rule lock_run.step [OF lock_run.start lock_step.enter]) (simp add: SpinLockType_def)
  then show "lock_run False ?s"
    by (rule lock_run.step [OF _ lock_step.enter]) (simp add: sl_lock_def SpinLockType_def set_phase_def)
  show "phases ?s 0 = Holding" "phases ?s 1 = Holding" by (simp_all add: sl_lock_def set_phase_def)
qed

end
